(* ===== verification/Prelude.thy ===== *)
theory Prelude
  imports Main "HOL-Library.Word" "HOL-Library.List_Lexorder"
begin

text \<open>
  What every other theory of the development shares.

  \<^item> \<open>py_error\<close>: the exceptions the program raises, without their message texts.
    \<open>Diverges\<close> is no Python exception: it is the value of a fuelled loop that used up
    its fuel, and the theorems on the loops show that it does not occur. Nor is
    \<open>StaleBuffer\<close>: it stands for the use of a page buffer whose page is no longer in
    memory, and the theorems on the operations show that it does not occur either.
  \<^item> \<open>'a res\<close>: the result of pure code that can raise.
  \<^item> \<open>('s, 'a) py\<close>: code that reads and changes an object of type \<open>'s\<close> and can raise.
    An exception does not undo the changes made before it, so the state is returned in
    both cases. \<open>wp\<close> is the weakest precondition of such code, with one postcondition for
    a normal return and one for an exception; the collection \<open>wp_rules\<close> computes it.
  \<^item> bytes and the little-endian integers of Python's \<^verbatim>\<open>struct\<close> module.
  \<^item> Python's slices, slice assignment and \<^verbatim>\<open>bisect\<close>.
\<close>

section \<open>Exceptions and pure code that can raise\<close>

datatype py_error =
    ValueError
  | KeyError
  | TypeError
  | IndexError
  | OverflowError
  | StructError
  | UnicodeEncodeError
  | UnicodeDecodeError
  | RuntimeError
  | BufferPoolFullError
  | WriteConflictError
  | DuplicateKeyError
  | AttributeError
  | ZeroDivisionError
  | LexError
  | ParseError
  | ColumnNotFoundError
  | AmbiguousColumnError
  | TableAlreadyExistsError
  | TableNotFoundError
  | StaleBuffer
  | Diverges

type_synonym 'a res = "py_error + 'a"

definition res_bind :: "'a res \<Rightarrow> ('a \<Rightarrow> 'b res) \<Rightarrow> 'b res" where
  "res_bind r f = (case r of Inl e \<Rightarrow> Inl e | Inr x \<Rightarrow> f x)"

lemma res_bind_simps [simp]:
  "res_bind (Inl e) f = Inl e"
  "res_bind (Inr x) f = f x"
  by (simp_all add: res_bind_def)

lemma res_bind_Inr_iff: "res_bind r f = Inr y \<longleftrightarrow> (\<exists>x. r = Inr x \<and> f x = Inr y)"
  by (cases r) simp_all

lemma res_bind_Inl_iff: "res_bind r f = Inl e \<longleftrightarrow> r = Inl e \<or> (\<exists>x. r = Inr x \<and> f x = Inl e)"
  by (cases r) simp_all

lemma res_bindE:
  assumes "res_bind r f = Inr y"
  obtains x where "r = Inr x" "f x = Inr y"
  using assms by (auto simp: res_bind_Inr_iff)

text \<open>A loop that applies a function that can raise to every element, in order.\<close>

fun res_map :: "('a \<Rightarrow> 'b res) \<Rightarrow> 'a list \<Rightarrow> 'b list res" where
  "res_map f [] = Inr []"
| "res_map f (x # xs) = res_bind (f x) (\<lambda>y. res_bind (res_map f xs) (\<lambda>ys. Inr (y # ys)))"

lemma length_res_map: "res_map f xs = Inr ys \<Longrightarrow> length ys = length xs"
  by (induction xs arbitrary: ys) (auto elim!: res_bindE)

section \<open>Stateful code that can raise\<close>

type_synonym ('s, 'a) py = "'s \<Rightarrow> 'a res \<times> 's"

definition py_return :: "'a \<Rightarrow> ('s, 'a) py" where
  "py_return x = (\<lambda>s. (Inr x, s))"

definition py_raise :: "py_error \<Rightarrow> ('s, 'a) py" where
  "py_raise e = (\<lambda>s. (Inl e, s))"

definition py_bind :: "('s, 'a) py \<Rightarrow> ('a \<Rightarrow> ('s, 'b) py) \<Rightarrow> ('s, 'b) py" where
  "py_bind m f = (\<lambda>s. case m s of (r, s') \<Rightarrow> (case r of Inl e \<Rightarrow> (Inl e, s') | Inr x \<Rightarrow> f x s'))"

definition py_seq :: "('s, 'a) py \<Rightarrow> ('s, 'b) py \<Rightarrow> ('s, 'b) py" where
  "py_seq m n = py_bind m (\<lambda>_. n)"

definition py_gets :: "('s \<Rightarrow> 'a) \<Rightarrow> ('s, 'a) py" where
  "py_gets f = (\<lambda>s. (Inr (f s), s))"

definition py_modify :: "('s \<Rightarrow> 's) \<Rightarrow> ('s, unit) py" where
  "py_modify f = (\<lambda>s. (Inr (), f s))"

definition py_lift :: "'a res \<Rightarrow> ('s, 'a) py" where
  "py_lift r = (\<lambda>s. (r, s))"

text \<open>
  \<^verbatim>\<open>try: m finally: c\<close>: the clean-up runs in both cases; an exception it raises replaces
  the outcome of \<open>m\<close>.
\<close>

definition py_finally :: "('s, 'a) py \<Rightarrow> ('s, unit) py \<Rightarrow> ('s, 'a) py" where
  "py_finally m c = (\<lambda>s. case m s of (r, s') \<Rightarrow>
     (case c s' of (r', s'') \<Rightarrow> (case r' of Inl e \<Rightarrow> (Inl e, s'') | Inr _ \<Rightarrow> (r, s''))))"

text \<open>Code of an object that calls a method of one of its fields.\<close>

definition py_zoom :: "('s \<Rightarrow> 't) \<Rightarrow> ('t \<Rightarrow> 's \<Rightarrow> 's) \<Rightarrow> ('t, 'a) py \<Rightarrow> ('s, 'a) py" where
  "py_zoom get put m = (\<lambda>s. case m (get s) of (r, t) \<Rightarrow> (r, put t s))"

fun py_for :: "'a list \<Rightarrow> ('a \<Rightarrow> ('s, unit) py) \<Rightarrow> ('s, unit) py" where
  "py_for [] f = py_return ()"
| "py_for (x # xs) f = py_seq (f x) (py_for xs f)"

section \<open>Weakest preconditions\<close>

named_theorems wp_rules "equations that compute weakest preconditions"

definition wp :: "('s, 'a) py \<Rightarrow> ('a \<Rightarrow> 's \<Rightarrow> bool) \<Rightarrow> (py_error \<Rightarrow> 's \<Rightarrow> bool) \<Rightarrow> 's \<Rightarrow> bool" where
  "wp m Q E s = (case m s of (r, s') \<Rightarrow> (case r of Inl e \<Rightarrow> E e s' | Inr x \<Rightarrow> Q x s'))"

lemma wp_return [wp_rules]: "wp (py_return x) Q E s = Q x s"
  by (simp add: wp_def py_return_def)

lemma wp_return_fun: "wp (py_return x) Q E = Q x"
  by (rule ext) (rule wp_return)

lemma wp_raise [wp_rules]: "wp (py_raise e) Q E s = E e s"
  by (simp add: wp_def py_raise_def)

lemma wp_bind [wp_rules]: "wp (py_bind m f) Q E s = wp m (\<lambda>x. wp (f x) Q E) E s"
  by (simp add: wp_def py_bind_def split: prod.splits sum.splits)

lemma wp_seq [wp_rules]: "wp (py_seq m n) Q E s = wp m (\<lambda>_. wp n Q E) E s"
  by (simp add: py_seq_def wp_bind)

lemma wp_fun:
  "wp (py_bind m f) Q E = wp m (\<lambda>x. wp (f x) Q E) E"
  "wp (py_seq m n) Q E = wp m (\<lambda>_. wp n Q E) E"
  by (rule ext, simp add: wp_bind wp_seq)+

lemma wp_gets [wp_rules]: "wp (py_gets f) Q E s = Q (f s) s"
  by (simp add: wp_def py_gets_def)

lemma wp_modify [wp_rules]: "wp (py_modify f) Q E s = Q () (f s)"
  by (simp add: wp_def py_modify_def)

lemma wp_lift [wp_rules]:
  "wp (py_lift r) Q E s = (case r of Inl e \<Rightarrow> E e s | Inr x \<Rightarrow> Q x s)"
  by (simp add: wp_def py_lift_def)

lemma wp_finally [wp_rules]:
  "wp (py_finally m c) Q E s =
     wp m (\<lambda>x. wp c (\<lambda>_. Q x) E) (\<lambda>e. wp c (\<lambda>_. E e) E) s"
  by (simp add: wp_def py_finally_def split: prod.splits sum.splits)

lemma wp_zoom [wp_rules]:
  "wp (py_zoom get put m) Q E s =
     wp m (\<lambda>x t. Q x (put t s)) (\<lambda>e t. E e (put t s)) (get s)"
  by (simp add: wp_def py_zoom_def split: prod.splits sum.splits)

lemma wp_if [wp_rules]:
  "wp (if b then m else n) Q E s = (if b then wp m Q E s else wp n Q E s)"
  by simp

lemma wp_case_option [wp_rules]:
  "wp (case x of None \<Rightarrow> m | Some a \<Rightarrow> f a) Q E s =
     (case x of None \<Rightarrow> wp m Q E s | Some a \<Rightarrow> wp (f a) Q E s)"
  by (cases x) simp_all

lemma wp_case_prod [wp_rules]:
  "wp (case x of (a, b) \<Rightarrow> f a b) Q E s = (case x of (a, b) \<Rightarrow> wp (f a b) Q E s)"
  by (cases x) simp

lemma wp_Let [wp_rules]: "wp (let x = a in f x) Q E s = (let x = a in wp (f x) Q E s)"
  by simp

lemma wp_mono:
  assumes "wp m Q E s"
    and "\<And>x s'. Q x s' \<Longrightarrow> Q' x s'" and "\<And>e s'. E e s' \<Longrightarrow> E' e s'"
  shows "wp m Q' E' s"
  using assms by (auto simp: wp_def split: prod.splits sum.splits)

lemma wp_InrD: "wp m Q E s \<Longrightarrow> m s = (Inr x, s') \<Longrightarrow> Q x s'"
  by (simp add: wp_def)

lemma wp_InlD: "wp m Q E s \<Longrightarrow> m s = (Inl e, s') \<Longrightarrow> E e s'"
  by (simp add: wp_def)

text \<open>
  A precondition with \<open>False\<close> for every exception says that the code returns normally.
\<close>

lemma wp_total:
  "wp m Q (\<lambda>_ _. False) s \<longleftrightarrow> (\<exists>x s'. m s = (Inr x, s') \<and> Q x s')"
  by (auto simp: wp_def split: prod.splits sum.splits)

lemma wp_conj:
  "wp m Q E s \<Longrightarrow> wp m Q' E' s \<Longrightarrow>
     wp m (\<lambda>x s. Q x s \<and> Q' x s) (\<lambda>e s. E e s \<and> E' e s) s"
  by (auto simp: wp_def split: prod.splits sum.splits)

lemma py_bind_Inr_iff:
  "py_bind m f s = (Inr y, s'') \<longleftrightarrow> (\<exists>x s'. m s = (Inr x, s') \<and> f x s' = (Inr y, s''))"
  by (auto simp: py_bind_def split: prod.splits sum.splits)

section \<open>Bytes\<close>

type_synonym byte = "8 word"
type_synonym bytes = "8 word list"

text \<open>A Python string is a sequence of code points.\<close>

type_synonym ustring = "nat list"

definition u :: "string \<Rightarrow> ustring" where
  "u cs = map of_char cs"

text \<open>Little-endian unsigned integers of a fixed number of bytes.\<close>

fun le_bytes :: "nat \<Rightarrow> nat \<Rightarrow> bytes" where
  "le_bytes 0 v = []"
| "le_bytes (Suc n) v = word_of_nat v # le_bytes n (v div 256)"

fun le_nat :: "bytes \<Rightarrow> nat" where
  "le_nat [] = 0"
| "le_nat (b # bs) = unat b + 256 * le_nat bs"

lemma le_bytes_numeral:
  "le_bytes (numeral k) v = word_of_nat v # le_bytes (pred_numeral k) (v div 256)"
  using le_bytes.simps(2) [of "pred_numeral k" v] by (simp only: numeral_eq_Suc [of k])

lemma length_le_bytes [simp]: "length (le_bytes n v) = n"
  by (induction n arbitrary: v) simp_all

lemma unat_byte_bound [simp]: "unat (b :: byte) < 256"
  using unsigned_less [of b, where ?'a = nat] by simp

lemma unat_byte_of_nat: "unat (word_of_nat v :: byte) = v mod 256"
  by (simp add: unat_of_nat)

lemma le_nat_le_bytes: "le_nat (le_bytes n v) = v mod 256 ^ n"
proof (induction n arbitrary: v)
  case 0
  show ?case by simp
next
  case (Suc n)
  have "v mod 256 + 256 * (v div 256 mod 256 ^ n) = v mod (256 * 256 ^ n)"
    by (simp add: mod_mult2_eq)
  then show ?case by (simp add: Suc unat_byte_of_nat)
qed

lemma le_nat_le_bytes_small [simp]: "v < 256 ^ n \<Longrightarrow> le_nat (le_bytes n v) = v"
  by (simp add: le_nat_le_bytes)

lemma le_nat_bound: "le_nat bs < 256 ^ length bs"
proof (induction bs)
  case Nil
  show ?case by simp
next
  case (Cons b bs)
  have "unat b + 256 * le_nat bs < 256 * (le_nat bs + 1)" by simp
  also have "\<dots> \<le> 256 * 256 ^ length bs"
    using Cons by (intro mult_le_mono2) simp
  finally show ?case by simp
qed

lemma le_bytes_le_nat [simp]: "le_bytes (length bs) (le_nat bs) = bs"
proof (induction bs)
  case Nil
  show ?case by simp
next
  case (Cons b bs)
  have "unat b < 256" by simp
  then have "(unat b + 256 * le_nat bs) div 256 = le_nat bs" by simp
  moreover have "unat (word_of_nat (unat b + 256 * le_nat bs) :: byte) = unat b"
    by (simp only: unat_byte_of_nat mod_mult_self2 mod_less [OF \<open>unat b < 256\<close>])
  then have "(word_of_nat (unat b + 256 * le_nat bs) :: byte) = b"
    by (simp only: word_unat_eq_iff)
  ultimately show ?case by (simp add: Cons)
qed

text \<open>
  \<^verbatim>\<open>struct.pack\<close> of one unsigned field: a value that does not fit raises
  \<^verbatim>\<open>struct.error\<close>.
\<close>

definition pack_uint :: "nat \<Rightarrow> nat \<Rightarrow> bytes res" where
  "pack_uint n v = (if v < 256 ^ n then Inr (le_bytes n v) else Inl StructError)"

definition unpack_from :: "nat \<Rightarrow> bytes \<Rightarrow> nat \<Rightarrow> nat res" where
  "unpack_from n data offset =
     (if offset + n \<le> length data then Inr (le_nat (take n (drop offset data)))
      else Inl StructError)"

lemma pack_uint_Inr_iff: "pack_uint n v = Inr bs \<longleftrightarrow> v < 256 ^ n \<and> bs = le_bytes n v"
  by (auto simp: pack_uint_def)

section \<open>Slices\<close>

text \<open>\<^verbatim>\<open>xs[a:b]\<close> for \<open>0 \<le> a\<close>, \<open>0 \<le> b\<close>: out-of-range bounds are clamped.\<close>

definition py_slice :: "nat \<Rightarrow> nat \<Rightarrow> 'a list \<Rightarrow> 'a list" where
  "py_slice a b xs = drop a (take b xs)"

text \<open>
  \<^verbatim>\<open>xs[a:b] = ys\<close>: the slice is replaced, and the length changes unless \<open>ys\<close> has the
  length of the slice. A slice with \<open>b < a\<close> is empty and stands at \<open>a\<close>.
\<close>

definition slice_assign :: "nat \<Rightarrow> nat \<Rightarrow> 'a list \<Rightarrow> 'a list \<Rightarrow> 'a list" where
  "slice_assign a b ys xs = take a xs @ ys @ drop (max a b) xs"

lemma length_slice_assign:
  "a + length ys \<le> length xs \<Longrightarrow> length (slice_assign a (a + length ys) ys xs) = length xs"
  by (simp add: slice_assign_def)

lemma slice_slice_assign_same:
  "a + length ys \<le> length xs \<Longrightarrow>
     py_slice a (a + length ys) (slice_assign a (a + length ys) ys xs) = ys"
  by (simp add: py_slice_def slice_assign_def)

lemma slice_slice_assign_before:
  assumes "b \<le> a" and "a + length ys \<le> length xs"
  shows "py_slice c b (slice_assign a (a + length ys) ys xs) = py_slice c b xs"
  using assms by (simp add: py_slice_def slice_assign_def min_def)

lemma slice_slice_assign_after:
  assumes "a + length ys \<le> c" and "a + length ys \<le> length xs"
  shows "py_slice c b (slice_assign a (a + length ys) ys xs) = py_slice c b xs"
proof (cases "c \<le> b")
  case True
  with assms have "take b (slice_assign a (a + length ys) ys xs)
      = take a xs @ ys @ take (b - (a + length ys)) (drop (a + length ys) xs)"
    by (simp add: slice_assign_def)
  with True assms show ?thesis
    by (simp add: py_slice_def drop_take)
next
  case False
  with assms show ?thesis by (simp add: py_slice_def slice_assign_def)
qed

text \<open>\<^verbatim>\<open>struct.pack_into\<close> of one unsigned field.\<close>

definition pack_into :: "nat \<Rightarrow> nat \<Rightarrow> nat \<Rightarrow> bytes \<Rightarrow> bytes res" where
  "pack_into n offset v data =
     (if offset + n \<le> length data \<and> v < 256 ^ n
      then Inr (slice_assign offset (offset + n) (le_bytes n v) data)
      else Inl StructError)"

lemma unpack_from_slice: "unpack_from n data off =
    (if off + n \<le> length data then Inr (le_nat (py_slice off (off + n) data)) else Inl StructError)"
  by (simp add: unpack_from_def py_slice_def take_drop add.commute)

lemma length_pack_into: "pack_into n off v data = Inr data' \<Longrightarrow> length data' = length data"
  by (auto simp: pack_into_def slice_assign_def split: if_splits)

lemma unpack_pack_into_same:
  "pack_into n off v data = Inr data' \<Longrightarrow> unpack_from n data' off = Inr v"
  using slice_slice_assign_same [of off "le_bytes n v" data]
  by (auto simp: pack_into_def unpack_from_slice slice_assign_def split: if_splits)

lemma slice_pack_into_disjoint:
  assumes "pack_into n off v data = Inr data'" and "b \<le> off \<or> off + n \<le> a"
  shows "py_slice a b data' = py_slice a b data"
  using assms slice_slice_assign_before [of b off "le_bytes n v" data a]
    slice_slice_assign_after [of off "le_bytes n v" a data b]
  by (auto simp: pack_into_def split: if_splits)

lemma unpack_pack_into_disjoint:
  assumes "pack_into n off v data = Inr data'" and "off' + n' \<le> off \<or> off + n \<le> off'"
  shows "unpack_from n' data' off' = unpack_from n' data off'"
  using slice_pack_into_disjoint [OF assms(1), of "off' + n'" off'] assms(2)
    length_pack_into [OF assms(1)]
  by (simp add: unpack_from_slice)

section \<open>Bisection\<close>

text \<open>
  \<^verbatim>\<open>bisect_left\<close> and \<^verbatim>\<open>bisect_right\<close>: the loop of the module, with the window
  \<open>[lo, hi)\<close>.
\<close>

function bisect_loop :: "('a \<Rightarrow> bool) \<Rightarrow> 'a list \<Rightarrow> nat \<Rightarrow> nat \<Rightarrow> nat" where
  "bisect_loop p xs lo hi =
     (if lo < hi then
        let mid = (lo + hi) div 2
        in if p (xs ! mid) then bisect_loop p xs (mid + 1) hi else bisect_loop p xs lo mid
      else lo)"
  by pat_completeness auto
termination
  by (relation "measure (\<lambda>(p, xs, lo, hi). hi - lo)") auto

declare bisect_loop.simps [simp del]

definition bisect_left :: "'a::linorder list \<Rightarrow> 'a \<Rightarrow> nat" where
  "bisect_left xs x = bisect_loop (\<lambda>y. y < x) xs 0 (length xs)"

definition bisect_right :: "'a::linorder list \<Rightarrow> 'a \<Rightarrow> nat" where
  "bisect_right xs x = bisect_loop (\<lambda>y. \<not> x < y) xs 0 (length xs)"

lemma bisect_loop_takeWhile:
  assumes "\<And>i j. i \<le> j \<Longrightarrow> j < length xs \<Longrightarrow> p (xs ! j) \<Longrightarrow> p (xs ! i)"
    and "lo \<le> hi" and "hi \<le> length xs"
    and "lo \<le> length (takeWhile p xs)" and "length (takeWhile p xs) \<le> hi"
  shows "bisect_loop p xs lo hi = length (takeWhile p xs)"
  using assms
proof (induction p xs lo hi rule: bisect_loop.induct)
  case (1 p xs lo hi)
  show ?case
  proof (cases "lo < hi")
    case True
    define mid where "mid = (lo + hi) div 2"
    have mid: "lo \<le> mid" "mid < hi" "mid < length xs" using True "1.prems"(3) by (auto simp: mid_def)
    show ?thesis
    proof (cases "p (xs ! mid)")
      case True
      have "mid < length (takeWhile p xs)"
      proof (rule ccontr)
        assume "\<not> mid < length (takeWhile p xs)"
        then have le: "length (takeWhile p xs) \<le> mid" by simp
        with mid have "length (takeWhile p xs) < length xs" by simp
        then have "\<not> p (xs ! length (takeWhile p xs))" by (rule nth_length_takeWhile)
        with "1.prems"(1) [OF le mid(3) True] show False by simp
      qed
      with True \<open>lo < hi\<close> mid "1.prems" "1.IH"(1) [of mid] show ?thesis
        by (simp add: bisect_loop.simps [of p xs lo hi] mid_def [symmetric])
    next
      case False
      have "length (takeWhile p xs) \<le> mid"
      proof (rule ccontr)
        assume "\<not> length (takeWhile p xs) \<le> mid"
        then have "mid < length (takeWhile p xs)" by simp
        then have "xs ! mid \<in> set (takeWhile p xs)" using takeWhile_nth nth_mem by metis
        then show False using False set_takeWhileD by metis
      qed
      with False \<open>lo < hi\<close> mid "1.prems" "1.IH"(2) [of mid] show ?thesis
        by (simp add: bisect_loop.simps [of p xs lo hi] mid_def [symmetric])
    qed
  next
    case False
    with "1.prems" show ?thesis by (simp add: bisect_loop.simps [of p xs lo hi])
  qed
qed

lemma bisect_left_takeWhile: "sorted xs \<Longrightarrow> bisect_left xs x = length (takeWhile (\<lambda>y. y < x) xs)"
  unfolding bisect_left_def
  by (rule bisect_loop_takeWhile)
    (auto simp: length_takeWhile_le dest: sorted_nth_mono)

lemma bisect_right_takeWhile: "sorted xs \<Longrightarrow> bisect_right xs x = length (takeWhile (\<lambda>y. y \<le> x) xs)"
  unfolding bisect_right_def not_less
  by (rule bisect_loop_takeWhile)
    (auto simp: length_takeWhile_le dest: sorted_nth_mono)

lemma bisect_left_le: "sorted xs \<Longrightarrow> bisect_left xs x \<le> length xs"
  by (simp add: bisect_left_takeWhile length_takeWhile_le)

lemma bisect_right_le: "sorted xs \<Longrightarrow> bisect_right xs x \<le> length xs"
  by (simp add: bisect_right_takeWhile length_takeWhile_le)

end
