(* ===== verification/Disk_Manager.thy ===== *)
theory Disk_Manager
  imports Prelude
begin

text \<open>
  Pages and the disk manager (\<^verbatim>\<open>storage/page.py\<close>, \<^verbatim>\<open>storage/disk_manager.py\<close>).

  The state of the disk manager is the bytes of its file as the open handle sees them,
  the number of pages, the bytes that the last \<^verbatim>\<open>fsync\<close> made durable, and whether the
  handle is closed. The locale \<open>page_device\<close> states what a store of pages promises: an
  array of pages that can be read, overwritten and extended. It is interpreted here on the
  disk manager and in \<open>Buffer_Pool\<close> on the buffer pool. The lock of the class is not
  modelled: the program is single-threaded.
\<close>

section \<open>Pages and row identifiers\<close>

definition PAGE_SIZE :: nat where
  "PAGE_SIZE = 4096"

definition INVALID_PAGE_ID :: nat where
  "INVALID_PAGE_ID = 4294967295"

datatype page_type = PT_FREE | PT_HEAP | PT_BTREE_INTERNAL | PT_BTREE_LEAF

fun page_type_value :: "page_type \<Rightarrow> nat" where
  "page_type_value PT_FREE = 0"
| "page_type_value PT_HEAP = 1"
| "page_type_value PT_BTREE_INTERNAL = 2"
| "page_type_value PT_BTREE_LEAF = 3"

text \<open>\<^verbatim>\<open>PageType(n)\<close>: an unknown number raises.\<close>

definition page_type_of :: "nat \<Rightarrow> page_type res" where
  "page_type_of n =
     (if n = 0 then Inr PT_FREE else if n = 1 then Inr PT_HEAP
      else if n = 2 then Inr PT_BTREE_INTERNAL else if n = 3 then Inr PT_BTREE_LEAF
      else Inl ValueError)"

lemma page_type_of_value [simp]: "page_type_of (page_type_value t) = Inr t"
  by (cases t) (simp_all add: page_type_of_def)

datatype rid = RID (rid_page_id: nat) (rid_slot_id: nat)

text \<open>Row identifiers are ordered by page and then by slot, as a heap scan visits them.\<close>

instantiation rid :: linorder
begin

definition less_eq_rid :: "rid \<Rightarrow> rid \<Rightarrow> bool" where
  "less_eq_rid a b \<longleftrightarrow> rid_page_id a < rid_page_id b
     \<or> rid_page_id a = rid_page_id b \<and> rid_slot_id a \<le> rid_slot_id b"

definition less_rid :: "rid \<Rightarrow> rid \<Rightarrow> bool" where
  "less_rid a b \<longleftrightarrow> rid_page_id a < rid_page_id b
     \<or> rid_page_id a = rid_page_id b \<and> rid_slot_id a < rid_slot_id b"

instance
  by standard (auto simp: less_eq_rid_def less_rid_def intro: rid.expand)

end

section \<open>The contract of a page store\<close>

text \<open>
  \<open>dev_count\<close> is the number of pages, \<open>dev_page s p\<close> the contents of page \<open>p\<close>. Reading returns
  the contents and changes none; writing a whole page changes that page only; allocation
  adds one page of zeros at the end. None of the three raises on a valid page.
\<close>

locale page_device =
  fixes dev_inv :: "'s \<Rightarrow> bool"
    and dev_count :: "'s \<Rightarrow> nat"
    and dev_page :: "'s \<Rightarrow> nat \<Rightarrow> bytes"
    and dev_read :: "nat \<Rightarrow> ('s, bytes) py"
    and dev_write :: "nat \<Rightarrow> bytes \<Rightarrow> ('s, unit) py"
    and dev_alloc :: "('s, nat) py"
  assumes page_length: "dev_inv s \<Longrightarrow> p < dev_count s \<Longrightarrow> length (dev_page s p) = PAGE_SIZE"
    and read_law: "dev_inv s \<Longrightarrow> p < dev_count s \<Longrightarrow>
      wp (dev_read p) (\<lambda>d s'. d = dev_page s p \<and> dev_inv s' \<and> dev_count s' = dev_count s
        \<and> (\<forall>q < dev_count s. dev_page s' q = dev_page s q)) (\<lambda>_ _. False) s"
    and write_law: "dev_inv s \<Longrightarrow> p < dev_count s \<Longrightarrow> length d = PAGE_SIZE \<Longrightarrow>
      wp (dev_write p d) (\<lambda>_ s'. dev_inv s' \<and> dev_count s' = dev_count s
        \<and> (\<forall>q < dev_count s. dev_page s' q = (if q = p then d else dev_page s q))) (\<lambda>_ _. False) s"
    and alloc_law: "dev_inv s \<Longrightarrow>
      wp dev_alloc (\<lambda>p s'. p = dev_count s \<and> dev_inv s' \<and> dev_count s' = Suc (dev_count s)
        \<and> dev_page s' p = replicate PAGE_SIZE 0 \<and> (\<forall>q < dev_count s. dev_page s' q = dev_page s q))
        (\<lambda>_ _. False) s"
begin

text \<open>What was written last is read back, and it does not disturb the other pages.\<close>

lemma read_after_write:
  assumes "dev_inv s" and "p < dev_count s" and "q < dev_count s" and "length d = PAGE_SIZE"
  shows "wp (py_seq (dev_write p d) (dev_read q))
    (\<lambda>x s'. x = (if q = p then d else dev_page s q) \<and> dev_inv s' \<and> dev_count s' = dev_count s)
    (\<lambda>_ _. False) s"
  unfolding wp_seq
proof (rule wp_mono [OF write_law [OF assms(1,2,4)]], goal_cases)
  case (1 x s')
  then have "dev_inv s'" "q < dev_count s'" using assms(3) by auto
  from read_law [OF this] show ?case
    by (rule wp_mono) (use 1 assms(3) in auto)
qed simp

text \<open>A sequence of whole-page writes leaves at every page the last contents written there.\<close>

lemma write_all:
  assumes "dev_inv s" and "\<forall>(p, d) \<in> set ws. p < dev_count s \<and> length d = PAGE_SIZE"
  shows "wp (py_for ws (\<lambda>(p, d). dev_write p d))
    (\<lambda>_ s'. dev_inv s' \<and> dev_count s' = dev_count s \<and>
       (\<forall>q < dev_count s. dev_page s' q = (case map_of (rev ws) q of None \<Rightarrow> dev_page s q | Some d \<Rightarrow> d)))
    (\<lambda>_ _. False) s"
  using assms
proof (induction ws arbitrary: s)
  case Nil
  then show ?case by (simp add: wp_return)
next
  case (Cons w ws)
  obtain p d where w: "w = (p, d)" by (cases w)
  with Cons.prems have pd: "p < dev_count s" "length d = PAGE_SIZE" by auto
  show ?case unfolding py_for.simps wp_seq w prod.case
  proof (rule wp_mono [OF write_law [OF Cons.prems(1) pd]], goal_cases)
    case (1 x s')
    then have "wp (py_for ws (\<lambda>(p, d). dev_write p d))
      (\<lambda>_ s''. dev_inv s'' \<and> dev_count s'' = dev_count s' \<and>
         (\<forall>q < dev_count s'. dev_page s'' q = (case map_of (rev ws) q of None \<Rightarrow> dev_page s' q | Some d \<Rightarrow> d)))
      (\<lambda>_ _. False) s'"
      using Cons.prems(2) by (intro Cons.IH) auto
    then show ?case
      by (rule wp_mono) (use 1 in \<open>auto simp: map_add_def split: option.splits\<close>)
  qed simp
qed

end

section \<open>The file\<close>

text \<open>
  \<^verbatim>\<open>seek\<close> and \<^verbatim>\<open>write\<close>: a gap between the end of the file and the position is filled
  with zeros. \<^verbatim>\<open>seek\<close> and \<^verbatim>\<open>read\<close>: fewer bytes at the end of the file.
\<close>

definition file_write :: "nat \<Rightarrow> bytes \<Rightarrow> bytes \<Rightarrow> bytes" where
  "file_write pos d f = take pos f @ replicate (pos - length f) 0 @ d @ drop (pos + length d) f"

definition file_read :: "nat \<Rightarrow> nat \<Rightarrow> bytes \<Rightarrow> bytes" where
  "file_read pos n f = take n (drop pos f)"

lemma length_file_write: "length (file_write pos d f) = max (length f) (pos + length d)"
  by (simp add: file_write_def)

lemma file_read_write_same: "file_read pos (length d) (file_write pos d f) = d"
  by (simp add: file_read_def file_write_def min_def)

lemma file_read_write_before:
  assumes "pos' + n \<le> pos" and "pos' + n \<le> length f"
  shows "file_read pos' n (file_write pos d f) = file_read pos' n f"
proof -
  have "take (n + pos') (file_write pos d f) = take (n + pos') f"
    using assms by (simp add: file_write_def min_def)
  then show ?thesis by (simp add: file_read_def take_drop)
qed

lemma file_read_write_after:
  assumes "pos + length d \<le> pos'" and "pos' + n \<le> length f"
  shows "file_read pos' n (file_write pos d f) = file_read pos' n f"
proof -
  have "d = []" if "length f \<le> pos" using that assms by (cases d) auto
  with assms have "drop pos' (file_write pos d f)
      = drop (pos' - (pos + length d)) (drop (pos + length d) f)"
    by (simp add: file_write_def min_def)
  also have "\<dots> = drop pos' f" using assms by simp
  finally show ?thesis by (simp add: file_read_def)
qed

section \<open>The disk manager\<close>

record disk =
  dm_file :: bytes
  dm_num_pages :: nat
  dm_synced :: bytes
  dm_closed :: bool

text \<open>The constructor, on the bytes of the file if it exists.\<close>

definition disk_open :: "bytes option \<Rightarrow> disk" where
  "disk_open existing =
     (let f = (case existing of None \<Rightarrow> [] | Some f \<Rightarrow> f)
      in \<lparr>dm_file = f, dm_num_pages = length f div PAGE_SIZE, dm_synced = f, dm_closed = False\<rparr>)"

text \<open>Any operation on a closed handle raises.\<close>

definition file_op :: "(disk \<Rightarrow> 'a \<times> disk) \<Rightarrow> (disk, 'a) py" where
  "file_op f = (\<lambda>d. if dm_closed d then (Inl ValueError, d) else (case f d of (x, d') \<Rightarrow> (Inr x, d')))"

definition disk_write_at :: "nat \<Rightarrow> bytes \<Rightarrow> (disk, unit) py" where
  "disk_write_at pos b = file_op (\<lambda>d. ((), d\<lparr>dm_file := file_write pos b (dm_file d)\<rparr>))"

definition disk_read_at :: "nat \<Rightarrow> nat \<Rightarrow> (disk, bytes) py" where
  "disk_read_at pos n = file_op (\<lambda>d. (file_read pos n (dm_file d), d))"

definition allocate_page :: "(disk, nat) py" where
  "allocate_page =
     py_bind (py_gets dm_num_pages) (\<lambda>page_id.
     py_seq (disk_write_at (page_id * PAGE_SIZE) (replicate PAGE_SIZE 0))
    (py_seq (py_modify (\<lambda>d. d\<lparr>dm_num_pages := dm_num_pages d + 1\<rparr>))
            (py_return page_id)))"

definition read_page :: "nat \<Rightarrow> (disk, bytes) py" where
  "read_page page_id =
     py_bind (py_gets dm_num_pages) (\<lambda>n.
       if n \<le> page_id then py_raise ValueError
       else py_bind (disk_read_at (page_id * PAGE_SIZE) PAGE_SIZE) (\<lambda>data.
         py_return (if length data < PAGE_SIZE
                    then data @ replicate (PAGE_SIZE - length data) 0 else data)))"

definition write_page :: "nat \<Rightarrow> bytes \<Rightarrow> (disk, unit) py" where
  "write_page page_id data =
     (if length data \<noteq> PAGE_SIZE then py_raise ValueError
      else disk_write_at (page_id * PAGE_SIZE) data)"

definition disk_fsync :: "(disk, unit) py" where
  "disk_fsync = file_op (\<lambda>d. ((), d\<lparr>dm_synced := dm_file d\<rparr>))"

definition disk_close :: "(disk, unit) py" where
  "disk_close = py_modify (\<lambda>d. d\<lparr>dm_closed := True\<rparr>)"

lemma wp_disk_write_at [wp_rules]:
  "wp (disk_write_at pos b) Q E d =
     (if dm_closed d then E ValueError d else Q () (d\<lparr>dm_file := file_write pos b (dm_file d)\<rparr>))"
  by (simp add: disk_write_at_def file_op_def wp_def)

lemma wp_disk_read_at [wp_rules]:
  "wp (disk_read_at pos n) Q E d =
     (if dm_closed d then E ValueError d else Q (file_read pos n (dm_file d)) d)"
  by (simp add: disk_read_at_def file_op_def wp_def)

lemma wp_disk_fsync [wp_rules]:
  "wp disk_fsync Q E d =
     (if dm_closed d then E ValueError d else Q () (d\<lparr>dm_synced := dm_file d\<rparr>))"
  by (simp add: disk_fsync_def file_op_def wp_def)

lemma PAGE_SIZE_pos [simp]: "0 < PAGE_SIZE"
  by (simp add: PAGE_SIZE_def)

section \<open>The disk manager keeps the contract\<close>

text \<open>Every page lies inside the file.\<close>

definition disk_inv :: "disk \<Rightarrow> bool" where
  "disk_inv d \<longleftrightarrow> \<not> dm_closed d \<and> dm_num_pages d * PAGE_SIZE \<le> length (dm_file d)"

definition disk_page :: "disk \<Rightarrow> nat \<Rightarrow> bytes" where
  "disk_page d p = file_read (p * PAGE_SIZE) PAGE_SIZE (dm_file d)"

lemma page_end_le: "disk_inv d \<Longrightarrow> p < dm_num_pages d \<Longrightarrow>
    p * PAGE_SIZE + PAGE_SIZE \<le> length (dm_file d)"
proof -
  assume a: "disk_inv d" "p < dm_num_pages d"
  then have "Suc p * PAGE_SIZE \<le> dm_num_pages d * PAGE_SIZE" by (intro mult_le_mono1) simp
  with a show ?thesis by (simp add: disk_inv_def)
qed

lemma disk_page_length: "disk_inv d \<Longrightarrow> p < dm_num_pages d \<Longrightarrow> length (disk_page d p) = PAGE_SIZE"
  using page_end_le [of d p] by (simp add: disk_page_def file_read_def)

lemma page_disjoint: "q \<noteq> (p :: nat) \<Longrightarrow>
    q * PAGE_SIZE + PAGE_SIZE \<le> p * PAGE_SIZE \<or> p * PAGE_SIZE + PAGE_SIZE \<le> q * PAGE_SIZE"
  using mult_le_mono1 [of "Suc q" p PAGE_SIZE] mult_le_mono1 [of "Suc p" q PAGE_SIZE]
  by (cases "q < p") auto

lemma disk_page_write_other:
  assumes "disk_inv d" and "q < dm_num_pages d" and "q \<noteq> p" and "length b = PAGE_SIZE"
  shows "file_read (q * PAGE_SIZE) PAGE_SIZE (file_write (p * PAGE_SIZE) b (dm_file d)) = disk_page d q"
  using page_disjoint [OF assms(3)] page_end_le [OF assms(1,2)] assms(4)
  by (auto simp: disk_page_def file_read_write_before file_read_write_after)

lemma disk_read_law:
  "disk_inv d \<Longrightarrow> p < dm_num_pages d \<Longrightarrow>
     wp (read_page p) (\<lambda>x d'. x = disk_page d p \<and> d' = d) (\<lambda>_ _. False) d"
  using disk_page_length [of d p]
  by (simp add: read_page_def wp_rules disk_inv_def disk_page_def)

lemma disk_write_law:
  assumes "disk_inv d" and "p < dm_num_pages d" and "length b = PAGE_SIZE"
  shows "wp (write_page p b) (\<lambda>_ d'. disk_inv d' \<and> dm_num_pages d' = dm_num_pages d
    \<and> (\<forall>q < dm_num_pages d. disk_page d' q = (if q = p then b else disk_page d q)))
    (\<lambda>_ _. False) d"
  using assms disk_page_write_other [OF assms(1) _ _ assms(3)]
    file_read_write_same [of "p * PAGE_SIZE" b "dm_file d"]
  by (auto simp: write_page_def wp_rules disk_inv_def disk_page_def length_file_write)

lemma disk_alloc_law:
  assumes "disk_inv d"
  shows "wp allocate_page (\<lambda>p d'. p = dm_num_pages d \<and> disk_inv d'
    \<and> dm_num_pages d' = Suc (dm_num_pages d) \<and> disk_page d' p = replicate PAGE_SIZE 0
    \<and> (\<forall>q < dm_num_pages d. disk_page d' q = disk_page d q)) (\<lambda>_ _. False) d"
  using assms disk_page_write_other [OF assms, of _ "dm_num_pages d" "replicate PAGE_SIZE 0"]
    file_read_write_same [of "dm_num_pages d * PAGE_SIZE" "replicate PAGE_SIZE 0" "dm_file d"]
  by (auto simp: allocate_page_def wp_rules disk_inv_def disk_page_def length_file_write)

interpretation dev: page_device disk_inv dm_num_pages disk_page read_page write_page allocate_page
proof
  fix d p b
  show "disk_inv d \<Longrightarrow> p < dm_num_pages d \<Longrightarrow> length (disk_page d p) = PAGE_SIZE"
    by (rule disk_page_length)
  show "disk_inv d \<Longrightarrow> p < dm_num_pages d \<Longrightarrow>
      wp (read_page p) (\<lambda>x d'. x = disk_page d p \<and> disk_inv d' \<and> dm_num_pages d' = dm_num_pages d
        \<and> (\<forall>q < dm_num_pages d. disk_page d' q = disk_page d q)) (\<lambda>_ _. False) d"
    by (rule wp_mono [OF disk_read_law]) auto
qed (use disk_write_law disk_alloc_law in blast)+

lemma disk_open_inv: "disk_inv (disk_open f)"
  by (simp add: disk_inv_def disk_open_def Let_def)

end
