(* ===== verification/Buffer_Pool.thy ===== *)
theory Buffer_Pool
  imports Disk_Manager "HOL-Library.AList"
begin

text \<open>
  The buffer pool (\<^verbatim>\<open>storage/buffer_pool.py\<close>).

  The state is the one of the class: the frames, the page table (a \<^verbatim>\<open>dict\<close>, hence an
  association list in insertion order), the free frames (a stack), the \<open>OrderedDict\<close> of
  unpinned frames (a list, least recently used first), the counters, and the disk manager
  below. \<^verbatim>\<open>fetch_page\<close> and \<^verbatim>\<open>new_page\<close> return the \<^verbatim>\<open>bytearray\<close> of a frame, which callers change in
  place: here they return the page id as a reference to it, and \<open>buf_get\<close> and \<open>buf_set\<close>
  read and change the buffer. A reference is good as long as the page stays resident,
  which a pin guarantees; \<open>buf_get\<close> and \<open>buf_set\<close> raise \<open>StaleBuffer\<close> otherwise.

  \<open>pool_view\<close> forgets everything a caller cannot observe: it keeps the contents of every
  page, the pins, and how many frames can still be taken. Each operation is shown to be a
  simple function of that view (\<open>view_pin\<close>, \<open>view_unpin\<close>, \<dots>), and the pool is shown to
  keep the contract of a page store, \<open>page_device\<close>: the cache is transparent.
\<close>

section \<open>The operations\<close>

record frame =
  fr_page_id :: "nat option"
  fr_data :: bytes
  fr_pin_count :: nat
  fr_dirty :: bool

definition new_frame :: frame where
  "new_frame = \<lparr>fr_page_id = None, fr_data = replicate PAGE_SIZE 0, fr_pin_count = 0, fr_dirty = False\<rparr>"

record pool =
  bp_disk :: disk
  bp_pool_size :: nat
  bp_frames :: "frame list"
  bp_page_table :: "(nat \<times> nat) list"
  bp_free_frames :: "nat list"
  bp_lru :: "nat list"
  bp_disk_reads :: nat
  bp_disk_writes :: nat
  bp_cache_hits :: nat

definition pool_init :: "disk \<Rightarrow> nat \<Rightarrow> pool" where
  "pool_init d pool_size =
     \<lparr>bp_disk = d, bp_pool_size = pool_size, bp_frames = replicate pool_size new_frame,
      bp_page_table = [], bp_free_frames = [0..<pool_size], bp_lru = [],
      bp_disk_reads = 0, bp_disk_writes = 0, bp_cache_hits = 0\<rparr>"

definition on_disk :: "(disk, 'a) py \<Rightarrow> (pool, 'a) py" where
  "on_disk m = py_zoom bp_disk (\<lambda>d s. s\<lparr>bp_disk := d\<rparr>) m"

text \<open>\<^verbatim>\<open>self._frames[i]\<close>, and an assignment to fields of that frame.\<close>

definition get_frame :: "nat \<Rightarrow> (pool, frame) py" where
  "get_frame i = (\<lambda>s. if i < length (bp_frames s) then (Inr (bp_frames s ! i), s) else (Inl IndexError, s))"

definition set_frame :: "nat \<Rightarrow> (frame \<Rightarrow> frame) \<Rightarrow> (pool, unit) py" where
  "set_frame i f =
     (\<lambda>s. if i < length (bp_frames s)
          then (Inr (), s\<lparr>bp_frames := (bp_frames s)[i := f (bp_frames s ! i)]\<rparr>)
          else (Inl IndexError, s))"

text \<open>\<^verbatim>\<open>OrderedDict\<close>: assigning an existing key keeps its place.\<close>

definition lru_set :: "nat \<Rightarrow> nat list \<Rightarrow> nat list" where
  "lru_set i q = (if i \<in> set q then q else q @ [i])"

definition lru_pop :: "nat \<Rightarrow> nat list \<Rightarrow> nat list" where
  "lru_pop i q = removeAll i q"

text \<open>\<^verbatim>\<open>del self._page_table[p]\<close>.\<close>

definition del_page :: "nat \<Rightarrow> (pool, unit) py" where
  "del_page p =
     (\<lambda>s. if p \<in> fst ` set (bp_page_table s)
          then (Inr (), s\<lparr>bp_page_table := AList.delete p (bp_page_table s)\<rparr>)
          else (Inl KeyError, s))"

definition write_back :: "frame \<Rightarrow> nat \<Rightarrow> (pool, unit) py" where
  "write_back fr p =
     (if fr_dirty fr
      then py_seq (on_disk (write_page p (fr_data fr)))
                  (py_modify (\<lambda>s. s\<lparr>bp_disk_writes := bp_disk_writes s + 1\<rparr>))
      else py_return ())"

definition evict_one :: "(pool, nat) py" where
  "evict_one =
     py_bind (py_gets bp_free_frames) (\<lambda>free.
       if free \<noteq> [] then
         py_seq (py_modify (\<lambda>s. s\<lparr>bp_free_frames := butlast free\<rparr>)) (py_return (last free))
       else py_bind (py_gets bp_lru) (\<lambda>lru.
         case lru of
           [] \<Rightarrow> py_raise BufferPoolFullError
         | i # lru' \<Rightarrow>
             py_seq (py_modify (\<lambda>s. s\<lparr>bp_lru := lru'\<rparr>))
            (py_bind (get_frame i) (\<lambda>fr.
             case fr_page_id fr of
               None \<Rightarrow> py_raise (if fr_dirty fr then TypeError else KeyError)
             | Some p \<Rightarrow> py_seq (write_back fr p) (py_seq (del_page p) (py_return i))))))"

definition pin :: "nat \<Rightarrow> (pool, unit) py" where
  "pin i =
     py_seq (set_frame i (\<lambda>fr. fr\<lparr>fr_pin_count := fr_pin_count fr + 1\<rparr>))
            (py_modify (\<lambda>s. s\<lparr>bp_lru := lru_pop i (bp_lru s)\<rparr>))"

text \<open>The last lines of \<^verbatim>\<open>fetch_page\<close> and \<^verbatim>\<open>new_page\<close>: the frame now holds page \<open>p\<close>.\<close>

definition install :: "nat \<Rightarrow> nat \<Rightarrow> bytes \<Rightarrow> (pool, unit) py" where
  "install i p data =
     py_seq (set_frame i (\<lambda>fr. fr\<lparr>fr_data := data, fr_page_id := Some p, fr_dirty := False,
                                 fr_pin_count := 0\<rparr>))
    (py_seq (py_modify (\<lambda>s. s\<lparr>bp_page_table := AList.update p i (bp_page_table s)\<rparr>))
            (pin i))"

definition fetch_page :: "nat \<Rightarrow> (pool, nat) py" where
  "fetch_page p =
     py_bind (py_gets (\<lambda>s. map_of (bp_page_table s) p)) (\<lambda>hit.
       case hit of
         Some i \<Rightarrow>
           py_seq (py_modify (\<lambda>s. s\<lparr>bp_cache_hits := bp_cache_hits s + 1\<rparr>))
          (py_seq (pin i) (py_return p))
       | None \<Rightarrow>
           py_bind evict_one (\<lambda>i.
           py_bind (on_disk (read_page p)) (\<lambda>data.
           py_seq (py_modify (\<lambda>s. s\<lparr>bp_disk_reads := bp_disk_reads s + 1\<rparr>))
          (py_seq (install i p data) (py_return p)))))"

definition new_page :: "(pool, nat) py" where
  "new_page =
     py_bind (on_disk allocate_page) (\<lambda>p.
     py_bind evict_one (\<lambda>i.
     py_seq (install i p (replicate PAGE_SIZE 0)) (py_return p)))"

definition unpin_page :: "nat \<Rightarrow> bool \<Rightarrow> (pool, unit) py" where
  "unpin_page p dirty =
     py_bind (py_gets (\<lambda>s. map_of (bp_page_table s) p)) (\<lambda>hit.
       case hit of
         None \<Rightarrow> py_return ()
       | Some i \<Rightarrow>
           py_seq (set_frame i (\<lambda>fr. fr\<lparr>fr_dirty := fr_dirty fr \<or> dirty\<rparr>))
          (py_seq (set_frame i (\<lambda>fr. if fr_pin_count fr > 0
                                      then fr\<lparr>fr_pin_count := fr_pin_count fr - 1\<rparr> else fr))
          (py_bind (get_frame i) (\<lambda>fr.
             if fr_pin_count fr = 0 then py_modify (\<lambda>s. s\<lparr>bp_lru := lru_set i (bp_lru s)\<rparr>)
             else py_return ()))))"

definition flush_page :: "nat \<Rightarrow> (pool, unit) py" where
  "flush_page p =
     py_bind (py_gets (\<lambda>s. map_of (bp_page_table s) p)) (\<lambda>hit.
       case hit of
         None \<Rightarrow> py_return ()
       | Some i \<Rightarrow>
           py_bind (get_frame i) (\<lambda>fr.
             if fr_dirty fr
             then py_seq (write_back fr p) (set_frame i (\<lambda>fr. fr\<lparr>fr_dirty := False\<rparr>))
             else py_return ()))"

definition flush_all :: "(pool, unit) py" where
  "flush_all =
     py_bind (py_gets (\<lambda>s. map fst (bp_page_table s))) (\<lambda>ps.
     py_seq (py_for ps flush_page) (on_disk disk_fsync))"

text \<open>The buffer behind a reference.\<close>

definition buf_get :: "nat \<Rightarrow> (pool, bytes) py" where
  "buf_get p =
     py_bind (py_gets (\<lambda>s. map_of (bp_page_table s) p)) (\<lambda>hit.
       case hit of None \<Rightarrow> py_raise StaleBuffer
       | Some i \<Rightarrow> py_bind (get_frame i) (\<lambda>fr. py_return (fr_data fr)))"

definition buf_set :: "nat \<Rightarrow> bytes \<Rightarrow> (pool, unit) py" where
  "buf_set p data =
     py_bind (py_gets (\<lambda>s. map_of (bp_page_table s) p)) (\<lambda>hit.
       case hit of None \<Rightarrow> py_raise StaleBuffer
       | Some i \<Rightarrow> set_frame i (\<lambda>fr. fr\<lparr>fr_data := data\<rparr>))"

lemma wp_get_frame [wp_rules]:
  "wp (get_frame i) Q E s = (if i < length (bp_frames s) then Q (bp_frames s ! i) s else E IndexError s)"
  by (simp add: wp_def get_frame_def)

lemma wp_set_frame [wp_rules]:
  "wp (set_frame i f) Q E s =
     (if i < length (bp_frames s) then Q () (s\<lparr>bp_frames := (bp_frames s)[i := f (bp_frames s ! i)]\<rparr>)
      else E IndexError s)"
  by (simp add: wp_def set_frame_def)

lemma wp_del_page [wp_rules]:
  "wp (del_page p) Q E s =
     (if p \<in> fst ` set (bp_page_table s)
      then Q () (s\<lparr>bp_page_table := AList.delete p (bp_page_table s)\<rparr>) else E KeyError s)"
  by (simp add: wp_def del_page_def)

lemma wp_on_disk [wp_rules]:
  "wp (on_disk m) Q E s = wp m (\<lambda>x d. Q x (s\<lparr>bp_disk := d\<rparr>)) (\<lambda>e d. E e (s\<lparr>bp_disk := d\<rparr>)) (bp_disk s)"
  by (simp add: on_disk_def wp_zoom)

lemma wp_case_list [wp_rules]:
  "wp (case xs of [] \<Rightarrow> m | x # xs' \<Rightarrow> f x xs') Q E s =
     (case xs of [] \<Rightarrow> wp m Q E s | x # xs' \<Rightarrow> wp (f x xs') Q E s)"
  by (cases xs) simp_all

section \<open>What a caller can observe\<close>

abbreviation frame_of :: "pool \<Rightarrow> nat \<Rightarrow> nat option" where
  "frame_of s \<equiv> map_of (bp_page_table s)"

abbreviation pool_count :: "pool \<Rightarrow> nat" where
  "pool_count s \<equiv> dm_num_pages (bp_disk s)"

record view =
  v_count :: nat
  v_page :: "nat \<Rightarrow> bytes"
  v_pins :: "nat \<Rightarrow> nat"
  v_avail :: nat

definition pool_page :: "pool \<Rightarrow> nat \<Rightarrow> bytes" where
  "pool_page s p =
     (if p < pool_count s
      then (case frame_of s p of None \<Rightarrow> disk_page (bp_disk s) p | Some i \<Rightarrow> fr_data (bp_frames s ! i))
      else [])"

definition pool_pins :: "pool \<Rightarrow> nat \<Rightarrow> nat" where
  "pool_pins s p = (case frame_of s p of None \<Rightarrow> 0 | Some i \<Rightarrow> fr_pin_count (bp_frames s ! i))"

definition pool_view :: "pool \<Rightarrow> view" where
  "pool_view s =
     \<lparr>v_count = pool_count s, v_page = pool_page s, v_pins = pool_pins s,
      v_avail = length (bp_free_frames s) + length (bp_lru s)\<rparr>"

text \<open>
  A page is stale while its buffer was changed and its frame is not marked dirty: between
  a change in place and the \<^verbatim>\<open>unpin_page(..., dirty=True)\<close> that follows it.
\<close>

definition pool_stale :: "pool \<Rightarrow> nat set" where
  "pool_stale s = {p. \<exists>i. frame_of s p = Some i \<and> \<not> fr_dirty (bp_frames s ! i)
     \<and> fr_data (bp_frames s ! i) \<noteq> disk_page (bp_disk s) p}"

text \<open>
  The invariant: the page table, the free list and the queue of unpinned frames agree,
  and a page that can be evicted is not stale. A frame may be in none of the three: a
  failed read loses the frame it had taken.
\<close>

definition pool_inv :: "pool \<Rightarrow> bool" where
  "pool_inv s \<longleftrightarrow>
     disk_inv (bp_disk s)
     \<and> length (bp_frames s) = bp_pool_size s
     \<and> (\<forall>i < bp_pool_size s. length (fr_data (bp_frames s ! i)) = PAGE_SIZE)
     \<and> (\<forall>p i. frame_of s p = Some i \<longrightarrow> i < bp_pool_size s \<and> p < pool_count s
           \<and> fr_page_id (bp_frames s ! i) = Some p \<and> i \<notin> set (bp_free_frames s))
     \<and> distinct (bp_free_frames s) \<and> set (bp_free_frames s) \<subseteq> {..<bp_pool_size s}
     \<and> distinct (bp_lru s)
     \<and> (\<forall>i. i \<in> set (bp_lru s) \<longleftrightarrow>
           (\<exists>p. frame_of s p = Some i) \<and> fr_pin_count (bp_frames s ! i) = 0)
     \<and> (\<forall>p \<in> pool_stale s. 0 < pool_pins s p)"

definition view_pin :: "nat \<Rightarrow> view \<Rightarrow> view" where
  "view_pin p v = v\<lparr>v_pins := (v_pins v)(p := v_pins v p + 1),
     v_avail := v_avail v - (if v_pins v p = 0 then 1 else 0)\<rparr>"

definition view_unpin :: "nat \<Rightarrow> view \<Rightarrow> view" where
  "view_unpin p v = v\<lparr>v_pins := (v_pins v)(p := v_pins v p - 1),
     v_avail := v_avail v + (if v_pins v p = 1 then 1 else 0)\<rparr>"

definition view_write :: "nat \<Rightarrow> bytes \<Rightarrow> view \<Rightarrow> view" where
  "view_write p d v = v\<lparr>v_page := (v_page v)(p := d)\<rparr>"

definition view_new :: "view \<Rightarrow> view" where
  "view_new v = v\<lparr>v_count := v_count v + 1,
     v_page := (v_page v)(v_count v := replicate PAGE_SIZE 0),
     v_pins := (v_pins v)(v_count v := 1), v_avail := v_avail v - 1\<rparr>"


section \<open>The operations on the view\<close>

lemma pool_invD:
  assumes "pool_inv s"
  shows "disk_inv (bp_disk s)" and "length (bp_frames s) = bp_pool_size s"
    and "i < bp_pool_size s \<Longrightarrow> length (fr_data (bp_frames s ! i)) = PAGE_SIZE"
    and "frame_of s p = Some i \<Longrightarrow> i < bp_pool_size s"
    and "frame_of s p = Some i \<Longrightarrow> p < pool_count s"
    and "frame_of s p = Some i \<Longrightarrow> fr_page_id (bp_frames s ! i) = Some p"
    and "frame_of s p = Some i \<Longrightarrow> i \<notin> set (bp_free_frames s)"
    and "distinct (bp_lru s)"
    and "i \<in> set (bp_lru s) \<longleftrightarrow> (\<exists>p. frame_of s p = Some i) \<and> fr_pin_count (bp_frames s ! i) = 0"
    and "p \<in> pool_stale s \<Longrightarrow> 0 < pool_pins s p"
  using assms unfolding pool_inv_def by blast+

lemma frame_of_inj: "pool_inv s \<Longrightarrow> frame_of s p = Some i \<Longrightarrow> frame_of s q = Some i \<Longrightarrow> p = q"
  using pool_invD(6) [of s p i] pool_invD(6) [of s q i] by simp

lemma frame_of_dom: "frame_of s p = Some i \<Longrightarrow> p \<in> fst ` set (bp_page_table s)"
  by (metis domI dom_map_of_conv_image_fst)

lemma pool_page_length:
  assumes "pool_inv s" and "p < pool_count s"
  shows "length (pool_page s p) = PAGE_SIZE"
  using assms pool_invD [OF assms(1)] disk_page_length [of "bp_disk s" p]
  by (auto simp: pool_page_def split: option.splits)

text \<open>Writing a frame back changes the disk at its page only.\<close>

lemma write_back_spec:
  assumes "disk_inv (bp_disk s)" and "p < pool_count s" and "length (fr_data fr) = PAGE_SIZE"
  shows "wp (write_back fr p)
    (\<lambda>_ s'. \<exists>d n. s' = s\<lparr>bp_disk := d, bp_disk_writes := n\<rparr> \<and> disk_inv d
       \<and> dm_num_pages d = pool_count s
       \<and> (\<forall>q < pool_count s. disk_page d q =
            (if q = p \<and> fr_dirty fr then fr_data fr else disk_page (bp_disk s) q)))
    (\<lambda>_ _. False) s"
proof (cases "fr_dirty fr")
  case True
  from dev.write_law [OF assms] True show ?thesis unfolding write_back_def
    by (auto simp: wp_rules elim!: wp_mono intro!: exI [of _ "bp_disk_writes s + 1"])
next
  case False
  then show ?thesis unfolding write_back_def using assms(1)
    by (auto simp: wp_rules intro!: exI [of _ "bp_disk s"] exI [of _ "bp_disk_writes s"])
qed

text \<open>Taking the frame of an unpinned page out of the page table, once it is written back.\<close>

lemma evict_state:
  assumes inv: "pool_inv s" and lru: "bp_lru s = i # lru'" and fr: "frame_of s p = Some i"
    and d: "disk_inv d" "dm_num_pages d = pool_count s"
      "\<forall>q < pool_count s. disk_page d q =
         (if q = p \<and> fr_dirty (bp_frames s ! i) then fr_data (bp_frames s ! i)
          else disk_page (bp_disk s) q)"
    and s': "s' = s\<lparr>bp_lru := lru', bp_disk := d, bp_disk_writes := n,
               bp_page_table := AList.delete p (bp_page_table s)\<rparr>"
  shows "pool_inv s'" and "pool_view s' = (pool_view s)\<lparr>v_avail := v_avail (pool_view s) - 1\<rparr>"
    and "pool_stale s' = pool_stale s" and "frame_of s' q \<noteq> Some i"
    and "frame_of s q = None \<Longrightarrow> frame_of s' q = None"
proof -
  note D = pool_invD [OF inv]
  have fo: "frame_of s' = (frame_of s)(p := None)" using s' by (simp add: delete_conv')
  have pin0: "fr_pin_count (bp_frames s ! i) = 0" using D(9) [of i] lru by simp
  have i_only: "frame_of s q = Some i \<longleftrightarrow> q = p" for q
    using frame_of_inj [OF inv] fr by blast
  have coh: "fr_dirty (bp_frames s ! i) \<or> fr_data (bp_frames s ! i) = disk_page (bp_disk s) p"
    using D(10) [of p] fr pin0 by (auto simp: pool_stale_def pool_pins_def)
  show "frame_of s' q \<noteq> Some i" using i_only [of q] by (simp add: fo)
  show "frame_of s q = None \<Longrightarrow> frame_of s' q = None" by (simp add: fo)
  have other: "disk_page d q = disk_page (bp_disk s) q" if "frame_of s q = Some j" "q \<noteq> p" for q j
    using d(3) D(5) [OF that(1)] that(2) by simp
  show stale: "pool_stale s' = pool_stale s"
  proof (rule set_eqI)
    fix q
    show "q \<in> pool_stale s' \<longleftrightarrow> q \<in> pool_stale s"
      using coh fr other [of q] by (cases "q = p") (auto simp: pool_stale_def fo, auto simp: s')
  qed
  have frames: "bp_frames s' = bp_frames s" "bp_disk s' = d" by (simp_all add: s')
  have pins: "pool_pins s' = pool_pins s"
    using pin0 fr by (auto simp: pool_pins_def fo frames fun_eq_iff split: option.splits)
  have page: "pool_page s' = pool_page s"
    using d(2,3) coh fr by (auto simp: pool_page_def fo frames fun_eq_iff split: option.splits)
  show "pool_view s' = (pool_view s)\<lparr>v_avail := v_avail (pool_view s) - 1\<rparr>"
    using pins page d(2) lru by (simp add: pool_view_def s')
  have lru_iff: "j \<in> set lru' \<longleftrightarrow> (\<exists>q. frame_of s' q = Some j) \<and> fr_pin_count (bp_frames s ! j) = 0" for j
  proof -
    have "(\<exists>q. frame_of s' q = Some j) \<longleftrightarrow> (\<exists>q. frame_of s q = Some j) \<and> j \<noteq> i"
      using fr i_only by (metis fo fun_upd_apply option.distinct(1) option.inject)
    then show ?thesis using D(9) [of j] D(8) lru by auto
  qed
  show "pool_inv s'"
    unfolding pool_inv_def stale pins
    using inv d(1,2) lru lru_iff by (auto simp: pool_inv_def s' delete_conv' split: if_splits)
qed

lemma evict_one_spec:
  assumes inv: "pool_inv s" and avail: "0 < v_avail (pool_view s)"
  shows "wp evict_one (\<lambda>i s'. pool_inv s'
      \<and> pool_view s' = (pool_view s)\<lparr>v_avail := v_avail (pool_view s) - 1\<rparr>
      \<and> pool_stale s' = pool_stale s
      \<and> i < bp_pool_size s' \<and> i \<notin> set (bp_free_frames s') \<and> (\<forall>q. frame_of s' q \<noteq> Some i)
      \<and> (\<forall>q. frame_of s q = None \<longrightarrow> frame_of s' q = None))
    (\<lambda>_ _. False) s"
proof (cases "bp_free_frames s = []")
  case False
  then obtain fs i where free: "bp_free_frames s = fs @ [i]" by (metis rev_exhaust)
  define s' where "s' = s\<lparr>bp_free_frames := fs\<rparr>"
  have stale: "pool_stale s' = pool_stale s" by (simp add: pool_stale_def s'_def)
  have pins: "pool_pins s' = pool_pins s" by (simp add: pool_pins_def s'_def fun_eq_iff split: option.splits)
  have page: "pool_page s' = pool_page s" by (simp add: pool_page_def s'_def fun_eq_iff split: option.splits)
  have "pool_inv s'"
    unfolding pool_inv_def stale pins using inv free by (auto simp: pool_inv_def s'_def)
  moreover have "pool_view s' = (pool_view s)\<lparr>v_avail := v_avail (pool_view s) - 1\<rparr>"
    using free pins page by (simp add: pool_view_def s'_def)
  moreover have "i < bp_pool_size s'" "i \<notin> set (bp_free_frames s')" "\<forall>q. frame_of s' q \<noteq> Some i"
    "\<forall>q. frame_of s q = None \<longrightarrow> frame_of s' q = None"
    using inv free by (auto simp: pool_inv_def s'_def)
  ultimately show ?thesis
    using free stale by (simp add: evict_one_def wp_rules s'_def)
next
  case True
  note D = pool_invD [OF inv]
  from True avail obtain i lru' where lru: "bp_lru s = i # lru'"
    by (cases "bp_lru s") (auto simp: pool_view_def)
  then obtain p where fr: "frame_of s p = Some i" using D(9) [of i] by auto
  have i: "i < bp_pool_size s" "fr_page_id (bp_frames s ! i) = Some p"
    using D(4,6) [OF fr] by auto
  let ?s1 = "s\<lparr>bp_lru := lru'\<rparr>"
  have wb: "wp (write_back (bp_frames s ! i) p)
    (\<lambda>_ s1. \<exists>d n. s1 = ?s1\<lparr>bp_disk := d, bp_disk_writes := n\<rparr> \<and> disk_inv d
       \<and> dm_num_pages d = pool_count s
       \<and> (\<forall>q < pool_count s. disk_page d q =
            (if q = p \<and> fr_dirty (bp_frames s ! i) then fr_data (bp_frames s ! i)
             else disk_page (bp_disk s) q)))
    (\<lambda>_ _. False) ?s1"
    using write_back_spec [of ?s1 p "bp_frames s ! i"] D(1) D(3) [OF i(1)] D(5) [OF fr]
    by (simp cong: if_cong)
  have "wp evict_one Q (\<lambda>_ _. False) s
    = wp (write_back (bp_frames s ! i) p)
        (\<lambda>_. wp (py_seq (del_page p) (py_return i)) Q (\<lambda>_ _. False)) (\<lambda>_ _. False) ?s1" for Q
    using True lru i D(2) by (simp add: evict_one_def wp_rules)
  then show ?thesis
  proof (simp only:, intro wp_mono [OF wb], goal_cases)
    case (1 x s1)
    then obtain d n where s1: "s1 = ?s1\<lparr>bp_disk := d, bp_disk_writes := n\<rparr>"
      and d: "disk_inv d" "dm_num_pages d = pool_count s"
        "\<forall>q < pool_count s. disk_page d q =
           (if q = p \<and> fr_dirty (bp_frames s ! i) then fr_data (bp_frames s ! i)
            else disk_page (bp_disk s) q)"
      by blast
    note E = evict_state [OF inv lru fr d refl, where n = n]
    show ?case using E True i(1) frame_of_dom [OF fr] by (simp add: wp_rules s1)
  qed simp
qed

lemma evict_one_full:
  "v_avail (pool_view s) = 0 \<Longrightarrow>
     wp evict_one (\<lambda>_ _. False) (\<lambda>e s'. e = BufferPoolFullError \<and> s' = s) s"
  by (simp add: evict_one_def wp_rules pool_view_def)


lemma wp_pin:
  "wp (pin i) Q E s =
     (if i < length (bp_frames s)
      then Q () (s\<lparr>bp_frames := (bp_frames s)
                     [i := (bp_frames s ! i)\<lparr>fr_pin_count := fr_pin_count (bp_frames s ! i) + 1\<rparr>],
                   bp_lru := lru_pop i (bp_lru s)\<rparr>)
      else E IndexError s)"
  by (simp add: pin_def wp_rules)

text \<open>Pinning a page that is in memory.\<close>

lemma pin_state:
  assumes inv: "pool_inv s" and fr: "frame_of s p = Some i"
    and s': "s' = s\<lparr>bp_frames := (bp_frames s)
               [i := (bp_frames s ! i)\<lparr>fr_pin_count := fr_pin_count (bp_frames s ! i) + 1\<rparr>],
             bp_lru := lru_pop i (bp_lru s)\<rparr>"
  shows "pool_inv s'" and "pool_view s' = view_pin p (pool_view s)"
    and "pool_stale s' = pool_stale s"
proof -
  note D = pool_invD [OF inv]
  have i: "i < length (bp_frames s)" using D(2,4) fr by auto
  have only: "frame_of s q = Some i \<longleftrightarrow> q = p" for q using frame_of_inj [OF inv] fr by blast
  show stale: "pool_stale s' = pool_stale s"
    using i by (auto simp: pool_stale_def s' nth_list_update)
  have pins: "pool_pins s' = (pool_pins s)(p := pool_pins s p + 1)"
  proof
    fix q
    show "pool_pins s' q = ((pool_pins s)(p := pool_pins s p + 1)) q"
      using i only [of q] fr by (auto simp: pool_pins_def s' nth_list_update split: option.splits)
  qed
  have page: "pool_page s' = pool_page s"
    using i by (auto simp: pool_page_def s' nth_list_update fun_eq_iff split: option.splits)
  have "length (lru_pop i (bp_lru s)) =
      length (bp_lru s) - (if fr_pin_count (bp_frames s ! i) = 0 then 1 else 0)"
    using D(8,9) fr by (auto simp: lru_pop_def distinct_remove1_removeAll [symmetric] length_remove1)
  moreover have "0 < length (bp_lru s)" if "fr_pin_count (bp_frames s ! i) = 0"
    using D(9) [of i] fr that by (cases "bp_lru s") auto
  ultimately show "pool_view s' = view_pin p (pool_view s)"
    using pins page fr by (auto simp: pool_view_def view_pin_def s' pool_pins_def neq_Nil_conv)
  show "pool_inv s'"
    unfolding pool_inv_def stale pins
    using inv i fr by (auto simp: pool_inv_def s' nth_list_update lru_pop_def distinct_removeAll)
qed

text \<open>Putting a page into a frame that no page uses.\<close>

lemma install_state:
  assumes inv: "pool_inv s" and i: "i < bp_pool_size s" "i \<notin> set (bp_free_frames s)"
    and fresh: "\<forall>q. frame_of s q \<noteq> Some i" and p: "frame_of s p = None" "p < pool_count s"
    and data: "data = disk_page (bp_disk s) p"
    and s': "s' = s\<lparr>bp_page_table := AList.update p i (bp_page_table s),
             bp_frames := (bp_frames s)[i := (bp_frames s ! i)\<lparr>fr_data := data,
               fr_page_id := Some p, fr_dirty := False, fr_pin_count := Suc 0\<rparr>],
             bp_lru := lru_pop i (bp_lru s)\<rparr>"
  shows "pool_inv s'" and "pool_view s' = (pool_view s)\<lparr>v_pins := (pool_pins s)(p := 1)\<rparr>"
    and "pool_stale s' = pool_stale s"
proof -
  note D = pool_invD [OF inv]
  have i': "i < length (bp_frames s)" using D(2) i by simp
  have fo: "frame_of s' = (frame_of s)(p \<mapsto> i)" by (simp add: s' update_conv')
  have nlru: "i \<notin> set (bp_lru s)" using D(9) fresh by blast
  then have lru: "lru_pop i (bp_lru s) = bp_lru s" by (simp add: lru_pop_def)
  have frames: "bp_frames s' ! j = (if j = i then (bp_frames s ! i)\<lparr>fr_data := data,
      fr_page_id := Some p, fr_dirty := False, fr_pin_count := Suc 0\<rparr> else bp_frames s ! j)" for j
    using i' by (simp add: s' nth_list_update)
  have same: "bp_disk s' = bp_disk s" "bp_free_frames s' = bp_free_frames s"
    "bp_pool_size s' = bp_pool_size s" "bp_lru s' = bp_lru s"
    "length (bp_frames s') = length (bp_frames s)" by (simp_all add: s' lru)
  have ni: "frame_of s q = Some j \<Longrightarrow> j \<noteq> i" for q j using fresh by auto
  show stale: "pool_stale s' = pool_stale s"
  proof (rule set_eqI)
    fix q
    show "q \<in> pool_stale s' \<longleftrightarrow> q \<in> pool_stale s"
      using p(1) ni [of q] data by (cases "q = p") (auto simp: pool_stale_def fo frames same)
  qed
  have pins: "pool_pins s' = (pool_pins s)(p := 1)"
    using ni p(1) by (auto simp: pool_pins_def fo frames fun_eq_iff split: option.splits)
  have page: "pool_page s' = pool_page s"
    using ni p data by (auto simp: pool_page_def fo frames same fun_eq_iff split: option.splits)
  show "pool_view s' = (pool_view s)\<lparr>v_pins := (pool_pins s)(p := 1)\<rparr>"
    using pins page by (simp add: pool_view_def same)
  have len: "length data = PAGE_SIZE" using data disk_page_length [OF D(1) p(2)] by simp
  have "(\<exists>q. frame_of s' q = Some j) \<longleftrightarrow> (\<exists>q. frame_of s q = Some j) \<or> j = i" for j
    using p(1) by (metis fo fun_upd_apply option.distinct(1) option.inject)
  then have lru_iff: "j \<in> set (bp_lru s) \<longleftrightarrow>
      (\<exists>q. frame_of s' q = Some j) \<and> fr_pin_count (bp_frames s' ! j) = 0" for j
    using D(9) [of j] nlru by (auto simp: frames)
  have "0 < pool_pins s' q" if "q \<in> pool_stale s" for q
    using D(10) [OF that] by (auto simp: pins)
  moreover have "j < bp_pool_size s \<and> q < pool_count s \<and> fr_page_id (bp_frames s' ! j) = Some q
      \<and> j \<notin> set (bp_free_frames s)" if "frame_of s' q = Some j" for q j
    using that D(4-7) [of q j] i p(2) ni [of q j] by (auto simp: fo frames split: if_splits)
  moreover have "length (fr_data (bp_frames s' ! j)) = PAGE_SIZE" if "j < bp_pool_size s" for j
    using that D(3) [of j] len by (simp add: frames)
  ultimately show "pool_inv s'"
    using inv lru_iff unfolding pool_inv_def [of s'] stale same
    by (simp add: pool_inv_def)
qed

lemma install_spec:
  assumes "pool_inv s" and "i < bp_pool_size s" "i \<notin> set (bp_free_frames s)"
    and "\<forall>q. frame_of s q \<noteq> Some i" and "frame_of s p = None" "p < pool_count s"
    and "data = disk_page (bp_disk s) p"
  shows "wp (install i p data) (\<lambda>_ s'. pool_inv s'
      \<and> pool_view s' = (pool_view s)\<lparr>v_pins := (pool_pins s)(p := 1)\<rparr>
      \<and> pool_stale s' = pool_stale s) (\<lambda>_ _. False) s"
  using install_state [OF assms refl] assms(2) pool_invD(2) [OF assms(1)]
  by (simp add: install_def wp_rules wp_pin)

lemma fetch_page_spec:
  assumes inv: "pool_inv s" and p: "p < pool_count s"
    and avail: "0 < pool_pins s p \<or> 0 < v_avail (pool_view s)"
  shows "wp (fetch_page p) (\<lambda>r s'. r = p \<and> pool_inv s' \<and> pool_view s' = view_pin p (pool_view s)
      \<and> pool_stale s' = pool_stale s) (\<lambda>_ _. False) s"
proof (cases "frame_of s p")
  case (Some i)
  define s1 where "s1 = s\<lparr>bp_cache_hits := Suc (bp_cache_hits s)\<rparr>"
  have eq: "pool_pins s1 = pool_pins s" "pool_stale s1 = pool_stale s" "pool_view s1 = pool_view s"
    by (auto simp: s1_def pool_pins_def pool_stale_def pool_view_def pool_page_def fun_eq_iff
        split: option.splits)
  have "pool_inv s1" unfolding pool_inv_def eq using inv by (simp add: pool_inv_def s1_def)
  moreover have "frame_of s1 p = Some i" using Some by (simp add: s1_def)
  ultimately show ?thesis
    using pin_state [OF \<open>pool_inv s1\<close> _ refl] Some pool_invD(2,4) [OF inv] eq
    by (simp add: fetch_page_def wp_rules wp_pin s1_def [symmetric]) (simp add: s1_def)
next
  case None
  then have "0 < v_avail (pool_view s)" and pins0: "pool_pins s p = 0"
    using avail by (auto simp: pool_pins_def)
  note ev = evict_one_spec [OF inv \<open>0 < v_avail (pool_view s)\<close>]
  have "wp (fetch_page p) Q E s = wp evict_one (\<lambda>i. wp (py_bind (on_disk (read_page p)) (\<lambda>data.
      py_seq (py_modify (\<lambda>s. s\<lparr>bp_disk_reads := bp_disk_reads s + 1\<rparr>))
        (py_seq (install i p data) (py_return p)))) Q E) E s" for Q E
    using None by (simp add: fetch_page_def wp_rules)
  then show ?thesis
  proof (simp only:, intro wp_mono [OF ev], goal_cases)
    case (1 i s1)
    then have v: "pool_count s1 = pool_count s" "pool_pins s1 = pool_pins s" "pool_page s1 = pool_page s"
      by (auto simp: pool_view_def)
    define s2 where "s2 = s1\<lparr>bp_disk_reads := Suc (bp_disk_reads s1)\<rparr>"
    have eq: "pool_pins s2 = pool_pins s1" "pool_stale s2 = pool_stale s1" "pool_view s2 = pool_view s1"
      by (auto simp: s2_def pool_pins_def pool_stale_def pool_view_def pool_page_def fun_eq_iff
          split: option.splits)
    have inv2: "pool_inv s2" unfolding pool_inv_def eq using 1 by (simp add: pool_inv_def s2_def)
    have "wp (install i p (disk_page (bp_disk s1) p)) (\<lambda>_ s'. pool_inv s'
      \<and> pool_view s' = (pool_view s2)\<lparr>v_pins := (pool_pins s2)(p := 1)\<rparr>
      \<and> pool_stale s' = pool_stale s2) (\<lambda>_ _. False) s2"
      using 1 None p v by (intro install_spec inv2) (auto simp: s2_def)
    then have "wp (install i p (disk_page (bp_disk s1) p)) (\<lambda>_ s'. p = p \<and> pool_inv s'
        \<and> pool_view s' = view_pin p (pool_view s) \<and> pool_stale s' = pool_stale s) (\<lambda>_ _. False) s2"
      by (rule wp_mono)
        (use 1 v eq pins0 in \<open>auto simp: s2_def view_pin_def pool_view_def\<close>)
    then show ?case
      using disk_read_law [of "bp_disk s1" p] pool_invD(1) [of s1] 1 p v
      by (simp add: wp_rules) (auto elim!: wp_mono simp: s2_def wp_return)
  qed simp
qed


lemma new_page_spec:
  assumes inv: "pool_inv s" and avail: "0 < v_avail (pool_view s)"
  shows "wp new_page (\<lambda>p s'. p = pool_count s \<and> pool_inv s' \<and> pool_view s' = view_new (pool_view s)
      \<and> pool_stale s' = pool_stale s) (\<lambda>_ _. False) s"
proof -
  note D = pool_invD [OF inv]
  have "wp new_page Q E s = wp (on_disk allocate_page) (\<lambda>p. wp (py_bind evict_one (\<lambda>i.
      py_seq (install i p (replicate PAGE_SIZE 0)) (py_return p))) Q E) E s" for Q E
    by (simp add: new_page_def wp_rules)
  then show ?thesis
  proof (simp only: wp_on_disk, intro wp_mono [OF disk_alloc_law [OF D(1)]], goal_cases)
    case (1 p d)
    define s1 where "s1 = s\<lparr>bp_disk := d\<rparr>"
    have none: "frame_of s p = None" using D(5) [of p] 1 by (cases "frame_of s p") auto
    have disk: "disk_page d q = disk_page (bp_disk s) q" if "frame_of s q = Some j" for q j
      using 1 D(5) [OF that] by auto
    have stale: "pool_stale s1 = pool_stale s"
      unfolding pool_stale_def s1_def using disk by auto
    have pins: "pool_pins s1 = pool_pins s"
      by (auto simp: s1_def pool_pins_def fun_eq_iff split: option.splits)
    have page: "pool_page s1 = (pool_page s)(p := replicate PAGE_SIZE 0)"
      using 1 none disk by (auto simp: s1_def pool_page_def fun_eq_iff split: option.splits)
    have inv1: "pool_inv s1"
      unfolding pool_inv_def stale pins using inv 1
      by (auto simp: pool_inv_def s1_def less_Suc_eq)
    have view1: "pool_view s1 = (pool_view s)\<lparr>v_count := v_count (pool_view s) + 1,
        v_page := (v_page (pool_view s))(p := replicate PAGE_SIZE 0)\<rparr>"
      using pins page 1 by (simp add: pool_view_def s1_def)
    have avail1: "0 < v_avail (pool_view s1)" using avail view1 by simp
    have "wp (py_bind evict_one (\<lambda>i. py_seq (install i p (replicate PAGE_SIZE 0)) (py_return p)))
      (\<lambda>r s'. r = pool_count s \<and> pool_inv s' \<and> pool_view s' = view_new (pool_view s)
        \<and> pool_stale s' = pool_stale s) (\<lambda>_ _. False) s1"
      unfolding wp_bind
    proof (rule wp_mono [OF evict_one_spec [OF inv1 avail1]], goal_cases)
      case (1 i s2)
      then have v: "pool_count s2 = pool_count s1" "pool_pins s2 = pool_pins s1" "pool_page s2 = pool_page s1"
        by (auto simp: pool_view_def)
      have none2: "frame_of s2 p = None" using 1 none by (auto simp: s1_def)
      have lt: "p < pool_count s2" using \<open>p = pool_count s \<and> _\<close> v by (simp add: s1_def)
      have "disk_page (bp_disk s2) p = pool_page s2 p" using none2 lt by (simp add: pool_page_def)
      then have zeros: "replicate PAGE_SIZE 0 = disk_page (bp_disk s2) p" using v page by simp
      have "wp (install i p (replicate PAGE_SIZE 0)) (\<lambda>_ s'. pool_inv s'
        \<and> pool_view s' = (pool_view s2)\<lparr>v_pins := (pool_pins s2)(p := 1)\<rparr>
        \<and> pool_stale s' = pool_stale s2) (\<lambda>_ _. False) s2"
        using 1 none2 lt zeros by (intro install_spec) auto
      then show ?case unfolding wp_seq wp_return
        by (rule wp_mono)
          (use 1 v view1 stale pins \<open>p = pool_count s \<and> _\<close> in \<open>auto simp: view_new_def pool_view_def\<close>)
    qed simp
    then show ?case by (simp add: s1_def)
  qed simp
qed

lemma unpin_page_spec:
  assumes inv: "pool_inv s" and pinned: "0 < pool_pins s p"
    and stale_ok: "dirty \<or> p \<notin> pool_stale s \<or> 1 < pool_pins s p"
  shows "wp (unpin_page p dirty) (\<lambda>_ s'. pool_inv s' \<and> pool_view s' = view_unpin p (pool_view s)
      \<and> pool_stale s' = pool_stale s - (if dirty then {p} else {})) (\<lambda>_ _. False) s"
proof -
  note D = pool_invD [OF inv]
  from pinned obtain i where fr: "frame_of s p = Some i" "0 < fr_pin_count (bp_frames s ! i)"
    by (auto simp: pool_pins_def split: option.splits)
  have i: "i < length (bp_frames s)" using D(2,4) fr by auto
  have only: "frame_of s q = Some i \<longleftrightarrow> q = p" for q using frame_of_inj [OF inv] fr by blast
  let ?fr = "(bp_frames s ! i)\<lparr>fr_dirty := fr_dirty (bp_frames s ! i) \<or> dirty,
    fr_pin_count := fr_pin_count (bp_frames s ! i) - 1\<rparr>"
  define s' where "s' = s\<lparr>bp_frames := (bp_frames s)[i := ?fr],
    bp_lru := (if fr_pin_count (bp_frames s ! i) = 1 then bp_lru s @ [i] else bp_lru s)\<rparr>"
  have nlru: "i \<notin> set (bp_lru s)" using D(9) [of i] fr by auto
  have step: "wp (unpin_page p dirty) Q E s = Q () s'" for Q E
    using fr i nlru by (auto simp: unpin_page_def wp_rules s'_def lru_set_def)
  have fo: "frame_of s' = frame_of s" by (simp add: s'_def)
  have frames: "bp_frames s' ! j = (if j = i then ?fr else bp_frames s ! j)" for j
    using i by (simp add: s'_def nth_list_update)
  have same: "bp_disk s' = bp_disk s" "bp_free_frames s' = bp_free_frames s"
    "bp_pool_size s' = bp_pool_size s" "length (bp_frames s') = length (bp_frames s)"
    by (simp_all add: s'_def)
  have stale: "pool_stale s' = pool_stale s - (if dirty then {p} else {})"
  proof (rule set_eqI)
    fix q
    show "q \<in> pool_stale s' \<longleftrightarrow> q \<in> pool_stale s - (if dirty then {p} else {})"
      using fr(1) only [of q] by (cases "q = p") (auto simp: pool_stale_def fo frames same)
  qed
  have pins: "pool_pins s' = (pool_pins s)(p := pool_pins s p - 1)"
  proof
    fix q
    show "pool_pins s' q = ((pool_pins s)(p := pool_pins s p - 1)) q"
      using fr(1) only [of q] by (auto simp: pool_pins_def fo frames split: option.splits)
  qed
  have page: "pool_page s' = pool_page s"
    by (auto simp: pool_page_def fo frames same fun_eq_iff split: option.splits)
  have view: "pool_view s' = view_unpin p (pool_view s)"
    using pins page fr by (auto simp: pool_view_def view_unpin_def same pool_pins_def) (auto simp: s'_def)
  have lru_iff: "j \<in> set (bp_lru s') \<longleftrightarrow>
      (\<exists>q. frame_of s' q = Some j) \<and> fr_pin_count (bp_frames s' ! j) = 0" for j
    using D(9) [of j] fr nlru by (auto simp: fo frames) (auto simp: s'_def split: if_splits)
  have "0 < pool_pins s' q" if "q \<in> pool_stale s'" for q
    using that D(10) [of q] stale_ok by (auto simp: pins stale split: if_splits)
  moreover have "distinct (bp_lru s')" using D(8) nlru by (simp add: s'_def)
  ultimately have "pool_inv s'"
    using inv lru_iff D(3) fr(1) unfolding pool_inv_def [of s'] same fo
    by (auto simp: pool_inv_def frames)
  with step view stale show ?thesis by simp
qed

text \<open>
  \<^verbatim>\<open>unpin_page\<close> on a page that nobody holds: the count stays at zero, the page keeps its
  place in the queue, and at most its dirty flag changes.
\<close>

lemma unpin_page_spare:
  assumes inv: "pool_inv s" and pin0: "pool_pins s p = 0"
  shows "wp (unpin_page p dirty) (\<lambda>_ s'. pool_inv s' \<and> pool_view s' = pool_view s
      \<and> pool_stale s' \<subseteq> pool_stale s) (\<lambda>_ _. False) s"
proof (cases "frame_of s p")
  case None
  then show ?thesis using inv by (simp add: unpin_page_def wp_rules)
next
  case (Some i)
  note D = pool_invD [OF inv]
  have i: "i < length (bp_frames s)" using D(2,4) Some by auto
  have c0: "fr_pin_count (bp_frames s ! i) = 0" using pin0 Some by (simp add: pool_pins_def)
  then have lru: "i \<in> set (bp_lru s)" using D(9) [of i] Some by auto
  define s' where "s' = s\<lparr>bp_frames := (bp_frames s)
    [i := (bp_frames s ! i)\<lparr>fr_dirty := fr_dirty (bp_frames s ! i) \<or> dirty\<rparr>]\<rparr>"
  have step: "wp (unpin_page p dirty) Q E s = Q () s'" for Q E
    using Some i lru c0 by (simp add: unpin_page_def wp_rules s'_def lru_set_def)
  have frames: "bp_frames s' ! j = (if j = i then (bp_frames s ! i)
      \<lparr>fr_dirty := fr_dirty (bp_frames s ! i) \<or> dirty\<rparr> else bp_frames s ! j)" for j
    using i by (simp add: s'_def nth_list_update)
  have same: "bp_disk s' = bp_disk s" "bp_free_frames s' = bp_free_frames s"
    "bp_lru s' = bp_lru s" "bp_page_table s' = bp_page_table s"
    "bp_pool_size s' = bp_pool_size s" "length (bp_frames s') = length (bp_frames s)"
    by (simp_all add: s'_def)
  have stale: "pool_stale s' \<subseteq> pool_stale s"
    by (auto simp: pool_stale_def frames same split: if_splits)
  have pins: "pool_pins s' = pool_pins s"
    by (auto simp: pool_pins_def frames same fun_eq_iff split: option.splits)
  have page: "pool_page s' = pool_page s"
    by (auto simp: pool_page_def frames same fun_eq_iff split: option.splits)
  have "\<forall>q \<in> pool_stale s'. 0 < pool_pins s' q" using stale D(10) by (auto simp: pins)
  then have "pool_inv s'"
    using inv unfolding pool_inv_def [of s'] same by (auto simp: pool_inv_def frames)
  moreover have "pool_view s' = pool_view s" using pins page by (simp add: pool_view_def same)
  ultimately show ?thesis using step stale by simp
qed

lemma buf_get_spec:
  assumes inv: "pool_inv s" and pinned: "0 < pool_pins s p"
  shows "wp (buf_get p) (\<lambda>d s'. d = pool_page s p \<and> s' = s) (\<lambda>_ _. False) s"
proof -
  from pinned obtain i where fr: "frame_of s p = Some i"
    by (auto simp: pool_pins_def split: option.splits)
  with pool_invD(2,4,5) [OF inv] show ?thesis
    by (simp add: buf_get_def wp_rules pool_page_def)
qed

lemma buf_set_spec:
  assumes inv: "pool_inv s" and pinned: "0 < pool_pins s p" and len: "length d = PAGE_SIZE"
  shows "wp (buf_set p d) (\<lambda>_ s'. pool_inv s' \<and> pool_view s' = view_write p d (pool_view s)
      \<and> pool_stale s' \<subseteq> insert p (pool_stale s)) (\<lambda>_ _. False) s"
proof -
  note D = pool_invD [OF inv]
  from pinned obtain i where fr: "frame_of s p = Some i"
    by (auto simp: pool_pins_def split: option.splits)
  have i: "i < length (bp_frames s)" using D(2,4) fr by auto
  have only: "frame_of s q = Some i \<longleftrightarrow> q = p" for q using frame_of_inj [OF inv] fr by blast
  define s' where "s' = s\<lparr>bp_frames := (bp_frames s)[i := (bp_frames s ! i)\<lparr>fr_data := d\<rparr>]\<rparr>"
  have fo: "frame_of s' = frame_of s" by (simp add: s'_def)
  have frames: "bp_frames s' ! j = (if j = i then (bp_frames s ! i)\<lparr>fr_data := d\<rparr> else bp_frames s ! j)" for j
    using i by (simp add: s'_def nth_list_update)
  have same: "bp_disk s' = bp_disk s" "bp_free_frames s' = bp_free_frames s" "bp_lru s' = bp_lru s"
    "bp_pool_size s' = bp_pool_size s" "length (bp_frames s') = length (bp_frames s)"
    by (simp_all add: s'_def)
  have stale: "pool_stale s' \<subseteq> insert p (pool_stale s)"
    using only by (auto simp: pool_stale_def fo frames same split: if_splits)
  have pins: "pool_pins s' = pool_pins s"
    by (auto simp: pool_pins_def fo frames fun_eq_iff split: option.splits)
  have page: "pool_page s' = (pool_page s)(p := d)"
  proof
    fix q
    show "pool_page s' q = ((pool_page s)(p := d)) q"
      using fr only [of q] D(5) [OF fr] by (auto simp: pool_page_def fo frames same split: option.splits)
  qed
  have "pool_view s' = view_write p d (pool_view s)"
    using pins page by (simp add: pool_view_def view_write_def same)
  moreover have "0 < pool_pins s' q" if "q \<in> pool_stale s'" for q
    using that stale D(10) [of q] pinned by (auto simp: pins)
  then have "pool_inv s'"
    using inv len unfolding pool_inv_def [of s'] same fo
    by (auto simp: pool_inv_def frames)
  ultimately show ?thesis using fr i stale by (simp add: buf_set_def wp_rules s'_def)
qed


text \<open>The same facts as rules that a proof about calling code applies one after the other.\<close>

lemma wp_fetch_page:
  assumes "pool_inv s" and "p < pool_count s" and "0 < pool_pins s p \<or> 0 < v_avail (pool_view s)"
    and "\<And>s'. pool_inv s' \<Longrightarrow> pool_view s' = view_pin p (pool_view s) \<Longrightarrow>
      pool_stale s' = pool_stale s \<Longrightarrow> Q p s'"
  shows "wp (fetch_page p) Q E s"
  by (rule wp_mono [OF fetch_page_spec [OF assms(1-3)]]) (use assms(4) in auto)

lemma wp_new_page:
  assumes "pool_inv s" and "0 < v_avail (pool_view s)"
    and "\<And>s'. pool_inv s' \<Longrightarrow> pool_view s' = view_new (pool_view s) \<Longrightarrow>
      pool_stale s' = pool_stale s \<Longrightarrow> Q (pool_count s) s'"
  shows "wp new_page Q E s"
  by (rule wp_mono [OF new_page_spec [OF assms(1,2)]]) (use assms(3) in auto)

lemma wp_unpin_page:
  assumes "pool_inv s" and "0 < pool_pins s p"
    and "dirty \<or> p \<notin> pool_stale s \<or> 1 < pool_pins s p"
    and "\<And>s'. pool_inv s' \<Longrightarrow> pool_view s' = view_unpin p (pool_view s) \<Longrightarrow>
      pool_stale s' = pool_stale s - (if dirty then {p} else {}) \<Longrightarrow> Q () s'"
  shows "wp (unpin_page p dirty) Q E s"
  by (rule wp_mono [OF unpin_page_spec [OF assms(1-3)]]) (use assms(4) in auto)

lemma wp_buf_get:
  assumes "pool_inv s" and "0 < pool_pins s p" and "Q (pool_page s p) s"
  shows "wp (buf_get p) Q E s"
  by (rule wp_mono [OF buf_get_spec [OF assms(1,2)]]) (use assms(3) in auto)

lemma wp_buf_get_eq:
  assumes "pool_inv s" and "0 < pool_pins s p"
  shows "wp (buf_get p) Q E s = Q (pool_page s p) s"
  using buf_get_spec [OF assms] unfolding wp_total by (auto simp: wp_def)

lemma wp_unpin_spare:
  assumes "pool_inv s" and "pool_pins s p = 0"
    and "\<And>s'. pool_inv s' \<Longrightarrow> pool_view s' = pool_view s \<Longrightarrow> pool_stale s' \<subseteq> pool_stale s \<Longrightarrow> Q () s'"
  shows "wp (unpin_page p dirty) Q E s"
  by (rule wp_mono [OF unpin_page_spare [OF assms(1,2)]]) (use assms(3) in auto)

lemma wp_buf_set:
  assumes "pool_inv s" and "0 < pool_pins s p" and "length d = PAGE_SIZE"
    and "\<And>s'. pool_inv s' \<Longrightarrow> pool_view s' = view_write p d (pool_view s) \<Longrightarrow>
      pool_stale s' \<subseteq> insert p (pool_stale s) \<Longrightarrow> Q () s'"
  shows "wp (buf_set p d) Q E s"
  by (rule wp_mono [OF buf_set_spec [OF assms(1-3)]]) (use assms(4) in auto)

lemma pool_view_sel:
  "v_count (pool_view s) = pool_count s" "v_page (pool_view s) = pool_page s"
  "v_pins (pool_view s) = pool_pins s"
  by (simp_all add: pool_view_def)

lemma pool_view_eqD:
  assumes "pool_view s' = v"
  shows "pool_count s' = v_count v" and "pool_page s' = v_page v" and "pool_pins s' = v_pins v"
  using assms by (auto simp: pool_view_def)

lemma view_unpin_pin [simp]:
  "0 < v_avail v \<or> 0 < v_pins v p \<Longrightarrow> view_unpin p (view_pin p v) = v"
  by (auto simp: view_unpin_def view_pin_def)

lemma view_sel [simp]:
  "v_count (view_pin p v) = v_count v" "v_page (view_pin p v) = v_page v"
  "v_count (view_unpin p v) = v_count v" "v_page (view_unpin p v) = v_page v"
  "v_count (view_write p d v) = v_count v" "v_page (view_write p d v) = (v_page v)(p := d)"
  "v_pins (view_write p d v) = v_pins v" "v_avail (view_write p d v) = v_avail v"
  "v_count (view_new v) = v_count v + 1"
  "v_page (view_new v) = (v_page v)(v_count v := replicate PAGE_SIZE 0)"
  "v_pins (view_pin p v) = (v_pins v)(p := v_pins v p + 1)"
  "v_pins (view_unpin p v) = (v_pins v)(p := v_pins v p - 1)"
  "v_pins (view_new v) = (v_pins v)(v_count v := 1)"
  "v_avail (view_new v) = v_avail v - 1"
  by (simp_all add: view_pin_def view_unpin_def view_write_def view_new_def)

lemma view_write_pin: "view_write p d (view_pin q v) = view_pin q (view_write p d v)"
  by (simp add: view_write_def view_pin_def)

lemma view_write_unpin: "view_write p d (view_unpin q v) = view_unpin q (view_write p d v)"
  by (simp add: view_write_def view_unpin_def)

lemma pool_pins_beyond: "pool_inv s \<Longrightarrow> pool_count s \<le> p \<Longrightarrow> pool_pins s p = 0"
  using pool_invD(5) [of s p] by (auto simp: pool_pins_def split: option.splits)

section \<open>When no frame can be taken, and pages that do not exist\<close>

lemma pool_init_inv:
  assumes "disk_inv d"
  shows "pool_inv (pool_init d n)" and "pool_stale (pool_init d n) = {}"
    and "pool_view (pool_init d n) = \<lparr>v_count = dm_num_pages d,
      v_page = (\<lambda>p. if p < dm_num_pages d then disk_page d p else []), v_pins = (\<lambda>_. 0), v_avail = n\<rparr>"
  using assms
  by (auto simp: pool_inv_def pool_init_def pool_stale_def pool_view_def pool_page_def pool_pins_def
      new_frame_def fun_eq_iff)

lemma fetch_page_full:
  assumes "frame_of s p = None" and "v_avail (pool_view s) = 0"
  shows "wp (fetch_page p) (\<lambda>_ _. False) (\<lambda>e s'. e = BufferPoolFullError \<and> s' = s) s"
  using wp_mono [OF evict_one_full [OF assms(2)]] assms(1) by (simp add: fetch_page_def wp_rules)

text \<open>A read that fails happens after the frame was taken: the frame is lost.\<close>

lemma fetch_page_missing:
  assumes inv: "pool_inv s" and p: "pool_count s \<le> p" and avail: "0 < v_avail (pool_view s)"
  shows "wp (fetch_page p) (\<lambda>_ _. False) (\<lambda>e s'. e = ValueError \<and> pool_inv s'
      \<and> pool_view s' = (pool_view s)\<lparr>v_avail := v_avail (pool_view s) - 1\<rparr>
      \<and> pool_stale s' = pool_stale s) s"
proof -
  have "frame_of s p = None" using pool_invD(5) [OF inv, of p] p by (cases "frame_of s p") auto
  then have "wp (fetch_page p) Q E s = wp evict_one (\<lambda>i. wp (py_bind (on_disk (read_page p)) (\<lambda>data.
      py_seq (py_modify (\<lambda>s. s\<lparr>bp_disk_reads := bp_disk_reads s + 1\<rparr>))
        (py_seq (install i p data) (py_return p)))) Q E) E s" for Q E
    by (simp add: fetch_page_def wp_rules)
  then show ?thesis
  proof (simp only:, intro wp_mono [OF evict_one_spec [OF inv avail]], goal_cases)
    case (1 i s')
    then have "pool_count s' = pool_count s" by (auto simp: pool_view_def)
    with 1 p show ?case by (simp add: wp_rules read_page_def)
  qed simp
qed

text \<open>The page is allocated on disk before the frame is taken: it stays there, unused.\<close>

lemma new_page_full:
  assumes inv: "pool_inv s" and avail: "v_avail (pool_view s) = 0"
  shows "wp new_page (\<lambda>_ _. False) (\<lambda>e s'. e = BufferPoolFullError \<and> pool_count s' = pool_count s + 1
      \<and> bp_page_table s' = bp_page_table s \<and> bp_frames s' = bp_frames s) s"
proof -
  have "wp new_page Q E s = wp (on_disk allocate_page) (\<lambda>p. wp evict_one (\<lambda>i. wp (
      py_seq (install i p (replicate PAGE_SIZE 0)) (py_return p)) Q E) E) E s" for Q E
    by (simp add: new_page_def wp_rules)
  then show ?thesis
  proof (simp only: wp_on_disk, intro wp_mono [OF disk_alloc_law [OF pool_invD(1) [OF inv]]], goal_cases)
    case (1 p d)
    have "v_avail (pool_view (s\<lparr>bp_disk := d\<rparr>)) = 0" using avail by (simp add: pool_view_def)
    then show ?case by (rule wp_mono [OF evict_one_full]) (use 1 in auto)
  qed simp
qed

section \<open>Flushing\<close>

definition pool_dirty :: "pool \<Rightarrow> nat set" where
  "pool_dirty s = {p. \<exists>i. frame_of s p = Some i \<and> fr_dirty (bp_frames s ! i)}"

lemma flush_state:
  assumes inv: "pool_inv s" and fr: "frame_of s p = Some i" and dirty: "fr_dirty (bp_frames s ! i)"
    and d: "disk_inv d" "dm_num_pages d = pool_count s"
      "\<forall>q < pool_count s. disk_page d q = (if q = p then fr_data (bp_frames s ! i) else disk_page (bp_disk s) q)"
    and s': "s' = s\<lparr>bp_disk := d, bp_disk_writes := n,
        bp_frames := (bp_frames s)[i := (bp_frames s ! i)\<lparr>fr_dirty := False\<rparr>]\<rparr>"
  shows "pool_inv s'" and "pool_view s' = pool_view s" and "pool_stale s' = pool_stale s"
    and "pool_dirty s' = pool_dirty s - {p}"
proof -
  note D = pool_invD [OF inv]
  have i: "i < length (bp_frames s)" using D(2,4) fr by auto
  have only: "frame_of s q = Some i \<longleftrightarrow> q = p" for q using frame_of_inj [OF inv] fr by blast
  have frames: "bp_frames s' ! j = (if j = i then (bp_frames s ! i)\<lparr>fr_dirty := False\<rparr> else bp_frames s ! j)" for j
    using i by (simp add: s' nth_list_update)
  have same: "bp_disk s' = d" "bp_free_frames s' = bp_free_frames s" "bp_lru s' = bp_lru s"
    "bp_page_table s' = bp_page_table s" "bp_pool_size s' = bp_pool_size s"
    "length (bp_frames s') = length (bp_frames s)" by (simp_all add: s')
  have lt: "q < pool_count s" if "frame_of s q = Some j" for q j using D(5) [OF that] .
  show stale: "pool_stale s' = pool_stale s"
  proof (rule set_eqI)
    fix q
    show "q \<in> pool_stale s' \<longleftrightarrow> q \<in> pool_stale s"
      using fr dirty only [of q] d(3) lt [of q]
      by (cases "q = p") (auto simp: pool_stale_def frames same)
  qed
  show "pool_dirty s' = pool_dirty s - {p}"
  proof (rule set_eqI)
    fix q
    show "q \<in> pool_dirty s' \<longleftrightarrow> q \<in> pool_dirty s - {p}"
      using fr only [of q] by (cases "q = p") (auto simp: pool_dirty_def frames same)
  qed
  have pins: "pool_pins s' = pool_pins s"
    by (auto simp: pool_pins_def frames same fun_eq_iff split: option.splits)
  have page: "pool_page s' = pool_page s"
    using d(2,3) fr by (auto simp: pool_page_def frames same fun_eq_iff split: option.splits)
  show "pool_view s' = pool_view s" using pins page d(2) by (simp add: pool_view_def same)
  show "pool_inv s'"
    using inv d(1,2) unfolding pool_inv_def [of s'] stale pins same by (auto simp: pool_inv_def frames)
qed

lemma flush_page_spec:
  assumes inv: "pool_inv s"
  shows "wp (flush_page p) (\<lambda>_ s'. pool_inv s' \<and> pool_view s' = pool_view s
      \<and> pool_stale s' = pool_stale s \<and> pool_dirty s' = pool_dirty s - {p}) (\<lambda>_ _. False) s"
proof (cases "p \<in> pool_dirty s")
  case False
  then show ?thesis
    using inv pool_invD(2,4) [OF inv]
    by (auto simp: flush_page_def wp_rules pool_dirty_def split: option.splits)
next
  case True
  then obtain i where fr: "frame_of s p = Some i" "fr_dirty (bp_frames s ! i)"
    by (auto simp: pool_dirty_def)
  note D = pool_invD [OF inv]
  have i: "i < length (bp_frames s)" using D(2,4) fr by auto
  have "wp (flush_page p) Q E s = wp (write_back (bp_frames s ! i) p)
      (\<lambda>_. wp (set_frame i (\<lambda>fr. fr\<lparr>fr_dirty := False\<rparr>)) Q E) E s" for Q E
    using fr i by (simp add: flush_page_def wp_rules)
  then show ?thesis
  proof (simp only:, intro wp_mono [OF write_back_spec], goal_cases)
    case (4 x s1)
    then show ?case
      using flush_state [OF inv fr _ _ _ refl] fr(2) i by (auto simp: wp_rules)
  qed (use D(1,2) D(3) [of i] D(4,5) [OF fr(1)] in auto)
qed

lemma flush_pages_spec:
  assumes "pool_inv s"
  shows "wp (py_for ps flush_page) (\<lambda>_ s'. pool_inv s' \<and> pool_view s' = pool_view s
      \<and> pool_stale s' = pool_stale s \<and> pool_dirty s' = pool_dirty s - set ps) (\<lambda>_ _. False) s"
  using assms
proof (induction ps arbitrary: s)
  case Nil
  then show ?case by (simp add: wp_return)
next
  case (Cons p ps)
  show ?case unfolding py_for.simps wp_seq
  proof (rule wp_mono [OF flush_page_spec [OF Cons.prems]], goal_cases)
    case (1 x s')
    from Cons.IH [of s'] 1 show ?case by (auto elim!: wp_mono)
  qed simp
qed

text \<open>After \<^verbatim>\<open>flush_all\<close> the file holds every page as the callers see it, durably.\<close>

lemma flush_all_spec:
  assumes inv: "pool_inv s" and fresh: "pool_stale s = {}"
  shows "wp flush_all (\<lambda>_ s'. pool_inv s' \<and> pool_view s' = pool_view s \<and> pool_stale s' = {}
      \<and> pool_dirty s' = {} \<and> dm_synced (bp_disk s') = dm_file (bp_disk s')
      \<and> (\<forall>p < pool_count s. disk_page (bp_disk s') p = pool_page s p)) (\<lambda>_ _. False) s"
proof -
  have dom: "pool_dirty s \<subseteq> set (map fst (bp_page_table s))"
    by (auto simp: pool_dirty_def dest: map_of_SomeD intro!: image_eqI [where x = "(_, _)"])
  have "wp flush_all Q E s = wp (py_for (map fst (bp_page_table s)) flush_page)
      (\<lambda>_. wp (on_disk disk_fsync) Q E) E s" for Q E
    by (simp add: flush_all_def wp_rules)
  then show ?thesis
  proof (simp only:, intro wp_mono [OF flush_pages_spec [OF inv]], goal_cases)
    case (1 x s1)
    then have s1: "pool_inv s1" "pool_view s1 = pool_view s" "pool_stale s1 = {}" "pool_dirty s1 = {}"
      using fresh dom by auto
    define d where "d = bp_disk s1"
    define s2 where "s2 = s1\<lparr>bp_disk := d\<lparr>dm_synced := dm_file d\<rparr>\<rparr>"
    have dp: "disk_page (d\<lparr>dm_synced := dm_file d\<rparr>) = disk_page d" by (simp add: disk_page_def fun_eq_iff)
    have eq: "pool_stale s2 = pool_stale s1" "pool_view s2 = pool_view s1" "pool_dirty s2 = pool_dirty s1"
      "pool_pins s2 = pool_pins s1"
      by (auto simp: s2_def pool_stale_def pool_view_def pool_dirty_def pool_page_def pool_pins_def
          dp fun_eq_iff split: option.splits) (simp_all add: d_def)
    have "pool_inv s2"
      using s1(1) unfolding pool_inv_def [of s2] eq by (auto simp: pool_inv_def s2_def d_def disk_inv_def)
    moreover have "disk_page d p = pool_page s p" if "p < pool_count s" for p
    proof -
      have "pool_page s p = pool_page s1 p" "p < pool_count s1"
        using s1(2) that by (simp_all add: pool_view_def fun_eq_iff)
      moreover have "p \<notin> pool_stale s1" "p \<notin> pool_dirty s1" using s1 by auto
      ultimately show ?thesis
        by (auto simp: pool_page_def pool_stale_def pool_dirty_def d_def split: option.splits)
    qed
    ultimately show ?case
      using s1 eq pool_invD(1) [OF s1(1)]
      by (simp add: wp_rules s2_def dp d_def disk_inv_def) (simp add: disk_page_def)
  qed simp
qed

section \<open>The pool as a page store\<close>

text \<open>
  The three ways in which the heap file and the B+-tree use the pool: read a page, change a
  page in place, and add a page, each with its pin released at the end.
\<close>

definition pool_read :: "nat \<Rightarrow> (pool, bytes) py" where
  "pool_read p =
     py_bind (fetch_page p) (\<lambda>r. py_bind (buf_get r) (\<lambda>d. py_seq (unpin_page p False) (py_return d)))"

definition pool_write :: "nat \<Rightarrow> bytes \<Rightarrow> (pool, unit) py" where
  "pool_write p d = py_bind (fetch_page p) (\<lambda>r. py_seq (buf_set r d) (unpin_page p True))"

definition pool_alloc :: "(pool, nat) py" where
  "pool_alloc = py_bind new_page (\<lambda>p. py_seq (unpin_page p True) (py_return p))"

text \<open>Between two operations no page is stale, and one frame at least can be taken.\<close>

definition pool_ready :: "pool \<Rightarrow> bool" where
  "pool_ready s \<longleftrightarrow> pool_inv s \<and> pool_stale s = {} \<and> 0 < v_avail (pool_view s)"

lemma wp_pool_read:
  assumes s: "pool_inv s" "p < pool_count s" "p \<notin> pool_stale s" "0 < v_avail (pool_view s)"
    and Q: "\<And>s'. pool_inv s' \<Longrightarrow> pool_view s' = pool_view s \<Longrightarrow> pool_stale s' = pool_stale s \<Longrightarrow>
      Q (pool_page s p) s'"
  shows "wp (pool_read p) Q E s"
  unfolding pool_read_def wp_bind wp_seq wp_return
proof (rule wp_fetch_page [OF s(1,2) disjI2 [OF s(4)]], rule wp_buf_get)
  fix s1 assume s1: "pool_inv s1" "pool_view s1 = view_pin p (pool_view s)" "pool_stale s1 = pool_stale s"
  note v = pool_view_eqD [OF s1(2)]
  show "pool_inv s1" "0 < pool_pins s1 p" using s1 v by simp_all
  show "wp (unpin_page p False) (\<lambda>_. Q (pool_page s1 p)) E s1"
    by (rule wp_unpin_page) (use s s1 v Q in \<open>auto simp: pool_view_sel\<close>)
qed

lemma wp_pool_write:
  assumes s: "pool_inv s" "p < pool_count s" "0 < v_avail (pool_view s)" and d: "length d = PAGE_SIZE"
    and Q: "\<And>s'. pool_inv s' \<Longrightarrow> pool_view s' = view_write p d (pool_view s) \<Longrightarrow>
      pool_stale s' \<subseteq> pool_stale s \<Longrightarrow> Q () s'"
  shows "wp (pool_write p d) Q E s"
  unfolding pool_write_def wp_bind wp_seq
proof (rule wp_fetch_page [OF s(1,2) disjI2 [OF s(3)]], rule wp_buf_set [OF _ _ d])
  fix s1 assume s1: "pool_inv s1" "pool_view s1 = view_pin p (pool_view s)" "pool_stale s1 = pool_stale s"
  show "pool_inv s1" "0 < pool_pins s1 p" using s1 pool_view_eqD [OF s1(2)] by simp_all
  fix s2 assume s2: "pool_inv s2" "pool_view s2 = view_write p d (pool_view s1)"
    "pool_stale s2 \<subseteq> insert p (pool_stale s1)"
  have sub: "pool_stale s2 - {p} \<subseteq> pool_stale s" using s1(3) s2(3) by blast
  show "wp (unpin_page p True) Q E s2"
  proof (rule wp_unpin_page)
    show "pool_inv s2" "0 < pool_pins s2 p"
      using s2(1) pool_view_eqD(3) [OF s2(2)] pool_view_eqD(3) [OF s1(2)] by (simp_all add: pool_view_sel)
    fix s3 assume s3: "pool_inv s3" "pool_view s3 = view_unpin p (pool_view s2)"
      "pool_stale s3 = pool_stale s2 - (if True then {p} else {})"
    show "Q () s3" by (rule Q) (use s s1 s2 s3 sub in \<open>simp_all add: view_write_pin\<close>)
  qed simp
qed

lemma wp_pool_alloc:
  assumes s: "pool_inv s" "0 < v_avail (pool_view s)"
    and Q: "\<And>s'. pool_inv s' \<Longrightarrow> pool_stale s' \<subseteq> pool_stale s \<Longrightarrow>
      pool_view s' = (pool_view s)\<lparr>v_count := pool_count s + 1,
        v_page := (pool_page s)(pool_count s := replicate PAGE_SIZE 0)\<rparr> \<Longrightarrow> Q (pool_count s) s'"
  shows "wp pool_alloc Q E s"
  unfolding pool_alloc_def wp_bind wp_seq wp_return
proof (rule wp_new_page [OF s])
  fix s1 assume s1: "pool_inv s1" "pool_view s1 = view_new (pool_view s)" "pool_stale s1 = pool_stale s"
  note v = pool_view_eqD [OF s1(2)]
  have "view_unpin (pool_count s) (view_new (pool_view s)) = (pool_view s)\<lparr>v_count := pool_count s + 1,
        v_page := (pool_page s)(pool_count s := replicate PAGE_SIZE 0)\<rparr>"
    using s pool_pins_beyond [OF s(1), of "pool_count s"]
    by (simp add: view_unpin_def view_new_def pool_view_def fun_upd_idem)
  then show "wp (unpin_page (pool_count s) True) (\<lambda>_. Q (pool_count s)) E s1"
    by (intro wp_unpin_page) (use s s1 v Q in \<open>auto simp: pool_view_sel\<close>)
qed

interpretation pool_dev: page_device pool_ready pool_count pool_page pool_read pool_write pool_alloc
proof
  fix s :: pool and p d
  show "pool_ready s \<Longrightarrow> p < pool_count s \<Longrightarrow> length (pool_page s p) = PAGE_SIZE"
    by (simp add: pool_ready_def pool_page_length)
  show "pool_ready s \<Longrightarrow> p < pool_count s \<Longrightarrow>
      wp (pool_read p) (\<lambda>d s'. d = pool_page s p \<and> pool_ready s' \<and> pool_count s' = pool_count s
        \<and> (\<forall>q < pool_count s. pool_page s' q = pool_page s q)) (\<lambda>_ _. False) s"
    by (rule wp_pool_read) (auto simp: pool_ready_def pool_view_sel dest: pool_view_eqD)
  show "pool_ready s \<Longrightarrow> p < pool_count s \<Longrightarrow> length d = PAGE_SIZE \<Longrightarrow>
      wp (pool_write p d) (\<lambda>_ s'. pool_ready s' \<and> pool_count s' = pool_count s
        \<and> (\<forall>q < pool_count s. pool_page s' q = (if q = p then d else pool_page s q)))
        (\<lambda>_ _. False) s"
    by (rule wp_pool_write) (auto simp: pool_ready_def pool_view_sel dest: pool_view_eqD)
  show "pool_ready s \<Longrightarrow>
      wp pool_alloc (\<lambda>p s'. p = pool_count s \<and> pool_ready s' \<and> pool_count s' = Suc (pool_count s)
        \<and> pool_page s' p = replicate PAGE_SIZE 0 \<and> (\<forall>q < pool_count s. pool_page s' q = pool_page s q))
        (\<lambda>_ _. False) s"
    by (rule wp_pool_alloc) (auto simp: pool_ready_def pool_view_sel dest: pool_view_eqD)
qed

section \<open>Properties\<close>

text \<open>
  C24: the cache is transparent. Any sequence of whole-page writes through the pool, with all
  the evictions and re-reads it causes, leaves at every page the last contents written there
  and at all other pages the contents they had.
\<close>

theorem pool_transparent:
  assumes "pool_ready s" and "\<forall>(p, d) \<in> set ws. p < pool_count s \<and> length d = PAGE_SIZE"
  shows "wp (py_for ws (\<lambda>(p, d). pool_write p d))
    (\<lambda>_ s'. pool_ready s' \<and> pool_count s' = pool_count s \<and>
       (\<forall>q < pool_count s. pool_page s' q = (case map_of (rev ws) q of None \<Rightarrow> pool_page s q | Some d \<Rightarrow> d)))
    (\<lambda>_ _. False) s"
  using assms by (rule pool_dev.write_all)

lemma pool_ready_init: "disk_inv d \<Longrightarrow> 0 < n \<Longrightarrow> pool_ready (pool_init d n)"
  using pool_init_inv [of d n] by (simp add: pool_ready_def)

lemma disk_open_pages: "dm_num_pages (disk_open (Some (replicate (n * PAGE_SIZE) 0))) = n"
  by (simp add: disk_open_def Let_def)

text \<open>A file of three pages behind a pool of one frame.\<close>

definition pool_of_three :: pool where
  "pool_of_three = pool_init (disk_open (Some (replicate (3 * PAGE_SIZE) 0))) 1"

lemma pool_count_init: "pool_count (pool_init d n) = dm_num_pages d"
  by (simp add: pool_init_def)

lemma pool_of_three: "pool_ready pool_of_three" "pool_count pool_of_three = 3"
  unfolding pool_of_three_def pool_count_init disk_open_pages
  by (rule pool_ready_init [OF disk_open_inv]) simp_all

theorem pool_transparent_witness:
  "wp (py_for [(0, replicate PAGE_SIZE 1), (2, replicate PAGE_SIZE 2), (0, replicate PAGE_SIZE 3)]
        (\<lambda>(p, d). pool_write p d))
    (\<lambda>_ s'. pool_page s' 0 = replicate PAGE_SIZE 3 \<and> pool_page s' 2 = replicate PAGE_SIZE 2
       \<and> pool_page s' 1 = pool_page pool_of_three 1) (\<lambda>_ _. False) pool_of_three"
  by (rule wp_mono [OF pool_transparent [of pool_of_three]]) (auto simp: pool_of_three)

text \<open>
  \<^verbatim>\<open>fetch_page\<close> of an existing page, when it is pinned or a frame can be taken, returns
  its buffer and keeps the invariant; the only change a caller can see is one more pin.
\<close>

theorem fetch_page_view:
  assumes "pool_inv s" and "p < pool_count s" and "0 < pool_pins s p \<or> 0 < v_avail (pool_view s)"
  shows "wp (fetch_page p) (\<lambda>r s'. r = p \<and> pool_inv s' \<and> pool_view s' = view_pin p (pool_view s))
    (\<lambda>_ _. False) s"
  by (rule wp_mono [OF fetch_page_spec [OF assms]]) auto

theorem fetch_page_view_witness:
  "wp (fetch_page 2) (\<lambda>r s'. r = 2 \<and> pool_inv s' \<and> pool_view s' = view_pin 2 (pool_view pool_of_three))
    (\<lambda>_ _. False) pool_of_three"
  using pool_of_three by (intro fetch_page_view) (auto simp: pool_ready_def)

text \<open>
  A pinned page stays in memory with its contents while other pages are fetched and
  created, however small the pool is; at worst those calls raise \<^verbatim>\<open>BufferPoolFullError\<close>.
\<close>

theorem pinned_page_stays:
  assumes "pool_inv s" and "0 < pool_pins s p" and "q < pool_count s"
  shows "wp (py_bind (fetch_page q) (\<lambda>_. buf_get p)) (\<lambda>d _. d = pool_page s p) (\<lambda>e _. e = BufferPoolFullError) s
    \<and> wp (py_bind new_page (\<lambda>_. buf_get p)) (\<lambda>d _. d = pool_page s p) (\<lambda>e _. e = BufferPoolFullError) s"
proof (rule conjI)
  have p: "p < pool_count s" using pool_pins_beyond [OF assms(1), of p] assms(2) by (cases "p < pool_count s") auto
  show "wp (py_bind (fetch_page q) (\<lambda>_. buf_get p)) (\<lambda>d _. d = pool_page s p) (\<lambda>e _. e = BufferPoolFullError) s"
  proof (cases "0 < pool_pins s q \<or> 0 < v_avail (pool_view s)")
    case True
    then show ?thesis unfolding wp_fun
    proof (rule wp_fetch_page [OF assms(1,3)])
      fix s' assume s': "pool_inv s'" "pool_view s' = view_pin q (pool_view s)"
      note v = pool_view_eqD [OF s'(2)]
      show "wp (buf_get p) (\<lambda>d _. d = pool_page s p) (\<lambda>e _. e = BufferPoolFullError) s'"
        using assms(2) v by (simp add: wp_buf_get_eq [OF s'(1)] pool_view_sel)
    qed
  next
    case False
    then have "frame_of s q = None"
    proof (cases "frame_of s q")
      case (Some i)
      with False pool_invD(9) [OF assms(1), of i] show ?thesis by (auto simp: pool_pins_def pool_view_def)
    qed
    then show ?thesis unfolding wp_fun
      by (rule wp_mono [OF fetch_page_full]) (use False in auto)
  qed
  show "wp (py_bind new_page (\<lambda>_. buf_get p)) (\<lambda>d _. d = pool_page s p) (\<lambda>e _. e = BufferPoolFullError) s"
  proof (cases "0 < v_avail (pool_view s)")
    case True
    then show ?thesis unfolding wp_fun
    proof (rule wp_new_page [OF assms(1)])
      fix s' assume s': "pool_inv s'" "pool_view s' = view_new (pool_view s)"
      note v = pool_view_eqD [OF s'(2)]
      show "wp (buf_get p) (\<lambda>d _. d = pool_page s p) (\<lambda>e _. e = BufferPoolFullError) s'"
        using assms(2) p v by (simp add: wp_buf_get_eq [OF s'(1)] pool_view_sel)
    qed
  next
    case False
    then show ?thesis unfolding wp_fun
      by (intro wp_mono [OF new_page_full [OF assms(1)]]) auto
  qed
qed

theorem pinned_page_stays_witness:
  "wp (fetch_page 0) (\<lambda>_ s. wp (py_bind (fetch_page 2) (\<lambda>_. buf_get 0)) (\<lambda>d _. d = pool_page s 0)
      (\<lambda>e _. e = BufferPoolFullError) s) (\<lambda>_ _. False) pool_of_three"
proof (rule wp_fetch_page)
  show "pool_inv pool_of_three" "0 < pool_count pool_of_three"
    "0 < pool_pins pool_of_three 0 \<or> 0 < v_avail (pool_view pool_of_three)"
    using pool_of_three by (simp_all add: pool_ready_def)
  fix s assume s: "pool_inv s" "pool_view s = view_pin 0 (pool_view pool_of_three)"
  note v = pool_view_eqD [OF s(2)]
  show "wp (py_bind (fetch_page 2) (\<lambda>_. buf_get 0)) (\<lambda>d _. d = pool_page s 0) (\<lambda>e _. e = BufferPoolFullError) s"
    using pinned_page_stays [OF s(1), of 0 2] v pool_of_three by (simp add: pool_view_sel)
qed

text \<open>
  After \<^verbatim>\<open>flush_all\<close> the bytes made durable hold every page: opening a disk manager and
  a pool of any size on them shows each page as it was.
\<close>

theorem flush_all_durable:
  assumes "pool_inv s" and "pool_stale s = {}"
  shows "wp flush_all (\<lambda>_ s'. pool_inv s' \<and> pool_view s' = pool_view s
      \<and> (\<forall>n. \<forall>p < pool_count s.
            pool_page (pool_init (disk_open (Some (dm_synced (bp_disk s')))) n) p = pool_page s p))
    (\<lambda>_ _. False) s"
proof (rule wp_mono [OF flush_all_spec [OF assms]], goal_cases)
  case (1 x s')
  let ?d = "disk_open (Some (dm_synced (bp_disk s')))"
  have cnt: "pool_count s' = pool_count s" using 1 by (auto simp: pool_view_def)
  have "pool_count s * PAGE_SIZE \<le> length (dm_file (bp_disk s'))"
    using pool_invD(1) [of s'] 1 cnt by (simp add: disk_inv_def)
  then have "pool_count s \<le> dm_num_pages ?d" using 1 by (simp add: disk_open_def Let_def less_eq_div_iff_mult_less_eq)
  moreover have "disk_page ?d p = disk_page (bp_disk s') p" for p
    using 1 by (simp add: disk_page_def disk_open_def Let_def)
  ultimately show ?case using 1 pool_init_inv(3) [OF disk_open_inv, THEN pool_view_eqD(2)] by auto
qed simp

theorem flush_all_durable_witness:
  "wp flush_all (\<lambda>_ s'. pool_page (pool_init (disk_open (Some (dm_synced (bp_disk s')))) 5) 2
      = pool_page pool_of_three 2) (\<lambda>_ _. False) pool_of_three"
  by (rule wp_mono [OF flush_all_durable])
    (use pool_of_three in \<open>auto simp: pool_ready_def\<close>)

text \<open>
  with no frame left to take, \<^verbatim>\<open>fetch_page\<close> of a page that is not in memory raises
  \<^verbatim>\<open>BufferPoolFullError\<close> and changes nothing; \<^verbatim>\<open>new_page\<close> raises it too, but the page it has
  allocated on disk stays behind.
\<close>

theorem pool_full_errors:
  assumes "pool_inv s" and "v_avail (pool_view s) = 0" and "frame_of s p = None"
  shows "fetch_page p s = (Inl BufferPoolFullError, s)
    \<and> (\<exists>s'. new_page s = (Inl BufferPoolFullError, s') \<and> pool_count s' = pool_count s + 1)"
  using fetch_page_full [OF assms(3,2)] new_page_full [OF assms(1,2)]
  by (auto simp: wp_def split: prod.splits sum.splits)

definition pool_of_none :: pool where
  "pool_of_none = pool_init (disk_open None) 0"

theorem pool_full_errors_witness:
  "fetch_page 7 pool_of_none = (Inl BufferPoolFullError, pool_of_none)
    \<and> (\<exists>s'. new_page pool_of_none = (Inl BufferPoolFullError, s') \<and> pool_count s' = pool_count pool_of_none + 1)"
proof (rule pool_full_errors)
  show "pool_inv pool_of_none" "v_avail (pool_view pool_of_none) = 0"
    by (simp_all add: pool_of_none_def pool_init_inv [OF disk_open_inv])
  show "frame_of pool_of_none 7 = None" by (simp add: pool_of_none_def pool_init_def)
qed

text \<open>
  \<^verbatim>\<open>fetch_page\<close> of a page beyond the end raises \<^verbatim>\<open>ValueError\<close> after it has taken a frame:
  the contents and pins stay, and the pool has one frame less from then on.
\<close>

theorem fetch_missing_page_loses_frame:
  assumes "pool_inv s" and "pool_count s \<le> p" and "0 < v_avail (pool_view s)"
  shows "\<exists>s'. fetch_page p s = (Inl ValueError, s') \<and> pool_inv s'
    \<and> pool_view s' = (pool_view s)\<lparr>v_avail := v_avail (pool_view s) - 1\<rparr>"
  using fetch_page_missing [OF assms] by (auto simp: wp_def split: prod.splits sum.splits)

theorem fetch_missing_page_witness:
  "\<exists>s'. fetch_page 3 pool_of_three = (Inl ValueError, s') \<and> pool_inv s'
    \<and> pool_view s' = (pool_view pool_of_three)\<lparr>v_avail := v_avail (pool_view pool_of_three) - 1\<rparr>"
  by (rule fetch_missing_page_loses_frame) (use pool_of_three in \<open>simp_all add: pool_ready_def\<close>)

end
