(* ===== verification/Heap_File.thy ===== *)
theory Heap_File
  imports Buffer_Pool
begin

text \<open>
  Row storage (\<^verbatim>\<open>storage/heap_file.py\<close>): a chain of slotted pages.

  The first sections translate the code: the accesses to the header and to the slots of a
  page on its bytes, then the methods of \<^verbatim>\<open>HeapFile\<close>, whose state is the two page ids of
  the object and the buffer pool it shares. Each call of the pool is the one the code makes,
  with its pin and unpin, so an exception leaves the pool as the code leaves it.

  The specification of a page is the list of its tuples (\<open>page_tuples\<close>, \<open>None\<close> at a deleted
  slot), and \<open>heap_page_ok\<close> says that the slots point to disjoint places between the free
  pointer and the end of the page. The specification of the file is a map from row
  identifiers to bytes (\<open>heap_map\<close>); the locale \<open>row_store\<close> states what each operation
  does to it and the heap file is shown to keep that contract.
\<close>

section \<open>Slotted pages\<close>

definition HEAP_HEADER_SIZE :: nat where
  "HEAP_HEADER_SIZE = 9"

definition SLOT_SIZE :: nat where
  "SLOT_SIZE = 4"

definition DELETED :: nat where
  "DELETED = 65535"

definition read_header :: "bytes \<Rightarrow> (nat \<times> nat \<times> nat \<times> nat) res" where
  "read_header data =
     res_bind (unpack_from 1 data 0) (\<lambda>page_type.
     res_bind (unpack_from 2 data 1) (\<lambda>num_slots.
     res_bind (unpack_from 2 data 3) (\<lambda>free_ptr.
     res_bind (unpack_from 4 data 5) (\<lambda>next_page.
     Inr (page_type, num_slots, free_ptr, next_page)))))"

text \<open>
  A field out of range raises. (The program has then already written the fields before it;
  no caller passes such a value, as the theorems below show.)
\<close>

definition write_header :: "bytes \<Rightarrow> nat \<Rightarrow> nat \<Rightarrow> nat \<Rightarrow> nat \<Rightarrow> bytes res" where
  "write_header data page_type num_slots free_ptr next_page =
     res_bind (pack_into 1 0 page_type data) (\<lambda>data.
     res_bind (pack_into 2 1 num_slots data) (\<lambda>data.
     res_bind (pack_into 2 3 free_ptr data) (\<lambda>data.
     pack_into 4 5 next_page data)))"

definition slot_offset :: "nat \<Rightarrow> nat" where
  "slot_offset index = HEAP_HEADER_SIZE + index * SLOT_SIZE"

definition read_slot :: "bytes \<Rightarrow> nat \<Rightarrow> (nat \<times> nat) res" where
  "read_slot data index =
     res_bind (unpack_from 2 data (slot_offset index)) (\<lambda>offset.
     res_bind (unpack_from 2 data (slot_offset index + 2)) (\<lambda>length.
     Inr (offset, length)))"

definition write_slot :: "bytes \<Rightarrow> nat \<Rightarrow> nat \<Rightarrow> nat \<Rightarrow> bytes res" where
  "write_slot data index offset len =
     res_bind (pack_into 2 (slot_offset index) offset data) (\<lambda>data.
     pack_into 2 (slot_offset index + 2) len data)"

definition init_heap_page :: "bytes \<Rightarrow> bytes res" where
  "init_heap_page data = write_header data (page_type_value PT_HEAP) 0 PAGE_SIZE INVALID_PAGE_ID"

text \<open>The loop of \<^verbatim>\<open>insert\<close> that looks for a deleted slot among the slots from \<open>i\<close> on.\<close>

fun find_deleted :: "bytes \<Rightarrow> nat \<Rightarrow> nat \<Rightarrow> nat option res" where
  "find_deleted data i 0 = Inr None"
| "find_deleted data i (Suc k) =
     res_bind (read_slot data i) (\<lambda>(_, slot_len).
       if slot_len = DELETED then Inr (Some i) else find_deleted data (Suc i) k)"

text \<open>The lines of \<^verbatim>\<open>insert\<close> that put the row into the page.\<close>

definition place_row :: "bytes \<Rightarrow> bytes \<Rightarrow> nat option \<Rightarrow> nat \<Rightarrow> nat \<Rightarrow> nat \<Rightarrow> bytes res" where
  "place_row data row_bytes reuse num_slots free_ptr next_page =
     (let new_free_ptr = free_ptr - length row_bytes;
          data = slice_assign new_free_ptr (new_free_ptr + length row_bytes) row_bytes data;
          index = (case reuse of None \<Rightarrow> num_slots | Some i \<Rightarrow> i);
          new_num_slots = (case reuse of None \<Rightarrow> num_slots + 1 | Some _ \<Rightarrow> num_slots)
      in res_bind (write_slot data index new_free_ptr (length row_bytes)) (\<lambda>data.
         write_header data (page_type_value PT_HEAP) new_num_slots new_free_ptr next_page))"

text \<open>The tuples of a page in slot order, as the inner loop of \<^verbatim>\<open>scan\<close> yields them.\<close>

fun page_rows :: "nat \<Rightarrow> bytes \<Rightarrow> nat \<Rightarrow> nat \<Rightarrow> (rid \<times> bytes) list res" where
  "page_rows page_id data i 0 = Inr []"
| "page_rows page_id data i (Suc k) =
     res_bind (read_slot data i) (\<lambda>(offset, length).
     res_bind (page_rows page_id data (Suc i) k) (\<lambda>rest.
     Inr (if length \<noteq> DELETED
          then (RID page_id i, py_slice offset (offset + length) data) # rest else rest)))"

section \<open>The heap file\<close>

record heapfile =
  hf_first :: nat
  hf_last :: nat
  hf_pool :: pool

definition on_pool :: "(pool, 'a) py \<Rightarrow> (heapfile, 'a) py" where
  "on_pool m = py_zoom hf_pool (\<lambda>b h. h\<lparr>hf_pool := b\<rparr>) m"

text \<open>Changing the buffer of a page in place by code that can raise.\<close>

definition buf_modify :: "nat \<Rightarrow> (bytes \<Rightarrow> bytes res) \<Rightarrow> (pool, unit) py" where
  "buf_modify r f = py_bind (buf_get r) (\<lambda>data. py_bind (py_lift (f data)) (buf_set r))"

text \<open>
  \<^verbatim>\<open>_find_last_page\<close>: \<open>seen\<close> is the set of the code. The loop stops at the latest when a page
  repeats; the fuel is one more than the number of pages.
\<close>

fun find_last_page_loop :: "nat \<Rightarrow> nat list \<Rightarrow> nat \<Rightarrow> (pool, nat) py" where
  "find_last_page_loop 0 seen page_id = py_raise Diverges"
| "find_last_page_loop (Suc k) seen page_id =
     py_bind (fetch_page page_id) (\<lambda>r.
     py_bind (buf_get r) (\<lambda>data.
     py_bind (py_lift (read_header data)) (\<lambda>(_, _, _, next_page).
     py_seq (unpin_page page_id False)
      (if next_page = INVALID_PAGE_ID then py_return page_id
       else if next_page \<in> set seen then py_raise ValueError
       else find_last_page_loop k (next_page # seen) next_page))))"

definition find_last_page :: "nat \<Rightarrow> (pool, nat) py" where
  "find_last_page first = py_bind (py_gets pool_count) (\<lambda>n. find_last_page_loop (n + 1) [first] first)"

text \<open>The constructor.\<close>

definition heap_open :: "nat option \<Rightarrow> (pool, nat \<times> nat) py" where
  "heap_open first_page_id =
     py_bind (case first_page_id of
         None \<Rightarrow>
           py_bind new_page (\<lambda>page_id.
           py_seq (buf_modify page_id init_heap_page)
          (py_seq (unpin_page page_id True) (py_return page_id)))
       | Some p \<Rightarrow> py_return p) (\<lambda>first.
     py_bind (find_last_page first) (\<lambda>last. py_return (first, last)))"

text \<open>
  \<^verbatim>\<open>insert\<close> calls itself once it has added a page. The fuel bounds the nested calls; two are
  enough for every row that passes the first test.
\<close>

definition heap_add_page :: "nat \<Rightarrow> nat \<Rightarrow> nat \<Rightarrow> (heapfile, unit) py" where
  "heap_add_page page_id num_slots free_ptr =
     py_bind (on_pool new_page) (\<lambda>new_page_id.
     py_seq (on_pool (buf_modify new_page_id init_heap_page))
    (py_seq (on_pool (unpin_page new_page_id True))
    (py_seq (on_pool (buf_modify page_id (\<lambda>data.
       write_header data (page_type_value PT_HEAP) num_slots free_ptr new_page_id)))
    (py_seq (on_pool (unpin_page page_id True))
            (py_modify (\<lambda>h. h\<lparr>hf_last := new_page_id\<rparr>))))))"

definition heap_insert_body :: "(heapfile, rid) py \<Rightarrow> bytes \<Rightarrow> nat \<Rightarrow> (heapfile, rid) py" where
  "heap_insert_body again row_bytes page_id =
     py_bind (on_pool (buf_get page_id)) (\<lambda>data.
     py_bind (py_lift (read_header data)) (\<lambda>(_, num_slots, free_ptr, next_page).
     py_bind (py_lift (find_deleted data 0 num_slots)) (\<lambda>reuse.
     let needed_slot_bytes = (case reuse of None \<Rightarrow> SLOT_SIZE | Some _ \<Rightarrow> 0);
         slot_dir_end = slot_offset num_slots;
         available = int free_ptr - int slot_dir_end - int needed_slot_bytes
     in if available < int (length row_bytes)
        then py_seq (heap_add_page page_id num_slots free_ptr) again
        else py_seq (on_pool (buf_modify page_id (\<lambda>data.
               place_row data row_bytes reuse num_slots free_ptr next_page)))
               (py_return (RID page_id (case reuse of None \<Rightarrow> num_slots | Some i \<Rightarrow> i))))))"

fun heap_insert_loop :: "nat \<Rightarrow> bytes \<Rightarrow> (heapfile, rid) py" where
  "heap_insert_loop 0 row_bytes = py_raise Diverges"
| "heap_insert_loop (Suc k) row_bytes =
     (if PAGE_SIZE < HEAP_HEADER_SIZE + SLOT_SIZE + length row_bytes then py_raise ValueError
      else
        py_bind (py_gets hf_last) (\<lambda>page_id.
        py_bind (on_pool (fetch_page page_id)) (\<lambda>r.
        py_finally (heap_insert_body (heap_insert_loop k row_bytes) row_bytes r)
          (on_pool (unpin_page page_id True)))))"

definition heap_insert :: "bytes \<Rightarrow> (heapfile, rid) py" where
  "heap_insert row_bytes = heap_insert_loop 2 row_bytes"

definition heap_get :: "rid \<Rightarrow> (heapfile, bytes option) py" where
  "heap_get rid =
     py_bind (on_pool (fetch_page (rid_page_id rid))) (\<lambda>r.
     py_finally
      (py_bind (on_pool (buf_get r)) (\<lambda>data.
       py_bind (py_lift (read_header data)) (\<lambda>(_, num_slots, _, _).
         if num_slots \<le> rid_slot_id rid then py_return None
         else py_bind (py_lift (read_slot data (rid_slot_id rid))) (\<lambda>(offset, length).
           if length = DELETED then py_return None
           else py_return (Some (py_slice offset (offset + length) data))))))
      (on_pool (unpin_page (rid_page_id rid) False)))"

definition heap_update_in_place :: "rid \<Rightarrow> bytes \<Rightarrow> (heapfile, bool) py" where
  "heap_update_in_place rid new_bytes =
     py_bind (on_pool (fetch_page (rid_page_id rid))) (\<lambda>r.
     py_finally
      (py_bind (on_pool (buf_get r)) (\<lambda>data.
       py_bind (py_lift (read_header data)) (\<lambda>(_, num_slots, _, _).
         if num_slots \<le> rid_slot_id rid then py_return False
         else py_bind (py_lift (read_slot data (rid_slot_id rid))) (\<lambda>(offset, len).
           if len = DELETED \<or> len \<noteq> length new_bytes then py_return False
           else py_seq (on_pool (buf_set r (slice_assign offset (offset + len) new_bytes data)))
                  (py_return True)))))
      (on_pool (unpin_page (rid_page_id rid) True)))"

definition heap_delete :: "rid \<Rightarrow> (heapfile, bool) py" where
  "heap_delete rid =
     py_bind (on_pool (fetch_page (rid_page_id rid))) (\<lambda>r.
     py_finally
      (py_bind (on_pool (buf_get r)) (\<lambda>data.
       py_bind (py_lift (read_header data)) (\<lambda>(_, num_slots, _, _).
         if num_slots \<le> rid_slot_id rid then py_return False
         else py_bind (py_lift (read_slot data (rid_slot_id rid))) (\<lambda>(_, len).
           if len = DELETED then py_return False
           else py_seq (on_pool (buf_modify r (\<lambda>data. write_slot data (rid_slot_id rid) 0 DELETED)))
                  (py_return True)))))
      (on_pool (unpin_page (rid_page_id rid) True)))"

text \<open>
  \<^verbatim>\<open>scan\<close>, run to its end. The loop has no test for a cycle; the fuel is one more than the
  number of pages, which is enough for a chain without one.
\<close>

fun heap_scan_loop :: "nat \<Rightarrow> nat \<Rightarrow> (heapfile, (rid \<times> bytes) list) py" where
  "heap_scan_loop 0 page_id = py_raise Diverges"
| "heap_scan_loop (Suc k) page_id =
     (if page_id = INVALID_PAGE_ID then py_return []
      else
        py_bind (on_pool (fetch_page page_id)) (\<lambda>r.
        py_bind (on_pool (buf_get r)) (\<lambda>data.
        py_bind (py_lift (read_header data)) (\<lambda>(_, num_slots, _, next_page).
        py_bind (py_lift (page_rows page_id data 0 num_slots)) (\<lambda>rows.
        py_seq (on_pool (unpin_page page_id False))
       (py_bind (heap_scan_loop k next_page) (\<lambda>rest. py_return (rows @ rest))))))))"

definition heap_scan :: "(heapfile, (rid \<times> bytes) list) py" where
  "heap_scan =
     py_bind (py_gets (\<lambda>h. pool_count (hf_pool h))) (\<lambda>n.
     py_bind (py_gets hf_first) (heap_scan_loop (n + 1)))"

lemma wp_on_pool [wp_rules]:
  "wp (on_pool m) Q E h = wp m (\<lambda>x b. Q x (h\<lparr>hf_pool := b\<rparr>)) (\<lambda>e b. E e (h\<lparr>hf_pool := b\<rparr>)) (hf_pool h)"
  by (simp add: on_pool_def wp_zoom)

section \<open>What a page holds\<close>

definition fld :: "nat \<Rightarrow> nat \<Rightarrow> bytes \<Rightarrow> nat" where
  "fld n off d = le_nat (py_slice off (off + n) d)"

definition page_num :: "bytes \<Rightarrow> nat" where
  "page_num d = fld 2 1 d"

definition page_free :: "bytes \<Rightarrow> nat" where
  "page_free d = fld 2 3 d"

definition page_next :: "bytes \<Rightarrow> nat" where
  "page_next d = fld 4 5 d"

definition slot_off :: "bytes \<Rightarrow> nat \<Rightarrow> nat" where
  "slot_off d i = fld 2 (slot_offset i) d"

definition slot_len :: "bytes \<Rightarrow> nat \<Rightarrow> nat" where
  "slot_len d i = fld 2 (slot_offset i + 2) d"

lemmas page_fields = page_num_def page_free_def page_next_def slot_off_def slot_len_def fld_def

definition page_tuple :: "bytes \<Rightarrow> nat \<Rightarrow> bytes option" where
  "page_tuple d i =
     (if slot_len d i = DELETED then None
      else Some (py_slice (slot_off d i) (slot_off d i + slot_len d i) d))"

definition page_tuples :: "bytes \<Rightarrow> bytes option list" where
  "page_tuples d = map (page_tuple d) [0..<page_num d]"

definition heap_page_ok :: "bytes \<Rightarrow> bool" where
  "heap_page_ok d \<longleftrightarrow>
     length d = PAGE_SIZE \<and> slot_offset (page_num d) \<le> page_free d \<and> page_free d \<le> PAGE_SIZE
     \<and> (\<forall>i < page_num d. slot_len d i \<noteq> DELETED \<longrightarrow>
          page_free d \<le> slot_off d i \<and> slot_off d i + slot_len d i \<le> PAGE_SIZE)
     \<and> (\<forall>i < page_num d. \<forall>j < page_num d. i \<noteq> j \<longrightarrow> slot_len d i \<noteq> DELETED \<longrightarrow> slot_len d j \<noteq> DELETED \<longrightarrow>
          slot_off d i + slot_len d i \<le> slot_off d j \<or> slot_off d j + slot_len d j \<le> slot_off d i)"

lemmas page_consts = PAGE_SIZE_def HEAP_HEADER_SIZE_def SLOT_SIZE_def slot_offset_def DELETED_def

lemma fld_bound: "off + n \<le> length d \<Longrightarrow> fld n off d < 256 ^ n"
  using le_nat_bound [of "py_slice off (off + n) d"] by (simp add: fld_def py_slice_def)

lemma unpack_from_fld: "off + n \<le> length d \<Longrightarrow> unpack_from n d off = Inr (fld n off d)"
  by (simp add: unpack_from_slice fld_def)

lemma read_header_eq:
  "9 \<le> length d \<Longrightarrow> read_header d = Inr (fld 1 0 d, page_num d, page_free d, page_next d)"
  by (simp add: read_header_def unpack_from_fld page_num_def page_free_def page_next_def)

lemma read_slot_eq:
  "slot_offset i + 4 \<le> length d \<Longrightarrow> read_slot d i = Inr (slot_off d i, slot_len d i)"
  by (simp add: read_slot_def unpack_from_fld slot_off_def slot_len_def)

lemma pack_into_fld:
  assumes "off + n \<le> length d" and "v < 256 ^ n"
  obtains d' where "pack_into n off v d = Inr d'" and "length d' = length d" and "fld n off d' = v"
    and "\<And>a b. b \<le> off \<or> off + n \<le> a \<Longrightarrow> py_slice a b d' = py_slice a b d"
proof -
  obtain d' where d': "pack_into n off v d = Inr d'" using assms by (simp add: pack_into_def)
  note len = length_pack_into [OF d']
  have "unpack_from n d' off = Inr v" by (rule unpack_pack_into_same [OF d'])
  then have "fld n off d' = v" using assms(1) len by (simp add: unpack_from_fld)
  with d' len show ?thesis using slice_pack_into_disjoint [OF d'] by (intro that)
qed

lemma write_header_eq:
  assumes "9 \<le> length d" and "t < 256" and "n < 65536" and "f < 65536" and "x < 2 ^ 32"
  obtains d' where "write_header d t n f x = Inr d'" and "length d' = length d"
    and "fld 1 0 d' = t" and "page_num d' = n" and "page_free d' = f" and "page_next d' = x"
    and "\<And>a b. 9 \<le> a \<Longrightarrow> py_slice a b d' = py_slice a b d"
proof -
  obtain d1 where d1: "pack_into 1 0 t d = Inr d1" "length d1 = length d" "fld 1 0 d1 = t"
    "\<And>a b. b \<le> 0 \<or> 0 + 1 \<le> a \<Longrightarrow> py_slice a b d1 = py_slice a b d"
    by (rule pack_into_fld [of 0 1 d t]) (use assms in auto)
  obtain d2 where d2: "pack_into 2 1 n d1 = Inr d2" "length d2 = length d1" "fld 2 1 d2 = n"
    "\<And>a b. b \<le> 1 \<or> 1 + 2 \<le> a \<Longrightarrow> py_slice a b d2 = py_slice a b d1"
    by (rule pack_into_fld [of 1 2 d1 n]) (use assms d1(2) in auto)
  obtain d3 where d3: "pack_into 2 3 f d2 = Inr d3" "length d3 = length d2" "fld 2 3 d3 = f"
    "\<And>a b. b \<le> 3 \<or> 3 + 2 \<le> a \<Longrightarrow> py_slice a b d3 = py_slice a b d2"
    by (rule pack_into_fld [of 3 2 d2 f]) (use assms d1(2) d2(2) in auto)
  obtain d4 where d4: "pack_into 4 5 x d3 = Inr d4" "length d4 = length d3" "fld 4 5 d4 = x"
    "\<And>a b. b \<le> 5 \<or> 5 + 4 \<le> a \<Longrightarrow> py_slice a b d4 = py_slice a b d3"
    by (rule pack_into_fld [of 5 4 d3 x]) (use assms d1(2) d2(2) d3(2) in auto)
  show ?thesis
  proof (rule that)
    show "write_header d t n f x = Inr d4" using d1 d2 d3 d4 by (simp add: write_header_def)
  qed (use d1 d2 d3 d4 in \<open>simp_all add: page_fields\<close>)
qed

lemma write_slot_eq:
  assumes "slot_offset i + 4 \<le> length d" and "off < 65536" and "len < 65536"
  obtains d' where "write_slot d i off len = Inr d'" and "length d' = length d"
    and "slot_off d' i = off" and "slot_len d' i = len"
    and "\<And>a b. b \<le> slot_offset i \<or> slot_offset i + 4 \<le> a \<Longrightarrow> py_slice a b d' = py_slice a b d"
proof -
  obtain d1 where d1: "pack_into 2 (slot_offset i) off d = Inr d1" "length d1 = length d"
    "fld 2 (slot_offset i) d1 = off"
    "\<And>a b. b \<le> slot_offset i \<or> slot_offset i + 2 \<le> a \<Longrightarrow> py_slice a b d1 = py_slice a b d"
    by (rule pack_into_fld [of "slot_offset i" 2 d off]) (use assms in auto)
  obtain d2 where d2: "pack_into 2 (slot_offset i + 2) len d1 = Inr d2" "length d2 = length d1"
    "fld 2 (slot_offset i + 2) d2 = len"
    "\<And>a b. b \<le> slot_offset i + 2 \<or> slot_offset i + 2 + 2 \<le> a \<Longrightarrow> py_slice a b d2 = py_slice a b d1"
    by (rule pack_into_fld [of "slot_offset i + 2" 2 d1 len]) (use assms d1(2) in auto)
  show ?thesis
  proof (rule that)
    show "write_slot d i off len = Inr d2" using d1 d2 by (simp add: write_slot_def)
    show "py_slice a b d2 = py_slice a b d" if "b \<le> slot_offset i \<or> slot_offset i + 4 \<le> a" for a b
      using that d1(4) [of b a] d2(4) [of b a] by auto
  qed (use d1 d2 in \<open>simp_all add: page_fields\<close>)
qed

lemma heap_page_okD:
  assumes "heap_page_ok d"
  shows "length d = PAGE_SIZE" and "slot_offset (page_num d) \<le> page_free d"
    and "page_free d \<le> PAGE_SIZE" and "slot_offset (page_num d) \<le> PAGE_SIZE"
    and "i < page_num d \<Longrightarrow> slot_offset i + 4 \<le> page_free d"
    and "i < page_num d \<Longrightarrow> slot_len d i \<noteq> DELETED \<Longrightarrow> page_free d \<le> slot_off d i"
    and "i < page_num d \<Longrightarrow> slot_len d i \<noteq> DELETED \<Longrightarrow> slot_off d i + slot_len d i \<le> PAGE_SIZE"
    and "i < page_num d \<Longrightarrow> j < page_num d \<Longrightarrow> i \<noteq> j \<Longrightarrow> slot_len d i \<noteq> DELETED \<Longrightarrow> slot_len d j \<noteq> DELETED \<Longrightarrow>
      slot_off d i + slot_len d i \<le> slot_off d j \<or> slot_off d j + slot_len d j \<le> slot_off d i"
  using assms by (auto simp: heap_page_ok_def slot_offset_def SLOT_SIZE_def)

lemma read_heap_page:
  assumes "heap_page_ok d"
  shows "read_header d = Inr (fld 1 0 d, page_num d, page_free d, page_next d)"
    and "i < page_num d \<Longrightarrow> read_slot d i = Inr (slot_off d i, slot_len d i)"
    and "page_next d < 2 ^ 32"
  using heap_page_okD(1,3) [OF assms] heap_page_okD(5) [OF assms, of i] fld_bound [of 5 4 d]
  by (simp_all add: read_header_eq read_slot_eq PAGE_SIZE_def page_next_def)

lemma length_page_tuples [simp]: "length (page_tuples d) = page_num d"
  by (simp add: page_tuples_def)

lemma page_tuples_nth: "i < page_num d \<Longrightarrow> page_tuples d ! i = page_tuple d i"
  by (simp add: page_tuples_def)

text \<open>The slot that the search of \<^verbatim>\<open>insert\<close> finds is the first deleted one.\<close>

lemma find_deleted_eq:
  assumes "heap_page_ok d" and "i + k = page_num d"
  shows "find_deleted d i k = Inr (find (\<lambda>j. page_tuple d j = None) [i..<page_num d])"
  using assms(2)
proof (induction k arbitrary: i)
  case 0
  then show ?case by simp
next
  case (Suc k)
  then have "i < page_num d" by simp
  with Suc read_heap_page(2) [OF assms(1)] show ?case
    by (simp add: upt_conv_Cons page_tuple_def)
qed

lemma page_rows_eq:
  assumes "heap_page_ok d" and "i + k = page_num d"
  shows "page_rows p d i k = Inr (concat (map (\<lambda>j. case page_tuple d j of None \<Rightarrow> [] | Some b \<Rightarrow> [(RID p j, b)])
    [i..<page_num d]))"
  using assms(2)
proof (induction k arbitrary: i)
  case 0
  then show ?case by simp
next
  case (Suc k)
  then have "i < page_num d" by simp
  with Suc read_heap_page(2) [OF assms(1)] show ?case
    by (simp add: upt_conv_Cons page_tuple_def)
qed

lemma slot_disjoint: "i \<noteq> j \<Longrightarrow> slot_offset i + 4 \<le> slot_offset j \<or> slot_offset j + 4 \<le> slot_offset i"
  by (auto simp: slot_offset_def SLOT_SIZE_def)

lemma slot_offset_ge: "9 \<le> slot_offset i"
  by (simp add: slot_offset_def HEAP_HEADER_SIZE_def)

text \<open>
  A page whose header and slots are given, and whose other slots and their bytes are those
  of \<open>d\<close>, keeps the invariant.
\<close>

lemma init_heap_page_ok:
  assumes "length d = PAGE_SIZE"
  obtains d' where "init_heap_page d = Inr d'" and "heap_page_ok d'" and "page_tuples d' = []"
    and "page_next d' = INVALID_PAGE_ID" and "page_free d' = PAGE_SIZE"
proof -
  obtain d' where d': "init_heap_page d = Inr d'" "length d' = length d" "page_num d' = 0"
    "page_free d' = PAGE_SIZE" "page_next d' = INVALID_PAGE_ID"
    unfolding init_heap_page_def
    by (rule write_header_eq [of d "page_type_value PT_HEAP" 0 PAGE_SIZE INVALID_PAGE_ID])
      (use assms in \<open>auto simp: PAGE_SIZE_def INVALID_PAGE_ID_def\<close>)
  then have "heap_page_ok d'" using assms by (simp add: heap_page_ok_def page_consts)
  with d' show ?thesis by (intro that) (simp_all add: page_tuples_def)
qed

text \<open>Writing the header again with another successor: the tuples stay.\<close>

lemma relink_ok:
  assumes ok: "heap_page_ok d" and x: "x < 2 ^ 32"
  obtains d' where "write_header d (page_type_value PT_HEAP) (page_num d) (page_free d) x = Inr d'"
    and "heap_page_ok d'" and "page_tuples d' = page_tuples d" and "page_next d' = x"
proof -
  note D = heap_page_okD [OF ok]
  obtain d' where d': "write_header d (page_type_value PT_HEAP) (page_num d) (page_free d) x = Inr d'"
    "length d' = length d" "page_num d' = page_num d" "page_free d' = page_free d" "page_next d' = x"
    "\<And>a b. 9 \<le> a \<Longrightarrow> py_slice a b d' = py_slice a b d"
    by (rule write_header_eq [of d "page_type_value PT_HEAP" "page_num d" "page_free d" x])
      (use D(1,3) x fld_bound [of 1 2 d] in \<open>auto simp: PAGE_SIZE_def page_num_def\<close>)
  have slot: "slot_off d' i = slot_off d i" "slot_len d' i = slot_len d i" for i
    using d'(6) [of "slot_offset i"] d'(6) [of "slot_offset i + 2"] slot_offset_ge [of i]
    by (simp_all add: page_fields)
  have "page_tuple d' i = page_tuple d i" if "i < page_num d" for i
  proof -
    have "9 \<le> slot_off d i" if "slot_len d i \<noteq> DELETED"
      using D(2) D(6) [OF \<open>i < page_num d\<close> that] slot_offset_ge [of "page_num d"] by simp
    then show ?thesis using d'(6) by (simp add: page_tuple_def slot)
  qed
  then have "page_tuples d' = page_tuples d" by (simp add: page_tuples_def d')
  moreover have "heap_page_ok d'" using ok by (simp add: heap_page_ok_def d' slot)
  ultimately show ?thesis using d' that by blast
qed

lemma delete_slot_ok:
  assumes ok: "heap_page_ok d" and i: "i < page_num d"
  obtains d' where "write_slot d i 0 DELETED = Inr d'" and "heap_page_ok d'"
    and "page_tuples d' = (page_tuples d)[i := None]" and "page_next d' = page_next d"
proof -
  note D = heap_page_okD [OF ok]
  obtain d' where d': "write_slot d i 0 DELETED = Inr d'" "length d' = length d"
    "slot_off d' i = 0" "slot_len d' i = DELETED"
    "\<And>a b. b \<le> slot_offset i \<or> slot_offset i + 4 \<le> a \<Longrightarrow> py_slice a b d' = py_slice a b d"
    by (rule write_slot_eq [of i d 0 DELETED]) (use D(1,3) D(5) [OF i] in \<open>auto simp: DELETED_def\<close>)
  have hdr: "page_num d' = page_num d" "page_free d' = page_free d" "page_next d' = page_next d"
    using d'(5) slot_offset_ge [of i] by (simp_all add: page_fields)
  have slot: "slot_off d' j = slot_off d j" "slot_len d' j = slot_len d j" if "j \<noteq> i" for j
    using d'(5) [of "slot_offset j + 2" "slot_offset j"] d'(5) [of "slot_offset j + 2 + 2" "slot_offset j + 2"]
      slot_disjoint [OF that] by (auto simp: page_fields)
  have tup: "page_tuple d' j = (if j = i then None else page_tuple d j)" if "j < page_num d" for j
  proof (cases "j = i \<or> slot_len d j = DELETED")
    case True
    then show ?thesis using d' slot [of j] by (auto simp: page_tuple_def)
  next
    case False
    then have "slot_offset i + 4 \<le> slot_off d j" using D(6) [OF that] D(5) [OF i] by simp
    with False show ?thesis using slot [of j] d'(5) by (simp add: page_tuple_def)
  qed
  have "page_tuples d' = (page_tuples d)[i := None]"
    by (rule nth_equalityI) (auto simp: hdr page_tuples_nth tup nth_list_update)
  moreover have "heap_page_ok d'"
    unfolding heap_page_ok_def hdr d'(2)
    using D(1,2,3) D(6,7,8) slot d'(4) by metis
  ultimately show ?thesis using d' hdr that by blast
qed

lemma overwrite_tuple_ok:
  assumes ok: "heap_page_ok d" and i: "i < page_num d" and live: "slot_len d i \<noteq> DELETED"
    and len: "length b = slot_len d i"
    and d': "d' = slice_assign (slot_off d i) (slot_off d i + slot_len d i) b d"
  shows "length d' = PAGE_SIZE" and "heap_page_ok d'" and "page_tuples d' = (page_tuples d)[i := Some b]"
    and "page_next d' = page_next d"
proof -
  note D = heap_page_okD [OF ok]
  have bnd: "slot_off d i + length b \<le> length d" using D(1) D(7) [OF i live] len by simp
  have d'': "d' = slice_assign (slot_off d i) (slot_off d i + length b) b d" using d' len by simp
  have dis: "py_slice a e d' = py_slice a e d" if "e \<le> slot_off d i \<or> slot_off d i + length b \<le> a" for a e
    using that slice_slice_assign_before [OF _ bnd] slice_slice_assign_after [OF _ bnd] d'' by auto
  have low: "slot_offset (page_num d) \<le> slot_off d i" using D(2) D(6) [OF i live] by simp
  have hdr: "page_num d' = page_num d" "page_free d' = page_free d" "page_next d' = page_next d"
    using low slot_offset_ge [of "page_num d"] by (simp_all add: page_fields dis)
  have slot: "slot_off d' j = slot_off d j" "slot_len d' j = slot_len d j" if "j < page_num d" for j
    using low that by (simp_all add: page_fields dis slot_offset_def SLOT_SIZE_def)
  show len': "length d' = PAGE_SIZE" using length_slice_assign [OF bnd] D(1) d'' by simp
  show "heap_page_ok d'"
    unfolding heap_page_ok_def hdr len' using D slot by (simp cong: conj_cong imp_cong)
  have tup: "page_tuple d' j = (if j = i then Some b else page_tuple d j)" if "j < page_num d" for j
  proof (cases "j = i")
    case True
    then show ?thesis
      using slot [OF i] live slice_slice_assign_same [OF bnd] d'' len by (simp add: page_tuple_def)
  next
    case False
    then show ?thesis using slot [OF that] D(8) [OF that i False _ live] len
      by (auto simp: page_tuple_def intro!: dis)
  qed
  show "page_tuples d' = (page_tuples d)[i := Some b]"
    by (rule nth_equalityI) (auto simp: hdr page_tuples_nth tup nth_list_update)
  show "page_next d' = page_next d" by (rule hdr)
qed

text \<open>Putting a row into a page with enough room, at a deleted slot or at a new one.\<close>

lemma place_row_ok:
  assumes ok: "heap_page_ok d"
    and reuse: "\<And>i. reuse = Some i \<Longrightarrow> i < page_num d \<and> page_tuple d i = None"
    and room: "slot_offset (case reuse of None \<Rightarrow> page_num d + 1 | Some _ \<Rightarrow> page_num d) + length row \<le> page_free d"
  obtains d' where "place_row d row reuse (page_num d) (page_free d) (page_next d) = Inr d'"
    and "heap_page_ok d'" and "page_next d' = page_next d"
    and "page_tuples d' = (case reuse of None \<Rightarrow> page_tuples d @ [Some row] | Some i \<Rightarrow> (page_tuples d)[i := Some row])"
proof -
  note D = heap_page_okD [OF ok]
  define k where "k = (case reuse of None \<Rightarrow> page_num d | Some i \<Rightarrow> i)"
  define n where "n = (case reuse of None \<Rightarrow> page_num d + 1 | Some _ \<Rightarrow> page_num d)"
  define nf where "nf = page_free d - length row"
  have nf: "nf + length row = page_free d" "slot_offset n \<le> nf" and k: "k < n"
    and jn: "j < n \<longleftrightarrow> j < page_num d \<or> j = k" for j
    using room reuse by (auto simp: nf_def n_def k_def split: option.splits)
  have k4: "slot_offset k + 4 \<le> slot_offset n" using k by (auto simp: slot_offset_def SLOT_SIZE_def)
  define d1 where "d1 = slice_assign nf (nf + length row) row d"
  have bnd: "nf + length row \<le> length d" using nf D(1,3) by simp
  have d1: "length d1 = PAGE_SIZE" "py_slice nf (nf + length row) d1 = row"
    using length_slice_assign [OF bnd] slice_slice_assign_same [OF bnd] D(1) by (simp_all add: d1_def)
  have dis1: "py_slice a e d1 = py_slice a e d" if "e \<le> nf \<or> page_free d \<le> a" for a e
    using that slice_slice_assign_before [OF _ bnd] slice_slice_assign_after [OF _ bnd] nf by (auto simp: d1_def)
  have small: "page_free d < 65536" "length row < DELETED" "n < 65536"
    using D(1,3) nf k4 slot_offset_ge [of k] by (auto simp: page_consts)
  obtain d2 where d2: "write_slot d1 k nf (length row) = Inr d2" "length d2 = length d1"
    "slot_off d2 k = nf" "slot_len d2 k = length row"
    "\<And>a e. e \<le> slot_offset k \<or> slot_offset k + 4 \<le> a \<Longrightarrow> py_slice a e d2 = py_slice a e d1"
    by (rule write_slot_eq [of k d1 nf "length row"]) (use d1 k4 nf D(1,3) small in \<open>auto simp: DELETED_def\<close>)
  obtain d3 where d3: "write_header d2 (page_type_value PT_HEAP) n nf (page_next d) = Inr d3"
    "length d3 = length d2" "page_num d3 = n" "page_free d3 = nf" "page_next d3 = page_next d"
    "\<And>a e. 9 \<le> a \<Longrightarrow> py_slice a e d3 = py_slice a e d2"
    by (rule write_header_eq [of d2 "page_type_value PT_HEAP" n nf "page_next d"])
      (use d1 d2(2) small nf read_heap_page(3) [OF ok] in \<open>auto simp: PAGE_SIZE_def\<close>)
  have slot_k: "slot_off d3 k = nf" "slot_len d3 k = length row"
    using d3(6) slot_offset_ge [of k] d2(3,4) by (simp_all add: page_fields)
  have slot: "slot_off d3 j = slot_off d j" "slot_len d3 j = slot_len d j" if "j < page_num d" "j \<noteq> k" for j
  proof -
    have "slot_offset j + 4 \<le> slot_offset n" using that jn [of j] by (auto simp: slot_offset_def SLOT_SIZE_def)
    with nf(2) have "slot_offset j + 4 \<le> nf" by simp
    then have "py_slice a e d3 = py_slice a e d" if "slot_offset j \<le> a" "e \<le> slot_offset j + 4" for a e
      using that slot_disjoint [OF \<open>j \<noteq> k\<close>] slot_offset_ge [of j]
      by (subst d3(6), simp, subst d2(5), force, intro dis1) simp
    then show "slot_off d3 j = slot_off d j" "slot_len d3 j = slot_len d j" by (simp_all add: page_fields)
  qed
  have k9: "9 \<le> nf" "slot_offset k + 4 \<le> nf" using nf(2) k4 slot_offset_ge [of n] by simp_all
  have tup: "page_tuple d3 j = (if j = k then Some row else page_tuple d j)" if "j < n" for j
  proof (cases "j = k")
    case True
    then show ?thesis using slot_k small k9 d3(6) d2(5) d1(2) by (simp add: page_tuple_def)
  next
    case False
    then have j: "j < page_num d" using that jn by simp
    have "py_slice (slot_off d j) e d3 = py_slice (slot_off d j) e d" if "slot_len d j \<noteq> DELETED" for e
      using D(6) [OF j that] nf k9 d3(6) d2(5) dis1 by simp
    then show ?thesis using False slot [OF j False] by (simp add: page_tuple_def)
  qed
  have "heap_page_ok d3"
    unfolding heap_page_ok_def d3(3,4)
  proof (intro conjI allI impI)
    show "length d3 = PAGE_SIZE" "slot_offset n \<le> nf" "nf \<le> PAGE_SIZE"
      using d1 d2(2) d3(2) nf D(3) by simp_all
    fix i assume i: "i < n" "slot_len d3 i \<noteq> DELETED"
    show "nf \<le> slot_off d3 i" "slot_off d3 i + slot_len d3 i \<le> PAGE_SIZE"
      using i jn [of i] slot [of i] slot_k nf D(3) D(6,7) [of i] by (cases "i = k"; simp)+
    fix j assume j: "j < n" "i \<noteq> j" "slot_len d3 j \<noteq> DELETED"
    show "slot_off d3 i + slot_len d3 i \<le> slot_off d3 j \<or> slot_off d3 j + slot_len d3 j \<le> slot_off d3 i"
      using i j jn [of i] jn [of j] slot [of i] slot [of j] slot_k nf D(6) [of i] D(6) [of j] D(8) [of i j]
      by (cases "i = k"; cases "j = k") simp_all
  qed
  moreover have "page_tuples d3 = (case reuse of None \<Rightarrow> page_tuples d @ [Some row] | Some i \<Rightarrow> (page_tuples d)[i := Some row])"
    using tup by (intro nth_equalityI) (auto simp: d3(3) page_tuples_nth nth_append nth_list_update n_def k_def
        less_Suc_eq split: option.splits)
  moreover have "place_row d row reuse (page_num d) (page_free d) (page_next d) = Inr d3"
    using d2(1) d3(1) by (simp add: place_row_def Let_def nf_def n_def k_def d1_def cong: option.case_cong)
  ultimately show ?thesis using d3(5) that by blast
qed

section \<open>The operations on one page\<close>

lemma wp_buf_modify:
  assumes "pool_inv s" and "0 < pool_pins s p" and "f (pool_page s p) = Inr d" and "length d = PAGE_SIZE"
    and "\<And>s'. pool_inv s' \<Longrightarrow> pool_view s' = view_write p d (pool_view s) \<Longrightarrow>
      pool_stale s' \<subseteq> insert p (pool_stale s) \<Longrightarrow> Q () s'"
  shows "wp (buf_modify p f) Q E s"
  using assms by (simp add: buf_modify_def wp_bind wp_buf_get_eq wp_lift wp_buf_set)

definition heap_idle :: "heapfile \<Rightarrow> bool" where
  "heap_idle h \<longleftrightarrow> pool_inv (hf_pool h) \<and> pool_stale (hf_pool h) = {} \<and> 0 < v_avail (pool_view (hf_pool h))"

abbreviation heap_page :: "heapfile \<Rightarrow> nat \<Rightarrow> bytes" where
  "heap_page h \<equiv> pool_page (hf_pool h)"

text \<open>
  The operation returned \<open>x\<close> and left the page \<open>p\<close> with contents \<open>d\<close>, where \<open>R x d\<close>; nothing
  else changed that a caller can see. \<open>page_mid\<close> is the same inside the operation, while the
  page is pinned.
\<close>

definition page_effect :: "heapfile \<Rightarrow> nat \<Rightarrow> ('a \<Rightarrow> bytes \<Rightarrow> bool) \<Rightarrow> 'a \<Rightarrow> heapfile \<Rightarrow> bool" where
  "page_effect h p R x h' \<longleftrightarrow> (\<exists>b d. R x d \<and> h' = h\<lparr>hf_pool := b\<rparr> \<and> heap_idle h'
     \<and> pool_view b = view_write p d (pool_view (hf_pool h)))"

definition page_mid :: "heapfile \<Rightarrow> nat \<Rightarrow> bool \<Rightarrow> ('a \<Rightarrow> bytes \<Rightarrow> bool) \<Rightarrow> 'a \<Rightarrow> heapfile \<Rightarrow> bool" where
  "page_mid h p dirty R x h' \<longleftrightarrow> (\<exists>b d. R x d \<and> h' = h\<lparr>hf_pool := b\<rparr> \<and> pool_inv b
     \<and> pool_stale b \<subseteq> (if dirty then {p} else {})
     \<and> pool_view b = view_write p d (view_pin p (pool_view (hf_pool h))))"

lemma heap_idleD:
  assumes "heap_idle h"
  shows "pool_inv (hf_pool h)" and "0 < v_avail (pool_view (hf_pool h))" and "pool_stale (hf_pool h) = {}"
  using assms by (simp_all add: heap_idle_def)

lemma wp_release:
  assumes mid: "page_mid h p dirty R x h'" and avail: "0 < v_avail (pool_view (hf_pool h))"
  shows "wp (on_pool (unpin_page p dirty)) (\<lambda>_. page_effect h p R x) E h'"
proof -
  from mid obtain b d where b: "R x d" "h' = h\<lparr>hf_pool := b\<rparr>" "pool_inv b"
    "pool_stale b \<subseteq> (if dirty then {p} else {})"
    "pool_view b = view_write p d (view_pin p (pool_view (hf_pool h)))"
    unfolding page_mid_def by blast
  have "wp (unpin_page p dirty) (\<lambda>_ b. page_effect h p R x (h'\<lparr>hf_pool := b\<rparr>)) (\<lambda>e b. E e (h'\<lparr>hf_pool := b\<rparr>)) b"
  proof (rule wp_unpin_page [OF b(3)])
    show "0 < pool_pins b p" using pool_view_eqD(3) [OF b(5)] by simp
    show "dirty \<or> p \<notin> pool_stale b \<or> 1 < pool_pins b p" using b(4) by (auto split: if_splits)
    fix b' assume b': "pool_inv b'" "pool_view b' = view_unpin p (pool_view b)"
      "pool_stale b' = pool_stale b - (if dirty then {p} else {})"
    have "pool_view b' = view_write p d (pool_view (hf_pool h))"
      using b'(2) b(5) avail by (simp add: view_write_pin)
    moreover have "pool_stale b' = {}" using b'(3) b(4) by (auto split: if_splits)
    ultimately show "page_effect h p R x (h'\<lparr>hf_pool := b'\<rparr>)"
      using b(1,2) b'(1) avail unfolding page_effect_def
      by (intro exI [of _ b'] exI [of _ d]) (simp add: heap_idle_def)
  qed
  then show ?thesis by (simp add: wp_on_pool b(2))
qed

lemma wp_with_page:
  assumes idle: "heap_idle h" and p: "p < pool_count (hf_pool h)"
    and body: "\<And>b. pool_inv b \<Longrightarrow> pool_view b = view_pin p (pool_view (hf_pool h)) \<Longrightarrow> pool_stale b = {} \<Longrightarrow>
      wp (body p) (page_mid h p dirty R) (\<lambda>_ _. False) (h\<lparr>hf_pool := b\<rparr>)"
  shows "wp (py_bind (on_pool (fetch_page p)) (\<lambda>r. py_finally (body r) (on_pool (unpin_page p dirty))))
    (page_effect h p R) (\<lambda>_ _. False) h"
  unfolding wp_bind wp_on_pool
proof (rule wp_fetch_page [OF heap_idleD(1) [OF idle] p disjI2 [OF heap_idleD(2) [OF idle]]])
  fix b assume "pool_inv b" "pool_view b = view_pin p (pool_view (hf_pool h))"
    "pool_stale b = pool_stale (hf_pool h)"
  then have "wp (body p) (page_mid h p dirty R) (\<lambda>_ _. False) (h\<lparr>hf_pool := b\<rparr>)"
    using body heap_idleD(3) [OF idle] by simp
  then show "wp (py_finally (body p) (on_pool (unpin_page p dirty))) (page_effect h p R) (\<lambda>_ _. False) (h\<lparr>hf_pool := b\<rparr>)"
    unfolding wp_finally by (rule wp_mono) (auto intro: wp_release heap_idleD(2) [OF idle])
qed

text \<open>Inside the operation: what the code reads from the page, and what it leaves there.\<close>

lemma pinned_page:
  assumes "pool_inv b" and "pool_view b = view_pin p (pool_view (hf_pool h))" and "pool_stale b = {}"
  shows "wp (buf_get p) Q E b = Q (heap_page h p) b"
    and "R x (heap_page h p) \<Longrightarrow> page_mid h p dirty R x (h\<lparr>hf_pool := b\<rparr>)"
proof -
  note v = pool_view_eqD [OF assms(2)]
  show "wp (buf_get p) Q E b = Q (heap_page h p) b"
    using v wp_buf_get_eq [OF assms(1), of p Q E] by (simp add: pool_view_sel)
  show "page_mid h p dirty R x (h\<lparr>hf_pool := b\<rparr>)" if "R x (heap_page h p)"
    unfolding page_mid_def using that assms
    by (intro exI [of _ b] exI [of _ "heap_page h p"]) (simp add: view_write_def view_pin_def pool_view_sel)
qed

lemma pinned_write:
  assumes b: "pool_inv b" "pool_view b = view_pin p (pool_view (hf_pool h))" "pool_stale b = {}"
    and d: "length d = PAGE_SIZE" "R x d"
  shows "wp (buf_set p d) (\<lambda>_ b. page_mid h p True R x (h\<lparr>hf_pool := b\<rparr>)) E b"
proof (rule wp_buf_set [OF b(1) _ d(1)])
  show "0 < pool_pins b p" using pool_view_eqD(3) [OF b(2)] by simp
  fix b' assume "pool_inv b'" "pool_view b' = view_write p d (pool_view b)" "pool_stale b' \<subseteq> insert p (pool_stale b)"
  then show "page_mid h p True R x (h\<lparr>hf_pool := b'\<rparr>)"
    unfolding page_mid_def using b d by (intro exI [of _ b'] exI [of _ d]) simp
qed

definition tuple_at :: "bytes \<Rightarrow> nat \<Rightarrow> bytes option" where
  "tuple_at d i = (if i < page_num d then page_tuple d i else None)"

lemma tuple_at_Some_iff: "tuple_at d i = Some t \<longleftrightarrow> i < page_num d \<and> slot_len d i \<noteq> DELETED
    \<and> t = py_slice (slot_off d i) (slot_off d i + slot_len d i) d"
  by (auto simp: tuple_at_def page_tuple_def)

lemma heap_get_spec:
  assumes idle: "heap_idle h" and p: "p < pool_count (hf_pool h)" and ok: "heap_page_ok (heap_page h p)"
  shows "wp (heap_get (RID p i))
    (page_effect h p (\<lambda>x d. x = tuple_at (heap_page h p) i \<and> d = heap_page h p)) (\<lambda>_ _. False) h"
  unfolding heap_get_def rid.sel
  by (rule wp_with_page [OF idle p])
    (use read_heap_page(2) [OF ok, of i] in
      \<open>auto simp: wp_rules pinned_page read_heap_page(1) [OF ok] tuple_at_def page_tuple_def\<close>)

text \<open>A change in place needs a tuple of the same length; otherwise the page stays as it is.\<close>

lemma heap_update_exact:
  assumes idle: "heap_idle h" and p: "p < pool_count (hf_pool h)" and ok: "heap_page_ok (heap_page h p)"
  shows "wp (heap_update_in_place (RID p i) new)
    (page_effect h p (\<lambda>x d. heap_page_ok d \<and> page_next d = page_next (heap_page h p)
      \<and> (case tuple_at (heap_page h p) i of
           Some old \<Rightarrow> if length old = length new
             then x \<and> page_tuples d = (page_tuples (heap_page h p))[i := Some new]
               \<and> d = slice_assign (slot_off (heap_page h p) i) (slot_off (heap_page h p) i + slot_len (heap_page h p) i) new (heap_page h p)
             else \<not> x \<and> d = heap_page h p
         | None \<Rightarrow> \<not> x \<and> d = heap_page h p))) (\<lambda>_ _. False) h"
  unfolding heap_update_in_place_def rid.sel
proof (rule wp_with_page [OF idle p], goal_cases)
  case (1 b)
  let ?d = "heap_page h p"
  show ?case
  proof (cases "tuple_at ?d i")
    case None
    then show ?thesis using read_heap_page(2) [OF ok, of i] ok
      by (auto simp: wp_rules pinned_page [OF 1] read_heap_page(1) [OF ok] tuple_at_def page_tuple_def)
  next
    case (Some old)
    then have i: "i < page_num ?d" "slot_len ?d i \<noteq> DELETED" by (simp_all add: tuple_at_Some_iff)
    have len: "length old = slot_len ?d i"
      using Some heap_page_okD(1) [OF ok] heap_page_okD(7) [OF ok i]
      by (simp add: tuple_at_Some_iff py_slice_def)
    show ?thesis
    proof (cases "length new = slot_len ?d i")
      case False
      then show ?thesis using Some len read_heap_page(2) [OF ok i(1)] i ok
        by (auto simp: wp_rules pinned_page [OF 1] read_heap_page(1) [OF ok])
    next
      case True
      note O = overwrite_tuple_ok [OF ok i True refl]
      show ?thesis using Some len True i O
        by (simp add: wp_rules pinned_page [OF 1] read_heap_page [OF ok] pinned_write [OF 1])
    qed
  qed
qed

lemma heap_update_spec:
  assumes idle: "heap_idle h" and p: "p < pool_count (hf_pool h)" and ok: "heap_page_ok (heap_page h p)"
  shows "wp (heap_update_in_place (RID p i) new)
    (page_effect h p (\<lambda>x d. heap_page_ok d \<and> page_next d = page_next (heap_page h p)
      \<and> (case tuple_at (heap_page h p) i of
           Some old \<Rightarrow> if length old = length new
             then x \<and> page_tuples d = (page_tuples (heap_page h p))[i := Some new]
             else \<not> x \<and> d = heap_page h p
         | None \<Rightarrow> \<not> x \<and> d = heap_page h p))) (\<lambda>_ _. False) h"
  by (rule wp_mono [OF heap_update_exact [OF assms]]) (fastforce simp: page_effect_def split: option.splits if_splits)+

lemma heap_delete_spec:
  assumes idle: "heap_idle h" and p: "p < pool_count (hf_pool h)" and ok: "heap_page_ok (heap_page h p)"
  shows "wp (heap_delete (RID p i))
    (page_effect h p (\<lambda>x d. heap_page_ok d \<and> page_next d = page_next (heap_page h p)
      \<and> (if tuple_at (heap_page h p) i = None then \<not> x \<and> d = heap_page h p
         else x \<and> page_tuples d = (page_tuples (heap_page h p))[i := None]))) (\<lambda>_ _. False) h"
  unfolding heap_delete_def rid.sel
proof (rule wp_with_page [OF idle p], goal_cases)
  case (1 b)
  let ?d = "heap_page h p"
  show ?case
  proof (cases "tuple_at ?d i")
    case None
    then show ?thesis using read_heap_page(2) [OF ok, of i] ok
      by (auto simp: wp_rules pinned_page [OF 1] read_heap_page(1) [OF ok] tuple_at_def page_tuple_def)
  next
    case (Some old)
    then have i: "i < page_num ?d" "slot_len ?d i \<noteq> DELETED" by (simp_all add: tuple_at_Some_iff)
    obtain d' where d': "write_slot ?d i 0 DELETED = Inr d'" "heap_page_ok d'"
      "page_tuples d' = (page_tuples ?d)[i := None]" "page_next d' = page_next ?d"
      by (rule delete_slot_ok [OF ok i(1)])
    show ?thesis using Some i d' heap_page_okD(1) [OF d'(2)]
      by (simp add: wp_rules pinned_page [OF 1] read_heap_page [OF ok] pinned_write [OF 1] buf_modify_def)
  qed
qed

section \<open>Insertion\<close>

definition reuse_slot :: "bytes \<Rightarrow> nat option" where
  "reuse_slot d = find (\<lambda>j. page_tuple d j = None) [0..<page_num d]"

definition insert_slot :: "bytes \<Rightarrow> nat" where
  "insert_slot d = (case reuse_slot d of None \<Rightarrow> page_num d | Some i \<Rightarrow> i)"

definition has_room :: "bytes \<Rightarrow> bytes \<Rightarrow> bool" where
  "has_room d row \<longleftrightarrow>
     slot_offset (case reuse_slot d of None \<Rightarrow> page_num d + 1 | Some _ \<Rightarrow> page_num d) + length row \<le> page_free d"

lemma reuse_slotD: "reuse_slot d = Some i \<Longrightarrow> i < page_num d \<and> page_tuple d i = None"
  by (auto simp: reuse_slot_def find_Some_iff)

lemma tuple_at_insert_slot: "tuple_at d (insert_slot d) = None"
  using reuse_slotD by (auto simp: tuple_at_def insert_slot_def split: option.splits)

lemma tuple_at_tuples: "tuple_at d i = (if i < length (page_tuples d) then page_tuples d ! i else None)"
  by (simp add: tuple_at_def page_tuples_nth)

lemma tuple_at_update:
  "page_tuples d' = (page_tuples d)[i := t] \<Longrightarrow> i < page_num d \<Longrightarrow> tuple_at d' = (tuple_at d)(i := t)"
  by (auto simp: tuple_at_tuples fun_eq_iff nth_list_update)

lemma has_room_available:
  "has_room d row \<longleftrightarrow> \<not> int (page_free d) - int (slot_offset (page_num d))
      - int (case reuse_slot d of None \<Rightarrow> SLOT_SIZE | Some _ \<Rightarrow> 0) < int (length row)"
  by (auto simp: has_room_def slot_offset_def SLOT_SIZE_def HEAP_HEADER_SIZE_def split: option.splits)

lemma place_insert:
  assumes ok: "heap_page_ok d" and room: "has_room d row"
  obtains d' where "place_row d row (reuse_slot d) (page_num d) (page_free d) (page_next d) = Inr d'"
    and "heap_page_ok d'" and "page_next d' = page_next d"
    and "tuple_at d' = (tuple_at d)(insert_slot d := Some row)"
proof -
  obtain d' where d': "place_row d row (reuse_slot d) (page_num d) (page_free d) (page_next d) = Inr d'"
    "heap_page_ok d'" "page_next d' = page_next d"
    "page_tuples d' = (case reuse_slot d of None \<Rightarrow> page_tuples d @ [Some row] | Some i \<Rightarrow> (page_tuples d)[i := Some row])"
    by (rule place_row_ok [OF ok reuse_slotD]) (use room in \<open>auto simp: has_room_def\<close>)
  have "tuple_at d' = (tuple_at d)(insert_slot d := Some row)"
  proof (cases "reuse_slot d")
    case None
    then show ?thesis using d'(4)
      by (auto simp: insert_slot_def tuple_at_tuples fun_eq_iff nth_append)
  next
    case (Some i)
    then show ?thesis using tuple_at_update [of d' d i] d'(4) reuse_slotD [OF Some] by (simp add: insert_slot_def)
  qed
  with d' that show ?thesis by blast
qed

text \<open>The bytes of the page after a row was put in: they depend on the page and the row alone.\<close>

definition placed :: "bytes \<Rightarrow> bytes \<Rightarrow> bytes \<Rightarrow> bool" where
  "placed d row d' \<longleftrightarrow> place_row d row (reuse_slot d) (page_num d) (page_free d) (page_next d) = Inr d'"

definition placed_new :: "bytes \<Rightarrow> bytes \<Rightarrow> bool" where
  "placed_new row d' \<longleftrightarrow> (\<exists>d. init_heap_page (replicate PAGE_SIZE 0) = Inr d \<and> placed d row d')"

lemma placed_unique: "placed d row d1 \<Longrightarrow> placed d row d2 \<Longrightarrow> d1 = d2" "placed_new row d1 \<Longrightarrow> placed_new row d2 \<Longrightarrow> d1 = d2"
  by (auto simp: placed_def placed_new_def)

lemma heap_insert_fit_exact:
  assumes idle: "heap_idle h" and p: "hf_last h < pool_count (hf_pool h)"
    and ok: "heap_page_ok (heap_page h (hf_last h))"
    and size: "HEAP_HEADER_SIZE + SLOT_SIZE + length row \<le> PAGE_SIZE"
    and room: "has_room (heap_page h (hf_last h)) row"
  shows "wp (heap_insert_loop (Suc k) row)
    (page_effect h (hf_last h) (\<lambda>x d. x = RID (hf_last h) (insert_slot (heap_page h (hf_last h)))
      \<and> heap_page_ok d \<and> page_next d = page_next (heap_page h (hf_last h))
      \<and> tuple_at d = (tuple_at (heap_page h (hf_last h)))(insert_slot (heap_page h (hf_last h)) := Some row)
      \<and> placed (heap_page h (hf_last h)) row d))
    (\<lambda>_ _. False) h"
proof -
  let ?p = "hf_last h" let ?d = "heap_page h ?p"
  obtain d' where d': "place_row ?d row (reuse_slot ?d) (page_num ?d) (page_free ?d) (page_next ?d) = Inr d'"
    "heap_page_ok d'" "page_next d' = page_next ?d" "tuple_at d' = (tuple_at ?d)(insert_slot ?d := Some row)"
    by (rule place_insert [OF ok room])
  have fd: "find_deleted ?d 0 (page_num ?d) = Inr (reuse_slot ?d)"
    using find_deleted_eq [OF ok, of 0] by (simp add: reuse_slot_def)
  have "wp (py_bind (on_pool (fetch_page ?p)) (\<lambda>r.
      py_finally (heap_insert_body (heap_insert_loop k row) row r) (on_pool (unpin_page ?p True))))
    (page_effect h ?p (\<lambda>x d. x = RID ?p (insert_slot ?d) \<and> heap_page_ok d \<and> page_next d = page_next ?d
      \<and> tuple_at d = (tuple_at ?d)(insert_slot ?d := Some row) \<and> placed ?d row d)) (\<lambda>_ _. False) h"
  proof (rule wp_with_page [OF idle p], goal_cases)
    case (1 b)
    show ?case using d' room fd heap_page_okD(1) [OF d'(2)]
      by (simp add: heap_insert_body_def Let_def has_room_available wp_rules pinned_page [OF 1]
          read_heap_page [OF ok] pinned_write [OF 1] buf_modify_def insert_slot_def placed_def)
  qed
  then show ?thesis using size by (simp add: wp_bind wp_gets)
qed

lemma heap_insert_fit:
  assumes idle: "heap_idle h" and p: "hf_last h < pool_count (hf_pool h)"
    and ok: "heap_page_ok (heap_page h (hf_last h))"
    and size: "HEAP_HEADER_SIZE + SLOT_SIZE + length row \<le> PAGE_SIZE"
    and room: "has_room (heap_page h (hf_last h)) row"
  shows "wp (heap_insert_loop (Suc k) row)
    (page_effect h (hf_last h) (\<lambda>x d. x = RID (hf_last h) (insert_slot (heap_page h (hf_last h)))
      \<and> heap_page_ok d \<and> page_next d = page_next (heap_page h (hf_last h))
      \<and> tuple_at d = (tuple_at (heap_page h (hf_last h)))(insert_slot (heap_page h (hf_last h)) := Some row)))
    (\<lambda>_ _. False) h"
  by (rule wp_mono [OF heap_insert_fit_exact [OF assms]]) (auto simp: page_effect_def)

text \<open>Adding a page at the end of the chain, while the last page is pinned.\<close>

lemma view_new_unpinned:
  "v_pins v (v_count v) = 0 \<Longrightarrow> 0 < v_avail v \<Longrightarrow>
     view_unpin (v_count v) (view_write (v_count v) d (view_new v)) =
       v\<lparr>v_count := v_count v + 1, v_page := (v_page v)(v_count v := d)\<rparr>"
  by (simp add: view_unpin_def view_new_def view_write_def fun_upd_idem)

lemma wp_new_heap_page:
  assumes b: "pool_inv b" "0 < v_avail (pool_view b)"
    and Q: "\<And>b' d. pool_inv b' \<Longrightarrow> pool_stale b' \<subseteq> pool_stale b \<Longrightarrow>
      pool_view b' = (pool_view b)\<lparr>v_count := pool_count b + 1, v_page := (pool_page b)(pool_count b := d)\<rparr> \<Longrightarrow>
      heap_page_ok d \<Longrightarrow> page_tuples d = [] \<Longrightarrow> page_next d = INVALID_PAGE_ID \<Longrightarrow> page_free d = PAGE_SIZE \<Longrightarrow>
      init_heap_page (replicate PAGE_SIZE 0) = Inr d \<Longrightarrow> Q (pool_count b) b'"
  shows "wp new_page (\<lambda>p. wp (buf_modify p init_heap_page) (\<lambda>_. wp (unpin_page p True) (\<lambda>_. Q p) E) E) E b"
proof (rule wp_new_page [OF b])
  let ?n = "pool_count b"
  fix b1 assume b1: "pool_inv b1" "pool_view b1 = view_new (pool_view b)" "pool_stale b1 = pool_stale b"
  note v1 = pool_view_eqD [OF b1(2)]
  obtain d where d: "init_heap_page (pool_page b1 ?n) = Inr d" "heap_page_ok d" "page_tuples d = []"
    "page_next d = INVALID_PAGE_ID" "page_free d = PAGE_SIZE"
    by (rule init_heap_page_ok [of "pool_page b1 ?n"]) (use v1 in \<open>simp_all add: pool_view_sel\<close>)
  have stale_n: "?n \<notin> pool_stale b" using pool_invD(10) [OF b(1), of ?n] pool_pins_beyond [OF b(1), of ?n] by auto
  show "wp (buf_modify ?n init_heap_page) (\<lambda>_. wp (unpin_page ?n True) (\<lambda>_. Q ?n) E) E b1"
  proof (rule wp_buf_modify [where d = d])
    show "pool_inv b1" "init_heap_page (pool_page b1 ?n) = Inr d" "length d = PAGE_SIZE"
      using b1(1) d(1) heap_page_okD(1) [OF d(2)] by simp_all
    show pin: "0 < pool_pins b1 ?n" using v1 by (simp add: pool_view_sel)
    fix b2 assume b2: "pool_inv b2" "pool_view b2 = view_write ?n d (pool_view b1)"
      "pool_stale b2 \<subseteq> insert ?n (pool_stale b1)" 
    show "wp (unpin_page ?n True) (\<lambda>_. Q ?n) E b2"
    proof (rule wp_unpin_page [OF b2(1)])
      show "0 < pool_pins b2 ?n" using pool_view_eqD(3) [OF b2(2)] pin by (simp add: pool_view_sel)
      fix b3 assume b3: "pool_inv b3" "pool_view b3 = view_unpin ?n (pool_view b2)"
        "pool_stale b3 = pool_stale b2 - (if True then {?n} else {})"
      show "Q ?n b3"
        using b3 b2 b1 d view_new_unpinned [of "pool_view b" d] b pool_pins_beyond [OF b(1), of ?n] stale_n
        by (intro Q) (auto simp: pool_view_sel v1)
    qed simp
  qed
qed

lemma heap_add_page_spec:
  assumes b: "pool_inv b" "pool_view b = view_pin p (pool_view (hf_pool h))" "pool_stale b = {}"
    and h: "heap_idle h" "2 \<le> v_avail (pool_view (hf_pool h))" "pool_pins (hf_pool h) p = 0"
      "p < pool_count (hf_pool h)" "pool_count (hf_pool h) < 2 ^ 32"
    and d: "d = heap_page h p" "heap_page_ok d"
  shows "wp (heap_add_page p (page_num d) (page_free d))
    (\<lambda>_ h'. \<exists>b' d0 d1. h' = h\<lparr>hf_pool := b', hf_last := pool_count (hf_pool h)\<rparr>
      \<and> pool_inv b' \<and> pool_stale b' = {}
      \<and> pool_view b' = (pool_view (hf_pool h))\<lparr>v_count := pool_count (hf_pool h) + 1,
          v_page := (heap_page h)(pool_count (hf_pool h) := d0, p := d1)\<rparr>
      \<and> heap_page_ok d0 \<and> page_tuples d0 = [] \<and> page_next d0 = INVALID_PAGE_ID \<and> page_free d0 = PAGE_SIZE
      \<and> heap_page_ok d1 \<and> page_tuples d1 = page_tuples d \<and> page_next d1 = pool_count (hf_pool h)
      \<and> init_heap_page (replicate PAGE_SIZE 0) = Inr d0
      \<and> write_header d (page_type_value PT_HEAP) (page_num d) (page_free d) (pool_count (hf_pool h)) = Inr d1)
    (\<lambda>_ _. False) (h\<lparr>hf_pool := b\<rparr>)"
    (is "wp _ ?Q _ _")
proof -
  let ?n = "pool_count (hf_pool h)"
  note v = pool_view_eqD [OF b(2), simplified, unfolded pool_view_sel]
  obtain d1 where d1: "write_header d (page_type_value PT_HEAP) (page_num d) (page_free d) ?n = Inr d1"
    "heap_page_ok d1" "page_tuples d1 = page_tuples d" "page_next d1 = ?n"
    by (rule relink_ok [OF d(2) h(5)])
  have avail: "0 < v_avail (pool_view b)" using b(2) h(2) by (simp add: view_pin_def)
  have "wp new_page (\<lambda>q. wp (buf_modify q init_heap_page) (\<lambda>_. wp (unpin_page q True) (\<lambda>_.
      wp (buf_modify p (\<lambda>data. write_header data (page_type_value PT_HEAP) (page_num d) (page_free d) q))
        (\<lambda>_. wp (unpin_page p True) (\<lambda>_ b. ?Q () (h\<lparr>hf_pool := b, hf_last := q\<rparr>)) (\<lambda>_ _. False))
        (\<lambda>_ _. False)) (\<lambda>_ _. False)) (\<lambda>_ _. False)) (\<lambda>_ _. False) b"
  proof (rule wp_new_heap_page [OF b(1) avail])
    fix b1 d0 assume b1: "pool_inv b1" "pool_stale b1 \<subseteq> pool_stale b"
      "pool_view b1 = (pool_view b)\<lparr>v_count := pool_count b + 1, v_page := (pool_page b)(pool_count b := d0)\<rparr>"
      and d0: "heap_page_ok d0" "page_tuples d0 = []" "page_next d0 = INVALID_PAGE_ID" "page_free d0 = PAGE_SIZE"
        "init_heap_page (replicate PAGE_SIZE 0) = Inr d0"
    note v1 = pool_view_eqD [OF b1(3), simplified]
    have pin1: "pool_pins b1 p = 1" using v1 v h(3) by (simp add: pool_view_sel)
    have pg1: "pool_page b1 p = d" using v1 v h(4) d by simp
    show "wp (buf_modify p (\<lambda>data. write_header data (page_type_value PT_HEAP) (page_num d) (page_free d) (pool_count b)))
        (\<lambda>_. wp (unpin_page p True) (\<lambda>_ b'. ?Q () (h\<lparr>hf_pool := b', hf_last := pool_count b\<rparr>)) (\<lambda>_ _. False))
        (\<lambda>_ _. False) b1"
    proof (rule wp_buf_modify [where d = d1])
      show "pool_inv b1" "0 < pool_pins b1 p" "length d1 = PAGE_SIZE"
        using b1(1) pin1 heap_page_okD(1) [OF d1(2)] by simp_all
      show "write_header (pool_page b1 p) (page_type_value PT_HEAP) (page_num d) (page_free d) (pool_count b) = Inr d1"
        using d1(1) pg1 v by simp
      fix b2 assume b2: "pool_inv b2" "pool_view b2 = view_write p d1 (pool_view b1)"
        "pool_stale b2 \<subseteq> insert p (pool_stale b1)"
      have pin2: "pool_pins b2 p = 1" using pool_view_eqD(3) [OF b2(2)] pin1 by (simp add: pool_view_sel)
      show "wp (unpin_page p True) (\<lambda>_ b'. ?Q () (h\<lparr>hf_pool := b', hf_last := pool_count b\<rparr>)) (\<lambda>_ _. False) b2"
      proof (rule wp_unpin_page [OF b2(1)])
        fix b3 assume b3: "pool_inv b3" "pool_view b3 = view_unpin p (pool_view b2)"
          "pool_stale b3 = pool_stale b2 - (if True then {p} else {})"
        have "pool_view b3 = (pool_view (hf_pool h))\<lparr>v_count := ?n + 1, v_page := (heap_page h)(?n := d0, p := d1)\<rparr>"
          using b3(2) b2(2) b1(3) b(2) v h(2,3)
          by (simp add: view_unpin_def view_write_def view_pin_def pool_view_sel fun_upd_idem)
        moreover have "pool_stale b3 = {}" using b3(3) b2(3) b1(2) b(3) by auto
        ultimately show "?Q () (h\<lparr>hf_pool := b3, hf_last := pool_count b\<rparr>)"
          using b3(1) d0 d1 v by (intro exI [of _ b3] exI [of _ d0] exI [of _ d1]) simp
      qed (use pin2 in auto)
    qed
  qed
  then show ?thesis by (simp add: heap_add_page_def wp_bind wp_seq wp_on_pool wp_modify)
qed

text \<open>
  A row that does not fit into the last page goes to the first slot of a new page, linked
  after it. On this path the code releases the full page twice; the second release does
  nothing as long as nobody else holds that page.
\<close>

lemma heap_insert_grow_exact:
  assumes h: "heap_idle h" "2 \<le> v_avail (pool_view (hf_pool h))" "pool_pins (hf_pool h) (hf_last h) = 0"
      "hf_last h < pool_count (hf_pool h)" "pool_count (hf_pool h) < 2 ^ 32"
    and ok: "heap_page_ok (heap_page h (hf_last h))"
    and size: "HEAP_HEADER_SIZE + SLOT_SIZE + length row \<le> PAGE_SIZE"
    and full: "\<not> has_room (heap_page h (hf_last h)) row"
  shows "wp (heap_insert_loop (Suc (Suc k)) row)
    (\<lambda>x h'. x = RID (pool_count (hf_pool h)) 0 \<and> (\<exists>b d d1.
        h' = h\<lparr>hf_pool := b, hf_last := pool_count (hf_pool h)\<rparr> \<and> heap_idle h'
      \<and> pool_view b = (pool_view (hf_pool h))\<lparr>v_count := pool_count (hf_pool h) + 1,
          v_page := (heap_page h)(pool_count (hf_pool h) := d, hf_last h := d1)\<rparr>
      \<and> heap_page_ok d \<and> page_next d = INVALID_PAGE_ID \<and> tuple_at d = [0 \<mapsto> row]
      \<and> heap_page_ok d1 \<and> page_next d1 = pool_count (hf_pool h)
      \<and> page_tuples d1 = page_tuples (heap_page h (hf_last h))
      \<and> placed_new row d
      \<and> write_header (heap_page h (hf_last h)) (page_type_value PT_HEAP) (page_num (heap_page h (hf_last h))) (page_free (heap_page h (hf_last h)))
          (pool_count (hf_pool h)) = Inr d1))
    (\<lambda>_ _. False) h"
    (is "wp _ ?Q _ _")
proof -
  let ?p = "hf_last h" let ?n = "pool_count (hf_pool h)" let ?d = "heap_page h ?p"
  have fd: "find_deleted ?d 0 (page_num ?d) = Inr (reuse_slot ?d)"
    using find_deleted_eq [OF ok, of 0] by (simp add: reuse_slot_def)
  have "wp (fetch_page ?p) (\<lambda>r b. wp (heap_insert_body (heap_insert_loop (Suc k) row) row r)
      (\<lambda>x. wp (on_pool (unpin_page ?p True)) (\<lambda>_. ?Q x) (\<lambda>_ _. False))
      (\<lambda>_. wp (on_pool (unpin_page ?p True)) (\<lambda>_ _. False) (\<lambda>_ _. False)) (h\<lparr>hf_pool := b\<rparr>))
    (\<lambda>_ _. False) (hf_pool h)"
  proof (rule wp_fetch_page [OF heap_idleD(1) [OF h(1)] h(4) disjI2 [OF heap_idleD(2) [OF h(1)]]])
    fix b assume b: "pool_inv b" "pool_view b = view_pin ?p (pool_view (hf_pool h))"
      "pool_stale b = pool_stale (hf_pool h)"
    then have st: "pool_stale b = {}" using heap_idleD(3) [OF h(1)] by simp
    have "wp (heap_insert_body (heap_insert_loop (Suc k) row) row ?p) Q E (h\<lparr>hf_pool := b\<rparr>)
      = wp (heap_add_page ?p (page_num ?d) (page_free ?d)) (\<lambda>_. wp (heap_insert_loop (Suc k) row) Q E) E
          (h\<lparr>hf_pool := b\<rparr>)" for Q E
      using full fd by (simp add: heap_insert_body_def Let_def has_room_available wp_rules
          pinned_page [OF b(1,2) st] read_heap_page [OF ok] del: heap_insert_loop.simps)
    moreover have "wp (heap_add_page ?p (page_num ?d) (page_free ?d)) (\<lambda>_. wp (heap_insert_loop (Suc k) row)
        (\<lambda>x. wp (on_pool (unpin_page ?p True)) (\<lambda>_. ?Q x) (\<lambda>_ _. False))
        (\<lambda>_. wp (on_pool (unpin_page ?p True)) (\<lambda>_ _. False) (\<lambda>_ _. False)))
      (\<lambda>_. wp (on_pool (unpin_page ?p True)) (\<lambda>_ _. False) (\<lambda>_ _. False)) (h\<lparr>hf_pool := b\<rparr>)"
    proof (rule wp_mono [OF heap_add_page_spec [OF b(1,2) st h refl ok]], goal_cases)
      case (1 x h2)
      then obtain b2 d0 d1 where h2: "h2 = h\<lparr>hf_pool := b2, hf_last := ?n\<rparr>" "pool_inv b2" "pool_stale b2 = {}"
        "pool_view b2 = (pool_view (hf_pool h))\<lparr>v_count := ?n + 1, v_page := (heap_page h)(?n := d0, ?p := d1)\<rparr>"
        and d0: "heap_page_ok d0" "page_tuples d0 = []" "page_next d0 = INVALID_PAGE_ID" "page_free d0 = PAGE_SIZE"
          "init_heap_page (replicate PAGE_SIZE 0) = Inr d0"
        and d1: "heap_page_ok d1" "page_tuples d1 = page_tuples ?d" "page_next d1 = ?n"
          "write_header ?d (page_type_value PT_HEAP) (page_num ?d) (page_free ?d) ?n = Inr d1" by blast
      note v2 = pool_view_eqD [OF h2(4), simplified]
      have num0: "page_num d0 = 0" using d0(2) length_page_tuples [of d0] by simp
      have slot0: "insert_slot d0 = 0" "tuple_at d0 = Map.empty" "has_room d0 row"
        using size num0 d0(4)
        by (auto simp: insert_slot_def reuse_slot_def tuple_at_def fun_eq_iff has_room_def slot_offset_def)
      have pg: "heap_page h2 (hf_last h2) = d0" using v2 h(4) by (simp add: h2(1))
      have idle2: "heap_idle h2" using h2 h(2) by (simp add: heap_idle_def)
      have "wp (heap_insert_loop (Suc k) row) (page_effect h2 ?n (\<lambda>x d. x = RID ?n 0 \<and> heap_page_ok d
          \<and> page_next d = INVALID_PAGE_ID \<and> tuple_at d = [0 \<mapsto> row] \<and> placed d0 row d)) (\<lambda>_ _. False) h2"
        using heap_insert_fit_exact [OF idle2 _ _ size, of k] pg d0 slot0 v2 by (simp add: h2(1) pool_view_sel)
      then show ?case
      proof (rule wp_mono, goal_cases)
        case (1 x h3)
        then obtain b3 d where h3: "x = RID ?n 0" "heap_page_ok d" "page_next d = INVALID_PAGE_ID"
          "tuple_at d = [0 \<mapsto> row]" "h3 = h2\<lparr>hf_pool := b3\<rparr>" "heap_idle h3"
          "pool_view b3 = view_write ?n d (pool_view b2)" "placed d0 row d"
          by (auto simp: page_effect_def h2(1))
        have pin3: "pool_pins b3 ?p = 0" using pool_view_eqD(3) [OF h3(7)] v2 h(3) by (simp add: pool_view_sel)
        have "wp (unpin_page ?p True) (\<lambda>_ b. ?Q x (h3\<lparr>hf_pool := b\<rparr>)) (\<lambda>_ _. False) b3"
        proof (rule wp_unpin_spare [OF _ pin3])
          show "pool_inv b3" using h3(5,6) by (simp add: heap_idle_def)
          fix b4 assume b4: "pool_inv b4" "pool_view b4 = pool_view b3" "pool_stale b4 \<subseteq> pool_stale b3"
          have "pool_view b4 = (pool_view (hf_pool h))\<lparr>v_count := ?n + 1, v_page := (heap_page h)(?n := d, ?p := d1)\<rparr>"
            using b4(2) h3(7) h2(4) h(4) by (simp add: view_write_def fun_upd_twist)
          moreover have "heap_idle (h3\<lparr>hf_pool := b4\<rparr>)" using b4 h3(5,6) by (auto simp: heap_idle_def)
          moreover have "placed_new row d" using d0(5) h3(8) by (auto simp: placed_new_def)
          ultimately show "?Q x (h3\<lparr>hf_pool := b4\<rparr>)"
            using h3 d1 unfolding h2(1)
            by (intro conjI exI [of _ b4] exI [of _ d] exI [of _ d1]) simp_all
        qed
        then show ?case by (simp add: wp_on_pool h3(5))
      qed simp
    qed simp
    ultimately show "wp (heap_insert_body (heap_insert_loop (Suc k) row) row ?p)
      (\<lambda>x. wp (on_pool (unpin_page ?p True)) (\<lambda>_. ?Q x) (\<lambda>_ _. False))
      (\<lambda>_. wp (on_pool (unpin_page ?p True)) (\<lambda>_ _. False) (\<lambda>_ _. False)) (h\<lparr>hf_pool := b\<rparr>)" by simp
  qed
  then show ?thesis
    unfolding heap_insert_loop.simps(2) [of "Suc k"] using size
    by (simp add: wp_bind wp_gets wp_on_pool [of "fetch_page _"] wp_finally del: heap_insert_loop.simps)
qed

lemma heap_insert_grow:
  assumes h: "heap_idle h" "2 \<le> v_avail (pool_view (hf_pool h))" "pool_pins (hf_pool h) (hf_last h) = 0"
      "hf_last h < pool_count (hf_pool h)" "pool_count (hf_pool h) < 2 ^ 32"
    and ok: "heap_page_ok (heap_page h (hf_last h))"
    and size: "HEAP_HEADER_SIZE + SLOT_SIZE + length row \<le> PAGE_SIZE"
    and full: "\<not> has_room (heap_page h (hf_last h)) row"
  shows "wp (heap_insert_loop (Suc (Suc k)) row)
    (\<lambda>x h'. x = RID (pool_count (hf_pool h)) 0 \<and> (\<exists>b d d1.
        h' = h\<lparr>hf_pool := b, hf_last := pool_count (hf_pool h)\<rparr> \<and> heap_idle h'
      \<and> pool_view b = (pool_view (hf_pool h))\<lparr>v_count := pool_count (hf_pool h) + 1,
          v_page := (heap_page h)(pool_count (hf_pool h) := d, hf_last h := d1)\<rparr>
      \<and> heap_page_ok d \<and> page_next d = INVALID_PAGE_ID \<and> tuple_at d = [0 \<mapsto> row]
      \<and> heap_page_ok d1 \<and> page_next d1 = pool_count (hf_pool h)
      \<and> page_tuples d1 = page_tuples (heap_page h (hf_last h))))
    (\<lambda>_ _. False) h"
  by (rule wp_mono [OF heap_insert_grow_exact [OF assms]]) blast+

section \<open>The file as a map\<close>

text \<open>The pages of the chain that starts at \<open>p\<close>, at most \<open>k\<close> of them.\<close>

fun chain_list :: "nat \<Rightarrow> (nat \<Rightarrow> bytes) \<Rightarrow> nat \<Rightarrow> nat list" where
  "chain_list 0 pg p = []"
| "chain_list (Suc k) pg p = (if p = INVALID_PAGE_ID then [] else p # chain_list k pg (page_next (pg p)))"

definition heap_pages :: "heapfile \<Rightarrow> nat list" where
  "heap_pages h = chain_list (pool_count (hf_pool h)) (heap_page h) (hf_first h)"

definition heap_map :: "heapfile \<Rightarrow> rid \<Rightarrow> bytes option" where
  "heap_map h r = (if rid_page_id r \<in> set (heap_pages h)
     then tuple_at (heap_page h (rid_page_id r)) (rid_slot_id r) else None)"

text \<open>\<open>ps\<close> is a chain: every page points to the next one, the last one to none.\<close>

fun is_chain :: "(nat \<Rightarrow> bytes) \<Rightarrow> nat list \<Rightarrow> bool" where
  "is_chain pg [] \<longleftrightarrow> True"
| "is_chain pg [p] \<longleftrightarrow> page_next (pg p) = INVALID_PAGE_ID"
| "is_chain pg (p # q # ps) \<longleftrightarrow> page_next (pg p) = q \<and> is_chain pg (q # ps)"

definition heap_on :: "nat list \<Rightarrow> heapfile \<Rightarrow> bool" where
  "heap_on ps h \<longleftrightarrow> ps \<noteq> [] \<and> hd ps = hf_first h \<and> last ps = hf_last h \<and> sorted_wrt (<) ps
     \<and> is_chain (heap_page h) ps
     \<and> (\<forall>p \<in> set ps. p < pool_count (hf_pool h) \<and> heap_page_ok (heap_page h p))
     \<and> pool_count (hf_pool h) \<le> INVALID_PAGE_ID"

text \<open>
  The invariant between two operations: the pages form a chain in ascending order, all of
  them well-formed, the pool is idle with two frames to spare, and the last page is not
  pinned.
\<close>

definition heap_inv :: "heapfile \<Rightarrow> bool" where
  "heap_inv h \<longleftrightarrow> heap_on (heap_pages h) h \<and> heap_idle h \<and> 2 \<le> v_avail (pool_view (hf_pool h))
     \<and> pool_pins (hf_pool h) (hf_last h) = 0"

lemma sorted_wrt_less_length:
  assumes "sorted_wrt (<) (ps :: nat list)" and "\<forall>p \<in> set ps. p < n"
  shows "length ps \<le> n"
proof -
  have "distinct ps" using assms(1) by (simp add: strict_sorted_iff)
  then have "length ps = card (set ps)" by (rule distinct_card [symmetric])
  also have "\<dots> \<le> card {..<n}" using assms(2) by (intro card_mono) auto
  finally show ?thesis by simp
qed

lemma chain_list_eq:
  assumes "is_chain pg ps" and "length ps \<le> k" and "ps \<noteq> []" and "INVALID_PAGE_ID \<notin> set ps"
  shows "chain_list k pg (hd ps) = ps"
  using assms
proof (induction pg ps arbitrary: k rule: is_chain.induct)
  case (2 pg p)
  then show ?case by (cases k; cases "k - 1") auto
next
  case (3 pg p q ps)
  then show ?case by (cases k) auto
qed simp

lemma heap_on_pages:
  assumes "heap_on ps h"
  shows "heap_pages h = ps" and "INVALID_PAGE_ID \<notin> set ps" and "length ps \<le> pool_count (hf_pool h)"
proof -
  show inv: "INVALID_PAGE_ID \<notin> set ps" using assms by (auto simp: heap_on_def)
  show len: "length ps \<le> pool_count (hf_pool h)"
    using assms by (intro sorted_wrt_less_length) (auto simp: heap_on_def)
  show "heap_pages h = ps"
    using assms chain_list_eq [of "heap_page h" ps] inv len by (simp add: heap_pages_def heap_on_def)
qed

lemma heap_invI:
  assumes "heap_on ps h" and "heap_idle h" and "2 \<le> v_avail (pool_view (hf_pool h))"
    and "pool_pins (hf_pool h) (hf_last h) = 0"
  shows "heap_inv h" and "heap_pages h = ps"
  using assms heap_on_pages [OF assms(1)] by (simp_all add: heap_inv_def)

lemma is_chain_cong: "(\<And>p. p \<in> set ps \<Longrightarrow> page_next (pg p) = page_next (pg' p)) \<Longrightarrow> is_chain pg ps = is_chain pg' ps"
  by (induction pg ps rule: is_chain.induct) simp_all

text \<open>Changing the tuples of one page of the chain.\<close>

lemma page_effect_heap:
  assumes inv: "heap_inv h" and p: "p \<in> set (heap_pages h)" and eff: "page_effect h p R x h'"
    and R: "\<And>x d. R x d \<Longrightarrow> heap_page_ok d \<and> page_next d = page_next (heap_page h p)"
  obtains d where "R x d" and "heap_inv h'" and "heap_pages h' = heap_pages h"
    and "heap_page h' = (heap_page h)(p := d)"
    and "heap_map h' = (\<lambda>r. if rid_page_id r = p then tuple_at d (rid_slot_id r) else heap_map h r)"
proof -
  from eff obtain b d where b: "R x d" "h' = h\<lparr>hf_pool := b\<rparr>" "heap_idle h'"
    "pool_view b = view_write p d (pool_view (hf_pool h))" unfolding page_effect_def by blast
  note v = pool_view_eqD [OF b(4), simplified, unfolded pool_view_sel]
  have on: "heap_on (heap_pages h) h" using inv by (simp add: heap_inv_def)
  have "is_chain ((heap_page h)(p := d)) (heap_pages h) = is_chain (heap_page h) (heap_pages h)"
    using R [OF b(1)] by (intro is_chain_cong) auto
  with on have on': "heap_on (heap_pages h) h'"
    using R [OF b(1)] by (auto simp: heap_on_def b(2) v)
  have I: "heap_inv h'" "heap_pages h' = heap_pages h"
    using heap_invI [OF on' b(3)] inv b by (simp_all add: heap_inv_def v)
  have pg: "heap_page h' = (heap_page h)(p := d)" by (simp add: b(2) v)
  have "heap_map h' = (\<lambda>r. if rid_page_id r = p then tuple_at d (rid_slot_id r) else heap_map h r)"
    using p by (auto simp: heap_map_def I(2) pg fun_eq_iff)
  with b(1) I pg that show ?thesis by blast
qed

lemma heap_onD:
  assumes "heap_inv h" and "p \<in> set (heap_pages h)"
  shows "p < pool_count (hf_pool h)" and "heap_page_ok (heap_page h p)"
  using assms by (auto simp: heap_inv_def heap_on_def)

lemma heap_last_in: "heap_inv h \<Longrightarrow> hf_last h \<in> set (heap_pages h)"
  by (metis heap_inv_def heap_on_def last_in_set)

lemma heap_get_map:
  assumes inv: "heap_inv h" and r: "rid_page_id r \<in> set (heap_pages h)"
  shows "wp (heap_get r) (\<lambda>x h'. x = heap_map h r \<and> heap_inv h' \<and> heap_pages h' = heap_pages h
      \<and> heap_map h' = heap_map h) (\<lambda>_ _. False) h"
proof -
  obtain p i where ri: "r = RID p i" by (cases r)
  with r have p: "p \<in> set (heap_pages h)" by simp
  have "heap_idle h" using inv by (simp add: heap_inv_def)
  from heap_get_spec [OF this heap_onD [OF inv p], of i] show ?thesis unfolding ri
  proof (rule wp_mono, goal_cases)
    case (1 x h')
    then show ?case
    proof (rule page_effect_heap [OF inv p], goal_cases)
      case (2 d)
      then show ?case using p by (auto simp: heap_map_def fun_eq_iff)
    qed (use heap_onD [OF inv p] in simp)
  qed simp
qed

lemma heap_update_map:
  assumes inv: "heap_inv h" and r: "rid_page_id r \<in> set (heap_pages h)"
  shows "wp (heap_update_in_place r new) (\<lambda>x h'. heap_inv h' \<and> heap_pages h' = heap_pages h
      \<and> x = (case heap_map h r of None \<Rightarrow> False | Some old \<Rightarrow> length old = length new)
      \<and> heap_map h' = (if x then (heap_map h)(r \<mapsto> new) else heap_map h)) (\<lambda>_ _. False) h"
proof -
  obtain p i where ri: "r = RID p i" by (cases r)
  with r have p: "p \<in> set (heap_pages h)" by simp
  have idle: "heap_idle h" using inv by (simp add: heap_inv_def)
  have hm: "heap_map h r = tuple_at (heap_page h p) i" using p by (simp add: heap_map_def ri)
  from heap_update_spec [OF idle heap_onD [OF inv p], of i new] show ?thesis unfolding ri
  proof (rule wp_mono, goal_cases)
    case (1 x h')
    then show ?case
    proof (rule page_effect_heap [OF inv p], goal_cases)
      case (2 d)
      have "tuple_at d = (tuple_at (heap_page h p))(i := Some new)" if "x"
        using 2(1) that by (intro tuple_at_update)
          (auto simp: tuple_at_Some_iff split: option.splits if_splits)
      then show ?case using 2 hm p
        by (auto simp: ri fun_eq_iff heap_map_def split: option.splits if_splits)
    qed simp
  qed simp
qed

lemma heap_delete_map:
  assumes inv: "heap_inv h" and r: "rid_page_id r \<in> set (heap_pages h)"
  shows "wp (heap_delete r) (\<lambda>x h'. heap_inv h' \<and> heap_pages h' = heap_pages h
      \<and> x = (heap_map h r \<noteq> None) \<and> heap_map h' = (heap_map h)(r := None)) (\<lambda>_ _. False) h"
proof -
  obtain p i where ri: "r = RID p i" by (cases r)
  with r have p: "p \<in> set (heap_pages h)" by simp
  have idle: "heap_idle h" using inv by (simp add: heap_inv_def)
  have hm: "heap_map h r = tuple_at (heap_page h p) i" using p by (simp add: heap_map_def ri)
  from heap_delete_spec [OF idle heap_onD [OF inv p], of i] show ?thesis unfolding ri
  proof (rule wp_mono, goal_cases)
    case (1 x h')
    then show ?case
    proof (rule page_effect_heap [OF inv p], goal_cases)
      case (2 d)
      have "tuple_at d = (tuple_at (heap_page h p))(i := None)"
      proof (cases "tuple_at (heap_page h p) i")
        case None
        with 2(1) show ?thesis by (auto simp: fun_eq_iff)
      next
        case (Some old)
        with 2(1) show ?thesis by (intro tuple_at_update) (auto simp: tuple_at_Some_iff)
      qed
      then show ?case using 2 hm p
        by (auto simp: ri fun_eq_iff heap_map_def split: if_splits)
    qed simp
  qed simp
qed

lemma is_chain_snoc:
  assumes "is_chain pg ps" and "ps \<noteq> []" and "distinct ps"
    and "\<And>p. p \<in> set ps \<Longrightarrow> p \<noteq> last ps \<Longrightarrow> page_next (pg' p) = page_next (pg p)"
    and "page_next (pg' (last ps)) = n" and "page_next (pg' n) = INVALID_PAGE_ID"
  shows "is_chain pg' (ps @ [n])"
  using assms
proof (induction pg ps rule: is_chain.induct)
  case (3 pg p q ps)
  then have "p \<noteq> last (q # ps)" by auto
  with 3 show ?case by auto
qed simp_all

lemma heap_insert_map:
  assumes inv: "heap_inv h" and size: "HEAP_HEADER_SIZE + SLOT_SIZE + length row \<le> PAGE_SIZE"
    and cnt: "pool_count (hf_pool h) < INVALID_PAGE_ID"
  shows "wp (heap_insert row) (\<lambda>r h'. heap_inv h' \<and> rid_page_id r \<in> set (heap_pages h')
      \<and> set (heap_pages h) \<subseteq> set (heap_pages h')
      \<and> set (heap_pages h') \<subseteq> insert (pool_count (hf_pool h)) (set (heap_pages h))
      \<and> heap_map h r = None \<and> heap_map h' = (heap_map h)(r \<mapsto> row)) (\<lambda>_ _. False) h"
proof -
  let ?p = "hf_last h" let ?d = "heap_page h ?p" let ?n = "pool_count (hf_pool h)"
  have p: "?p \<in> set (heap_pages h)" by (rule heap_last_in [OF inv])
  have idle: "heap_idle h" and av: "2 \<le> v_avail (pool_view (hf_pool h))" "pool_pins (hf_pool h) ?p = 0"
    and on: "heap_on (heap_pages h) h" using inv by (simp_all add: heap_inv_def)
  note D = heap_onD [OF inv p]
  show ?thesis
  proof (cases "has_room ?d row")
    case True
    have "wp (heap_insert row) (page_effect h ?p (\<lambda>x d. x = RID ?p (insert_slot ?d) \<and> heap_page_ok d
        \<and> page_next d = page_next ?d \<and> tuple_at d = (tuple_at ?d)(insert_slot ?d := Some row))) (\<lambda>_ _. False) h"
      using heap_insert_fit [OF idle D size True, of 1] by (simp add: heap_insert_def numeral_2_eq_2)
    then show ?thesis
    proof (rule wp_mono, goal_cases)
      case (1 r h')
      then show ?case
      proof (rule page_effect_heap [OF inv p], goal_cases)
        case (2 d)
        then show ?case using p tuple_at_insert_slot [of ?d] by (auto simp: heap_map_def fun_eq_iff rid.expand)
      qed simp
    qed simp
  next
    case False
    have lim: "?n < 2 ^ 32" using cnt by (simp add: INVALID_PAGE_ID_def)
    have nin: "?n \<notin> set (heap_pages h)" using on by (auto simp: heap_on_def)
    have "wp (heap_insert row) (\<lambda>x h'. x = RID ?n 0 \<and> (\<exists>b d d1.
        h' = h\<lparr>hf_pool := b, hf_last := ?n\<rparr> \<and> heap_idle h'
      \<and> pool_view b = (pool_view (hf_pool h))\<lparr>v_count := ?n + 1, v_page := (heap_page h)(?n := d, ?p := d1)\<rparr>
      \<and> heap_page_ok d \<and> page_next d = INVALID_PAGE_ID \<and> tuple_at d = [0 \<mapsto> row]
      \<and> heap_page_ok d1 \<and> page_next d1 = ?n \<and> page_tuples d1 = page_tuples ?d)) (\<lambda>_ _. False) h"
      using heap_insert_grow [OF idle av D(1) lim D(2) size False, of 0]
      by (simp add: heap_insert_def numeral_2_eq_2 del: heap_insert_loop.simps)
    then show ?thesis
    proof (rule wp_mono, goal_cases)
      case (1 r h')
      then obtain b d d1 where r: "r = RID ?n 0" and h': "h' = h\<lparr>hf_pool := b, hf_last := ?n\<rparr>" "heap_idle h'"
        and b: "pool_view b = (pool_view (hf_pool h))\<lparr>v_count := ?n + 1, v_page := (heap_page h)(?n := d, ?p := d1)\<rparr>"
        and d: "heap_page_ok d" "page_next d = INVALID_PAGE_ID" "tuple_at d = [0 \<mapsto> row]"
        and d1: "heap_page_ok d1" "page_next d1 = ?n" "page_tuples d1 = page_tuples ?d" by blast
      note v = pool_view_eqD [OF b, simplified]
      have t1: "tuple_at d1 = tuple_at ?d" using d1(3) by (simp add: tuple_at_tuples fun_eq_iff)
      have "is_chain (heap_page h') (heap_pages h @ [?n])"
        by (rule is_chain_snoc [of "heap_page h"])
          (use on d d1 D(1) in \<open>auto simp: heap_on_def strict_sorted_iff h'(1) v\<close>)
      then have on': "heap_on (heap_pages h @ [?n]) h'"
        using on d d1 cnt by (auto simp: heap_on_def h'(1) v sorted_wrt_append)
      have pins: "pool_pins b ?n = 0" using pool_pins_beyond [OF heap_idleD(1) [OF idle], of ?n] v
        by (simp add: pool_view_sel)
      have I: "heap_inv h'" "heap_pages h' = heap_pages h @ [?n]"
        using heap_invI [OF on' h'(2)] av pins b by (simp_all add: h'(1))
      have pg: "heap_page h' = (heap_page h)(?n := d, ?p := d1)" by (simp add: h'(1) v)
      have "heap_map h' = (heap_map h)(r \<mapsto> row)"
        using d(3) t1 p nin D(1) by (auto simp: heap_map_def I(2) pg fun_eq_iff r rid.expand)
      with I nin show ?case by (auto simp: r heap_map_def)
    qed simp
  qed
qed

lemma heap_insert_too_long:
  "PAGE_SIZE < HEAP_HEADER_SIZE + SLOT_SIZE + length row \<Longrightarrow> heap_insert row h = (Inl ValueError, h)"
  by (simp add: heap_insert_def numeral_2_eq_2 py_raise_def)

section \<open>Scanning\<close>

definition page_live :: "nat \<Rightarrow> bytes \<Rightarrow> (rid \<times> bytes) list" where
  "page_live p d =
     concat (map (\<lambda>j. case page_tuple d j of None \<Rightarrow> [] | Some b \<Rightarrow> [(RID p j, b)]) [0..<page_num d])"

definition heap_rows :: "heapfile \<Rightarrow> (rid \<times> bytes) list" where
  "heap_rows h = concat (map (\<lambda>p. page_live p (heap_page h p)) (heap_pages h))"

lemma heap_scan_loop_spec:
  assumes "heap_idle h" and "is_chain (heap_page h) ps" and "INVALID_PAGE_ID \<notin> set ps"
    and "\<forall>p \<in> set ps. p < pool_count (hf_pool h) \<and> heap_page_ok (heap_page h p)"
    and "length ps < k"
  shows "wp (heap_scan_loop k (if ps = [] then INVALID_PAGE_ID else hd ps))
    (\<lambda>rows h'. rows = concat (map (\<lambda>p. page_live p (heap_page h p)) ps)
      \<and> (\<exists>b. h' = h\<lparr>hf_pool := b\<rparr> \<and> heap_idle h' \<and> pool_view b = pool_view (hf_pool h))) (\<lambda>_ _. False) h"
  using assms
proof (induction ps arbitrary: k h)
  case Nil
  then obtain k' where "k = Suc k'" by (cases k) auto
  with Nil show ?case by (auto simp: wp_return intro: exI [of _ "hf_pool h"])
next
  case (Cons p ps)
  then obtain k' where k: "k = Suc k'" by (cases k) auto
  let ?d = "heap_page h p"
  note idle = heap_idleD [OF Cons.prems(1)]
  have p: "p < pool_count (hf_pool h)" "heap_page_ok ?d" "p \<noteq> INVALID_PAGE_ID" using Cons.prems by auto
  have nxt: "page_next ?d = (if ps = [] then INVALID_PAGE_ID else hd ps)"
    using Cons.prems(2) by (cases ps) auto
  have rows: "page_rows p ?d 0 (page_num ?d) = Inr (page_live p ?d)"
    using page_rows_eq [OF p(2), of 0] by (simp add: page_live_def)
  have step: "wp (heap_scan_loop k p) Q E h = wp (fetch_page p) (\<lambda>r b. wp (buf_get r) (\<lambda>d b.
      wp (py_bind (py_lift (read_header d)) (\<lambda>(_, num_slots, _, next_page).
        py_bind (py_lift (page_rows p d 0 num_slots)) (\<lambda>rows.
        py_seq (on_pool (unpin_page p False))
       (py_bind (heap_scan_loop k' next_page) (\<lambda>rest. py_return (rows @ rest)))))) Q E (h\<lparr>hf_pool := b\<rparr>))
      (\<lambda>e b. E e (h\<lparr>hf_pool := b\<rparr>)) b) (\<lambda>e b. E e (h\<lparr>hf_pool := b\<rparr>)) (hf_pool h)" for Q E
    using p by (simp add: k wp_bind wp_on_pool)
  have hd: "(if p # ps = [] then INVALID_PAGE_ID else hd (p # ps)) = p" by simp
  show ?case unfolding hd step
  proof (rule wp_fetch_page [OF idle(1) p(1) disjI2 [OF idle(2)]])
    fix b assume b: "pool_inv b" "pool_view b = view_pin p (pool_view (hf_pool h))"
      "pool_stale b = pool_stale (hf_pool h)"
    then have st: "pool_stale b = {}" using idle(3) by simp
    have "wp (unpin_page p False) (\<lambda>_ b'. wp (heap_scan_loop k' (page_next ?d)) (\<lambda>rest h'.
        page_live p ?d @ rest = concat (map (\<lambda>p. page_live p (heap_page h p)) (p # ps))
        \<and> (\<exists>b. h' = h\<lparr>hf_pool := b\<rparr> \<and> heap_idle h' \<and> pool_view b = pool_view (hf_pool h)))
      (\<lambda>_ _. False) (h\<lparr>hf_pool := b'\<rparr>)) (\<lambda>_ _. False) b"
    proof (rule wp_unpin_page [OF b(1)], goal_cases)
      case (3 b')
      then have v': "pool_view b' = pool_view (hf_pool h)" using b(2) idle(2) by simp
      then have same: "pool_count b' = pool_count (hf_pool h)" "pool_page b' = pool_page (hf_pool h)"
        by (auto simp: pool_view_def)
      have "heap_idle (h\<lparr>hf_pool := b'\<rparr>)" using 3 v' st idle by (simp add: heap_idle_def)
      moreover have "is_chain (heap_page h) ps" using Cons.prems(2) by (cases ps) auto
      ultimately have "wp (heap_scan_loop k' (if ps = [] then INVALID_PAGE_ID else hd ps))
        (\<lambda>rows h''. rows = concat (map (\<lambda>q. page_live q (heap_page h q)) ps)
          \<and> (\<exists>b. h'' = h\<lparr>hf_pool := b\<rparr> \<and> heap_idle h'' \<and> pool_view b = pool_view (hf_pool h)))
        (\<lambda>_ _. False) (h\<lparr>hf_pool := b'\<rparr>)"
        using Cons.IH [of "h\<lparr>hf_pool := b'\<rparr>" k'] Cons.prems k by (simp add: same v')
      then show ?case unfolding nxt by (rule wp_mono) auto
    qed (use pool_view_eqD(3) [OF b(2)] st in auto)
    then show "wp (buf_get p) (\<lambda>d b. wp (py_bind (py_lift (read_header d)) (\<lambda>(_, num_slots, _, next_page).
        py_bind (py_lift (page_rows p d 0 num_slots)) (\<lambda>rows.
        py_seq (on_pool (unpin_page p False))
       (py_bind (heap_scan_loop k' next_page) (\<lambda>rest. py_return (rows @ rest))))))
      (\<lambda>rows h'. rows = concat (map (\<lambda>p. page_live p (heap_page h p)) (p # ps))
        \<and> (\<exists>b. h' = h\<lparr>hf_pool := b\<rparr> \<and> heap_idle h' \<and> pool_view b = pool_view (hf_pool h)))
      (\<lambda>_ _. False) (h\<lparr>hf_pool := b\<rparr>)) (\<lambda>e b. False) b"
      using rows by (simp add: pinned_page [OF b(1,2) st] read_heap_page(1) [OF p(2)]
          wp_bind wp_seq wp_lift wp_on_pool wp_return_fun wp_case_prod)
  qed
qed

lemma heap_scan_spec:
  assumes "heap_inv h"
  shows "wp heap_scan (\<lambda>rows h'. rows = heap_rows h \<and> heap_inv h' \<and> heap_pages h' = heap_pages h
      \<and> heap_page h' = heap_page h) (\<lambda>_ _. False) h"
proof -
  let ?ps = "heap_pages h"
  have on: "heap_on ?ps h" and idle: "heap_idle h" using assms by (simp_all add: heap_inv_def)
  note P = heap_on_pages [OF on]
  from on have hd: "hf_first h = (if ?ps = [] then INVALID_PAGE_ID else hd ?ps)" by (simp add: heap_on_def)
  have "wp heap_scan Q E h = wp (heap_scan_loop (pool_count (hf_pool h) + 1) (hf_first h)) Q E h" for Q E
    by (simp add: heap_scan_def wp_bind wp_gets)
  moreover have "wp (heap_scan_loop (pool_count (hf_pool h) + 1) (hf_first h))
    (\<lambda>rows h'. rows = heap_rows h \<and> (\<exists>b. h' = h\<lparr>hf_pool := b\<rparr> \<and> heap_idle h' \<and> pool_view b = pool_view (hf_pool h)))
    (\<lambda>_ _. False) h"
    unfolding hd heap_rows_def
    by (rule heap_scan_loop_spec [OF idle]) (use on P in \<open>auto simp: heap_on_def\<close>)
  ultimately show ?thesis
  proof (simp only:, elim wp_mono, goal_cases)
    case (1 rows h')
    then obtain b where h': "h' = h\<lparr>hf_pool := b\<rparr>" "heap_idle h'" "pool_view b = pool_view (hf_pool h)" by blast
    then have same: "pool_count b = pool_count (hf_pool h)" "pool_page b = heap_page h"
      "pool_pins b = pool_pins (hf_pool h)" by (auto simp: pool_view_def)
    have "heap_on ?ps h'" using on by (simp add: heap_on_def h'(1) same)
    then show ?case using 1 heap_invI [of ?ps h'] h' assms by (simp add: same heap_inv_def)
  qed simp
qed

text \<open>The rows of a scan are the pairs of the map, each once, in the order of their identifiers.\<close>

lemma page_live_set: "(r, b) \<in> set (page_live p d) \<longleftrightarrow> rid_page_id r = p \<and> tuple_at d (rid_slot_id r) = Some b"
  by (cases r) (auto simp: page_live_def tuple_at_def split: option.splits)

lemma heap_rows_set: "(r, b) \<in> set (heap_rows h) \<longleftrightarrow> heap_map h r = Some b"
  by (auto simp: heap_rows_def heap_map_def page_live_set)

lemma sorted_wrt_concat_less:
  assumes "sorted_wrt (<) (xs :: 'a::linorder list)" and "\<And>x. x \<in> set xs \<Longrightarrow> sorted_wrt (<) (f x)"
    and "\<And>x y a b. x \<in> set xs \<Longrightarrow> y \<in> set xs \<Longrightarrow> x < y \<Longrightarrow> a \<in> set (f x) \<Longrightarrow> b \<in> set (f y) \<Longrightarrow> a < b"
  shows "sorted_wrt (<) (concat (map f xs) :: 'b::linorder list)"
  using assms
proof (induction xs)
  case Nil
  show ?case by simp
next
  case (Cons x xs)
  have "sorted_wrt (<) (concat (map f xs))"
    using Cons.prems(1) by (intro Cons.IH Cons.prems(2,3)) auto
  moreover have "a < b" if "a \<in> set (f x)" "b \<in> set (concat (map f xs))" for a b
    using that Cons.prems(1) by (auto intro: Cons.prems(3) [of x _ a b])
  ultimately show ?case using Cons.prems(2) [of x] by (auto simp: sorted_wrt_append)
qed

lemma page_live_sorted: "sorted_wrt (<) (map fst (page_live p d))"
proof -
  have "sorted_wrt (<) (concat (map (\<lambda>j. case page_tuple d j of None \<Rightarrow> [] | Some b \<Rightarrow> [RID p j]) [0..<page_num d]))"
    by (rule sorted_wrt_concat_less) (auto simp: less_rid_def split: option.splits)
  moreover have "map fst (page_live p d) =
      concat (map (\<lambda>j. case page_tuple d j of None \<Rightarrow> [] | Some b \<Rightarrow> [RID p j]) [0..<page_num d])"
    by (auto simp: page_live_def map_concat comp_def intro!: arg_cong [where f = concat] split: option.splits)
  ultimately show ?thesis by simp
qed

lemma heap_rows_sorted:
  assumes "heap_inv h"
  shows "sorted_wrt (<) (map fst (heap_rows h))"
proof -
  have srt: "sorted_wrt (<) (heap_pages h)" using assms by (simp add: heap_inv_def heap_on_def)
  have "sorted_wrt (<) (concat (map (\<lambda>p. map fst (page_live p (heap_page h p))) (heap_pages h)))"
    by (rule sorted_wrt_concat_less [OF srt page_live_sorted])
      (auto simp: less_rid_def page_live_set)
  then show ?thesis by (simp add: heap_rows_def map_concat comp_def)
qed

section \<open>Opening a file\<close>

definition pool_idle :: "pool \<Rightarrow> bool" where
  "pool_idle b \<longleftrightarrow> pool_inv b \<and> pool_stale b = {} \<and> 0 < v_avail (pool_view b)"

text \<open>One turn of the loop of \<^verbatim>\<open>_find_last_page\<close> on a page that exists.\<close>

lemma find_last_page_step:
  assumes idle: "pool_idle b" and p: "p < pool_count b"
    and turn: "\<And>b'. pool_idle b' \<Longrightarrow> pool_view b' = pool_view b \<Longrightarrow>
      wp (if page_next (pool_page b p) = INVALID_PAGE_ID then py_return p
          else if page_next (pool_page b p) \<in> set seen then py_raise ValueError
          else find_last_page_loop k (page_next (pool_page b p) # seen) (page_next (pool_page b p))) Q E b'"
  shows "wp (find_last_page_loop (Suc k) seen p) Q E b"
proof -
  have b: "pool_inv b" "0 < v_avail (pool_view b)" "pool_stale b = {}" using idle by (simp_all add: pool_idle_def)
  have len: "length (pool_page b p) = PAGE_SIZE" by (rule pool_page_length [OF b(1) p])
  show ?thesis unfolding find_last_page_loop.simps wp_bind
  proof (rule wp_fetch_page [OF b(1) p disjI2 [OF b(2)]])
    fix b1 assume b1: "pool_inv b1" "pool_view b1 = view_pin p (pool_view b)" "pool_stale b1 = pool_stale b"
    note v = pool_view_eqD [OF b1(2), simplified, unfolded pool_view_sel]
    have "wp (unpin_page p False) (\<lambda>_. wp (if page_next (pool_page b p) = INVALID_PAGE_ID then py_return p
          else if page_next (pool_page b p) \<in> set seen then py_raise ValueError
          else find_last_page_loop k (page_next (pool_page b p) # seen) (page_next (pool_page b p))) Q E) E b1"
      by (intro wp_unpin_page [OF b1(1)] turn) (use b1 v b in \<open>auto simp: pool_idle_def\<close>)
    then show "wp (buf_get p) (\<lambda>x. wp (py_lift (read_header x)) (\<lambda>x. wp (case x of (_, _, _, next_page) \<Rightarrow>
        py_seq (unpin_page p False) (if next_page = INVALID_PAGE_ID then py_return p
          else if next_page \<in> set seen then py_raise ValueError
          else find_last_page_loop k (next_page # seen) next_page)) Q E) E) E b1"
      using len v by (simp add: wp_buf_get_eq [OF b1(1)] wp_lift wp_seq read_header_eq PAGE_SIZE_def
          del: find_last_page_loop.simps)
  qed
qed

text \<open>
  Whatever the pages hold, the loop stops: it returns a page without a successor or raises
  \<^verbatim>\<open>ValueError\<close>.
\<close>

lemma find_last_page_loop_stops:
  assumes "pool_idle b" and "seen = p # visited" and "distinct seen"
    and "\<forall>q \<in> set visited. q < pool_count b" and "length seen + k = pool_count b + 2"
  shows "wp (find_last_page_loop k seen p)
    (\<lambda>r b'. r < pool_count b \<and> page_next (pool_page b r) = INVALID_PAGE_ID \<and> pool_idle b' \<and> pool_view b' = pool_view b)
    (\<lambda>e b'. e = ValueError \<and> pool_inv b') b"
  using assms
proof (induction k arbitrary: b seen p visited)
  case 0
  have "card (set visited) \<le> card {..<pool_count b}" using 0 by (intro card_mono) auto
  moreover have "length visited = pool_count b + 1" using 0 by simp
  ultimately show ?case using 0 distinct_card [of visited] by simp
next
  case (Suc k)
  show ?case
  proof (cases "p < pool_count b")
    case True
    show ?thesis
    proof (rule find_last_page_step [OF Suc.prems(1) True])
      fix b' assume b': "pool_idle b'" "pool_view b' = pool_view b"
      let ?nx = "page_next (pool_page b p)"
      note v = pool_view_eqD [OF b'(2), unfolded pool_view_sel]
      have "wp (find_last_page_loop k (?nx # seen) ?nx)
        (\<lambda>r b''. r < pool_count b \<and> page_next (pool_page b r) = INVALID_PAGE_ID \<and> pool_idle b'' \<and> pool_view b'' = pool_view b)
        (\<lambda>e b'. e = ValueError \<and> pool_inv b') b'" if "?nx \<notin> set seen"
        using Suc.IH [of b' "?nx # seen" ?nx seen] b' v Suc.prems True that by auto
      then show "wp (if ?nx = INVALID_PAGE_ID then py_return p
          else if ?nx \<in> set seen then py_raise ValueError else find_last_page_loop k (?nx # seen) ?nx)
        (\<lambda>r b'. r < pool_count b \<and> page_next (pool_page b r) = INVALID_PAGE_ID \<and> pool_idle b' \<and> pool_view b' = pool_view b)
        (\<lambda>e b'. e = ValueError \<and> pool_inv b') b'"
        using True b' by (simp add: wp_return wp_raise pool_idle_def)
    qed
  next
    case False
    have "wp (fetch_page p) (\<lambda>_ _. False) (\<lambda>e s'. e = ValueError \<and> pool_inv s'
      \<and> pool_view s' = (pool_view b)\<lparr>v_avail := v_avail (pool_view b) - 1\<rparr> \<and> pool_stale s' = pool_stale b) b"
      using Suc.prems(1) False by (intro fetch_page_missing) (simp_all add: pool_idle_def)
    then show ?thesis unfolding find_last_page_loop.simps wp_bind by (rule wp_mono) auto
  qed
qed

lemma find_last_page_stops:
  assumes "pool_idle b"
  shows "wp (find_last_page first)
    (\<lambda>r b'. r < pool_count b \<and> page_next (pool_page b r) = INVALID_PAGE_ID \<and> pool_idle b' \<and> pool_view b' = pool_view b)
    (\<lambda>e b'. e = ValueError \<and> pool_inv b') b"
  using find_last_page_loop_stops [OF assms, of "[first]" first "[]" "pool_count b + 1"]
  by (simp add: find_last_page_def wp_bind wp_gets del: find_last_page_loop.simps)

text \<open>On a chain without repetitions it returns the last page.\<close>

lemma find_last_page_loop_chain:
  assumes "pool_idle b" and "is_chain (pool_page b) (p # ps)" and "distinct (p # ps)"
    and "set ps \<inter> set seen = {}" and "INVALID_PAGE_ID \<notin> set (p # ps)"
    and "\<forall>q \<in> set (p # ps). q < pool_count b" and "length ps < k"
  shows "wp (find_last_page_loop k seen p)
    (\<lambda>r b'. r = last (p # ps) \<and> pool_idle b' \<and> pool_view b' = pool_view b) (\<lambda>_ _. False) b"
  using assms
proof (induction ps arbitrary: k b seen p)
  case Nil
  then obtain k' where k: "k = Suc k'" by (cases k) auto
  show ?case unfolding k by (rule find_last_page_step) (use Nil in \<open>auto simp: wp_return\<close>)
next
  case (Cons q ps)
  then obtain k' where k: "k = Suc k'" by (cases k) auto
  show ?case unfolding k
  proof (rule find_last_page_step)
    fix b' assume b': "pool_idle b'" "pool_view b' = pool_view b"
    note v = pool_view_eqD [OF b'(2), unfolded pool_view_sel]
    have "wp (find_last_page_loop k' (q # seen) q)
      (\<lambda>r b''. r = last (q # ps) \<and> pool_idle b'' \<and> pool_view b'' = pool_view b') (\<lambda>_ _. False) b'"
      by (rule Cons.IH) (use b' v Cons.prems k in auto)
    then show "wp (if page_next (pool_page b p) = INVALID_PAGE_ID then py_return p
          else if page_next (pool_page b p) \<in> set seen then py_raise ValueError
          else find_last_page_loop k' (page_next (pool_page b p) # seen) (page_next (pool_page b p)))
        (\<lambda>r b'. r = last (p # q # ps) \<and> pool_idle b' \<and> pool_view b' = pool_view b) (\<lambda>_ _. False) b'"
      using Cons.prems b' by auto
  qed (use Cons.prems in auto)
qed

lemma heap_open_existing:
  assumes inv: "heap_inv h"
  shows "wp (heap_open (Some (hf_first h)))
    (\<lambda>(f, l) b. heap_inv \<lparr>hf_first = f, hf_last = l, hf_pool = b\<rparr>
      \<and> f = hf_first h \<and> l = hf_last h \<and> pool_view b = pool_view (hf_pool h)) (\<lambda>_ _. False) (hf_pool h)"
proof -
  have on: "heap_on (heap_pages h) h" using inv by (simp add: heap_inv_def)
  note P = heap_on_pages [OF on]
  obtain p ps where ps: "heap_pages h = p # ps" using on by (cases "heap_pages h") (auto simp: heap_on_def)
  have idle: "pool_idle (hf_pool h)" using inv by (simp add: heap_inv_def heap_idle_def pool_idle_def)
  have first: "hf_first h = p" using on ps by (simp add: heap_on_def)
  have "wp (find_last_page_loop (pool_count (hf_pool h) + 1) [p] p)
    (\<lambda>r b'. r = last (p # ps) \<and> pool_idle b' \<and> pool_view b' = pool_view (hf_pool h)) (\<lambda>_ _. False) (hf_pool h)"
    by (rule find_last_page_loop_chain [OF idle])
      (use on P ps in \<open>auto simp: heap_on_def strict_sorted_iff\<close>)
  then show ?thesis
    unfolding first heap_open_def option.case wp_bind wp_return find_last_page_def wp_gets
  proof (rule wp_mono, goal_cases)
    case (1 r b)
    then have same: "pool_count b = pool_count (hf_pool h)" "pool_page b = heap_page h"
      "pool_pins b = pool_pins (hf_pool h)" by (auto simp: pool_view_def)
    have l: "r = hf_last h" using 1 on ps by (simp add: heap_on_def)
    let ?h = "\<lparr>hf_first = p, hf_last = r, hf_pool = b\<rparr>"
    have "heap_on (p # ps) h" using on ps by simp
    then have "heap_on (p # ps) ?h" using l by (auto simp: heap_on_def same)
    then have "heap_inv ?h"
      using heap_invI(1) [of "p # ps" ?h] 1 inv l by (simp add: heap_inv_def heap_idle_def pool_idle_def same)
    with 1 first l show ?case by simp
  qed simp
qed

lemma heap_open_new:
  assumes b: "pool_inv b" "pool_stale b = {}" "2 \<le> v_avail (pool_view b)" and cnt: "pool_count b < INVALID_PAGE_ID"
  shows "wp (heap_open None)
    (\<lambda>(f, l) b'. heap_inv \<lparr>hf_first = f, hf_last = l, hf_pool = b'\<rparr> \<and> f = pool_count b
      \<and> heap_map \<lparr>hf_first = f, hf_last = l, hf_pool = b'\<rparr> = Map.empty
      \<and> pool_count b' = pool_count b + 1
      \<and> (\<forall>q < pool_count b. pool_page b' q = pool_page b q)) (\<lambda>_ _. False) b"
    (is "wp _ ?Q _ _")
proof -
  let ?n = "pool_count b"
  have "wp new_page (\<lambda>p. wp (buf_modify p init_heap_page) (\<lambda>_. wp (unpin_page p True) (\<lambda>_ b'.
      wp (find_last_page p) (\<lambda>l. ?Q (p, l)) (\<lambda>_ _. False) b') (\<lambda>_ _. False)) (\<lambda>_ _. False)) (\<lambda>_ _. False) b"
  proof (rule wp_new_heap_page [OF b(1)])
    fix b1 d assume b1: "pool_inv b1" "pool_stale b1 \<subseteq> pool_stale b"
      "pool_view b1 = (pool_view b)\<lparr>v_count := ?n + 1, v_page := (pool_page b)(?n := d)\<rparr>"
      and d: "heap_page_ok d" "page_tuples d = []" "page_next d = INVALID_PAGE_ID"
    note v1 = pool_view_eqD [OF b1(3), simplified]
    have idle: "pool_idle b1" using b1 b by (auto simp: pool_idle_def)
    have "wp (find_last_page_loop (pool_count b1 + 1) [?n] ?n)
      (\<lambda>r b'. r = last [?n] \<and> pool_idle b' \<and> pool_view b' = pool_view b1) (\<lambda>_ _. False) b1"
      by (rule find_last_page_loop_chain [OF idle]) (use d v1 cnt in auto)
    then show "wp (find_last_page ?n) (\<lambda>l. ?Q (?n, l)) (\<lambda>_ _. False) b1"
      unfolding find_last_page_def wp_bind wp_gets
    proof (rule wp_mono, goal_cases)
      case (1 r b2)
      then have v2: "pool_count b2 = ?n + 1" "pool_page b2 = (pool_page b)(?n := d)" "pool_pins b2 = pool_pins b"
        using pool_view_eqD [of b2 "pool_view b1"] v1 by (simp_all add: pool_view_sel)
      let ?h = "\<lparr>hf_first = ?n, hf_last = r, hf_pool = b2\<rparr>"
      have on: "heap_on [?n] ?h" using 1 d cnt by (simp add: heap_on_def v2)
      have "heap_idle ?h" "2 \<le> v_avail (pool_view (hf_pool ?h))" "pool_pins (hf_pool ?h) (hf_last ?h) = 0"
        using 1 b b1(3) pool_pins_beyond [OF b(1), of ?n] by (simp_all add: heap_idle_def pool_idle_def v2)
      note I = heap_invI [OF on this]
      have "heap_map ?h = Map.empty" using d(2) by (auto simp: heap_map_def I(2) v2 tuple_at_tuples fun_eq_iff)
      with I(1) v2 show ?case by simp
    qed simp
  qed (use b in simp)
  then show ?thesis
    by (simp add: heap_open_def wp_fun wp_return_fun)
qed

section \<open>The contract of a row store\<close>

text \<open>
  \<open>rs_map\<close> is what the store holds and \<open>rs_addr\<close> the identifiers that may be passed to it:
  those whose page belongs to the store. Insertion returns an identifier that was free;
  every other operation works on the one entry it names.
\<close>

locale row_store =
  fixes rs_inv :: "'s \<Rightarrow> bool"
    and rs_map :: "'s \<Rightarrow> rid \<Rightarrow> bytes option"
    and rs_addr :: "'s \<Rightarrow> rid \<Rightarrow> bool"
    and rs_fits :: "'s \<Rightarrow> bytes \<Rightarrow> bool"
    and rs_insert :: "bytes \<Rightarrow> ('s, rid) py"
    and rs_get :: "rid \<Rightarrow> ('s, bytes option) py"
    and rs_update :: "rid \<Rightarrow> bytes \<Rightarrow> ('s, bool) py"
    and rs_delete :: "rid \<Rightarrow> ('s, bool) py"
    and rs_scan :: "('s, (rid \<times> bytes) list) py"
  assumes addr_map: "rs_inv s \<Longrightarrow> rs_map s r \<noteq> None \<Longrightarrow> rs_addr s r"
    and insert_law: "rs_inv s \<Longrightarrow> rs_fits s row \<Longrightarrow>
      wp (rs_insert row) (\<lambda>r s'. rs_inv s' \<and> rs_map s r = None \<and> rs_map s' = (rs_map s)(r \<mapsto> row)
        \<and> (\<forall>r'. rs_addr s r' \<longrightarrow> rs_addr s' r')) (\<lambda>_ _. False) s"
    and get_law: "rs_inv s \<Longrightarrow> rs_addr s r \<Longrightarrow>
      wp (rs_get r) (\<lambda>x s'. x = rs_map s r \<and> rs_inv s' \<and> rs_map s' = rs_map s \<and> rs_addr s' = rs_addr s)
        (\<lambda>_ _. False) s"
    and update_law: "rs_inv s \<Longrightarrow> rs_addr s r \<Longrightarrow>
      wp (rs_update r row) (\<lambda>x s'. rs_inv s' \<and> rs_addr s' = rs_addr s
        \<and> x = (case rs_map s r of None \<Rightarrow> False | Some old \<Rightarrow> length old = length row)
        \<and> rs_map s' = (if x then (rs_map s)(r \<mapsto> row) else rs_map s)) (\<lambda>_ _. False) s"
    and delete_law: "rs_inv s \<Longrightarrow> rs_addr s r \<Longrightarrow>
      wp (rs_delete r) (\<lambda>x s'. rs_inv s' \<and> rs_addr s' = rs_addr s
        \<and> x = (rs_map s r \<noteq> None) \<and> rs_map s' = (rs_map s)(r := None)) (\<lambda>_ _. False) s"
    and scan_law: "rs_inv s \<Longrightarrow>
      wp rs_scan (\<lambda>rows s'. rs_inv s' \<and> rs_map s' = rs_map s \<and> rs_addr s' = rs_addr s
        \<and> sorted_wrt (<) (map fst rows) \<and> (\<forall>r b. (r, b) \<in> set rows \<longleftrightarrow> rs_map s r = Some b)) (\<lambda>_ _. False) s"
begin

text \<open>A row that was inserted is returned by the next \<open>rs_get\<close>, and the others are as before.\<close>

lemma get_after_insert:
  assumes "rs_inv s" and "rs_fits s row"
  shows "wp (py_bind (rs_insert row) (\<lambda>r. py_bind (rs_get r) (\<lambda>x. py_return (r, x))))
    (\<lambda>(r, x) s'. x = Some row \<and> rs_map s r = None \<and> rs_inv s' \<and> rs_map s' = (rs_map s)(r \<mapsto> row))
    (\<lambda>_ _. False) s"
  unfolding wp_fun wp_return_fun
proof (rule wp_mono [OF insert_law [OF assms]], goal_cases)
  case (1 r s')
  then have "rs_addr s' r" using addr_map [of s' r] by auto
  with 1 get_law [of s' r] show ?case by (auto elim!: wp_mono)
qed simp

lemma get_after_delete:
  assumes "rs_inv s" and "rs_addr s r"
  shows "wp (py_seq (rs_delete r) (rs_get r)) (\<lambda>x s'. x = None \<and> rs_inv s' \<and> rs_map s' = (rs_map s)(r := None))
    (\<lambda>_ _. False) s"
  unfolding wp_fun
proof (rule wp_mono [OF delete_law [OF assms]], goal_cases)
  case (1 x s')
  with get_law [of s' r] assms(2) show ?case by (auto elim!: wp_mono)
qed simp

text \<open>A scan after an insertion sees the old rows and the new one.\<close>

lemma scan_after_insert:
  assumes "rs_inv s" and "rs_fits s row"
  shows "wp (py_bind (rs_insert row) (\<lambda>r. py_bind rs_scan (\<lambda>rows. py_return (r, rows))))
    (\<lambda>(r, rows) s'. rs_inv s' \<and> distinct (map fst rows) \<and> rs_map s r = None
      \<and> set rows = insert (r, row) {(r', b). rs_map s r' = Some b}) (\<lambda>_ _. False) s"
  unfolding wp_fun wp_return_fun
proof (rule wp_mono [OF insert_law [OF assms]], goal_cases)
  case (1 r s')
  then have "wp rs_scan (\<lambda>rows s''. rs_inv s'' \<and> rs_map s'' = rs_map s' \<and> rs_addr s'' = rs_addr s'
        \<and> sorted_wrt (<) (map fst rows) \<and> (\<forall>r b. (r, b) \<in> set rows \<longleftrightarrow> rs_map s' r = Some b)) (\<lambda>_ _. False) s'"
    by (intro scan_law) simp
  then show ?case
  proof (rule wp_mono, goal_cases)
    case (1 rows s'')
    have "q \<in> set rows \<longleftrightarrow> q \<in> insert (r, row) {(r', b). rs_map s r' = Some b}" for q
      using 1 \<open>rs_inv s' \<and> _\<close> by (cases q) auto
    then show ?case using 1 \<open>rs_inv s' \<and> _\<close> by (auto simp: strict_sorted_iff)
  qed simp
qed simp

end

text \<open>A row fits if it fits into an empty page and the file can still grow by a page.\<close>

definition heap_fits :: "heapfile \<Rightarrow> bytes \<Rightarrow> bool" where
  "heap_fits h row \<longleftrightarrow> HEAP_HEADER_SIZE + SLOT_SIZE + length row \<le> PAGE_SIZE
     \<and> pool_count (hf_pool h) < INVALID_PAGE_ID"

definition heap_addr :: "heapfile \<Rightarrow> rid \<Rightarrow> bool" where
  "heap_addr h r \<longleftrightarrow> rid_page_id r \<in> set (heap_pages h)"

interpretation heap: row_store heap_inv heap_map heap_addr heap_fits heap_insert heap_get heap_update_in_place
  heap_delete heap_scan
proof
  fix h :: heapfile and r :: rid and row :: bytes
  show "heap_inv h \<Longrightarrow> heap_map h r \<noteq> None \<Longrightarrow> heap_addr h r"
    by (simp add: heap_map_def heap_addr_def split: if_splits)
  show "heap_inv h \<Longrightarrow> heap_fits h row \<Longrightarrow>
      wp (heap_insert row) (\<lambda>r h'. heap_inv h' \<and> heap_map h r = None \<and> heap_map h' = (heap_map h)(r \<mapsto> row)
        \<and> (\<forall>r'. heap_addr h r' \<longrightarrow> heap_addr h' r')) (\<lambda>_ _. False) h"
    by (rule wp_mono [OF heap_insert_map]) (auto simp: heap_fits_def heap_addr_def)
  show "heap_inv h \<Longrightarrow> heap_addr h r \<Longrightarrow>
      wp (heap_get r) (\<lambda>x h'. x = heap_map h r \<and> heap_inv h' \<and> heap_map h' = heap_map h \<and> heap_addr h' = heap_addr h)
        (\<lambda>_ _. False) h"
    by (rule wp_mono [OF heap_get_map]) (auto simp: heap_addr_def fun_eq_iff)
  show "heap_inv h \<Longrightarrow> heap_addr h r \<Longrightarrow>
      wp (heap_update_in_place r row) (\<lambda>x h'. heap_inv h' \<and> heap_addr h' = heap_addr h
        \<and> x = (case heap_map h r of None \<Rightarrow> False | Some old \<Rightarrow> length old = length row)
        \<and> heap_map h' = (if x then (heap_map h)(r \<mapsto> row) else heap_map h)) (\<lambda>_ _. False) h"
    by (rule wp_mono [OF heap_update_map]) (auto simp: heap_addr_def fun_eq_iff)
  show "heap_inv h \<Longrightarrow> heap_addr h r \<Longrightarrow>
      wp (heap_delete r) (\<lambda>x h'. heap_inv h' \<and> heap_addr h' = heap_addr h
        \<and> x = (heap_map h r \<noteq> None) \<and> heap_map h' = (heap_map h)(r := None)) (\<lambda>_ _. False) h"
    by (rule wp_mono [OF heap_delete_map]) (auto simp: heap_addr_def fun_eq_iff)
  show "heap_inv h \<Longrightarrow>
      wp heap_scan (\<lambda>rows h'. heap_inv h' \<and> heap_map h' = heap_map h \<and> heap_addr h' = heap_addr h
        \<and> sorted_wrt (<) (map fst rows) \<and> (\<forall>r b. (r, b) \<in> set rows \<longleftrightarrow> heap_map h r = Some b)) (\<lambda>_ _. False) h"
    by (rule wp_mono [OF heap_scan_spec])
      (auto simp: heap_rows_sorted heap_rows_set heap_map_def heap_addr_def fun_eq_iff)
qed

section \<open>Properties\<close>

text \<open>
  C22: \<^verbatim>\<open>HeapFile.insert\<close> of a row that fits a page returns an identifier that was free and
  under which \<^verbatim>\<open>get\<close> then returns the row; every other row is as before, also when the
  insertion has added a page to the chain.
\<close>

theorem heap_insert_then_get:
  assumes "heap_inv h" and "heap_fits h row"
  shows "wp (py_bind (heap_insert row) (\<lambda>r. py_bind (heap_get r) (\<lambda>x. py_return (r, x))))
    (\<lambda>(r, x) h'. x = Some row \<and> heap_map h r = None \<and> heap_inv h' \<and> heap_map h' = (heap_map h)(r \<mapsto> row))
    (\<lambda>_ _. False) h"
  using assms by (rule heap.get_after_insert)

text \<open>A heap file just created in an empty database.\<close>

definition fresh_heap :: heapfile where
  "fresh_heap = (case heap_open None (pool_init (disk_open None) 2) of
     (r, b) \<Rightarrow> (case r of Inl _ \<Rightarrow> \<lparr>hf_first = 0, hf_last = 0, hf_pool = b\<rparr>
                | Inr (f, l) \<Rightarrow> \<lparr>hf_first = f, hf_last = l, hf_pool = b\<rparr>))"

lemma fresh_heap: "heap_inv fresh_heap" "heap_map fresh_heap = Map.empty" "pool_count (hf_pool fresh_heap) = 1"
proof -
  have "dm_num_pages (disk_open None) = 0" by (simp add: disk_open_def Let_def)
  then have cnt: "pool_count (pool_init (disk_open None) 2) = 0" by (simp add: pool_init_def)
  have "wp (heap_open None)
    (\<lambda>(f, l) b'. heap_inv \<lparr>hf_first = f, hf_last = l, hf_pool = b'\<rparr> \<and> f = pool_count (pool_init (disk_open None) 2)
      \<and> heap_map \<lparr>hf_first = f, hf_last = l, hf_pool = b'\<rparr> = Map.empty
      \<and> pool_count b' = pool_count (pool_init (disk_open None) 2) + 1
      \<and> (\<forall>q < pool_count (pool_init (disk_open None) 2). pool_page b' q = pool_page (pool_init (disk_open None) 2) q))
    (\<lambda>_ _. False) (pool_init (disk_open None) 2)"
    by (rule heap_open_new) (use cnt in \<open>simp_all add: pool_init_inv [OF disk_open_inv] INVALID_PAGE_ID_def\<close>)
  then show "heap_inv fresh_heap" "heap_map fresh_heap = Map.empty" "pool_count (hf_pool fresh_heap) = 1"
    by (auto simp: wp_total fresh_heap_def cnt)
qed

lemma fresh_heap_fits: "length row \<le> 4083 \<Longrightarrow> heap_fits fresh_heap row"
  by (simp add: heap_fits_def fresh_heap page_consts INVALID_PAGE_ID_def)

theorem heap_insert_then_get_witness:
  "wp (py_bind (heap_insert [1, 2, 3]) (\<lambda>r. py_bind (heap_get r) (\<lambda>x. py_return (r, x))))
    (\<lambda>(r, x) h'. x = Some [1, 2, 3] \<and> heap_map h' = [r \<mapsto> [1, 2, 3]]) (\<lambda>_ _. False) fresh_heap"
  by (rule wp_mono [OF heap_insert_then_get]) (use fresh_heap fresh_heap_fits in auto)

text \<open>
  C23: \<^verbatim>\<open>HeapFile.scan\<close> yields every live row of the file exactly once, in ascending order of
  the row identifiers, and leaves the file unchanged.
\<close>

theorem heap_scan_complete:
  assumes "heap_inv h"
  shows "wp heap_scan (\<lambda>rows h'. heap_inv h' \<and> heap_map h' = heap_map h
      \<and> sorted_wrt (<) (map fst rows) \<and> map_of rows = heap_map h) (\<lambda>_ _. False) h"
proof (rule wp_mono [OF heap.scan_law [OF assms]], goal_cases)
  case (1 rows h')
  have "map_of rows r = heap_map h r" for r
  proof (cases "heap_map h r")
    case None
    then show ?thesis using 1 by (auto simp: map_of_eq_None_iff)
  next
    case (Some b)
    then have "(r, b) \<in> set rows" using 1 by simp
    moreover have "distinct (map fst rows)" using 1 by (simp add: strict_sorted_iff)
    ultimately show ?thesis using Some by simp
  qed
  with 1 show ?case by auto
qed simp

theorem heap_scan_complete_witness:
  "wp heap_scan (\<lambda>rows h'. heap_inv h' \<and> heap_map h' = heap_map fresh_heap
      \<and> sorted_wrt (<) (map fst rows) \<and> map_of rows = heap_map fresh_heap) (\<lambda>_ _. False) fresh_heap"
  by (rule heap_scan_complete [OF fresh_heap(1)])

text \<open>
  \<^verbatim>\<open>HeapFile.update_in_place\<close> succeeds exactly when the row exists and has the length of
  the new bytes, and then replaces that row and no other; otherwise nothing changes.
\<close>

theorem heap_update_only_same_length:
  assumes "heap_inv h" and "heap_addr h r"
  shows "wp (heap_update_in_place r row) (\<lambda>x h'. heap_inv h'
      \<and> x = (\<exists>old. heap_map h r = Some old \<and> length old = length row)
      \<and> heap_map h' = (if x then (heap_map h)(r \<mapsto> row) else heap_map h)) (\<lambda>_ _. False) h"
  by (rule wp_mono [OF heap.update_law [OF assms]]) (auto split: option.splits)

lemma fresh_heap_addr: "heap_addr fresh_heap (RID (hf_last fresh_heap) i)"
  using heap_last_in [OF fresh_heap(1)] by (simp add: heap_addr_def)

theorem heap_update_only_same_length_witness:
  "wp (heap_update_in_place (RID (hf_last fresh_heap) 0) [7]) (\<lambda>x h'. \<not> x \<and> heap_map h' = Map.empty)
    (\<lambda>_ _. False) fresh_heap"
  by (rule wp_mono [OF heap_update_only_same_length [OF fresh_heap(1) fresh_heap_addr]]) (auto simp: fresh_heap)

text \<open>
  \<^verbatim>\<open>HeapFile.delete\<close> removes the row it names and no other, and says whether there was one.
\<close>

theorem heap_delete_removes:
  assumes "heap_inv h" and "heap_addr h r"
  shows "wp (heap_delete r) (\<lambda>x h'. heap_inv h' \<and> x = (heap_map h r \<noteq> None)
      \<and> heap_map h' = (heap_map h)(r := None)) (\<lambda>_ _. False) h"
  by (rule wp_mono [OF heap.delete_law [OF assms]]) auto

theorem heap_delete_removes_witness:
  "wp (heap_delete (RID (hf_last fresh_heap) 3)) (\<lambda>x h'. \<not> x \<and> heap_map h' = Map.empty)
    (\<lambda>_ _. False) fresh_heap"
  by (rule wp_mono [OF heap_delete_removes [OF fresh_heap(1) fresh_heap_addr]]) (auto simp: fresh_heap)

text \<open>
  a row is refused, with nothing changed, exactly when it does not fit into an empty page.
\<close>

theorem heap_insert_size_limit:
  assumes "heap_inv h" and "pool_count (hf_pool h) < INVALID_PAGE_ID"
  shows "if length row \<le> 4083 then \<exists>r h'. heap_insert row h = (Inr r, h')
         else heap_insert row h = (Inl ValueError, h)"
proof (cases "length row \<le> 4083")
  case True
  then have "heap_fits h row" using assms(2) by (simp add: heap_fits_def page_consts)
  from heap.insert_law [OF assms(1) this] True show ?thesis by (auto simp: wp_total)
next
  case False
  then show ?thesis using heap_insert_too_long [of row h] by (simp add: page_consts)
qed

theorem heap_insert_size_limit_witness:
  "heap_insert (replicate 4084 0) fresh_heap = (Inl ValueError, fresh_heap)"
  using heap_insert_size_limit [OF fresh_heap(1), of "replicate 4084 0"] fresh_heap(3)
  by (simp add: INVALID_PAGE_ID_def)

text \<open>
  C33: \<^verbatim>\<open>_find_last_page\<close> stops on every file, corrupt or not: it returns a page that has no
  successor, or raises \<^verbatim>\<open>ValueError\<close>.
\<close>

theorem find_last_page_terminates:
  assumes "pool_idle b"
  shows "wp (find_last_page first)
    (\<lambda>r b'. page_next (pool_page b r) = INVALID_PAGE_ID \<and> pool_view b' = pool_view b)
    (\<lambda>e _. e = ValueError) b"
  by (rule wp_mono [OF find_last_page_stops [OF assms]]) auto

lemma pool_of_three_idle: "pool_idle pool_of_three"
  using pool_of_three by (simp add: pool_ready_def pool_idle_def)

theorem find_last_page_terminates_witness:
  "wp (find_last_page 1)
    (\<lambda>r b'. page_next (pool_page pool_of_three r) = INVALID_PAGE_ID \<and> pool_view b' = pool_view pool_of_three)
    (\<lambda>e _. e = ValueError) pool_of_three"
  by (rule find_last_page_terminates [OF pool_of_three_idle])

text \<open>
  Opening an existing chain finds its last page again and changes nothing, so the file
  opened again holds the same rows.
\<close>

theorem heap_reopen:
  assumes "heap_inv h"
  shows "wp (heap_open (Some (hf_first h)))
    (\<lambda>(f, l) b. f = hf_first h \<and> l = hf_last h \<and> heap_inv \<lparr>hf_first = f, hf_last = l, hf_pool = b\<rparr>
      \<and> heap_map \<lparr>hf_first = f, hf_last = l, hf_pool = b\<rparr> = heap_map h) (\<lambda>_ _. False) (hf_pool h)"
proof (rule wp_mono [OF heap_open_existing [OF assms]], goal_cases)
  case (1 fl b)
  obtain f l where fl: "fl = (f, l)" by (cases fl)
  with 1 have v: "pool_count b = pool_count (hf_pool h)" "pool_page b = heap_page h" by (auto simp: pool_view_def)
  have "heap_pages \<lparr>hf_first = hf_first h, hf_last = hf_last h, hf_pool = b\<rparr> = heap_pages h"
    by (simp add: heap_pages_def v)
  with 1 fl show ?case by (auto simp: heap_map_def v fun_eq_iff)
qed simp

theorem heap_reopen_witness:
  "wp (heap_open (Some (hf_first fresh_heap)))
    (\<lambda>(f, l) b. heap_map \<lparr>hf_first = f, hf_last = l, hf_pool = b\<rparr> = Map.empty) (\<lambda>_ _. False) (hf_pool fresh_heap)"
  by (rule wp_mono [OF heap_reopen [OF fresh_heap(1)]]) (auto simp: fresh_heap)

end
