(* ===== verification/Py_Numbers.thy ===== *)
theory Py_Numbers
  imports Prelude "HOL-Library.Product_Lexorder"
begin

text \<open>
  The numbers and conversions of Python that the program uses: binary64 floats as bit
  patterns, \<^verbatim>\<open>int(v)\<close>, \<^verbatim>\<open>float(v)\<close>, \<^verbatim>\<open>str(v)\<close> and \<^verbatim>\<open>bool(v)\<close> on the values a column can
  hold. A float is the 64-bit word \<^verbatim>\<open>struct.pack("<d", x)\<close> stores; conversions to floats
  round to nearest, ties to even. Digits in texts are the ASCII digits.
\<close>

section \<open>Values\<close>

datatype pyval = VNone | VBool bool | VInt int | VFloat "64 word" | VStr ustring

section \<open>Binary64 floats\<close>

definition f_negative :: "64 word \<Rightarrow> bool" where
  "f_negative f \<longleftrightarrow> 2 ^ 63 \<le> unat f"

definition f_exponent :: "64 word \<Rightarrow> nat" where
  "f_exponent f = unat f div 2 ^ 52 mod 2048"

definition f_fraction :: "64 word \<Rightarrow> nat" where
  "f_fraction f = unat f mod 2 ^ 52"

definition f_is_nan :: "64 word \<Rightarrow> bool" where
  "f_is_nan f \<longleftrightarrow> f_exponent f = 2047 \<and> f_fraction f \<noteq> 0"

definition f_is_inf :: "64 word \<Rightarrow> bool" where
  "f_is_inf f \<longleftrightarrow> f_exponent f = 2047 \<and> f_fraction f = 0"

definition f_is_zero :: "64 word \<Rightarrow> bool" where
  "f_is_zero f \<longleftrightarrow> f_exponent f = 0 \<and> f_fraction f = 0"

text \<open>The magnitude of a finite float as a fraction of two natural numbers.\<close>

definition f_magnitude :: "64 word \<Rightarrow> nat \<times> nat" where
  "f_magnitude f =
     (let e = f_exponent f; m = (if e = 0 then f_fraction f else 2 ^ 52 + f_fraction f)
      in if 1075 \<le> e then (m * 2 ^ (e - 1075), 1) else (m, 2 ^ (1075 - max 1 e)))"

text \<open>The largest \<open>k\<close> with \<open>2 ^ k \<le> n\<close>, for \<open>0 < n\<close>.\<close>

function floor_log2 :: "nat \<Rightarrow> nat" where
  "floor_log2 n = (if n < 2 then 0 else Suc (floor_log2 (n div 2)))"
  by pat_completeness auto
termination
  by (relation "measure id") auto

declare floor_log2.simps [simp del]

definition round_half_even :: "nat \<Rightarrow> nat \<Rightarrow> nat" where
  "round_half_even n d =
     (let q = n div d; r = n mod d
      in if d < 2 * r \<or> d = 2 * r \<and> odd q then q + 1 else q)"

text \<open>
  The exponent \<open>k\<close> of the last place kept for the fraction \<open>n / d\<close>, shifted by \<open>1074\<close> so
  that it is a natural number: \<open>0\<close> is the last place of the subnormal numbers.
\<close>

definition last_place :: "nat \<Rightarrow> nat \<Rightarrow> nat" where
  "last_place n d =
     (let l = int (floor_log2 n) - int (floor_log2 d);
          below = (if 0 \<le> l then n < d * 2 ^ nat l else n * 2 ^ nat (- l) < d);
          lg = (if below then l - 1 else l)
      in nat (lg - 52 + 1074))"

definition f_max_bits :: nat where
  "f_max_bits = 2047 * 2 ^ 52"

text \<open>
  The bits of the magnitude nearest to \<open>n / d\<close>; a carry out of the fraction moves into
  the exponent, and what is too large becomes infinity.
\<close>

definition round_magnitude :: "nat \<Rightarrow> nat \<Rightarrow> nat" where
  "round_magnitude n d =
     (if n = 0 then 0
      else let k = last_place n d;
               q = (if 1074 \<le> k then round_half_even n (d * 2 ^ (k - 1074))
                    else round_half_even (n * 2 ^ (1074 - k)) d)
           in min f_max_bits (k * 2 ^ 52 + q))"

definition f_make :: "bool \<Rightarrow> nat \<Rightarrow> 64 word" where
  "f_make neg bits = word_of_nat (bits + (if neg then 2 ^ 63 else 0))"

definition f_neg :: "64 word \<Rightarrow> 64 word" where
  "f_neg f = f + 2 ^ 63"

definition float_of_int :: "int \<Rightarrow> 64 word res" where
  "float_of_int i =
     (let bits = round_magnitude (nat \<bar>i\<bar>) 1
      in if bits = f_max_bits then Inl OverflowError else Inr (f_make (i < 0) bits))"

definition int_of_float :: "64 word \<Rightarrow> int res" where
  "int_of_float f =
     (if f_is_nan f then Inl ValueError
      else if f_is_inf f then Inl OverflowError
      else let (n, d) = f_magnitude f; q = int (n div d)
           in Inr (if f_negative f then - q else q))"

section \<open>Numbers as text\<close>

definition is_digit :: "nat \<Rightarrow> bool" where
  "is_digit c \<longleftrightarrow> 48 \<le> c \<and> c \<le> 57"

function nat_digits :: "nat \<Rightarrow> ustring" where
  "nat_digits n = (if n < 10 then [48 + n] else nat_digits (n div 10) @ [48 + n mod 10])"
  by pat_completeness auto
termination
  by (relation "measure id") auto

declare nat_digits.simps [simp del]

definition digits_nat :: "ustring \<Rightarrow> nat" where
  "digits_nat = foldl (\<lambda>acc c. 10 * acc + (c - 48)) 0"

definition int_str :: "int \<Rightarrow> ustring" where
  "int_str i = (if i < 0 then 45 # nat_digits (nat (- i)) else nat_digits (nat i))"

text \<open>White space that \<^verbatim>\<open>str.strip\<close> removes, for the ASCII range.\<close>

definition is_space :: "nat \<Rightarrow> bool" where
  "is_space c \<longleftrightarrow> 9 \<le> c \<and> c \<le> 13 \<or> 28 \<le> c \<and> c \<le> 32"

definition py_strip :: "ustring \<Rightarrow> ustring" where
  "py_strip s = rev (dropWhile is_space (rev (dropWhile is_space s)))"

definition strip_sign :: "ustring \<Rightarrow> bool \<times> ustring" where
  "strip_sign s = (case s of [] \<Rightarrow> (False, [])
     | c # cs \<Rightarrow> if c = 45 then (True, cs) else if c = 43 then (False, cs) else (False, s))"

text \<open>
  A non-empty run of digits in which single underscores may stand between two digits:
  the digits without them, or \<open>None\<close>.
\<close>

fun digit_run :: "ustring \<Rightarrow> ustring option" where
  "digit_run [] = None"
| "digit_run [c] = (if is_digit c then Some [c] else None)"
| "digit_run (c # d # cs) =
     (if \<not> is_digit c then None
      else map_option (Cons c) (if d = 95 then digit_run cs else digit_run (d # cs)))"

definition int_of_str :: "ustring \<Rightarrow> int res" where
  "int_of_str s =
     (let (neg, ds) = strip_sign (py_strip s)
      in case digit_run ds of None \<Rightarrow> Inl ValueError
         | Some ds' \<Rightarrow> Inr (if neg then - int (digits_nat ds') else int (digits_nat ds')))"

definition to_lower :: "nat \<Rightarrow> nat" where
  "to_lower c = (if 65 \<le> c \<and> c \<le> 90 then c + 32 else c)"

text \<open>
  The decimal texts \<^verbatim>\<open>float\<close> reads: digits with an optional point and an optional
  exponent. The result is the digits read as one number and the power of ten.
\<close>

definition opt_digit_run :: "ustring \<Rightarrow> ustring option" where
  "opt_digit_run s = (if s = [] then Some [] else digit_run s)"

definition decimal_parts :: "ustring \<Rightarrow> (nat \<times> int) option" where
  "decimal_parts s =
     (let mant = takeWhile (\<lambda>c. c \<noteq> 101 \<and> c \<noteq> 69) s;
          expo = drop (length mant) s;
          ip = takeWhile (\<lambda>c. c \<noteq> 46) mant;
          fp = drop (Suc (length ip)) mant
      in case (opt_digit_run ip, opt_digit_run fp) of
           (Some i, Some f) \<Rightarrow>
             if i = [] \<and> f = [] then None
             else (case expo of
                     [] \<Rightarrow> Some (digits_nat (i @ f), - int (length f))
                   | _ # e \<Rightarrow> (let (neg, ds) = strip_sign e
                        in case digit_run ds of None \<Rightarrow> None
                           | Some ds' \<Rightarrow> Some (digits_nat (i @ f),
                               (if neg then - int (digits_nat ds') else int (digits_nat ds'))
                                 - int (length f))))
         | _ \<Rightarrow> None)"

definition round_decimal :: "nat \<Rightarrow> int \<Rightarrow> nat" where
  "round_decimal m e =
     (if 0 \<le> e then round_magnitude (m * 10 ^ nat e) 1 else round_magnitude m (10 ^ nat (- e)))"

definition float_of_str :: "ustring \<Rightarrow> 64 word res" where
  "float_of_str s =
     (let (neg, t) = strip_sign (py_strip s); l = map to_lower t
      in if l = u ''inf'' \<or> l = u ''infinity'' then Inr (f_make neg f_max_bits)
         else if l = u ''nan'' then Inr (f_make neg (f_max_bits + 2 ^ 51))
         else case decimal_parts t of None \<Rightarrow> Inl ValueError
              | Some (m, e) \<Rightarrow> Inr (f_make neg (round_decimal m e)))"

text \<open>
  \<^verbatim>\<open>repr\<close> of a float: the shortest decimal that reads back as the same float, and of
  those of that length the nearest to the exact value. \<open>decimal_exponent\<close> is the power of
  ten of the first digit; \<open>shortest_digits\<close> tries one digit after the other, seventeen at
  most, on the two neighbours of the exact value with that many digits.
\<close>

definition decimal_exponent :: "nat \<Rightarrow> nat \<Rightarrow> int" where
  "decimal_exponent n d =
     (if d \<le> n then int (length (nat_digits (n div d))) - 1
      else - int (length (takeWhile (\<lambda>k. n * 10 ^ k < d) [0..<400])))"

definition shortest_candidate :: "nat \<Rightarrow> nat \<Rightarrow> nat \<Rightarrow> nat \<Rightarrow> (nat \<times> int) option" where
  "shortest_candidate bits n d p =
     (let e = decimal_exponent n d - int p + 1;
          (n', d') = (if 0 \<le> e then (n, d * 10 ^ nat e) else (n * 10 ^ nat (- e), d));
          lo = n' div d'; hi = lo + 1;
          lo_ok = round_decimal lo e = bits; hi_ok = round_decimal hi e = bits
      in if lo_ok \<and> (\<not> hi_ok \<or> 2 * (n' mod d') < d' \<or> 2 * (n' mod d') = d' \<and> even lo)
         then Some (lo, e) else if hi_ok then Some (hi, e) else None)"

definition shortest_digits :: "nat \<Rightarrow> nat \<Rightarrow> nat \<Rightarrow> nat \<times> int" where
  "shortest_digits bits n d =
     (case List.map_filter (shortest_candidate bits n d) [1..<18] of [] \<Rightarrow> (0, 0) | x # _ \<Rightarrow> x)"

definition strip_zeros :: "ustring \<Rightarrow> ustring" where
  "strip_zeros ds = rev (dropWhile (\<lambda>c. c = 48) (rev ds))"

definition float_str :: "64 word \<Rightarrow> ustring" where
  "float_str f =
     (if f_is_nan f then u ''nan''
      else (if f_negative f then (#) 45 else id)
       (if f_is_inf f then u ''inf''
        else if f_is_zero f then u ''0.0''
        else let (n, d) = f_magnitude f;
                 (m, e) = shortest_digits (unat f mod 2 ^ 63) n d;
                 all_ds = nat_digits m; point = int (length all_ds) + e;
                 ds = strip_zeros all_ds; k = length ds
             in if 16 < point \<or> point \<le> - 4
                then [hd ds] @ (if k = 1 then [] else 46 # tl ds) @ [101] @
                     (if point < 1 then [45] else [43]) @
                     (let x = nat_digits (nat \<bar>point - 1\<bar>)
                      in if length x = 1 then 48 # x else x)
                else if point \<le> 0 then u ''0.'' @ replicate (nat (- point)) 48 @ ds
                else if int k \<le> point then ds @ replicate (nat point - k) 48 @ u ''.0''
                else take (nat point) ds @ [46] @ drop (nat point) ds))"

section \<open>Conversions of values\<close>

fun py_int :: "pyval \<Rightarrow> int res" where
  "py_int VNone = Inl TypeError"
| "py_int (VBool b) = Inr (if b then 1 else 0)"
| "py_int (VInt i) = Inr i"
| "py_int (VFloat f) = int_of_float f"
| "py_int (VStr s) = int_of_str s"

fun py_float :: "pyval \<Rightarrow> 64 word res" where
  "py_float VNone = Inl TypeError"
| "py_float (VBool b) = float_of_int (if b then 1 else 0)"
| "py_float (VInt i) = float_of_int i"
| "py_float (VFloat f) = Inr f"
| "py_float (VStr s) = float_of_str s"

fun py_str :: "pyval \<Rightarrow> ustring" where
  "py_str VNone = u ''None''"
| "py_str (VBool b) = (if b then u ''True'' else u ''False'')"
| "py_str (VInt i) = int_str i"
| "py_str (VFloat f) = float_str f"
| "py_str (VStr s) = s"

fun py_truthy :: "pyval \<Rightarrow> bool" where
  "py_truthy VNone = False"
| "py_truthy (VBool b) = b"
| "py_truthy (VInt i) = (i \<noteq> 0)"
| "py_truthy (VFloat f) = (\<not> f_is_zero f)"
| "py_truthy (VStr s) = (s \<noteq> [])"

section \<open>Comparisons of values\<close>

text \<open>
  Python compares booleans, integers and floats by their exact values and strings by their
  code points; \<^verbatim>\<open><\<close> on other pairs raises, \<^verbatim>\<open>==\<close> on them is false. A number is not-a-number,
  an infinity (negative or not) or a fraction with a positive denominator.
\<close>

datatype number = N_NaN | N_Inf bool | N_Frac int nat

definition float_number :: "64 word \<Rightarrow> number" where
  "float_number f =
     (if f_is_nan f then N_NaN else if f_is_inf f then N_Inf (f_negative f)
      else case f_magnitude f of (n, d) \<Rightarrow> N_Frac (if f_negative f then - int n else int n) d)"

fun py_number :: "pyval \<Rightarrow> number option" where
  "py_number (VBool b) = Some (N_Frac (if b then 1 else 0) 1)"
| "py_number (VInt i) = Some (N_Frac i 1)"
| "py_number (VFloat f) = Some (float_number f)"
| "py_number _ = None"

fun number_less :: "number \<Rightarrow> number \<Rightarrow> bool" where
  "number_less N_NaN _ = False"
| "number_less _ N_NaN = False"
| "number_less (N_Inf neg) (N_Inf neg') = (neg \<and> \<not> neg')"
| "number_less (N_Inf neg) (N_Frac _ _) = neg"
| "number_less (N_Frac _ _) (N_Inf neg) = (\<not> neg)"
| "number_less (N_Frac a b) (N_Frac c d) = (a * int d < c * int b)"

fun number_eq :: "number \<Rightarrow> number \<Rightarrow> bool" where
  "number_eq (N_Inf neg) (N_Inf neg') = (neg = neg')"
| "number_eq (N_Frac a b) (N_Frac c d) = (a * int d = c * int b)"
| "number_eq _ _ = False"

fun py_less :: "pyval \<Rightarrow> pyval \<Rightarrow> bool res" where
  "py_less (VStr s) (VStr t) = Inr (s < t)"
| "py_less v w =
     (case py_number v of None \<Rightarrow> Inl TypeError
      | Some x \<Rightarrow> (case py_number w of None \<Rightarrow> Inl TypeError | Some y \<Rightarrow> Inr (number_less x y)))"

fun py_eq :: "pyval \<Rightarrow> pyval \<Rightarrow> bool" where
  "py_eq VNone VNone = True"
| "py_eq (VStr s) (VStr t) = (s = t)"
| "py_eq v w =
     (case py_number v of None \<Rightarrow> False
      | Some x \<Rightarrow> (case py_number w of None \<Rightarrow> False | Some y \<Rightarrow> number_eq x y))"

text \<open>
  A linear order of all values, which agrees with Python's on the integers and on the
  strings: it is the order of lists of keys of one type.
\<close>

fun pyval_code :: "pyval \<Rightarrow> nat \<times> int \<times> ustring" where
  "pyval_code VNone = (0, 0, [])"
| "pyval_code (VBool b) = (1, of_bool b, [])"
| "pyval_code (VInt i) = (2, i, [])"
| "pyval_code (VFloat f) = (3, uint f, [])"
| "pyval_code (VStr s) = (4, 0, s)"

lemma pyval_code_inject: "pyval_code v = pyval_code w \<Longrightarrow> v = w"
  by (cases v; cases w) (auto simp: word_uint_eq_iff)

instantiation pyval :: linorder
begin

definition less_eq_pyval :: "pyval \<Rightarrow> pyval \<Rightarrow> bool" where
  "less_eq_pyval v w \<longleftrightarrow> pyval_code v \<le> pyval_code w"

definition less_pyval :: "pyval \<Rightarrow> pyval \<Rightarrow> bool" where
  "less_pyval v w \<longleftrightarrow> pyval_code v < pyval_code w"

instance
  by standard
    (auto simp: less_eq_pyval_def less_pyval_def less_le_not_le intro: pyval_code_inject order_trans antisym)

end

lemma pyval_less_simps [simp]:
  "VInt i < VInt j \<longleftrightarrow> i < j" "VStr s < VStr t \<longleftrightarrow> s < t"
  "VInt i \<le> VInt j \<longleftrightarrow> i \<le> j" "VStr s \<le> VStr t \<longleftrightarrow> s \<le> t"
  by (auto simp: less_pyval_def less_eq_pyval_def)

text \<open>
  \<^verbatim>\<open>bisect_left\<close> and \<^verbatim>\<open>bisect_right\<close> on values: each comparison of the search can raise.
\<close>

function bisect_res :: "('a \<Rightarrow> bool res) \<Rightarrow> 'a list \<Rightarrow> nat \<Rightarrow> nat \<Rightarrow> nat res" where
  "bisect_res p xs lo hi =
     (if lo < hi then
        let mid = (lo + hi) div 2
        in (case p (xs ! mid) of Inl e \<Rightarrow> Inl e
            | Inr b \<Rightarrow> if b then bisect_res p xs (mid + 1) hi else bisect_res p xs lo mid)
      else Inr lo)"
  by pat_completeness auto
termination
  by (relation "measure (\<lambda>(p, xs, lo, hi). hi - lo)") auto

declare bisect_res.simps [simp del]

definition py_bisect_left :: "pyval list \<Rightarrow> pyval \<Rightarrow> nat res" where
  "py_bisect_left xs x = bisect_res (\<lambda>y. py_less y x) xs 0 (length xs)"

definition py_bisect_right :: "pyval list \<Rightarrow> pyval \<Rightarrow> nat res" where
  "py_bisect_right xs x =
     bisect_res (\<lambda>y. res_bind (py_less x y) (\<lambda>b. Inr (\<not> b))) xs 0 (length xs)"

lemma bisect_res_pure:
  assumes "\<And>y. y \<in> set xs \<Longrightarrow> p y = Inr (q y)" and "hi \<le> length xs"
  shows "bisect_res p xs lo hi = Inr (bisect_loop q xs lo hi)"
  using assms
proof (induction p xs lo hi rule: bisect_res.induct)
  case (1 p xs lo hi)
  show ?case
  proof (cases "lo < hi")
    case True
    then have mid: "(lo + hi) div 2 < length xs" "(lo + hi) div 2 \<le> length xs" using "1.prems"(2) by auto
    then have "p (xs ! ((lo + hi) div 2)) = Inr (q (xs ! ((lo + hi) div 2)))" by (intro "1.prems"(1)) simp
    with True "1.IH" [OF True refl _] "1.prems" mid show ?thesis
      by (simp add: bisect_res.simps [of p xs lo hi] bisect_loop.simps [of q xs lo hi] Let_def)
  qed (simp add: bisect_res.simps [of p xs lo hi] bisect_loop.simps [of q xs lo hi])
qed

end
