(* ===== verification/Row_Types.thy ===== *)
theory Row_Types
  imports Py_Numbers
begin

text \<open>
  Column types, schemas and the byte format of rows (\<^verbatim>\<open>types.py\<close>): one value at a time
  (\<open>encode_value\<close>, \<open>decode_value\<close>), a whole row (\<open>encode_row\<close>, \<open>decode_row\<close>), and the
  MVCC header \<open>(xmin, xmax)\<close> in front of a stored row. The lemmas show that decoding
  undoes encoding, for one value anywhere inside a row and for whole rows, and that
  stamping \<open>xmax\<close> changes that field only.
\<close>

section \<open>UTF-8\<close>

definition is_surrogate :: "nat \<Rightarrow> bool" where
  "is_surrogate c \<longleftrightarrow> 55296 \<le> c \<and> c \<le> 57343"

definition byte_of :: "nat \<Rightarrow> byte" where
  "byte_of n = word_of_nat n"

definition utf8_encode_char :: "nat \<Rightarrow> bytes res" where
  "utf8_encode_char c =
     (if c < 128 then Inr [byte_of c]
      else if c < 2048 then Inr [byte_of (192 + c div 64), byte_of (128 + c mod 64)]
      else if is_surrogate c then Inl UnicodeEncodeError
      else if c < 65536 then
        Inr [byte_of (224 + c div 4096), byte_of (128 + c div 64 mod 64), byte_of (128 + c mod 64)]
      else if c < 1114112 then
        Inr [byte_of (240 + c div 262144), byte_of (128 + c div 4096 mod 64),
             byte_of (128 + c div 64 mod 64), byte_of (128 + c mod 64)]
      else Inl UnicodeEncodeError)"

definition utf8_encode :: "ustring \<Rightarrow> bytes res" where
  "utf8_encode s = res_bind (res_map utf8_encode_char s) (\<lambda>bss. Inr (concat bss))"

text \<open>The value of a continuation byte.\<close>

definition is_cont :: "byte \<Rightarrow> bool" where
  "is_cont b \<longleftrightarrow> 128 \<le> unat b \<and> unat b < 192"

fun utf8_decode :: "bytes \<Rightarrow> ustring res" where
  "utf8_decode [] = Inr []"
| "utf8_decode (b # bs) =
     (if unat b < 128 then res_bind (utf8_decode bs) (\<lambda>s. Inr (unat b # s))
      else if 194 \<le> unat b \<and> unat b < 224 then
        (case bs of
           c1 # bs1 \<Rightarrow>
             if is_cont c1 then
               res_bind (utf8_decode bs1)
                 (\<lambda>s. Inr (((unat b - 192) * 64 + (unat c1 - 128)) # s))
             else Inl UnicodeDecodeError
         | _ \<Rightarrow> Inl UnicodeDecodeError)
      else if 224 \<le> unat b \<and> unat b < 240 then
        (case bs of
           c1 # c2 # bs2 \<Rightarrow>
             (let c = (unat b - 224) * 4096 + (unat c1 - 128) * 64 + (unat c2 - 128)
              in if is_cont c1 \<and> is_cont c2 \<and> 2048 \<le> c \<and> \<not> is_surrogate c
                 then res_bind (utf8_decode bs2) (\<lambda>s. Inr (c # s))
                 else Inl UnicodeDecodeError)
         | _ \<Rightarrow> Inl UnicodeDecodeError)
      else if 240 \<le> unat b \<and> unat b < 245 then
        (case bs of
           c1 # c2 # c3 # bs3 \<Rightarrow>
             (let c = (unat b - 240) * 262144 + (unat c1 - 128) * 4096
                        + (unat c2 - 128) * 64 + (unat c3 - 128)
              in if is_cont c1 \<and> is_cont c2 \<and> is_cont c3 \<and> 65536 \<le> c \<and> c < 1114112
                 then res_bind (utf8_decode bs3) (\<lambda>s. Inr (c # s))
                 else Inl UnicodeDecodeError)
         | _ \<Rightarrow> Inl UnicodeDecodeError)
      else Inl UnicodeDecodeError)"

lemma unat_byte_of [simp]: "n < 256 \<Longrightarrow> unat (byte_of n) = n"
  by (simp add: byte_of_def unat_byte_of_nat)

lemma recombine_3: "c div 4096 * 4096 + c div 64 mod 64 * 64 + c mod 64 = (c :: nat)"
proof -
  have "c div 4096 = c div 64 div 64" by (simp add: div_mult2_eq [symmetric])
  moreover have "c div 64 div 64 * 64 + c div 64 mod 64 = c div 64"
    and "c div 64 * 64 + c mod 64 = c"
    by (rule div_mult_mod_eq)+
  ultimately show ?thesis by linarith
qed

lemma recombine_4:
  "c div 262144 * 262144 + c div 4096 mod 64 * 4096 + c div 64 mod 64 * 64 + c mod 64 = (c :: nat)"
proof -
  have "c div 262144 = c div 4096 div 64" by (simp add: div_mult2_eq [symmetric])
  moreover have "c div 4096 div 64 * 64 + c div 4096 mod 64 = c div 4096"
    by (rule div_mult_mod_eq)
  ultimately show ?thesis using recombine_3 [of c] by linarith
qed

lemma utf8_decode_char:
  assumes "utf8_encode_char c = Inr bs"
  shows "utf8_decode (bs @ rest) = res_bind (utf8_decode rest) (\<lambda>s. Inr (c # s))"
proof -
  consider (one) "c < 128" | (two) "128 \<le> c" "c < 2048"
    | (three) "2048 \<le> c" "c < 65536" "\<not> is_surrogate c"
    | (four) "65536 \<le> c" "c < 1114112"
    using assms by (fastforce simp: utf8_encode_char_def split: if_splits)
  then show ?thesis
  proof cases
    case one
    with assms show ?thesis by (auto simp: utf8_encode_char_def)
  next
    case two
    then have "c div 64 < 32" "2 \<le> c div 64" by auto
    with two assms show ?thesis by (auto simp: utf8_encode_char_def is_cont_def)
  next
    case three
    then have b: "c div 4096 < 16" "c div 64 mod 64 < 64" "c mod 64 < 64" by auto
    with three recombine_3 [of c] assms show ?thesis
      by (auto simp: utf8_encode_char_def is_cont_def Let_def)
  next
    case four
    then have b: "c div 262144 < 5" "c div 4096 mod 64 < 64" "c div 64 mod 64 < 64" "c mod 64 < 64"
      by auto
    moreover have "\<not> is_surrogate c" using four by (simp add: is_surrogate_def)
    ultimately show ?thesis using four recombine_4 [of c] assms
      by (auto simp: utf8_encode_char_def is_cont_def Let_def)
  qed
qed

lemma utf8_roundtrip: "utf8_encode s = Inr bs \<Longrightarrow> utf8_decode bs = Inr s"
proof (induction s arbitrary: bs)
  case Nil
  then show ?case by (simp add: utf8_encode_def)
next
  case (Cons c s)
  then obtain cb rest where c: "utf8_encode_char c = Inr cb"
    and r: "utf8_encode s = Inr rest" and bs: "bs = cb @ rest"
    by (auto simp: utf8_encode_def elim!: res_bindE)
  show ?case using utf8_decode_char [OF c, of rest] Cons.IH [OF r] bs by simp
qed

section \<open>Columns and schemas\<close>

datatype col_type = T_INT | T_FLOAT | T_TEXT | T_BOOL

record column =
  col_name :: ustring
  col_type :: col_type

record schema =
  columns :: "column list"

fun index_of_loop :: "nat \<Rightarrow> column list \<Rightarrow> ustring \<Rightarrow> nat res" where
  "index_of_loop i [] n = Inl KeyError"
| "index_of_loop i (c # cs) n = (if col_name c = n then Inr i else index_of_loop (Suc i) cs n)"

definition index_of :: "schema \<Rightarrow> ustring \<Rightarrow> nat res" where
  "index_of sch n = index_of_loop 0 (columns sch) n"

definition schema_column :: "schema \<Rightarrow> ustring \<Rightarrow> column res" where
  "schema_column sch n = res_bind (index_of sch n) (\<lambda>i. Inr (columns sch ! i))"

definition schema_names :: "schema \<Rightarrow> ustring list" where
  "schema_names sch = map col_name (columns sch)"

lemma index_of_loop_Inr:
  "index_of_loop k cs n = Inr i \<longleftrightarrow>
     k \<le> i \<and> i - k < length cs \<and> col_name (cs ! (i - k)) = n
       \<and> (\<forall>j < i - k. col_name (cs ! j) \<noteq> n)"
proof (induction cs arbitrary: k)
  case Nil
  show ?case by simp
next
  case (Cons c cs)
  show ?case
  proof (cases "col_name c = n")
    case True
    then show ?thesis by (cases "i - k") auto
  next
    case False
    show ?thesis
    proof (cases "k < i")
      case True
      then obtain d where d: "i - k = Suc d" by (metis Suc_diff_Suc)
      with True have "i - Suc k = d" "Suc k \<le> i" by auto
      with d False Cons.IH [of "Suc k"] show ?thesis
        by (auto simp: less_Suc_eq_0_disj)
    next
      case False
      with \<open>col_name c \<noteq> n\<close> Cons.IH [of "Suc k"] show ?thesis by (cases "k = i") auto
    qed
  qed
qed

lemma index_of_loop_Inl:
  "index_of_loop k cs n = Inl e \<longleftrightarrow> e = KeyError \<and> n \<notin> col_name ` set cs"
  by (induction cs arbitrary: k) (auto simp: eq_commute)

section \<open>Values and rows as bytes\<close>

definition pack_int64 :: "int \<Rightarrow> bytes res" where
  "pack_int64 i =
     (if - (2 ^ 63) \<le> i \<and> i < 2 ^ 63 then Inr (le_bytes 8 (nat (i mod 2 ^ 64)))
      else Inl StructError)"

definition int64_of_nat :: "nat \<Rightarrow> int" where
  "int64_of_nat n = (if n < 2 ^ 63 then int n else int n - 2 ^ 64)"

fun encode_value :: "pyval \<Rightarrow> col_type \<Rightarrow> bytes res" where
  "encode_value v T_INT = res_bind (py_int v) pack_int64"
| "encode_value v T_FLOAT = res_bind (py_float v) (\<lambda>f. Inr (le_bytes 8 (unat f)))"
| "encode_value v T_BOOL = pack_uint 1 (if py_truthy v then 1 else 0)"
| "encode_value v T_TEXT =
     res_bind (utf8_encode (py_str v))
       (\<lambda>raw. if length raw > 65535 then Inl ValueError
              else res_bind (pack_uint 2 (length raw)) (\<lambda>h. Inr (h @ raw)))"

fun decode_value :: "bytes \<Rightarrow> nat \<Rightarrow> col_type \<Rightarrow> (pyval \<times> nat) res" where
  "decode_value data offset T_INT =
     res_bind (unpack_from 8 data offset) (\<lambda>n. Inr (VInt (int64_of_nat n), 8))"
| "decode_value data offset T_FLOAT =
     res_bind (unpack_from 8 data offset) (\<lambda>n. Inr (VFloat (word_of_nat n), 8))"
| "decode_value data offset T_BOOL =
     res_bind (unpack_from 1 data offset) (\<lambda>n. Inr (VBool (n \<noteq> 0), 1))"
| "decode_value data offset T_TEXT =
     res_bind (unpack_from 2 data offset)
       (\<lambda>len. let start = offset + 2
              in res_bind (utf8_decode (py_slice start (start + len) data))
                   (\<lambda>text. Inr (VStr text, 2 + len)))"

definition encode_row :: "pyval list \<Rightarrow> schema \<Rightarrow> bytes res" where
  "encode_row vs sch =
     (if length vs \<noteq> length (columns sch) then Inl ValueError
      else res_bind (res_map (\<lambda>(v, col). encode_value v (col_type col)) (zip vs (columns sch)))
             (\<lambda>bss. Inr (concat bss)))"

fun decode_row_loop :: "bytes \<Rightarrow> nat \<Rightarrow> column list \<Rightarrow> pyval list \<Rightarrow> pyval list res" where
  "decode_row_loop data offset [] vs = Inr vs"
| "decode_row_loop data offset (col # cols) vs =
     res_bind (decode_value data offset (col_type col))
       (\<lambda>(v, consumed). decode_row_loop data (offset + consumed) cols (vs @ [v]))"

definition decode_row :: "bytes \<Rightarrow> schema \<Rightarrow> pyval list res" where
  "decode_row data sch = decode_row_loop data 0 (columns sch) []"

section \<open>The MVCC header\<close>

definition INFINITY_TXN :: nat where
  "INFINITY_TXN = 4294967295"

definition MVCC_HEADER_SIZE :: nat where
  "MVCC_HEADER_SIZE = 8"

definition pack_tuple :: "nat \<Rightarrow> nat \<Rightarrow> bytes \<Rightarrow> bytes res" where
  "pack_tuple xmin xmax payload =
     res_bind (pack_uint 4 xmin) (\<lambda>a. res_bind (pack_uint 4 xmax) (\<lambda>b. Inr (a @ b @ payload)))"

definition unpack_tuple_header :: "bytes \<Rightarrow> (nat \<times> nat) res" where
  "unpack_tuple_header data =
     (if MVCC_HEADER_SIZE \<le> length data
      then Inr (le_nat (take 4 data), le_nat (take 4 (drop 4 data)))
      else Inl StructError)"

definition tuple_payload :: "bytes \<Rightarrow> bytes" where
  "tuple_payload data = drop MVCC_HEADER_SIZE data"

definition with_xmax :: "bytes \<Rightarrow> nat \<Rightarrow> bytes res" where
  "with_xmax data xmax =
     res_bind (unpack_tuple_header data) (\<lambda>(xmin, _). pack_tuple xmin xmax (tuple_payload data))"

section \<open>Round trips\<close>

text \<open>
  What a stored value reads back as: the value converted to the type of its column.
\<close>

fun stored_value :: "pyval \<Rightarrow> col_type \<Rightarrow> pyval res" where
  "stored_value v T_INT = res_bind (py_int v) (\<lambda>i. Inr (VInt i))"
| "stored_value v T_FLOAT = res_bind (py_float v) (\<lambda>f. Inr (VFloat f))"
| "stored_value v T_BOOL = Inr (VBool (py_truthy v))"
| "stored_value v T_TEXT = Inr (VStr (py_str v))"

text \<open>The values of a column type that can be stored as they are.\<close>

fun fits :: "pyval \<Rightarrow> col_type \<Rightarrow> bool" where
  "fits (VInt i) T_INT = (- (2 ^ 63) \<le> i \<and> i < 2 ^ 63)"
| "fits (VFloat f) T_FLOAT = True"
| "fits (VBool b) T_BOOL = True"
| "fits (VStr s) T_TEXT = (case utf8_encode s of Inl _ \<Rightarrow> False | Inr bs \<Rightarrow> length bs \<le> 65535)"
| "fits _ _ = False"

lemma int64_roundtrip: "pack_int64 i = Inr bs \<Longrightarrow> length bs = 8 \<and> int64_of_nat (le_nat bs) = i"
proof -
  assume "pack_int64 i = Inr bs"
  then have r: "- (2 ^ 63) \<le> i" "i < 2 ^ 63" and bs: "bs = le_bytes 8 (nat (i mod 2 ^ 64))"
    by (auto simp: pack_int64_def split: if_splits)
  have "i mod 2 ^ 64 < 2 ^ 64" "0 \<le> i mod 2 ^ 64" by simp_all
  then have "nat (i mod 2 ^ 64) < 256 ^ 8" by simp
  then have le: "le_nat bs = nat (i mod 2 ^ 64)" by (simp add: bs)
  have m: "i mod 2 ^ 64 = (if 0 \<le> i then i else i + 2 ^ 64)"
  proof (cases "0 \<le> i")
    case True
    with r(2) show ?thesis by (simp add: mod_pos_pos_trivial)
  next
    case False
    have "i mod 2 ^ 64 = (i + 2 ^ 64) mod 2 ^ 64" by simp
    also have "\<dots> = i + 2 ^ 64" using r False by (intro mod_pos_pos_trivial) auto
    finally show ?thesis using False by simp
  qed
  show ?thesis using le m r bs by (cases "0 \<le> i") (simp_all add: int64_of_nat_def nat_less_iff)
qed

lemma unpack_from_prefix:
  "length bs = n \<Longrightarrow> unpack_from n (pre @ bs @ post) (length pre) = Inr (le_nat bs)"
  by (simp add: unpack_from_def)

lemma unat_less_64: "unat (f :: 64 word) < 256 ^ 8"
  using unsigned_less [of f, where ?'a = nat] by simp

lemma decode_encode_value:
  assumes "encode_value v t = Inr bs"
  shows "\<exists>w. stored_value v t = Inr w
    \<and> decode_value (pre @ bs @ post) (length pre) t = Inr (w, length bs)"
proof (cases t)
  case T_INT
  with assms obtain i where "py_int v = Inr i" "pack_int64 i = Inr bs" by (auto elim: res_bindE)
  with T_INT int64_roundtrip [of i bs] show ?thesis by (simp add: unpack_from_prefix)
next
  case T_FLOAT
  with assms obtain f where f: "py_float v = Inr f" "bs = le_bytes 8 (unat f)"
    by (auto elim: res_bindE)
  then have "le_nat bs = unat f" using unat_less_64 [of f] by simp
  with T_FLOAT f show ?thesis by (simp add: unpack_from_prefix)
next
  case T_BOOL
  with assms have "bs = le_bytes 1 (if py_truthy v then 1 else 0)" by (simp add: pack_uint_Inr_iff)
  moreover have "unpack_from 1 (pre @ bs @ post) (length pre) = Inr (if py_truthy v then 1 else 0)"
    using calculation by (subst unpack_from_prefix) auto
  ultimately show ?thesis using T_BOOL by simp
next
  case T_TEXT
  with assms obtain raw where raw: "utf8_encode (py_str v) = Inr raw" "length raw \<le> 65535"
    and bs: "bs = le_bytes 2 (length raw) @ raw"
    by (auto simp: pack_uint_Inr_iff elim!: res_bindE split: if_splits)
  have "unpack_from 2 (pre @ bs @ post) (length pre) = Inr (length raw)"
    using raw(2) unpack_from_prefix [of "le_bytes 2 (length raw)" 2 pre "raw @ post"] bs by simp
  moreover have "py_slice (length pre + 2) (length pre + 2 + length raw) (pre @ bs @ post) = raw"
    by (simp add: py_slice_def bs)
  ultimately show ?thesis using T_TEXT utf8_roundtrip [OF raw(1)] bs by (simp add: Let_def)
qed

lemma decode_row_loop_encode:
  assumes "res_map (\<lambda>(v, col). encode_value v (col_type col)) (zip vs cols) = Inr bss"
    and "length vs = length cols"
  shows "\<exists>ws. res_map (\<lambda>(v, col). stored_value v (col_type col)) (zip vs cols) = Inr ws
    \<and> decode_row_loop (pre @ concat bss @ post) (length pre) cols acc = Inr (acc @ ws)"
  using assms
proof (induction cols arbitrary: vs bss pre acc)
  case Nil
  then show ?case by simp
next
  case (Cons col cols)
  then obtain v vs' where vs: "vs = v # vs'" by (cases vs) auto
  with Cons.prems obtain bs bss' where bs: "encode_value v (col_type col) = Inr bs"
    and rest: "res_map (\<lambda>(v, col). encode_value v (col_type col)) (zip vs' cols) = Inr bss'"
    and bss: "bss = bs # bss'"
    by (auto elim!: res_bindE)
  obtain w where w: "stored_value v (col_type col) = Inr w"
    "decode_value (pre @ bs @ concat bss' @ post) (length pre) (col_type col) = Inr (w, length bs)"
    using decode_encode_value [OF bs] by blast
  obtain ws where
    "res_map (\<lambda>(v, col). stored_value v (col_type col)) (zip vs' cols) = Inr ws"
    "decode_row_loop ((pre @ bs) @ concat bss' @ post) (length (pre @ bs)) cols (acc @ [w])
       = Inr ((acc @ [w]) @ ws)"
    using Cons.IH [OF rest, of "pre @ bs" "acc @ [w]"] Cons.prems(2) vs by auto
  with w vs bss show ?case by simp
qed

lemma decode_encode_row:
  assumes "encode_row vs sch = Inr bs"
  shows "\<exists>ws. res_map (\<lambda>(v, col). stored_value v (col_type col)) (zip vs (columns sch)) = Inr ws
    \<and> decode_row (bs @ post) sch = Inr ws"
proof -
  from assms obtain bss where "length vs = length (columns sch)"
    "res_map (\<lambda>(v, col). encode_value v (col_type col)) (zip vs (columns sch)) = Inr bss"
    "bs = concat bss"
    by (auto simp: encode_row_def elim!: res_bindE split: if_splits)
  with decode_row_loop_encode [of vs "columns sch" bss "[]" post "[]"] show ?thesis
    by (simp add: decode_row_def)
qed

lemma fits_encode: "fits v t \<Longrightarrow> \<exists>bs. encode_value v t = Inr bs"
proof (induction v t rule: fits.induct)
  case (4 s)
  then obtain bs where "utf8_encode s = Inr bs" "length bs \<le> 65535"
    by (auto split: sum.splits)
  then show ?case by (simp add: pack_uint_def)
qed (simp_all add: pack_int64_def pack_uint_def)

lemma fits_stored: "fits v t \<Longrightarrow> stored_value v t = Inr v"
  by (induction v t rule: fits.induct) simp_all

lemma res_map_zip_encode:
  "list_all2 (\<lambda>v col. fits v (col_type col)) vs cols \<Longrightarrow>
     \<exists>bss. res_map (\<lambda>(v, col). encode_value v (col_type col)) (zip vs cols) = Inr bss"
proof (induction rule: list_all2_induct)
  case Nil
  show ?case by simp
next
  case (Cons v vs col cols)
  then obtain bs where "encode_value v (col_type col) = Inr bs" using fits_encode by blast
  with Cons show ?case by auto
qed

lemma res_map_zip_stored:
  "list_all2 (\<lambda>v col. fits v (col_type col)) vs cols \<Longrightarrow>
     res_map (\<lambda>(v, col). stored_value v (col_type col)) (zip vs cols) = Inr vs"
  by (induction rule: list_all2_induct) (simp_all add: fits_stored)

lemma pack_tuple_Inr_iff:
  "pack_tuple xmin xmax p = Inr d \<longleftrightarrow>
     xmin < 2 ^ 32 \<and> xmax < 2 ^ 32 \<and> d = le_bytes 4 xmin @ le_bytes 4 xmax @ p"
  by (auto simp: pack_tuple_def pack_uint_def)

lemma unpack_pack_tuple:
  assumes "pack_tuple xmin xmax p = Inr d"
  shows "unpack_tuple_header d = Inr (xmin, xmax)" and "tuple_payload d = p"
    and "length d = MVCC_HEADER_SIZE + length p"
  using assms
  by (auto simp: pack_tuple_Inr_iff unpack_tuple_header_def tuple_payload_def MVCC_HEADER_SIZE_def)

lemma unpack_tuple_header_bound:
  assumes "unpack_tuple_header d = Inr (xmin, xmax)"
  shows "xmin < 2 ^ 32" and "xmax < 2 ^ 32"
  using assms le_nat_bound [of "take 4 d"] le_nat_bound [of "take 4 (drop 4 d)"]
  by (auto simp: unpack_tuple_header_def MVCC_HEADER_SIZE_def split: if_splits)

lemma with_xmax_spec:
  assumes "with_xmax d x = Inr d'"
  shows "length d' = length d" and "tuple_payload d' = tuple_payload d"
    and "\<exists>xmin xmax. unpack_tuple_header d = Inr (xmin, xmax) \<and> unpack_tuple_header d' = Inr (xmin, x)"
proof -
  from assms obtain xmin xmax where h: "unpack_tuple_header d = Inr (xmin, xmax)"
    and p: "pack_tuple xmin x (tuple_payload d) = Inr d'"
    by (auto simp: with_xmax_def elim!: res_bindE)
  have len: "8 \<le> length d" using h by (auto simp: unpack_tuple_header_def MVCC_HEADER_SIZE_def split: if_splits)
  note U = unpack_pack_tuple [OF p]
  show "length d' = length d" using U(3) len by (simp add: tuple_payload_def MVCC_HEADER_SIZE_def)
  show "tuple_payload d' = tuple_payload d" by (rule U(2))
  show "\<exists>xmin xmax. unpack_tuple_header d = Inr (xmin, xmax) \<and> unpack_tuple_header d' = Inr (xmin, x)"
    using U(1) h by blast
qed

section \<open>Properties\<close>

text \<open>
  C25: a row whose values fit the types of their columns is encoded without an exception,
  and decoding the bytes gives the same values back, whatever bytes follow them.
\<close>

theorem row_roundtrip:
  assumes "list_all2 (\<lambda>v col. fits v (col_type col)) vs (columns sch)"
  shows "\<exists>bs. encode_row vs sch = Inr bs \<and> decode_row (bs @ post) sch = Inr vs"
proof -
  obtain bss where
    "res_map (\<lambda>(v, col). encode_value v (col_type col)) (zip vs (columns sch)) = Inr bss"
    using res_map_zip_encode [OF assms] by blast
  with assms have bs: "encode_row vs sch = Inr (concat bss)"
    by (simp add: encode_row_def list_all2_lengthD)
  from decode_encode_row [OF bs, of post] res_map_zip_stored [OF assms]
  have "decode_row (concat bss @ post) sch = Inr vs" by simp
  with bs show ?thesis by blast
qed

definition sample_schema :: schema where
  "sample_schema = \<lparr>columns = [\<lparr>col_name = u ''id'', col_type = T_INT\<rparr>, \<lparr>col_name = u ''name'', col_type = T_TEXT\<rparr>]\<rparr>"

theorem row_roundtrip_witness:
  "\<exists>bs. encode_row [VInt (- 5), VStr [72, 8364]] sample_schema = Inr bs
     \<and> decode_row (bs @ [1]) sample_schema = Inr [VInt (- 5), VStr [72, 8364]]"
  by (rule row_roundtrip) (simp add: sample_schema_def utf8_encode_def utf8_encode_char_def is_surrogate_def)

text \<open>
  whatever \<^verbatim>\<open>encode_row\<close> accepts is decoded to the values as their columns store them:
  \<^verbatim>\<open>int(v)\<close>, \<^verbatim>\<open>float(v)\<close>, \<^verbatim>\<open>str(v)\<close> or the truth value of \<open>v\<close>.
\<close>

theorem encoded_row_decodes_coerced:
  assumes "encode_row vs sch = Inr bs"
  shows "\<exists>ws. res_map (\<lambda>(v, col). stored_value v (col_type col)) (zip vs (columns sch)) = Inr ws
    \<and> length ws = length (columns sch) \<and> decode_row (bs @ post) sch = Inr ws"
proof -
  from decode_encode_row [OF assms, of post] obtain ws where
    ws: "res_map (\<lambda>(v, col). stored_value v (col_type col)) (zip vs (columns sch)) = Inr ws"
      "decode_row (bs @ post) sch = Inr ws" by blast
  moreover have "length vs = length (columns sch)" using assms by (auto simp: encode_row_def split: if_splits)
  ultimately show ?thesis using length_res_map [OF ws(1)] by auto
qed

theorem encoded_row_decodes_coerced_witness:
  "\<exists>ws. res_map (\<lambda>(v, col). stored_value v (col_type col)) (zip [VBool True, VInt 7] (columns sample_schema)) = Inr ws
    \<and> length ws = length (columns sample_schema)
    \<and> decode_row ([1, 0, 0, 0, 0, 0, 0, 0, 1, 0, 55] @ []) sample_schema = Inr ws"
  by (rule encoded_row_decodes_coerced)
    (simp add: encode_row_def sample_schema_def pack_int64_def pack_uint_def utf8_encode_def
      utf8_encode_char_def byte_of_def le_bytes_numeral int_str_def nat_digits.simps)

text \<open>
  \<^verbatim>\<open>with_xmax\<close> changes the \<open>xmax\<close> field of a stored row and nothing else: the length, \<open>xmin\<close>
  and the payload stay, so the result can be written in place.
\<close>

theorem with_xmax_changes_only_xmax:
  assumes "with_xmax d x = Inr d'"
  shows "length d' = length d \<and> tuple_payload d' = tuple_payload d
    \<and> (\<exists>xmin xmax. unpack_tuple_header d = Inr (xmin, xmax) \<and> unpack_tuple_header d' = Inr (xmin, x))"
  using with_xmax_spec [OF assms] by blast

theorem with_xmax_changes_only_xmax_witness:
  "\<exists>xmin xmax. unpack_tuple_header [3, 0, 0, 0, 255, 255, 255, 255, 42] = Inr (xmin, xmax)
     \<and> unpack_tuple_header [3, 0, 0, 0, 9, 0, 0, 0, 42] = Inr (xmin, 9)"
proof -
  have "with_xmax [3, 0, 0, 0, 255, 255, 255, 255, 42] 9 = Inr [3, 0, 0, 0, 9, 0, 0, 0, 42]"
    by (simp add: with_xmax_def unpack_tuple_header_def pack_tuple_def tuple_payload_def pack_uint_def
        MVCC_HEADER_SIZE_def le_bytes_numeral)
  from with_xmax_changes_only_xmax [OF this] show ?thesis by blast
qed

end
