(* ===== verification/Json.thy ===== *)
theory Json
  imports Py_Numbers Row_Types "HOL-Library.AList"
begin

text \<open>
  The part of Python's \<^verbatim>\<open>json\<close> module that the write-ahead log and the catalog use:
  \<^verbatim>\<open>dumps\<close> with the separators \<open>,\<close> and \<open>:\<close> (ASCII output), and \<^verbatim>\<open>loads\<close>. A \<^verbatim>\<open>dict\<close> is an
  association list in insertion order. The main lemma is that \<^verbatim>\<open>loads\<close> undoes \<^verbatim>\<open>dumps\<close> on
  values without floats whose strings hold no surrogates.
\<close>

section \<open>Writing\<close>

datatype json = JNull | JBool bool | JInt int | JFloat "64 word" | JStr ustring
  | JArr "json list" | JObj "(ustring \<times> json) list"

definition hex_digit :: "nat \<Rightarrow> nat" where
  "hex_digit n = (if n < 10 then 48 + n else 87 + n)"

definition hex4 :: "nat \<Rightarrow> ustring" where
  "hex4 c = [hex_digit (c div 4096 mod 16), hex_digit (c div 256 mod 16), hex_digit (c div 16 mod 16),
             hex_digit (c mod 16)]"

definition escape_char :: "nat \<Rightarrow> ustring" where
  "escape_char c =
     (if c = 34 then [92, 34] else if c = 92 then [92, 92] else if c = 10 then [92, 110]
      else if c = 13 then [92, 114] else if c = 9 then [92, 116] else if c = 12 then [92, 102]
      else if c = 8 then [92, 98]
      else if 32 \<le> c \<and> c \<le> 126 then [c]
      else if c < 65536 then [92, 117] @ hex4 c
      else [92, 117] @ hex4 (55296 + (c - 65536) div 1024) @ [92, 117] @ hex4 (56320 + (c - 65536) mod 1024))"

definition dump_string :: "ustring \<Rightarrow> ustring" where
  "dump_string s = [34] @ concat (map escape_char s) @ [34]"

definition dump_float :: "64 word \<Rightarrow> ustring" where
  "dump_float f =
     (if f_is_nan f then u ''NaN''
      else if f_is_inf f then (if f_negative f then u ''-Infinity'' else u ''Infinity'')
      else float_str f)"

fun join_with :: "ustring \<Rightarrow> ustring list \<Rightarrow> ustring" where
  "join_with sep [] = []"
| "join_with sep [x] = x"
| "join_with sep (x # y # xs) = x @ sep @ join_with sep (y # xs)"

text \<open>
  The encoder: \<open>nl d\<close> is the line break with the indentation of depth \<open>d\<close> (empty without
  \<^verbatim>\<open>indent\<close>), \<open>colon\<close> the separator of key and value. \<open>dumps\<close> is the compact form of the log,
  \<open>dumps_indented\<close> the form with \<^verbatim>\<open>indent=2\<close> of the catalog.
\<close>

fun dump_with :: "(nat \<Rightarrow> ustring) \<Rightarrow> ustring \<Rightarrow> nat \<Rightarrow> json \<Rightarrow> ustring" where
  "dump_with nl colon d JNull = u ''null''"
| "dump_with nl colon d (JBool b) = (if b then u ''true'' else u ''false'')"
| "dump_with nl colon d (JInt i) = int_str i"
| "dump_with nl colon d (JFloat f) = dump_float f"
| "dump_with nl colon d (JStr s) = dump_string s"
| "dump_with nl colon d (JArr xs) =
     (if xs = [] then [91, 93]
      else [91] @ nl (Suc d) @ join_with (44 # nl (Suc d)) (map (dump_with nl colon (Suc d)) xs) @ nl d @ [93])"
| "dump_with nl colon d (JObj ms) =
     (if ms = [] then [123, 125]
      else [123] @ nl (Suc d)
        @ join_with (44 # nl (Suc d)) (map (\<lambda>(k, v). dump_string k @ colon @ dump_with nl colon (Suc d) v) ms)
        @ nl d @ [125])"

definition dumps :: "json \<Rightarrow> ustring" where
  "dumps = dump_with (\<lambda>d. []) [58] 0"

definition dumps_indented :: "json \<Rightarrow> ustring" where
  "dumps_indented = dump_with (\<lambda>d. 10 # replicate (2 * d) 32) [58, 32] 0"

section \<open>Reading\<close>

definition is_ws :: "nat \<Rightarrow> bool" where
  "is_ws c \<longleftrightarrow> c = 32 \<or> c = 9 \<or> c = 10 \<or> c = 13"

definition skip_ws :: "ustring \<Rightarrow> ustring" where
  "skip_ws = dropWhile is_ws"

definition hex_value :: "nat \<Rightarrow> nat option" where
  "hex_value c =
     (if 48 \<le> c \<and> c \<le> 57 then Some (c - 48)
      else if 97 \<le> c \<and> c \<le> 102 then Some (c - 87)
      else if 65 \<le> c \<and> c \<le> 70 then Some (c - 55) else None)"

definition scan_hex4 :: "ustring \<Rightarrow> (nat \<times> ustring) res" where
  "scan_hex4 cs = (case cs of
       a # b # c # d # r \<Rightarrow>
         (case (hex_value a, hex_value b, hex_value c, hex_value d) of
            (Some a, Some b, Some c, Some d) \<Rightarrow> Inr (a * 4096 + b * 256 + c * 16 + d, r)
          | _ \<Rightarrow> Inl ValueError)
     | _ \<Rightarrow> Inl ValueError)"

definition unescape :: "nat \<Rightarrow> nat option" where
  "unescape c =
     (if c = 34 \<or> c = 92 \<or> c = 47 then Some c
      else if c = 98 then Some 8 else if c = 102 then Some 12 else if c = 110 then Some 10
      else if c = 114 then Some 13 else if c = 116 then Some 9 else None)"

text \<open>The text after a backslash and a \<open>u\<close>; two escapes that form a surrogate pair are one character.\<close>

definition scan_u :: "ustring \<Rightarrow> (nat \<times> ustring) res" where
  "scan_u cs =
     res_bind (scan_hex4 cs) (\<lambda>(uni, r).
       if 55296 \<le> uni \<and> uni \<le> 56319 then
         (case r of
            c1 # c2 # r2 \<Rightarrow>
              if c1 = 92 \<and> c2 = 117 then
                res_bind (scan_hex4 r2) (\<lambda>(uni2, r3).
                  if 56320 \<le> uni2 \<and> uni2 \<le> 57343
                  then Inr (65536 + (uni - 55296) * 1024 + (uni2 - 56320), r3)
                  else Inr (uni, r))
              else Inr (uni, r)
          | _ \<Rightarrow> Inr (uni, r))
       else Inr (uni, r))"

text \<open>One character of a string, or \<open>None\<close> at the closing quote.\<close>

definition scan_char :: "ustring \<Rightarrow> (nat option \<times> ustring) res" where
  "scan_char cs = (case cs of
       [] \<Rightarrow> Inl ValueError
     | c # r \<Rightarrow>
         if c = 34 then Inr (None, r)
         else if c = 92 then
           (case r of [] \<Rightarrow> Inl ValueError
            | e # r' \<Rightarrow>
                if e = 117 then res_bind (scan_u r') (\<lambda>(v, r''). Inr (Some v, r''))
                else (case unescape e of None \<Rightarrow> Inl ValueError | Some v \<Rightarrow> Inr (Some v, r')))
         else if c < 32 then Inl ValueError
         else Inr (Some c, r))"

text \<open>The rest of a string after its opening quote; the fuel is the number of characters left.\<close>

fun scan_string :: "nat \<Rightarrow> ustring \<Rightarrow> (ustring \<times> ustring) res" where
  "scan_string 0 cs = Inl Diverges"
| "scan_string (Suc k) cs =
     res_bind (scan_char cs) (\<lambda>(x, r).
       case x of None \<Rightarrow> Inr ([], r)
       | Some c \<Rightarrow> res_bind (scan_string k r) (\<lambda>(s, r'). Inr (c # s, r')))"

definition parse_string :: "ustring \<Rightarrow> (ustring \<times> ustring) res" where
  "parse_string cs = scan_string (Suc (length cs)) cs"

definition starts_with :: "ustring \<Rightarrow> ustring \<Rightarrow> bool" where
  "starts_with p cs \<longleftrightarrow> take (length p) cs = p"

text \<open>The number at the start of the text: sign, digits, fraction and exponent, each as text.\<close>

definition scan_int :: "ustring \<Rightarrow> ustring" where
  "scan_int cs = (case cs of [] \<Rightarrow> []
     | c # r \<Rightarrow> if c = 48 then [48] else takeWhile is_digit cs)"

definition scan_frac :: "ustring \<Rightarrow> ustring" where
  "scan_frac cs = (case cs of [] \<Rightarrow> []
     | c # r \<Rightarrow> if c = 46 \<and> takeWhile is_digit r \<noteq> [] then 46 # takeWhile is_digit r else [])"

definition scan_exp :: "ustring \<Rightarrow> ustring" where
  "scan_exp cs = (case cs of [] \<Rightarrow> []
     | c # r \<Rightarrow>
         if c = 101 \<or> c = 69 then
           (case r of [] \<Rightarrow> []
            | s # r' \<Rightarrow>
                if s = 43 \<or> s = 45 then
                  (if takeWhile is_digit r' \<noteq> [] then c # s # takeWhile is_digit r' else [])
                else if takeWhile is_digit r \<noteq> [] then c # takeWhile is_digit r else [])
         else [])"

definition parse_number :: "ustring \<Rightarrow> (json \<times> ustring) res" where
  "parse_number cs =
     (let sign = (if starts_with [45] cs then [45] else []);
          i = scan_int (drop (length sign) cs);
          r = drop (length sign + length i) cs;
          f = scan_frac r; r2 = drop (length f) r;
          e = scan_exp r2; r3 = drop (length e) r2
      in if i = [] then Inl ValueError
         else if f = [] \<and> e = [] then res_bind (int_of_str (sign @ i)) (\<lambda>n. Inr (JInt n, r3))
         else res_bind (float_of_str (sign @ i @ f @ e)) (\<lambda>x. Inr (JFloat x, r3)))"

definition parse_atom :: "ustring \<Rightarrow> (json \<times> ustring) res" where
  "parse_atom cs =
     (if starts_with (u ''null'') cs then Inr (JNull, drop 4 cs)
      else if starts_with (u ''true'') cs then Inr (JBool True, drop 4 cs)
      else if starts_with (u ''false'') cs then Inr (JBool False, drop 5 cs)
      else if starts_with (u ''NaN'') cs then Inr (JFloat (f_make False (f_max_bits + 2 ^ 51)), drop 3 cs)
      else if starts_with (u ''Infinity'') cs then Inr (JFloat (f_make False f_max_bits), drop 8 cs)
      else if starts_with (u ''-Infinity'') cs then Inr (JFloat (f_make True f_max_bits), drop 9 cs)
      else parse_number cs)"

text \<open>The pairs of an object become a \<^verbatim>\<open>dict\<close>: a repeated key keeps its place and takes the last value.\<close>

definition dict_of :: "(ustring \<times> json) list \<Rightarrow> (ustring \<times> json) list" where
  "dict_of ms = foldl (\<lambda>d (k, v). AList.update k v d) [] ms"

text \<open>The recursion of the scanner; the fuel bounds its depth and is the length of the text.\<close>

fun parse_value :: "nat \<Rightarrow> ustring \<Rightarrow> (json \<times> ustring) res"
  and parse_elems :: "nat \<Rightarrow> ustring \<Rightarrow> (json list \<times> ustring) res"
  and parse_members :: "nat \<Rightarrow> ustring \<Rightarrow> ((ustring \<times> json) list \<times> ustring) res" where
  "parse_value 0 cs = Inl Diverges"
| "parse_value (Suc k) cs =
     (case cs of [] \<Rightarrow> Inl ValueError
      | c # r \<Rightarrow>
          if c = 34 then res_bind (parse_string r) (\<lambda>(s, r'). Inr (JStr s, r'))
          else if c = 123 then
            (if starts_with [125] (skip_ws r) then Inr (JObj [], tl (skip_ws r))
             else res_bind (parse_members k (skip_ws r)) (\<lambda>(ms, r'). Inr (JObj (dict_of ms), r')))
          else if c = 91 then
            (if starts_with [93] (skip_ws r) then Inr (JArr [], tl (skip_ws r))
             else res_bind (parse_elems k (skip_ws r)) (\<lambda>(xs, r'). Inr (JArr xs, r')))
          else parse_atom cs)"
| "parse_elems 0 cs = Inl Diverges"
| "parse_elems (Suc k) cs =
     res_bind (parse_value k cs) (\<lambda>(v, r).
       case skip_ws r of [] \<Rightarrow> Inl ValueError
       | c # r' \<Rightarrow>
           if c = 93 then Inr ([v], r')
           else if c = 44 then res_bind (parse_elems k (skip_ws r')) (\<lambda>(vs, r''). Inr (v # vs, r''))
           else Inl ValueError)"
| "parse_members 0 cs = Inl Diverges"
| "parse_members (Suc k) cs =
     (case cs of [] \<Rightarrow> Inl ValueError
      | q # r \<Rightarrow>
          if q \<noteq> 34 then Inl ValueError
          else res_bind (parse_string r) (\<lambda>(key, r1).
            case skip_ws r1 of [] \<Rightarrow> Inl ValueError
            | c # r2 \<Rightarrow>
                if c \<noteq> 58 then Inl ValueError
                else res_bind (parse_value k (skip_ws r2)) (\<lambda>(v, r3).
                  case skip_ws r3 of [] \<Rightarrow> Inl ValueError
                  | e # r4 \<Rightarrow>
                      if e = 125 then Inr ([(key, v)], r4)
                      else if e = 44 then
                        res_bind (parse_members k (skip_ws r4)) (\<lambda>(ms, r5). Inr ((key, v) # ms, r5))
                      else Inl ValueError)))"

definition loads_text :: "ustring \<Rightarrow> json res" where
  "loads_text cs =
     res_bind (parse_value (Suc (length cs)) (skip_ws cs)) (\<lambda>(v, r).
       if skip_ws r = [] then Inr v else Inl ValueError)"

text \<open>
  \<^verbatim>\<open>json.loads\<close> of bytes. Bytes that start with a zero byte among the first two or with a byte
  order mark are decoded from UTF-16 or UTF-32; the program writes none, and the model
  refuses them.
\<close>

definition loads :: "bytes \<Rightarrow> json res" where
  "loads bs =
     (if (\<exists>b \<in> set (take 2 bs). b = 0) \<or> take 1 bs \<in> {[254], [255]} \<or> take 3 bs = [239, 187, 191]
      then Inl ValueError
      else res_bind (utf8_decode bs) loads_text)"

section \<open>Reading back what was written\<close>

definition str_ok :: "ustring \<Rightarrow> bool" where
  "str_ok s \<longleftrightarrow> (\<forall>c \<in> set s. c < 1114112 \<and> \<not> is_surrogate c)"

fun json_ok :: "json \<Rightarrow> bool" where
  "json_ok (JFloat f) = False"
| "json_ok (JStr s) = str_ok s"
| "json_ok (JArr xs) = (\<forall>x \<in> set xs. json_ok x)"
| "json_ok (JObj ms) = (distinct (map fst ms) \<and> (\<forall>(k, v) \<in> set ms. str_ok k \<and> json_ok v))"
| "json_ok _ = True"

subsection \<open>Strings\<close>

lemma hex_value_digit: "n < 16 \<Longrightarrow> hex_value (hex_digit n) = Some n"
  by (auto simp: hex_value_def hex_digit_def)

lemma hex_recombine:
  "(c :: nat) = 16 * x + a \<Longrightarrow> x = 16 * y + b \<Longrightarrow> y = 16 * z + d \<Longrightarrow> z * 4096 + d * 256 + b * 16 + a = c"
  by simp

lemma scan_hex4_hex4:
  assumes "c < 65536"
  shows "scan_hex4 (hex4 c @ r) = Inr (c, r)"
proof -
  have d: "c div 256 = c div 16 div 16" "c div 4096 = c div 16 div 16 div 16"
    by (simp_all add: div_mult2_eq [symmetric])
  have lt: "c div 16 div 16 div 16 < 16" using assms by (simp add: d [symmetric] less_mult_imp_div_less)
  then have "c div 4096 mod 16 = c div 16 div 16 div 16" by (simp add: d)
  moreover have "c div 16 div 16 div 16 * 4096 + c div 256 mod 16 * 256 + c div 16 mod 16 * 16 + c mod 16 = c"
    unfolding d by (rule hex_recombine) simp_all
  ultimately show ?thesis using lt by (simp add: scan_hex4_def hex4_def hex_value_digit)
qed

lemma scan_char_escape:
  assumes "c < 1114112" and "\<not> is_surrogate c"
  shows "scan_char (escape_char c @ r) = Inr (Some c, r)"
proof -
  have hi: "(c - 65536) div 1024 < 1024" using assms(1) by (simp add: less_mult_imp_div_less)
  have lo: "(c - 65536) mod 1024 < 1024" by simp
  have c: "65536 + (c - 65536) div 1024 * 1024 + (c - 65536) mod 1024 = c" if "65536 \<le> c"
    using that div_mult_mod_eq [of "c - 65536" 1024] by linarith
  consider "c < 65536" | "65536 \<le> c" by linarith
  then show ?thesis
  proof cases
    case 1
    then show ?thesis using assms
      by (auto simp: escape_char_def scan_char_def unescape_def scan_u_def scan_hex4_hex4 is_surrogate_def)
  next
    case 2
    then show ?thesis using hi lo c
      by (simp add: escape_char_def scan_char_def scan_u_def scan_hex4_hex4)
  qed
qed

lemma scan_string_dump:
  "str_ok s \<Longrightarrow> length s < k \<Longrightarrow> scan_string k (concat (map escape_char s) @ 34 # r) = Inr (s, r)"
proof (induction s arbitrary: k)
  case Nil
  then obtain k' where "k = Suc k'" by (cases k) auto
  then show ?case by (simp add: scan_char_def)
next
  case (Cons c s)
  then obtain k' where k: "k = Suc k'" by (cases k) auto
  have "str_ok s" "c < 1114112" "\<not> is_surrogate c" using Cons.prems by (auto simp: str_ok_def)
  with Cons.IH [of k'] Cons.prems k show ?case by (simp add: scan_char_escape)
qed

lemma length_escape_char: "0 < length (escape_char c)"
  by (simp add: escape_char_def)

lemma length_escapes: "length s \<le> length (concat (map escape_char s))"
proof (induction s)
  case (Cons c s)
  have "1 \<le> length (escape_char c)" using length_escape_char [of c] by linarith
  with Cons show ?case by simp
qed simp

lemma parse_string_dump:
  "str_ok s \<Longrightarrow> parse_string (concat (map escape_char s) @ 34 # r) = Inr (s, r)"
  unfolding parse_string_def using length_escapes [of s] by (intro scan_string_dump) auto

subsection \<open>Numbers\<close>

lemma nat_digits_digits: "\<forall>c \<in> set (nat_digits n). is_digit c"
proof (induction n rule: nat_digits.induct)
  case (1 n)
  then show ?case by (subst nat_digits.simps) (auto simp: is_digit_def)
qed

lemma nat_digits_ne: "nat_digits n \<noteq> []"
  by (subst nat_digits.simps) simp

lemma digits_nat_nat_digits: "digits_nat (nat_digits n) = n"
proof (induction n rule: nat_digits.induct)
  case (1 n)
  then show ?case
    by (subst nat_digits.simps) (auto simp: digits_nat_def)
qed

lemma nat_digits_hd: "hd (nat_digits n) = 48 \<longleftrightarrow> n = 0"
proof (induction n rule: nat_digits.induct)
  case (1 n)
  show ?case
  proof (cases "n < 10")
    case True
    then show ?thesis by (subst nat_digits.simps) simp
  next
    case False
    then have "hd (nat_digits n) = hd (nat_digits (n div 10))"
      by (subst nat_digits.simps) (simp add: nat_digits_ne)
    with 1 False show ?thesis by (simp add: div_eq_0_iff)
  qed
qed

lemma scan_int_nat_digits:
  assumes "rest = [] \<or> \<not> is_digit (hd rest)"
  shows "scan_int (nat_digits n @ rest) = nat_digits n"
proof -
  have tw: "takeWhile is_digit (nat_digits n @ rest) = nat_digits n"
    using nat_digits_digits [of n] assms by (cases rest) (auto simp: takeWhile_append)
  show ?thesis
  proof (cases "n = 0")
    case True
    then show ?thesis by (simp add: scan_int_def nat_digits.simps)
  next
    case False
    then obtain c cs where c: "nat_digits n = c # cs" "c \<noteq> 48"
      using nat_digits_hd [of n] nat_digits_ne [of n] by (cases "nat_digits n") auto
    then show ?thesis using tw by (simp add: scan_int_def)
  qed
qed

lemma digit_run_digits: "ds \<noteq> [] \<Longrightarrow> \<forall>c \<in> set ds. is_digit c \<Longrightarrow> digit_run ds = Some ds"
proof (induction ds rule: digit_run.induct)
  case (3 c d cs)
  then have "d \<noteq> 95" by (auto simp: is_digit_def)
  with 3 show ?case by simp
qed simp_all

lemma py_strip_id: "\<forall>c \<in> set s. \<not> is_space c \<Longrightarrow> py_strip s = s"
proof -
  assume "\<forall>c \<in> set s. \<not> is_space c"
  then have "dropWhile is_space t = t" if "set t = set s" for t
    using that by (cases t) auto
  then show ?thesis by (simp add: py_strip_def)
qed

lemma digit_not_space: "is_digit c \<Longrightarrow> \<not> is_space c"
  by (auto simp: is_digit_def is_space_def)

lemma int_str_cases:
  obtains n where "int_str i = (if i < 0 then 45 # nat_digits n else nat_digits n)" and "int n = \<bar>i\<bar>"
  by (rule that [of "nat \<bar>i\<bar>"]) (simp_all add: int_str_def)

lemma nat_digits_Cons:
  obtains c cs where "nat_digits n = c # cs" and "is_digit c" and "\<forall>x \<in> set cs. is_digit x"
  using nat_digits_ne [of n] nat_digits_digits [of n] by (cases "nat_digits n") auto

lemma int_of_str_int_str: "int_of_str (int_str i) = Inr i"
proof -
  obtain n where n: "int_str i = (if i < 0 then 45 # nat_digits n else nat_digits n)" "int n = \<bar>i\<bar>"
    by (rule int_str_cases)
  obtain c cs where c: "nat_digits n = c # cs" "is_digit c" "\<forall>x \<in> set cs. is_digit x" by (rule nat_digits_Cons)
  have run: "digit_run (nat_digits n) = Some (nat_digits n)" using c by (intro digit_run_digits) auto
  have "py_strip (int_str i) = int_str i"
    using c by (intro py_strip_id) (auto simp: n(1) digit_not_space, auto simp: is_space_def)
  moreover have "c \<noteq> 45" "c \<noteq> 43" using c(2) by (auto simp: is_digit_def)
  ultimately show ?thesis
    using run c(1) digits_nat_nat_digits [of n] n by (auto simp: int_of_str_def strip_sign_def split: if_splits)
qed

definition rest_ok :: "ustring \<Rightarrow> bool" where
  "rest_ok r \<longleftrightarrow> r = [] \<or> hd r = 44 \<or> hd r = 93 \<or> hd r = 125 \<or> is_ws (hd r)"

lemma parse_number_int:
  assumes "rest_ok rest"
  shows "parse_number (int_str i @ rest) = Inr (JInt i, rest)"
proof -
  obtain n where n: "int_str i = (if i < 0 then 45 # nat_digits n else nat_digits n)" by (rule int_str_cases)
  define sg where "sg = (if i < 0 then [45 :: nat] else [])"
  have s: "int_str i = sg @ nat_digits n" by (simp add: n sg_def)
  obtain c cs where c: "nat_digits n = c # cs" "is_digit c" by (rule nat_digits_Cons)
  have sign: "(if starts_with [45] (int_str i @ rest) then [45] else []) = sg"
    using c by (auto simp: s sg_def starts_with_def is_digit_def)
  have int: "scan_int (nat_digits n @ rest) = nat_digits n"
    using assms by (intro scan_int_nat_digits) (auto simp: rest_ok_def is_digit_def is_ws_def)
  have fe: "scan_frac rest = []" "scan_exp rest = []"
    using assms by (auto simp: rest_ok_def scan_frac_def scan_exp_def is_ws_def split: list.splits)
  have num: "int_of_str (sg @ nat_digits n) = Inr i" using int_of_str_int_str [of i] by (simp add: s)
  show ?thesis
    unfolding parse_number_def sign using int fe num nat_digits_ne [of n]
    by (simp add: s Let_def)
qed

subsection \<open>Values\<close>

lemma dict_of_distinct:
  assumes "distinct (map fst ms)"
  shows "dict_of ms = ms"
proof -
  have "foldl (\<lambda>d (k, v). AList.update k v d) acc ms = acc @ ms"
    if "distinct (map fst (acc @ ms))" for acc
    using that
  proof (induction ms arbitrary: acc)
    case (Cons m ms)
    obtain k v where m: "m = (k, v)" by (cases m)
    have "k \<notin> fst ` set acc" using Cons.prems m by auto
    then have "AList.update k v acc = acc @ [(k, v)]" by (induction acc) auto
    with Cons.IH [of "acc @ [(k, v)]"] Cons.prems m show ?case by simp
  qed simp
  from this [of "[]"] assms show ?thesis by (simp add: dict_of_def)
qed

lemma dump_start:
  assumes "json_ok j"
  shows "\<exists>c cs. dump_with nl colon d j = c # cs \<and> \<not> is_ws c \<and> c \<noteq> 93 \<and> c \<noteq> 125"
proof (cases j)
  case (JInt i)
  obtain n where n: "int_str i = (if i < 0 then 45 # nat_digits n else nat_digits n)" by (rule int_str_cases)
  obtain c cs where "nat_digits n = c # cs" "is_digit c" by (rule nat_digits_Cons)
  then show ?thesis using JInt by (auto simp: n is_ws_def is_digit_def)
qed (use assms in \<open>auto simp: is_ws_def u_def dump_string_def\<close>)

abbreviation all_ws :: "ustring \<Rightarrow> bool" where
  "all_ws w \<equiv> list_all is_ws w"

lemma skip_ws_append: "all_ws w \<Longrightarrow> skip_ws (w @ r) = skip_ws r"
  by (simp add: skip_ws_def list_all_iff)

lemma skip_ws_start: "\<not> is_ws c \<Longrightarrow> skip_ws (c # cs) = c # cs"
  by (simp add: skip_ws_def)

lemma skip_ws_dump: "json_ok j \<Longrightarrow> skip_ws (dump_with nl colon d j @ r) = dump_with nl colon d j @ r"
  using dump_start [of j nl colon d] by (auto simp: skip_ws_def)

lemma skip_ws_marks [simp]:
  "skip_ws (34 # r) = 34 # r" "skip_ws (44 # r) = 44 # r" "skip_ws (58 # r) = 58 # r"
  "skip_ws (93 # r) = 93 # r" "skip_ws (125 # r) = 125 # r" "skip_ws [] = []"
  by (simp_all add: skip_ws_def is_ws_def)

lemma rest_ok_ws: "all_ws w \<Longrightarrow> rest_ok r \<Longrightarrow> rest_ok (w @ r)"
  by (cases w) (auto simp: rest_ok_def)

lemma rest_ok_marks [simp]: "rest_ok (44 # r)" "rest_ok (93 # r)" "rest_ok (125 # r)"
  by (simp_all add: rest_ok_def)

text \<open>\<open>reads f x\<close>: the text \<open>f x\<close> is read back as \<open>x\<close>, whatever admissible text follows.\<close>

definition reads :: "ustring \<Rightarrow> json \<Rightarrow> bool" where
  "reads t x \<longleftrightarrow> (\<forall>k rest. rest_ok rest \<longrightarrow> length t \<le> k \<longrightarrow> parse_value k (t @ rest) = Inr (x, rest))"

lemma readsI:
  assumes "t \<noteq> []" and "\<And>k rest. rest_ok rest \<Longrightarrow> length t \<le> Suc k \<Longrightarrow> parse_value (Suc k) (t @ rest) = Inr (x, rest)"
  shows "reads t x"
  unfolding reads_def
proof (intro allI impI)
  fix k rest assume "rest_ok rest" and k: "length t \<le> k"
  with assms show "parse_value k (t @ rest) = Inr (x, rest)" by (cases k) auto
qed

lemma readsD: "reads t x \<Longrightarrow> rest_ok rest \<Longrightarrow> length t \<le> k \<Longrightarrow> parse_value k (t @ rest) = Inr (x, rest)"
  by (simp add: reads_def)

lemma parse_elems_dump:
  assumes "all_ws w" and "all_ws w'"
    and "\<And>x. x \<in> set xs \<Longrightarrow> reads (f x) x \<and> (\<forall>r. skip_ws (f x @ r) = f x @ r)" and "xs \<noteq> []"
    and "length (join_with (44 # w) (map f xs)) < k"
  shows "parse_elems k (join_with (44 # w) (map f xs) @ w' @ 93 # rest) = Inr (xs, rest)"
  using assms(3-)
proof (induction xs arbitrary: k)
  case (Cons x xs)
  then obtain k' where k: "k = Suc k'" by (cases k) auto
  have x: "reads (f x) x" using Cons.prems(1) by simp
  show ?case
  proof (cases xs)
    case Nil
    then have "parse_value k' (f x @ w' @ 93 # rest) = Inr (x, w' @ 93 # rest)"
      using x Cons.prems(3) k rest_ok_ws [OF assms(2)] by (simp add: reads_def)
    then show ?thesis using Nil by (simp add: k skip_ws_append [OF assms(2)])
  next
    case (Cons y ys)
    let ?t = "join_with (44 # w) (map f xs) @ w' @ 93 # rest"
    have len: "length (f x) \<le> k'" "length (join_with (44 # w) (map f xs)) < k'"
      using Cons.prems(3) k Cons by auto
    have head: "parse_value k' (f x @ 44 # w @ ?t) = Inr (x, 44 # w @ ?t)"
      using x len by (simp add: reads_def)
    have tail: "parse_elems k' ?t = Inr (xs, rest)"
      using Cons.prems len Cons by (intro Cons.IH) auto
    have sk: "skip_ws ?t = ?t" using Cons.prems(1) [of y] Cons by (cases ys) auto
    show ?thesis using head tail sk k Cons by (simp add: skip_ws_append [OF assms(1)])
  qed
qed simp

lemma parse_members_dump:
  fixes f :: "json \<Rightarrow> ustring" and cw :: ustring
  defines "mem \<equiv> \<lambda>(key, v). dump_string key @ (58 # cw) @ f v"
  assumes "all_ws w" and "all_ws w'" and "all_ws cw"
    and "\<And>key v. (key, v) \<in> set ms \<Longrightarrow> str_ok key \<and> reads (f v) v \<and> (\<forall>r. skip_ws (f v @ r) = f v @ r)" and "ms \<noteq> []"
    and "length (join_with (44 # w) (map mem ms)) < k"
  shows "parse_members k (join_with (44 # w) (map mem ms) @ w' @ 125 # rest) = Inr (ms, rest)"
  using assms(5-)
proof (induction ms arbitrary: k)
  case (Cons m ms)
  obtain key v where m: "m = (key, v)" by (cases m)
  from Cons.prems(3) obtain k' where k: "k = Suc k'" by (cases k) auto
  have ok: "str_ok key" "reads (f v) v" "\<And>r. skip_ws (f v @ r) = f v @ r" using Cons.prems(1) m by auto
  note str = parse_string_dump [OF ok(1)]
  show ?case
  proof (cases ms)
    case Nil
    have "parse_value k' (f v @ w' @ 125 # rest) = Inr (v, w' @ 125 # rest)"
      using ok(2) Cons.prems(3) k m Nil rest_ok_ws [OF assms(3)] by (simp add: reads_def mem_def)
    then show ?thesis using str k m Nil ok(3) by (simp add: dump_string_def mem_def skip_ws_append [OF assms(3)] skip_ws_append [OF assms(4)])
  next
    case (Cons n ns)
    let ?t = "join_with (44 # w) (map mem ms) @ w' @ 125 # rest"
    have len: "length (f v) \<le> k'" "length (join_with (44 # w) (map mem ms)) < k'"
      using Cons.prems(3) k Cons m by (auto simp: mem_def)
    have head: "parse_value k' (f v @ 44 # w @ ?t) = Inr (v, 44 # w @ ?t)"
      using ok(2) len by (simp add: reads_def)
    have tail: "parse_members k' ?t = Inr (ms, rest)"
      using Cons.prems len Cons by (intro Cons.IH) auto
    obtain t' where "?t = 34 # t'" using Cons by (cases n; cases ns) (auto simp: dump_string_def mem_def)
    then have sk: "skip_ws ?t = ?t" by simp
    show ?thesis using head tail sk k Cons m ok(3) str
      by (simp add: dump_string_def mem_def skip_ws_append [OF assms(2)] skip_ws_append [OF assms(4)])
  qed
qed simp

lemma reads_int: "reads (int_str i) (JInt i)"
proof -
  obtain n where n: "int_str i = (if i < 0 then 45 # nat_digits n else nat_digits n)" by (rule int_str_cases)
  obtain d ds where d: "nat_digits n = d # ds" "is_digit d" "\<forall>x \<in> set ds. is_digit x" by (rule nat_digits_Cons)
  obtain c cs where c: "int_str i = c # cs" "is_digit c \<or> c = 45" "\<forall>x \<in> set cs. is_digit x"
    by (rule that [of "hd (int_str i)" "tl (int_str i)"]) (use d in \<open>auto simp: n\<close>)
  show ?thesis
  proof (rule readsI)
    fix k rest assume r: "rest_ok rest"
    have "cs @ rest = [] \<or> hd (cs @ rest) \<noteq> 73"
      using r c(3) by (cases cs) (auto simp: rest_ok_def is_digit_def is_ws_def)
    then have "parse_atom (int_str i @ rest) = parse_number (int_str i @ rest)"
      using c by (cases "cs @ rest") (auto simp: parse_atom_def starts_with_def u_def is_digit_def)
    then show "parse_value (Suc k) (int_str i @ rest) = Inr (JInt i, rest)"
      using c parse_number_int [OF r, of i] by (auto simp: is_digit_def)
  qed (simp add: c(1))
qed

lemma reads_dump:
  assumes nl: "\<And>d. all_ws (nl d)" and cw: "all_ws cw"
  shows "json_ok j \<Longrightarrow> reads (dump_with nl (58 # cw) d j) j"
proof (induction j arbitrary: d)
  case JNull
  show ?case by (rule readsI) (simp_all add: u_def parse_atom_def starts_with_def)
next
  case (JBool b)
  show ?case by (rule readsI) (cases b; simp add: u_def parse_atom_def starts_with_def)+
next
  case (JInt i)
  then show ?case by (simp add: reads_int)
next
  case (JStr s)
  then show ?case by (intro readsI) (simp_all add: dump_string_def parse_string_dump)
next
  case (JArr xs)
  let ?f = "dump_with nl (58 # cw) (Suc d)"
  show ?case unfolding reads_def
  proof (intro allI impI)
    fix k rest assume kl: "length (dump_with nl (58 # cw) d (JArr xs)) \<le> k"
    then obtain k' where k: "k = Suc k'" by (cases k) (auto split: if_splits)
    show "parse_value k (dump_with nl (58 # cw) d (JArr xs) @ rest) = Inr (JArr xs, rest)"
    proof (cases xs)
      case Nil
      then show ?thesis by (simp add: k starts_with_def)
    next
      case (Cons y ys)
      let ?t = "join_with (44 # nl (Suc d)) (map ?f xs) @ nl d @ 93 # rest"
      have elems: "parse_elems k' ?t = Inr (xs, rest)"
        using JArr Cons k kl by (intro parse_elems_dump nl) (auto simp: skip_ws_dump)
      obtain c t' where t: "?t = c # t'" "\<not> is_ws c" "c \<noteq> 93"
        using dump_start [of y nl "58 # cw" "Suc d"] JArr.prems(1) Cons by (cases ys) auto
      then have "skip_ws ?t = ?t" "\<not> starts_with [93] ?t" by (simp_all add: skip_ws_start starts_with_def)
      with elems Cons show ?thesis by (simp add: k skip_ws_append [OF nl])
    qed
  qed
next
  case (JObj ms)
  let ?f = "dump_with nl (58 # cw) (Suc d)"
  let ?mem = "\<lambda>(key, v). dump_string key @ (58 # cw) @ ?f v"
  show ?case unfolding reads_def
  proof (intro allI impI)
    fix k rest assume kl: "length (dump_with nl (58 # cw) d (JObj ms)) \<le> k"
    then obtain k' where k: "k = Suc k'" by (cases k) (auto split: if_splits)
    show "parse_value k (dump_with nl (58 # cw) d (JObj ms) @ rest) = Inr (JObj ms, rest)"
    proof (cases ms)
      case Nil
      then show ?thesis by (simp add: k starts_with_def dict_of_def)
    next
      case (Cons n ns)
      let ?t = "join_with (44 # nl (Suc d)) (map ?mem ms) @ nl d @ 125 # rest"
      have IH: "str_ok key \<and> reads (?f v) v \<and> (\<forall>r. skip_ws (?f v @ r) = ?f v @ r)" if "(key, v) \<in> set ms" for key v
        using that JObj.prems(1) JObj.IH [of "(key, v)" v "Suc d"] by (force simp: skip_ws_dump)
      have mems: "parse_members k' ?t = Inr (ms, rest)"
        using Cons k kl by (intro parse_members_dump nl cw IH) auto
      obtain t' where "?t = 34 # t'" using Cons by (cases n; cases ns) (auto simp: dump_string_def)
      then have "skip_ws ?t = ?t" "\<not> starts_with [125] ?t" by (simp_all add: starts_with_def)
      with mems JObj.prems(1) Cons show ?thesis by (simp add: k dict_of_distinct skip_ws_append [OF nl])
    qed
  qed
qed simp

lemma loads_text_dump:
  assumes "\<And>d. all_ws (nl d)" and "all_ws cw" and "json_ok j"
  shows "loads_text (dump_with nl (58 # cw) 0 j) = Inr j"
  using readsD [OF reads_dump [of nl cw j 0, OF assms], of "[]" "Suc (length (dump_with nl (58 # cw) 0 j))"]
    skip_ws_dump [OF assms(3), of nl "58 # cw" 0 "[]"]
  by (simp add: loads_text_def rest_ok_def del: parse_value.simps)

lemma loads_text_dumps: "json_ok j \<Longrightarrow> loads_text (dumps j) = Inr j"
  unfolding dumps_def by (rule loads_text_dump) simp_all

lemma loads_text_dumps_indented: "json_ok j \<Longrightarrow> loads_text (dumps_indented j) = Inr j"
  unfolding dumps_indented_def by (rule loads_text_dump) (simp_all add: list_all_iff is_ws_def)

subsection \<open>Bytes\<close>

text \<open>The output of \<^verbatim>\<open>dumps\<close> is printable ASCII.\<close>

definition printable :: "ustring \<Rightarrow> bool" where
  "printable s \<longleftrightarrow> (\<forall>c \<in> set s. 32 \<le> c \<and> c \<le> 126)"

lemma printable_append [simp]: "printable (a @ b) \<longleftrightarrow> printable a \<and> printable b"
  by (auto simp: printable_def)

lemma printable_Cons [simp]: "printable (c # b) \<longleftrightarrow> 32 \<le> c \<and> c \<le> 126 \<and> printable b"
  by (auto simp: printable_def)

lemma printable_Nil [simp]: "printable []"
  by (simp add: printable_def)

lemma printable_hex4: "printable (hex4 c)"
proof -
  have "32 \<le> hex_digit n \<and> hex_digit n \<le> 126" if "n < 16" for n using that by (simp add: hex_digit_def)
  then show ?thesis by (simp add: hex4_def)
qed

lemma printable_escape: "printable (escape_char c)"
  by (simp add: escape_char_def printable_hex4)

lemma printable_dump_string: "printable (dump_string s)"
proof -
  have "printable (concat (map escape_char s))" by (induction s) (simp_all add: printable_escape)
  then show ?thesis by (simp add: dump_string_def)
qed

lemma printable_join: "printable sep \<Longrightarrow> (\<forall>x \<in> set xs. printable x) \<Longrightarrow> printable (join_with sep xs)"
  by (induction sep xs rule: join_with.induct) simp_all

lemma printable_dump:
  assumes "\<And>d. printable (nl d)" and "printable colon"
  shows "json_ok j \<Longrightarrow> printable (dump_with nl colon d j)"
proof (induction j arbitrary: d)
  case (JInt i)
  obtain n where n: "int_str i = (if i < 0 then 45 # nat_digits n else nat_digits n)" by (rule int_str_cases)
  have "printable (nat_digits n)" using nat_digits_digits [of n] by (auto simp: printable_def is_digit_def)
  then show ?case by (simp add: n)
next
  case (JObj ms)
  then have "printable (dump_string k @ colon @ dump_with nl colon (Suc d) v)" if "(k, v) \<in> set ms" for k v
    using that by (force simp: printable_dump_string assms)
  then show ?case by (auto intro!: printable_join simp: printable_dump_string assms)
qed (auto simp: u_def printable_dump_string assms intro!: printable_join)

lemma printable_dumps: "json_ok j \<Longrightarrow> printable (dumps j)"
  unfolding dumps_def by (rule printable_dump) simp_all

lemma utf8_encode_printable:
  assumes "printable s"
  obtains bs where "utf8_encode s = Inr bs" and "length bs = length s" and "\<forall>b \<in> set bs. 32 \<le> unat b \<and> unat b \<le> 126"
proof -
  have "res_map utf8_encode_char s = Inr (map (\<lambda>c. [byte_of c]) s)"
    using assms by (induction s) (simp_all add: utf8_encode_char_def)
  then have "utf8_encode s = Inr (map byte_of s)" by (simp add: utf8_encode_def concat_map_singleton)
  moreover have "\<forall>b \<in> set (map byte_of s). 32 \<le> unat b \<and> unat b \<le> 126"
    using assms by (auto simp: printable_def)
  ultimately show ?thesis by (intro that [of "map byte_of s"]) simp_all
qed

text \<open>\<^verbatim>\<open>json.loads(json.dumps(j).encode("utf-8"))\<close> is \<open>j\<close>.\<close>

lemma loads_dumps:
  assumes "json_ok j"
  obtains bs where "utf8_encode (dumps j) = Inr bs" and "length bs = length (dumps j)" and "loads bs = Inr j"
proof -
  obtain bs where bs: "utf8_encode (dumps j) = Inr bs" "length bs = length (dumps j)"
    "\<forall>b \<in> set bs. 32 \<le> unat b \<and> unat b \<le> 126"
    by (rule utf8_encode_printable [OF printable_dumps [OF assms]])
  have b: "b \<noteq> 0" "b \<noteq> 254" "b \<noteq> 255" "b \<noteq> 239" if "b \<in> set bs" for b using bs(3) that by auto
  have "b \<in> set bs" if "b \<in> set (take n bs)" for b n using that by (rule in_set_takeD)
  then have "\<not> ((\<exists>b \<in> set (take 2 bs). b = 0) \<or> take 1 bs \<in> {[254], [255]} \<or> take 3 bs = [239, 187, 191])"
    using b by (metis insertE list.set_intros(1) singletonD)
  then have "loads bs = res_bind (utf8_decode bs) loads_text" unfolding loads_def by (rule if_not_P)
  then have "loads bs = Inr j" using utf8_roundtrip [OF bs(1)] loads_text_dumps [OF assms] by simp
  with bs show ?thesis by (intro that)
qed

end
