(* ===== verification/Write_Ahead_Log.thy ===== *)
theory Write_Ahead_Log
  imports Json
begin

text \<open>
  The write-ahead log (\<^verbatim>\<open>wal.py\<close>). The state is the bytes appended so far, how many of them
  an \<^verbatim>\<open>fsync\<close> has made durable, and whether the file is closed. Reading works on the bytes that
  a later process finds: any prefix of the appended bytes that contains the durable part,
  since a crash can cut the rest anywhere. The main lemmas: the records read from a cut log
  are exactly those that lie completely inside the cut, and everything up to the last
  commit or checkpoint is among them.
\<close>

section \<open>Records\<close>

datatype record_type = R_BEGIN | R_OP | R_COMMIT | R_ABORT | R_CHECKPOINT

fun record_type_value :: "record_type \<Rightarrow> nat" where
  "record_type_value R_BEGIN = 1"
| "record_type_value R_OP = 2"
| "record_type_value R_COMMIT = 3"
| "record_type_value R_ABORT = 4"
| "record_type_value R_CHECKPOINT = 5"

text \<open>\<^verbatim>\<open>RecordType(n)\<close>.\<close>

definition record_type_of :: "nat \<Rightarrow> record_type res" where
  "record_type_of n =
     (if n = 1 then Inr R_BEGIN else if n = 2 then Inr R_OP else if n = 3 then Inr R_COMMIT
      else if n = 4 then Inr R_ABORT else if n = 5 then Inr R_CHECKPOINT else Inl ValueError)"

record log_record =
  lr_offset :: nat
  lr_type :: record_type
  lr_txn_id :: nat
  lr_payload :: json

definition LOG_HEADER_SIZE :: nat where
  "LOG_HEADER_SIZE = 9"

section \<open>Appending\<close>

record wal =
  wl_bytes :: bytes
  wl_synced :: nat
  wl_closed :: bool

definition wal_open :: "bytes option \<Rightarrow> wal" where
  "wal_open existing =
     (let f = (case existing of None \<Rightarrow> [] | Some f \<Rightarrow> f)
      in \<lparr>wl_bytes = f, wl_synced = length f, wl_closed = False\<rparr>)"

text \<open>Any use of a closed file raises.\<close>

definition wal_op :: "(wal \<Rightarrow> 'a \<times> wal) \<Rightarrow> (wal, 'a) py" where
  "wal_op f = (\<lambda>w. if wl_closed w then (Inl ValueError, w) else (case f w of (x, w') \<Rightarrow> (Inr x, w')))"

definition wal_write :: "bytes \<Rightarrow> (wal, unit) py" where
  "wal_write b = wal_op (\<lambda>w. ((), w\<lparr>wl_bytes := wl_bytes w @ b\<rparr>))"

definition pack_log_header :: "record_type \<Rightarrow> nat \<Rightarrow> nat \<Rightarrow> bytes res" where
  "pack_log_header rt txn_id payload_len =
     res_bind (pack_uint 1 (record_type_value rt)) (\<lambda>a.
     res_bind (pack_uint 4 txn_id) (\<lambda>b.
     res_bind (pack_uint 4 payload_len) (\<lambda>c. Inr (a @ b @ c))))"

definition wal_append :: "record_type \<Rightarrow> nat \<Rightarrow> (ustring \<times> json) list \<Rightarrow> (wal, nat) py" where
  "wal_append rt txn_id payload =
     py_bind (py_lift (if payload \<noteq> [] then utf8_encode (dumps (JObj payload)) else Inr [])) (\<lambda>body.
     py_bind (wal_op (\<lambda>w. (length (wl_bytes w), w))) (\<lambda>offset.
     py_bind (py_lift (pack_log_header rt txn_id (length body))) (\<lambda>header.
     py_seq (wal_write header)
    (py_seq (wal_write body)
            (py_return offset)))))"

definition wal_flush :: "(wal, unit) py" where
  "wal_flush = wal_op (\<lambda>w. ((), w\<lparr>wl_synced := length (wl_bytes w)\<rparr>))"

definition wal_close :: "(wal, unit) py" where
  "wal_close = py_modify (\<lambda>w. w\<lparr>wl_closed := True\<rparr>)"

definition log_begin :: "nat \<Rightarrow> (wal, nat) py" where
  "log_begin txn_id = wal_append R_BEGIN txn_id []"

definition log_operation :: "nat \<Rightarrow> ustring \<Rightarrow> (ustring \<times> json) list \<Rightarrow> (wal, nat) py" where
  "log_operation txn_id kind kwargs = wal_append R_OP txn_id ((u ''kind'', JStr kind) # kwargs)"

definition log_commit :: "nat \<Rightarrow> (wal, nat) py" where
  "log_commit txn_id =
     py_bind (wal_append R_COMMIT txn_id []) (\<lambda>offset. py_seq wal_flush (py_return offset))"

definition log_abort :: "nat \<Rightarrow> (wal, nat) py" where
  "log_abort txn_id = wal_append R_ABORT txn_id []"

definition log_checkpoint :: "(wal, nat) py" where
  "log_checkpoint =
     py_bind (wal_append R_CHECKPOINT 0 []) (\<lambda>offset. py_seq wal_flush (py_return offset))"

section \<open>Reading\<close>

text \<open>\<^verbatim>\<open>_iter_records\<close> on the bytes from the position of the handle on.\<close>

function iter_records :: "nat \<Rightarrow> bytes \<Rightarrow> log_record list res" where
  "iter_records offset data =
     (if length data < LOG_HEADER_SIZE then Inr []
      else
        let record_type = le_nat (take 1 data);
            txn_id = le_nat (take 4 (drop 1 data));
            payload_len = le_nat (take 4 (drop 5 data));
            rest = drop LOG_HEADER_SIZE data;
            body = take payload_len rest
        in if length body < payload_len then Inr []
           else
             res_bind (if body \<noteq> [] then loads body else Inr (JObj [])) (\<lambda>payload.
             res_bind (record_type_of record_type) (\<lambda>rt.
             res_bind (iter_records (offset + LOG_HEADER_SIZE + payload_len) (drop payload_len rest)) (\<lambda>records.
             Inr (\<lparr>lr_offset = offset, lr_type = rt, lr_txn_id = txn_id, lr_payload = payload\<rparr> # records)))))"
  by pat_completeness auto
termination
  by (relation "measure (\<lambda>(_, data). length data)") (auto simp: LOG_HEADER_SIZE_def)

declare iter_records.simps [simp del]

definition read_all :: "bytes \<Rightarrow> log_record list res" where
  "read_all file = iter_records 0 file"

text \<open>The loop that remembers the index of the last checkpoint.\<close>

fun last_checkpoint :: "nat \<Rightarrow> log_record list \<Rightarrow> nat option \<Rightarrow> nat option" where
  "last_checkpoint i [] found = found"
| "last_checkpoint i (r # rs) found =
     last_checkpoint (Suc i) rs (if lr_type r = R_CHECKPOINT then Some i else found)"

definition read_since_last_checkpoint :: "bytes \<Rightarrow> log_record list res" where
  "read_since_last_checkpoint file =
     res_bind (read_all file) (\<lambda>all_records.
       case last_checkpoint 0 all_records None of
         None \<Rightarrow> Inr all_records
       | Some i \<Rightarrow> Inr (drop (i + 1) all_records))"

section \<open>What the log holds\<close>

text \<open>An entry as it was logged: its type, its transaction and its payload.\<close>

type_synonym log_entry = "record_type \<times> nat \<times> (ustring \<times> json) list"

definition payload_bytes :: "(ustring \<times> json) list \<Rightarrow> bytes" where
  "payload_bytes p = (if p = [] then [] else (case utf8_encode (dumps (JObj p)) of Inl _ \<Rightarrow> [] | Inr bs \<Rightarrow> bs))"

fun entry_bytes :: "log_entry \<Rightarrow> bytes" where
  "entry_bytes (rt, txn, p) =
     le_bytes 1 (record_type_value rt) @ le_bytes 4 txn @ le_bytes 4 (length (payload_bytes p)) @ payload_bytes p"

fun entry_ok :: "log_entry \<Rightarrow> bool" where
  "entry_ok (rt, txn, p) \<longleftrightarrow> txn < 2 ^ 32 \<and> json_ok (JObj p) \<and> length (payload_bytes p) < 2 ^ 32"

fun entry_record :: "nat \<Rightarrow> log_entry \<Rightarrow> log_record" where
  "entry_record off (rt, txn, p) = \<lparr>lr_offset = off, lr_type = rt, lr_txn_id = txn, lr_payload = JObj p\<rparr>"

fun log_records :: "nat \<Rightarrow> log_entry list \<Rightarrow> log_record list" where
  "log_records off [] = []"
| "log_records off (e # es) = entry_record off e # log_records (off + length (entry_bytes e)) es"

definition log_bytes :: "log_entry list \<Rightarrow> bytes" where
  "log_bytes es = concat (map entry_bytes es)"

text \<open>The entries that lie completely inside the first \<open>n\<close> bytes.\<close>

fun whole_entries :: "nat \<Rightarrow> log_entry list \<Rightarrow> log_entry list" where
  "whole_entries n [] = []"
| "whole_entries n (e # es) =
     (if length (entry_bytes e) \<le> n then e # whole_entries (n - length (entry_bytes e)) es else [])"

lemma record_type_of_value [simp]: "record_type_of (record_type_value rt) = Inr rt"
  by (cases rt) (simp_all add: record_type_of_def)

lemma record_type_value_bound: "record_type_value rt < 256"
  by (cases rt) simp_all

lemma payload_loads:
  assumes "json_ok (JObj p)"
  shows "(if payload_bytes p \<noteq> [] then loads (payload_bytes p) else Inr (JObj [])) = Inr (JObj p)"
    and "p \<noteq> [] \<Longrightarrow> utf8_encode (dumps (JObj p)) = Inr (payload_bytes p)"
proof -
  obtain bs where bs: "utf8_encode (dumps (JObj p)) = Inr bs" "length bs = length (dumps (JObj p))" "loads bs = Inr (JObj p)"
    by (rule loads_dumps [OF assms])
  then have "bs \<noteq> []" by (cases bs) (auto simp: dumps_def split: if_splits)
  with bs show "(if payload_bytes p \<noteq> [] then loads (payload_bytes p) else Inr (JObj [])) = Inr (JObj p)"
    by (simp add: payload_bytes_def)
  show "p \<noteq> [] \<Longrightarrow> utf8_encode (dumps (JObj p)) = Inr (payload_bytes p)" using bs by (simp add: payload_bytes_def)
qed

lemma iter_records_short: "length data < 9 \<Longrightarrow> iter_records off data = Inr []"
  by (simp add: iter_records.simps LOG_HEADER_SIZE_def)

lemma length_entry_bytes: "length (entry_bytes (rt, txn, p)) = 9 + length (payload_bytes p)"
  by simp

text \<open>The header fields of data that starts with an entry, whole or cut inside its payload.\<close>

lemma entry_header:
  assumes "entry_ok (rt, txn, p)" and "9 \<le> n" and data: "data = take n (entry_bytes (rt, txn, p) @ post)"
  shows "le_nat (take 1 data) = record_type_value rt" and "le_nat (take 4 (drop 1 data)) = txn"
    and "le_nat (take 4 (drop 5 data)) = length (payload_bytes p)"
    and "drop 9 data = take (n - 9) (payload_bytes p @ post)"
proof -
  define h where "h = le_bytes 1 (record_type_value rt) @ le_bytes 4 txn @ le_bytes 4 (length (payload_bytes p))"
  have h: "length h = 9" "entry_bytes (rt, txn, p) = h @ payload_bytes p" by (simp_all add: h_def)
  have "data = h @ take (n - 9) (payload_bytes p @ post)"
    using assms(2) h(1) unfolding data h(2) by (simp del: entry_bytes.simps)
  then have d: "data = le_bytes 1 (record_type_value rt) @ le_bytes 4 txn @ le_bytes 4 (length (payload_bytes p))
      @ take (n - 9) (payload_bytes p @ post)"
    by (simp add: h_def)
  show "le_nat (take 1 data) = record_type_value rt" "le_nat (take 4 (drop 1 data)) = txn"
    "le_nat (take 4 (drop 5 data)) = length (payload_bytes p)"
    "drop 9 data = take (n - 9) (payload_bytes p @ post)"
    using assms(1) record_type_value_bound [of rt]
    by (simp_all add: d del: le_bytes.simps One_nat_def)
qed

text \<open>
  Reading a log that was cut after \<open>n\<close> bytes: the entries inside the cut, with their offsets
  and payloads, and no exception.
\<close>

lemma iter_records_cut:
  "\<forall>e \<in> set es. entry_ok e \<Longrightarrow>
     iter_records off (take n (log_bytes es)) = Inr (log_records off (whole_entries n es))"
proof (induction es arbitrary: off n)
  case Nil
  then show ?case by (simp add: log_bytes_def iter_records_short)
next
  case (Cons e es)
  obtain rt txn p where e: "e = (rt, txn, p)" by (cases e)
  define D where "D = take n (log_bytes (e # es))"
  let ?b = "payload_bytes p"
  have data: "D = take n (entry_bytes (rt, txn, p) @ log_bytes es)" by (simp add: D_def log_bytes_def e)
  have ok: "entry_ok (rt, txn, p)" and oks: "\<forall>e \<in> set es. entry_ok e" using Cons.prems e by auto
  show ?case
  proof (cases "n < 9")
    case True
    then show ?thesis
      by (simp add: iter_records_short e length_entry_bytes del: entry_bytes.simps)
  next
    case False
    then have n: "9 \<le> n" by simp
    have len: "\<not> length D < 9" using n by (simp add: data length_entry_bytes del: entry_bytes.simps)
    note H = entry_header [OF ok n data]
    have step: "iter_records off D =
        (if length (take (length ?b) (take (n - 9) (?b @ log_bytes es))) < length ?b then Inr []
         else res_bind (if take (length ?b) (take (n - 9) (?b @ log_bytes es)) \<noteq> []
                then loads (take (length ?b) (take (n - 9) (?b @ log_bytes es))) else Inr (JObj [])) (\<lambda>payload.
              res_bind (iter_records (off + 9 + length ?b) (drop (length ?b) (take (n - 9) (?b @ log_bytes es)))) (\<lambda>records.
              Inr (\<lparr>lr_offset = off, lr_type = rt, lr_txn_id = txn, lr_payload = payload\<rparr> # records))))"
      unfolding iter_records.simps [of off D] LOG_HEADER_SIZE_def Let_def H if_not_P [OF len]
      by (simp add: record_type_of_value)
    show ?thesis
    proof (cases "9 + length ?b \<le> n")
      case True
      then have t: "take (length ?b) (take (n - 9) (?b @ log_bytes es)) = ?b"
        "drop (length ?b) (take (n - 9) (?b @ log_bytes es)) = take (n - 9 - length ?b) (log_bytes es)"
        by (simp_all add: min_def)
      have "n - length (entry_bytes e) = n - 9 - length ?b" by (simp add: e)
      with True show ?thesis
        unfolding D_def [symmetric] step t using Cons.IH [OF oks] payload_loads(1) [of p] ok
        by (simp add: e add.assoc)
    next
      case False
      then have "length (take (length ?b) (take (n - 9) (?b @ log_bytes es))) < length ?b" using n by simp
      with False show ?thesis unfolding D_def [symmetric] step by (simp add: e)
    qed
  qed
qed

lemma whole_entries_prefix: "\<exists>m \<le> length es. whole_entries n es = take m es"
proof (induction es arbitrary: n)
  case (Cons e es)
  then obtain m where "m \<le> length es" "whole_entries (n - length (entry_bytes e)) es = take m es" by blast
  then show ?case by (cases "length (entry_bytes e) \<le> n") (auto intro: exI [of _ "Suc m"] exI [of _ 0])
qed simp

lemma whole_entries_append:
  "length (log_bytes es) \<le> n \<Longrightarrow>
     whole_entries n (es @ fs) = es @ whole_entries (n - length (log_bytes es)) fs"
  by (induction es arbitrary: n) (auto simp: log_bytes_def simp del: entry_bytes.simps)

section \<open>The state of the log\<close>

text \<open>
  The log holds the entries \<open>es\<close>, of which at least the first \<open>m\<close> are durable.
\<close>

definition wal_holds :: "log_entry list \<Rightarrow> nat \<Rightarrow> wal \<Rightarrow> bool" where
  "wal_holds es m w \<longleftrightarrow> \<not> wl_closed w \<and> wl_bytes w = log_bytes es \<and> (\<forall>e \<in> set es. entry_ok e)
     \<and> m \<le> length es \<and> length (log_bytes (take m es)) \<le> wl_synced w \<and> wl_synced w \<le> length (wl_bytes w)"

lemma wp_wal_op [wp_rules]:
  "wp (wal_op f) Q E w = (if wl_closed w then E ValueError w else (case f w of (x, w') \<Rightarrow> Q x w'))"
  by (simp add: wal_op_def wp_def split: prod.splits)

lemma wp_wal_append:
  assumes "wal_holds es m w" and "entry_ok (rt, txn, p)"
    and "\<And>w'. wal_holds (es @ [(rt, txn, p)]) m w' \<Longrightarrow> wl_synced w' = wl_synced w \<Longrightarrow> Q (length (wl_bytes w)) w'"
  shows "wp (wal_append rt txn p) Q E w"
proof -
  have enc: "(if p \<noteq> [] then utf8_encode (dumps (JObj p)) else Inr []) = Inr (payload_bytes p)"
    using payload_loads(2) [of p] assms(2) by (auto simp: payload_bytes_def)
  have hdr: "pack_log_header rt txn (length (payload_bytes p)) =
      Inr (le_bytes 1 (record_type_value rt) @ le_bytes 4 txn @ le_bytes 4 (length (payload_bytes p)))"
    using assms(2) record_type_value_bound [of rt] by (simp add: pack_log_header_def pack_uint_def)
  define w' where "w' = w\<lparr>wl_bytes := wl_bytes w @ entry_bytes (rt, txn, p)\<rparr>"
  have "wal_holds (es @ [(rt, txn, p)]) m w'"
    using assms(1,2) by (auto simp: wal_holds_def w'_def log_bytes_def simp del: entry_bytes.simps entry_ok.simps)
  then have "Q (length (wl_bytes w)) w'" using assms(3) by (simp add: w'_def)
  moreover have "\<not> wl_closed w" using assms(1) by (simp add: wal_holds_def)
  ultimately show ?thesis
    unfolding wal_append_def enc by (simp add: wp_rules wal_write_def hdr w'_def)
qed

lemma wp_wal_flush:
  assumes "wal_holds es m w" and "\<And>w'. wal_holds es (length es) w' \<Longrightarrow> Q () w'"
  shows "wp wal_flush Q E w"
  using assms by (simp add: wal_flush_def wp_rules wal_holds_def)

text \<open>What a process finds that opens the log after a crash.\<close>

lemma read_after_crash:
  assumes holds: "wal_holds es m w" and cut: "wl_synced w \<le> n"
  obtains k where "m \<le> k" and "k \<le> length es"
    and "read_all (take n (wl_bytes w)) = Inr (log_records 0 (take k es))"
proof -
  obtain k where k: "k \<le> length es" "whole_entries n es = take k es" using whole_entries_prefix by blast
  have "take m es @ whole_entries (n - length (log_bytes (take m es))) (drop m es) = take k es"
    using whole_entries_append [of "take m es" n "drop m es"] holds cut k(2) by (simp add: wal_holds_def)
  then have "length (take m es) \<le> length (take k es)" by (metis length_append le_add1)
  then have "m \<le> k" using holds k(1) by (simp add: wal_holds_def)
  moreover have "read_all (take n (wl_bytes w)) = Inr (log_records 0 (take k es))"
    using iter_records_cut [of es 0 n] holds k(2) by (simp add: read_all_def wal_holds_def)
  ultimately show ?thesis using that k(1) by blast
qed

section \<open>Checkpoints\<close>

definition after_checkpoint :: "log_record list \<Rightarrow> log_record list" where
  "after_checkpoint rs = rev (takeWhile (\<lambda>r. lr_type r \<noteq> R_CHECKPOINT) (rev rs))"

lemma last_checkpoint_append:
  "last_checkpoint i (rs @ [r]) l =
     (if lr_type r = R_CHECKPOINT then Some (i + length rs) else last_checkpoint i rs l)"
  by (induction rs arbitrary: i l) auto

lemma last_checkpoint_bound: "last_checkpoint i rs None = Some j \<Longrightarrow> i \<le> j \<and> j < i + length rs"
  by (induction rs rule: rev_induct) (auto simp: last_checkpoint_append split: if_splits)

lemma last_checkpoint_drop:
  "(case last_checkpoint 0 rs None of None \<Rightarrow> rs | Some i \<Rightarrow> drop (i + 1) rs) = after_checkpoint rs"
proof (induction rs rule: rev_induct)
  case Nil
  show ?case by (simp add: after_checkpoint_def)
next
  case (snoc r rs)
  show ?case
  proof (cases "last_checkpoint 0 rs None")
    case None
    with snoc show ?thesis by (auto simp: last_checkpoint_append after_checkpoint_def)
  next
    case (Some j)
    with snoc last_checkpoint_bound [OF Some] show ?thesis
      by (auto simp: last_checkpoint_append after_checkpoint_def)
  qed
qed

lemma read_since_eq:
  "read_since_last_checkpoint file = res_bind (read_all file) (\<lambda>rs. Inr (after_checkpoint rs))"
proof -
  have "(case last_checkpoint 0 rs None of None \<Rightarrow> Inr rs | Some i \<Rightarrow> Inr (drop (i + 1) rs)) = (Inr (after_checkpoint rs) :: log_record list res)"
    for rs
    using last_checkpoint_drop [of rs] by (auto split: option.splits)
  then show ?thesis by (simp only: read_since_last_checkpoint_def)
qed

text \<open>Records without a payload: what the calls return.\<close>

lemma wal_append_empty:
  assumes "\<not> wl_closed w" and "txn < 2 ^ 32"
  shows "wal_append rt txn [] w =
    (Inr (length (wl_bytes w)), w\<lparr>wl_bytes := wl_bytes w @ entry_bytes (rt, txn, [])\<rparr>)"
  using assms record_type_value_bound [of rt]
  by (simp add: wal_append_def wal_write_def wal_op_def pack_log_header_def pack_uint_def payload_bytes_def
      py_bind_def py_seq_def py_lift_def py_return_def)

lemma log_begin_eq:
  "\<not> wl_closed w \<Longrightarrow> txn < 2 ^ 32 \<Longrightarrow>
     log_begin txn w = (Inr (length (wl_bytes w)), w\<lparr>wl_bytes := wl_bytes w @ entry_bytes (R_BEGIN, txn, [])\<rparr>)"
  by (simp add: log_begin_def wal_append_empty)

lemma log_abort_eq:
  "\<not> wl_closed w \<Longrightarrow> txn < 2 ^ 32 \<Longrightarrow>
     log_abort txn w = (Inr (length (wl_bytes w)), w\<lparr>wl_bytes := wl_bytes w @ entry_bytes (R_ABORT, txn, [])\<rparr>)"
  by (simp add: log_abort_def wal_append_empty)

lemma log_commit_eq:
  "\<not> wl_closed w \<Longrightarrow> txn < 2 ^ 32 \<Longrightarrow>
     log_commit txn w = (Inr (length (wl_bytes w)),
       w\<lparr>wl_bytes := wl_bytes w @ entry_bytes (R_COMMIT, txn, []),
         wl_synced := length (wl_bytes w @ entry_bytes (R_COMMIT, txn, []))\<rparr>)"
  by (simp add: log_commit_def wal_append_empty wal_flush_def wal_op_def py_bind_def py_seq_def py_return_def)

section \<open>Properties\<close>

text \<open>
  C15: a torn log is read safely. When the file ends anywhere inside what was appended, \<^verbatim>\<open>read_all\<close>
  returns exactly the records that are complete, with their offsets, transactions and
  payloads, and raises nothing.
\<close>

theorem read_all_torn_log:
  assumes "\<forall>e \<in> set es. entry_ok e"
  shows "\<exists>k \<le> length es. read_all (take n (log_bytes es)) = Inr (log_records 0 (take k es))
    \<and> length (log_bytes (take k es)) \<le> n \<and> (k < length es \<longrightarrow> n < length (log_bytes (take (Suc k) es)))"
proof -
  obtain k where k: "k \<le> length es" "whole_entries n es = take k es" using whole_entries_prefix by blast
  have "length (log_bytes (whole_entries n es)) \<le> n"
  proof (induction es arbitrary: n)
    case (Cons e es)
    have "length (entry_bytes e) + k \<le> n" if "k \<le> n - length (entry_bytes e)" "length (entry_bytes e) \<le> n" for k
      using that by linarith
    with Cons [of "n - length (entry_bytes e)"] show ?case by (simp add: log_bytes_def)
  qed (simp add: log_bytes_def)
  moreover have "n < length (log_bytes (take (Suc k) es))" if "k < length es" "whole_entries n es = take k es" for k n
    using that
  proof (induction es arbitrary: n k)
    case (Cons e es)
    show ?case
    proof (cases k)
      case 0
      with Cons.prems show ?thesis by (auto simp: log_bytes_def simp del: entry_bytes.simps split: if_splits)
    next
      case (Suc j)
      with Cons.prems have "length (entry_bytes e) \<le> n" "whole_entries (n - length (entry_bytes e)) es = take j es"
        by (auto simp del: entry_bytes.simps split: if_splits)
      with Cons.IH [of j "n - length (entry_bytes e)"] Cons.prems(1) Suc
      have "n - length (entry_bytes e) < length (log_bytes (take (Suc j) es))" "length (entry_bytes e) \<le> n" by auto
      then have "n < length (entry_bytes e) + length (log_bytes (take (Suc j) es))" by linarith
      then show ?thesis by (simp add: Suc log_bytes_def)
    qed
  qed simp
  ultimately show ?thesis
    using k iter_records_cut [OF assms, of 0 n] by (auto simp: read_all_def)
qed

definition sample_log :: "log_entry list" where
  "sample_log = [(R_BEGIN, 1, []), (R_OP, 1, [(u ''kind'', JStr (u ''x''))]), (R_COMMIT, 1, [])]"

lemma sample_payload: "length (payload_bytes [(u ''kind'', JStr (u ''x''))]) = 12" "payload_bytes [] = []"
  by (simp_all add: payload_bytes_def dumps_def u_def dump_string_def escape_char_def utf8_encode_def utf8_encode_char_def)

lemma sample_log_ok: "\<forall>e \<in> set sample_log. entry_ok e"
  unfolding sample_log_def
  by (simp add: sample_payload) (simp add: u_def str_ok_def is_surrogate_def)

lemma length_sample_log: "length sample_log = 3" "length (log_bytes sample_log) = 39"
  by (simp_all add: sample_log_def log_bytes_def sample_payload)

theorem read_all_torn_log_witness:
  "\<exists>k \<le> 3. read_all (take 20 (log_bytes sample_log)) = Inr (log_records 0 (take k sample_log))"
  using read_all_torn_log [OF sample_log_ok, of 20] by (auto simp: length_sample_log)


lemma wal_holds_open: "wal_holds [] 0 (wal_open None)"
  by (simp add: wal_holds_def wal_open_def Let_def log_bytes_def)


text \<open>
  \<^verbatim>\<open>read_since_last_checkpoint\<close> returns the records after the last checkpoint of the log, all
  of them if there is none.
\<close>

theorem read_since_checkpoint_suffix:
  assumes "read_all file = Inr rs"
  shows "\<exists>pre post. rs = pre @ post \<and> read_since_last_checkpoint file = Inr post
    \<and> (\<forall>r \<in> set post. lr_type r \<noteq> R_CHECKPOINT) \<and> (pre = [] \<or> lr_type (last pre) = R_CHECKPOINT)"
proof -
  define q where "q = (\<lambda>r :: log_record. lr_type r \<noteq> R_CHECKPOINT)"
  have ac: "after_checkpoint rs = rev (takeWhile q (rev rs))" by (simp add: after_checkpoint_def q_def)
  have "rs = rev (dropWhile q (rev rs)) @ after_checkpoint rs"
    unfolding ac rev_append [symmetric] by simp
  moreover have "\<forall>r \<in> set (after_checkpoint rs). q r" unfolding ac by (auto dest: set_takeWhileD)
  moreover have "rev (dropWhile q (rev rs)) = [] \<or> \<not> q (last (rev (dropWhile q (rev rs))))"
    using hd_dropWhile [of q "rev rs"] by (cases "dropWhile q (rev rs)") auto
  ultimately show ?thesis using assms unfolding read_since_eq q_def by auto
qed

theorem read_since_checkpoint_suffix_witness:
  "\<exists>pre post. log_records 0 sample_log = pre @ post
    \<and> read_since_last_checkpoint (take (length (log_bytes sample_log)) (log_bytes sample_log)) = Inr post"
proof -
  have "whole_entries (length (log_bytes sample_log)) (sample_log @ []) = sample_log"
    by (subst whole_entries_append) simp_all
  then have "read_all (take (length (log_bytes sample_log)) (log_bytes sample_log)) = Inr (log_records 0 sample_log)"
    using iter_records_cut [OF sample_log_ok, of 0 "length (log_bytes sample_log)"] by (simp add: read_all_def)
  from read_since_checkpoint_suffix [OF this] show ?thesis by blast
qed

end
