(* ===== verification/Transactions.thy ===== *)
theory Transactions
  imports Write_Ahead_Log Disk_Manager
begin

text \<open>
  Transactions (\<^verbatim>\<open>transaction.py\<close>): snapshots, the transaction manager with its visibility
  rule and its conflict check, and what recovery reads from the log.

  The second half is a state machine: a state is the manager, the transaction objects handed
  out, and the headers of the row versions; the steps are the calls of the manager, an
  insertion of a version and the stamping of one after the conflict check. The history of
  events is the specification: a version is visible to a transaction exactly if its creator
  is the transaction itself or had committed before the transaction began, and its deleter
  is not of that kind.
\<close>

section \<open>The operations\<close>

record snapshot =
  sn_xid :: nat
  sn_active_xids :: "nat set"

definition committed_before :: "snapshot \<Rightarrow> nat \<Rightarrow> bool" where
  "committed_before sn other_xid \<longleftrightarrow> other_xid < sn_xid sn \<and> other_xid \<notin> sn_active_xids sn"

datatype txn_state = TXN_ACTIVE | TXN_COMMITTED | TXN_ABORTED

record transaction =
  tx_id :: nat
  tx_snapshot :: snapshot
  tx_state :: txn_state

record txn_mgr =
  tm_wal :: wal
  tm_next_txn_id :: nat
  tm_active_xids :: "nat set"
  tm_aborted_xids :: "nat set"

definition tm_init :: "wal \<Rightarrow> nat \<Rightarrow> nat set option \<Rightarrow> txn_mgr" where
  "tm_init wal next_txn_id initial_aborted_xids =
     \<lparr>tm_wal = wal, tm_next_txn_id = next_txn_id, tm_active_xids = {},
      tm_aborted_xids = (case initial_aborted_xids of None \<Rightarrow> {} | Some xs \<Rightarrow> xs)\<rparr>"

definition has_active_transactions :: "txn_mgr \<Rightarrow> bool" where
  "has_active_transactions tm \<longleftrightarrow> tm_active_xids tm \<noteq> {}"

definition on_wal :: "(wal, 'a) py \<Rightarrow> (txn_mgr, 'a) py" where
  "on_wal m = py_zoom tm_wal (\<lambda>w tm. tm\<lparr>tm_wal := w\<rparr>) m"

definition tm_begin :: "(txn_mgr, transaction) py" where
  "tm_begin =
     py_bind (py_gets tm_next_txn_id) (\<lambda>txn_id.
     py_seq (py_modify (\<lambda>tm. tm\<lparr>tm_next_txn_id := tm_next_txn_id tm + 1\<rparr>))
    (py_bind (py_gets (\<lambda>tm. \<lparr>sn_xid = txn_id, sn_active_xids = tm_active_xids tm\<rparr>)) (\<lambda>snap.
     py_seq (py_modify (\<lambda>tm. tm\<lparr>tm_active_xids := insert txn_id (tm_active_xids tm)\<rparr>))
    (py_seq (on_wal (log_begin txn_id))
            (py_return \<lparr>tx_id = txn_id, tx_snapshot = snap, tx_state = TXN_ACTIVE\<rparr>)))))"

text \<open>\<^verbatim>\<open>commit\<close> and \<^verbatim>\<open>abort\<close> change the transaction object; here they return it changed.\<close>

definition tm_commit :: "transaction \<Rightarrow> (txn_mgr, transaction) py" where
  "tm_commit txn =
     (if tx_state txn \<noteq> TXN_ACTIVE then py_raise ValueError
      else
        py_seq (on_wal (log_commit (tx_id txn)))
       (py_seq (py_modify (\<lambda>tm. tm\<lparr>tm_active_xids := tm_active_xids tm - {tx_id txn}\<rparr>))
               (py_return (txn\<lparr>tx_state := TXN_COMMITTED\<rparr>))))"

definition tm_abort :: "transaction \<Rightarrow> (txn_mgr, transaction) py" where
  "tm_abort txn =
     (if tx_state txn \<noteq> TXN_ACTIVE then py_raise ValueError
      else
        py_seq (on_wal (log_abort (tx_id txn)))
       (py_seq (py_modify (\<lambda>tm. tm\<lparr>tm_active_xids := tm_active_xids tm - {tx_id txn},
                                   tm_aborted_xids := insert (tx_id txn) (tm_aborted_xids tm)\<rparr>))
               (py_return (txn\<lparr>tx_state := TXN_ABORTED\<rparr>))))"

definition txn_log_operation :: "transaction \<Rightarrow> ustring \<Rightarrow> (ustring \<times> json) list \<Rightarrow> (txn_mgr, unit) py" where
  "txn_log_operation txn kind kwargs =
     py_seq (on_wal (log_operation (tx_id txn) kind kwargs)) (py_return ())"

definition is_visible :: "txn_mgr \<Rightarrow> nat \<Rightarrow> nat \<Rightarrow> snapshot \<Rightarrow> bool" where
  "is_visible tm xmin xmax sn =
     (if xmin \<in> tm_aborted_xids tm then False
      else let xmin_visible = xmin = sn_xid sn \<or> committed_before sn xmin
           in if \<not> xmin_visible then False
              else if xmax = INFINITY_TXN \<or> xmax \<in> tm_aborted_xids tm then True
              else let xmax_visible = xmax = sn_xid sn \<or> committed_before sn xmax
                   in \<not> xmax_visible)"

definition check_write_conflict :: "transaction \<Rightarrow> nat \<Rightarrow> (txn_mgr, unit) py" where
  "check_write_conflict txn current_xmax =
     (if current_xmax = INFINITY_TXN then py_return ()
      else if current_xmax = tx_id txn then py_return ()
      else py_bind (py_gets tm_aborted_xids) (\<lambda>aborted.
        if current_xmax \<in> aborted then py_return () else py_raise WriteConflictError))"

text \<open>What recovery reads from the bytes of the log.\<close>

definition committed_operations_since_checkpoint :: "bytes \<Rightarrow> log_record list res" where
  "committed_operations_since_checkpoint file =
     res_bind (read_since_last_checkpoint file) (\<lambda>records.
       let committed_txns = lr_txn_id ` {r \<in> set records. lr_type r = R_COMMIT}
       in Inr (filter (\<lambda>r. lr_type r = R_OP \<and> lr_txn_id r \<in> committed_txns) records))"

definition uncommitted_txn_ids_since_checkpoint :: "bytes \<Rightarrow> nat set res" where
  "uncommitted_txn_ids_since_checkpoint file =
     res_bind (read_since_last_checkpoint file) (\<lambda>records.
       let began = lr_txn_id ` {r \<in> set records. lr_type r = R_BEGIN};
           committed = lr_txn_id ` {r \<in> set records. lr_type r = R_COMMIT}
       in Inr (began - committed))"

definition next_txn_id_after_recovery :: "bytes \<Rightarrow> nat res" where
  "next_txn_id_after_recovery file =
     res_bind (read_all file) (\<lambda>records. Inr (foldl (\<lambda>max_seen r. max max_seen (lr_txn_id r)) 0 records + 1))"

lemma wp_on_wal [wp_rules]:
  "wp (on_wal m) Q E tm = wp m (\<lambda>x w. Q x (tm\<lparr>tm_wal := w\<rparr>)) (\<lambda>e w. E e (tm\<lparr>tm_wal := w\<rparr>)) (tm_wal tm)"
  by (simp add: on_wal_def wp_zoom)

section \<open>The state machine\<close>

record mvcc =
  mv_mgr :: txn_mgr
  mv_txns :: "nat \<Rightarrow> transaction option"
  mv_rows :: "rid \<Rightarrow> (nat \<times> nat) option"

datatype event =
    E_Begin nat
  | E_Commit nat
  | E_Abort nat
  | E_Insert nat rid
  | E_Delete nat rid

inductive mvcc_step :: "mvcc \<Rightarrow> event \<Rightarrow> mvcc \<Rightarrow> bool" where
  step_begin: "tm_begin (mv_mgr s) = (Inr t, tm) \<Longrightarrow>
    mvcc_step s (E_Begin (tx_id t)) (s\<lparr>mv_mgr := tm, mv_txns := (mv_txns s)(tx_id t \<mapsto> t)\<rparr>)"
| step_commit: "mv_txns s i = Some t \<Longrightarrow> tm_commit t (mv_mgr s) = (Inr t', tm) \<Longrightarrow>
    mvcc_step s (E_Commit i) (s\<lparr>mv_mgr := tm, mv_txns := (mv_txns s)(i \<mapsto> t')\<rparr>)"
| step_abort: "mv_txns s i = Some t \<Longrightarrow> tm_abort t (mv_mgr s) = (Inr t', tm) \<Longrightarrow>
    mvcc_step s (E_Abort i) (s\<lparr>mv_mgr := tm, mv_txns := (mv_txns s)(i \<mapsto> t')\<rparr>)"
| step_insert: "mv_txns s i = Some t \<Longrightarrow> tx_state t = TXN_ACTIVE \<Longrightarrow> mv_rows s r = None \<Longrightarrow>
    mvcc_step s (E_Insert i r) (s\<lparr>mv_rows := (mv_rows s)(r \<mapsto> (i, INFINITY_TXN))\<rparr>)"
| step_delete: "mv_txns s i = Some t \<Longrightarrow> tx_state t = TXN_ACTIVE \<Longrightarrow> mv_rows s r = Some (xmin, xmax) \<Longrightarrow>
    check_write_conflict t xmax (mv_mgr s) = (Inr (), tm) \<Longrightarrow>
    mvcc_step s (E_Delete i r) (s\<lparr>mv_mgr := tm, mv_rows := (mv_rows s)(r \<mapsto> (xmin, i))\<rparr>)"

inductive_cases mvcc_stepE: "mvcc_step s e s'"

inductive mvcc_run :: "mvcc \<Rightarrow> event list \<Rightarrow> mvcc \<Rightarrow> bool" where
  run_none: "mvcc_run s [] s"
| run_snoc: "mvcc_run s es s' \<Longrightarrow> mvcc_step s' e s'' \<Longrightarrow> mvcc_run s (es @ [e]) s''"

text \<open>The start of a process: a manager as the constructor makes it, on the rows found on disk.\<close>

definition mvcc_start :: "wal \<Rightarrow> nat \<Rightarrow> nat set \<Rightarrow> (rid \<Rightarrow> (nat \<times> nat) option) \<Rightarrow> mvcc" where
  "mvcc_start w first aborted rows =
     \<lparr>mv_mgr = tm_init w first (Some aborted), mv_txns = Map.empty, mv_rows = rows\<rparr>"

text \<open>The steps on the fields of the state that matter for visibility.\<close>

lemma tm_begin_Inr:
  assumes "tm_begin tm = (Inr t, tm')"
  shows "tx_id t = tm_next_txn_id tm" and "tx_state t = TXN_ACTIVE"
    and "tx_snapshot t = \<lparr>sn_xid = tm_next_txn_id tm, sn_active_xids = tm_active_xids tm\<rparr>"
    and "tm_next_txn_id tm' = tm_next_txn_id tm + 1"
    and "tm_active_xids tm' = insert (tm_next_txn_id tm) (tm_active_xids tm)"
    and "tm_aborted_xids tm' = tm_aborted_xids tm"
proof -
  have "wp tm_begin (\<lambda>t tm'. tx_id t = tm_next_txn_id tm \<and> tx_state t = TXN_ACTIVE
      \<and> tx_snapshot t = \<lparr>sn_xid = tm_next_txn_id tm, sn_active_xids = tm_active_xids tm\<rparr>
      \<and> tm_next_txn_id tm' = tm_next_txn_id tm + 1
      \<and> tm_active_xids tm' = insert (tm_next_txn_id tm) (tm_active_xids tm)
      \<and> tm_aborted_xids tm' = tm_aborted_xids tm) (\<lambda>_ _. True) tm"
    by (simp add: tm_begin_def wp_rules) (simp add: wp_def split: prod.splits sum.splits)
  from wp_InrD [OF this assms] show "tx_id t = tm_next_txn_id tm" "tx_state t = TXN_ACTIVE"
    "tx_snapshot t = \<lparr>sn_xid = tm_next_txn_id tm, sn_active_xids = tm_active_xids tm\<rparr>"
    "tm_next_txn_id tm' = tm_next_txn_id tm + 1"
    "tm_active_xids tm' = insert (tm_next_txn_id tm) (tm_active_xids tm)"
    "tm_aborted_xids tm' = tm_aborted_xids tm" by auto
qed

lemma tm_commit_Inr:
  assumes "tm_commit t tm = (Inr t', tm')"
  shows "tx_state t = TXN_ACTIVE" and "t' = t\<lparr>tx_state := TXN_COMMITTED\<rparr>"
    and "tm_next_txn_id tm' = tm_next_txn_id tm" and "tm_active_xids tm' = tm_active_xids tm - {tx_id t}"
    and "tm_aborted_xids tm' = tm_aborted_xids tm"
proof -
  have "wp (tm_commit t) (\<lambda>t' tm'. tx_state t = TXN_ACTIVE \<and> t' = t\<lparr>tx_state := TXN_COMMITTED\<rparr>
      \<and> tm_next_txn_id tm' = tm_next_txn_id tm \<and> tm_active_xids tm' = tm_active_xids tm - {tx_id t}
      \<and> tm_aborted_xids tm' = tm_aborted_xids tm) (\<lambda>_ _. True) tm"
    by (simp add: tm_commit_def wp_rules) (simp add: wp_def split: prod.splits sum.splits)
  from wp_InrD [OF this assms] show "tx_state t = TXN_ACTIVE" "t' = t\<lparr>tx_state := TXN_COMMITTED\<rparr>"
    "tm_next_txn_id tm' = tm_next_txn_id tm" "tm_active_xids tm' = tm_active_xids tm - {tx_id t}"
    "tm_aborted_xids tm' = tm_aborted_xids tm" by auto
qed

lemma tm_abort_Inr:
  assumes "tm_abort t tm = (Inr t', tm')"
  shows "tx_state t = TXN_ACTIVE" and "t' = t\<lparr>tx_state := TXN_ABORTED\<rparr>"
    and "tm_next_txn_id tm' = tm_next_txn_id tm" and "tm_active_xids tm' = tm_active_xids tm - {tx_id t}"
    and "tm_aborted_xids tm' = insert (tx_id t) (tm_aborted_xids tm)"
proof -
  have "wp (tm_abort t) (\<lambda>t' tm'. tx_state t = TXN_ACTIVE \<and> t' = t\<lparr>tx_state := TXN_ABORTED\<rparr>
      \<and> tm_next_txn_id tm' = tm_next_txn_id tm \<and> tm_active_xids tm' = tm_active_xids tm - {tx_id t}
      \<and> tm_aborted_xids tm' = insert (tx_id t) (tm_aborted_xids tm)) (\<lambda>_ _. True) tm"
    by (simp add: tm_abort_def wp_rules) (simp add: wp_def split: prod.splits sum.splits)
  from wp_InrD [OF this assms] show "tx_state t = TXN_ACTIVE" "t' = t\<lparr>tx_state := TXN_ABORTED\<rparr>"
    "tm_next_txn_id tm' = tm_next_txn_id tm" "tm_active_xids tm' = tm_active_xids tm - {tx_id t}"
    "tm_aborted_xids tm' = insert (tx_id t) (tm_aborted_xids tm)" by auto
qed

lemma check_write_conflict_eq:
  "check_write_conflict t x tm =
     (if x = INFINITY_TXN \<or> x = tx_id t \<or> x \<in> tm_aborted_xids tm then (Inr (), tm) else (Inl WriteConflictError, tm))"
  by (simp add: check_write_conflict_def py_return_def py_raise_def py_bind_def py_gets_def)

section \<open>The history determines the state\<close>

definition precedes :: "event list \<Rightarrow> event \<Rightarrow> event \<Rightarrow> bool" where
  "precedes es a b \<longleftrightarrow> (\<exists>xs ys. es = xs @ ys \<and> a \<in> set xs \<and> b \<in> set ys)"

lemma precedes_Nil [simp]: "\<not> precedes [] a b"
  by (simp add: precedes_def)

lemma precedes_snoc: "precedes (es @ [e]) a b \<longleftrightarrow> precedes es a b \<or> (b = e \<and> a \<in> set es)"
proof
  assume "precedes (es @ [e]) a b"
  then obtain xs ys where eq: "es @ [e] = xs @ ys" and a: "a \<in> set xs" and b: "b \<in> set ys"
    unfolding precedes_def by blast
  from b obtain ys' y where y: "ys = ys' @ [y]" by (cases ys rule: rev_cases) auto
  with eq have "es = xs @ ys'" "y = e" by auto
  with a b y show "precedes es a b \<or> (b = e \<and> a \<in> set es)" unfolding precedes_def by auto
next
  assume "precedes es a b \<or> (b = e \<and> a \<in> set es)"
  then show "precedes (es @ [e]) a b"
  proof
    assume "precedes es a b"
    then obtain xs ys where "es = xs @ ys" "a \<in> set xs" "b \<in> set ys" unfolding precedes_def by blast
    then show ?thesis unfolding precedes_def by (intro exI [of _ xs] exI [of _ "ys @ [e]"]) simp
  next
    assume "b = e \<and> a \<in> set es"
    then show ?thesis unfolding precedes_def by (intro exI [of _ es] exI [of _ "[e]"]) simp
  qed
qed

lemma precedes_set: "precedes es a b \<Longrightarrow> a \<in> set es \<and> b \<in> set es"
  by (auto simp: precedes_def)

definition txn_is :: "mvcc \<Rightarrow> txn_state \<Rightarrow> nat \<Rightarrow> bool" where
  "txn_is s st i \<longleftrightarrow> (\<exists>t. mv_txns s i = Some t \<and> tx_state t = st)"

definition ended_before :: "event list \<Rightarrow> nat \<Rightarrow> nat \<Rightarrow> bool" where
  "ended_before es x i \<longleftrightarrow> precedes es (E_Commit x) (E_Begin i) \<or> precedes es (E_Abort x) (E_Begin i)"

text \<open>
  The sets that the manager keeps and the state of every transaction object, as functions of
  the events so far; the snapshot of a transaction lists those that had not ended when it began.
\<close>

definition mvcc_inv :: "nat \<Rightarrow> nat set \<Rightarrow> event list \<Rightarrow> mvcc \<Rightarrow> bool" where
  "mvcc_inv first aborted es s \<longleftrightarrow>
     first \<le> tm_next_txn_id (mv_mgr s)
     \<and> (\<forall>i. mv_txns s i \<noteq> None \<longleftrightarrow> first \<le> i \<and> i < tm_next_txn_id (mv_mgr s))
     \<and> (\<forall>i t. mv_txns s i = Some t \<longrightarrow> tx_id t = i \<and> sn_xid (tx_snapshot t) = i)
     \<and> (\<forall>i. i \<in> tm_active_xids (mv_mgr s) \<longleftrightarrow> txn_is s TXN_ACTIVE i)
     \<and> (\<forall>i. i \<in> tm_aborted_xids (mv_mgr s) \<longleftrightarrow> i \<in> aborted \<or> txn_is s TXN_ABORTED i)
     \<and> (\<forall>i. E_Begin i \<in> set es \<longleftrightarrow> mv_txns s i \<noteq> None)
     \<and> (\<forall>i. E_Commit i \<in> set es \<longleftrightarrow> txn_is s TXN_COMMITTED i)
     \<and> (\<forall>i. E_Abort i \<in> set es \<longleftrightarrow> txn_is s TXN_ABORTED i)
     \<and> (\<forall>i t x. mv_txns s i = Some t \<longrightarrow>
           (x \<in> sn_active_xids (tx_snapshot t) \<longleftrightarrow> first \<le> x \<and> x < i \<and> \<not> ended_before es x i))
     \<and> (\<forall>x r. E_Delete x r \<in> set es \<longrightarrow> x \<noteq> INFINITY_TXN \<longrightarrow>
           x \<in> tm_aborted_xids (mv_mgr s) \<or> (\<exists>xmin. mv_rows s r = Some (xmin, x)))
     \<and> (\<forall>x i. ended_before es x i \<longrightarrow> x < i)"

lemma mvcc_invD:
  assumes "mvcc_inv first aborted es s"
  shows "first \<le> tm_next_txn_id (mv_mgr s)"
    and "mv_txns s i \<noteq> None \<longleftrightarrow> first \<le> i \<and> i < tm_next_txn_id (mv_mgr s)"
    and "mv_txns s i = Some t \<Longrightarrow> tx_id t = i \<and> sn_xid (tx_snapshot t) = i"
    and "i \<in> tm_active_xids (mv_mgr s) \<longleftrightarrow> txn_is s TXN_ACTIVE i"
    and "i \<in> tm_aborted_xids (mv_mgr s) \<longleftrightarrow> i \<in> aborted \<or> txn_is s TXN_ABORTED i"
    and "E_Begin i \<in> set es \<longleftrightarrow> mv_txns s i \<noteq> None"
    and "E_Commit i \<in> set es \<longleftrightarrow> txn_is s TXN_COMMITTED i"
    and "E_Abort i \<in> set es \<longleftrightarrow> txn_is s TXN_ABORTED i"
    and "mv_txns s i = Some t \<Longrightarrow>
      x \<in> sn_active_xids (tx_snapshot t) \<longleftrightarrow> first \<le> x \<and> x < i \<and> \<not> ended_before es x i"
    and "E_Delete x r \<in> set es \<Longrightarrow> x \<noteq> INFINITY_TXN \<Longrightarrow>
      x \<in> tm_aborted_xids (mv_mgr s) \<or> (\<exists>xmin. mv_rows s r = Some (xmin, x))"
    and "ended_before es x i \<Longrightarrow> x < i"
  using assms unfolding mvcc_inv_def by metis+

lemma mvcc_inv_start: "mvcc_inv first aborted [] (mvcc_start w first aborted rows)"
  by (auto simp: mvcc_inv_def mvcc_start_def tm_init_def txn_is_def ended_before_def)

text \<open>A transaction that is not active keeps its state: what the end of one changes.\<close>

lemma inv_begin:
  assumes inv: "mvcc_inv first aborted es s" and b: "tm_begin (mv_mgr s) = (Inr t, tm)"
  shows "mvcc_inv first aborted (es @ [E_Begin (tx_id t)])
    (s\<lparr>mv_mgr := tm, mv_txns := (mv_txns s)(tx_id t \<mapsto> t)\<rparr>)"
proof -
  note D = mvcc_invD [OF inv] and B = tm_begin_Inr [OF b]
  let ?n = "tm_next_txn_id (mv_mgr s)" let ?s = "s\<lparr>mv_mgr := tm, mv_txns := (mv_txns s)(tx_id t \<mapsto> t)\<rparr>"
  have none: "mv_txns s ?n = None" using D(2) [of ?n] by auto
  have st: "txn_is ?s z i \<longleftrightarrow> (if i = ?n then z = TXN_ACTIVE else txn_is s z i)" for z i
    using B(1,2) by (auto simp: txn_is_def)
  have fresh: "E_Begin ?n \<notin> set es" using D(6) [of ?n] none by simp
  have old: "ended_before (es @ [E_Begin ?n]) x i \<longleftrightarrow> ended_before es x i" if "i \<noteq> ?n" for x i
    using that by (auto simp: ended_before_def precedes_snoc)
  have new: "ended_before (es @ [E_Begin ?n]) x ?n \<longleftrightarrow> E_Commit x \<in> set es \<or> E_Abort x \<in> set es" for x
    using fresh precedes_set by (auto simp: ended_before_def precedes_snoc)
  have active: "x \<in> tm_active_xids (mv_mgr s) \<longleftrightarrow> first \<le> x \<and> x < ?n \<and> \<not> (E_Commit x \<in> set es \<or> E_Abort x \<in> set es)" for x
    using D(2) [of x] D(4) [of x] D(7) [of x] D(8) [of x]
    by (auto simp: txn_is_def) (metis txn_state.exhaust)
  have snaps: "x \<in> sn_active_xids (tx_snapshot t') \<longleftrightarrow> first \<le> x \<and> x < i \<and> \<not> ended_before (es @ [E_Begin ?n]) x i"
    if "mv_txns ?s i = Some t'" for i t' x
    using that B(1,3) active [of x] new [of x] old [of i x] D(9) [of i t' x] by (cases "i = ?n") auto
  have none_is: "\<not> txn_is s st ?n" for st using none by (simp add: txn_is_def)
  show ?thesis unfolding mvcc_inv_def B(1)
  proof (intro conjI allI impI, goal_cases)
    case 1 show ?case using D(1) B(4) by simp
  next
    case (2 i) show ?case using D(1) D(2) [of i] B(1,4) by auto
  next
    case (3 i t') then show ?case using D(3) B(1,3) by (auto split: if_splits)
  next
    case (4 i t') then show ?case using D(3) B(1,3) by (auto split: if_splits)
  next
    case (5 i) show ?case using st [of TXN_ACTIVE i] D(4) [of i] B(1,5) by simp
  next
    case (6 i) show ?case using st [of TXN_ABORTED i] D(5) [of i] B(1,6) none_is by auto
  next
    case (7 i) show ?case using D(6) [of i] B(1) by simp
  next
    case (8 i) show ?case using st [of TXN_COMMITTED i] D(7) [of i] B(1) none_is by auto
  next
    case (9 i) show ?case using st [of TXN_ABORTED i] D(8) [of i] B(1) none_is by auto
  next
    case (10 i t' x) then show ?case using snaps B(1) by simp
  next
    case (11 x r) then show ?case using D(10) [of x r] B(6) by simp
  next
    case (12 x i)
    then show ?case
      using new [of x] old [of i x] D(11) [of x i] D(2) [of x] D(7,8) [of x]
      by (cases "i = ?n") (auto simp: B(1) txn_is_def)
  qed
qed

lemma inv_end:
  assumes inv: "mvcc_inv first aborted es s" and t: "mv_txns s i = Some t" "tx_state t = TXN_ACTIVE"
    and tm: "tm_next_txn_id tm = tm_next_txn_id (mv_mgr s)"
      "tm_active_xids tm = tm_active_xids (mv_mgr s) - {i}"
    and e: "z = TXN_COMMITTED \<and> e = E_Commit i \<and> tm_aborted_xids tm = tm_aborted_xids (mv_mgr s)
      \<or> z = TXN_ABORTED \<and> e = E_Abort i \<and> tm_aborted_xids tm = insert i (tm_aborted_xids (mv_mgr s))"
  shows "mvcc_inv first aborted (es @ [e])
    (s\<lparr>mv_mgr := tm, mv_txns := (mv_txns s)(i \<mapsto> t\<lparr>tx_state := z\<rparr>)\<rparr>)"
proof -
  note D = mvcc_invD [OF inv]
  let ?s = "s\<lparr>mv_mgr := tm, mv_txns := (mv_txns s)(i \<mapsto> t\<lparr>tx_state := z\<rparr>)\<rparr>"
  have st: "txn_is ?s y j \<longleftrightarrow> (if j = i then y = z else txn_is s y j)" for y j by (auto simp: txn_is_def)
  have sti: "txn_is s y i \<longleftrightarrow> y = TXN_ACTIVE" for y using t by (auto simp: txn_is_def)
  have end_eq: "ended_before (es @ [e]) x j \<longleftrightarrow> ended_before es x j" for x j
    using e by (auto simp: ended_before_def precedes_snoc)
  have dom: "mv_txns ?s j = None \<longleftrightarrow> mv_txns s j = None" for j using t by auto
  show ?thesis unfolding mvcc_inv_def
  proof (intro conjI allI impI, goal_cases)
    case 1 show ?case using D(1) tm by simp
  next
    case (2 j) show ?case using D(2) [of j] tm dom [of j] by simp
  next
    case (3 j t') then show ?case using D(3) [of j] D(3) [OF t(1)] by (auto split: if_splits)
  next
    case (4 j t') then show ?case using D(3) [of j] D(3) [OF t(1)] by (auto split: if_splits)
  next
    case (5 j) show ?case using st [of TXN_ACTIVE j] D(4) [of j] tm e by auto
  next
    case (6 j) show ?case using st [of TXN_ABORTED j] sti [of TXN_ABORTED] D(5) [of j] e by auto
  next
    case (7 j) show ?case using D(6) [of j] dom [of j] e by auto
  next
    case (8 j) show ?case using st [of TXN_COMMITTED j] sti [of TXN_COMMITTED] D(7) [of j] e by auto
  next
    case (9 j) show ?case using st [of TXN_ABORTED j] sti [of TXN_ABORTED] D(8) [of j] e by auto
  next
    case (10 j t' x)
    then show ?case using D(9) [of j _ x] D(9) [OF t(1), of x] end_eq by (auto split: if_splits)
  next
    case (11 x r)
    then have "E_Delete x r \<in> set es" using e by auto
    with D(10) [of x r] 11(2) e show ?case by auto
  next
    case (12 x j)
    then show ?case using D(11) [of x j] end_eq by simp
  qed
qed

text \<open>A step that changes rows only: the transactions stay, and so does what the manager keeps.\<close>

lemma inv_rows:
  assumes inv: "mvcc_inv first aborted es s"
    and e: "\<And>i. e \<noteq> E_Begin i" "\<And>i. e \<noteq> E_Commit i" "\<And>i. e \<noteq> E_Abort i"
    and rows: "\<And>x r. E_Delete x r \<in> set (es @ [e]) \<Longrightarrow> x \<noteq> INFINITY_TXN \<Longrightarrow>
      x \<in> tm_aborted_xids (mv_mgr s) \<or> (\<exists>xmin. rows r = Some (xmin, x))"
  shows "mvcc_inv first aborted (es @ [e]) (s\<lparr>mv_rows := rows\<rparr>)"
proof -
  have end_eq: "ended_before (es @ [e]) x j \<longleftrightarrow> ended_before es x j" for x j
    using e by (auto simp: ended_before_def precedes_snoc)
  have mem: "E_Begin i \<in> set (es @ [e]) \<longleftrightarrow> E_Begin i \<in> set es" "E_Commit i \<in> set (es @ [e]) \<longleftrightarrow> E_Commit i \<in> set es"
    "E_Abort i \<in> set (es @ [e]) \<longleftrightarrow> E_Abort i \<in> set es" for i using e by auto
  have st: "txn_is (s\<lparr>mv_rows := rows\<rparr>) y j \<longleftrightarrow> txn_is s y j" for y j by (simp add: txn_is_def)
  show ?thesis using inv rows unfolding mvcc_inv_def end_eq mem st by simp
qed

lemma mvcc_inv_step:
  assumes inv: "mvcc_inv first aborted es s" and step: "mvcc_step s e s'"
  shows "mvcc_inv first aborted (es @ [e]) s'"
  using step
proof (cases rule: mvcc_step.cases)
  case (step_begin t tm)
  then show ?thesis using inv_begin [OF inv] by simp
next
  case (step_commit i t t' tm)
  note C = tm_commit_Inr [OF step_commit(4)]
  have "tx_id t = i" using mvcc_invD(3) [OF inv step_commit(3)] by simp
  with C have "mvcc_inv first aborted (es @ [E_Commit i])
      (s\<lparr>mv_mgr := tm, mv_txns := (mv_txns s)(i \<mapsto> t\<lparr>tx_state := TXN_COMMITTED\<rparr>)\<rparr>)"
    by (intro inv_end [OF inv step_commit(3)]) auto
  with step_commit C show ?thesis by simp
next
  case (step_abort i t t' tm)
  note A = tm_abort_Inr [OF step_abort(4)]
  have "tx_id t = i" using mvcc_invD(3) [OF inv step_abort(3)] by simp
  with A have "mvcc_inv first aborted (es @ [E_Abort i])
      (s\<lparr>mv_mgr := tm, mv_txns := (mv_txns s)(i \<mapsto> t\<lparr>tx_state := TXN_ABORTED\<rparr>)\<rparr>)"
    by (intro inv_end [OF inv step_abort(3)]) auto
  with step_abort A show ?thesis by simp
next
  case (step_insert i t r)
  have "x \<in> tm_aborted_xids (mv_mgr s) \<or> (\<exists>xmin. ((mv_rows s)(r \<mapsto> (i, INFINITY_TXN))) q = Some (xmin, x))"
    if "E_Delete x q \<in> set (es @ [E_Insert i r])" "x \<noteq> INFINITY_TXN" for x q
    using that mvcc_invD(10) [OF inv, of x q] step_insert by auto
  then show ?thesis unfolding step_insert(1,2) by (intro inv_rows [OF inv]) simp_all
next
  case (step_delete i t r xmin xmax tm)
  have ti: "tx_id t = i" using mvcc_invD(3) [OF inv step_delete(3)] by simp
  have tm: "tm = mv_mgr s" and ok: "xmax = INFINITY_TXN \<or> xmax = i \<or> xmax \<in> tm_aborted_xids (mv_mgr s)"
    using step_delete(6) ti by (auto simp: check_write_conflict_eq split: if_splits)
  have "x \<in> tm_aborted_xids (mv_mgr s) \<or> (\<exists>xmin'. ((mv_rows s)(r \<mapsto> (xmin, i))) q = Some (xmin', x))"
    if "E_Delete x q \<in> set (es @ [E_Delete i r])" "x \<noteq> INFINITY_TXN" for x q
    using that mvcc_invD(10) [OF inv, of x q] step_delete(5) ok by auto
  then have "mvcc_inv first aborted (es @ [E_Delete i r]) (s\<lparr>mv_rows := (mv_rows s)(r \<mapsto> (xmin, i))\<rparr>)"
    by (intro inv_rows [OF inv]) simp_all
  moreover have "s' = s\<lparr>mv_rows := (mv_rows s)(r \<mapsto> (xmin, i))\<rparr>" using step_delete(2) tm by simp
  ultimately show ?thesis using step_delete(1) by simp
qed

lemma mvcc_inv_run:
  assumes "mvcc_run (mvcc_start w first aborted rows) es s"
  shows "mvcc_inv first aborted es s"
  using assms
  by (induction "mvcc_start w first aborted rows" es s rule: mvcc_run.induct)
    (auto intro: mvcc_inv_start mvcc_inv_step)

lemma mvcc_run_append:
  assumes "mvcc_run s1 fs s2" and "mvcc_run s0 es s1"
  shows "mvcc_run s0 (es @ fs) s2"
  using assms by (induction rule: mvcc_run.induct)
    (auto intro: run_snoc [of s0 "es @ _" _ _ _, simplified])

text \<open>A transaction keeps its snapshot, and its identifier is not given out again.\<close>

lemma mvcc_run_keeps_txn:
  assumes "mvcc_run s fs s'" and "mvcc_inv first aborted es s" and "mv_txns s i = Some t"
  shows "\<exists>t'. mv_txns s' i = Some t' \<and> tx_snapshot t' = tx_snapshot t"
    and "E_Begin i \<notin> set fs" and "mvcc_inv first aborted (es @ fs) s'"
proof -
  have "(\<exists>t'. mv_txns s' i = Some t' \<and> tx_snapshot t' = tx_snapshot t) \<and> E_Begin i \<notin> set fs
      \<and> mvcc_inv first aborted (es @ fs) s'"
    using assms
  proof (induction rule: mvcc_run.induct)
    case (run_snoc s fs s' e s'')
    then obtain t' where t': "mv_txns s' i = Some t'" "tx_snapshot t' = tx_snapshot t" "E_Begin i \<notin> set fs"
      and inv: "mvcc_inv first aborted (es @ fs) s'" by auto
    have fresh: "i \<noteq> tm_next_txn_id (mv_mgr s')" using mvcc_invD(2) [OF inv, of i] t'(1) by auto
    have "e \<noteq> E_Begin i \<and> (\<exists>t''. mv_txns s'' i = Some t'' \<and> tx_snapshot t'' = tx_snapshot t)"
      using run_snoc.hyps(2)
    proof (cases rule: mvcc_step.cases)
      case (step_begin u tm)
      then show ?thesis using tm_begin_Inr(1) [OF step_begin(3)] fresh t' by auto
    next
      case (step_commit j u u' tm)
      then show ?thesis using tm_commit_Inr(2) [OF step_commit(4)] t' by auto
    next
      case (step_abort j u u' tm)
      then show ?thesis using tm_abort_Inr(2) [OF step_abort(4)] t' by auto
    qed (use t' in auto)
    then show ?case using t'(3) mvcc_inv_step [OF inv run_snoc.hyps(2)] by auto
  qed auto
  then show "\<exists>t'. mv_txns s' i = Some t' \<and> tx_snapshot t' = tx_snapshot t"
    "E_Begin i \<notin> set fs" "mvcc_inv first aborted (es @ fs) s'" by auto
qed

lemma precedes_later:
  "b \<notin> set fs \<Longrightarrow> precedes (es @ fs) a b \<longleftrightarrow> precedes es a b"
proof (induction fs rule: rev_induct)
  case (snoc f fs)
  then show ?case using precedes_snoc [of "es @ fs" f a b] by auto
qed simp

section \<open>Visibility\<close>

text \<open>
  What transaction \<open>i\<close> sees of transaction \<open>x\<close>: its own changes, those of a transaction that
  had committed before \<open>i\<close> began, and those of an earlier process unless it did not commit.
\<close>

definition sees :: "nat \<Rightarrow> nat set \<Rightarrow> event list \<Rightarrow> nat \<Rightarrow> nat \<Rightarrow> bool" where
  "sees first aborted es i x \<longleftrightarrow>
     x = i \<or> (x < first \<and> x \<notin> aborted) \<or> precedes es (E_Commit x) (E_Begin i)"

lemma seen_iff:
  assumes inv: "mvcc_inv first aborted es s" and ab: "\<forall>x \<in> aborted. x < first"
    and t: "mv_txns s i = Some t" "tx_state t \<noteq> TXN_ABORTED"
  shows "x \<notin> tm_aborted_xids (mv_mgr s) \<and> (x = sn_xid (tx_snapshot t) \<or> committed_before (tx_snapshot t) x)
    \<longleftrightarrow> sees first aborted es i x"
proof -
  note D = mvcc_invD [OF inv]
  have xid: "sn_xid (tx_snapshot t) = i" "first \<le> i" using D(3) [OF t(1)] D(2) [of i] t(1) by auto
  consider "x = i" | "x \<noteq> i" "x < first" | "x \<noteq> i" "first \<le> x" by linarith
  then show ?thesis
  proof cases
    case 1
    then show ?thesis using xid D(5) [of i] ab t by (auto simp: sees_def txn_is_def)
  next
    case 2
    then have "\<not> txn_is s TXN_ABORTED x" "\<not> precedes es (E_Commit x) (E_Begin i)"
      using D(2) [of x] D(7) [of x] precedes_set [of es "E_Commit x" "E_Begin i"] by (auto simp: txn_is_def)
    with 2 show ?thesis using xid D(5) [of x] D(9) [OF t(1), of x] by (auto simp: sees_def committed_before_def)
  next
    case 3
    have "x \<notin> aborted" using 3 ab by auto
    moreover have "E_Abort x \<in> set es \<longleftrightarrow> txn_is s TXN_ABORTED x" by (rule D(8))
    moreover have "\<not> txn_is s TXN_ABORTED x" if "E_Commit x \<in> set es"
      using D(7) [of x] that by (auto simp: txn_is_def)
    ultimately show ?thesis
      using 3 xid D(5) [of x] D(9) [OF t(1), of x] D(11) [of x i]
        precedes_set [of es "E_Commit x" "E_Begin i"] precedes_set [of es "E_Abort x" "E_Begin i"]
      by (auto simp: sees_def committed_before_def ended_before_def)
  qed
qed

lemma visible_iff:
  assumes "mvcc_inv first aborted es s" and "\<forall>x \<in> aborted. x < first"
    and "mv_txns s i = Some t" "tx_state t \<noteq> TXN_ABORTED"
  shows "is_visible (mv_mgr s) xmin xmax (tx_snapshot t) \<longleftrightarrow>
    sees first aborted es i xmin \<and> \<not> (xmax \<noteq> INFINITY_TXN \<and> sees first aborted es i xmax)"
  using seen_iff [OF assms, of xmin] seen_iff [OF assms, of xmax] by (auto simp: is_visible_def Let_def)

section \<open>Progress\<close>

text \<open>While the log is open and the identifiers fit in four bytes, every call succeeds.\<close>

lemma tm_begin_eq:
  assumes "\<not> wl_closed (tm_wal tm)" and "tm_next_txn_id tm < 2 ^ 32"
  obtains w where "\<not> wl_closed w"
    and "tm_begin tm = (Inr \<lparr>tx_id = tm_next_txn_id tm,
        tx_snapshot = \<lparr>sn_xid = tm_next_txn_id tm, sn_active_xids = tm_active_xids tm\<rparr>, tx_state = TXN_ACTIVE\<rparr>,
      tm\<lparr>tm_wal := w, tm_next_txn_id := tm_next_txn_id tm + 1,
        tm_active_xids := insert (tm_next_txn_id tm) (tm_active_xids tm)\<rparr>)"
  by (rule that [of "(tm_wal tm)\<lparr>wl_bytes := wl_bytes (tm_wal tm) @ entry_bytes (R_BEGIN, tm_next_txn_id tm, [])\<rparr>"])
    (use assms in \<open>simp_all add: tm_begin_def py_bind_def py_seq_def py_gets_def py_modify_def py_return_def
      on_wal_def py_zoom_def log_begin_eq del: entry_bytes.simps\<close>)

lemma tm_commit_eq:
  assumes "\<not> wl_closed (tm_wal tm)" and "tx_id t < 2 ^ 32" and "tx_state t = TXN_ACTIVE"
  obtains w where "\<not> wl_closed w"
    and "tm_commit t tm = (Inr (t\<lparr>tx_state := TXN_COMMITTED\<rparr>),
      tm\<lparr>tm_wal := w, tm_active_xids := tm_active_xids tm - {tx_id t}\<rparr>)"
  by (rule that [of "(tm_wal tm)\<lparr>wl_bytes := wl_bytes (tm_wal tm) @ entry_bytes (R_COMMIT, tx_id t, []),
      wl_synced := length (wl_bytes (tm_wal tm) @ entry_bytes (R_COMMIT, tx_id t, []))\<rparr>"])
    (use assms in \<open>simp_all add: tm_commit_def py_bind_def py_seq_def py_modify_def py_return_def
      on_wal_def py_zoom_def log_commit_eq del: entry_bytes.simps\<close>)

lemma tm_abort_eq:
  assumes "\<not> wl_closed (tm_wal tm)" and "tx_id t < 2 ^ 32" and "tx_state t = TXN_ACTIVE"
  obtains w where "\<not> wl_closed w"
    and "tm_abort t tm = (Inr (t\<lparr>tx_state := TXN_ABORTED\<rparr>),
      tm\<lparr>tm_wal := w, tm_active_xids := tm_active_xids tm - {tx_id t},
         tm_aborted_xids := insert (tx_id t) (tm_aborted_xids tm)\<rparr>)"
  by (rule that [of "(tm_wal tm)\<lparr>wl_bytes := wl_bytes (tm_wal tm) @ entry_bytes (R_ABORT, tx_id t, [])\<rparr>"])
    (use assms in \<open>simp_all add: tm_abort_def py_bind_def py_seq_def py_modify_def py_return_def
      on_wal_def py_zoom_def log_abort_eq del: entry_bytes.simps\<close>)

text \<open>Which steps are possible after a run, and what they lead to.\<close>

definition mvcc_at :: "event list \<Rightarrow> mvcc \<Rightarrow> nat \<Rightarrow> bool" where
  "mvcc_at es s n \<longleftrightarrow> mvcc_run (mvcc_start (wal_open None) 1 {} Map.empty) es s
     \<and> \<not> wl_closed (tm_wal (mv_mgr s)) \<and> tm_next_txn_id (mv_mgr s) = n"

lemma mvcc_at_start: "mvcc_at [] (mvcc_start (wal_open None) 1 {} Map.empty) 1"
  by (simp add: mvcc_at_def run_none mvcc_start_def tm_init_def wal_open_def Let_def)

lemma mvcc_at_inv: "mvcc_at es s n \<Longrightarrow> mvcc_inv 1 {} es s"
  unfolding mvcc_at_def by (blast intro: mvcc_inv_run)

lemma can_begin:
  assumes at: "mvcc_at es s n" and n: "n < 2 ^ 32"
  obtains s' where "mvcc_at (es @ [E_Begin n]) s' (n + 1)" and "txn_is s' TXN_ACTIVE n"
    and "mv_rows s' = mv_rows s" and "\<And>z j. j \<noteq> n \<Longrightarrow> txn_is s' z j = txn_is s z j"
proof -
  have open0: "\<not> wl_closed (tm_wal (mv_mgr s))" "tm_next_txn_id (mv_mgr s) < 2 ^ 32" "tm_next_txn_id (mv_mgr s) = n"
    using assms by (simp_all add: mvcc_at_def)
  let ?t = "\<lparr>tx_id = n, tx_snapshot = \<lparr>sn_xid = n, sn_active_xids = tm_active_xids (mv_mgr s)\<rparr>, tx_state = TXN_ACTIVE\<rparr>"
  obtain w where w: "\<not> wl_closed w" "tm_begin (mv_mgr s) = (Inr ?t, (mv_mgr s)\<lparr>tm_wal := w,
      tm_next_txn_id := n + 1, tm_active_xids := insert n (tm_active_xids (mv_mgr s))\<rparr>)"
    by (rule tm_begin_eq [OF open0(1,2), unfolded open0(3)])
  from mvcc_step.step_begin [OF w(2)] at have "mvcc_at (es @ [E_Begin n])
      (s\<lparr>mv_mgr := (mv_mgr s)\<lparr>tm_wal := w, tm_next_txn_id := n + 1,
          tm_active_xids := insert n (tm_active_xids (mv_mgr s))\<rparr>, mv_txns := (mv_txns s)(n \<mapsto> ?t)\<rparr>) (n + 1)"
    using w(1) by (auto simp: mvcc_at_def intro: run_snoc)
  then show ?thesis by (rule that) (auto simp: txn_is_def)
qed

lemma can_end:
  assumes at: "mvcc_at es s n" and i: "txn_is s TXN_ACTIVE i" "n \<le> 2 ^ 32"
    and z: "z = TXN_COMMITTED \<and> e = E_Commit i \<or> z = TXN_ABORTED \<and> e = E_Abort i"
  obtains s' where "mvcc_at (es @ [e]) s' n" and "txn_is s' z i"
    and "mv_rows s' = mv_rows s" and "\<And>y j. j \<noteq> i \<Longrightarrow> txn_is s' y j = txn_is s y j"
proof -
  from i obtain t where t: "mv_txns s i = Some t" "tx_state t = TXN_ACTIVE" by (auto simp: txn_is_def)
  note D = mvcc_invD [OF mvcc_at_inv [OF at]]
  have id: "tx_id t = i" "tx_id t < 2 ^ 32" using D(3) [OF t(1)] D(2) [of i] t i(2) at by (auto simp: mvcc_at_def)
  have op: "\<not> wl_closed (tm_wal (mv_mgr s))" using at by (simp add: mvcc_at_def)
  have "\<exists>tm. \<not> wl_closed (tm_wal tm) \<and> tm_next_txn_id tm = n
      \<and> mvcc_step s e (s\<lparr>mv_mgr := tm, mv_txns := (mv_txns s)(i \<mapsto> t\<lparr>tx_state := z\<rparr>)\<rparr>)"
  proof (cases "e = E_Commit i")
    case True
    obtain w where w: "\<not> wl_closed w" "tm_commit t (mv_mgr s) = (Inr (t\<lparr>tx_state := TXN_COMMITTED\<rparr>),
      (mv_mgr s)\<lparr>tm_wal := w, tm_active_xids := tm_active_xids (mv_mgr s) - {tx_id t}\<rparr>)"
      by (rule tm_commit_eq [OF op id(2) t(2)])
    show ?thesis using mvcc_step.step_commit [OF t(1) w(2)] w(1) True z at
      by (intro exI [of _ "(mv_mgr s)\<lparr>tm_wal := w, tm_active_xids := tm_active_xids (mv_mgr s) - {tx_id t}\<rparr>"])
        (auto simp: mvcc_at_def)
  next
    case False
    obtain w where w: "\<not> wl_closed w" "tm_abort t (mv_mgr s) = (Inr (t\<lparr>tx_state := TXN_ABORTED\<rparr>),
      (mv_mgr s)\<lparr>tm_wal := w, tm_active_xids := tm_active_xids (mv_mgr s) - {tx_id t},
         tm_aborted_xids := insert (tx_id t) (tm_aborted_xids (mv_mgr s))\<rparr>)"
      by (rule tm_abort_eq [OF op id(2) t(2)])
    show ?thesis using mvcc_step.step_abort [OF t(1) w(2)] w(1) False z at
      by (intro exI [of _ "(mv_mgr s)\<lparr>tm_wal := w, tm_active_xids := tm_active_xids (mv_mgr s) - {tx_id t},
           tm_aborted_xids := insert (tx_id t) (tm_aborted_xids (mv_mgr s))\<rparr>"])
        (auto simp: mvcc_at_def)
  qed
  then obtain tm where tm: "\<not> wl_closed (tm_wal tm)" "tm_next_txn_id tm = n"
    and step: "mvcc_step s e (s\<lparr>mv_mgr := tm, mv_txns := (mv_txns s)(i \<mapsto> t\<lparr>tx_state := z\<rparr>)\<rparr>)" by blast
  from step at tm have "mvcc_at (es @ [e]) (s\<lparr>mv_mgr := tm, mv_txns := (mv_txns s)(i \<mapsto> t\<lparr>tx_state := z\<rparr>)\<rparr>) n"
    by (auto simp: mvcc_at_def intro: run_snoc)
  then show ?thesis by (rule that) (auto simp: txn_is_def)
qed

lemma can_insert:
  assumes at: "mvcc_at es s n" and i: "txn_is s TXN_ACTIVE i" and r: "mv_rows s r = None"
  obtains s' where "mvcc_at (es @ [E_Insert i r]) s' n"
    and "mv_rows s' = (mv_rows s)(r \<mapsto> (i, INFINITY_TXN))" and "\<And>y j. txn_is s' y j = txn_is s y j"
proof -
  from i obtain t where t: "mv_txns s i = Some t" "tx_state t = TXN_ACTIVE" by (auto simp: txn_is_def)
  from mvcc_step.step_insert [OF t r] at
  have "mvcc_at (es @ [E_Insert i r]) (s\<lparr>mv_rows := (mv_rows s)(r \<mapsto> (i, INFINITY_TXN))\<rparr>) n"
    by (auto simp: mvcc_at_def intro: run_snoc)
  then show ?thesis by (rule that) (auto simp: txn_is_def)
qed

lemma can_delete:
  assumes at: "mvcc_at es s n" and i: "txn_is s TXN_ACTIVE i" and r: "mv_rows s r = Some (xmin, xmax)"
    and x: "xmax = INFINITY_TXN \<or> txn_is s TXN_ABORTED xmax"
  obtains s' where "mvcc_at (es @ [E_Delete i r]) s' n"
    and "mv_rows s' = (mv_rows s)(r \<mapsto> (xmin, i))" and "\<And>y j. txn_is s' y j = txn_is s y j"
proof -
  from i obtain t where t: "mv_txns s i = Some t" "tx_state t = TXN_ACTIVE" by (auto simp: txn_is_def)
  have "check_write_conflict t xmax (mv_mgr s) = (Inr (), mv_mgr s)"
    using x mvcc_invD(5) [OF mvcc_at_inv [OF at], of xmax] by (auto simp: check_write_conflict_eq)
  from mvcc_step.step_delete [OF t r this] at
  have "mvcc_at (es @ [E_Delete i r]) (s\<lparr>mv_rows := (mv_rows s)(r \<mapsto> (xmin, i))\<rparr>) n"
    by (auto simp: mvcc_at_def intro: run_snoc)
  then show ?thesis by (rule that) (auto simp: txn_is_def)
qed

text \<open>
  A run: transaction 1 inserts a row and commits, 2 deletes it and aborts, 3 deletes it and
  commits, with 4 beginning before that commit.
\<close>

definition sample_events :: "event list" where
  "sample_events = [E_Begin 1, E_Insert 1 (RID 0 0), E_Commit 1, E_Begin 2, E_Delete 2 (RID 0 0), E_Abort 2,
     E_Begin 3, E_Begin 4, E_Delete 3 (RID 0 0), E_Commit 3]"

lemma sample_run: "\<exists>s. mvcc_at sample_events s 5 \<and> txn_is s TXN_ACTIVE 4"
proof -
  let ?r = "RID 0 0"
  have rows0: "mv_rows (mvcc_start (wal_open None) 1 {} Map.empty) ?r = None" by (simp add: mvcc_start_def)
  obtain s1 where s1: "mvcc_at ([] @ [E_Begin 1]) s1 (1 + 1)" "txn_is s1 TXN_ACTIVE 1" "mv_rows s1 ?r = None"
    by (rule can_begin [OF mvcc_at_start]) (use rows0 in auto)
  obtain s2 where s2: "mvcc_at ([E_Begin 1] @ [E_Insert 1 ?r]) s2 2" "mv_rows s2 ?r = Some (1, INFINITY_TXN)"
      "txn_is s2 TXN_ACTIVE 1"
    by (rule can_insert [OF _ s1(2,3), of "[E_Begin 1]" 2]) (use s1 in \<open>auto simp: numeral_2_eq_2\<close>)
  obtain s3 where s3: "mvcc_at (([E_Begin 1] @ [E_Insert 1 ?r]) @ [E_Commit 1]) s3 2" "mv_rows s3 ?r = Some (1, INFINITY_TXN)"
    by (rule can_end [OF s2(1,3), of TXN_COMMITTED "E_Commit 1"]) (use s2 in auto)
  obtain s4 where s4: "mvcc_at ((([E_Begin 1] @ [E_Insert 1 ?r]) @ [E_Commit 1]) @ [E_Begin 2]) s4 (2 + 1)"
      "txn_is s4 TXN_ACTIVE 2" "mv_rows s4 ?r = Some (1, INFINITY_TXN)"
    by (rule can_begin [OF s3(1)]) (use s3 in auto)
  obtain s5 where s5: "mvcc_at (((([E_Begin 1] @ [E_Insert 1 ?r]) @ [E_Commit 1]) @ [E_Begin 2]) @ [E_Delete 2 ?r]) s5 (2 + 1)"
      "txn_is s5 TXN_ACTIVE 2" "mv_rows s5 ?r = Some (1, 2)"
    by (rule can_delete [OF s4]) (use s4 in auto)
  obtain s6 where s6: "mvcc_at ((((([E_Begin 1] @ [E_Insert 1 ?r]) @ [E_Commit 1]) @ [E_Begin 2]) @ [E_Delete 2 ?r]) @ [E_Abort 2]) s6 (2 + 1)"
      "txn_is s6 TXN_ABORTED 2" "mv_rows s6 ?r = Some (1, 2)"
    by (rule can_end [OF s5(1,2), of TXN_ABORTED "E_Abort 2"]) (use s5 in auto)
  obtain s7 where s7: "mvcc_at (take 7 sample_events) s7 4"
      "txn_is s7 TXN_ACTIVE 3" "mv_rows s7 ?r = Some (1, 2)" "txn_is s7 TXN_ABORTED 2"
    by (rule can_begin [OF s6(1)]) (use s6 in \<open>auto simp: sample_events_def\<close>)
  obtain s8 where s8: "mvcc_at (take 7 sample_events @ [E_Begin 4]) s8 (4 + 1)"
      "txn_is s8 TXN_ACTIVE 3" "mv_rows s8 ?r = Some (1, 2)" "txn_is s8 TXN_ABORTED 2" "txn_is s8 TXN_ACTIVE 4"
    by (rule can_begin [OF s7(1)]) (use s7 in auto)
  obtain s9 where s9: "mvcc_at ((take 7 sample_events @ [E_Begin 4]) @ [E_Delete 3 ?r]) s9 (4 + 1)"
      "txn_is s9 TXN_ACTIVE 3" "txn_is s9 TXN_ACTIVE 4"
    by (rule can_delete [OF s8(1-3) disjI2 [OF s8(4)]]) (use s8 in auto)
  obtain s10 where "mvcc_at (((take 7 sample_events @ [E_Begin 4]) @ [E_Delete 3 ?r]) @ [E_Commit 3]) s10 (4 + 1)"
      "txn_is s10 TXN_ACTIVE 4"
    by (rule can_end [OF s9(1,2), of TXN_COMMITTED "E_Commit 3"]) (use s9 in auto)
  then show ?thesis by (auto simp: sample_events_def)
qed

section \<open>Recovery\<close>

text \<open>The operations of one transaction, in log entries and in the records read back.\<close>

definition entry_ops :: "nat \<Rightarrow> log_entry list \<Rightarrow> json list" where
  "entry_ops x es = map (\<lambda>(_, _, p). JObj p) (filter (\<lambda>(rt, y, _). rt = R_OP \<and> y = x) es)"

definition record_ops :: "nat \<Rightarrow> log_record list \<Rightarrow> json list" where
  "record_ops x rs = map lr_payload (filter (\<lambda>r. lr_type r = R_OP \<and> lr_txn_id r = x) rs)"

definition has_commit :: "nat \<Rightarrow> log_entry list \<Rightarrow> bool" where
  "has_commit x es \<longleftrightarrow> (\<exists>p. (R_COMMIT, x, p) \<in> set es)"

text \<open>No transaction logs an operation after its commit record.\<close>

definition ops_before_commit :: "log_entry list \<Rightarrow> bool" where
  "ops_before_commit es \<longleftrightarrow> (\<forall>as bs x. es = as @ bs \<longrightarrow> has_commit x as \<longrightarrow> entry_ops x bs = [])"

lemma log_records_append: "log_records off (es @ fs) = log_records off es @ log_records (off + length (log_bytes es)) fs"
  by (induction es arbitrary: off) (simp_all add: log_bytes_def add.assoc)

lemma record_ops_log_records: "record_ops x (log_records off es) = entry_ops x es"
  by (induction es arbitrary: off) (auto simp: record_ops_def entry_ops_def)

lemma commits_log_records:
  "x \<in> lr_txn_id ` {r \<in> set (log_records off es). lr_type r = R_COMMIT} \<longleftrightarrow> has_commit x es"
proof -
  have "(\<exists>r \<in> set (log_records off es). lr_type r = R_COMMIT \<and> x = lr_txn_id r) \<longleftrightarrow> has_commit x es"
  proof (induction es arbitrary: off)
    case (Cons e es)
    obtain rt y p where e: "e = (rt, y, p)" by (cases e)
    show ?case using Cons [of "off + length (entry_bytes e)"] by (auto simp: has_commit_def e)
  qed (simp add: has_commit_def)
  then show ?thesis by (auto simp: image_iff)
qed

lemma checkpoints_log_records:
  "(\<forall>r \<in> set (log_records off es). lr_type r \<noteq> R_CHECKPOINT) \<longleftrightarrow> (\<forall>e \<in> set es. fst e \<noteq> R_CHECKPOINT)"
  by (induction es arbitrary: off) auto

lemma after_checkpoint_log:
  assumes "pre = [] \<or> fst (last pre) = R_CHECKPOINT" and "\<forall>e \<in> set post. fst e \<noteq> R_CHECKPOINT"
  shows "after_checkpoint (log_records 0 (pre @ post)) = log_records (length (log_bytes pre)) post"
proof -
  let ?q = "\<lambda>r :: log_record. lr_type r \<noteq> R_CHECKPOINT" let ?b = "log_records (length (log_bytes pre)) post"
  have q: "\<forall>r \<in> set (rev ?b). ?q r" using checkpoints_log_records [of "length (log_bytes pre)" post] assms(2) by simp
  have "takeWhile ?q (rev (log_records 0 pre)) = []"
  proof (cases pre rule: rev_cases)
    case (snoc p e)
    with assms(1) show ?thesis by (cases e) (simp add: log_records_append)
  qed simp
  then have "takeWhile ?q (rev ?b @ rev (log_records 0 pre)) = rev ?b" using q by (subst takeWhile_append2) auto
  then show ?thesis by (simp add: after_checkpoint_def log_records_append)
qed

lemma record_ops_filter:
  "record_ops x (filter (\<lambda>r. lr_type r = R_OP \<and> lr_txn_id r \<in> C) rs) = (if x \<in> C then record_ops x rs else [])"
  by (induction rs) (auto simp: record_ops_def)

lemma entry_ops_append: "entry_ops x (as @ bs) = entry_ops x as @ entry_ops x bs"
  by (simp add: entry_ops_def)

section \<open>Properties\<close>

text \<open>
  C1: snapshot isolation. In every reachable state and for every transaction that has not
  aborted, \<^verbatim>\<open>is_visible\<close> with its snapshot holds of a row version exactly if the creator of the
  version is the transaction itself or had committed before the transaction began, and the
  version is not deleted by a transaction of that kind.
\<close>

theorem snapshot_visibility:
  assumes "mvcc_run (mvcc_start w first aborted rows) es s" and "\<forall>x \<in> aborted. x < first"
    and "mv_txns s i = Some t" and "tx_state t \<noteq> TXN_ABORTED"
  shows "is_visible (mv_mgr s) xmin xmax (tx_snapshot t) \<longleftrightarrow>
    sees first aborted es i xmin \<and> \<not> (xmax \<noteq> INFINITY_TXN \<and> sees first aborted es i xmax)"
  by (rule visible_iff [OF mvcc_inv_run [OF assms(1)] assms(2-4)])

theorem snapshot_visibility_witness:
  "\<exists>(s :: mvcc) t. mv_txns s 4 = Some t \<and> is_visible (mv_mgr s) 1 3 (tx_snapshot t)"
proof -
  obtain s where s: "mvcc_run (mvcc_start (wal_open None) 1 {} Map.empty) sample_events s" "txn_is s TXN_ACTIVE 4"
    using sample_run unfolding mvcc_at_def by blast
  then obtain t where t: "mv_txns s 4 = Some t" "tx_state t = TXN_ACTIVE" by (auto simp: txn_is_def)
  have "precedes sample_events (E_Commit 1) (E_Begin 4)"
    unfolding precedes_def sample_events_def
    by (intro exI [of _ "take 3 sample_events"] exI [of _ "drop 3 sample_events"]) (simp add: sample_events_def)
  moreover have "precedes sample_events a (E_Begin 4) \<longleftrightarrow> a \<in> set (take 7 sample_events)" for a
  proof -
    have split: "sample_events = (take 7 sample_events @ [E_Begin 4]) @ [E_Delete 3 (RID 0 0), E_Commit 3]"
      by (simp add: sample_events_def)
    have "precedes (take 7 sample_events) a (E_Begin 4) \<Longrightarrow> False"
      using precedes_set by (force simp: sample_events_def)
    then show ?thesis
      by (subst split, subst precedes_later) (auto simp: precedes_snoc)
  qed
  ultimately have "sees 1 {} sample_events 4 1" "\<not> sees 1 {} sample_events 4 3"
    by (auto simp: sees_def) (simp add: sample_events_def)
  with snapshot_visibility [OF s(1) _ t(1), of 1 3] t(2) have "is_visible (mv_mgr s) 1 3 (tx_snapshot t)" by simp
  with t(1) show ?thesis by blast
qed



text \<open>
  C3: no lost updates. Two different transactions that both stamped the same row version
  cannot both be committed: the conflict check lets the second one through only after the
  first one aborted.
\<close>

theorem no_lost_update:
  assumes run: "mvcc_run (mvcc_start w first aborted rows) es s" and ab: "\<forall>x \<in> aborted. x < first"
    and del: "E_Delete x r \<in> set es" "E_Delete y r \<in> set es" "x \<noteq> y" "x \<noteq> INFINITY_TXN" "y \<noteq> INFINITY_TXN"
  shows "\<not> (E_Commit x \<in> set es \<and> E_Commit y \<in> set es)"
proof
  assume c: "E_Commit x \<in> set es \<and> E_Commit y \<in> set es"
  note D = mvcc_invD [OF mvcc_inv_run [OF run]]
  have "z \<notin> tm_aborted_xids (mv_mgr s)" if "E_Commit z \<in> set es" for z
    using D(7) [of z] D(5) [of z] D(2) [of z] ab that by (auto simp: txn_is_def)
  with c D(10) [OF del(1,4)] D(10) [OF del(2,5)] del(3) show False by auto
qed

theorem no_lost_update_witness:
  "\<not> (E_Commit 2 \<in> set sample_events \<and> E_Commit 3 \<in> set sample_events)"
proof -
  obtain s where "mvcc_run (mvcc_start (wal_open None) 1 {} Map.empty) sample_events s"
    using sample_run unfolding mvcc_at_def by blast
  from no_lost_update [OF this, of 2 "RID 0 0" 3] show ?thesis by (simp add: sample_events_def INFINITY_TXN_def)
qed

text \<open>
  \<^verbatim>\<open>commit\<close> and \<^verbatim>\<open>abort\<close> of a transaction that is no longer active raise \<^verbatim>\<open>ValueError\<close> and
  change nothing, the log included.
\<close>

theorem finished_transaction_errors:
  assumes "tx_state t \<noteq> TXN_ACTIVE"
  shows "tm_commit t tm = (Inl ValueError, tm) \<and> tm_abort t tm = (Inl ValueError, tm)"
  using assms by (simp add: tm_commit_def tm_abort_def py_raise_def)

theorem finished_transaction_errors_witness:
  "tm_commit \<lparr>tx_id = 4, tx_snapshot = \<lparr>sn_xid = 4, sn_active_xids = {}\<rparr>, tx_state = TXN_ABORTED\<rparr>
     (tm_init (wal_open None) 5 None) = (Inl ValueError, tm_init (wal_open None) 5 None)"
  using finished_transaction_errors [of "\<lparr>tx_id = 4, tx_snapshot = \<lparr>sn_xid = 4, sn_active_xids = {}\<rparr>, tx_state = TXN_ABORTED\<rparr>"]
  by simp

text \<open>What recovery reads of each transaction: all or none of its operations.\<close>

lemma recovered_operations:
  assumes holds: "wal_holds (pre @ post) m w" and cut: "wl_synced w \<le> n" and pre: "length pre \<le> m"
    and cp: "pre = [] \<or> fst (last pre) = R_CHECKPOINT" "\<forall>e \<in> set post. fst e \<noteq> R_CHECKPOINT"
    and ord: "ops_before_commit post"
  shows "\<exists>rs. committed_operations_since_checkpoint (take n (wl_bytes w)) = Inr rs \<and> (\<forall>x.
      (record_ops x rs = entry_ops x post \<or> record_ops x rs = [])
      \<and> (has_commit x (take (m - length pre) post) \<longrightarrow> record_ops x rs = entry_ops x post)
      \<and> (\<not> has_commit x post \<longrightarrow> record_ops x rs = []))"
proof -
  obtain k where k: "m \<le> k" "read_all (take n (wl_bytes w)) = Inr (log_records 0 (take k (pre @ post)))"
    by (rule read_after_crash [OF holds cut])
  define kept where "kept = take (k - length pre) post"
  define rest where "rest = drop (k - length pre) post"
  have split: "post = kept @ rest" by (simp add: kept_def rest_def)
  have "take k (pre @ post) = pre @ kept" using k(1) pre by (simp add: kept_def)
  then have since: "read_since_last_checkpoint (take n (wl_bytes w)) = Inr (log_records (length (log_bytes pre)) kept)"
    using k(2) after_checkpoint_log [OF cp(1), of kept] cp(2) split by (simp add: read_since_eq)
  define rs where "rs = filter (\<lambda>r. lr_type r = R_OP \<and> lr_txn_id r \<in>
      lr_txn_id ` {r \<in> set (log_records (length (log_bytes pre)) kept). lr_type r = R_COMMIT})
      (log_records (length (log_bytes pre)) kept)"
  have ops: "record_ops x rs = (if has_commit x kept then entry_ops x kept else [])" for x
    unfolding rs_def record_ops_filter record_ops_log_records by (simp only: commits_log_records)
  have all: "entry_ops x kept = entry_ops x post" if "has_commit x kept" for x
    using ord that split entry_ops_append [of x kept rest] unfolding ops_before_commit_def by auto
  have "has_commit x kept" if "has_commit x (take (m - length pre) post)" for x
  proof -
    have "set (take (m - length pre) post) \<subseteq> set kept"
      unfolding kept_def using k(1) by (intro set_take_subset_set_take) simp
    with that show ?thesis by (auto simp: has_commit_def)
  qed
  moreover have "\<not> has_commit x kept" if "\<not> has_commit x post" for x
    using that split by (auto simp: has_commit_def)
  moreover have "committed_operations_since_checkpoint (take n (wl_bytes w)) = Inr rs"
    by (simp add: committed_operations_since_checkpoint_def since rs_def)
  ultimately show ?thesis using ops all by auto
qed


text \<open>The log of one committed transaction with an operation, all of it flushed.\<close>

definition sample_wal :: wal where
  "sample_wal = \<lparr>wl_bytes = log_bytes sample_log, wl_synced = length (log_bytes sample_log), wl_closed = False\<rparr>"

lemma sample_wal: "wal_holds ([] @ sample_log) 3 sample_wal"
  using sample_log_ok by (simp add: wal_holds_def sample_wal_def length_sample_log)

lemma sample_log_order: "ops_before_commit sample_log"
  unfolding ops_before_commit_def
proof (intro allI impI)
  fix as bs x assume s: "sample_log = as @ bs" and c: "has_commit x as"
  have len: "length as + length bs = 3" using length_sample_log(1) arg_cong [OF s, of length] by simp
  have as: "as = take (length as) sample_log" unfolding s by simp
  have "\<not> has_commit x (take k sample_log)" if "k < 3" for k
    using that by (auto simp: has_commit_def sample_log_def take_Cons' split: if_splits)
  then have "length as = 3" using as c len by (metis le_add1 le_neq_implies_less)
  then have "bs = []" using len by simp
  then show "entry_ops x bs = []" by (simp add: entry_ops_def)
qed


text \<open>
  A restarted manager gives out new identifiers only: every transaction in the log, and
  every one that recovery marks as aborted, is below the first identifier it will use.
\<close>

theorem restart_ids_are_fresh:
  assumes "next_txn_id_after_recovery file = Inr n" and "uncommitted_txn_ids_since_checkpoint file = Inr ab"
  shows "(\<exists>rs. read_all file = Inr rs \<and> (\<forall>r \<in> set rs. lr_txn_id r < n)) \<and> (\<forall>x \<in> ab. x < n)"
proof -
  from assms(1) obtain rs where rs: "read_all file = Inr rs"
    and n: "n = foldl (\<lambda>max_seen r. max max_seen (lr_txn_id r)) 0 rs + 1"
    by (auto simp: next_txn_id_after_recovery_def elim!: res_bindE)
  have fold: "a \<le> foldl (\<lambda>max_seen r. max max_seen (lr_txn_id r)) a rs
      \<and> (\<forall>r \<in> set rs. lr_txn_id r \<le> foldl (\<lambda>max_seen r. max max_seen (lr_txn_id r)) a rs)" for a and rs :: "log_record list"
  proof (induction rs arbitrary: a)
    case (Cons r rs)
    from Cons [of "max a (lr_txn_id r)"] show ?case by auto
  qed simp
  have lt: "\<forall>r \<in> set rs. lr_txn_id r < n" using fold [of 0 rs] by (auto simp: n less_Suc_eq_le)
  moreover have "set (after_checkpoint rs) \<subseteq> set rs"
    by (auto simp: after_checkpoint_def dest: set_takeWhileD)
  then have "\<forall>x \<in> ab. x < n" using assms(2) lt rs
    by (auto simp: uncommitted_txn_ids_since_checkpoint_def read_since_eq)
  ultimately show ?thesis using rs by blast
qed

theorem restart_ids_are_fresh_witness:
  "\<exists>rs. read_all [] = Inr rs \<and> list_all (\<lambda>r. lr_txn_id r < 1) rs"
proof -
  have "(\<exists>rs. read_all [] = Inr rs \<and> (\<forall>r \<in> set rs. lr_txn_id r < 1)) \<and> (\<forall>x \<in> {}. x < (1 :: nat))"
    by (rule restart_ids_are_fresh)
      (simp_all add: next_txn_id_after_recovery_def uncommitted_txn_ids_since_checkpoint_def read_since_eq
        read_all_def iter_records_short after_checkpoint_def)
  then show ?thesis by (auto simp: list_all_iff)
qed


end
