(* ===== verification/BTree_Node.thy ===== *)
theory BTree_Node
  imports Buffer_Pool Row_Types
begin

text \<open>
  The nodes of the B+-tree as bytes of a page (\<^verbatim>\<open>index/btree.py\<close>, the constructor's limits,
  key encoding and node (de)serialization).

  A method that writes a node changes the page buffer in place, field by field, and an
  exception leaves it half written; such code is a \<open>py\<close> computation whose state is the
  buffer. Keys are Python values, as the callers pass them: the conversions and
  comparisons that raise on a value of the wrong type do so in the model. The lemmas show that
  what \<^verbatim>\<open>_write_leaf\<close> and \<^verbatim>\<open>_write_internal\<close> write, \<^verbatim>\<open>_read_leaf\<close> and \<^verbatim>\<open>_read_internal\<close> read
  back, for keys that the index can represent and nodes within its limits.
\<close>

section \<open>The limits of a tree\<close>

definition LEAF_HEADER :: nat where
  "LEAF_HEADER = 7"

definition INTERNAL_HEADER :: nat where
  "INTERNAL_HEADER = 3"

definition CHILD_SIZE :: nat where
  "CHILD_SIZE = 4"

definition RID_SIZE :: nat where
  "RID_SIZE = 6"

lemmas node_consts = PAGE_SIZE_def LEAF_HEADER_def INTERNAL_HEADER_def CHILD_SIZE_def RID_SIZE_def

record btconf =
  bc_key_type :: col_type
  bc_key_size :: nat
  bc_unique :: bool
  bc_max_leaf_keys :: nat
  bc_min_leaf_keys :: nat
  bc_max_internal_keys :: nat
  bc_min_internal_keys :: nat

definition btree_config :: "col_type \<Rightarrow> nat \<Rightarrow> bool \<Rightarrow> btconf res" where
  "btree_config key_type key_size unique =
     (if key_type \<noteq> T_INT \<and> key_type \<noteq> T_TEXT then Inl ValueError
      else let ks = (if key_type = T_INT then 8 else key_size);
               max_leaf = max 4 ((PAGE_SIZE - LEAF_HEADER) div (ks + RID_SIZE));
               max_internal = max 4 ((PAGE_SIZE - INTERNAL_HEADER - CHILD_SIZE) div (ks + CHILD_SIZE))
           in Inr \<lparr>bc_key_type = key_type, bc_key_size = ks, bc_unique = unique,
                   bc_max_leaf_keys = max_leaf, bc_min_leaf_keys = max 1 (max_leaf div 2),
                   bc_max_internal_keys = max_internal,
                   bc_min_internal_keys = max 1 ((max_internal - 1) div 2)\<rparr>)"

section \<open>Keys as bytes\<close>

definition encode_key :: "btconf \<Rightarrow> pyval \<Rightarrow> bytes res" where
  "encode_key c key =
     (if bc_key_type c = T_INT then res_bind (py_int key) pack_int64
      else res_bind (utf8_encode (py_str key)) (\<lambda>enc.
        let raw = take (bc_key_size c) enc in Inr (raw @ replicate (bc_key_size c - length raw) 0)))"

definition rstrip_zeros :: "bytes \<Rightarrow> bytes" where
  "rstrip_zeros bs = rev (dropWhile (\<lambda>b. b = 0) (rev bs))"

definition decode_key :: "btconf \<Rightarrow> bytes \<Rightarrow> pyval res" where
  "decode_key c raw =
     (if bc_key_type c = T_INT
      then if length raw = 8 then Inr (VInt (int64_of_nat (le_nat raw))) else Inl StructError
      else res_bind (utf8_decode (rstrip_zeros raw)) (\<lambda>s. Inr (VStr s)))"

section \<open>Writing into a buffer\<close>

text \<open>\<^verbatim>\<open>data[i] = v\<close>.\<close>

definition put_byte :: "nat \<Rightarrow> nat \<Rightarrow> (bytes, unit) py" where
  "put_byte i v = (\<lambda>d. if i < length d then (Inr (), d[i := word_of_nat v]) else (Inl IndexError, d))"

text \<open>
  \<^verbatim>\<open>struct.pack_into\<close> of unsigned fields, each a width and a value: a buffer that is too short
  is not changed; otherwise the area is cleared and filled up to the first value that does
  not fit.
\<close>

fun pack_prefix :: "(nat \<times> nat) list \<Rightarrow> bool \<times> bytes" where
  "pack_prefix [] = (True, [])"
| "pack_prefix ((n, v) # fs) =
     (if v < 256 ^ n then (case pack_prefix fs of (ok, bs) \<Rightarrow> (ok, le_bytes n v @ bs))
      else (False, replicate (n + sum_list (map fst fs)) 0))"

definition put_fields :: "nat \<Rightarrow> (nat \<times> nat) list \<Rightarrow> (bytes, unit) py" where
  "put_fields off fs = (\<lambda>d.
     let n = sum_list (map fst fs)
     in if off + n \<le> length d
        then (case pack_prefix fs of (ok, bs) \<Rightarrow>
                (if ok then Inr () else Inl StructError, slice_assign off (off + n) bs d))
        else (Inl StructError, d))"

section \<open>Nodes as bytes\<close>

definition node_type :: "bytes \<Rightarrow> page_type res" where
  "node_type d = (if d = [] then Inl IndexError else page_type_of (unat (d ! 0)))"

fun read_leaf_loop :: "btconf \<Rightarrow> bytes \<Rightarrow> nat \<Rightarrow> nat \<Rightarrow> (pyval list \<times> rid list) res" where
  "read_leaf_loop c d 0 off = Inr ([], [])"
| "read_leaf_loop c d (Suc n) off =
     res_bind (decode_key c (py_slice off (off + bc_key_size c) d)) (\<lambda>key.
     res_bind (unpack_from 4 d (off + bc_key_size c)) (\<lambda>page_id.
     res_bind (unpack_from 2 d (off + bc_key_size c + 4)) (\<lambda>slot_id.
     res_bind (read_leaf_loop c d n (off + bc_key_size c + RID_SIZE)) (\<lambda>(keys, rids).
       Inr (key # keys, RID page_id slot_id # rids)))))"

definition read_leaf :: "btconf \<Rightarrow> bytes \<Rightarrow> (pyval list \<times> rid list \<times> nat) res" where
  "read_leaf c d =
     res_bind (unpack_from 2 d 1) (\<lambda>num_keys.
     res_bind (unpack_from 4 d 3) (\<lambda>next_leaf.
     res_bind (read_leaf_loop c d num_keys LEAF_HEADER) (\<lambda>(keys, rids). Inr (keys, rids, next_leaf))))"

fun write_leaf_loop :: "btconf \<Rightarrow> (pyval \<times> rid) list \<Rightarrow> nat \<Rightarrow> (bytes, unit) py" where
  "write_leaf_loop c [] off = py_return ()"
| "write_leaf_loop c ((key, r) # es) off =
     py_bind (py_lift (encode_key c key)) (\<lambda>raw.
     py_seq (py_modify (slice_assign off (off + bc_key_size c) raw))
    (py_seq (put_fields (off + bc_key_size c) [(4, rid_page_id r), (2, rid_slot_id r)])
            (write_leaf_loop c es (off + bc_key_size c + RID_SIZE))))"

definition write_leaf :: "btconf \<Rightarrow> pyval list \<Rightarrow> rid list \<Rightarrow> nat \<Rightarrow> (bytes, unit) py" where
  "write_leaf c keys rids next_leaf =
     py_seq (put_byte 0 (page_type_value PT_BTREE_LEAF))
    (py_seq (put_fields 1 [(2, length keys)])
    (py_seq (put_fields 3 [(4, next_leaf)])
            (write_leaf_loop c (zip keys rids) LEAF_HEADER)))"

fun read_internal_loop :: "btconf \<Rightarrow> bytes \<Rightarrow> nat \<Rightarrow> nat \<Rightarrow> (nat list \<times> pyval list) res" where
  "read_internal_loop c d 0 off = Inr ([], [])"
| "read_internal_loop c d (Suc n) off =
     res_bind (decode_key c (py_slice off (off + bc_key_size c) d)) (\<lambda>key.
     res_bind (unpack_from 4 d (off + bc_key_size c)) (\<lambda>child.
     res_bind (read_internal_loop c d n (off + bc_key_size c + CHILD_SIZE)) (\<lambda>(children, keys).
       Inr (child # children, key # keys))))"

definition read_internal :: "btconf \<Rightarrow> bytes \<Rightarrow> (nat list \<times> pyval list) res" where
  "read_internal c d =
     res_bind (unpack_from 2 d 1) (\<lambda>num_keys.
     res_bind (unpack_from 4 d INTERNAL_HEADER) (\<lambda>child.
     res_bind (read_internal_loop c d num_keys (INTERNAL_HEADER + CHILD_SIZE)) (\<lambda>(children, keys).
       Inr (child # children, keys))))"

fun write_internal_loop :: "btconf \<Rightarrow> (pyval \<times> nat) list \<Rightarrow> nat \<Rightarrow> (bytes, unit) py" where
  "write_internal_loop c [] off = py_return ()"
| "write_internal_loop c ((key, child) # es) off =
     py_bind (py_lift (encode_key c key)) (\<lambda>raw.
     py_seq (py_modify (slice_assign off (off + bc_key_size c) raw))
    (py_seq (put_fields (off + bc_key_size c) [(4, child)])
            (write_internal_loop c es (off + bc_key_size c + CHILD_SIZE))))"

definition write_internal :: "btconf \<Rightarrow> nat list \<Rightarrow> pyval list \<Rightarrow> (bytes, unit) py" where
  "write_internal c children keys =
     py_seq (put_byte 0 (page_type_value PT_BTREE_INTERNAL))
    (py_seq (put_fields 1 [(2, length keys)])
    (case children of
       [] \<Rightarrow> py_raise IndexError
     | child # rest \<Rightarrow>
         py_seq (put_fields INTERNAL_HEADER [(4, child)])
                (write_internal_loop c (zip keys rest) (INTERNAL_HEADER + CHILD_SIZE))))"

section \<open>Keys that an index can represent\<close>

text \<open>
  A key of the column's type that survives the encoding: an integer of 64 bits, or a string
  whose UTF-8 form fits into the key and does not end in a zero byte.
\<close>

definition key_ok :: "btconf \<Rightarrow> pyval \<Rightarrow> bool" where
  "key_ok c k =
     (case k of
        VInt i \<Rightarrow> bc_key_type c = T_INT \<and> - (2 ^ 63) \<le> i \<and> i < 2 ^ 63
      | VStr s \<Rightarrow> bc_key_type c = T_TEXT
          \<and> (case utf8_encode s of Inl e \<Rightarrow> False
             | Inr bs \<Rightarrow> length bs \<le> bc_key_size c \<and> (bs = [] \<or> last bs \<noteq> 0))
      | _ \<Rightarrow> False)"

definition rid_ok :: "rid \<Rightarrow> bool" where
  "rid_ok r \<longleftrightarrow> rid_page_id r < 2 ^ 32 \<and> rid_slot_id r < 2 ^ 16"

text \<open>The limits as the constructor computes them, for a key that is not too long.\<close>

definition conf_ok :: "btconf \<Rightarrow> bool" where
  "conf_ok c \<longleftrightarrow> (bc_key_type c = T_INT \<and> bc_key_size c = 8 \<or> bc_key_type c = T_TEXT)
     \<and> 4 \<le> bc_max_leaf_keys c \<and> LEAF_HEADER + bc_max_leaf_keys c * (bc_key_size c + RID_SIZE) \<le> PAGE_SIZE
     \<and> 4 \<le> bc_max_internal_keys c
     \<and> INTERNAL_HEADER + CHILD_SIZE + bc_max_internal_keys c * (bc_key_size c + CHILD_SIZE) \<le> PAGE_SIZE
     \<and> bc_min_leaf_keys c = bc_max_leaf_keys c div 2
     \<and> bc_min_internal_keys c = (bc_max_internal_keys c - 1) div 2"

lemma fits_div: "0 < e \<Longrightarrow> h \<le> (P :: nat) \<Longrightarrow> 4 \<le> (P - h) div e \<Longrightarrow> h + max 4 ((P - h) div e) * e \<le> P"
  using div_times_less_eq_dividend [of "P - h" e] by (simp add: max_def del: div_times_less_eq_dividend)

lemma fits_less: "h + m * e \<le> (P :: nat) \<Longrightarrow> n \<le> m \<Longrightarrow> h + n * e \<le> P"
  using mult_le_mono1 [of n m e] by linarith

lemma btree_config_ok:
  assumes "btree_config t n uniq = Inr c" and "n \<le> 1016"
  shows "conf_ok c"
proof -
  define ks where "ks = (if t = T_INT then 8 else n)"
  have ks: "ks \<le> 1016" using assms(2) by (simp add: ks_def)
  have t: "t = T_INT \<or> t = T_TEXT" using assms(1) by (auto simp: btree_config_def split: if_splits)
  have "4 * (ks + 6) \<le> 4089" "4 * (ks + 4) \<le> 4089" using ks by simp_all
  then have "4 \<le> 4089 div (ks + 6)" "4 \<le> 4089 div (ks + 4)"
    by (simp_all add: less_eq_div_iff_mult_less_eq del: mult_le_mono)
  with fits_div [of "ks + 6" 7 4096] fits_div [of "ks + 4" 7 4096]
  have "7 + max 4 (4089 div (ks + 6)) * (ks + 6) \<le> 4096" "7 + max 4 (4089 div (ks + 4)) * (ks + 4) \<le> 4096"
    by simp_all
  moreover have "4 \<le> max 4 (4089 div (ks + 6))" "4 \<le> max 4 (4089 div (ks + 4))" by simp_all
  moreover have "max 1 (m div 2) = m div 2" "max 1 ((m - 1) div 2) = (m - 1) div 2" if "4 \<le> m" for m :: nat
    using that by auto
  ultimately show ?thesis
    using assms(1) t unfolding conf_ok_def btree_config_def Let_def ks_def [symmetric] node_consts
    by (auto simp: ks_def)
qed

lemma conf_okD:
  assumes "conf_ok c"
  shows "bc_key_type c = T_INT \<Longrightarrow> bc_key_size c = 8" and "4 \<le> bc_max_leaf_keys c" and "4 \<le> bc_max_internal_keys c"
    and "n \<le> bc_max_leaf_keys c \<Longrightarrow> LEAF_HEADER + n * (bc_key_size c + RID_SIZE) \<le> PAGE_SIZE"
    and "n \<le> bc_max_internal_keys c \<Longrightarrow> INTERNAL_HEADER + CHILD_SIZE + n * (bc_key_size c + CHILD_SIZE) \<le> PAGE_SIZE"
    and "bc_min_leaf_keys c = bc_max_leaf_keys c div 2" and "bc_min_internal_keys c = (bc_max_internal_keys c - 1) div 2"
  using assms by (auto simp: conf_ok_def intro: fits_less)

text \<open>On such keys Python's comparisons are those of the linear order.\<close>

lemma key_ok_compare:
  assumes "key_ok c k" and "key_ok c k'"
  shows "py_less k k' = Inr (k < k')" and "py_eq k k' \<longleftrightarrow> k = k'"
  using assms by (cases k; cases k'; auto simp: key_ok_def)+

lemma py_bisect_right_ok:
  assumes "key_ok c k" and "\<forall>k' \<in> set ks. key_ok c k'" and "sorted ks"
  shows "py_bisect_right ks k = Inr (length (takeWhile (\<lambda>y. y \<le> k) ks))"
proof -
  have "py_bisect_right ks k = Inr (bisect_right ks k)"
    unfolding py_bisect_right_def bisect_right_def
    by (rule bisect_res_pure) (use assms key_ok_compare(1) [of c] in auto)
  with assms(3) show ?thesis by (simp add: bisect_right_takeWhile)
qed

lemma py_bisect_left_ok:
  assumes "key_ok c k" and "\<forall>k' \<in> set ks. key_ok c k'" and "sorted ks"
  shows "py_bisect_left ks k = Inr (length (takeWhile (\<lambda>y. y < k) ks))"
proof -
  have "py_bisect_left ks k = Inr (bisect_left ks k)"
    unfolding py_bisect_left_def bisect_left_def
    by (rule bisect_res_pure) (use assms key_ok_compare(1) [of c] in auto)
  with assms(3) show ?thesis by (simp add: bisect_left_takeWhile)
qed

lemma rstrip_zeros_pad: "bs = [] \<or> last bs \<noteq> 0 \<Longrightarrow> rstrip_zeros (bs @ replicate n 0) = bs"
  by (cases bs rule: rev_cases) (simp_all add: rstrip_zeros_def dropWhile_append)

lemma key_roundtrip:
  assumes "conf_ok c" and "key_ok c k"
  shows "\<exists>raw. encode_key c k = Inr raw \<and> length raw = bc_key_size c \<and> decode_key c raw = Inr k"
proof (cases k)
  case (VInt i)
  with assms(2) have i: "bc_key_type c = T_INT" "- (2 ^ 63) \<le> i" "i < 2 ^ 63" by (simp_all add: key_ok_def)
  then obtain raw where "pack_int64 i = Inr raw" by (auto simp: pack_int64_def)
  with int64_roundtrip [OF this] i(1) VInt conf_okD(1) [OF assms(1)] show ?thesis
    by (simp add: encode_key_def decode_key_def)
next
  case (VStr s)
  with assms(2) obtain bs where bs: "bc_key_type c = T_TEXT" "utf8_encode s = Inr bs"
    "length bs \<le> bc_key_size c" "bs = [] \<or> last bs \<noteq> 0"
    by (auto simp: key_ok_def split: sum.splits)
  with utf8_roundtrip [OF bs(2)] rstrip_zeros_pad [OF bs(4)] VStr show ?thesis
    by (simp add: encode_key_def decode_key_def)
qed (use assms(2) in \<open>simp_all add: key_ok_def\<close>)

definition key_bytes :: "btconf \<Rightarrow> pyval \<Rightarrow> bytes" where
  "key_bytes c k = (case encode_key c k of Inl e \<Rightarrow> [] | Inr raw \<Rightarrow> raw)"

lemma key_bytes:
  assumes "conf_ok c" and "key_ok c k"
  shows "encode_key c k = Inr (key_bytes c k)" and "length (key_bytes c k) = bc_key_size c"
    and "decode_key c (key_bytes c k) = Inr k"
  using key_roundtrip [OF assms] by (auto simp: key_bytes_def)

section \<open>A node that was written is read back\<close>

definition fields_bytes :: "(nat \<times> nat) list \<Rightarrow> bytes" where
  "fields_bytes fs = concat (map (\<lambda>(n, v). le_bytes n v) fs)"

lemma pack_prefix_fit: "\<forall>(n, v) \<in> set fs. v < 256 ^ n \<Longrightarrow> pack_prefix fs = (True, fields_bytes fs)"
  by (induction fs) (auto simp: fields_bytes_def)

lemma length_fields_bytes: "length (fields_bytes fs) = sum_list (map fst fs)"
  by (induction fs) (auto simp: fields_bytes_def)

lemma slice_assign_eq: "slice_assign off (off + length bs) bs d = take off d @ bs @ drop (off + length bs) d"
  by (simp add: slice_assign_def)

lemma put_fields_fit:
  assumes "\<forall>(n, v) \<in> set fs. v < 256 ^ n" and "off + sum_list (map fst fs) \<le> length d"
  shows "put_fields off fs d = (Inr (), take off d @ fields_bytes fs @ drop (off + length (fields_bytes fs)) d)"
  using assms by (simp add: put_fields_def Let_def pack_prefix_fit length_fields_bytes slice_assign_def)

text \<open>Leaves.\<close>

definition leaf_entry_bytes :: "btconf \<Rightarrow> pyval \<times> rid \<Rightarrow> bytes" where
  "leaf_entry_bytes c e = key_bytes c (fst e) @ fields_bytes [(4, rid_page_id (snd e)), (2, rid_slot_id (snd e))]"

lemma length_leaf_entry_bytes:
  "conf_ok c \<Longrightarrow> key_ok c (fst e) \<Longrightarrow> length (leaf_entry_bytes c e) = bc_key_size c + RID_SIZE"
  by (simp add: leaf_entry_bytes_def key_bytes length_fields_bytes RID_SIZE_def)

lemma length_concat_const: "(\<And>x. x \<in> set xs \<Longrightarrow> length (f x) = n) \<Longrightarrow> length (concat (map f xs)) = length xs * n"
  by (induction xs) simp_all

text \<open>Overwriting a piece of a buffer, and one piece after the other.\<close>

definition overwrite :: "nat \<Rightarrow> 'a list \<Rightarrow> 'a list \<Rightarrow> 'a list" where
  "overwrite off bs d = take off d @ bs @ drop (off + length bs) d"

lemma length_overwrite [simp]: "off + length bs \<le> length d \<Longrightarrow> length (overwrite off bs d) = length d"
  by (simp add: overwrite_def)

lemma overwrite_twice:
  assumes "off + length bs \<le> length d"
  shows "overwrite (off + length bs) bs' (overwrite off bs d) = overwrite off (bs @ bs') d"
  using assms by (simp add: overwrite_def ac_simps)

lemma overwrite_Nil [simp]: "overwrite off [] d = d"
  by (simp add: overwrite_def)

lemma slice_assign_overwrite: "slice_assign off (off + length bs) bs d = overwrite off bs d"
  by (simp add: slice_assign_def overwrite_def)

lemma put_fields_overwrite:
  assumes "\<forall>(n, v) \<in> set fs. v < 256 ^ n" and "off + length (fields_bytes fs) \<le> length d"
  shows "put_fields off fs d = (Inr (), overwrite off (fields_bytes fs) d)"
  using put_fields_fit [of fs off d] assms by (simp add: overwrite_def length_fields_bytes)

lemma py_seq_run: "m s = (Inr x, s') \<Longrightarrow> py_seq m n s = n s'"
  by (simp add: py_seq_def py_bind_def)

lemma py_bind_run: "m s = (Inr x, s') \<Longrightarrow> py_bind m f s = f x s'"
  by (simp add: py_bind_def)

lemma write_leaf_loop_eq:
  assumes "conf_ok c" and "\<forall>e \<in> set es. key_ok c (fst e) \<and> rid_ok (snd e)"
    and "off + length es * (bc_key_size c + RID_SIZE) \<le> length d"
  shows "write_leaf_loop c es off d = (Inr (), overwrite off (concat (map (leaf_entry_bytes c) es)) d)"
  using assms(2,3)
proof (induction es arbitrary: off d)
  case Nil
  show ?case by (simp add: py_return_def)
next
  case (Cons e es)
  obtain k r where e: "e = (k, r)" by (cases e)
  have k: "key_ok c k" "rid_ok r" using Cons.prems(1) e by auto
  note K = key_bytes [OF assms(1) k(1)]
  let ?rb = "fields_bytes [(4, rid_page_id r), (2, rid_slot_id r)]"
  have rb: "length ?rb = 6" by (simp add: length_fields_bytes)
  have room: "off + (bc_key_size c + 6) + length es * (bc_key_size c + RID_SIZE) \<le> length d"
    using Cons.prems(2) by (simp add: RID_SIZE_def)
  let ?d1 = "overwrite off (key_bytes c k) d"
  have d1: "length ?d1 = length d" using room K(2) by simp
  have put: "put_fields (off + bc_key_size c) [(4, rid_page_id r), (2, rid_slot_id r)] ?d1
      = (Inr (), overwrite off (key_bytes c k @ ?rb) d)"
    using put_fields_overwrite [of "[(4, rid_page_id r), (2, rid_slot_id r)]" "off + bc_key_size c" ?d1]
      overwrite_twice [of off "key_bytes c k" d ?rb] room d1 rb K(2) k(2)
    by (simp add: rid_ok_def)
  let ?d2 = "overwrite off (leaf_entry_bytes c e) d"
  have d2: "length ?d2 = length d" using room rb K(2) by (simp add: leaf_entry_bytes_def e)
  have "write_leaf_loop c (e # es) off d = write_leaf_loop c es (off + bc_key_size c + RID_SIZE) ?d2"
    using put K slice_assign_overwrite [of off "key_bytes c k" d]
    by (simp add: e py_lift_def py_modify_def py_seq_def py_bind_def leaf_entry_bytes_def)
  also have "\<dots> = (Inr (), overwrite (off + length (leaf_entry_bytes c e)) (concat (map (leaf_entry_bytes c) es)) ?d2)"
    using Cons.IH [of "off + bc_key_size c + RID_SIZE" ?d2] Cons.prems d2 room
      length_leaf_entry_bytes [OF assms(1), of e] k e by (simp add: add.assoc RID_SIZE_def)
  finally show ?case
    using overwrite_twice [of off "leaf_entry_bytes c e" d] room length_leaf_entry_bytes [OF assms(1), of e] k e
    by (simp add: RID_SIZE_def)
qed

lemma unpack_from_at: "length pre = off \<Longrightarrow> v < 256 ^ n \<Longrightarrow> unpack_from n (pre @ le_bytes n v @ post) off = Inr v"
  by (auto simp: unpack_from_def)

lemma py_slice_at: "length pre = off \<Longrightarrow> length bs = n \<Longrightarrow> py_slice off (off + n) (pre @ bs @ post) = bs"
  by (auto simp: py_slice_def)

lemma read_leaf_loop_eq:
  assumes "conf_ok c" and "\<forall>e \<in> set es. key_ok c (fst e) \<and> rid_ok (snd e)" and "length pre = off"
  shows "read_leaf_loop c (pre @ concat (map (leaf_entry_bytes c) es) @ post) (length es) off = Inr (map fst es, map snd es)"
  using assms(2,3)
proof (induction es arbitrary: pre off)
  case Nil
  show ?case by simp
next
  case (Cons e es)
  obtain k r where e: "e = (k, r)" by (cases e)
  have k: "key_ok c k" "rid_ok r" using Cons.prems(1) e by auto
  note K = key_bytes [OF assms(1) k(1)]
  let ?rest = "concat (map (leaf_entry_bytes c) es) @ post"
  let ?p = "le_bytes 4 (rid_page_id r)" and ?s = "le_bytes 2 (rid_slot_id r)"
  have d: "pre @ concat (map (leaf_entry_bytes c) (e # es)) @ post = pre @ key_bytes c k @ ?p @ ?s @ ?rest"
    by (simp add: e leaf_entry_bytes_def fields_bytes_def)
  have 1: "py_slice off (off + bc_key_size c) (pre @ key_bytes c k @ ?p @ ?s @ ?rest) = key_bytes c k"
    using py_slice_at [OF Cons.prems(2) K(2)] by simp
  have 2: "unpack_from 4 (pre @ key_bytes c k @ ?p @ ?s @ ?rest) (off + bc_key_size c) = Inr (rid_page_id r)"
    using unpack_from_at [of "pre @ key_bytes c k" "off + bc_key_size c" "rid_page_id r" 4 "?s @ ?rest"] Cons.prems(2) K(2) k(2)
    by (simp add: rid_ok_def)
  have 3: "unpack_from 2 (pre @ key_bytes c k @ ?p @ ?s @ ?rest) (off + bc_key_size c + 4) = Inr (rid_slot_id r)"
    using unpack_from_at [of "pre @ key_bytes c k @ ?p" "off + bc_key_size c + 4" "rid_slot_id r" 2 ?rest] Cons.prems(2) K(2) k(2)
    by (simp add: rid_ok_def)
  have 4: "read_leaf_loop c (pre @ key_bytes c k @ ?p @ ?s @ ?rest) (length es) (off + bc_key_size c + RID_SIZE)
      = Inr (map fst es, map snd es)"
    using Cons.IH [of "pre @ key_bytes c k @ ?p @ ?s" "off + bc_key_size c + RID_SIZE"] Cons.prems K(2)
    by (simp add: RID_SIZE_def)
  show ?case unfolding d using 1 2 3 4 K(3) by (simp add: e)
qed

lemma put_byte_overwrite: "i < length d \<Longrightarrow> put_byte i v d = (Inr (), overwrite i [word_of_nat v] d)"
  by (simp add: put_byte_def overwrite_def upd_conv_take_nth_drop)

definition node_header :: "page_type \<Rightarrow> nat \<Rightarrow> bytes" where
  "node_header t n = word_of_nat (page_type_value t) # le_bytes 2 n"

definition leaf_image :: "btconf \<Rightarrow> (pyval \<times> rid) list \<Rightarrow> nat \<Rightarrow> bytes" where
  "leaf_image c es nx = node_header PT_BTREE_LEAF (length es) @ le_bytes 4 nx @ concat (map (leaf_entry_bytes c) es)"

definition leaf_fits :: "btconf \<Rightarrow> (pyval \<times> rid) list \<Rightarrow> nat \<Rightarrow> bool" where
  "leaf_fits c es nx \<longleftrightarrow> (\<forall>e \<in> set es. key_ok c (fst e) \<and> rid_ok (snd e)) \<and> length es \<le> bc_max_leaf_keys c \<and> nx < 2 ^ 32"

lemma key_counts_fit:
  assumes "conf_ok c"
  shows "n \<le> bc_max_leaf_keys c \<Longrightarrow> n < 65536" and "n \<le> bc_max_internal_keys c \<Longrightarrow> n < 65536"
proof -
  have *: "n < 65536" if "h + n * (k + e) \<le> 4096" "0 < e" for h n k e :: nat
  proof -
    have "n * 1 \<le> n * (k + e)" using that(2) by (intro mult_le_mono2) simp
    with that(1) show ?thesis by linarith
  qed
  show "n \<le> bc_max_leaf_keys c \<Longrightarrow> n < 65536" "n \<le> bc_max_internal_keys c \<Longrightarrow> n < 65536"
    using conf_okD(4,5) [OF assms, of n] *[of LEAF_HEADER n "bc_key_size c" RID_SIZE]
      *[of "INTERNAL_HEADER + CHILD_SIZE" n "bc_key_size c" CHILD_SIZE] by (simp_all add: node_consts)
qed

lemma write_leaf_eq:
  assumes c: "conf_ok c" and fit: "leaf_fits c es nx" and d: "length d = PAGE_SIZE"
  shows "write_leaf c (map fst es) (map snd es) nx d = (Inr (), overwrite 0 (leaf_image c es nx) d)"
    and "length (leaf_image c es nx) \<le> PAGE_SIZE"
proof -
  have es: "\<forall>e \<in> set es. key_ok c (fst e) \<and> rid_ok (snd e)" and n: "length es \<le> bc_max_leaf_keys c" and nx: "nx < 2 ^ 32"
    using fit by (simp_all add: leaf_fits_def)
  have len: "length (concat (map (leaf_entry_bytes c) es)) = length es * (bc_key_size c + RID_SIZE)"
    by (rule length_concat_const) (use es in \<open>auto simp: length_leaf_entry_bytes [OF c]\<close>)
  have room: "7 + length es * (bc_key_size c + RID_SIZE) \<le> PAGE_SIZE"
    using conf_okD(4) [OF c n] by (simp add: LEAF_HEADER_def)
  show "length (leaf_image c es nx) \<le> PAGE_SIZE" using room len by (simp add: leaf_image_def node_header_def)
  let ?t = "word_of_nat (page_type_value PT_BTREE_LEAF) :: byte"
  let ?d1 = "overwrite 0 [?t] d" and ?d2 = "overwrite 0 (?t # le_bytes 2 (length es)) d"
  let ?d3 = "overwrite 0 (?t # le_bytes 2 (length es) @ le_bytes 4 nx) d"
  have l: "length ?d1 = PAGE_SIZE" "length ?d2 = PAGE_SIZE" "length ?d3 = PAGE_SIZE"
    using d by (simp_all add: PAGE_SIZE_def)
  have 1: "put_byte 0 (page_type_value PT_BTREE_LEAF) d = (Inr (), ?d1)"
    using d by (intro put_byte_overwrite) (simp add: PAGE_SIZE_def)
  have 2: "put_fields 1 [(2, length es)] ?d1 = (Inr (), ?d2)"
    using put_fields_overwrite [of "[(2, length es)]" 1 ?d1] overwrite_twice [of 0 "[?t]" d "le_bytes 2 (length es)"]
      l(1) d key_counts_fit(1) [OF c n] by (simp add: fields_bytes_def PAGE_SIZE_def)
  have 3: "put_fields 3 [(4, nx)] ?d2 = (Inr (), ?d3)"
    using put_fields_overwrite [of "[(4, nx)]" 3 ?d2] overwrite_twice [of 0 "?t # le_bytes 2 (length es)" d "le_bytes 4 nx"]
      l(2) d nx by (simp add: fields_bytes_def PAGE_SIZE_def)
  have 4: "write_leaf_loop c es LEAF_HEADER ?d3 = (Inr (), overwrite 0 (leaf_image c es nx) d)"
    using write_leaf_loop_eq [OF c es, of 7 ?d3] l(3) d room
      overwrite_twice [of 0 "?t # le_bytes 2 (length es) @ le_bytes 4 nx" d]
    by (simp add: LEAF_HEADER_def leaf_image_def node_header_def PAGE_SIZE_def)
  show "write_leaf c (map fst es) (map snd es) nx d = (Inr (), overwrite 0 (leaf_image c es nx) d)"
    using 1 2 3 4 by (simp add: write_leaf_def py_seq_run zip_map_fst_snd)
qed

lemma read_leaf_image:
  assumes c: "conf_ok c" and fit: "leaf_fits c es nx"
  shows "read_leaf c (overwrite 0 (leaf_image c es nx) d) = Inr (map fst es, map snd es, nx)"
    and "node_type (overwrite 0 (leaf_image c es nx) d) = Inr PT_BTREE_LEAF"
proof -
  have es: "\<forall>e \<in> set es. key_ok c (fst e) \<and> rid_ok (snd e)" and n: "length es \<le> bc_max_leaf_keys c" and nx: "nx < 2 ^ 32"
    using fit by (simp_all add: leaf_fits_def)
  let ?t = "word_of_nat (page_type_value PT_BTREE_LEAF) :: byte"
  let ?post = "drop (length (leaf_image c es nx)) d"
  let ?es = "concat (map (leaf_entry_bytes c) es)"
  have d: "overwrite 0 (leaf_image c es nx) d = [?t] @ le_bytes 2 (length es) @ le_bytes 4 nx @ ?es @ ?post"
    by (simp add: overwrite_def leaf_image_def node_header_def)
  have "unpack_from 2 ([?t] @ le_bytes 2 (length es) @ le_bytes 4 nx @ ?es @ ?post) 1 = Inr (length es)"
    using key_counts_fit(1) [OF c n] by (intro unpack_from_at) simp_all
  moreover have "unpack_from 4 ([?t] @ le_bytes 2 (length es) @ le_bytes 4 nx @ ?es @ ?post) 3 = Inr nx"
    using unpack_from_at [of "[?t] @ le_bytes 2 (length es)" 3 nx 4 "?es @ ?post"] nx by simp
  moreover have "read_leaf_loop c ([?t] @ le_bytes 2 (length es) @ le_bytes 4 nx @ ?es @ ?post) (length es) LEAF_HEADER
      = Inr (map fst es, map snd es)"
    using read_leaf_loop_eq [OF c es, of "[?t] @ le_bytes 2 (length es) @ le_bytes 4 nx" 7 ?post]
    by (simp add: LEAF_HEADER_def)
  ultimately show "read_leaf c (overwrite 0 (leaf_image c es nx) d) = Inr (map fst es, map snd es, nx)"
    unfolding d read_leaf_def by simp
  show "node_type (overwrite 0 (leaf_image c es nx) d) = Inr PT_BTREE_LEAF"
    unfolding d by (simp add: node_type_def page_type_of_def)
qed

text \<open>Internal nodes: the first child stands before the pairs of a key and the child to its right.\<close>

definition link_bytes :: "btconf \<Rightarrow> pyval \<times> nat \<Rightarrow> bytes" where
  "link_bytes c e = key_bytes c (fst e) @ le_bytes 4 (snd e)"

lemma length_link_bytes:
  "conf_ok c \<Longrightarrow> key_ok c (fst e) \<Longrightarrow> length (link_bytes c e) = bc_key_size c + CHILD_SIZE"
  by (simp add: link_bytes_def key_bytes CHILD_SIZE_def)

lemma write_internal_loop_eq:
  assumes "conf_ok c" and "\<forall>e \<in> set es. key_ok c (fst e) \<and> snd e < 2 ^ 32"
    and "off + length es * (bc_key_size c + CHILD_SIZE) \<le> length d"
  shows "write_internal_loop c es off d = (Inr (), overwrite off (concat (map (link_bytes c) es)) d)"
  using assms(2,3)
proof (induction es arbitrary: off d)
  case Nil
  show ?case by (simp add: py_return_def)
next
  case (Cons e es)
  obtain k p where e: "e = (k, p)" by (cases e)
  have k: "key_ok c k" "p < 2 ^ 32" using Cons.prems(1) e by auto
  note K = key_bytes [OF assms(1) k(1)]
  have room: "off + (bc_key_size c + 4) + length es * (bc_key_size c + CHILD_SIZE) \<le> length d"
    using Cons.prems(2) by (simp add: CHILD_SIZE_def)
  let ?d1 = "overwrite off (key_bytes c k) d"
  have d1: "length ?d1 = length d" using room K(2) by simp
  have put: "put_fields (off + bc_key_size c) [(4, p)] ?d1 = (Inr (), overwrite off (key_bytes c k @ le_bytes 4 p) d)"
    using put_fields_overwrite [of "[(4, p)]" "off + bc_key_size c" ?d1]
      overwrite_twice [of off "key_bytes c k" d "le_bytes 4 p"] room d1 K(2) k(2)
    by (simp add: fields_bytes_def)
  let ?d2 = "overwrite off (link_bytes c e) d"
  have d2: "length ?d2 = length d" using room K(2) by (simp add: link_bytes_def e)
  have "write_internal_loop c (e # es) off d = write_internal_loop c es (off + bc_key_size c + CHILD_SIZE) ?d2"
    using put K slice_assign_overwrite [of off "key_bytes c k" d]
    by (simp add: e py_lift_def py_modify_def py_seq_def py_bind_def link_bytes_def)
  also have "\<dots> = (Inr (), overwrite (off + length (link_bytes c e)) (concat (map (link_bytes c) es)) ?d2)"
    using Cons.IH [of "off + bc_key_size c + CHILD_SIZE" ?d2] Cons.prems d2 room
      length_link_bytes [OF assms(1), of e] k e by (simp add: add.assoc CHILD_SIZE_def)
  finally show ?case
    using overwrite_twice [of off "link_bytes c e" d] room length_link_bytes [OF assms(1), of e] k e
    by (simp add: CHILD_SIZE_def)
qed

lemma read_internal_loop_eq:
  assumes "conf_ok c" and "\<forall>e \<in> set es. key_ok c (fst e) \<and> snd e < 2 ^ 32" and "length pre = off"
  shows "read_internal_loop c (pre @ concat (map (link_bytes c) es) @ post) (length es) off = Inr (map snd es, map fst es)"
  using assms(2,3)
proof (induction es arbitrary: pre off)
  case Nil
  show ?case by simp
next
  case (Cons e es)
  obtain k p where e: "e = (k, p)" by (cases e)
  have k: "key_ok c k" "p < 2 ^ 32" using Cons.prems(1) e by auto
  note K = key_bytes [OF assms(1) k(1)]
  let ?rest = "concat (map (link_bytes c) es) @ post"
  have d: "pre @ concat (map (link_bytes c) (e # es)) @ post = pre @ key_bytes c k @ le_bytes 4 p @ ?rest"
    by (simp add: e link_bytes_def)
  have 1: "py_slice off (off + bc_key_size c) (pre @ key_bytes c k @ le_bytes 4 p @ ?rest) = key_bytes c k"
    using py_slice_at [OF Cons.prems(2) K(2)] by simp
  have 2: "unpack_from 4 (pre @ key_bytes c k @ le_bytes 4 p @ ?rest) (off + bc_key_size c) = Inr p"
    using unpack_from_at [of "pre @ key_bytes c k" "off + bc_key_size c" p 4 ?rest] Cons.prems(2) K(2) k(2) by simp
  have 3: "read_internal_loop c (pre @ key_bytes c k @ le_bytes 4 p @ ?rest) (length es) (off + bc_key_size c + CHILD_SIZE)
      = Inr (map snd es, map fst es)"
    using Cons.IH [of "pre @ key_bytes c k @ le_bytes 4 p" "off + bc_key_size c + CHILD_SIZE"] Cons.prems K(2)
    by (simp add: CHILD_SIZE_def)
  show ?case unfolding d using 1 2 3 K(3) by (simp add: e)
qed

definition internal_image :: "btconf \<Rightarrow> nat list \<Rightarrow> pyval list \<Rightarrow> bytes" where
  "internal_image c ch ks = node_header PT_BTREE_INTERNAL (length ks) @ le_bytes 4 (hd ch)
     @ concat (map (link_bytes c) (zip ks (tl ch)))"

definition internal_fits :: "btconf \<Rightarrow> nat list \<Rightarrow> pyval list \<Rightarrow> bool" where
  "internal_fits c ch ks \<longleftrightarrow> (\<forall>k \<in> set ks. key_ok c k) \<and> (\<forall>p \<in> set ch. p < 2 ^ 32)
     \<and> length ch = Suc (length ks) \<and> length ks \<le> bc_max_internal_keys c"

lemma internal_fitsD:
  assumes "internal_fits c ch ks"
  shows "\<forall>e \<in> set (zip ks (tl ch)). key_ok c (fst e) \<and> snd e < 2 ^ 32" and "ch = hd ch # tl ch" and "hd ch < 2 ^ 32"
    and "length (tl ch) = length ks" and "length ks \<le> bc_max_internal_keys c"
proof -
  obtain p rest where ch: "ch = p # rest" using assms by (cases ch) (auto simp: internal_fits_def)
  show "\<forall>e \<in> set (zip ks (tl ch)). key_ok c (fst e) \<and> snd e < 2 ^ 32"
    using assms by (auto simp: ch internal_fits_def dest: set_zip_leftD set_zip_rightD)
  show "ch = hd ch # tl ch" "hd ch < 2 ^ 32" "length (tl ch) = length ks" "length ks \<le> bc_max_internal_keys c"
    using assms by (simp_all add: ch internal_fits_def)
qed

lemma write_internal_eq:
  assumes c: "conf_ok c" and fit: "internal_fits c ch ks" and d: "length d = PAGE_SIZE"
  shows "write_internal c ch ks d = (Inr (), overwrite 0 (internal_image c ch ks) d)"
    and "length (internal_image c ch ks) \<le> PAGE_SIZE"
proof -
  note F = internal_fitsD [OF fit]
  let ?es = "zip ks (tl ch)"
  have n: "length ?es = length ks" using F(4) by simp
  have len: "length (concat (map (link_bytes c) ?es)) = length ks * (bc_key_size c + CHILD_SIZE)"
    using length_concat_const [of ?es "link_bytes c"] length_link_bytes [OF c] F(1) n by simp
  have room: "7 + length ks * (bc_key_size c + CHILD_SIZE) \<le> PAGE_SIZE"
    using conf_okD(5) [OF c F(5)] by (simp add: INTERNAL_HEADER_def CHILD_SIZE_def)
  show "length (internal_image c ch ks) \<le> PAGE_SIZE" using room len by (simp add: internal_image_def node_header_def)
  let ?t = "word_of_nat (page_type_value PT_BTREE_INTERNAL) :: byte"
  let ?d1 = "overwrite 0 [?t] d" and ?d2 = "overwrite 0 (?t # le_bytes 2 (length ks)) d"
  let ?d3 = "overwrite 0 (?t # le_bytes 2 (length ks) @ le_bytes 4 (hd ch)) d"
  have l: "length ?d1 = PAGE_SIZE" "length ?d2 = PAGE_SIZE" "length ?d3 = PAGE_SIZE"
    using d by (simp_all add: PAGE_SIZE_def)
  have 1: "put_byte 0 (page_type_value PT_BTREE_INTERNAL) d = (Inr (), ?d1)"
    using d by (intro put_byte_overwrite) (simp add: PAGE_SIZE_def)
  have 2: "put_fields 1 [(2, length ks)] ?d1 = (Inr (), ?d2)"
    using put_fields_overwrite [of "[(2, length ks)]" 1 ?d1] overwrite_twice [of 0 "[?t]" d "le_bytes 2 (length ks)"]
      l(1) d key_counts_fit(2) [OF c F(5)] by (simp add: fields_bytes_def PAGE_SIZE_def)
  have 3: "put_fields 3 [(4, hd ch)] ?d2 = (Inr (), ?d3)"
    using put_fields_overwrite [of "[(4, hd ch)]" 3 ?d2] overwrite_twice [of 0 "?t # le_bytes 2 (length ks)" d "le_bytes 4 (hd ch)"]
      l(2) d F(3) by (simp add: fields_bytes_def PAGE_SIZE_def)
  have 4: "write_internal_loop c ?es 7 ?d3 = (Inr (), overwrite 0 (internal_image c ch ks) d)"
    using write_internal_loop_eq [OF c F(1), of 7 ?d3] l(3) d room n
      overwrite_twice [of 0 "?t # le_bytes 2 (length ks) @ le_bytes 4 (hd ch)" d]
    by (simp add: internal_image_def node_header_def PAGE_SIZE_def)
  obtain p rest where ch: "ch = p # rest" using F(2) by (cases ch) auto
  show "write_internal c ch ks d = (Inr (), overwrite 0 (internal_image c ch ks) d)"
    using 1 2 3 4 by (simp add: ch write_internal_def py_seq_run INTERNAL_HEADER_def CHILD_SIZE_def)
qed

lemma read_internal_image:
  assumes c: "conf_ok c" and fit: "internal_fits c ch ks"
  shows "read_internal c (overwrite 0 (internal_image c ch ks) d) = Inr (ch, ks)"
    and "node_type (overwrite 0 (internal_image c ch ks) d) = Inr PT_BTREE_INTERNAL"
proof -
  note F = internal_fitsD [OF fit]
  let ?t = "word_of_nat (page_type_value PT_BTREE_INTERNAL) :: byte"
  let ?post = "drop (length (internal_image c ch ks)) d"
  let ?es = "concat (map (link_bytes c) (zip ks (tl ch)))"
  have d: "overwrite 0 (internal_image c ch ks) d = [?t] @ le_bytes 2 (length ks) @ le_bytes 4 (hd ch) @ ?es @ ?post"
    by (simp add: overwrite_def internal_image_def node_header_def)
  have "unpack_from 2 ([?t] @ le_bytes 2 (length ks) @ le_bytes 4 (hd ch) @ ?es @ ?post) 1 = Inr (length ks)"
    using key_counts_fit(2) [OF c F(5)] by (intro unpack_from_at) simp_all
  moreover have "unpack_from 4 ([?t] @ le_bytes 2 (length ks) @ le_bytes 4 (hd ch) @ ?es @ ?post) 3 = Inr (hd ch)"
    using unpack_from_at [of "[?t] @ le_bytes 2 (length ks)" 3 "hd ch" 4 "?es @ ?post"] F(3) by simp
  moreover have "read_internal_loop c ([?t] @ le_bytes 2 (length ks) @ le_bytes 4 (hd ch) @ ?es @ ?post) (length ks) 7
      = Inr (tl ch, ks)"
    using read_internal_loop_eq [OF c F(1), of "[?t] @ le_bytes 2 (length ks) @ le_bytes 4 (hd ch)" 7 ?post] F(4)
    by simp
  ultimately show "read_internal c (overwrite 0 (internal_image c ch ks) d) = Inr (ch, ks)"
    unfolding d read_internal_def using F(2) by (simp add: INTERNAL_HEADER_def CHILD_SIZE_def)
  show "node_type (overwrite 0 (internal_image c ch ks) d) = Inr PT_BTREE_INTERNAL"
    unfolding d by (simp add: node_type_def page_type_of_def)
qed

end
