(* ===== verification/BTree.thy ===== *)
theory BTree
  imports BTree_Node
begin

text \<open>
  The operations of the B+-tree (\<^verbatim>\<open>index/btree.py\<close>, class \<^verbatim>\<open>BPlusTree\<close>): construction, search,
  range scan, insertion with splits, deletion with borrowing, merging and redistribution.

  The state is the buffer pool, the limits computed by the constructor and the page of the
  root. The reference to a page buffer is the page's number, as in \<open>Buffer_Pool\<close>. Loops that
  follow page numbers (\<^verbatim>\<open>while True\<close>) are fuelled by the number of pages plus one: they only
  read, so a page that comes up twice comes up for ever. \<^verbatim>\<open>range_scan\<close> is the list of all pairs
  the generator yields when nothing else runs in between.
\<close>

section \<open>The tree object\<close>

record btree =
  bt_pool :: pool
  bt_conf :: btconf
  bt_root :: nat

definition on_tree :: "(pool, 'a) py \<Rightarrow> (btree, 'a) py" where
  "on_tree m = py_zoom bt_pool (\<lambda>b t. t\<lparr>bt_pool := b\<rparr>) m"

text \<open>Reading a pinned buffer, and code that changes it in place.\<close>

definition read_buf :: "nat \<Rightarrow> (bytes \<Rightarrow> 'a res) \<Rightarrow> (pool, 'a) py" where
  "read_buf r f = py_bind (buf_get r) (\<lambda>d. py_lift (f d))"

definition write_buf :: "nat \<Rightarrow> (bytes, 'a) py \<Rightarrow> (pool, 'a) py" where
  "write_buf r m = py_bind (buf_get r) (\<lambda>d. case m d of (x, d') \<Rightarrow> py_seq (buf_set r d') (py_lift x))"

definition btree_open :: "col_type \<Rightarrow> nat \<Rightarrow> nat option \<Rightarrow> bool \<Rightarrow> (pool, btconf \<times> nat) py" where
  "btree_open key_type key_size root_page_id uniq =
     py_bind (py_lift (btree_config key_type key_size uniq)) (\<lambda>c.
     case root_page_id of
       Some p \<Rightarrow> py_return (c, p)
     | None \<Rightarrow>
         py_bind new_page (\<lambda>page_id.
         py_seq (write_buf page_id (write_leaf c [] [] INVALID_PAGE_ID))
        (py_seq (unpin_page page_id True) (py_return (c, page_id)))))"

section \<open>Search\<close>

fun find_leaf_path_loop :: "btconf \<Rightarrow> nat \<Rightarrow> pyval \<Rightarrow> nat list \<Rightarrow> nat \<Rightarrow> (pool, nat list) py" where
  "find_leaf_path_loop c 0 key path page_id = py_raise Diverges"
| "find_leaf_path_loop c (Suc k) key path page_id =
     py_bind (fetch_page page_id) (\<lambda>data.
     py_bind (read_buf data node_type) (\<lambda>t.
     if t = PT_BTREE_LEAF then py_seq (unpin_page page_id False) (py_return path)
     else
       py_bind (read_buf data (read_internal c)) (\<lambda>(children, keys).
       py_seq (unpin_page page_id False)
      (py_bind (py_lift (py_bisect_right keys key)) (\<lambda>idx.
       find_leaf_path_loop c k key (path @ [children ! idx]) (children ! idx))))))"

definition find_leaf_path :: "pyval \<Rightarrow> (btree, nat list) py" where
  "find_leaf_path key =
     py_bind (py_gets id) (\<lambda>t.
     on_tree (find_leaf_path_loop (bt_conf t) (pool_count (bt_pool t) + 1) key [bt_root t] (bt_root t)))"

definition bt_search :: "pyval \<Rightarrow> (btree, rid list) py" where
  "bt_search key =
     py_bind (py_gets bt_conf) (\<lambda>c.
     py_bind (find_leaf_path key) (\<lambda>path.
     let leaf_id = last path
     in py_bind (on_tree (fetch_page leaf_id)) (\<lambda>data.
        py_finally
          (py_bind (on_tree (read_buf data (read_leaf c))) (\<lambda>(keys, rids, _).
           py_bind (py_lift (py_bisect_left keys key)) (\<lambda>lo.
           py_bind (py_lift (py_bisect_right keys key)) (\<lambda>hi.
           py_return (py_slice lo hi rids)))))
          (on_tree (unpin_page leaf_id False)))))"

fun leftmost_leaf_loop :: "btconf \<Rightarrow> nat \<Rightarrow> nat \<Rightarrow> (pool, nat) py" where
  "leftmost_leaf_loop c 0 page_id = py_raise Diverges"
| "leftmost_leaf_loop c (Suc k) page_id =
     py_bind (fetch_page page_id) (\<lambda>data.
     py_bind (read_buf data node_type) (\<lambda>t.
     if t = PT_BTREE_LEAF then py_seq (unpin_page page_id False) (py_return page_id)
     else
       py_bind (read_buf data (read_internal c)) (\<lambda>(children, _).
       py_seq (unpin_page page_id False) (leftmost_leaf_loop c k (children ! 0)))))"

definition leftmost_leaf :: "(btree, nat) py" where
  "leftmost_leaf =
     py_bind (py_gets id) (\<lambda>t.
     on_tree (leftmost_leaf_loop (bt_conf t) (pool_count (bt_pool t) + 1) (bt_root t)))"

text \<open>
  The inner loop of \<^verbatim>\<open>range_scan\<close>: the pairs up to the upper bound, and whether the bound
  was passed. \<open>VNone\<close> is the bound \<^verbatim>\<open>None\<close>.
\<close>

fun scan_leaf :: "pyval \<Rightarrow> (pyval \<times> rid) list \<Rightarrow> ((pyval \<times> rid) list \<times> bool) res" where
  "scan_leaf hi [] = Inr ([], False)"
| "scan_leaf hi ((key, r) # es) =
     res_bind (if hi = VNone then Inr False else py_less hi key) (\<lambda>past.
       if past then Inr ([], True)
       else res_bind (scan_leaf hi es) (\<lambda>(out, stop). Inr ((key, r) # out, stop)))"

fun range_scan_loop :: "btconf \<Rightarrow> nat \<Rightarrow> pyval \<Rightarrow> pyval \<Rightarrow> nat \<Rightarrow> (pool, (pyval \<times> rid) list) py" where
  "range_scan_loop c 0 lo hi leaf_id = py_raise Diverges"
| "range_scan_loop c (Suc k) lo hi leaf_id =
     (if leaf_id = INVALID_PAGE_ID then py_return []
      else
        py_bind (fetch_page leaf_id) (\<lambda>data.
        py_bind (read_buf data (read_leaf c)) (\<lambda>(keys, rids, next_leaf).
        py_seq (unpin_page leaf_id False)
       (py_bind (py_lift (if lo = VNone then Inr 0 else py_bisect_left keys lo)) (\<lambda>i.
        py_bind (py_lift (scan_leaf hi (drop i (zip keys rids)))) (\<lambda>(out, stop).
        if stop then py_return out
        else py_bind (range_scan_loop c k lo hi next_leaf) (\<lambda>rest. py_return (out @ rest))))))))"

definition range_scan :: "pyval \<Rightarrow> pyval \<Rightarrow> (btree, (pyval \<times> rid) list) py" where
  "range_scan lo hi =
     py_bind (py_gets id) (\<lambda>t.
     py_bind (if lo = VNone then leftmost_leaf else py_bind (find_leaf_path lo) (\<lambda>path. py_return (last path)))
       (\<lambda>leaf_id. on_tree (range_scan_loop (bt_conf t) (pool_count (bt_pool t) + 1) lo hi leaf_id)))"

definition bt_iter :: "(btree, (pyval \<times> rid) list) py" where
  "bt_iter = range_scan VNone VNone"

fun height_loop :: "btconf \<Rightarrow> nat \<Rightarrow> nat \<Rightarrow> nat \<Rightarrow> (pool, nat) py" where
  "height_loop c 0 h page_id = py_raise Diverges"
| "height_loop c (Suc k) h page_id =
     py_bind (fetch_page page_id) (\<lambda>data.
     py_bind (read_buf data node_type) (\<lambda>t.
     if t = PT_BTREE_LEAF then py_seq (unpin_page page_id False) (py_return h)
     else
       py_bind (read_buf data (read_internal c)) (\<lambda>(children, _).
       py_seq (unpin_page page_id False) (height_loop c k (h + 1) (children ! 0)))))"

definition bt_height :: "(btree, nat) py" where
  "bt_height =
     py_bind (py_gets id) (\<lambda>t.
     on_tree (height_loop (bt_conf t) (pool_count (bt_pool t) + 1) 1 (bt_root t)))"

section \<open>Insertion\<close>

definition insert_at :: "nat \<Rightarrow> 'a \<Rightarrow> 'a list \<Rightarrow> 'a list" where
  "insert_at i x xs = take i xs @ x # drop i xs"

definition delete_at :: "nat \<Rightarrow> 'a list \<Rightarrow> 'a list" where
  "delete_at i xs = take i xs @ drop (Suc i) xs"

text \<open>How many values at the front equal \<open>x\<close>: the loops over a run of duplicates.\<close>

fun run_length :: "pyval \<Rightarrow> pyval list \<Rightarrow> nat" where
  "run_length x [] = 0"
| "run_length x (y # ys) = (if py_eq y x then Suc (run_length x ys) else 0)"

definition split_point :: "pyval list \<Rightarrow> nat res" where
  "split_point keys =
     (let n = length keys; mid = n div 2
      in if n = 0 then Inl IndexError
         else let prev = keys ! (if mid = 0 then n - 1 else mid - 1)
              in if \<not> py_eq (keys ! mid) prev then Inr mid
                 else let i = mid + run_length prev (drop mid keys)
                      in if i < n then Inr i
                         else let j = (mid - 1) - run_length prev (rev (take (mid - 1) keys))
                              in if 0 < j then Inr j else Inl ValueError)"

definition list_index :: "'a \<Rightarrow> 'a list \<Rightarrow> nat res" where
  "list_index x xs = (case find (\<lambda>i. xs ! i = x) [0..<length xs] of None \<Rightarrow> Inl ValueError | Some i \<Rightarrow> Inr i)"

function insert_into_parent :: "btconf \<Rightarrow> nat list \<Rightarrow> nat \<Rightarrow> pyval \<Rightarrow> nat \<Rightarrow> (btree, unit) py" where
  "insert_into_parent c ancestors left_child sep right_child =
     (if ancestors = [] then
        py_bind (on_tree new_page) (\<lambda>new_root_id.
        py_seq (on_tree (write_buf new_root_id (write_internal c [left_child, right_child] [sep])))
       (py_seq (on_tree (unpin_page new_root_id True))
               (py_modify (\<lambda>t. t\<lparr>bt_root := new_root_id\<rparr>))))
      else
        let parent_id = last ancestors
        in py_bind (on_tree (fetch_page parent_id)) (\<lambda>data.
           py_bind (on_tree (read_buf data (read_internal c))) (\<lambda>(children0, keys0).
           py_bind (py_lift (list_index left_child children0)) (\<lambda>idx.
           let children = insert_at (idx + 1) right_child children0; keys = insert_at idx sep keys0
           in if length keys \<le> bc_max_internal_keys c then
                py_seq (on_tree (write_buf data (write_internal c children keys)))
                       (on_tree (unpin_page parent_id True))
              else
                let mid = length keys div 2
                in py_bind (on_tree new_page) (\<lambda>new_id.
                   py_seq (on_tree (write_buf new_id (write_internal c (drop (mid + 1) children) (drop (mid + 1) keys))))
                  (py_seq (on_tree (unpin_page new_id True))
                  (py_seq (on_tree (write_buf data (write_internal c (take (mid + 1) children) (take mid keys))))
                  (py_seq (on_tree (unpin_page parent_id True))
                          (insert_into_parent c (butlast ancestors) parent_id (keys ! mid) new_id)))))))))"
  by pat_completeness auto
termination
  by (relation "measure (\<lambda>(c, ancestors, left, sep, right). length ancestors)") (auto simp: neq_Nil_conv)

declare insert_into_parent.simps [simp del]

text \<open>The overflow branch of \<^verbatim>\<open>insert\<close>: the pinned leaf is split in two.\<close>

definition split_leaf :: "btconf \<Rightarrow> nat list \<Rightarrow> nat \<Rightarrow> pyval list \<Rightarrow> rid list \<Rightarrow> nat \<Rightarrow> (btree, unit) py" where
  "split_leaf c path data keys rids next_leaf =
     py_bind (py_lift (split_point keys)) (\<lambda>mid.
     py_bind (on_tree new_page) (\<lambda>new_leaf_id.
     py_seq (on_tree (write_buf new_leaf_id (write_leaf c (drop mid keys) (drop mid rids) next_leaf)))
    (py_seq (on_tree (unpin_page new_leaf_id True))
    (py_seq (on_tree (write_buf data (write_leaf c (take mid keys) (take mid rids) new_leaf_id)))
    (py_seq (on_tree (unpin_page (last path) True))
            (insert_into_parent c (butlast path) (last path) (keys ! mid) new_leaf_id))))))"

text \<open>The part of \<^verbatim>\<open>insert\<close> behind the check for a duplicate, from the leaf on and from the root on.\<close>

definition insert_in_leaf :: "btconf \<Rightarrow> pyval \<Rightarrow> rid \<Rightarrow> nat list \<Rightarrow> (btree, unit) py" where
  "insert_in_leaf c key rid path =
     (let leaf_id = last path
      in py_bind (on_tree (fetch_page leaf_id)) (\<lambda>data.
         py_bind (on_tree (read_buf data (read_leaf c))) (\<lambda>(keys0, rids0, next_leaf).
         py_bind (py_lift (py_bisect_right keys0 key)) (\<lambda>pos.
         let keys = insert_at pos key keys0; rids = insert_at pos rid rids0
         in if length keys \<le> bc_max_leaf_keys c then
              py_seq (on_tree (write_buf data (write_leaf c keys rids next_leaf)))
                     (on_tree (unpin_page leaf_id True))
            else split_leaf c path data keys rids next_leaf))))"

definition bt_insert :: "pyval \<Rightarrow> rid \<Rightarrow> (btree, unit) py" where
  "bt_insert key rid =
     py_bind (py_gets bt_conf) (\<lambda>c.
     py_bind (if bc_unique c then py_bind (bt_search key) (\<lambda>found. py_return (found \<noteq> [])) else py_return False) (\<lambda>dup.
     if dup then py_raise DuplicateKeyError
     else py_bind (find_leaf_path key) (insert_in_leaf c key rid)))"

section \<open>Deletion\<close>

text \<open>
  \<^verbatim>\<open>fetch_page(None)\<close>, which the code would call for a node without siblings: the pool takes
  a frame, and the disk manager raises on the comparison. The invariant of the tree rules it out.
\<close>

definition fetch_none :: "(pool, 'a) py" where
  "fetch_none = py_bind evict_one (\<lambda>_. py_raise TypeError)"

definition commit_internal :: "btconf \<Rightarrow> nat \<Rightarrow> nat list \<Rightarrow> pyval list \<Rightarrow> (pool, unit) py" where
  "commit_internal c page_id children keys =
     py_bind (fetch_page page_id) (\<lambda>data.
     py_seq (write_buf data (write_internal c children keys)) (unpin_page page_id True))"

definition read_node :: "nat \<Rightarrow> (bytes \<Rightarrow> 'a res) \<Rightarrow> (pool, 'a) py" where
  "read_node p f = py_bind (fetch_page p) (\<lambda>data. py_bind (read_buf data f) (\<lambda>x.
     py_seq (unpin_page p False) (py_return x)))"

definition write_node :: "nat \<Rightarrow> (bytes, unit) py \<Rightarrow> (pool, unit) py" where
  "write_node p m = py_bind (fetch_page p) (\<lambda>data. py_seq (write_buf data m) (unpin_page p True))"

definition leading_run :: "pyval list \<Rightarrow> nat" where
  "leading_run ks = (case ks of [] \<Rightarrow> 1 | x # xs \<Rightarrow> 1 + run_length x xs)"

text \<open>
  \<^verbatim>\<open>_fixup_leaf\<close> tries to borrow from the right sibling, then from the left one, and else
  merges with a sibling or redistributes the entries of both.
\<close>

definition borrow_right_leaf ::
  "btconf \<Rightarrow> nat \<Rightarrow> nat list \<Rightarrow> pyval list \<Rightarrow> nat \<Rightarrow> pyval list \<Rightarrow> rid list \<Rightarrow> nat \<Rightarrow> (pool, bool) py" where
  "borrow_right_leaf c parent_id p_children p_keys idx keys rids next_leaf =
     (let node_id = p_children ! idx; right_id = p_children ! (idx + 1)
      in py_bind (fetch_page right_id) (\<lambda>r_data.
         py_bind (read_buf r_data (read_leaf c)) (\<lambda>(r_keys, r_rids, r_next).
         let k = leading_run r_keys
         in if k < length r_keys \<and> length r_keys - k \<ge> bc_min_leaf_keys c \<and> length keys + k \<le> bc_max_leaf_keys c
            then
              py_seq (write_buf r_data (write_leaf c (drop k r_keys) (drop k r_rids) r_next))
             (py_seq (unpin_page right_id True)
             (py_seq (write_node node_id (write_leaf c (keys @ take k r_keys) (rids @ take k r_rids) next_leaf))
             (py_seq (commit_internal c parent_id p_children (p_keys[idx := r_keys ! k]))
                     (py_return True))))
            else py_seq (unpin_page right_id False) (py_return False))))"

definition borrow_left_leaf ::
  "btconf \<Rightarrow> nat \<Rightarrow> nat list \<Rightarrow> pyval list \<Rightarrow> nat \<Rightarrow> pyval list \<Rightarrow> rid list \<Rightarrow> nat \<Rightarrow> (pool, bool) py" where
  "borrow_left_leaf c parent_id p_children p_keys idx keys rids next_leaf =
     (let node_id = p_children ! idx; left_id = p_children ! (idx - 1)
      in py_bind (fetch_page left_id) (\<lambda>l_data.
         py_bind (read_buf l_data (read_leaf c)) (\<lambda>(l_keys, l_rids, l_next).
         let k = leading_run (rev l_keys); m = length l_keys - k
         in if k < length l_keys \<and> m \<ge> bc_min_leaf_keys c \<and> length keys + k \<le> bc_max_leaf_keys c
            then
              py_seq (write_buf l_data (write_leaf c (take m l_keys) (take m l_rids) l_next))
             (py_seq (unpin_page left_id True)
             (py_seq (write_node node_id (write_leaf c (drop m l_keys @ keys) (drop m l_rids @ rids) next_leaf))
             (py_seq (commit_internal c parent_id p_children (p_keys[idx - 1 := l_keys ! m]))
                     (py_return True))))
            else py_seq (unpin_page left_id False) (py_return False))))"

definition combine_right_leaf ::
  "btconf \<Rightarrow> nat \<Rightarrow> nat list \<Rightarrow> pyval list \<Rightarrow> nat \<Rightarrow> pyval list \<Rightarrow> rid list \<Rightarrow> (pool, unit) py" where
  "combine_right_leaf c parent_id p_children p_keys idx keys rids =
     (let node_id = p_children ! idx; right_id = p_children ! (idx + 1)
      in py_bind (read_node right_id (read_leaf c)) (\<lambda>(r_keys, r_rids, r_next).
         let ckeys = keys @ r_keys; crids = rids @ r_rids
         in if length ckeys \<le> bc_max_leaf_keys c then
              py_seq (write_node node_id (write_leaf c ckeys crids r_next))
                     (commit_internal c parent_id (delete_at (idx + 1) p_children) (delete_at idx p_keys))
            else
              py_bind (py_lift (split_point ckeys)) (\<lambda>s.
              py_seq (write_node node_id (write_leaf c (take s ckeys) (take s crids) right_id))
             (py_seq (write_node right_id (write_leaf c (drop s ckeys) (drop s crids) r_next))
                     (commit_internal c parent_id p_children (p_keys[idx := ckeys ! s]))))))"

definition combine_left_leaf ::
  "btconf \<Rightarrow> nat \<Rightarrow> nat list \<Rightarrow> pyval list \<Rightarrow> nat \<Rightarrow> pyval list \<Rightarrow> rid list \<Rightarrow> nat \<Rightarrow> (pool, unit) py" where
  "combine_left_leaf c parent_id p_children p_keys idx keys rids next_leaf =
     (if idx = 0 then fetch_none
      else let node_id = p_children ! idx; left_id = p_children ! (idx - 1)
      in py_bind (read_node left_id (read_leaf c)) (\<lambda>(l_keys, l_rids, l_next).
         let ckeys = l_keys @ keys; crids = l_rids @ rids
         in if length ckeys \<le> bc_max_leaf_keys c then
              py_seq (write_node left_id (write_leaf c ckeys crids next_leaf))
                     (commit_internal c parent_id (delete_at idx p_children) (delete_at (idx - 1) p_keys))
            else
              py_bind (py_lift (split_point ckeys)) (\<lambda>s.
              py_seq (write_node left_id (write_leaf c (take s ckeys) (take s crids) node_id))
             (py_seq (write_node node_id (write_leaf c (drop s ckeys) (drop s crids) next_leaf))
                     (commit_internal c parent_id p_children (p_keys[idx - 1 := ckeys ! s]))))))"

definition fixup_leaf :: "btconf \<Rightarrow> nat \<Rightarrow> nat list \<Rightarrow> pyval list \<Rightarrow> nat \<Rightarrow> (pool, unit) py" where
  "fixup_leaf c parent_id p_children p_keys idx =
     py_bind (read_node (p_children ! idx) (read_leaf c)) (\<lambda>(keys, rids, next_leaf).
     let has_right = idx + 1 < length p_children; has_left = 0 < idx
     in py_bind (if has_right then borrow_right_leaf c parent_id p_children p_keys idx keys rids next_leaf
                 else py_return False) (\<lambda>done_right.
        if done_right then py_return ()
        else
          py_bind (if has_left then borrow_left_leaf c parent_id p_children p_keys idx keys rids next_leaf
                   else py_return False) (\<lambda>done_left.
          if done_left then py_return ()
          else if has_right then combine_right_leaf c parent_id p_children p_keys idx keys rids
          else combine_left_leaf c parent_id p_children p_keys idx keys rids next_leaf)))"

text \<open>\<^verbatim>\<open>_fixup_internal\<close>: rotate one child through the parent, or merge with a sibling.\<close>

definition borrow_right_internal ::
  "btconf \<Rightarrow> nat \<Rightarrow> nat list \<Rightarrow> pyval list \<Rightarrow> nat \<Rightarrow> nat list \<Rightarrow> pyval list \<Rightarrow> (pool, bool) py" where
  "borrow_right_internal c parent_id p_children p_keys idx children keys =
     (let node_id = p_children ! idx; right_id = p_children ! (idx + 1)
      in py_bind (fetch_page right_id) (\<lambda>r_data.
         py_bind (read_buf r_data (read_internal c)) (\<lambda>(r_children, r_keys).
         if length r_keys > bc_min_internal_keys c then
           py_seq (write_buf r_data (write_internal c (tl r_children) (tl r_keys)))
          (py_seq (unpin_page right_id True)
          (py_seq (write_node node_id (write_internal c (children @ [hd r_children]) (keys @ [p_keys ! idx])))
          (py_seq (commit_internal c parent_id p_children (p_keys[idx := hd r_keys]))
                  (py_return True))))
         else py_seq (unpin_page right_id False) (py_return False))))"

definition borrow_left_internal ::
  "btconf \<Rightarrow> nat \<Rightarrow> nat list \<Rightarrow> pyval list \<Rightarrow> nat \<Rightarrow> nat list \<Rightarrow> pyval list \<Rightarrow> (pool, bool) py" where
  "borrow_left_internal c parent_id p_children p_keys idx children keys =
     (let node_id = p_children ! idx; left_id = p_children ! (idx - 1)
      in py_bind (fetch_page left_id) (\<lambda>l_data.
         py_bind (read_buf l_data (read_internal c)) (\<lambda>(l_children, l_keys).
         if length l_keys > bc_min_internal_keys c then
           py_seq (write_buf l_data (write_internal c (butlast l_children) (butlast l_keys)))
          (py_seq (unpin_page left_id True)
          (py_seq (write_node node_id (write_internal c (last l_children # children) (p_keys ! (idx - 1) # keys)))
          (py_seq (commit_internal c parent_id p_children (p_keys[idx - 1 := last l_keys]))
                  (py_return True))))
         else py_seq (unpin_page left_id False) (py_return False))))"

definition merge_right_internal ::
  "btconf \<Rightarrow> nat \<Rightarrow> nat list \<Rightarrow> pyval list \<Rightarrow> nat \<Rightarrow> nat list \<Rightarrow> pyval list \<Rightarrow> (pool, unit) py" where
  "merge_right_internal c parent_id p_children p_keys idx children keys =
     (let node_id = p_children ! idx; right_id = p_children ! (idx + 1)
      in py_bind (read_node right_id (read_internal c)) (\<lambda>(r_children, r_keys).
         py_seq (write_node node_id (write_internal c (children @ r_children) (keys @ [p_keys ! idx] @ r_keys)))
                (commit_internal c parent_id (delete_at (idx + 1) p_children) (delete_at idx p_keys))))"

definition merge_left_internal ::
  "btconf \<Rightarrow> nat \<Rightarrow> nat list \<Rightarrow> pyval list \<Rightarrow> nat \<Rightarrow> nat list \<Rightarrow> pyval list \<Rightarrow> (pool, unit) py" where
  "merge_left_internal c parent_id p_children p_keys idx children keys =
     (if idx = 0 then fetch_none
      else let left_id = p_children ! (idx - 1)
      in py_bind (read_node left_id (read_internal c)) (\<lambda>(l_children, l_keys).
         py_seq (write_node left_id (write_internal c (l_children @ children) (l_keys @ [p_keys ! (idx - 1)] @ keys)))
                (commit_internal c parent_id (delete_at idx p_children) (delete_at (idx - 1) p_keys))))"

definition fixup_internal :: "btconf \<Rightarrow> nat \<Rightarrow> nat list \<Rightarrow> pyval list \<Rightarrow> nat \<Rightarrow> (pool, unit) py" where
  "fixup_internal c parent_id p_children p_keys idx =
     py_bind (read_node (p_children ! idx) (read_internal c)) (\<lambda>(children, keys).
     let has_right = idx + 1 < length p_children; has_left = 0 < idx
     in py_bind (if has_right then borrow_right_internal c parent_id p_children p_keys idx children keys
                 else py_return False) (\<lambda>done_right.
        if done_right then py_return ()
        else
          py_bind (if has_left then borrow_left_internal c parent_id p_children p_keys idx children keys
                   else py_return False) (\<lambda>done_left.
          if done_left then py_return ()
          else if has_right then merge_right_internal c parent_id p_children p_keys idx children keys
          else merge_left_internal c parent_id p_children p_keys idx children keys)))"

definition maybe_shrink_root :: "(btree, unit) py" where
  "maybe_shrink_root =
     py_bind (py_gets bt_root) (\<lambda>root.
     py_bind (py_gets bt_conf) (\<lambda>c.
     py_bind (on_tree (fetch_page root)) (\<lambda>data.
     py_bind (on_tree (read_buf data node_type)) (\<lambda>t.
     if t = PT_BTREE_INTERNAL then
       py_bind (on_tree (read_buf data (read_internal c))) (\<lambda>(children, keys).
       py_seq (on_tree (unpin_page root False))
              (if length keys = 0 then py_modify (\<lambda>t. t\<lparr>bt_root := children ! 0\<rparr>) else py_return ()))
     else on_tree (unpin_page root False)))))"

text \<open>
  The loop of \<^verbatim>\<open>_fixup_after_delete\<close> at a level of the path, down to level one, and what follows
  it. The number of keys of a node is that of the layout its type byte names.
\<close>

definition count_keys :: "btconf \<Rightarrow> bytes \<Rightarrow> (bool \<times> nat) res" where
  "count_keys c d =
     res_bind (node_type d) (\<lambda>t.
     if t = PT_BTREE_LEAF then res_bind (read_leaf c d) (\<lambda>(keys, _, _). Inr (True, length keys))
     else res_bind (read_internal c d) (\<lambda>(_, keys). Inr (False, length keys)))"

fun fixup_levels :: "btconf \<Rightarrow> nat list \<Rightarrow> nat \<Rightarrow> (btree, unit) py" where
  "fixup_levels c path 0 = maybe_shrink_root"
| "fixup_levels c path (Suc l) =
     (let node_id = path ! Suc l; parent_id = path ! l
      in py_bind (on_tree (read_node node_id (count_keys c))) (\<lambda>(is_leaf, count).
         if count \<ge> (if is_leaf then bc_min_leaf_keys c else bc_min_internal_keys c) then py_return ()
         else
           py_bind (on_tree (fetch_page parent_id)) (\<lambda>parent_data.
           py_bind (on_tree (read_buf parent_data (read_internal c))) (\<lambda>(p_children, p_keys).
           py_bind (py_lift (list_index node_id p_children)) (\<lambda>idx.
           py_seq (on_tree (unpin_page parent_id False))
          (py_seq (on_tree (if is_leaf then fixup_leaf c parent_id p_children p_keys idx
                            else fixup_internal c parent_id p_children p_keys idx))
                  (fixup_levels c path l)))))))"

definition fixup_after_delete :: "btconf \<Rightarrow> nat list \<Rightarrow> (btree, unit) py" where
  "fixup_after_delete c path = fixup_levels c path (length path - 1)"

definition find_target :: "rid list \<Rightarrow> rid \<Rightarrow> nat \<Rightarrow> nat \<Rightarrow> nat option" where
  "find_target rids rid lo hi = find (\<lambda>i. rids ! i = rid) [lo..<hi]"

definition bt_delete :: "pyval \<Rightarrow> rid \<Rightarrow> (btree, bool) py" where
  "bt_delete key rid =
     py_bind (py_gets bt_conf) (\<lambda>c.
     py_bind (find_leaf_path key) (\<lambda>path.
     let leaf_id = last path
     in py_bind (on_tree (fetch_page leaf_id)) (\<lambda>data.
        py_bind (on_tree (read_buf data (read_leaf c))) (\<lambda>(keys, rids, next_leaf).
        py_bind (py_lift (py_bisect_left keys key)) (\<lambda>lo.
        py_bind (py_lift (py_bisect_right keys key)) (\<lambda>hi.
        case find_target rids rid lo hi of
          None \<Rightarrow> py_seq (on_tree (unpin_page leaf_id False)) (py_return False)
        | Some i \<Rightarrow>
            py_seq (on_tree (write_buf data (write_leaf c (delete_at i keys) (delete_at i rids) next_leaf)))
           (py_seq (on_tree (unpin_page leaf_id True))
           (py_seq (fixup_after_delete c path) (py_return True)))))))))"

end
