(* ===== verification/BTree_Tree.thy ===== *)
theory BTree_Tree
  imports BTree "HOL-Library.Multiset"
begin

text \<open>
  The tree that the pages of an index form, and its invariant.

  \<open>tree\<close> is a B+-tree as a datatype, every node with its page number. \<open>items\<close> is its
  in-order sequence of entries and separators; the order of the keys, with the strict
  inequality to the left of a separator, is one condition on that sequence (\<open>before\<close>), which
  splits and merges of internal nodes do not change at all. \<open>images\<close> lists what every page must
  hold. A position in a tree is a subtree and its context (\<open>plug\<close>), innermost parent first,
  which is how the code walks back up its path. \<open>at_view\<close> restates the contract of the
  buffer pool for code that reads and writes whole nodes.
\<close>

section \<open>Nodes in pages\<close>

type_synonym entry = "pyval \<times> rid"

datatype node = LeafNode "entry list" nat | InnerNode "nat list" "pyval list"

fun node_holds :: "btconf \<Rightarrow> bytes \<Rightarrow> node \<Rightarrow> bool" where
  "node_holds c d (LeafNode es nx) \<longleftrightarrow>
     node_type d = Inr PT_BTREE_LEAF \<and> read_leaf c d = Inr (map fst es, map snd es, nx)"
| "node_holds c d (InnerNode ch ks) \<longleftrightarrow>
     node_type d = Inr PT_BTREE_INTERNAL \<and> read_internal c d = Inr (ch, ks)"

fun node_fits :: "btconf \<Rightarrow> node \<Rightarrow> bool" where
  "node_fits c (LeafNode es nx) = leaf_fits c es nx"
| "node_fits c (InnerNode ch ks) = internal_fits c ch ks"

fun node_code :: "btconf \<Rightarrow> node \<Rightarrow> (bytes, unit) py" where
  "node_code c (LeafNode es nx) = write_leaf c (map fst es) (map snd es) nx"
| "node_code c (InnerNode ch ks) = write_internal c ch ks"

text \<open>Writing a node that fits succeeds on every page, and the page then holds the node.\<close>

lemma node_written:
  assumes "conf_ok c" and "node_fits c n" and "length d = PAGE_SIZE"
  obtains d' where "node_code c n d = (Inr (), d')" "length d' = PAGE_SIZE" "node_holds c d' n"
proof (cases n)
  case (LeafNode es nx)
  then have fit: "leaf_fits c es nx" using assms(2) by simp
  note W = write_leaf_eq [OF assms(1) fit assms(3)] and R = read_leaf_image [OF assms(1) fit, of d]
  show ?thesis by (rule that [of "overwrite 0 (leaf_image c es nx) d"]) (use W R assms(3) LeafNode in simp_all)
next
  case (InnerNode ch ks)
  then have fit: "internal_fits c ch ks" using assms(2) by simp
  note W = write_internal_eq [OF assms(1) fit assms(3)] and R = read_internal_image [OF assms(1) fit, of d]
  show ?thesis by (rule that [of "overwrite 0 (internal_image c ch ks) d"]) (use W R assms(3) InnerNode in simp_all)
qed

section \<open>The buffer pool as an array of nodes\<close>

lemma wp_lift_Inr: "wp (py_lift (Inr x)) Q E = Q x"
  by (rule ext) (simp add: wp_lift)

definition at_view :: "nat set \<Rightarrow> view \<Rightarrow> pool \<Rightarrow> bool" where
  "at_view S V b \<longleftrightarrow> pool_inv b \<and> pool_stale b \<subseteq> S \<and> pool_view b = V"

lemma at_viewD:
  assumes "at_view S V b"
  shows "pool_inv b" and "pool_stale b \<subseteq> S" and "pool_view b = V"
    and "pool_count b = v_count V" and "pool_page b = v_page V" and "pool_pins b = v_pins V"
  using assms pool_view_eqD [of b V] by (auto simp: at_view_def)

lemma wp_fetch_at:
  assumes "at_view S V b" and "p < v_count V" and "0 < v_avail V"
    and "\<And>b'. at_view S (view_pin p V) b' \<Longrightarrow> Q p b'"
  shows "wp (fetch_page p) Q E b"
  by (rule wp_fetch_page) (use at_viewD [OF assms(1)] assms(2-4) in \<open>auto simp: at_view_def\<close>)

lemma wp_read_at:
  assumes "at_view S V b" and "0 < v_pins V p" and "f (v_page V p) = Inr x" and "Q x b"
  shows "wp (read_buf p f) Q E b"
  unfolding read_buf_def wp_bind
  by (rule wp_buf_get) (use at_viewD [OF assms(1)] assms(2-4) in \<open>auto simp: wp_lift\<close>)

lemma wp_unpin_at:
  assumes "at_view S V b" and "0 < v_pins V p" and "dirty \<or> p \<notin> S"
    and "\<And>b'. at_view (if dirty then S - {p} else S) (view_unpin p V) b' \<Longrightarrow> Q () b'"
  shows "wp (unpin_page p dirty) Q E b"
proof (rule wp_unpin_page)
  note A = at_viewD [OF assms(1)]
  show "pool_inv b" "0 < pool_pins b p" "dirty \<or> p \<notin> pool_stale b \<or> 1 < pool_pins b p" using A assms(2,3) by auto
  fix b' assume "pool_inv b'" "pool_view b' = view_unpin p (pool_view b)" "pool_stale b' = pool_stale b - (if dirty then {p} else {})"
  then have "at_view (if dirty then S - {p} else S) (view_unpin p V) b'" using A(2,3) by (auto simp: at_view_def)
  then show "Q () b'" by (rule assms(4))
qed

lemma wp_write_at:
  assumes "at_view S V b" and "0 < v_pins V p" and "m (v_page V p) = (Inr x, d)" and "length d = PAGE_SIZE"
    and "\<And>b'. at_view (insert p S) (view_write p d V) b' \<Longrightarrow> Q x b'"
  shows "wp (write_buf p m) Q E b"
proof -
  note A = at_viewD [OF assms(1)]
  have "wp (buf_set p d) (\<lambda>_. Q x) E b"
  proof (rule wp_buf_set)
    fix b' assume "pool_inv b'" "pool_view b' = view_write p d (pool_view b)" "pool_stale b' \<subseteq> insert p (pool_stale b)"
    then have "at_view (insert p S) (view_write p d V) b'" using A(2,3) by (auto simp: at_view_def)
    then show "Q x b'" by (rule assms(5))
  qed (use A assms(2,4) in simp_all)
  then show ?thesis unfolding write_buf_def wp_bind
    by (intro wp_buf_get) (use A assms(2,3) in \<open>auto simp: wp_seq wp_lift_Inr\<close>)
qed

lemma page_length_at: "at_view S V b \<Longrightarrow> p < v_count V \<Longrightarrow> length (v_page V p) = PAGE_SIZE"
  using pool_page_length [of b p] at_viewD [of S V b] by simp

text \<open>Fetch, read, release: nothing changes.\<close>

lemma wp_peek:
  assumes "at_view {} V b" and "p < v_count V" and "0 < v_avail V" and "f (v_page V p) = Inr x"
    and "\<And>b'. at_view {} V b' \<Longrightarrow> Q x b'"
  shows "wp (read_node p f) Q E b"
  unfolding read_node_def wp_fun wp_return_fun
proof (rule wp_fetch_at [OF assms(1-3)])
  fix b1 assume b1: "at_view {} (view_pin p V) b1"
  have "wp (unpin_page p False) (\<lambda>_. Q x) E b1"
    by (rule wp_unpin_at [OF b1]) (use assms(3,5) in simp_all)
  then show "wp (read_buf p f) (\<lambda>x. wp (unpin_page p False) (\<lambda>_. Q x) E) E b1"
    by (intro wp_read_at [OF b1]) (simp_all add: assms(4))
qed

text \<open>Write a node into a pinned page and release it.\<close>

lemma wp_store:
  assumes "at_view S (view_pin p V) b" and "S \<subseteq> {p}" and "p < v_count V" and "0 < v_avail V"
    and "conf_ok c" and "node_fits c n"
    and "\<And>d b'. node_holds c d n \<Longrightarrow> at_view {} (view_write p d V) b' \<Longrightarrow> Q () b'"
  shows "wp (write_buf p (node_code c n)) (\<lambda>_. wp (unpin_page p True) Q E) E b"
proof -
  obtain d where d: "node_code c n (v_page V p) = (Inr (), d)" "length d = PAGE_SIZE" "node_holds c d n"
    using node_written [OF assms(5,6)] page_length_at [OF assms(1), of p] assms(3) by auto
  show ?thesis
  proof (rule wp_write_at [OF assms(1)])
    fix b1 assume b1: "at_view (insert p S) (view_write p d (view_pin p V)) b1"
    have S: "(if True then insert p S - {p} else insert p S) = {}" using assms(2) by auto
    have V: "view_unpin p (view_write p d (view_pin p V)) = view_write p d V" using assms(4) by (simp add: view_write_pin)
    show "wp (unpin_page p True) Q E b1"
      by (rule wp_unpin_at [OF b1, of p True, unfolded S V]) (use assms(7) [OF d(3)] in simp_all)
  qed (use d in simp_all)
qed

lemma wp_poke:
  assumes "at_view {} V b" and "p < v_count V" and "0 < v_avail V" and "conf_ok c" and "node_fits c n"
    and "\<And>d b'. node_holds c d n \<Longrightarrow> at_view {} (view_write p d V) b' \<Longrightarrow> Q () b'"
  shows "wp (write_node p (node_code c n)) Q E b"
  unfolding write_node_def wp_fun
  by (rule wp_fetch_at [OF assms(1-3)], rule wp_store) (use assms in auto)

definition view_grow :: "bytes \<Rightarrow> view \<Rightarrow> view" where
  "view_grow d V = V\<lparr>v_count := v_count V + 1, v_page := (v_page V)(v_count V := d)\<rparr>"

lemma view_grow_sel [simp]:
  "v_count (view_grow d V) = v_count V + 1" "v_page (view_grow d V) = (v_page V)(v_count V := d)"
  "v_pins (view_grow d V) = v_pins V" "v_avail (view_grow d V) = v_avail V"
  by (simp_all add: view_grow_def)

lemma view_grow_pin: "view_grow d (view_pin p V) = view_pin p (view_grow d V)"
  by (simp add: view_grow_def view_pin_def)

text \<open>A new page that receives a node and is released.\<close>

lemma wp_fresh:
  assumes "at_view {} V b" and "0 < v_avail V" and "conf_ok c" and "node_fits c n"
    and "\<And>d b'. node_holds c d n \<Longrightarrow> at_view {} (view_grow d V) b' \<Longrightarrow> Q (v_count V) () b'"
  shows "wp new_page (\<lambda>p. wp (write_buf p (node_code c n)) (\<lambda>_. wp (unpin_page p True) (Q p) E) E) E b"
proof (rule wp_new_page)
  note A = at_viewD [OF assms(1)]
  show "pool_inv b" "0 < v_avail (pool_view b)" using A assms(2) by simp_all
  let ?p = "pool_count b"
  fix b1 assume b1: "pool_inv b1" "pool_view b1 = view_new (pool_view b)" "pool_stale b1 = pool_stale b"
  then have b1': "at_view {} (view_new V) b1" using A by (simp add: at_view_def)
  obtain d where d: "node_code c n (replicate PAGE_SIZE 0) = (Inr (), d)" "length d = PAGE_SIZE" "node_holds c d n"
    using node_written [OF assms(3,4), of "replicate PAGE_SIZE 0"] by auto
  show "wp (write_buf ?p (node_code c n)) (\<lambda>_. wp (unpin_page ?p True) (Q ?p) E) E b1"
  proof (rule wp_write_at [OF b1'])
    fix b2 assume b2: "at_view (insert ?p {}) (view_write ?p d (view_new V)) b2"
    have "v_pins V ?p = 0" using pool_pins_beyond [OF A(1), of ?p] A(6) by simp
    then have "view_unpin ?p (view_write ?p d (view_new V)) = view_grow d V"
      using A(4) assms(2) by (simp add: view_unpin_def view_write_def view_new_def view_grow_def fun_upd_idem)
    then show "wp (unpin_page ?p True) (Q ?p) E b2"
      by (intro wp_unpin_at [OF b2]) (use A(4) assms(5) [OF d(3)] in simp_all)
  qed (use A(4) d in simp_all)
qed

lemma wp_on_tree [wp_rules]:
  "wp (on_tree m) Q E t = wp m (\<lambda>x b. Q x (t\<lparr>bt_pool := b\<rparr>)) (\<lambda>e b. E e (t\<lparr>bt_pool := b\<rparr>)) (bt_pool t)"
  by (simp add: on_tree_def wp_zoom)

lemma wp_on_tree_next:
  "wp (on_tree m) Q E (t\<lparr>bt_pool := b\<rparr>) = wp m (\<lambda>x b'. Q x (t\<lparr>bt_pool := b'\<rparr>)) (\<lambda>e b'. E e (t\<lparr>bt_pool := b'\<rparr>)) b"
  by (simp add: wp_on_tree)

section \<open>Trees\<close>

datatype tree = Leaf nat "entry list" nat | Node nat "tree list" "pyval list"

fun root_page :: "tree \<Rightarrow> nat" where
  "root_page (Leaf p es nx) = p"
| "root_page (Node p ts ks) = p"

text \<open>An item is an entry or, without a row identifier, a separator.\<close>

type_synonym item = "pyval \<times> rid option"

fun weave :: "item list list \<Rightarrow> pyval list \<Rightarrow> item list" where
  "weave (x # xs) (k # ks) = x @ (k, None) # weave xs ks"
| "weave (x # xs) [] = x"
| "weave [] ks = []"

definition entry_items :: "entry list \<Rightarrow> item list" where
  "entry_items es = map (\<lambda>(k, r). (k, Some r)) es"

fun items :: "tree \<Rightarrow> item list" where
  "items (Leaf p es nx) = entry_items es"
| "items (Node p ts ks) = weave (map items ts) ks"

fun leaves :: "tree \<Rightarrow> (nat \<times> entry list \<times> nat) list" where
  "leaves (Leaf p es nx) = [(p, es, nx)]"
| "leaves (Node p ts ks) = concat (map leaves ts)"

fun images :: "tree \<Rightarrow> (nat \<times> node) list" where
  "images (Leaf p es nx) = [(p, LeafNode es nx)]"
| "images (Node p ts ks) = (p, InnerNode (map root_page ts) ks) # concat (map images ts)"

abbreviation pages :: "tree \<Rightarrow> nat list" where
  "pages t \<equiv> map fst (images t)"

fun has_height :: "nat \<Rightarrow> tree \<Rightarrow> bool" where
  "has_height h (Leaf p es nx) = (h = 0)"
| "has_height h (Node p ts ks) = (case h of 0 \<Rightarrow> False | Suc h' \<Rightarrow> \<forall>t \<in> set ts. has_height h' t)"

text \<open>
  The order of the items: an entry to the left of a separator has a smaller key, since the
  search for a key that equals a separator goes right.
\<close>

definition before :: "item \<Rightarrow> item \<Rightarrow> bool" where
  "before x y \<longleftrightarrow> fst x \<le> fst y \<and> (snd x \<noteq> None \<and> snd y = None \<longrightarrow> fst x < fst y)"

text \<open>Every leaf points to the next one.\<close>

fun linked :: "(nat \<times> entry list \<times> nat) list \<Rightarrow> bool" where
  "linked [] = True"
| "linked [(p, es, nx)] = (nx = INVALID_PAGE_ID)"
| "linked ((p, es, nx) # (q, es', nx') # ls) = (nx = q \<and> linked ((q, es', nx') # ls))"

lemma has_height_Node: "has_height h (Node p ts ks) \<longleftrightarrow> (\<exists>h'. h = Suc h' \<and> (\<forall>t \<in> set ts. has_height h' t))"
  by (cases h) simp_all

definition entries :: "item list \<Rightarrow> entry list" where
  "entries xs = List.map_filter (\<lambda>(k, r). map_option (Pair k) r) xs"

text \<open>What the pages of the tree hold: \<open>pg\<close> are the contents of the \<open>n\<close> pages there are.\<close>

definition pages_ok :: "btconf \<Rightarrow> (nat \<Rightarrow> bytes) \<Rightarrow> nat \<Rightarrow> (nat \<times> node) list \<Rightarrow> bool" where
  "pages_ok c pg n xs \<longleftrightarrow> (\<forall>(p, x) \<in> set xs. node_fits c x \<and> node_holds c (pg p) x \<and> p < n) \<and> distinct (map fst xs)"

definition tree_inv :: "btconf \<Rightarrow> (nat \<Rightarrow> bytes) \<Rightarrow> nat \<Rightarrow> tree \<Rightarrow> bool" where
  "tree_inv c pg n t \<longleftrightarrow> pages_ok c pg n (images t) \<and> (\<exists>h. has_height h t)
     \<and> sorted_wrt before (items t) \<and> linked (leaves t)"

text \<open>
  Every internal node has a key. While a deletion goes up the tree, the node it has reached
  can be without one, so this is kept apart from \<open>tree_inv\<close>.
\<close>

fun node_keyed :: "node \<Rightarrow> bool" where
  "node_keyed (LeafNode es nx) = True"
| "node_keyed (InnerNode ch ks) = (ks \<noteq> [])"

definition keyed :: "(nat \<times> node) list \<Rightarrow> bool" where
  "keyed xs \<longleftrightarrow> (\<forall>x \<in> set xs. node_keyed (snd x))"

lemma keyed_simps [simp]:
  "keyed []" "keyed (x # xs) \<longleftrightarrow> node_keyed (snd x) \<and> keyed xs" "keyed (xs @ ys) \<longleftrightarrow> keyed xs \<and> keyed ys"
  "keyed (concat xss) \<longleftrightarrow> (\<forall>xs \<in> set xss. keyed xs)"
  by (auto simp: keyed_def)

lemma entries_simps [simp]:
  "entries [] = []" "entries ((k, None) # xs) = entries xs" "entries ((k, Some r) # xs) = (k, r) # entries xs"
  "entries (xs @ ys) = entries xs @ entries ys" "entries (entry_items es) = es"
  by (simp_all add: entries_def List.map_filter_def entry_items_def case_prod_unfold comp_def)

lemma entries_set: "(k, r) \<in> set (entries xs) \<longleftrightarrow> (k, Some r) \<in> set xs"
  by (induction xs) (auto simp: entries_def List.map_filter_def split: option.splits)

lemma images_head: "root_page t \<in> set (pages t)"
  by (cases t) simp_all

section \<open>Contexts\<close>

text \<open>
  The context of a subtree: for every ancestor, innermost first, its page, the siblings and
  keys to the left, and the keys and siblings to the right.
\<close>

type_synonym frame_ctx = "nat \<times> tree list \<times> pyval list \<times> pyval list \<times> tree list"

fun plug :: "tree \<Rightarrow> frame_ctx list \<Rightarrow> tree" where
  "plug t [] = t"
| "plug t ((p, ls, lk, rk, rs) # ctx) = plug (Node p (ls @ t # rs) (lk @ rk)) ctx"

fun ctx_shape :: "frame_ctx list \<Rightarrow> bool" where
  "ctx_shape [] = True"
| "ctx_shape ((p, ls, lk, rk, rs) # ctx) = (length ls = length lk \<and> length rs = length rk \<and> ctx_shape ctx)"

definition left_seg :: "item list list \<Rightarrow> pyval list \<Rightarrow> item list" where
  "left_seg xs ks = concat (map (\<lambda>(x, k). x @ [(k, None)]) (zip xs ks))"

definition right_seg :: "pyval list \<Rightarrow> item list list \<Rightarrow> item list" where
  "right_seg ks xs = concat (map (\<lambda>(k, x). (k, None) # x) (zip ks xs))"

fun left_items :: "frame_ctx list \<Rightarrow> item list" where
  "left_items [] = []"
| "left_items ((p, ls, lk, rk, rs) # ctx) = left_items ctx @ left_seg (map items ls) lk"

fun right_items :: "frame_ctx list \<Rightarrow> item list" where
  "right_items [] = []"
| "right_items ((p, ls, lk, rk, rs) # ctx) = right_seg rk (map items rs) @ right_items ctx"

fun left_leaves :: "frame_ctx list \<Rightarrow> (nat \<times> entry list \<times> nat) list" where
  "left_leaves [] = []"
| "left_leaves ((p, ls, lk, rk, rs) # ctx) = left_leaves ctx @ concat (map leaves ls)"

fun right_leaves :: "frame_ctx list \<Rightarrow> (nat \<times> entry list \<times> nat) list" where
  "right_leaves [] = []"
| "right_leaves ((p, ls, lk, rk, rs) # ctx) = concat (map leaves rs) @ right_leaves ctx"

text \<open>The pages of the context, when the root of the subtree is page \<open>q\<close>.\<close>

fun ctx_images :: "nat \<Rightarrow> frame_ctx list \<Rightarrow> (nat \<times> node) list" where
  "ctx_images q [] = []"
| "ctx_images q ((p, ls, lk, rk, rs) # ctx) =
     (p, InnerNode (map root_page ls @ q # map root_page rs) (lk @ rk))
     # concat (map images ls) @ concat (map images rs) @ ctx_images p ctx"

fun ctx_height :: "nat \<Rightarrow> frame_ctx list \<Rightarrow> bool" where
  "ctx_height h [] = True"
| "ctx_height h ((p, ls, lk, rk, rs) # ctx) =
     ((\<forall>t \<in> set ls \<union> set rs. has_height h t) \<and> ctx_height (Suc h) ctx)"

lemma weave_split:
  assumes "length ls = length lk" and "length rs = length rk"
  shows "weave (ls @ x # rs) (lk @ rk) = left_seg ls lk @ x @ right_seg rk rs"
  using assms(1)
proof (induction ls lk rule: list_induct2)
  case Nil
  show ?case using assms(2)
  proof (induction rs rk arbitrary: x rule: list_induct2)
    case Nil
    show ?case by (simp add: left_seg_def right_seg_def)
  next
    case (Cons y rs k rk)
    then show ?case by (simp add: left_seg_def right_seg_def)
  qed
qed (simp add: left_seg_def)

lemma items_plug: "ctx_shape ctx \<Longrightarrow> items (plug t ctx) = left_items ctx @ items t @ right_items ctx"
  by (induction t ctx rule: plug.induct) (simp_all add: weave_split)

lemma leaves_plug: "leaves (plug t ctx) = left_leaves ctx @ leaves t @ right_leaves ctx"
  by (induction t ctx rule: plug.induct) simp_all

lemma images_plug: "mset (images (plug t ctx)) = mset (images t @ ctx_images (root_page t) ctx)"
  by (induction t ctx rule: plug.induct) simp_all

lemma height_plug: "(\<exists>h. has_height h (plug t ctx)) \<longleftrightarrow> (\<exists>h. has_height h t \<and> ctx_height h ctx)"
  by (induction t ctx rule: plug.induct) (auto simp: has_height_Node simp del: has_height.simps(2))

lemma pages_ok_mset:
  assumes "mset xs = mset ys"
  shows "pages_ok c pg n xs \<longleftrightarrow> pages_ok c pg n ys"
proof -
  have "mset (map fst xs) = mset (map fst ys)" using assms by simp
  then have "distinct (map fst xs) \<longleftrightarrow> distinct (map fst ys)" by (rule mset_eq_imp_distinct_iff)
  with mset_eq_setD [OF assms] show ?thesis by (simp add: pages_ok_def)
qed

lemma keyed_plug: "keyed (images (plug t ctx)) \<longleftrightarrow> keyed (images t) \<and> keyed (ctx_images (root_page t) ctx)"
proof -
  have "set (images (plug t ctx)) = set (images t @ ctx_images (root_page t) ctx)" by (rule mset_eq_setD [OF images_plug])
  then show ?thesis by (auto simp: keyed_def)
qed

lemma keyed_ctx_images: "keyed (ctx_images q ctx) = keyed (ctx_images q' ctx)"
  by (cases ctx) auto

lemma tree_inv_plug:
  assumes "ctx_shape ctx"
  shows "tree_inv c pg n (plug t ctx) \<longleftrightarrow>
    pages_ok c pg n (images t @ ctx_images (root_page t) ctx) \<and> (\<exists>h. has_height h t \<and> ctx_height h ctx)
    \<and> sorted_wrt before (left_items ctx @ items t @ right_items ctx)
    \<and> linked (left_leaves ctx @ leaves t @ right_leaves ctx)"
  unfolding tree_inv_def height_plug leaves_plug items_plug [OF assms] pages_ok_mset [OF images_plug] ..

end
