(* ===== verification/BTree_Search.thy ===== *)
theory BTree_Search
  imports BTree_Tree
begin

text \<open>
  Search and range scan of the B+-tree. \<open>tree_holds t es\<close> says that the pages reachable from
  the root of the tree object form a well-formed tree with the entries \<open>es\<close>; the
  properties show that \<^verbatim>\<open>search\<close> and \<^verbatim>\<open>range_scan\<close> return exactly the entries asked for, that the
  fuel of the loops suffices, and that nothing changes.
\<close>

section \<open>The abstraction\<close>

definition tree_at :: "btree \<Rightarrow> tree \<Rightarrow> bool" where
  "tree_at t T \<longleftrightarrow> conf_ok (bt_conf t) \<and> at_view {} (pool_view (bt_pool t)) (bt_pool t)
     \<and> 2 \<le> v_avail (pool_view (bt_pool t)) \<and> pool_count (bt_pool t) \<le> INVALID_PAGE_ID
     \<and> bt_root t = root_page T \<and> tree_inv (bt_conf t) (pool_page (bt_pool t)) (pool_count (bt_pool t)) T
     \<and> keyed (images T)"

definition tree_holds :: "btree \<Rightarrow> entry list \<Rightarrow> bool" where
  "tree_holds t es \<longleftrightarrow> (\<exists>T. tree_at t T \<and> entries (items T) = es)"

lemma tree_invD:
  assumes "tree_inv c pg n T"
  shows "pages_ok c pg n (images T)" and "\<exists>h. has_height h T" and "sorted_wrt before (items T)" and "linked (leaves T)"
  using assms by (simp_all add: tree_inv_def)

lemma pages_okD:
  assumes "pages_ok c pg n xs" and "(p, x) \<in> set xs"
  shows "node_fits c x" and "node_holds c (pg p) x" and "p < n"
  using assms by (auto simp: pages_ok_def)

lemma tree_atD:
  assumes "tree_at t T"
  shows "conf_ok (bt_conf t)" and "at_view {} (pool_view (bt_pool t)) (bt_pool t)"
    and "2 \<le> v_avail (pool_view (bt_pool t))" and "pool_count (bt_pool t) \<le> INVALID_PAGE_ID"
    and "bt_root t = root_page T" and "tree_inv (bt_conf t) (pool_page (bt_pool t)) (pool_count (bt_pool t)) T"
    and "keyed (images T)"
  using assms by (simp_all add: tree_at_def)

text \<open>The abstraction depends on the pool only through what callers can observe.\<close>

lemma tree_at_same_view:
  assumes "tree_at t T" and "at_view {} (pool_view (bt_pool t)) b"
  shows "tree_at (t\<lparr>bt_pool := b\<rparr>) T"
  using assms at_viewD [OF assms(2)] by (simp add: tree_at_def pool_view_sel)

section \<open>Order\<close>

lemma before_entry_items: "sorted_wrt before (entry_items es) \<longleftrightarrow> sorted (map fst es)"
  by (simp add: entry_items_def sorted_wrt_map before_def case_prod_unfold)

lemma entries_sorted: "sorted_wrt before xs \<Longrightarrow> sorted (map fst (entries xs))"
proof (induction xs)
  case (Cons x xs)
  have "fst x \<le> k" if "(k, r) \<in> set (entries xs)" for k r
    using Cons.prems that by (auto simp: entries_set before_def)
  with Cons show ?case by (cases x; cases "snd x") auto
qed simp

text \<open>The context is that of the search for \<open>k\<close>.\<close>

fun ctx_key :: "pyval \<Rightarrow> frame_ctx list \<Rightarrow> bool" where
  "ctx_key k [] = True"
| "ctx_key k ((p, ls, lk, rk, rs) # ctx) = ((\<forall>x \<in> set lk. x \<le> k) \<and> (\<forall>x \<in> set rk. k < x) \<and> ctx_key k ctx)"

lemma left_seg_snoc: "length xs = length ks \<Longrightarrow> left_seg (xs @ [x]) (ks @ [k]) = left_seg xs ks @ x @ [(k, None)]"
  by (simp add: left_seg_def)

lemma left_items_le:
  assumes "sorted_wrt before (left_items ctx)" and "ctx_shape ctx" and "ctx_key k ctx" and "x \<in> set (left_items ctx)"
  shows "fst x \<le> k \<and> (snd x \<noteq> None \<longrightarrow> fst x < k)"
  using assms
proof (induction ctx)
  case (Cons f ctx)
  obtain p ls lk rk rs where f: "f = (p, ls, lk, rk, rs)" by (cases f)
  show ?case
  proof (cases "x \<in> set (left_items ctx)")
    case True
    with Cons f show ?thesis by (auto simp: sorted_wrt_append)
  next
    case False
    then have mem: "x \<in> set (left_seg (map items ls) lk)" using Cons.prems(4) by (simp add: f)
    have len: "length ls = length lk" using Cons.prems(2) by (simp add: f)
    have "lk \<noteq> []" using mem by (auto simp: left_seg_def)
    then obtain lk' y where lk: "lk = lk' @ [y]" by (cases lk rule: rev_cases) auto
    with len obtain ls' t where ls: "ls = ls' @ [t]" "length ls' = length lk'" by (cases ls rule: rev_cases) auto
    have seg: "left_seg (map items ls) lk = left_seg (map items ls') lk' @ items t @ [(y, None)]"
      using left_seg_snoc [of "map items ls'" lk' "items t" y] ls lk by simp
    have "before x (y, None) \<or> x = (y, None)"
      using Cons.prems(1) mem unfolding f left_items.simps seg by (auto simp: sorted_wrt_append)
    then show ?thesis using Cons.prems(3) by (auto simp: f lk before_def)
  qed
qed simp

lemma right_items_greater:
  assumes "sorted_wrt before (right_items ctx)" and "ctx_shape ctx" and "ctx_key k ctx" and "x \<in> set (right_items ctx)"
  shows "k < fst x"
  using assms
proof (induction ctx)
  case (Cons f ctx)
  obtain p ls lk rk rs where f: "f = (p, ls, lk, rk, rs)" by (cases f)
  show ?case
  proof (cases "x \<in> set (right_items ctx)")
    case True
    with Cons f show ?thesis by (auto simp: sorted_wrt_append)
  next
    case False
    then have mem: "x \<in> set (right_seg rk (map items rs))" using Cons.prems(4) by (simp add: f)
    then obtain y rk' t rs' where rk: "rk = y # rk'" "rs = t # rs'"
      by (cases rk; cases rs) (auto simp: right_seg_def)
    have seg: "right_seg rk (map items rs) = (y, None) # items t @ right_seg rk' (map items rs')"
      by (simp add: right_seg_def rk)
    have "before (y, None) x \<or> x = (y, None)"
      using Cons.prems(1) mem unfolding f right_items.simps seg by (auto simp: sorted_wrt_append)
    then show ?thesis using Cons.prems(3) by (auto simp: f rk before_def)
  qed
qed simp

text \<open>The entries of the tree around the leaf where the search ends.\<close>

lemma entries_around:
  assumes "tree_inv c pg n (plug t ctx)" and "ctx_shape ctx" and "ctx_key k ctx"
  shows "entries (items (plug t ctx)) = entries (left_items ctx) @ entries (items t) @ entries (right_items ctx)"
    and "\<forall>e \<in> set (entries (left_items ctx)). fst e < k" and "\<forall>e \<in> set (entries (right_items ctx)). k < fst e"
    and "sorted_wrt before (items t)"
proof -
  have s: "sorted_wrt before (left_items ctx @ items t @ right_items ctx)"
    using assms(1) tree_inv_plug [OF assms(2)] by blast
  then have "sorted_wrt before (left_items ctx)" "sorted_wrt before (right_items ctx)" "sorted_wrt before (items t)"
    by (simp_all add: sorted_wrt_append)
  then show "\<forall>e \<in> set (entries (left_items ctx)). fst e < k" "\<forall>e \<in> set (entries (right_items ctx)). k < fst e"
      "sorted_wrt before (items t)"
    using left_items_le [OF _ assms(2,3)] right_items_greater [OF _ assms(2,3)] by (fastforce simp: entries_set)+
  show "entries (items (plug t ctx)) = entries (left_items ctx) @ entries (items t) @ entries (right_items ctx)"
    by (simp add: items_plug [OF assms(2)])
qed

section \<open>Descending from the root\<close>

lemma child_images: "t \<in> set ts \<Longrightarrow> set (images t) \<subseteq> set (images (Node p ts ks))"
  by auto

lemma focus_page:
  assumes "tree_inv c pg n (plug t ctx)" and "(p, x) \<in> set (images t)"
  shows "node_fits c x" and "node_holds c (pg p) x" and "p < n"
  using pages_okD [OF tree_invD(1) [OF assms(1)], of p x] assms(2) mset_eq_setD [OF images_plug [of t ctx]] by auto

text \<open>The pages of a tree are different, so its height is less than the number of pages.\<close>

lemma height_images: "has_height h t \<Longrightarrow> \<forall>(p, x) \<in> set (images t). node_fits c x \<Longrightarrow> h < length (images t)"
proof (induction h arbitrary: t)
  case 0
  then show ?case by (cases t) simp_all
next
  case (Suc h)
  then obtain p ts ks where t: "t = Node p ts ks" by (cases t) auto
  from Suc.prems(2) have "length ts = Suc (length ks)" by (simp add: t internal_fits_def)
  then obtain t' ts' where ts: "ts = t' # ts'" by (cases ts) auto
  have "h < length (images t')" using Suc.IH [of t'] Suc.prems by (auto simp: t ts)
  then show ?case by (simp add: t ts)
qed

lemma height_less:
  assumes "tree_inv c pg n T" and "has_height h T"
  shows "h < n"
proof -
  note P = tree_invD(1) [OF assms(1)]
  have "h < length (pages T)" using height_images [OF assms(2), of c] pages_okD(1) [OF P] by fastforce
  also have "\<dots> = card (set (pages T))" using P distinct_card [of "pages T"] by (simp add: pages_ok_def)
  also have "\<dots> \<le> card {..<n}" using pages_okD(3) [OF P] by (intro card_mono) auto
  finally show ?thesis by simp
qed

lemma takeWhile_split:
  assumes "sorted ks"
  shows "\<forall>x \<in> set (take (length (takeWhile (\<lambda>y. y \<le> k) ks)) ks). x \<le> (k :: 'a :: linorder)"
    and "\<forall>x \<in> set (drop (length (takeWhile (\<lambda>y. y \<le> k) ks)) ks). k < x"
proof -
  let ?P = "\<lambda>y. y \<le> k"
  have "take (length (takeWhile ?P ks)) ks = takeWhile ?P ks" "drop (length (takeWhile ?P ks)) ks = dropWhile ?P ks"
    by (metis takeWhile_eq_take takeWhile_dropWhile_id append_eq_conv_conj)+
  moreover have "\<forall>x \<in> set (dropWhile ?P ks). k < x"
    using assms by (induction ks) auto
  ultimately show "\<forall>x \<in> set (take (length (takeWhile ?P ks)) ks). x \<le> k" "\<forall>x \<in> set (drop (length (takeWhile ?P ks)) ks). k < x"
    by (auto dest: set_takeWhileD)
qed

lemma weave_keys_set: "length xs = Suc (length ks) \<Longrightarrow> k \<in> set ks \<Longrightarrow> (k, None) \<in> set (weave xs ks)"
proof (induction xs ks rule: weave.induct)
  case (1 x xs k' ks)
  then show ?case by auto
qed simp_all

lemma weave_sorted:
  "length xs = Suc (length ks) \<Longrightarrow> sorted_wrt before (weave xs ks) \<Longrightarrow> sorted ks"
proof (induction xs ks rule: weave.induct)
  case (1 x xs k ks)
  have "k \<le> k'" if "k' \<in> set ks" for k'
    using weave_keys_set [of xs ks k'] 1 that by (auto simp: sorted_wrt_append before_def)
  with 1 show ?case by (simp add: sorted_wrt_append)
qed simp_all

lemma node_focus:
  assumes "tree_inv c pg n (plug (Node p ts ks) ctx)" and "ctx_shape ctx"
  shows "node_type (pg p) = Inr PT_BTREE_INTERNAL" and "read_internal c (pg p) = Inr (map root_page ts, ks)"
    and "p < n" and "length ts = Suc (length ks)" and "\<forall>k \<in> set ks. key_ok c k" and "sorted ks"
    and "length ks \<le> bc_max_internal_keys c"
proof -
  note F = focus_page [OF assms(1), of p "InnerNode (map root_page ts) ks"]
  show len: "length ts = Suc (length ks)" using F(1) by (simp add: internal_fits_def)
  show "node_type (pg p) = Inr PT_BTREE_INTERNAL" "read_internal c (pg p) = Inr (map root_page ts, ks)" "p < n"
    "\<forall>k \<in> set ks. key_ok c k" "length ks \<le> bc_max_internal_keys c"
    using F by (simp_all add: internal_fits_def)
  have "sorted_wrt before (left_items ctx @ items (Node p ts ks) @ right_items ctx)"
    using assms tree_inv_plug [OF assms(2)] by blast
  then show "sorted ks" by (intro weave_sorted [of "map items ts"]) (simp_all add: len sorted_wrt_append)
qed

lemma leaf_focus:
  assumes "tree_inv c pg n (plug (Leaf p es nx) ctx)" and "ctx_shape ctx"
  shows "node_type (pg p) = Inr PT_BTREE_LEAF" and "read_leaf c (pg p) = Inr (map fst es, map snd es, nx)"
    and "p < n" and "\<forall>k \<in> set (map fst es). key_ok c k" and "\<forall>e \<in> set es. rid_ok (snd e)" and "sorted (map fst es)"
    and "length es \<le> bc_max_leaf_keys c" and "nx < 2 ^ 32"
proof -
  note F = focus_page [OF assms(1), of p "LeafNode es nx"]
  show "node_type (pg p) = Inr PT_BTREE_LEAF" "read_leaf c (pg p) = Inr (map fst es, map snd es, nx)" "p < n"
    "\<forall>k \<in> set (map fst es). key_ok c k" "\<forall>e \<in> set es. rid_ok (snd e)" "length es \<le> bc_max_leaf_keys c" "nx < 2 ^ 32"
    using F by (simp_all add: leaf_fits_def)
  have "sorted_wrt before (left_items ctx @ items (Leaf p es nx) @ right_items ctx)"
    using assms tree_inv_plug [OF assms(2)] by blast
  then show "sorted (map fst es)" by (simp add: sorted_wrt_append before_entry_items)
qed

text \<open>One level down, to the child at an index.\<close>

lemma plug_child:
  assumes "i < length ts" and "length ts = Suc (length ks)"
  shows "plug (ts ! i) ((p, take i ts, take i ks, drop i ks, drop (Suc i) ts) # ctx) = plug (Node p ts ks) ctx"
    and "ctx_shape ctx \<Longrightarrow> ctx_shape ((p, take i ts, take i ks, drop i ks, drop (Suc i) ts) # ctx)"
  using assms by (simp_all add: id_take_nth_drop [symmetric])

text \<open>Reading a node in the loops that descend: its type, and its children and keys.\<close>

lemma wp_descend:
  assumes "at_view {} V b" and "p < v_count V" and "0 < v_avail V"
    and "node_type (v_page V p) = Inr PT_BTREE_INTERNAL" and "read_internal c (v_page V p) = Inr (ch, ks)"
    and "\<And>b'. at_view {} V b' \<Longrightarrow> wp (rest (ch, ks)) Q E b'"
  shows "wp (py_bind (fetch_page p) (\<lambda>data. py_bind (read_buf data node_type) (\<lambda>t.
      if t = PT_BTREE_LEAF then stop
      else py_bind (read_buf data (read_internal c)) (\<lambda>x. py_seq (unpin_page p False) (rest x))))) Q E b"
  unfolding wp_fun
proof (rule wp_fetch_at [OF assms(1-3)])
  fix b1 assume b1: "at_view {} (view_pin p V) b1"
  have "wp (unpin_page p False) (\<lambda>_. wp (rest (ch, ks)) Q E) E b1"
    by (rule wp_unpin_at [OF b1]) (use assms(3,6) in simp_all)
  then have "wp (read_buf p (read_internal c)) (\<lambda>x. wp (unpin_page p False) (\<lambda>_. wp (rest x) Q E) E) E b1"
    by (intro wp_read_at [OF b1]) (simp_all add: assms(5))
  then show "wp (read_buf p node_type) (\<lambda>t. wp (if t = PT_BTREE_LEAF then stop
      else py_bind (read_buf p (read_internal c)) (\<lambda>x. py_seq (unpin_page p False) (rest x))) Q E) E b1"
    by (intro wp_read_at [OF b1, where x = PT_BTREE_INTERNAL]) (simp_all add: assms(4) wp_fun)
qed

lemma wp_descend_leaf:
  assumes "at_view {} V b" and "p < v_count V" and "0 < v_avail V"
    and "node_type (v_page V p) = Inr PT_BTREE_LEAF" and "\<And>b'. at_view {} V b' \<Longrightarrow> Q x b'"
  shows "wp (py_bind (fetch_page p) (\<lambda>data. py_bind (read_buf data node_type) (\<lambda>t.
      if t = PT_BTREE_LEAF then py_seq (unpin_page p False) (py_return x) else go data))) Q E b"
  unfolding wp_fun
proof (rule wp_fetch_at [OF assms(1-3)])
  fix b1 assume b1: "at_view {} (view_pin p V) b1"
  have "wp (unpin_page p False) (\<lambda>_. Q x) E b1"
    by (rule wp_unpin_at [OF b1]) (use assms(3,5) in simp_all)
  then show "wp (read_buf p node_type) (\<lambda>t. wp (if t = PT_BTREE_LEAF then py_seq (unpin_page p False) (py_return x) else go p) Q E) E b1"
    by (intro wp_read_at [OF b1, where x = PT_BTREE_LEAF]) (simp_all add: assms(4) wp_fun wp_return_fun)
qed

lemma find_leaf_path_loop_spec:
  assumes "key_ok c k" and "tree_inv c (v_page V) (v_count V) (plug t ctx)" and "ctx_shape ctx" and "ctx_key k ctx"
    and "has_height h t" and "h < fuel" and "0 < v_avail V" and "at_view {} V b"
    and "\<And>p es nx ctx' b'. plug (Leaf p es nx) ctx' = plug t ctx \<Longrightarrow> ctx_shape ctx' \<Longrightarrow> ctx_key k ctx' \<Longrightarrow>
      at_view {} V b' \<Longrightarrow> Q (rev (map fst ctx') @ [p]) b'"
  shows "wp (find_leaf_path_loop c fuel k (rev (map fst ctx) @ [root_page t]) (root_page t)) Q E b"
  using assms(2-6,8,9)
proof (induction h arbitrary: t ctx fuel b)
  case 0
  then obtain p es nx where t: "t = Leaf p es nx" by (cases t) auto
  obtain m where m: "fuel = Suc m" using 0 by (cases fuel) auto
  note L = leaf_focus [OF "0.prems"(1) [unfolded t] "0.prems"(2)]
  show ?case unfolding m t find_leaf_path_loop.simps root_page.simps
    by (rule wp_descend_leaf [OF "0.prems"(6) L(3) assms(7) L(1)]) (use 0 in \<open>simp add: t\<close>)
next
  case (Suc h)
  then obtain p ts ks where t: "t = Node p ts ks" by (cases t) auto
  obtain m where m: "fuel = Suc m" using Suc.prems by (cases fuel) auto
  note N = node_focus [OF Suc.prems(1) [unfolded t] Suc.prems(2)]
  let ?i = "length (takeWhile (\<lambda>y. y \<le> k) ks)"
  have i: "?i < length ts" using N(4) by (simp add: length_takeWhile_le less_Suc_eq_le)
  let ?ctx = "(p, take ?i ts, take ?i ks, drop ?i ks, drop (Suc ?i) ts) # ctx"
  note P = plug_child [OF i N(4), where p = p and ctx = ctx]
  show ?case unfolding m t find_leaf_path_loop.simps root_page.simps case_prod_unfold
  proof (rule wp_descend [OF Suc.prems(6) N(3) assms(7) N(1,2)])
    fix b' assume b': "at_view {} V b'"
    have "wp (find_leaf_path_loop c m k (rev (map fst ?ctx) @ [root_page (ts ! ?i)]) (root_page (ts ! ?i))) Q E b'"
    proof (rule Suc.IH)
      show "tree_inv c (v_page V) (v_count V) (plug (ts ! ?i) ?ctx)" unfolding P using Suc.prems(1) t by simp
      show "ctx_shape ?ctx" by (rule P(2) [OF Suc.prems(2)])
      show "ctx_key k ?ctx" unfolding ctx_key.simps using Suc.prems(3) takeWhile_split [OF N(6), of k] by blast
      show "has_height h (ts ! ?i)" using Suc.prems(4) i by (simp add: t)
      show "h < m" using Suc.prems(5) m by simp
      show "at_view {} V b'" by (rule b')
    qed (use Suc.prems(7) P t in auto)
    then show "wp (py_bind (py_lift (py_bisect_right (snd (map root_page ts, ks)) k)) (\<lambda>idx.
        find_leaf_path_loop c m k ((rev (map fst ctx) @ [p]) @ [fst (map root_page ts, ks) ! idx]) (fst (map root_page ts, ks) ! idx))) Q E b'"
      using i by (simp add: wp_fun wp_lift_Inr py_bisect_right_ok [OF assms(1) N(5,6)])
  qed
qed

lemma wp_find_leaf_path:
  assumes t: "tree_at t T" and k: "key_ok (bt_conf t) k"
    and Q: "\<And>p es nx ctx b. plug (Leaf p es nx) ctx = T \<Longrightarrow> ctx_shape ctx \<Longrightarrow> ctx_key k ctx \<Longrightarrow>
      at_view {} (pool_view (bt_pool t)) b \<Longrightarrow> Q (rev (map fst ctx) @ [p]) (t\<lparr>bt_pool := b\<rparr>)"
  shows "wp (find_leaf_path k) Q E t"
proof -
  note D = tree_atD [OF t]
  obtain h where h: "has_height h T" using tree_invD(2) [OF D(6)] by blast
  have fuel: "h < pool_count (bt_pool t) + 1" using height_less [OF D(6) h] by simp
  show ?thesis unfolding find_leaf_path_def wp_bind wp_gets wp_on_tree id_def D(5)
    using find_leaf_path_loop_spec [where ctx = "[]" and t = T and V = "pool_view (bt_pool t)", simplified, OF k _ h fuel _ D(2)]
      D(3,6) Q by (simp add: pool_view_sel)
qed

section \<open>Search\<close>

lemma slice_equal_keys:
  "sorted (map fst es) \<Longrightarrow>
     py_slice (length (takeWhile (\<lambda>y. y < k) (map fst es))) (length (takeWhile (\<lambda>y. y \<le> k) (map fst es))) (map snd es)
     = map snd (filter (\<lambda>e. fst e = (k :: 'a :: linorder)) es)"
proof (induction es)
  case (Cons e es)
  consider "fst e < k" | "fst e = k" | "k < fst e" by fastforce
  then show ?case
  proof cases
    case 2
    then have "takeWhile (\<lambda>y. y < k) (map fst es) = []" using Cons.prems by (cases es) auto
    with Cons 2 show ?thesis by (simp add: py_slice_def)
  next
    case 3
    then have "filter (\<lambda>e. fst e = k) es = []" "\<not> fst e < k" "fst e \<noteq> k" "\<not> fst e \<le> k"
      using Cons.prems by (auto simp: filter_empty_conv)
    then show ?thesis by (simp add: py_slice_def)
  next
    case 1
    then have "fst e \<le> k" "fst e \<noteq> k" by simp_all
    with 1 Cons show ?thesis by (simp add: py_slice_def)
  qed
qed (simp add: py_slice_def)

lemma filter_none: "\<forall>e \<in> set xs. \<not> P e \<Longrightarrow> filter P xs = []"
  by (simp add: filter_empty_conv)

lemma wp_search:
  assumes t: "tree_at t T" and k: "key_ok (bt_conf t) k"
    and Q: "\<And>b. at_view {} (pool_view (bt_pool t)) b \<Longrightarrow>
      Q (map snd (filter (\<lambda>e. fst e = k) (entries (items T)))) (t\<lparr>bt_pool := b\<rparr>)"
  shows "wp (bt_search k) Q E t"
  unfolding bt_search_def wp_fun wp_gets
proof (rule wp_find_leaf_path [OF t k])
  fix p es nx ctx b
  let ?V = "pool_view (bt_pool t)" and ?c = "bt_conf t"
  assume T: "plug (Leaf p es nx) ctx = T" and ctx: "ctx_shape ctx" "ctx_key k ctx" and b: "at_view {} ?V b"
  note D = tree_atD [OF t] and inv = tree_atD(6) [OF t, folded T, folded pool_view_sel]
  note L = leaf_focus [OF inv ctx(1)] and A = entries_around [OF inv ctx]
  have "filter (\<lambda>e. fst e = k) (entries (left_items ctx)) = []" "filter (\<lambda>e. fst e = k) (entries (right_items ctx)) = []"
    by (rule filter_none, use A(2,3) in auto)+
  then have r: "filter (\<lambda>e. fst e = k) (entries (items T)) = filter (\<lambda>e. fst e = k) es"
    unfolding T [symmetric] A(1) by simp
  show "wp (let leaf_id = last (rev (map fst ctx) @ [p])
        in py_bind (on_tree (fetch_page leaf_id)) (\<lambda>data. py_finally
          (py_bind (on_tree (read_buf data (read_leaf ?c))) (\<lambda>(keys, rids, _).
           py_bind (py_lift (py_bisect_left keys k)) (\<lambda>lo.
           py_bind (py_lift (py_bisect_right keys k)) (\<lambda>hi. py_return (py_slice lo hi rids)))))
          (on_tree (unpin_page leaf_id False)))) Q E (t\<lparr>bt_pool := b\<rparr>)"
    unfolding Let_def last_snoc wp_fun wp_on_tree
  proof (simp, rule wp_fetch_at [OF b L(3)])
    fix b1 assume b1: "at_view {} (view_pin p ?V) b1"
    have "wp (unpin_page p False) (\<lambda>_ b'. Q (map snd (filter (\<lambda>e. fst e = k) es)) (t\<lparr>bt_pool := b'\<rparr>)) E' b1" for E'
      by (rule wp_unpin_at [OF b1]) (use D(3) Q r in simp_all)
    then have "wp (read_buf p (read_leaf ?c)) (\<lambda>x b'. wp (case x of (keys, rids, _) \<Rightarrow>
           py_bind (py_lift (py_bisect_left keys k)) (\<lambda>lo.
           py_bind (py_lift (py_bisect_right keys k)) (\<lambda>hi. py_return (py_slice lo hi rids))))
        (\<lambda>x. wp (on_tree (unpin_page p False)) (\<lambda>_. Q x) E) (\<lambda>e. wp (on_tree (unpin_page p False)) (\<lambda>_. E e) E) (t\<lparr>bt_pool := b'\<rparr>)) E' b1" for E'
      by (intro wp_read_at [OF b1, where x = "(map fst es, map snd es, nx)"])
        (simp_all add: L(2) wp_fun wp_lift_Inr wp_return wp_on_tree slice_equal_keys [OF L(6)]
          py_bisect_left_ok [OF k L(4,6)] py_bisect_right_ok [OF k L(4,6)])
    then show "wp (py_finally (py_bind (on_tree (read_buf p (read_leaf ?c))) (\<lambda>(keys, rids, _).
           py_bind (py_lift (py_bisect_left keys k)) (\<lambda>lo.
           py_bind (py_lift (py_bisect_right keys k)) (\<lambda>hi. py_return (py_slice lo hi rids)))))
          (on_tree (unpin_page p False))) Q E (t\<lparr>bt_pool := b1\<rparr>)"
      by (simp add: wp_finally wp_fun wp_on_tree)
  qed (use D(3) in simp)
qed

section \<open>The leaves in their order\<close>

definition leaf_entries :: "(nat \<times> entry list \<times> nat) list \<Rightarrow> entry list" where
  "leaf_entries ls = concat (map (\<lambda>(p, es, nx). es) ls)"

lemma leaf_entries_simps [simp]:
  "leaf_entries [] = []" "leaf_entries ((p, es, nx) # ls) = es @ leaf_entries ls"
  "leaf_entries (xs @ ys) = leaf_entries xs @ leaf_entries ys"
  by (simp_all add: leaf_entries_def)

lemma entries_weave:
  "length xs = Suc (length ks) \<Longrightarrow> entries (weave xs ks) = concat (map entries xs)"
  by (induction xs ks rule: weave.induct) auto

lemma entries_segs:
  "length xs = length ks \<Longrightarrow> entries (left_seg xs ks) = concat (map entries xs)"
  "length xs = length ks \<Longrightarrow> entries (right_seg ks xs) = concat (map entries xs)"
  by (induction xs ks rule: list_induct2) (simp_all add: left_seg_def right_seg_def)

lemma leaf_entries_concat: "leaf_entries (concat xss) = concat (map leaf_entries xss)"
  by (induction xss) simp_all

lemma entries_leaves:
  "\<forall>(p, x) \<in> set (images t). node_fits c x \<Longrightarrow> entries (items t) = leaf_entries (leaves t)"
proof (induction t)
  case (Node p ts ks)
  have "length (map items ts) = Suc (length ks)" using Node.prems by (simp add: internal_fits_def)
  moreover have "concat (map (entries \<circ> items) ts) = concat (map (leaf_entries \<circ> leaves) ts)"
    by (rule arg_cong [of _ _ concat], rule map_cong) (use Node in auto)
  ultimately show ?case by (simp add: entries_weave leaf_entries_concat)
qed simp

lemma entries_ctx_leaves:
  assumes "\<forall>(p, x) \<in> set (ctx_images q ctx). node_fits c x" and "ctx_shape ctx"
  shows "entries (left_items ctx) = leaf_entries (left_leaves ctx)"
    and "entries (right_items ctx) = leaf_entries (right_leaves ctx)"
proof -
  have "entries (left_items ctx) = leaf_entries (left_leaves ctx) \<and> entries (right_items ctx) = leaf_entries (right_leaves ctx)"
    using assms
  proof (induction ctx arbitrary: q)
    case (Cons f ctx)
    obtain p ls lk rk rs where f: "f = (p, ls, lk, rk, rs)" by (cases f)
    have *: "entries (items t) = leaf_entries (leaves t)" if "t \<in> set ls \<union> set rs" for t
      using Cons.prems(1) that by (intro entries_leaves [of t c]) (auto simp: f)
    have "concat (map (entries \<circ> items) ls) = concat (map (leaf_entries \<circ> leaves) ls)"
      "concat (map (entries \<circ> items) rs) = concat (map (leaf_entries \<circ> leaves) rs)"
      by (rule arg_cong [of _ _ concat], rule map_cong, use * in auto)+
    moreover have "entries (left_items ctx) = leaf_entries (left_leaves ctx) \<and> entries (right_items ctx) = leaf_entries (right_leaves ctx)"
      using Cons.prems by (intro Cons.IH [of p]) (auto simp: f)
    ultimately show ?case using Cons.prems(2) by (simp add: f entries_segs leaf_entries_concat)
  qed simp
  then show "entries (left_items ctx) = leaf_entries (left_leaves ctx)" "entries (right_items ctx) = leaf_entries (right_leaves ctx)"
    by simp_all
qed

lemma leaves_images: "(p, es, nx) \<in> set (leaves t) \<Longrightarrow> (p, LeafNode es nx) \<in> set (images t)"
  by (induction t) auto

lemma length_leaves: "length (leaves t) \<le> length (images t)"
proof (induction t)
  case (Node p ts ks)
  then have "sum_list (map (length \<circ> leaves) ts) \<le> sum_list (map (length \<circ> images) ts)"
    by (intro sum_list_mono) auto
  then show ?case by (simp add: length_concat)
qed simp

lemma length_images:
  assumes "tree_inv c pg n T"
  shows "length (images T) \<le> n"
proof -
  note P = tree_invD(1) [OF assms]
  have "length (pages T) = card (set (pages T))" using P distinct_card [of "pages T"] by (simp add: pages_ok_def)
  also have "\<dots> \<le> card {..<n}" using pages_okD(3) [OF P] by (intro card_mono) auto
  finally show ?thesis by simp
qed

fun first_leaf :: "(nat \<times> entry list \<times> nat) list \<Rightarrow> nat" where
  "first_leaf [] = INVALID_PAGE_ID"
| "first_leaf ((p, es, nx) # ls) = p"

lemma linked_Cons: "linked ((p, es, nx) # ls) \<longleftrightarrow> nx = first_leaf ls \<and> linked ls"
  by (cases ls rule: first_leaf.cases) auto

lemma linked_append: "linked (xs @ ys) \<Longrightarrow> linked ys"
  by (induction xs) (auto simp: linked_Cons)

section \<open>Range scan\<close>

definition in_range :: "pyval \<Rightarrow> pyval \<Rightarrow> entry \<Rightarrow> bool" where
  "in_range lo hi e \<longleftrightarrow> (lo = VNone \<or> lo \<le> fst e) \<and> (hi = VNone \<or> fst e \<le> hi)"

definition bound_ok :: "btconf \<Rightarrow> pyval \<Rightarrow> bool" where
  "bound_ok c k \<longleftrightarrow> k = VNone \<or> key_ok c k"

lemma scan_leaf_eq:
  assumes "bound_ok c hi" and "\<forall>k \<in> set (map fst es). key_ok c k" and "sorted (map fst es)"
  shows "scan_leaf hi es = Inr (filter (\<lambda>e. hi = VNone \<or> fst e \<le> hi) es, hi \<noteq> VNone \<and> (\<exists>e \<in> set es. hi < fst e))"
  using assms(2,3)
proof (induction es)
  case (Cons e es)
  obtain k r where e: "e = (k, r)" by (cases e)
  have less: "py_less hi k = Inr (hi < k)" if "hi \<noteq> VNone"
    using that assms(1) Cons.prems(1) by (intro key_ok_compare [of c]) (auto simp: bound_ok_def e)
  have "filter (\<lambda>e. fst e \<le> hi) es = []" if "hi < k"
    using Cons.prems(2) that by (intro filter_none) (auto simp: e)
  with Cons less show ?case by (auto simp: e not_le)
qed simp

lemma drop_less_keys:
  "sorted (map fst es) \<Longrightarrow> drop (length (takeWhile (\<lambda>y. y < lo) (map fst es))) es = filter (\<lambda>e. (lo :: 'a :: linorder) \<le> fst e) es"
proof (induction es)
  case (Cons e es)
  show ?case
  proof (cases "fst e < lo")
    case False
    then have "filter (\<lambda>e. lo \<le> fst e) es = es" using Cons.prems by (intro filter_True) auto
    with False show ?thesis by simp
  qed (use Cons in simp)
qed simp

lemma range_scan_loop_spec:
  assumes lo: "bound_ok c lo" and hi: "bound_ok c hi" and V: "0 < v_avail V"
    and ls: "linked ls" "sorted (map fst (leaf_entries ls))" "length ls < fuel"
    and pg: "\<forall>(p, es, nx) \<in> set ls. p < v_count V \<and> p \<noteq> INVALID_PAGE_ID \<and> read_leaf c (v_page V p) = Inr (map fst es, map snd es, nx)
      \<and> (\<forall>k \<in> set (map fst es). key_ok c k)"
    and b: "at_view {} V b"
    and Q: "\<And>b'. at_view {} V b' \<Longrightarrow> Q (filter (in_range lo hi) (leaf_entries ls)) b'"
  shows "wp (range_scan_loop c fuel lo hi (first_leaf ls)) Q E b"
  using ls pg b Q
proof (induction ls arbitrary: fuel b Q)
  case Nil
  then show ?case by (cases fuel) (simp_all add: wp_return)
next
  case (Cons l ls)
  obtain p es nx where l: "l = (p, es, nx)" by (cases l)
  obtain m where m: "fuel = Suc m" using Cons.prems by (cases fuel) auto
  have pg: "p < v_count V" "p \<noteq> INVALID_PAGE_ID" "read_leaf c (v_page V p) = Inr (map fst es, map snd es, nx)"
    "\<forall>k \<in> set (map fst es). key_ok c k" using Cons.prems(4) by (auto simp: l)
  have nx: "nx = first_leaf ls" "linked ls" using Cons.prems(1) by (simp_all add: l linked_Cons)
  have srt: "sorted (map fst es)" "sorted (map fst (leaf_entries ls))" "\<forall>x \<in> set es. \<forall>y \<in> set (leaf_entries ls). fst x \<le> fst y"
    using Cons.prems(2) by (auto simp: l sorted_append)
  define es' where "es' = filter (\<lambda>e. lo = VNone \<or> lo \<le> fst e) es"
  have i: "(if lo = VNone then Inr 0 else py_bisect_left (map fst es) lo)
      = Inr (if lo = VNone then 0 else length (takeWhile (\<lambda>y. y < lo) (map fst es)))"
    using lo py_bisect_left_ok [OF _ pg(4) srt(1)] by (auto simp: bound_ok_def)
  have d: "drop (if lo = VNone then 0 else length (takeWhile (\<lambda>y. y < lo) (map fst es))) (zip (map fst es) (map snd es)) = es'"
    using drop_less_keys [OF srt(1), of lo] by (simp add: zip_map_fst_snd es'_def)
  have rng: "in_range lo hi = (\<lambda>e. (lo = VNone \<or> lo \<le> fst e) \<and> (hi = VNone \<or> fst e \<le> hi))"
    by (auto simp: in_range_def fun_eq_iff)
  have sc: "scan_leaf hi es' = Inr (filter (in_range lo hi) es, hi \<noteq> VNone \<and> (\<exists>e \<in> set es'. hi < fst e))"
    using scan_leaf_eq [OF hi, of es'] pg(4) srt(1)
    by (auto simp: es'_def sorted_filter rng)
  have rest: "wp (py_bind (py_lift (scan_leaf hi es')) (\<lambda>(out, stop). if stop then py_return out
      else py_bind (range_scan_loop c m lo hi nx) (\<lambda>rest. py_return (out @ rest)))) Q E b2" if b2: "at_view {} V b2" for b2
  proof (cases "hi \<noteq> VNone \<and> (\<exists>e \<in> set es'. hi < fst e)")
    case True
    then obtain e where e: "hi \<noteq> VNone" "e \<in> set es" "hi < fst e" by (auto simp: es'_def)
    have "hi < fst x" if "x \<in> set (leaf_entries ls)" for x
      using e(3) srt(3) e(2) that less_le_trans by blast
    then have "filter (in_range lo hi) (leaf_entries ls) = []"
      using e(1) by (intro filter_none) (fastforce simp: in_range_def)
    then show ?thesis using True Cons.prems(6) [OF b2] by (simp add: wp_fun sc wp_lift_Inr wp_return l)
  next
    case False
    have "wp (range_scan_loop c m lo hi (first_leaf ls)) (\<lambda>rest. Q (filter (in_range lo hi) es @ rest)) E b2"
      by (rule Cons.IH [OF nx(2) srt(2)]) (use Cons.prems m b2 in \<open>auto simp: l\<close>)
    moreover have "scan_leaf hi es' = Inr (filter (in_range lo hi) es, False)" using sc False by auto
    ultimately show ?thesis by (simp add: wp_fun wp_lift_Inr wp_return_fun nx(1))
  qed
  show ?case unfolding m l first_leaf.simps range_scan_loop.simps
  proof (simp add: pg(2) wp_fun, rule wp_fetch_at [OF Cons.prems(5) pg(1) V])
    fix b1 assume b1: "at_view {} (view_pin p V) b1"
    have "wp (unpin_page p False) (\<lambda>_. wp (py_bind (py_lift (scan_leaf hi es')) (\<lambda>(out, stop). if stop then py_return out
      else py_bind (range_scan_loop c m lo hi nx) (\<lambda>rest. py_return (out @ rest)))) Q E) E b1"
      by (rule wp_unpin_at [OF b1]) (use V rest in simp_all)
    then show "wp (read_buf p (read_leaf c)) (\<lambda>x. wp (case x of (keys, rids, next_leaf) \<Rightarrow>
        py_seq (unpin_page p False) (py_bind (py_lift (if lo = VNone then Inr 0 else py_bisect_left keys lo)) (\<lambda>i.
        py_bind (py_lift (scan_leaf hi (drop i (zip keys rids)))) (\<lambda>(out, stop). if stop then py_return out
        else py_bind (range_scan_loop c m lo hi next_leaf) (\<lambda>rest. py_return (out @ rest)))))) Q E) E b1"
      by (intro wp_read_at [OF b1, where x = "(map fst es, map snd es, nx)"])
        (simp_all only: pg(3) view_sel i d wp_fun wp_lift_Inr prod.case, simp_all)
  qed
qed

lemma leaves_ok:
  assumes "tree_inv c pg n T" and "n \<le> INVALID_PAGE_ID" and "(p, es, nx) \<in> set (leaves T)"
  shows "p < n \<and> p \<noteq> INVALID_PAGE_ID \<and> read_leaf c (pg p) = Inr (map fst es, map snd es, nx) \<and> (\<forall>k \<in> set (map fst es). key_ok c k)"
  using pages_okD [OF tree_invD(1) [OF assms(1)] leaves_images [OF assms(3)]] assms(2)
  by (auto simp: leaf_fits_def)

lemma tree_entries:
  assumes "tree_inv c pg n T"
  shows "entries (items T) = leaf_entries (leaves T)" and "sorted (map fst (leaf_entries (leaves T)))"
    and "length (leaves T) \<le> n"
proof -
  show e: "entries (items T) = leaf_entries (leaves T)"
    using pages_okD(1) [OF tree_invD(1) [OF assms]] by (intro entries_leaves [of T c]) auto
  show "sorted (map fst (leaf_entries (leaves T)))" using entries_sorted [OF tree_invD(3) [OF assms]] by (simp add: e)
  show "length (leaves T) \<le> n" using length_leaves [of T] length_images [OF assms] by simp
qed

text \<open>A scan that starts at any leaf.\<close>

lemma wp_scan_from:
  assumes t: "tree_at t T" and ls: "leaves T = xs @ ls" and b: "at_view {} (pool_view (bt_pool t)) b"
    and lo: "bound_ok (bt_conf t) lo" and hi: "bound_ok (bt_conf t) hi"
    and out: "\<forall>e \<in> set (leaf_entries xs). \<not> in_range lo hi e"
    and Q: "\<And>b'. at_view {} (pool_view (bt_pool t)) b' \<Longrightarrow> Q (filter (in_range lo hi) (entries (items T))) b'"
  shows "wp (range_scan_loop (bt_conf t) (pool_count (bt_pool t) + 1) lo hi (first_leaf ls)) Q E b"
proof (rule range_scan_loop_spec [OF lo hi, where V = "pool_view (bt_pool t)"])
  note D = tree_atD [OF t] and T = tree_entries [OF tree_atD(6) [OF t]]
  show "0 < v_avail (pool_view (bt_pool t))" using D(3) by simp
  show "linked ls" using tree_invD(4) [OF D(6)] by (simp add: ls linked_append)
  show "sorted (map fst (leaf_entries ls))" using T(2) by (simp add: ls sorted_append)
  show "length ls < pool_count (bt_pool t) + 1" using T(3) by (simp add: ls)
  show "\<forall>(p, es, nx) \<in> set ls. p < v_count (pool_view (bt_pool t)) \<and> p \<noteq> INVALID_PAGE_ID
      \<and> read_leaf (bt_conf t) (v_page (pool_view (bt_pool t)) p) = Inr (map fst es, map snd es, nx)
      \<and> (\<forall>k \<in> set (map fst es). key_ok (bt_conf t) k)"
    using leaves_ok [OF D(6,4)] by (auto simp: ls pool_view_sel)
  show "at_view {} (pool_view (bt_pool t)) b" by (rule b)
  have "filter (in_range lo hi) (entries (items T)) = filter (in_range lo hi) (leaf_entries ls)"
    by (simp add: T(1) ls filter_none [OF out])
  then show "Q (filter (in_range lo hi) (leaf_entries ls)) b'" if "at_view {} (pool_view (bt_pool t)) b'" for b'
    using Q [OF that] by simp
qed

text \<open>The leftmost leaf, and the height.\<close>

lemma wp_first_child:
  assumes "tree_inv c (v_page V) (v_count V) (plug (Node p ts ks) ctx)" and "ctx_shape ctx" and "at_view {} V b" and "0 < v_avail V"
    and "\<And>b' t' ctx'. at_view {} V b' \<Longrightarrow> ctx_shape ctx' \<Longrightarrow> plug t' ctx' = plug (Node p ts ks) ctx \<Longrightarrow> t' \<in> set ts \<Longrightarrow>
      left_leaves ctx' = left_leaves ctx \<Longrightarrow> wp (rest (root_page t')) Q E b'"
  shows "wp (py_bind (fetch_page p) (\<lambda>data. py_bind (read_buf data node_type) (\<lambda>t.
      if t = PT_BTREE_LEAF then stop
      else py_bind (read_buf data (read_internal c)) (\<lambda>(children, _). py_seq (unpin_page p False) (rest (children ! 0)))))) Q E b"
proof -
  note N = node_focus [OF assms(1,2)]
  obtain t' ts' where ts: "ts = t' # ts'" using N(4) by (cases ts) auto
  have len: "0 < length ts" by (simp add: ts)
  note P = plug_child [OF len N(4), where p = p and ctx = ctx]
  have "wp (rest (root_page t')) Q E b'" if "at_view {} V b'" for b'
    using assms(5) [OF that P(2) [OF assms(2)] P(1)] by (simp add: ts)
  then show ?thesis unfolding case_prod_unfold
    by (intro wp_descend [OF assms(3) N(3) assms(4) N(1,2)]) (simp add: ts)
qed

lemma leftmost_leaf_loop_spec:
  assumes "tree_inv c (v_page V) (v_count V) (plug t ctx)" and "ctx_shape ctx" and "has_height h t" and "h < fuel"
    and "0 < v_avail V" and "at_view {} V b"
    and "\<And>b' p es nx ctx'. at_view {} V b' \<Longrightarrow> plug (Leaf p es nx) ctx' = plug t ctx \<Longrightarrow> left_leaves ctx' = left_leaves ctx \<Longrightarrow> Q p b'"
  shows "wp (leftmost_leaf_loop c fuel (root_page t)) Q E b"
  using assms(1-4,6,7)
proof (induction h arbitrary: t ctx fuel b)
  case 0
  then obtain p es nx where t: "t = Leaf p es nx" by (cases t) auto
  obtain m where m: "fuel = Suc m" using 0 by (cases fuel) auto
  note L = leaf_focus [OF "0.prems"(1) [unfolded t] "0.prems"(2)]
  show ?case unfolding m t leftmost_leaf_loop.simps root_page.simps
    by (rule wp_descend_leaf [OF "0.prems"(5) L(3) assms(5) L(1)]) (use 0 in \<open>simp add: t\<close>)
next
  case (Suc h)
  then obtain p ts ks where t: "t = Node p ts ks" by (cases t) auto
  obtain m where m: "fuel = Suc m" using Suc.prems by (cases fuel) auto
  show ?case unfolding m t leftmost_leaf_loop.simps root_page.simps
  proof (rule wp_first_child [OF Suc.prems(1) [unfolded t] Suc.prems(2,5) assms(5)])
    fix b' t' ctx' assume *: "at_view {} V b'" "ctx_shape ctx'" "plug t' ctx' = plug (Node p ts ks) ctx" "t' \<in> set ts"
      "left_leaves ctx' = left_leaves ctx"
    show "wp (leftmost_leaf_loop c m (root_page t')) Q E b'"
      by (rule Suc.IH [of t' ctx']) (use Suc.prems * m in \<open>auto simp: t\<close>)
  qed
qed

lemma height_loop_spec:
  assumes "tree_inv c (v_page V) (v_count V) (plug t ctx)" and "ctx_shape ctx" and "has_height h t" and "h < fuel"
    and "0 < v_avail V" and "at_view {} V b" and "\<And>b'. at_view {} V b' \<Longrightarrow> Q (a + h) b'"
  shows "wp (height_loop c fuel a (root_page t)) Q E b"
  using assms(1-4,6,7)
proof (induction h arbitrary: t ctx fuel b a)
  case 0
  then obtain p es nx where t: "t = Leaf p es nx" by (cases t) auto
  obtain m where m: "fuel = Suc m" using 0 by (cases fuel) auto
  note L = leaf_focus [OF "0.prems"(1) [unfolded t] "0.prems"(2)]
  show ?case unfolding m t height_loop.simps root_page.simps
    by (rule wp_descend_leaf [OF "0.prems"(5) L(3) assms(5) L(1)]) (use 0 in simp)
next
  case (Suc h)
  then obtain p ts ks where t: "t = Node p ts ks" by (cases t) auto
  obtain m where m: "fuel = Suc m" using Suc.prems by (cases fuel) auto
  show ?case unfolding m t height_loop.simps root_page.simps
  proof (rule wp_first_child [OF Suc.prems(1) [unfolded t] Suc.prems(2,5) assms(5)])
    fix b' t' ctx' assume *: "at_view {} V b'" "ctx_shape ctx'" "plug t' ctx' = plug (Node p ts ks) ctx" "t' \<in> set ts"
    show "wp (height_loop c m (a + 1) (root_page t')) Q E b'"
      by (rule Suc.IH [of t' ctx']) (use Suc.prems * m in \<open>auto simp: t\<close>)
  qed
qed

lemma wp_range_scan:
  assumes t: "tree_at t T" and lo: "bound_ok (bt_conf t) lo" and hi: "bound_ok (bt_conf t) hi"
    and Q: "\<And>b. at_view {} (pool_view (bt_pool t)) b \<Longrightarrow>
      Q (filter (in_range lo hi) (entries (items T))) (t\<lparr>bt_pool := b\<rparr>)"
  shows "wp (range_scan lo hi) Q E t"
proof -
  let ?V = "pool_view (bt_pool t)" and ?c = "bt_conf t"
  note D = tree_atD [OF t]
  have go: "wp (on_tree (range_scan_loop ?c (pool_count (bt_pool t) + 1) lo hi (first_leaf ls))) Q E (t\<lparr>bt_pool := b\<rparr>)"
    if "leaves T = xs @ ls" "\<forall>e \<in> set (leaf_entries xs). \<not> in_range lo hi e" "at_view {} ?V b" for xs ls b
    unfolding wp_on_tree by (rule wp_scan_from [OF t that(1) _ lo hi that(2)]) (use that(3) Q in simp_all)
  show ?thesis
  proof (cases "lo = VNone")
    case True
    obtain h where h: "has_height h T" using tree_invD(2) [OF D(6)] by blast
    have "wp (leftmost_leaf_loop ?c (pool_count (bt_pool t) + 1) (root_page T))
        (\<lambda>p b. wp (on_tree (range_scan_loop ?c (pool_count (bt_pool t) + 1) lo hi p)) Q E (t\<lparr>bt_pool := b\<rparr>)) E' (bt_pool t)" for E'
    proof (rule leftmost_leaf_loop_spec [where ctx = "[]" and V = ?V, OF _ _ h])
      fix b p es nx ctx' assume "at_view {} ?V b" "plug (Leaf p es nx) ctx' = plug T []" "left_leaves ctx' = left_leaves []"
      then show "wp (on_tree (range_scan_loop ?c (pool_count (bt_pool t) + 1) lo hi p)) Q E (t\<lparr>bt_pool := b\<rparr>)"
        using go [of "[]" "leaves T" b] leaves_plug [of "Leaf p es nx" ctx'] by (simp del: range_scan_loop.simps)
    qed (use D height_less [OF D(6) h] in \<open>simp_all add: pool_view_sel\<close>)
    then show ?thesis by (simp add: range_scan_def leftmost_leaf_def wp_fun wp_gets wp_on_tree True D(5)
          del: range_scan_loop.simps leftmost_leaf_loop.simps)
  next
    case False
    then have k: "key_ok ?c lo" using lo by (simp add: bound_ok_def)
    have "wp (find_leaf_path lo) (\<lambda>path. wp (on_tree (range_scan_loop ?c (pool_count (bt_pool t) + 1) lo hi (last path))) Q E) E t"
    proof (rule wp_find_leaf_path [OF t k])
      fix p es nx ctx b assume T: "plug (Leaf p es nx) ctx = T" and ctx: "ctx_shape ctx" "ctx_key lo ctx" and b: "at_view {} ?V b"
      note inv = D(6) [folded T] and A = entries_around [OF D(6) [folded T] ctx]
      have "\<forall>(p, x) \<in> set (ctx_images p ctx). node_fits ?c x"
        using pages_okD(1) [OF tree_invD(1) [OF inv]] mset_eq_setD [OF images_plug [of "Leaf p es nx" ctx]] by fastforce
      note E = entries_ctx_leaves(1) [OF this ctx(1)]
      have "\<forall>e \<in> set (leaf_entries (left_leaves ctx)). \<not> in_range lo hi e"
        using A(2) False unfolding E by (auto simp: in_range_def)
      then show "wp (on_tree (range_scan_loop ?c (pool_count (bt_pool t) + 1) lo hi (last (rev (map fst ctx) @ [p])))) Q E (t\<lparr>bt_pool := b\<rparr>)"
        using go [of "left_leaves ctx" "(p, es, nx) # right_leaves ctx" b] b leaves_plug [of "Leaf p es nx" ctx] T by (simp del: range_scan_loop.simps)
    qed
    then show ?thesis by (simp add: range_scan_def wp_fun wp_gets wp_return_fun False del: range_scan_loop.simps)
  qed
qed

lemma wp_height:
  assumes t: "tree_at t T" and h: "has_height h T"
    and Q: "\<And>b. at_view {} (pool_view (bt_pool t)) b \<Longrightarrow> Q (Suc h) (t\<lparr>bt_pool := b\<rparr>)"
  shows "wp bt_height Q E t"
proof -
  note D = tree_atD [OF t]
  show ?thesis unfolding bt_height_def wp_bind wp_gets wp_on_tree id_def D(5)
    by (rule height_loop_spec [where ctx = "[]" and V = "pool_view (bt_pool t)", OF _ _ h])
      (use D Q height_less [OF D(6) h] in \<open>simp_all add: pool_view_sel\<close>)
qed

end
