(* ===== verification/BTree_Insert.thy ===== *)
theory BTree_Insert
  imports BTree_Search
begin

text \<open>
  Insertion into the B+-tree. A leaf or internal node that overflows is split, and the
  separator is handed to the parent: between the two steps the pages form a tree with two
  subtrees and a separator where the parent still knows one child (\<open>pending\<close>). The properties
  show that \<^verbatim>\<open>insert\<close> adds the entry behind the entries with the same key and keeps the
  invariant, whatever splits it causes, and when it raises.
\<close>

section \<open>Changing pages\<close>

lemma pages_ok_update:
  assumes "pages_ok c pg n ((p, x) # xs)" and "node_fits c y" and "node_holds c d y"
  shows "pages_ok c (pg(p := d)) n ((p, y) # xs)"
  using assms unfolding pages_ok_def by (auto simp: rev_image_eqI)

lemma pages_ok_grow:
  assumes "pages_ok c pg n xs" and "node_fits c y" and "node_holds c d y"
  shows "pages_ok c (pg(n := d)) (Suc n) ((n, y) # xs)"
proof -
  have "p \<noteq> n \<and> p < Suc n" if "(p, x) \<in> set xs" for p x using pages_okD(3) [OF assms(1) that] by simp
  with assms show ?thesis unfolding pages_ok_def by (auto simp: case_prod_unfold)
qed

text \<open>
  What an operation leaves alone: the pins, the frames, and all pages that it does not own.
\<close>

definition evolves :: "nat set \<Rightarrow> view \<Rightarrow> view \<Rightarrow> bool" where
  "evolves P V V' \<longleftrightarrow> v_avail V' = v_avail V \<and> v_pins V' = v_pins V \<and> v_count V \<le> v_count V'
     \<and> (\<forall>p < v_count V. p \<notin> P \<longrightarrow> v_page V' p = v_page V p)"

lemma evolves_write: "p \<in> P \<Longrightarrow> evolves P V (view_write p d V)"
  by (simp add: evolves_def)

lemma evolves_grow: "evolves P V (view_grow d V)"
  by (simp add: evolves_def)

lemma evolves_trans: "evolves P V V' \<Longrightarrow> evolves P' V' V'' \<Longrightarrow> P' \<inter> {..<v_count V} \<subseteq> P \<Longrightarrow> evolves P V V''"
  unfolding evolves_def by (auto simp: subset_iff) (metis order.strict_trans2)

lemma evolves_mono: "evolves P V V' \<Longrightarrow> P \<subseteq> P' \<Longrightarrow> evolves P' V V'"
  unfolding evolves_def by auto

section \<open>Handing a separator to the parent\<close>

definition pending :: "btconf \<Rightarrow> (nat \<Rightarrow> bytes) \<Rightarrow> nat \<Rightarrow> frame_ctx list \<Rightarrow> tree \<Rightarrow> pyval \<Rightarrow> tree \<Rightarrow> bool" where
  "pending c pg n ctx t1 sep t2 \<longleftrightarrow> ctx_shape ctx \<and> key_ok c sep
     \<and> pages_ok c pg n (images t1 @ images t2 @ ctx_images (root_page t1) ctx)
     \<and> (\<exists>h. has_height h t1 \<and> has_height h t2 \<and> ctx_height h ctx)
     \<and> sorted_wrt before (left_items ctx @ items t1 @ (sep, None) # items t2 @ right_items ctx)
     \<and> linked (left_leaves ctx @ leaves t1 @ leaves t2 @ right_leaves ctx)
     \<and> keyed (images t1 @ images t2 @ ctx_images (root_page t1) ctx)"

lemma find_skip: "\<forall>x \<in> set xs. \<not> P x \<Longrightarrow> find P (xs @ ys) = find P ys"
  by (induction xs) auto

lemma list_index_split: "x \<notin> set xs \<Longrightarrow> list_index x (xs @ x # ys) = Inr (length xs)"
proof -
  assume x: "x \<notin> set xs"
  let ?P = "\<lambda>i. (xs @ x # ys) ! i = x" and ?rest = "length xs # [Suc (length xs)..<length xs + Suc (length ys)]"
  have upt: "[0..<length (xs @ x # ys)] = [0..<length xs] @ ?rest"
    using upt_add_eq_append [of 0 "length xs" "Suc (length ys)"] upt_conv_Cons [of "length xs" "length xs + Suc (length ys)"]
    by (simp del: upt_Suc)
  have "\<forall>i \<in> set [0..<length xs]. \<not> ?P i" using x by (auto simp: nth_append)
  from find_skip [OF this, of ?rest] show ?thesis unfolding list_index_def upt by simp
qed

lemma pages_ok_differ: "pages_ok c pg n (xs @ ys) \<Longrightarrow> a \<in> set xs \<Longrightarrow> b \<in> set ys \<Longrightarrow> fst a \<noteq> fst b"
proof -
  assume *: "pages_ok c pg n (xs @ ys)" "a \<in> set xs" "b \<in> set ys"
  then have "fst ` set xs \<inter> fst ` set ys = {}" by (simp add: pages_ok_def)
  with * show ?thesis by blast
qed

lemma root_image: "\<exists>x. (root_page t, x) \<in> set (images t)"
  by (cases t) auto

lemma weave_cut:
  assumes "length xs = Suc (length ks)" and "m < length ks"
  shows "weave xs ks = weave (take (Suc m) xs) (take m ks) @ (ks ! m, None) # weave (drop (Suc m) xs) (drop (Suc m) ks)"
  using assms
proof (induction xs ks arbitrary: m rule: weave.induct)
  case (1 x xs k ks)
  then show ?case
  proof (cases m)
    case 0
    with 1 show ?thesis by (cases xs) auto
  next
    case (Suc m')
    with 1 show ?thesis by auto
  qed
qed simp_all

lemma root_page_plug: "root_page (plug t ctx) = (if ctx = [] then root_page t else fst (last ctx))"
  by (induction t ctx rule: plug.induct) auto

lemma ctx_pages: "fst ` set ctx \<subseteq> fst ` set (ctx_images q ctx)"
proof (induction ctx arbitrary: q)
  case (Cons f ctx)
  obtain p ls lk rk rs where "f = (p, ls, lk, rk, rs)" by (cases f)
  with Cons [of p] show ?case by auto
qed simp

lemma plug_pages: "set (pages (plug t ctx)) = set (pages t) \<union> fst ` set (ctx_images (root_page t) ctx)"
  using mset_eq_setD [OF images_plug [of t ctx]] by (simp add: image_Un)

lemma node_pages: "set (pages (Node p ts ks)) = insert p (\<Union>t \<in> set ts. set (pages t))"
  by auto

lemma ctx_pages_Cons:
  "fst ` set (ctx_images q ((p, ls, lk, rk, rs) # ctx)) = insert p ((\<Union>t \<in> set ls \<union> set rs. set (pages t)) \<union> fst ` set (ctx_images p ctx))"
  by (auto simp: image_Un image_UN)

lemma cut_pages:
  "set (pages (Node p (take k ts) ks)) \<union> set (pages (Node q (drop k ts) ks')) = insert p (insert q (\<Union>t \<in> set ts. set (pages t)))"
proof -
  have "set ts = set (take k ts) \<union> set (drop k ts)" by (metis append_take_drop_id set_append)
  then show ?thesis unfolding node_pages by blast
qed

lemma insert_at_append: "insert_at (length xs) x (xs @ ys) = xs @ x # ys"
  by (simp add: insert_at_def)

text \<open>The node of the parent after the new child was put in, and what the whole tree then is.\<close>

lemma pending_step:
  assumes "pending c pg n ((p, ls, lk, rk, rs) # ctx) t1 sep t2" and "n \<le> INVALID_PAGE_ID"
  defines "ts \<equiv> ls @ t1 # t2 # rs" and "ks \<equiv> lk @ sep # rk"
  shows "p < n" and "node_type (pg p) = Inr PT_BTREE_INTERNAL"
    and "read_internal c (pg p) = Inr (map root_page ls @ root_page t1 # map root_page rs, lk @ rk)"
    and "list_index (root_page t1) (map root_page ls @ root_page t1 # map root_page rs) = Inr (length ls)"
    and "insert_at (length ls + 1) (root_page t2) (map root_page ls @ root_page t1 # map root_page rs) = map root_page ts"
    and "insert_at (length ls) sep (lk @ rk) = ks"
    and "\<forall>k \<in> set ks. key_ok c k" and "\<forall>t \<in> set ts. root_page t < 2 ^ 32" and "length ts = Suc (length ks)"
    and "length ks \<le> Suc (bc_max_internal_keys c)"
    and "pages_ok c pg n ((p, InnerNode (map root_page ls @ root_page t1 # map root_page rs) (lk @ rk)) # concat (map images ts) @ ctx_images p ctx)"
    and "\<exists>h. (\<forall>t \<in> set ts. has_height h t) \<and> ctx_height (Suc h) ctx"
    and "left_items ((p, ls, lk, rk, rs) # ctx) @ items t1 @ (sep, None) # items t2 @ right_items ((p, ls, lk, rk, rs) # ctx)
      = left_items ctx @ weave (map items ts) ks @ right_items ctx"
    and "left_leaves ((p, ls, lk, rk, rs) # ctx) @ leaves t1 @ leaves t2 @ right_leaves ((p, ls, lk, rk, rs) # ctx)
      = left_leaves ctx @ concat (map leaves ts) @ right_leaves ctx"
    and "keyed (concat (map images ts)) \<and> keyed (ctx_images p ctx)"
proof -
  let ?x = "InnerNode (map root_page ls @ root_page t1 # map root_page rs) (lk @ rk)"
  have shape: "length ls = length lk" "length rs = length rk" "ctx_shape ctx" and sep: "key_ok c sep"
    using assms(1) by (simp_all add: pending_def)
  have P: "pages_ok c pg n (images t1 @ images t2 @ ctx_images (root_page t1) ((p, ls, lk, rk, rs) # ctx))"
    using assms(1) by (simp add: pending_def)
  have mem: "(p, ?x) \<in> set (images t1 @ images t2 @ ctx_images (root_page t1) ((p, ls, lk, rk, rs) # ctx))" by simp
  note X = pages_okD [OF P mem]
  show "p < n" "node_type (pg p) = Inr PT_BTREE_INTERNAL"
    "read_internal c (pg p) = Inr (map root_page ls @ root_page t1 # map root_page rs, lk @ rk)" using X by simp_all
  have fit: "internal_fits c (map root_page ls @ root_page t1 # map root_page rs) (lk @ rk)" using X(1) by simp
  show "length ts = Suc (length ks)" "length ks \<le> Suc (bc_max_internal_keys c)"
    "\<forall>k \<in> set ks. key_ok c k" using fit sep shape by (auto simp: internal_fits_def ts_def ks_def)
  have "root_page t2 < n" using images_head [of t2] pages_okD(3) [OF P] by fastforce
  then show "\<forall>t \<in> set ts. root_page t < 2 ^ 32"
    using fit assms(2) by (auto simp: internal_fits_def ts_def INVALID_PAGE_ID_def)
  have "root_page t1 \<noteq> root_page t" if "t \<in> set ls" for t
  proof -
    obtain x y where "(root_page t1, x) \<in> set (images t1)" "(root_page t, y) \<in> set (images t)"
      using root_image [of t1] root_image [of t] by blast
    with pages_ok_differ [OF P, of "(root_page t1, x)" "(root_page t, y)"] that show ?thesis by auto
  qed
  then have "root_page t1 \<notin> set (map root_page ls)" by auto
  then show "list_index (root_page t1) (map root_page ls @ root_page t1 # map root_page rs) = Inr (length ls)"
    using list_index_split [of "root_page t1" "map root_page ls"] by simp
  show "insert_at (length ls + 1) (root_page t2) (map root_page ls @ root_page t1 # map root_page rs) = map root_page ts"
    using insert_at_append [of "map root_page ls @ [root_page t1]" "root_page t2" "map root_page rs"] by (simp add: ts_def)
  show "insert_at (length ls) sep (lk @ rk) = ks" using insert_at_append [of lk sep rk] shape by (simp add: ks_def)
  show "pages_ok c pg n ((p, ?x) # concat (map images ts) @ ctx_images p ctx)"
    using P by (subst pages_ok_mset [of _ "images t1 @ images t2 @ ctx_images (root_page t1) ((p, ls, lk, rk, rs) # ctx)"])
      (simp_all add: ts_def)
  show "\<exists>h. (\<forall>t \<in> set ts. has_height h t) \<and> ctx_height (Suc h) ctx"
    using assms(1) by (auto simp: pending_def ts_def)
  have "weave (map items ts) ks = left_seg (map items ls) lk @ items t1 @ right_seg (sep # rk) (map items (t2 # rs))"
    using weave_split [of "map items ls" lk "map items (t2 # rs)" "sep # rk" "items t1"] shape by (simp add: ts_def ks_def)
  then show "left_items ((p, ls, lk, rk, rs) # ctx) @ items t1 @ (sep, None) # items t2 @ right_items ((p, ls, lk, rk, rs) # ctx)
      = left_items ctx @ weave (map items ts) ks @ right_items ctx" by (simp add: right_seg_def)
  show "left_leaves ((p, ls, lk, rk, rs) # ctx) @ leaves t1 @ leaves t2 @ right_leaves ((p, ls, lk, rk, rs) # ctx)
      = left_leaves ctx @ concat (map leaves ts) @ right_leaves ctx" by (simp add: ts_def)
  show "keyed (concat (map images ts)) \<and> keyed (ctx_images p ctx)"
    using assms(1) by (auto simp: pending_def ts_def)
qed

lemma pending_done:
  assumes step: "pending c pg n ((p, ls, lk, rk, rs) # ctx) t1 sep t2" and n: "n \<le> INVALID_PAGE_ID"
    and fit: "length (lk @ sep # rk) \<le> bc_max_internal_keys c"
    and d: "node_holds c d (InnerNode (map root_page (ls @ t1 # t2 # rs)) (lk @ sep # rk))"
  shows "tree_inv c (pg(p := d)) n (plug (Node p (ls @ t1 # t2 # rs) (lk @ sep # rk)) ctx)"
    and "keyed (images (plug (Node p (ls @ t1 # t2 # rs) (lk @ sep # rk)) ctx))"
proof -
  let ?ts = "ls @ t1 # t2 # rs" and ?ks = "lk @ sep # rk"
  note S = pending_step [OF step n]
  have fits: "node_fits c (InnerNode (map root_page ?ts) ?ks)"
    using S(7,8,9) fit by (auto simp: internal_fits_def)
  have shape: "ctx_shape ctx" using step by (simp add: pending_def)
  have "pages_ok c (pg(p := d)) n ((p, InnerNode (map root_page ?ts) ?ks) # concat (map images ?ts) @ ctx_images p ctx)"
    by (rule pages_ok_update [OF S(11) fits d])
  moreover have "\<exists>h. has_height h (Node p ?ts ?ks) \<and> ctx_height h ctx" unfolding has_height_Node using S(12) by blast
  moreover have "sorted_wrt before (left_items ctx @ weave (map items ?ts) ?ks @ right_items ctx)"
    unfolding S(13) [symmetric] using step by (simp add: pending_def)
  moreover have "linked (left_leaves ctx @ concat (map leaves ?ts) @ right_leaves ctx)"
    unfolding S(14) [symmetric] using step by (simp add: pending_def)
  ultimately show "tree_inv c (pg(p := d)) n (plug (Node p ?ts ?ks) ctx)"
    unfolding tree_inv_plug [OF shape] images.simps items.simps leaves.simps root_page.simps by (simp only: append_Cons)
  show "keyed (images (plug (Node p ?ts ?ks) ctx))" unfolding keyed_plug using S(15) by auto
qed

lemma pending_split:
  assumes step: "pending c pg n ((p, ls, lk, rk, rs) # ctx) t1 sep t2" and n: "Suc n \<le> INVALID_PAGE_ID"
    and over: "bc_max_internal_keys c < length (lk @ sep # rk)" and c: "conf_ok c"
  defines "ts \<equiv> ls @ t1 # t2 # rs" and "ks \<equiv> lk @ sep # rk"
  defines "m \<equiv> length ks div 2"
  shows "node_fits c (InnerNode (map root_page (take (Suc m) ts)) (take m ks))"
    and "node_fits c (InnerNode (map root_page (drop (Suc m) ts)) (drop (Suc m) ks))"
    and "node_holds c d1 (InnerNode (map root_page (take (Suc m) ts)) (take m ks)) \<Longrightarrow>
      node_holds c d2 (InnerNode (map root_page (drop (Suc m) ts)) (drop (Suc m) ks)) \<Longrightarrow>
      pending c (pg(n := d2, p := d1)) (Suc n) ctx (Node p (take (Suc m) ts) (take m ks)) (ks ! m) (Node n (drop (Suc m) ts) (drop (Suc m) ks))"
    and "left_items ctx @ items (Node p (take (Suc m) ts) (take m ks)) @ (ks ! m, None) # items (Node n (drop (Suc m) ts) (drop (Suc m) ks)) @ right_items ctx
      = left_items ((p, ls, lk, rk, rs) # ctx) @ items t1 @ (sep, None) # items t2 @ right_items ((p, ls, lk, rk, rs) # ctx)"
proof -
  have n': "n \<le> INVALID_PAGE_ID" using n by simp
  note S = pending_step [OF step n', folded ts_def ks_def]
  have m: "m < length ks" "0 < m" "Suc m \<le> length ts" using over S(9) conf_okD(3) [OF c] by (simp_all add: m_def ks_def)
  have short: "length ks \<le> Suc (bc_max_internal_keys c)" by (rule S(10))
  show f1: "node_fits c (InnerNode (map root_page (take (Suc m) ts)) (take m ks))"
    using S(7,8,9) m short by (auto simp: internal_fits_def dest: in_set_takeD)
  show f2: "node_fits c (InnerNode (map root_page (drop (Suc m) ts)) (drop (Suc m) ks))"
    using S(7,8,9) m short by (auto simp: internal_fits_def dest: in_set_dropD)
  have w: "weave (map items ts) ks = weave (map items (take (Suc m) ts)) (take m ks) @ (ks ! m, None) # weave (map items (drop (Suc m) ts)) (drop (Suc m) ks)"
    using weave_cut [of "map items ts" ks m] S(9) m by (simp add: take_map drop_map)
  show items: "left_items ctx @ items (Node p (take (Suc m) ts) (take m ks)) @ (ks ! m, None) # items (Node n (drop (Suc m) ts) (drop (Suc m) ks)) @ right_items ctx
      = left_items ((p, ls, lk, rk, rs) # ctx) @ items t1 @ (sep, None) # items t2 @ right_items ((p, ls, lk, rk, rs) # ctx)"
    unfolding S(13) w by simp
  assume d: "node_holds c d1 (InnerNode (map root_page (take (Suc m) ts)) (take m ks))"
    "node_holds c d2 (InnerNode (map root_page (drop (Suc m) ts)) (drop (Suc m) ks))"
  let ?x1 = "(p, InnerNode (map root_page (take (Suc m) ts)) (take m ks))" and ?x2 = "(n, InnerNode (map root_page (drop (Suc m) ts)) (drop (Suc m) ks))"
  have split: "concat (map f ts) = concat (map f (take (Suc m) ts)) @ concat (map f (drop (Suc m) ts))" for f :: "tree \<Rightarrow> 'b list"
    by (metis append_take_drop_id concat_append map_append)
  let ?old = "(p, InnerNode (map root_page ls @ root_page t1 # map root_page rs) (lk @ rk))"
  have "pages_ok c (pg(n := d2)) (Suc n) (?x2 # ?old # concat (map images ts) @ ctx_images p ctx)"
    by (rule pages_ok_grow [OF S(11) f2 d(2)])
  then have "pages_ok c (pg(n := d2)) (Suc n) (?old # ?x2 # concat (map images ts) @ ctx_images p ctx)"
    by (subst pages_ok_mset [of _ "?x2 # ?old # concat (map images ts) @ ctx_images p ctx"]) simp_all
  from pages_ok_update [OF this f1 d(1)]
  have P: "pages_ok c (pg(n := d2, p := d1)) (Suc n) (?x1 # ?x2 # concat (map images ts) @ ctx_images p ctx)" .
  have "pages_ok c (pg(n := d2, p := d1)) (Suc n) (images (Node p (take (Suc m) ts) (take m ks))
      @ images (Node n (drop (Suc m) ts) (drop (Suc m) ks)) @ ctx_images p ctx)"
    using P by (subst pages_ok_mset [of _ "?x1 # ?x2 # concat (map images ts) @ ctx_images p ctx"]) (simp_all add: split)
  moreover obtain h where "\<forall>t \<in> set ts. has_height h t" "ctx_height (Suc h) ctx" using S(12) by blast
  then have "\<exists>h. has_height h (Node p (take (Suc m) ts) (take m ks)) \<and> has_height h (Node n (drop (Suc m) ts) (drop (Suc m) ks)) \<and> ctx_height h ctx"
    by (intro exI [of _ "Suc h"]) (auto dest: in_set_takeD in_set_dropD)
  moreover have "linked (left_leaves ctx @ concat (map leaves ts) @ right_leaves ctx)"
    unfolding S(14) [symmetric] using step by (simp add: pending_def)
  then have "linked (left_leaves ctx @ leaves (Node p (take (Suc m) ts) (take m ks)) @ leaves (Node n (drop (Suc m) ts) (drop (Suc m) ks)) @ right_leaves ctx)"
    unfolding split [of leaves] by simp
  moreover have "sorted_wrt before (left_items ctx @ items (Node p (take (Suc m) ts) (take m ks)) @ (ks ! m, None) # items (Node n (drop (Suc m) ts) (drop (Suc m) ks)) @ right_items ctx)"
    unfolding items using step by (simp add: pending_def)
  moreover have "ctx_shape ctx" "key_ok c (ks ! m)" using step S(7) m by (simp_all add: pending_def)
  moreover have "keyed (images (Node p (take (Suc m) ts) (take m ks)) @ images (Node n (drop (Suc m) ts) (drop (Suc m) ks)) @ ctx_images p ctx)"
  proof -
    have "4 < length ks" using over conf_okD(3) [OF c] by (simp add: ks_def)
    then show ?thesis using S(15) m by (auto simp: m_def dest: in_set_takeD in_set_dropD)
  qed
  ultimately show "pending c (pg(n := d2, p := d1)) (Suc n) ctx (Node p (take (Suc m) ts) (take m ks)) (ks ! m) (Node n (drop (Suc m) ts) (drop (Suc m) ks))"
    unfolding pending_def by (simp only: root_page.simps)
qed

lemma pending_root:
  assumes step: "pending c pg n [] t1 sep t2" and n: "n \<le> INVALID_PAGE_ID" and c: "conf_ok c"
  shows "node_fits c (InnerNode [root_page t1, root_page t2] [sep])"
    and "node_holds c d (InnerNode [root_page t1, root_page t2] [sep]) \<Longrightarrow>
      tree_inv c (pg(n := d)) (Suc n) (Node n [t1, t2] [sep])"
    and "keyed (images (Node n [t1, t2] [sep]))"
proof -
  show "keyed (images (Node n [t1, t2] [sep]))" using step by (simp add: pending_def)
  have P: "pages_ok c pg n (images t1 @ images t2)" and sep: "key_ok c sep" using step by (simp_all add: pending_def)
  have "root_page t1 < n" "root_page t2 < n" using images_head [of t1] images_head [of t2] pages_okD(3) [OF P] by fastforce+
  then show f: "node_fits c (InnerNode [root_page t1, root_page t2] [sep])"
    using n sep conf_okD(3) [OF c] by (auto simp: internal_fits_def INVALID_PAGE_ID_def)
  assume "node_holds c d (InnerNode [root_page t1, root_page t2] [sep])"
  from pages_ok_grow [OF P f this] show "tree_inv c (pg(n := d)) (Suc n) (Node n [t1, t2] [sep])"
    using step by (auto simp: tree_inv_def pending_def has_height_Node simp del: has_height.simps(2))
qed

text \<open>
  The recursion up the ancestors. The state of the tree object is written as an update of the
  one at the start.
\<close>

lemma insert_into_parent_spec:
  assumes "pending c (v_page V) (v_count V) ctx t1 sep t2" and "at_view {} V (bt_pool t)" and "2 \<le> v_avail V"
    and "v_count V + length ctx < INVALID_PAGE_ID" and "conf_ok c" and "bt_root t = root_page (plug t1 ctx)"
    and "\<And>T V' b. tree_inv c (v_page V') (v_count V') T \<Longrightarrow>
      items T = left_items ctx @ items t1 @ (sep, None) # items t2 @ right_items ctx \<Longrightarrow> at_view {} V' b \<Longrightarrow>
      evolves (fst ` set ctx) V V' \<Longrightarrow> v_count V' \<le> v_count V + length ctx + 1 \<Longrightarrow> keyed (images T) \<Longrightarrow>
      set (pages T) \<subseteq> set (pages t1) \<union> set (pages t2) \<union> fst ` set (ctx_images (root_page t1) ctx) \<union> {v_count V..} \<Longrightarrow>
      Q () (t\<lparr>bt_pool := b, bt_root := root_page T\<rparr>)"
  shows "wp (insert_into_parent c (rev (map fst ctx)) (root_page t1) sep (root_page t2)) Q E t"
  using assms(1-4,6,7)
proof (induction ctx arbitrary: V t1 sep t2 t)
  case Nil
  have n: "v_count V \<le> INVALID_PAGE_ID" using Nil.prems(4) by simp
  note R = pending_root [OF Nil.prems(1) n assms(5)]
  have "wp new_page (\<lambda>p. wp (write_buf p (node_code c (InnerNode [root_page t1, root_page t2] [sep])))
      (\<lambda>_. wp (unpin_page p True) (\<lambda>_ b. Q () (t\<lparr>bt_pool := b, bt_root := p\<rparr>)) E') E') E' (bt_pool t)" for E'
  proof (rule wp_fresh [OF Nil.prems(2) _ assms(5) R(1)])
    fix d b assume d: "node_holds c d (InnerNode [root_page t1, root_page t2] [sep])" and b: "at_view {} (view_grow d V) b"
    have "Q () (t\<lparr>bt_pool := b, bt_root := root_page (Node (v_count V) [t1, t2] [sep])\<rparr>)"
      by (rule Nil.prems(6) [where V' = "view_grow d V"]) (use R(2) [OF d] R(3) b in \<open>simp_all add: evolves_grow fun_upd_def\<close>)
    then show "Q () (t\<lparr>bt_pool := b, bt_root := v_count V\<rparr>)" by simp
  qed (use Nil.prems(3) in simp)
  then show ?case
    by (simp add: insert_into_parent.simps [of c "[]"] wp_fun wp_on_tree wp_modify)
next
  case (Cons f ctx)
  obtain p ls lk rk rs where f: "f = (p, ls, lk, rk, rs)" by (cases f)
  let ?ts = "ls @ t1 # t2 # rs" and ?ks = "lk @ sep # rk" and ?n = "v_count V"
  let ?old = "(map root_page ls @ root_page t1 # map root_page rs, lk @ rk)"
  have n: "?n \<le> INVALID_PAGE_ID" "Suc ?n \<le> INVALID_PAGE_ID" using Cons.prems(4) by simp_all
  note step = Cons.prems(1) [unfolded f]
  note S = pending_step [OF step n(1)]
  let ?m = "length ?ks div 2"
  have parent: "rev (map fst (f # ctx)) \<noteq> []" "last (rev (map fst (f # ctx))) = p" "butlast (rev (map fst (f # ctx))) = rev (map fst ctx)"
    by (simp_all add: f)
  have root: "root_page (plug t' ctx) = bt_root t" if "root_page t' = p" for t'
    using Cons.prems(5) that by (auto simp: f root_page_plug)
  have avail: "0 < v_avail V" "0 < v_avail (view_pin p V)" using Cons.prems(3) by (simp_all add: view_pin_def)
  have here: "p \<in> fst ` set (f # ctx)" by (simp add: f)
  have body: "wp (if length ?ks \<le> bc_max_internal_keys c then
        py_seq (on_tree (write_buf p (node_code c (InnerNode (map root_page ?ts) ?ks)))) (on_tree (unpin_page p True))
      else py_bind (on_tree new_page) (\<lambda>new_id.
        py_seq (on_tree (write_buf new_id (node_code c (InnerNode (map root_page (drop (Suc ?m) ?ts)) (drop (Suc ?m) ?ks)))))
       (py_seq (on_tree (unpin_page new_id True))
       (py_seq (on_tree (write_buf p (node_code c (InnerNode (map root_page (take (Suc ?m) ?ts)) (take ?m ?ks)))))
       (py_seq (on_tree (unpin_page p True))
          (insert_into_parent c (rev (map fst ctx)) p (?ks ! ?m) new_id)))))) Q E (t\<lparr>bt_pool := b\<rparr>)"
    if b: "at_view {} (view_pin p V) b" for b
  proof (cases "length ?ks \<le> bc_max_internal_keys c")
    case True
    have fits: "node_fits c (InnerNode (map root_page ?ts) ?ks)" using S(7,8,9) True by (auto simp: internal_fits_def)
    have "wp (write_buf p (node_code c (InnerNode (map root_page ?ts) ?ks))) (\<lambda>_. wp (unpin_page p True) (\<lambda>x b. Q x (t\<lparr>bt_pool := b\<rparr>)) E') E' b" for E'
    proof (rule wp_store [OF b _ S(1) avail(1) assms(5) fits])
      fix d b' assume d: "node_holds c d (InnerNode (map root_page ?ts) ?ks)" and b': "at_view {} (view_write p d V) b'"
      have items: "items (plug (Node p ?ts ?ks) ctx) = left_items (f # ctx) @ items t1 @ (sep, None) # items t2 @ right_items (f # ctx)"
        unfolding f S(13) using step by (simp add: items_plug pending_def)
      have own: "set (pages (plug (Node p ?ts ?ks) ctx)) \<subseteq> set (pages t1) \<union> set (pages t2) \<union> fst ` set (ctx_images (root_page t1) (f # ctx)) \<union> {v_count V..}"
        unfolding plug_pages by (auto simp: f)
      have "Q () (t\<lparr>bt_pool := b', bt_root := bt_root t\<rparr>)"
        using Cons.prems(6) [OF _ items b' evolves_write [OF here]] pending_done [OF step n(1) True d] own evolves_write [OF here] root [of "Node p ?ts ?ks"]
        by (simp add: fun_upd_def)
      then show "Q () (t\<lparr>bt_pool := b'\<rparr>)" by simp
    qed simp
    then show ?thesis using True by (simp add: wp_fun wp_on_tree)
  next
    case False
    then have over: "bc_max_internal_keys c < length ?ks" by simp
    note P = pending_split [OF step n(2) over assms(5)]
    have "wp new_page (\<lambda>q. wp (write_buf q (node_code c (InnerNode (map root_page (drop (Suc ?m) ?ts)) (drop (Suc ?m) ?ks))))
      (\<lambda>_. wp (unpin_page q True) (\<lambda>_ b. wp (write_buf p (node_code c (InnerNode (map root_page (take (Suc ?m) ?ts)) (take ?m ?ks))))
        (\<lambda>_. wp (unpin_page p True) (\<lambda>_ b. wp (insert_into_parent c (rev (map fst ctx)) p (?ks ! ?m) q) Q E (t\<lparr>bt_pool := b\<rparr>)) E') E' b) E') E') E' b" for E'
    proof (rule wp_fresh [OF b avail(2) assms(5) P(2)])
      fix d2 b1 assume d2: "node_holds c d2 (InnerNode (map root_page (drop (Suc ?m) ?ts)) (drop (Suc ?m) ?ks))"
        and "at_view {} (view_grow d2 (view_pin p V)) b1"
      then have b1: "at_view {} (view_pin p (view_grow d2 V)) b1" by (simp add: view_grow_pin)
      show "wp (write_buf p (node_code c (InnerNode (map root_page (take (Suc ?m) ?ts)) (take ?m ?ks))))
        (\<lambda>_. wp (unpin_page p True) (\<lambda>_ b. wp (insert_into_parent c (rev (map fst ctx)) p (?ks ! ?m) (v_count (view_pin p V))) Q E (t\<lparr>bt_pool := b\<rparr>)) E') E' b1"
      proof (rule wp_store [OF b1 _ _ _ assms(5) P(1)])
        fix d1 b2 assume d1: "node_holds c d1 (InnerNode (map root_page (take (Suc ?m) ?ts)) (take ?m ?ks))"
          and b2: "at_view {} (view_write p d1 (view_grow d2 V)) b2"
        let ?V = "view_write p d1 (view_grow d2 V)"
        let ?t1 = "Node p (take (Suc ?m) ?ts) (take ?m ?ks)" and ?t2 = "Node ?n (drop (Suc ?m) ?ts) (drop (Suc ?m) ?ks)"
        have e1: "evolves (fst ` set (f # ctx)) V ?V"
          by (rule evolves_trans [OF evolves_grow evolves_write [OF here]]) simp
        have "wp (insert_into_parent c (rev (map fst ctx)) (root_page ?t1) (?ks ! ?m) (root_page ?t2)) Q E (t\<lparr>bt_pool := b2\<rparr>)"
        proof (rule Cons.IH [where V = ?V])
          show "pending c (v_page ?V) (v_count ?V) ctx ?t1 (?ks ! ?m) ?t2" using P(3) [OF d1 d2] by simp
          fix T V' b assume T: "tree_inv c (v_page V') (v_count V') T"
            "items T = left_items ctx @ items ?t1 @ (?ks ! ?m, None) # items ?t2 @ right_items ctx"
            "at_view {} V' b" "evolves (fst ` set ctx) ?V V'" "v_count V' \<le> v_count ?V + length ctx + 1" "keyed (images T)"
            "set (pages T) \<subseteq> set (pages ?t1) \<union> set (pages ?t2) \<union> fst ` set (ctx_images (root_page ?t1) ctx) \<union> {v_count ?V..}"
          have "set (pages T) \<subseteq> set (pages t1) \<union> set (pages t2) \<union> fst ` set (ctx_images (root_page t1) (f # ctx)) \<union> {v_count V..}"
          proof -
            have "set (pages T) \<subseteq> insert p (insert ?n (\<Union>t \<in> set ?ts. set (pages t))) \<union> fst ` set (ctx_images p ctx) \<union> {?n..}"
              by (rule order_trans [OF T(7) [unfolded cut_pages root_page.simps]]) auto
            then show ?thesis unfolding f ctx_pages_Cons by (rule order_trans) auto
          qed
          moreover have "evolves (fst ` set (f # ctx)) V V'" by (rule evolves_trans [OF e1 T(4)]) auto
          ultimately show "Q () (t\<lparr>bt_pool := b2, bt_pool := b, bt_root := root_page T\<rparr>)"
            using Cons.prems(6) [OF T(1) _ T(3)] T(2,5,6) P(4) by (simp add: f)
        qed (use Cons.prems(3,4) b2 root [of ?t1] in simp_all)
        then show "wp (insert_into_parent c (rev (map fst ctx)) p (?ks ! ?m) (v_count (view_pin p V))) Q E (t\<lparr>bt_pool := b2\<rparr>)" by simp
      qed (use S(1) avail(1) in simp_all)
    qed
    then show ?thesis using False by (simp add: wp_fun wp_on_tree)
  qed
  show ?case
    unfolding insert_into_parent.simps [of c "rev (map fst (f # ctx))"] if_not_P [OF parent(1)] parent(2,3) Let_def wp_fun wp_on_tree [of _ _ _ t] wp_on_tree_next
  proof (rule wp_fetch_at [OF Cons.prems(2) S(1) avail(1)], rule wp_read_at [where x = ?old])
    fix b assume b: "at_view {} (view_pin p V) b"
    then show "at_view {} (view_pin p V) b" .
    show "wp (case ?old of (children0, keys0) \<Rightarrow> py_bind (py_lift (list_index (root_page t1) children0)) (\<lambda>idx.
        if length (insert_at idx sep keys0) \<le> bc_max_internal_keys c
        then py_seq (on_tree (write_buf p (write_internal c (insert_at (idx + 1) (root_page t2) children0) (insert_at idx sep keys0))))
               (on_tree (unpin_page p True))
        else py_bind (on_tree new_page) (\<lambda>new_id.
          py_seq (on_tree (write_buf new_id (write_internal c
              (drop (length (insert_at idx sep keys0) div 2 + 1) (insert_at (idx + 1) (root_page t2) children0))
              (drop (length (insert_at idx sep keys0) div 2 + 1) (insert_at idx sep keys0)))))
         (py_seq (on_tree (unpin_page new_id True))
         (py_seq (on_tree (write_buf p (write_internal c
              (take (length (insert_at idx sep keys0) div 2 + 1) (insert_at (idx + 1) (root_page t2) children0))
              (take (length (insert_at idx sep keys0) div 2) (insert_at idx sep keys0)))))
         (py_seq (on_tree (unpin_page p True))
            (insert_into_parent c (rev (map fst ctx)) p (insert_at idx sep keys0 ! (length (insert_at idx sep keys0) div 2)) new_id))))))) Q E (t\<lparr>bt_pool := b\<rparr>)"
      using body [OF b] unfolding prod.case wp_fun(1) S(4) wp_lift_Inr S(5,6) node_code.simps
      by (simp only: Suc_eq_plus1 take_map drop_map)
  qed (use S(3) in simp_all)
qed

section \<open>Splitting a leaf\<close>

lemma run_length_takeWhile:
  assumes "key_ok c x" and "\<forall>y \<in> set ys. key_ok c y"
  shows "run_length x ys = length (takeWhile (\<lambda>y. y = x) ys)"
  using assms(2) by (induction ys) (use key_ok_compare(2) [OF _ assms(1)] in auto)

text \<open>
  The split point separates different keys; there is none exactly if all keys are equal.
\<close>

lemma split_point_ok:
  assumes "\<forall>y \<in> set ks. key_ok c y" and "sorted ks" and "2 \<le> length ks"
  shows "case split_point ks of
      Inr m \<Rightarrow> 0 < m \<and> m < length ks \<and> ks ! (m - 1) < ks ! m
    | Inl e \<Rightarrow> e = ValueError \<and> ks = replicate (length ks) (ks ! 0)"
proof -
  let ?n = "length ks" and ?mid = "length ks div 2"
  let ?x = "ks ! (?mid - 1)"
  have mid: "0 < ?mid" "?mid < ?n" "?mid - 1 < ?n" using assms(3) by auto
  have ok: "key_ok c ?x" "key_ok c (ks ! ?mid)" using assms(1) mid by auto
  define i where "i = ?mid + length (takeWhile (\<lambda>y. y = ?x) (drop ?mid ks))"
  define j where "j = (?mid - 1) - length (takeWhile (\<lambda>y. y = ?x) (rev (take (?mid - 1) ks)))"
  have runs: "run_length ?x (drop ?mid ks) = length (takeWhile (\<lambda>y. y = ?x) (drop ?mid ks))"
    "run_length ?x (rev (take (?mid - 1) ks)) = length (takeWhile (\<lambda>y. y = ?x) (rev (take (?mid - 1) ks)))"
    using run_length_takeWhile [OF ok(1), of "drop ?mid ks"] run_length_takeWhile [OF ok(1), of "rev (take (?mid - 1) ks)"]
      assms(1) by (auto dest: in_set_dropD in_set_takeD)
  have sp: "split_point ks = (if ks ! ?mid \<noteq> ?x then Inr ?mid else if i < ?n then Inr i else if 0 < j then Inr j else Inl ValueError)"
  proof -
    have "length ks \<noteq> 0" "?mid \<noteq> 0" using mid by auto
    then show ?thesis unfolding split_point_def Let_def i_def j_def
      by (simp only: if_False key_ok_compare(2) [OF ok(2,1)] runs)
  qed
  have step: "ks ! (m - 1) < ks ! m" if "0 < m" "m < ?n" "ks ! (m - 1) \<noteq> ks ! m" for m
    using sorted_nth_mono [OF assms(2), of "m - 1" m] that by auto
  have fwd: "ks ! a = ?x" if "?mid \<le> a" "a < i" for a
  proof -
    have "a - ?mid < length (takeWhile (\<lambda>y. y = ?x) (drop ?mid ks))" using that unfolding i_def by linarith
    then have "drop ?mid ks ! (a - ?mid) = ?x" by (metis (mono_tags, lifting) nth_mem set_takeWhileD takeWhile_nth)
    then show ?thesis using that mid by simp
  qed
  have bwd: "ks ! a = ?x" if "j \<le> a" "a < ?mid - 1" for a
  proof -
    let ?r = "rev (take (?mid - 1) ks)"
    have len: "length ?r = ?mid - 1" using mid by simp
    have "?mid - 2 - a < length (takeWhile (\<lambda>y. y = ?x) ?r)"
      using that length_takeWhile_le [of "\<lambda>y. y = ?x" ?r] len by (simp add: j_def) linarith
    then have "?r ! (?mid - 2 - a) = ?x" by (metis (mono_tags, lifting) nth_mem set_takeWhileD takeWhile_nth)
    moreover have "?r ! (?mid - 2 - a) = take (?mid - 1) ks ! (?mid - 1 - Suc (?mid - 2 - a))"
      using len that mid by (subst rev_nth) simp_all
    moreover have "?mid - 1 - Suc (?mid - 2 - a) = a" using that by linarith
    ultimately show ?thesis using that by simp
  qed
  consider "ks ! ?mid \<noteq> ?x" | "ks ! ?mid = ?x" "i < ?n" | "ks ! ?mid = ?x" "\<not> i < ?n" "0 < j" | "ks ! ?mid = ?x" "\<not> i < ?n" "j = 0" by auto
  then show ?thesis
  proof cases
    case 1
    with sp step [of ?mid] mid show ?thesis by simp
  next
    case 2
    have "length (takeWhile (\<lambda>y. y = ?x) (drop ?mid ks)) < length (drop ?mid ks)" using 2(2) by (simp add: i_def)
    from nth_length_takeWhile [OF this] have "ks ! i \<noteq> ?x" using mid by (simp add: i_def)
    moreover have "drop ?mid ks = ks ! ?mid # drop (Suc ?mid) ks" using mid by (simp add: Cons_nth_drop_Suc)
    then have "?mid < i" using 2(1) by (simp add: i_def)
    with fwd [of "i - 1"] have "ks ! (i - 1) = ?x" by auto
    ultimately show ?thesis using sp 2 step [of i] \<open>?mid < i\<close> by simp
  next
    case 3
    let ?r = "rev (take (?mid - 1) ks)"
    let ?l = "length (takeWhile (\<lambda>y. y = ?x) ?r)"
    have len: "length ?r = ?mid - 1" using mid by simp
    have lt: "?l < length ?r" using 3(3) len unfolding j_def by linarith
    have "?r ! ?l = take (?mid - 1) ks ! (?mid - 1 - Suc ?l)" using len lt by (subst rev_nth) simp_all
    also have "\<dots> = ks ! (?mid - 1 - Suc ?l)" using lt len by (intro nth_take) linarith
    also have "?mid - 1 - Suc ?l = j - 1" unfolding j_def by linarith
    finally have "ks ! (j - 1) \<noteq> ?x" using nth_length_takeWhile [OF lt] by simp
    moreover have "j \<le> ?mid - 1" by (simp add: j_def)
    then have "ks ! j = ?x" using bwd [of j] by (cases "j = ?mid - 1") auto
    ultimately show ?thesis using sp 3 step [of j] mid \<open>j \<le> ?mid - 1\<close> by simp
  next
    case 4
    have all: "ks ! a = ?x" if "a < ?n" for a
      using fwd [of a] bwd [of a] that 4(2,3) by (cases "a < ?mid - 1"; cases "a = ?mid - 1") auto
    have rep: "ks = replicate ?n (ks ! 0)"
    proof (rule nth_equalityI)
      fix a assume a: "a < length ks"
      have "ks ! 0 = ?x" using mid by (intro all) linarith
      then have "ks ! a = ks ! 0" using all [OF a] by (rule trans [OF _ sym, rotated])
      then show "ks ! a = replicate ?n (ks ! 0) ! a" using nth_replicate [OF a, of "ks ! 0"] by (rule trans [OF _ sym])
    qed simp
    have err: "split_point ks = Inl ValueError" using sp 4 by simp
    show ?thesis unfolding err sum.case by (rule conjI [OF refl rep])
  qed
qed

text \<open>The chain of the leaves when one of them is replaced or split.\<close>

fun links :: "(nat \<times> entry list \<times> nat) list \<Rightarrow> nat \<Rightarrow> bool" where
  "links [] q = True"
| "links ((p, es, nx) # ls) q = (nx = (if ls = [] then q else first_leaf ls) \<and> links ls q)"

lemma linked_append_iff: "linked (xs @ ys) \<longleftrightarrow> links xs (first_leaf ys) \<and> linked ys"
proof (induction xs)
  case (Cons x xs)
  obtain p es nx where x: "x = (p, es, nx)" by (cases x)
  have "first_leaf (xs @ ys) = (if xs = [] then first_leaf ys else first_leaf xs)" by (cases xs rule: first_leaf.cases) auto
  with Cons show ?case by (auto simp: x linked_Cons)
qed simp

lemma linked_replace: "linked (xs @ (p, es, nx) # ys) \<Longrightarrow> linked (xs @ (p, es', nx) # ys)"
  by (simp add: linked_append_iff linked_Cons)

lemma linked_split: "linked (xs @ (p, es, nx) # ys) \<Longrightarrow> linked (xs @ (p, es', q) # (q, es'', nx) # ys)"
  by (simp add: linked_append_iff linked_Cons)

section \<open>The new entry in its leaf\<close>

definition insert_entry :: "pyval \<Rightarrow> rid \<Rightarrow> entry list \<Rightarrow> entry list" where
  "insert_entry k r es = takeWhile (\<lambda>e. fst e \<le> k) es @ (k, r) # dropWhile (\<lambda>e. fst e \<le> k) es"

lemma insert_at_map: "insert_at i (f x) (map f xs) = map f (insert_at i x xs)"
  by (simp add: insert_at_def take_map drop_map)

lemma insert_entry_at: "insert_at (length (takeWhile (\<lambda>y. y \<le> k) (map fst es))) (k, r) es = insert_entry k r es"
proof -
  have "length (takeWhile (\<lambda>y. y \<le> k) (map fst es)) = length (takeWhile (\<lambda>e. fst e \<le> k) es)"
    by (simp add: takeWhile_map comp_def)
  then show ?thesis unfolding insert_at_def insert_entry_def
    by (metis takeWhile_eq_take dropWhile_eq_drop)
qed

lemma insert_entry_set [simp]: "set (insert_entry k r es) = insert (k, r) (set es)"
proof -
  have "set (takeWhile (\<lambda>e. fst e \<le> k) es) \<union> set (dropWhile (\<lambda>e. fst e \<le> k) es) = set es"
    by (metis set_append takeWhile_dropWhile_id)
  then show ?thesis by (auto simp: insert_entry_def)
qed

lemma length_insert_entry [simp]: "length (insert_entry k r es) = Suc (length es)"
proof -
  have "length (takeWhile (\<lambda>e. fst e \<le> k) es) + length (dropWhile (\<lambda>e. fst e \<le> k) es) = length es"
    by (metis length_append takeWhile_dropWhile_id)
  then show ?thesis by (simp add: insert_entry_def)
qed

lemma insert_entry_append:
  assumes "\<forall>e \<in> set xs. fst e < k" and "\<forall>e \<in> set zs. k < fst e"
  shows "insert_entry k r (xs @ ys @ zs) = xs @ insert_entry k r ys @ zs"
proof -
  have xs: "takeWhile (\<lambda>e. fst e \<le> k) (xs @ ws) = xs @ takeWhile (\<lambda>e. fst e \<le> k) ws"
    "dropWhile (\<lambda>e. fst e \<le> k) (xs @ ws) = dropWhile (\<lambda>e. fst e \<le> k) ws" for ws
    using assms(1) by (simp_all add: less_imp_le)
  have zs: "takeWhile (\<lambda>e. fst e \<le> k) zs = []" "dropWhile (\<lambda>e. fst e \<le> k) zs = zs"
    using assms(2) by (cases zs; simp add: not_le)+
  have "takeWhile (\<lambda>e. fst e \<le> k) (ys @ zs) = takeWhile (\<lambda>e. fst e \<le> k) ys"
    "dropWhile (\<lambda>e. fst e \<le> k) (ys @ zs) = dropWhile (\<lambda>e. fst e \<le> k) ys @ zs"
    using zs by (induction ys) simp_all
  then show ?thesis unfolding insert_entry_def xs by simp
qed

lemma sorted_wrt_between:
  "sorted_wrt R (xs @ ys) \<Longrightarrow> (\<And>x. x \<in> set xs \<Longrightarrow> R x z) \<Longrightarrow> (\<And>y. y \<in> set ys \<Longrightarrow> R z y) \<Longrightarrow> sorted_wrt R (xs @ z # ys)"
  by (auto simp: sorted_wrt_append)

lemma insert_entry_items:
  assumes srt: "sorted_wrt before (left_items ctx @ entry_items es @ right_items ctx)" and ctx: "ctx_shape ctx" "ctx_key k ctx"
  shows "sorted_wrt before (left_items ctx @ entry_items (insert_entry k r es) @ right_items ctx)"
proof -
  let ?a = "takeWhile (\<lambda>e. fst e \<le> k) es" and ?b = "dropWhile (\<lambda>e. fst e \<le> k) es"
  have es: "entry_items es = entry_items ?a @ entry_items ?b"
    by (metis entry_items_def map_append takeWhile_dropWhile_id)
  have L: "sorted_wrt before (left_items ctx)" and R: "sorted_wrt before (right_items ctx)" and S: "sorted_wrt before (entry_items es)"
    using srt by (simp_all add: sorted_wrt_append)
  have b: "\<forall>e \<in> set ?b. k < fst e"
    using S unfolding before_entry_items by (induction es) auto
  have "before x (k, Some r)" if "x \<in> set (left_items ctx) \<union> set (entry_items ?a)" for x
    using that left_items_le [OF L ctx, of x] set_takeWhileD by (fastforce simp: before_def entry_items_def)
  moreover have "before (k, Some r) y" if "y \<in> set (entry_items ?b) \<union> set (right_items ctx)" for y
    using that right_items_greater [OF R ctx, of y] b by (fastforce simp: before_def entry_items_def)
  moreover have "entry_items (insert_entry k r es) = entry_items ?a @ (k, Some r) # entry_items ?b"
    by (simp add: insert_entry_def entry_items_def)
  ultimately show ?thesis using srt unfolding es by (auto simp: sorted_wrt_append)
qed

text \<open>The new leaf fits into its page, or it is split.\<close>

lemma leaf_stored:
  assumes inv: "tree_inv c pg n (plug (Leaf p es nx) ctx)" and ctx: "ctx_shape ctx" "ctx_key k ctx"
    and k: "key_ok c k" and r: "rid_ok r" and fit: "Suc (length es) \<le> bc_max_leaf_keys c"
  shows "node_fits c (LeafNode (insert_entry k r es) nx)"
    and "node_holds c d (LeafNode (insert_entry k r es) nx) \<Longrightarrow> tree_inv c (pg(p := d)) n (plug (Leaf p (insert_entry k r es) nx) ctx)"
proof -
  note L = leaf_focus [OF inv ctx(1)] and I = inv [unfolded tree_inv_plug [OF ctx(1)]]
  show f: "node_fits c (LeafNode (insert_entry k r es) nx)" using L k r fit by (auto simp: leaf_fits_def)
  assume d: "node_holds c d (LeafNode (insert_entry k r es) nx)"
  have "pages_ok c (pg(p := d)) n (images (Leaf p (insert_entry k r es) nx) @ ctx_images p ctx)"
    using pages_ok_update [OF _ f d, of pg n p "LeafNode es nx" "ctx_images p ctx"] I by simp
  moreover have "sorted_wrt before (left_items ctx @ items (Leaf p (insert_entry k r es) nx) @ right_items ctx)"
    using insert_entry_items [OF _ ctx] I by simp
  moreover have "linked (left_leaves ctx @ leaves (Leaf p (insert_entry k r es) nx) @ right_leaves ctx)"
    using linked_replace [of "left_leaves ctx" p es nx "right_leaves ctx"] I by simp
  ultimately show "tree_inv c (pg(p := d)) n (plug (Leaf p (insert_entry k r es) nx) ctx)"
    unfolding tree_inv_plug [OF ctx(1)] using I by simp
qed

lemma leaf_split:
  assumes inv: "tree_inv c pg n (plug (Leaf p es nx) ctx)" and ctx: "ctx_shape ctx" "ctx_key k ctx"
    and k: "key_ok c k" and r: "rid_ok r" and n: "n < INVALID_PAGE_ID" and c: "conf_ok c"
    and keyed: "keyed (ctx_images p ctx)"
    and over: "bc_max_leaf_keys c < Suc (length es)" and m: "split_point (map fst (insert_entry k r es)) = Inr m"
  defines "es' \<equiv> insert_entry k r es"
  shows "node_fits c (LeafNode (take m es') n)" and "node_fits c (LeafNode (drop m es') nx)"
    and "node_holds c d1 (LeafNode (take m es') n) \<Longrightarrow> node_holds c d2 (LeafNode (drop m es') nx) \<Longrightarrow>
      pending c (pg(n := d2, p := d1)) (Suc n) ctx (Leaf p (take m es') n) (map fst es' ! m) (Leaf n (drop m es') nx)"
    and "m < length es'"
proof -
  note L = leaf_focus [OF inv ctx(1)] and I = inv [unfolded tree_inv_plug [OF ctx(1)]]
  have ok: "\<forall>e \<in> set es'. key_ok c (fst e) \<and> rid_ok (snd e)" using L(4,5) k r by (auto simp: es'_def)
  have len: "length es' = Suc (length es)" "length es \<le> bc_max_leaf_keys c" "2 \<le> length es'"
    using L(7) over conf_okD(2) [OF c] by (simp_all add: es'_def)
  have srt: "sorted_wrt before (left_items ctx @ entry_items es' @ right_items ctx)"
    using insert_entry_items [OF _ ctx, of es] I by (simp add: es'_def)
  then have srt': "sorted (map fst es')" by (simp add: sorted_wrt_append before_entry_items)
  have mm: "0 < m" "m < length es'" "map fst es' ! (m - 1) < map fst es' ! m"
    using split_point_ok [of "map fst es'" c, unfolded m [folded es'_def]] ok srt' len(3) by auto
  then show "m < length es'" by simp
  show f1: "node_fits c (LeafNode (take m es') n)" and f2: "node_fits c (LeafNode (drop m es') nx)"
    using ok len mm n L(8) by (auto simp: leaf_fits_def INVALID_PAGE_ID_def dest: in_set_takeD in_set_dropD)
  let ?s = "map fst es' ! m"
  have lt: "fst e < ?s" if "e \<in> set (take m es')" for e
  proof -
    from that obtain i where i: "i < m" "e = es' ! i" using mm(2) by (auto simp: in_set_conv_nth)
    then have "fst e \<le> map fst es' ! (m - 1)" using sorted_nth_mono [OF srt', of i "m - 1"] mm by simp
    with mm(3) show ?thesis by simp
  qed
  have ge: "?s \<le> fst e" if "e \<in> set (drop m es')" for e
  proof -
    from that obtain i where i: "i < length es' - m" "e = es' ! (m + i)" by (auto simp: in_set_conv_nth)
    then have "m + i < length es'" by linarith
    with i show ?thesis using sorted_nth_mono [OF srt', of m "m + i"] mm(2) by simp
  qed
  have s_mem: "es' ! m \<in> set es'" "es' ! 0 \<in> set es'" using mm(2) len(3) by (auto intro: nth_mem)
  have cut: "entry_items es' = entry_items (take m es') @ entry_items (drop m es')"
    by (metis append_take_drop_id entry_items_def map_append)
  have left: "before x (?s, None)" if "x \<in> set (left_items ctx)" for x
  proof -
    have "before x (fst (es' ! m), Some (snd (es' ! m)))"
      using srt that s_mem by (auto simp: sorted_wrt_append entry_items_def case_prod_unfold)
    moreover have "before x (fst (es' ! 0), Some (snd (es' ! 0)))"
      using srt that s_mem by (auto simp: sorted_wrt_append entry_items_def case_prod_unfold)
    moreover have "take m es' ! 0 \<in> set (take m es')" using mm by (intro nth_mem) simp
    then have "fst (es' ! 0) < ?s" using lt mm by simp
    ultimately show ?thesis by (auto simp: before_def)
  qed
  have right: "before (?s, None) y" if "y \<in> set (right_items ctx)" for y
  proof -
    have "before (fst (es' ! m), Some (snd (es' ! m))) y"
      using srt that s_mem by (auto simp: sorted_wrt_append entry_items_def case_prod_unfold)
    then show ?thesis using mm(2) by (auto simp: before_def)
  qed
  have items: "sorted_wrt before (left_items ctx @ entry_items (take m es') @ (?s, None) # entry_items (drop m es') @ right_items ctx)"
  proof -
    have "before x (?s, None)" if "x \<in> set (entry_items (take m es'))" for x
      using that lt by (fastforce simp: before_def entry_items_def less_imp_le)
    with left have "before x (?s, None)" if "x \<in> set (left_items ctx @ entry_items (take m es'))" for x
      using that by (simp only: set_append Un_iff) blast
    moreover have "before (?s, None) y" if "y \<in> set (entry_items (drop m es'))" for y
      using that ge by (fastforce simp: before_def entry_items_def)
    with right have "before (?s, None) y" if "y \<in> set (entry_items (drop m es') @ right_items ctx)" for y
      using that by (simp only: set_append Un_iff) blast
    ultimately show ?thesis
      using sorted_wrt_between [of before "left_items ctx @ entry_items (take m es')" "entry_items (drop m es') @ right_items ctx"] srt
      unfolding cut by simp
  qed
  assume d: "node_holds c d1 (LeafNode (take m es') n)" "node_holds c d2 (LeafNode (drop m es') nx)"
  have "pages_ok c (pg(n := d2)) (Suc n) ((n, LeafNode (drop m es') nx) # (p, LeafNode es nx) # ctx_images p ctx)"
    using pages_ok_grow [OF _ f2 d(2)] I by simp
  then have "pages_ok c (pg(n := d2)) (Suc n) ((p, LeafNode es nx) # (n, LeafNode (drop m es') nx) # ctx_images p ctx)"
    by (subst pages_ok_mset [of _ "(n, LeafNode (drop m es') nx) # (p, LeafNode es nx) # ctx_images p ctx"]) simp_all
  from pages_ok_update [OF this f1 d(1)]
  show "pending c (pg(n := d2, p := d1)) (Suc n) ctx (Leaf p (take m es') n) ?s (Leaf n (drop m es') nx)"
    using I items ctx(1) ok s_mem mm(2) keyed linked_split [of "left_leaves ctx" p es nx "right_leaves ctx" "take m es'" n "drop m es'"]
    unfolding pending_def by auto
qed

section \<open>Insertion\<close>

lemma height_ctx: "has_height h (plug t ctx) \<Longrightarrow> length ctx \<le> h"
proof -
  have "has_height h (plug t ctx) \<Longrightarrow> \<exists>h0. has_height h0 t \<and> h = h0 + length ctx"
    by (induction t ctx rule: plug.induct) (fastforce simp: has_height_Node simp del: has_height.simps(2))+
  then show "has_height h (plug t ctx) \<Longrightarrow> length ctx \<le> h" by auto
qed

text \<open>
  Every internal node has two children or more, so a tree of height \<open>h\<close> has \<open>2 ^ h\<close> pages; with page
  numbers of 32 bits the height is at most 31.
\<close>

lemma height_pages: "has_height h t \<Longrightarrow> \<forall>(p, x) \<in> set (images t). node_fits c x \<Longrightarrow> keyed (images t) \<Longrightarrow> 2 ^ h \<le> length (images t)"
proof (induction h arbitrary: t)
  case 0
  then show ?case by (cases t) simp_all
next
  case (Suc h)
  then obtain p ts ks where t: "t = Node p ts ks" by (cases t) auto
  from Suc.prems(2,3) have "length ts = Suc (length ks)" "ks \<noteq> []" by (simp_all add: t internal_fits_def)
  then obtain t1 t2 ts' where ts: "ts = t1 # t2 # ts'" by (cases ts; cases "tl ts"; cases ks) auto
  have "2 ^ h \<le> length (images t1)" "2 ^ h \<le> length (images t2)"
    using Suc.IH [of t1] Suc.IH [of t2] Suc.prems by (auto simp: t ts)
  then show ?case by (simp add: t ts)
qed

lemma tree_height:
  assumes t: "tree_at t T" and h: "has_height h T"
  shows "h \<le> 31"
proof -
  note D = tree_atD [OF t] and P = tree_invD(1) [OF tree_atD(6) [OF t]]
  have "2 ^ h \<le> length (images T)" using height_pages [OF h _ D(7), of "bt_conf t"] pages_okD(1) [OF P] by fastforce
  also have "\<dots> = card (set (pages T))" using P distinct_card [of "pages T"] by (simp add: pages_ok_def)
  also have "\<dots> \<le> card {..<pool_count (bt_pool t)}" using pages_okD(3) [OF P] by (intro card_mono) auto
  also have "\<dots> < 2 ^ 32" using D(4) by (simp add: INVALID_PAGE_ID_def)
  finally have "h < 32" by (rule power_less_imp_less_exp [rotated]) simp
  then show ?thesis by simp
qed

text \<open>A tree object after a change of its pages.\<close>

lemma tree_at_change:
  assumes "tree_at t T" and "tree_inv (bt_conf t) (v_page V) (v_count V) T'" and "at_view {} V b"
    and "evolves P (pool_view (bt_pool t)) V" and "v_count V \<le> INVALID_PAGE_ID" and "keyed (images T')"
  shows "tree_at (t\<lparr>bt_pool := b, bt_root := root_page T'\<rparr>) T'"
  using assms at_viewD [OF assms(3)] by (auto simp: tree_at_def evolves_def)

lemma replicate_insert_entry:
  assumes "map fst (insert_entry k r es) = replicate n x"
  shows "x = k"
proof -
  have "k \<in> set (map fst (insert_entry k r es))" by simp
  then show ?thesis unfolding assms by simp
qed

lemma split_leaf_spec:
  assumes t: "tree_at t T" and T: "plug (Leaf p es nx) ctx = T" and ctx: "ctx_shape ctx" "ctx_key k ctx"
    and k: "key_ok (bt_conf t) k" and r: "rid_ok r" and room: "pool_count (bt_pool t) + 34 \<le> INVALID_PAGE_ID"
    and over: "bc_max_leaf_keys (bt_conf t) < Suc (length es)"
    and b: "at_view {} (view_pin p (pool_view (bt_pool t))) b"
    and Q: "\<And>T' b r'. tree_at (t\<lparr>bt_pool := b, bt_root := r'\<rparr>) T' \<Longrightarrow>
      entries (items T') = entries (left_items ctx) @ insert_entry k r es @ entries (right_items ctx) \<Longrightarrow>
      evolves (set (pages T)) (pool_view (bt_pool t)) (pool_view b) \<Longrightarrow> set (pages T') \<subseteq> set (pages T) \<union> {pool_count (bt_pool t)..} \<Longrightarrow>
      pool_count b \<le> pool_count (bt_pool t) + 33 \<Longrightarrow>
      Q () (t\<lparr>bt_pool := b, bt_root := r'\<rparr>)"
    and E: "map fst (insert_entry k r es) = replicate (Suc (length es)) k \<Longrightarrow> E ValueError (t\<lparr>bt_pool := b\<rparr>)"
  shows "wp (split_leaf (bt_conf t) (rev (map fst ctx) @ [p]) p (map fst (insert_entry k r es)) (map snd (insert_entry k r es)) nx) Q E (t\<lparr>bt_pool := b\<rparr>)"
proof -
  let ?V = "pool_view (bt_pool t)" and ?c = "bt_conf t" and ?es = "insert_entry k r es"
  note D = tree_atD [OF t] and inv = tree_atD(6) [OF t, folded T, folded pool_view_sel]
  note L = leaf_focus [OF inv ctx(1)]
  have cnt: "v_count ?V < INVALID_PAGE_ID" using room by (simp add: pool_view_sel)
  obtain h where h: "has_height h T" using tree_invD(2) [OF D(6)] by blast
  have deep: "v_count ?V + 1 + length ctx < INVALID_PAGE_ID" "v_count ?V + length ctx + 2 \<le> INVALID_PAGE_ID"
    using room tree_height [OF t h] height_ctx [of h "Leaf p es nx" ctx] h T by (simp_all add: pool_view_sel)
  have avail: "0 < v_avail ?V" "0 < v_avail (view_pin p ?V)" using D(3) by (simp_all add: view_pin_def)
  show ?thesis
  proof (cases "split_point (map fst ?es)")
    case (Inl e)
    have "sorted_wrt before (left_items ctx @ entry_items ?es @ right_items ctx)"
      using insert_entry_items [OF _ ctx, of es] inv [unfolded tree_inv_plug [OF ctx(1)]] by simp
    then have "sorted (map fst ?es)" by (simp add: sorted_wrt_append before_entry_items)
    then have "e = ValueError" "map fst ?es = replicate (length (map fst ?es)) (map fst ?es ! 0)"
      using split_point_ok [of "map fst ?es" ?c, unfolded Inl] L(4) k over conf_okD(2) [OF D(1)] by auto
    with replicate_insert_entry have "e = ValueError" "map fst ?es = replicate (Suc (length es)) k"
      by (metis, metis length_insert_entry length_map)
    then have "E e (t\<lparr>bt_pool := b\<rparr>)" using E by simp
    then show ?thesis by (simp add: split_leaf_def wp_bind wp_lift Inl)
  next
    case (Inr m)
    have "keyed (ctx_images p ctx)" using D(7) keyed_plug [of "Leaf p es nx" ctx] T by simp
    note S = leaf_split [OF inv ctx k r cnt D(1) this over Inr]
    let ?t1 = "Leaf p (take m ?es) (v_count ?V)" and ?t2 = "Leaf (v_count ?V) (drop m ?es) nx"
    have "wp new_page (\<lambda>q. wp (write_buf q (node_code ?c (LeafNode (drop m ?es) nx))) (\<lambda>_. wp (unpin_page q True)
        (\<lambda>_ b. wp (write_buf p (node_code ?c (LeafNode (take m ?es) q))) (\<lambda>_. wp (unpin_page p True)
          (\<lambda>_ b. wp (insert_into_parent ?c (rev (map fst ctx)) p (map fst ?es ! m) q) Q E (t\<lparr>bt_pool := b\<rparr>)) E') E' b) E') E') E' b" for E'
    proof (rule wp_fresh [OF b avail(2) D(1) S(2)])
      fix d2 b1 assume d2: "node_holds ?c d2 (LeafNode (drop m ?es) nx)" and "at_view {} (view_grow d2 (view_pin p ?V)) b1"
      then have b1: "at_view {} (view_pin p (view_grow d2 ?V)) b1" by (simp add: view_grow_pin)
      have "wp (write_buf p (node_code ?c (LeafNode (take m ?es) (v_count ?V)))) (\<lambda>_. wp (unpin_page p True)
          (\<lambda>_ b. wp (insert_into_parent ?c (rev (map fst ctx)) p (map fst ?es ! m) (v_count ?V)) Q E (t\<lparr>bt_pool := b\<rparr>)) E') E' b1"
      proof (rule wp_store [OF b1 _ _ _ D(1) S(1)])
        fix d1 b2 assume d1: "node_holds ?c d1 (LeafNode (take m ?es) (v_count ?V))" and b2: "at_view {} (view_write p d1 (view_grow d2 ?V)) b2"
        let ?W = "view_write p d1 (view_grow d2 ?V)"
        have own: "p \<in> set (pages T)" "fst ` set ctx \<subseteq> set (pages T)"
          using plug_pages [of "Leaf p es nx" ctx] ctx_pages [of ctx p] T by auto
        have e1: "evolves (set (pages T)) ?V ?W" by (rule evolves_trans [OF evolves_grow evolves_write [OF own(1)]]) simp
        have "wp (insert_into_parent ?c (rev (map fst ctx)) (root_page ?t1) (map fst ?es ! m) (root_page ?t2)) Q E (t\<lparr>bt_pool := b2\<rparr>)"
        proof (rule insert_into_parent_spec [where V = ?W])
          show "pending ?c (v_page ?W) (v_count ?W) ctx ?t1 (map fst ?es ! m) ?t2" using S(3) [OF d1 d2] by simp
          show "bt_root (t\<lparr>bt_pool := b2\<rparr>) = root_page (plug ?t1 ctx)" using D(5) T by (auto simp: root_page_plug)
          fix T' V' b assume T': "tree_inv ?c (v_page V') (v_count V') T'" "at_view {} V' b"
            "items T' = left_items ctx @ items ?t1 @ (map fst ?es ! m, None) # items ?t2 @ right_items ctx"
            "evolves (fst ` set ctx) ?W V'" "v_count V' \<le> v_count ?W + length ctx + 1" "keyed (images T')"
            "set (pages T') \<subseteq> set (pages ?t1) \<union> set (pages ?t2) \<union> fst ` set (ctx_images (root_page ?t1) ctx) \<union> {v_count ?W..}"
          have p': "set (pages T') \<subseteq> set (pages T) \<union> {pool_count (bt_pool t)..}"
          proof -
            have "set (pages T') \<subseteq> {p, v_count ?V} \<union> fst ` set (ctx_images p ctx) \<union> {v_count ?W..}" using T'(7) by (simp add: insert_commute)
            also have "\<dots> \<subseteq> set (pages (plug (Leaf p es nx) ctx)) \<union> {pool_count (bt_pool t)..}"
              unfolding plug_pages by (auto simp: pool_view_sel)
            finally show ?thesis unfolding T .
          qed
          have e2: "evolves (set (pages T)) ?V V'" by (rule evolves_trans [OF e1 T'(4)]) (use own(2) in auto)
          have cnt': "v_count V' \<le> INVALID_PAGE_ID" using T'(5) deep(2) by simp
          have grow: "pool_count b \<le> pool_count (bt_pool t) + 33"
            using T'(5) tree_height [OF t h] height_ctx [of h "Leaf p es nx" ctx] h T at_viewD(3) [OF T'(2)] by (auto simp: pool_view_def)
          have "entries (items T') = entries (left_items ctx) @ ?es @ entries (right_items ctx)"
            unfolding T'(3) by simp
          then have "Q () (t\<lparr>bt_pool := b, bt_root := root_page T'\<rparr>)"
            using Q [OF tree_at_change [OF t T'(1,2) e2 cnt' T'(6)]] e2 p' grow at_viewD(3) [OF T'(2)] by simp
          then show "Q () (t\<lparr>bt_pool := b2, bt_pool := b, bt_root := root_page T'\<rparr>)" by simp
        qed (use b2 D(1,3) deep(1) in simp_all)
        then show "wp (insert_into_parent ?c (rev (map fst ctx)) p (map fst ?es ! m) (v_count ?V)) Q E (t\<lparr>bt_pool := b2\<rparr>)" by simp
      qed (use L(3) avail in simp_all)
      then show "wp (write_buf p (node_code ?c (LeafNode (take m ?es) (v_count (view_pin p ?V))))) (\<lambda>_. wp (unpin_page p True)
          (\<lambda>_ b. wp (insert_into_parent ?c (rev (map fst ctx)) p (map fst ?es ! m) (v_count (view_pin p ?V))) Q E (t\<lparr>bt_pool := b\<rparr>)) E') E' b1" by simp
    qed
    then show ?thesis unfolding node_code.simps
      by (simp add: split_leaf_def wp_fun wp_on_tree Inr wp_lift_Inr take_map drop_map)
  qed
qed

lemma insert_in_leaf_spec:
  assumes t: "tree_at t T" and T: "plug (Leaf p es nx) ctx = T" and ctx: "ctx_shape ctx" "ctx_key k ctx"
    and k: "key_ok (bt_conf t) k" and r: "rid_ok r" and room: "pool_count (bt_pool t) + 34 \<le> INVALID_PAGE_ID"
    and b: "at_view {} (pool_view (bt_pool t)) b"
    and Q: "\<And>T' b r'. tree_at (t\<lparr>bt_pool := b, bt_root := r'\<rparr>) T' \<Longrightarrow>
      entries (items T') = insert_entry k r (entries (items T)) \<Longrightarrow>
      evolves (set (pages T)) (pool_view (bt_pool t)) (pool_view b) \<Longrightarrow> set (pages T') \<subseteq> set (pages T) \<union> {pool_count (bt_pool t)..} \<Longrightarrow>
      pool_count b \<le> pool_count (bt_pool t) + 33 \<Longrightarrow>
      Q () (t\<lparr>bt_pool := b, bt_root := r'\<rparr>)"
    and full: "\<And>b. bc_max_leaf_keys (bt_conf t) \<le> length (filter (\<lambda>e. fst e = k) (entries (items T))) \<Longrightarrow> E ValueError (t\<lparr>bt_pool := b\<rparr>)"
  shows "wp (insert_in_leaf (bt_conf t) k r (rev (map fst ctx) @ [p])) Q E (t\<lparr>bt_pool := b\<rparr>)"
proof -
  let ?V = "pool_view (bt_pool t)" and ?c = "bt_conf t"
  let ?es = "insert_entry k r es"
  note D = tree_atD [OF t]
  note inv = tree_atD(6) [OF t, folded T, folded pool_view_sel]
  note L = leaf_focus [OF inv ctx(1)] and A = entries_around [OF inv ctx]
  have ents: "insert_entry k r (entries (items T)) = entries (left_items ctx) @ ?es @ entries (right_items ctx)"
    unfolding T [symmetric] A(1) using insert_entry_append [OF A(2,3)] by simp
  have avail: "0 < v_avail ?V" using D(3) by simp
  have stored: "wp (if Suc (length es) \<le> bc_max_leaf_keys ?c then
      py_seq (on_tree (write_buf p (write_leaf ?c (map fst ?es) (map snd ?es) nx))) (on_tree (unpin_page p True))
      else split_leaf ?c (rev (map fst ctx) @ [p]) p (map fst ?es) (map snd ?es) nx) Q E (t\<lparr>bt_pool := b1\<rparr>)"
    if b1: "at_view {} (view_pin p ?V) b1" for b1
  proof (cases "Suc (length es) \<le> bc_max_leaf_keys ?c")
    case True
    note S = leaf_stored [OF inv ctx k r True]
    have "wp (write_buf p (node_code ?c (LeafNode ?es nx))) (\<lambda>_. wp (unpin_page p True) (\<lambda>x b. Q x (t\<lparr>bt_pool := b\<rparr>)) E') E' b1" for E'
    proof (rule wp_store [OF b1 _ L(3) avail D(1) S(1)])
      fix d b2 assume d: "node_holds ?c d (LeafNode ?es nx)" and b2: "at_view {} (view_write p d ?V) b2"
      let ?T = "plug (Leaf p ?es nx) ctx"
      have own: "p \<in> set (pages T)" using plug_pages [of "Leaf p es nx" ctx] T by auto
      have e: "evolves (set (pages T)) ?V (view_write p d ?V)" by (rule evolves_write [OF own])
      have root: "root_page ?T = bt_root t" using D(5) T by (auto simp: root_page_plug)
      have "tree_at (t\<lparr>bt_pool := b2, bt_root := root_page ?T\<rparr>) ?T"
        by (rule tree_at_change [OF t _ b2 e]) (use S(2) [OF d] D(4,7) keyed_plug [of "Leaf p es nx" ctx] keyed_plug [of "Leaf p ?es nx" ctx] T in \<open>simp_all add: pool_view_sel\<close>)
      moreover have "entries (items ?T) = insert_entry k r (entries (items T))" unfolding ents by (simp add: items_plug [OF ctx(1)])
      moreover have "set (pages ?T) \<subseteq> set (pages T)" using plug_pages [of "Leaf p es nx" ctx] plug_pages [of "Leaf p ?es nx" ctx] T by simp
      moreover have "pool_count b2 = pool_count (bt_pool t)" using at_viewD [OF b2] by (simp add: pool_view_sel)
      ultimately have "Q () (t\<lparr>bt_pool := b2, bt_root := root_page ?T\<rparr>)"
        using Q [where b = b2 and r' = "root_page ?T" and T' = ?T] e at_viewD(3) [OF b2] by auto
      then show "Q () (t\<lparr>bt_pool := b2\<rparr>)" unfolding root by simp
    qed simp
    with True show ?thesis by (simp add: wp_fun wp_on_tree)
  next
    case False
    then have over: "bc_max_leaf_keys ?c < Suc (length es)" by simp
    show ?thesis unfolding if_not_P [OF False]
    proof (rule split_leaf_spec [OF t T ctx k r room over b1])
      show "Q () (t\<lparr>bt_pool := b', bt_root := r'\<rparr>)"
        if "tree_at (t\<lparr>bt_pool := b', bt_root := r'\<rparr>) T'"
          "entries (items T') = entries (left_items ctx) @ ?es @ entries (right_items ctx)"
          "evolves (set (pages T)) ?V (pool_view b')" "set (pages T') \<subseteq> set (pages T) \<union> {pool_count (bt_pool t)..}"
          "pool_count b' \<le> pool_count (bt_pool t) + 33" for T' b' r'
        using Q [OF that(1) _ that(3-5)] that(2) ents by simp
      assume rep: "map fst ?es = replicate (Suc (length es)) k"
      have "fst e = k" if "e \<in> set es" for e
      proof -
        have "fst e \<in> set (map fst ?es)" using that by simp
        then show ?thesis unfolding rep by auto
      qed
      then have "filter (\<lambda>e. fst e = k) es = es" by simp
      moreover have "length (filter (\<lambda>e. fst e = k) es) \<le> length (filter (\<lambda>e. fst e = k) (entries (items T)))"
        unfolding T [symmetric] A(1) by simp
      ultimately show "E ValueError (t\<lparr>bt_pool := b1\<rparr>)" using over by (intro full) simp
    qed
  qed
  have pos: "insert_at (length (takeWhile (\<lambda>y. y \<le> k) (map fst es))) k (map fst es) = map fst ?es"
    "insert_at (length (takeWhile (\<lambda>y. y \<le> k) (map fst es))) r (map snd es) = map snd ?es"
    using insert_at_map [of _ fst "(k, r)" es] insert_at_map [of _ snd "(k, r)" es] insert_entry_at [of k es r] by simp_all
  show ?thesis unfolding insert_in_leaf_def Let_def last_snoc wp_fun wp_on_tree_next
  proof (rule wp_fetch_at [OF b L(3) avail], rule wp_read_at [where x = "(map fst es, map snd es, nx)"])
    fix b1 assume b1: "at_view {} (view_pin p ?V) b1"
    then show "at_view {} (view_pin p ?V) b1" .
    show "wp (case (map fst es, map snd es, nx) of (keys0, rids0, next_leaf) \<Rightarrow>
        py_bind (py_lift (py_bisect_right keys0 k)) (\<lambda>pos. if length (insert_at pos k keys0) \<le> bc_max_leaf_keys ?c then
             py_seq (on_tree (write_buf p (write_leaf ?c (insert_at pos k keys0) (insert_at pos r rids0) next_leaf))) (on_tree (unpin_page p True))
           else split_leaf ?c (rev (map fst ctx) @ [p]) p (insert_at pos k keys0) (insert_at pos r rids0) next_leaf)) Q E (t\<lparr>bt_pool := b1\<rparr>)"
      using stored [OF b1] unfolding prod.case wp_fun(1) py_bisect_right_ok [OF k L(4,6)] wp_lift_Inr pos by simp
  qed (use L(2) in simp_all)
qed

text \<open>The check for a duplicate at the start of \<^verbatim>\<open>insert\<close>.\<close>

lemma wp_insert_check:
  assumes t: "tree_at t T" and k: "key_ok (bt_conf t) k"
    and go: "\<And>b. at_view {} (pool_view (bt_pool t)) b \<Longrightarrow>
      wp (if bc_unique (bt_conf t) \<and> k \<in> fst ` set (entries (items T)) then py_raise DuplicateKeyError
          else py_bind (find_leaf_path k) (insert_in_leaf (bt_conf t) k r)) Q E (t\<lparr>bt_pool := b\<rparr>)"
  shows "wp (bt_insert k r) Q E t"
proof -
  let ?V = "pool_view (bt_pool t)" and ?c = "bt_conf t" and ?es = "entries (items T)"
  have "wp (if bc_unique ?c then py_bind (bt_search k) (\<lambda>found. py_return (found \<noteq> [])) else py_return False)
      (\<lambda>d t'. \<exists>b. t' = t\<lparr>bt_pool := b\<rparr> \<and> at_view {} ?V b \<and> d = (bc_unique ?c \<and> k \<in> fst ` set ?es)) E t"
  proof (cases "bc_unique ?c")
    case True
    have ne: "map snd (filter (\<lambda>e. fst e = k) ?es) \<noteq> [] \<longleftrightarrow> k \<in> fst ` set ?es" by (auto simp: filter_empty_conv)
    have "wp (bt_search k) (\<lambda>found t'. \<exists>b. t' = t\<lparr>bt_pool := b\<rparr> \<and> at_view {} ?V b \<and> (found \<noteq> []) = (k \<in> fst ` set ?es)) E t"
      by (rule wp_search [OF t k]) (use ne in blast)
    with True show ?thesis by (simp add: wp_fun wp_return_fun)
  next
    case False
    then show ?thesis using tree_atD(2) [OF t] by (auto simp: wp_return intro!: exI [of _ "bt_pool t"])
  qed
  then show ?thesis unfolding bt_insert_def wp_fun wp_gets
    by (rule wp_mono, elim exE conjE) (simp_all only: wp_fun [symmetric] go)
qed

lemma wp_insert_duplicate:
  assumes "tree_at t T" and "key_ok (bt_conf t) k" and "bc_unique (bt_conf t)" and "k \<in> fst ` set (entries (items T))"
    and "\<And>b. at_view {} (pool_view (bt_pool t)) b \<Longrightarrow> E DuplicateKeyError (t\<lparr>bt_pool := b\<rparr>)"
  shows "wp (bt_insert k r) Q E t"
  by (rule wp_insert_check [OF assms(1,2)]) (use assms(3-5) in \<open>simp add: wp_raise\<close>)

lemma wp_insert:
  assumes t: "tree_at t T" and k: "key_ok (bt_conf t) k" and r: "rid_ok r"
    and room: "pool_count (bt_pool t) + 34 \<le> INVALID_PAGE_ID"
    and new: "\<not> (bc_unique (bt_conf t) \<and> k \<in> fst ` set (entries (items T)))"
    and Q: "\<And>T' b r'. tree_at (t\<lparr>bt_pool := b, bt_root := r'\<rparr>) T' \<Longrightarrow> entries (items T') = insert_entry k r (entries (items T)) \<Longrightarrow>
      evolves (set (pages T)) (pool_view (bt_pool t)) (pool_view b) \<Longrightarrow> set (pages T') \<subseteq> set (pages T) \<union> {pool_count (bt_pool t)..} \<Longrightarrow>
      pool_count b \<le> pool_count (bt_pool t) + 33 \<Longrightarrow>
      Q () (t\<lparr>bt_pool := b, bt_root := r'\<rparr>)"
    and full: "\<And>b. bc_max_leaf_keys (bt_conf t) \<le> length (filter (\<lambda>e. fst e = k) (entries (items T))) \<Longrightarrow> E ValueError (t\<lparr>bt_pool := b\<rparr>)"
  shows "wp (bt_insert k r) Q E t"
proof (rule wp_insert_check [OF t k])
  fix b assume b: "at_view {} (pool_view (bt_pool t)) b"
  show "wp (if bc_unique (bt_conf t) \<and> k \<in> fst ` set (entries (items T)) then py_raise DuplicateKeyError
      else py_bind (find_leaf_path k) (insert_in_leaf (bt_conf t) k r)) Q E (t\<lparr>bt_pool := b\<rparr>)"
    unfolding if_not_P [OF new] wp_fun
    by (rule wp_find_leaf_path [OF tree_at_same_view [OF t b]])
      (use k insert_in_leaf_spec [OF t _ _ _ k r room] Q full at_viewD(3) [OF b] in simp_all)
qed

end
