(* ===== verification/BTree_Leaf_Repair.thy ===== *)
theory BTree_Leaf_Repair
  imports BTree_Insert
begin

text \<open>
  Deletion from the B+-tree, first part: leaves. A node with too few keys borrows from a
  sibling, is merged with one, or, for two leaves that neither way helps, the entries of
  both are redistributed. Every such step replaces two adjacent children of a parent and
  the separator between them and keeps the entries (\<open>repaired\<close>). The redistribution can
  put more entries into a leaf than fit; the lemmas assume that no key has more than a
  quarter of a leaf's entries (\<open>few_duplicates\<close>), which excludes it.
\<close>

section \<open>Two adjacent children\<close>

lemma pages_ok_set:
  assumes "pages_ok c pg n (us @ (p, x) # vs)" and "node_fits c y" and "node_holds c d y"
  shows "pages_ok c (pg(p := d)) n (us @ (p, y) # vs)"
proof -
  have "pages_ok c pg n ((p, x) # us @ vs)" using assms(1) by (subst pages_ok_mset [of _ "us @ (p, x) # vs"]) simp_all
  from pages_ok_update [OF this assms(2,3)] show ?thesis
    by (subst pages_ok_mset [of _ "(p, y) # us @ vs"]) simp_all
qed

lemma pages_ok_drop: "pages_ok c pg n (us @ x # vs) \<Longrightarrow> pages_ok c pg n (us @ vs)"
  by (auto simp: pages_ok_def)

text \<open>The pages of a parent with two adjacent children, and its items and leaves.\<close>

definition pair_images :: "nat \<Rightarrow> tree list \<Rightarrow> pyval list \<Rightarrow> tree \<Rightarrow> pyval \<Rightarrow> tree \<Rightarrow> pyval list \<Rightarrow> tree list \<Rightarrow> frame_ctx list \<Rightarrow> (nat \<times> node) list" where
  "pair_images p ls lk A s B rk rs ctx =
     (p, InnerNode (map root_page (ls @ A # B # rs)) (lk @ s # rk)) # concat (map images ls) @ images A @ images B
     @ concat (map images rs) @ ctx_images p ctx"

lemma pair_inv:
  assumes "length ls = length lk" and "length rs = length rk" and "ctx_shape ctx"
  shows "tree_inv c pg n (plug (Node p (ls @ A # B # rs) (lk @ s # rk)) ctx) \<longleftrightarrow>
    pages_ok c pg n (pair_images p ls lk A s B rk rs ctx)
    \<and> (\<exists>h. has_height h A \<and> has_height h B \<and> ctx_height h ((p, ls, lk, rk, rs) # ctx))
    \<and> sorted_wrt before (left_items ((p, ls, lk, rk, rs) # ctx) @ items A @ (s, None) # items B @ right_items ((p, ls, lk, rk, rs) # ctx))
    \<and> linked (left_leaves ((p, ls, lk, rk, rs) # ctx) @ leaves A @ leaves B @ right_leaves ((p, ls, lk, rk, rs) # ctx))"
proof -
  have w: "weave (map items (ls @ A # B # rs)) (lk @ s # rk)
      = left_seg (map items ls) lk @ items A @ (s, None) # items B @ right_seg rk (map items rs)"
    using weave_split [of "map items ls" lk "map items (B # rs)" "s # rk" "items A"] assms by (simp add: right_seg_def)
  have h: "(\<exists>h. has_height h (Node p (ls @ A # B # rs) (lk @ s # rk)) \<and> ctx_height h ctx)
      \<longleftrightarrow> (\<exists>h. has_height h A \<and> has_height h B \<and> ctx_height h ((p, ls, lk, rk, rs) # ctx))"
    unfolding has_height_Node by auto
  show ?thesis unfolding tree_inv_plug [OF assms(3)] h items.simps w by (simp add: pair_images_def)
qed

text \<open>
  What a repair of the children of page \<open>p\<close> does: the entries stay, no page is added, other
  pages are not touched.
\<close>

definition repaired :: "btconf \<Rightarrow> view \<Rightarrow> nat \<Rightarrow> tree list \<Rightarrow> pyval list \<Rightarrow> frame_ctx list \<Rightarrow> view \<Rightarrow> bool" where
  "repaired c V p ts ks ctx V' \<longleftrightarrow> (\<exists>ts' ks'. tree_inv c (v_page V') (v_count V') (plug (Node p ts' ks') ctx)
     \<and> entries (weave (map items ts') ks') = entries (weave (map items ts) ks)
     \<and> set (pages (Node p ts' ks')) \<subseteq> set (pages (Node p ts ks)) \<and> keyed (concat (map images ts'))
     \<and> evolves (set (pages (Node p ts ks))) V V' \<and> v_count V' = v_count V)"

section \<open>Separators between leaves\<close>

lemma first_leaf_append: "first_leaf (xs @ (p, es, nx) # ys) = first_leaf (xs @ (p, es', nx') # ys')"
  by (cases xs) auto

lemma linked_pair:
  assumes "linked (xs @ (a, ea, na) # (b, eb, nb) # ys)"
  shows "na = b" and "linked (xs @ (a, ea', b) # (b, eb', nb) # ys)" and "linked (xs @ (a, e, nb) # ys)"
  using assms by (simp_all add: linked_append_iff linked_Cons)

lemma sorted_wrt_drop_between: "sorted_wrt R (xs @ z # ys) \<Longrightarrow> sorted_wrt R (xs @ ys)"
  by (auto simp: sorted_wrt_append)

lemma entry_items_append: "entry_items (xs @ ys) = entry_items xs @ entry_items ys"
  by (simp add: entry_items_def)

lemma sorted_items_leaves:
  assumes "sorted_wrt before (L @ entry_items (xs @ ys) @ R)" and "xs \<noteq> []" and "ys \<noteq> []"
    and "\<forall>e \<in> set xs. fst e < fst (hd ys)"
  shows "sorted_wrt before (L @ entry_items xs @ (fst (hd ys), None) # entry_items ys @ R)"
proof -
  let ?s = "fst (hd ys)"
  obtain x xs' y ys' where xs: "xs = x # xs'" and ys: "ys = y # ys'" using assms(2,3) by (metis neq_Nil_conv)
  have old: "sorted_wrt before ((L @ entry_items xs) @ (entry_items ys @ R))" using assms(1) by (simp add: entry_items_append)
  have "before z (?s, None)" if "z \<in> set (L @ entry_items xs)" for z
  proof (cases "z \<in> set (entry_items xs)")
    case True
    then obtain e where "e \<in> set xs" "z = (fst e, Some (snd e))" by (auto simp: entry_items_def)
    with assms(4) show ?thesis by (simp add: before_def less_imp_le)
  next
    case False
    then have "before z (fst x, Some (snd x))" using old that by (auto simp: sorted_wrt_append xs entry_items_def case_prod_unfold)
    with assms(4) show ?thesis by (auto simp: before_def xs)
  qed
  moreover have "before (?s, None) z" if "z \<in> set (entry_items ys @ R)" for z
  proof -
    have "before (fst y, Some (snd y)) z \<or> z = (fst y, Some (snd y))"
      using old that by (auto simp: sorted_wrt_append ys entry_items_def case_prod_unfold)
    then show ?thesis by (auto simp: before_def ys)
  qed
  ultimately show ?thesis using sorted_wrt_between [OF old] by simp
qed

text \<open>The entries of two adjacent leaves are divided anew, and the separator is adapted.\<close>

lemma leaf_pair_repaired:
  assumes inv: "tree_inv c (v_page V) (v_count V) (plug (Node p (ls @ Leaf a ea na # Leaf b eb nb # rs) (lk @ s # rk)) ctx)"
    and shape: "length ls = length lk" "length rs = length rk" "ctx_shape ctx"
    and new: "ea' @ eb' = ea @ eb" "ea' \<noteq> []" "eb' \<noteq> []" "\<forall>e \<in> set ea'. fst e < fst (hd eb')"
    and len: "length ea' \<le> bc_max_leaf_keys c" "length eb' \<le> bc_max_leaf_keys c"
    and keyed: "keyed (concat (map images ls) @ concat (map images rs))"
  shows "na = b" and "a \<noteq> b"
    and "node_fits c (LeafNode ea' b)" and "node_fits c (LeafNode eb' nb)"
    and "node_fits c (InnerNode (map root_page ls @ a # b # map root_page rs) (lk @ fst (hd eb') # rk))"
    and "node_holds c da (LeafNode ea' b) \<Longrightarrow> node_holds c db (LeafNode eb' nb) \<Longrightarrow>
      node_holds c dp (InnerNode (map root_page ls @ a # b # map root_page rs) (lk @ fst (hd eb') # rk)) \<Longrightarrow>
      repaired c V p (ls @ Leaf a ea na # Leaf b eb nb # rs) (lk @ s # rk) ctx
        (view_write p dp (view_write a da (view_write b db V)))"
proof -
  let ?pg = "v_page V" and ?n = "v_count V"
  let ?A = "Leaf a ea na" and ?B = "Leaf b eb nb" and ?A' = "Leaf a ea' b" and ?B' = "Leaf b eb' nb"
  let ?s = "fst (hd eb')" and ?L = "(p, ls, lk, rk, rs) # ctx"
  note I = inv [unfolded pair_inv [OF shape]]
  have P: "pages_ok c ?pg ?n (pair_images p ls lk ?A s ?B rk rs ctx)" using I by blast
  have mem: "(a, LeafNode ea na) \<in> set (pair_images p ls lk ?A s ?B rk rs ctx)"
    "(b, LeafNode eb nb) \<in> set (pair_images p ls lk ?A s ?B rk rs ctx)"
    "(p, InnerNode (map root_page (ls @ ?A # ?B # rs)) (lk @ s # rk)) \<in> set (pair_images p ls lk ?A s ?B rk rs ctx)"
    by (simp_all add: pair_images_def)
  note Fa = pages_okD [OF P mem(1)] and Fb = pages_okD [OF P mem(2)] and Fp = pages_okD [OF P mem(3)]
  have chain: "linked (left_leaves ?L @ (a, ea, na) # (b, eb, nb) # right_leaves ?L)" using I by simp
  note chain' = linked_pair [OF chain]
  show na: "na = b" by (rule chain'(1))
  show "a \<noteq> b" using P by (simp add: pages_ok_def pair_images_def)
  have ok: "\<forall>e \<in> set (ea' @ eb'). key_ok c (fst e) \<and> rid_ok (snd e)"
    using Fa(1) Fb(1) unfolding new(1) by (auto simp: leaf_fits_def)
  show fa: "node_fits c (LeafNode ea' b)" and fb: "node_fits c (LeafNode eb' nb)"
    using ok len Fa(1) Fb(1) na by (auto simp: leaf_fits_def)
  have "key_ok c ?s" using ok new(3) by (auto dest: hd_in_set)
  then show fp: "node_fits c (InnerNode (map root_page ls @ a # b # map root_page rs) (lk @ ?s # rk))"
    using Fp(1) by (auto simp: internal_fits_def)
  assume d: "node_holds c da (LeafNode ea' b)" "node_holds c db (LeafNode eb' nb)"
    "node_holds c dp (InnerNode (map root_page ls @ a # b # map root_page rs) (lk @ ?s # rk))"
  let ?rest = "concat (map images rs) @ ctx_images p ctx"
  have "pages_ok c (?pg(b := db)) ?n (((p, InnerNode (map root_page (ls @ ?A # ?B # rs)) (lk @ s # rk)) # concat (map images ls) @ [(a, LeafNode ea na)])
      @ (b, LeafNode eb' nb) # ?rest)"
    by (rule pages_ok_set [OF _ fb d(2)]) (use P in \<open>simp add: pair_images_def\<close>)
  then have "pages_ok c (?pg(b := db, a := da)) ?n (((p, InnerNode (map root_page (ls @ ?A # ?B # rs)) (lk @ s # rk)) # concat (map images ls))
      @ (a, LeafNode ea' b) # (b, LeafNode eb' nb) # ?rest)"
    by (intro pages_ok_set [OF _ fa d(1)]) simp
  then have pages: "pages_ok c (?pg(b := db, a := da, p := dp)) ?n (pair_images p ls lk ?A' ?s ?B' rk rs ctx)"
    using pages_ok_update [OF _ fp d(3)] by (simp add: pair_images_def)
  have "sorted_wrt before (left_items ?L @ entry_items (ea' @ eb') @ right_items ?L)"
    using I sorted_wrt_drop_between [of before "left_items ?L @ entry_items ea" "(s, None)" "entry_items eb @ right_items ?L"]
    unfolding new(1) by (simp add: entry_items_append)
  from sorted_items_leaves [OF this new(2-4)]
  have inv': "tree_inv c (?pg(b := db, a := da, p := dp)) ?n (plug (Node p (ls @ ?A' # ?B' # rs) (lk @ ?s # rk)) ctx)"
    unfolding pair_inv [OF shape] using pages I chain'(2) [of ea' eb'] by simp
  have ents: "entries (weave (map items (ls @ X # Y # rs)) (lk @ k # rk))
      = concat (map (entries \<circ> items) ls) @ entries (items X) @ entries (items Y) @ concat (map (entries \<circ> items) rs)" for X Y k
    using entries_weave [of "map items (ls @ X # Y # rs)" "lk @ k # rk"] shape by (simp add: comp_def)
  have "entries (weave (map items (ls @ ?A' # ?B' # rs)) (lk @ ?s # rk)) = entries (weave (map items (ls @ ?A # ?B # rs)) (lk @ s # rk))"
    unfolding ents using new(1) by simp
  moreover have "evolves (set (pages (Node p (ls @ ?A # ?B # rs) (lk @ s # rk)))) V (view_write p dp (view_write a da (view_write b db V)))"
    by (simp add: evolves_def)
  ultimately show "repaired c V p (ls @ ?A # ?B # rs) (lk @ s # rk) ctx (view_write p dp (view_write a da (view_write b db V)))"
    unfolding repaired_def using inv' keyed
    by (intro exI [of _ "ls @ ?A' # ?B' # rs"] exI [of _ "lk @ ?s # rk"]) auto
qed

text \<open>Two adjacent leaves become one.\<close>

lemma leaf_merge_repaired:
  assumes inv: "tree_inv c (v_page V) (v_count V) (plug (Node p (ls @ Leaf a ea na # Leaf b eb nb # rs) (lk @ s # rk)) ctx)"
    and shape: "length ls = length lk" "length rs = length rk" "ctx_shape ctx"
    and len: "length (ea @ eb) \<le> bc_max_leaf_keys c"
    and keyed: "keyed (concat (map images ls) @ concat (map images rs))"
  shows "node_fits c (LeafNode (ea @ eb) nb)"
    and "node_fits c (InnerNode (map root_page ls @ a # map root_page rs) (lk @ rk))"
    and "node_holds c da (LeafNode (ea @ eb) nb) \<Longrightarrow>
      node_holds c dp (InnerNode (map root_page ls @ a # map root_page rs) (lk @ rk)) \<Longrightarrow>
      repaired c V p (ls @ Leaf a ea na # Leaf b eb nb # rs) (lk @ s # rk) ctx (view_write p dp (view_write a da V))"
proof -
  let ?pg = "v_page V" and ?n = "v_count V"
  let ?A = "Leaf a ea na" and ?B = "Leaf b eb nb" and ?M = "Leaf a (ea @ eb) nb" and ?L = "(p, ls, lk, rk, rs) # ctx"
  note I = inv [unfolded pair_inv [OF shape]]
  have P: "pages_ok c ?pg ?n (pair_images p ls lk ?A s ?B rk rs ctx)" using I by blast
  have mem: "(a, LeafNode ea na) \<in> set (pair_images p ls lk ?A s ?B rk rs ctx)"
    "(b, LeafNode eb nb) \<in> set (pair_images p ls lk ?A s ?B rk rs ctx)"
    "(p, InnerNode (map root_page (ls @ ?A # ?B # rs)) (lk @ s # rk)) \<in> set (pair_images p ls lk ?A s ?B rk rs ctx)"
    by (simp_all add: pair_images_def)
  note Fa = pages_okD [OF P mem(1)] and Fb = pages_okD [OF P mem(2)] and Fp = pages_okD [OF P mem(3)]
  have chain: "linked (left_leaves ?L @ (a, ea, na) # (b, eb, nb) # right_leaves ?L)" using I by simp
  note chain' = linked_pair(3) [OF chain, of "ea @ eb"]
  show fa: "node_fits c (LeafNode (ea @ eb) nb)" using len Fa(1) Fb(1) by (auto simp: leaf_fits_def)
  show fp: "node_fits c (InnerNode (map root_page ls @ a # map root_page rs) (lk @ rk))"
    using Fp(1) by (auto simp: internal_fits_def)
  assume d: "node_holds c da (LeafNode (ea @ eb) nb)" "node_holds c dp (InnerNode (map root_page ls @ a # map root_page rs) (lk @ rk))"
  let ?rest = "concat (map images rs) @ ctx_images p ctx"
  let ?P = "InnerNode (map root_page (ls @ ?A # ?B # rs)) (lk @ s # rk)"
  have "pages_ok c ?pg ?n (((p, ?P) # concat (map images ls) @ [(a, LeafNode ea na)]) @ ?rest)"
    by (rule pages_ok_drop [of _ _ _ _ "(b, LeafNode eb nb)"]) (use P in \<open>simp add: pair_images_def\<close>)
  then have "pages_ok c (?pg(a := da)) ?n (((p, ?P) # concat (map images ls)) @ (a, LeafNode (ea @ eb) nb) # ?rest)"
    by (intro pages_ok_set [OF _ fa d(1)]) simp
  then have "pages_ok c (?pg(a := da, p := dp)) ?n ((p, InnerNode (map root_page ls @ a # map root_page rs) (lk @ rk))
      # concat (map images ls) @ (a, LeafNode (ea @ eb) nb) # ?rest)"
    using pages_ok_update [OF _ fp d(2)] by simp
  then have pages: "pages_ok c (?pg(a := da, p := dp)) ?n (images ?M @ ctx_images (root_page ?M) ?L)"
    by (subst pages_ok_mset [of _ "(p, InnerNode (map root_page ls @ a # map root_page rs) (lk @ rk))
      # concat (map images ls) @ (a, LeafNode (ea @ eb) nb) # ?rest"]) simp_all
  have "sorted_wrt before (left_items ?L @ entry_items (ea @ eb) @ right_items ?L)"
    using I sorted_wrt_drop_between [of before "left_items ?L @ entry_items ea" "(s, None)" "entry_items eb @ right_items ?L"]
    by (simp add: entry_items_append)
  then have "tree_inv c (?pg(a := da, p := dp)) ?n (plug ?M ?L)"
    using pages I shape chain' by (subst tree_inv_plug) auto
  then have inv': "tree_inv c (?pg(a := da, p := dp)) ?n (plug (Node p (ls @ ?M # rs) (lk @ rk)) ctx)" by simp
  have "entries (weave (map items (ls @ ?M # rs)) (lk @ rk)) = entries (weave (map items (ls @ ?A # ?B # rs)) (lk @ s # rk))"
    using entries_weave [of "map items (ls @ ?M # rs)" "lk @ rk"] entries_weave [of "map items (ls @ ?A # ?B # rs)" "lk @ s # rk"] shape
    by simp
  moreover have "evolves (set (pages (Node p (ls @ ?A # ?B # rs) (lk @ s # rk)))) V (view_write p dp (view_write a da V))"
    by (simp add: evolves_def)
  ultimately show "repaired c V p (ls @ ?A # ?B # rs) (lk @ s # rk) ctx (view_write p dp (view_write a da V))"
    unfolding repaired_def using inv' keyed
    by (intro exI [of _ "ls @ ?M # rs"] exI [of _ "lk @ rk"]) auto
qed

section \<open>Runs of equal keys\<close>

lemma leading_run_takeWhile:
  assumes "\<forall>y \<in> set (x # xs). key_ok c y"
  shows "leading_run (x # xs) = Suc (length (takeWhile (\<lambda>y. y = x) xs))"
  using run_length_takeWhile [of c x xs] assms by (simp add: leading_run_def)

lemma leading_run_less:
  assumes "\<forall>y \<in> set ks. key_ok c y" and "sorted ks" and "leading_run ks < length ks"
  shows "0 < leading_run ks" and "\<forall>y \<in> set (take (leading_run ks) ks). y < ks ! leading_run ks"
proof -
  obtain x xs where ks: "ks = x # xs" using assms(3) by (cases ks) auto
  define l where "l = length (takeWhile (\<lambda>y. y = x) xs)"
  have k: "leading_run ks = Suc l" using leading_run_takeWhile [of x xs c] assms(1) by (simp add: ks l_def)
  then show "0 < leading_run ks" by simp
  have l: "l < length xs" using assms(3) k by (simp add: ks)
  have "xs ! l \<noteq> x" using nth_length_takeWhile [of "\<lambda>y. y = x" xs] l by (simp add: l_def)
  moreover have "x \<le> xs ! l" using assms(2) l by (simp add: ks)
  ultimately have "x < xs ! l" by simp
  moreover have "take l xs = takeWhile (\<lambda>y. y = x) xs" unfolding l_def by (rule takeWhile_eq_take [symmetric])
  then have "\<forall>y \<in> set (take l xs). y = x" by (auto dest: set_takeWhileD)
  ultimately show "\<forall>y \<in> set (take (leading_run ks) ks). y < ks ! leading_run ks" unfolding k by (auto simp: ks)
qed

lemma trailing_run_less:
  assumes "\<forall>y \<in> set ks. key_ok c y" and "sorted ks" and "leading_run (rev ks) < length ks"
  defines "m \<equiv> length ks - leading_run (rev ks)"
  shows "0 < leading_run (rev ks)" and "\<forall>y \<in> set (take m ks). y < ks ! m"
proof -
  obtain x xs where ks: "rev ks = x # xs" using assms(3) by (cases "rev ks") auto
  then have ks': "ks = rev xs @ [x]" by (metis rev_eq_Cons_iff)
  define l where "l = length (takeWhile (\<lambda>y. y = x) xs)"
  have k: "leading_run (rev ks) = Suc l" using leading_run_takeWhile [of x xs c] assms(1) unfolding ks l_def by (auto simp: ks')
  show "0 < leading_run (rev ks)" unfolding k by simp
  have len: "length ks = Suc (length xs)" by (simp add: ks')
  have l: "l < length xs" using assms(3) unfolding k len by simp
  have m: "m = length xs - l" unfolding m_def k len by simp
  have ne: "xs ! l \<noteq> x" using nth_length_takeWhile [of "\<lambda>y. y = x" xs] l by (simp add: l_def)
  have "take l xs = takeWhile (\<lambda>y. y = x) xs" unfolding l_def by (rule takeWhile_eq_take [symmetric])
  then have run: "\<forall>y \<in> set (take l xs). y = x" by (auto dest: set_takeWhileD)
  have "ks ! m = x"
  proof (cases "l = 0")
    case False
    then have "xs ! (l - 1) \<in> set (take l xs)" using l by (auto simp: in_set_conv_nth intro!: exI [of _ "l - 1"])
    moreover have "length xs - l < length xs" using l False by arith
    then have "ks ! m = xs ! (l - 1)" using l False unfolding ks' m by (simp add: nth_append rev_nth)
    ultimately show ?thesis using run by simp
  qed (simp add: ks' m nth_append)
  moreover have "y < x" if y: "y \<in> set (take m ks)" for y
  proof -
    have "take m ks = rev (drop l xs)" using l unfolding ks' m by (simp add: take_rev)
    with y obtain i where "i < length xs - l" and y: "y = xs ! (l + i)" by (auto simp: in_set_conv_nth)
    then have i: "l + i < length xs" by simp
    have srt: "sorted (rev xs)" "\<forall>z \<in> set xs. z \<le> x" using assms(2) unfolding ks' by (auto simp: sorted_append)
    then have "sorted_wrt (\<ge>) xs" by (simp add: sorted_wrt_rev)
    then have "y \<le> xs ! l" using i y by (cases i) (auto simp: sorted_wrt_iff_nth_less)
    moreover have "xs ! l \<le> x" using srt(2) l by simp
    ultimately show ?thesis using ne by simp
  qed
  ultimately show "\<forall>y \<in> set (take m ks). y < ks ! m" by simp
qed

text \<open>How far from the middle a split point can be.\<close>

lemma length_takeWhile_filter: "length (takeWhile P xs) \<le> length (filter P xs)"
  by (induction xs) auto

lemma filter_take_length: "length (filter P (take m xs)) \<le> length (filter P xs)"
  using filter_append [of P "take m xs" "drop m xs"] by simp

lemma filter_drop_length: "length (filter P (drop m xs)) \<le> length (filter P xs)"
  using filter_append [of P "take m xs" "drop m xs"] by simp

lemma split_point_balanced:
  assumes ok: "\<forall>y \<in> set ks. key_ok c y" and two: "2 \<le> length ks" and m: "split_point ks = Inr m"
    and few: "\<And>x. length (filter (\<lambda>y. y = x) ks) \<le> q"
  shows "m \<le> length ks div 2 + q" and "length ks - m \<le> length ks - length ks div 2 + q"
proof -
  define mid where "mid = length ks div 2"
  define x where "x = ks ! (mid - 1)"
  have mid: "0 < mid" "mid < length ks" using two by (auto simp: mid_def)
  have x: "key_ok c x" using ok mid by (simp add: x_def)
  have run: "run_length x ys \<le> length (filter (\<lambda>y. y = x) ys)" if "set ys \<subseteq> set ks" for ys
  proof -
    have "run_length x ys = length (takeWhile (\<lambda>y. y = x) ys)" using ok that by (intro run_length_takeWhile [OF x]) auto
    then show ?thesis using length_takeWhile_filter by metis
  qed
  have fwd: "run_length x (drop mid ks) \<le> q"
    using run [OF set_drop_subset] filter_drop_length [of "\<lambda>y. y = x" mid ks] few [of x] by (meson order_trans)
  have "take mid ks = take (mid - 1) ks @ [x]" using take_Suc_conv_app_nth [of "mid - 1" ks] mid by (simp add: x_def)
  then have "Suc (length (filter (\<lambda>y. y = x) (take (mid - 1) ks))) \<le> q"
    using filter_take_length [of "\<lambda>y. y = x" mid ks] few [of x] by simp
  then have bwd: "Suc (run_length x (rev (take (mid - 1) ks))) \<le> q"
    using run [of "rev (take (mid - 1) ks)"] set_take_subset [of "mid - 1" ks] by (simp flip: rev_filter)
  have "m = mid \<or> m = mid + run_length x (drop mid ks) \<or> m = (mid - 1) - run_length x (rev (take (mid - 1) ks))"
    using m mid unfolding split_point_def Let_def mid_def [symmetric] x_def
    by (auto split: if_splits)
  then show "m \<le> length ks div 2 + q" "length ks - m \<le> length ks - length ks div 2 + q"
    using fwd bwd unfolding mid_def [symmetric] by auto
qed

section \<open>Repairing leaves\<close>

lemma commit_internal_eq: "commit_internal c p ch ks = write_node p (node_code c (InnerNode ch ks))"
  by (simp add: commit_internal_def write_node_def)

lemma leaf_pair_facts:
  assumes inv: "tree_inv c pg n (plug (Node p (ls @ Leaf a ea na # Leaf b eb nb # rs) (lk @ s # rk)) ctx)"
    and shape: "length ls = length lk" "length rs = length rk" "ctx_shape ctx"
  shows "sorted (map fst (ea @ eb))" and "\<forall>e \<in> set ea. fst e < s" and "\<forall>e \<in> set eb. s \<le> fst e"
    and "a < n" and "b < n" and "p < n" and "\<forall>e \<in> set (ea @ eb). key_ok c (fst e)"
    and "length ea \<le> bc_max_leaf_keys c" and "length eb \<le> bc_max_leaf_keys c"
    and "read_leaf c (pg a) = Inr (map fst ea, map snd ea, na)" and "read_leaf c (pg b) = Inr (map fst eb, map snd eb, nb)"
proof -
  let ?A = "Leaf a ea na" and ?B = "Leaf b eb nb" and ?L = "(p, ls, lk, rk, rs) # ctx"
  note I = inv [unfolded pair_inv [OF shape]]
  have P: "pages_ok c pg n (pair_images p ls lk ?A s ?B rk rs ctx)" using I by blast
  have mem: "(a, LeafNode ea na) \<in> set (pair_images p ls lk ?A s ?B rk rs ctx)"
    "(b, LeafNode eb nb) \<in> set (pair_images p ls lk ?A s ?B rk rs ctx)"
    "(p, InnerNode (map root_page (ls @ ?A # ?B # rs)) (lk @ s # rk)) \<in> set (pair_images p ls lk ?A s ?B rk rs ctx)"
    by (simp_all add: pair_images_def)
  note Fa = pages_okD [OF P mem(1)] and Fb = pages_okD [OF P mem(2)] and Fp = pages_okD [OF P mem(3)]
  show "a < n" "b < n" "p < n" "\<forall>e \<in> set (ea @ eb). key_ok c (fst e)" "length ea \<le> bc_max_leaf_keys c" "length eb \<le> bc_max_leaf_keys c"
    "read_leaf c (pg a) = Inr (map fst ea, map snd ea, na)" "read_leaf c (pg b) = Inr (map fst eb, map snd eb, nb)"
    using Fa Fb Fp by (auto simp: leaf_fits_def)
  have "sorted_wrt before (entry_items ea @ (s, None) # entry_items eb)"
    using I by (auto simp: sorted_wrt_append)
  moreover from sorted_wrt_drop_between [OF this] show "sorted (map fst (ea @ eb))"
    by (simp add: before_entry_items flip: entry_items_append)
  ultimately show "\<forall>e \<in> set ea. fst e < s" "\<forall>e \<in> set eb. s \<le> fst e"
    by (auto simp: sorted_wrt_append before_def entry_items_def)
qed

lemma wp_write_two:
  assumes b: "at_view {} V b0" and V: "0 < v_avail V" "p < v_count V" "q < v_count V" and c: "conf_ok c"
    and fits: "node_fits c x" "node_fits c y"
    and Q: "\<And>dx dy b'. node_holds c dx x \<Longrightarrow> node_holds c dy y \<Longrightarrow> at_view {} (view_write q dy (view_write p dx V)) b' \<Longrightarrow> Q () b'"
  shows "wp (write_node p (node_code c x)) (\<lambda>_. wp (write_node q (node_code c y)) Q E) E b0"
proof (rule wp_poke [OF b V(2,1) c fits(1)])
  fix dx b1 assume 1: "node_holds c dx x" "at_view {} (view_write p dx V) b1"
  show "wp (write_node q (node_code c y)) Q E b1"
    by (rule wp_poke [OF 1(2) _ _ c fits(2)]) (use V Q 1(1) in simp_all)
qed

lemma view_write_swap: "p \<noteq> q \<Longrightarrow> view_write p d (view_write q e V) = view_write q e (view_write p d V)"
  by (simp add: view_write_def fun_upd_twist)

lemma borrow_right_leaf_spec:
  assumes inv: "tree_inv c (v_page V) (v_count V) (plug (Node p (ls @ Leaf a ea na # Leaf b eb nb # rs) (lk @ s # rk)) ctx)"
    and shape: "length ls = length lk" "length rs = length rk" "ctx_shape ctx"
    and keyed: "keyed (concat (map images ls) @ concat (map images rs))"
    and c: "conf_ok c" and b0: "at_view {} V b0" and avail: "0 < v_avail V"
    and Q1: "\<And>V' b'. repaired c V p (ls @ Leaf a ea na # Leaf b eb nb # rs) (lk @ s # rk) ctx V' \<Longrightarrow> at_view {} V' b' \<Longrightarrow> Q True b'"
    and Q2: "\<And>b'. at_view {} V b' \<Longrightarrow> Q False b'"
  shows "wp (borrow_right_leaf c p (map root_page (ls @ Leaf a ea na # Leaf b eb nb # rs)) (lk @ s # rk) (length ls) (map fst ea) (map snd ea) na)
    Q E b0"
proof -
  note F = leaf_pair_facts [OF inv shape]
  define k where "k = leading_run (map fst eb)"
  define ea' eb' where "ea' = ea @ take k eb" and "eb' = drop k eb"
  let ?ch = "map root_page ls @ a # b # map root_page rs"
  have idx: "?ch ! length ls = a" "?ch ! (length ls + 1) = b" by (simp_all add: nth_append)
  have move: "wp (write_buf b (write_leaf c (drop k (map fst eb)) (drop k (map snd eb)) nb)) (\<lambda>_. wp (unpin_page b True)
      (\<lambda>_. wp (write_node a (write_leaf c (map fst ea @ take k (map fst eb)) (map snd ea @ take k (map snd eb)) na))
      (\<lambda>_. wp (commit_internal c p ?ch ((lk @ s # rk)[length ls := map fst eb ! k])) (\<lambda>_. Q True) E) E) E) E b1"
    if b1: "at_view {} (view_pin b V) b1"
      and ok: "k < length eb" "length ea + k \<le> bc_max_leaf_keys c" for b1
  proof -
    have sorted: "sorted (map fst eb)" using F(1) by (simp add: sorted_append)
    have ok': "\<forall>y \<in> set (map fst eb). key_ok c y" using F(7) by auto
    have "leading_run (map fst eb) < length (map fst eb)" using ok(1) by (simp add: k_def)
    note lead = leading_run_less [OF ok' sorted this, folded k_def]
    have hd: "hd eb' = eb ! k" using ok(1) by (simp add: eb'_def hd_drop_conv_nth)
    have "fst e < fst (eb ! k)" if "e \<in> set ea'" for e
    proof (cases "e \<in> set ea")
      case True
      then have "fst e < s" using F(2) by blast
      also have "s \<le> fst (eb ! k)" using F(3) ok(1) by simp
      finally show ?thesis .
    next
      case False
      then have "fst e \<in> set (take k (map fst eb))" using that by (auto simp: ea'_def take_map)
      then show ?thesis using lead(2) ok(1) by auto
    qed
    then have lt: "\<forall>e \<in> set ea'. fst e < fst (hd eb')" unfolding hd by blast
    have new: "ea' @ eb' = ea @ eb" "ea' \<noteq> []" "eb' \<noteq> []" using ok(1) lead(1) by (auto simp: ea'_def eb'_def)
    have len: "length ea' \<le> bc_max_leaf_keys c" "length eb' \<le> bc_max_leaf_keys c"
      using ok F(9) by (simp_all add: ea'_def eb'_def)
    note R = leaf_pair_repaired [OF inv shape new lt len keyed]
    have codes: "write_leaf c (drop k (map fst eb)) (drop k (map snd eb)) nb = node_code c (LeafNode eb' nb)"
      "write_leaf c (map fst ea @ take k (map fst eb)) (map snd ea @ take k (map snd eb)) na = node_code c (LeafNode ea' b)"
      "commit_internal c p ?ch ((lk @ s # rk)[length ls := map fst eb ! k]) = write_node p (node_code c (InnerNode ?ch (lk @ fst (hd eb') # rk)))"
      using ok(1) shape(1) unfolding hd commit_internal_eq
      by (simp_all add: ea'_def eb'_def drop_map take_map R(1) list_update_append)
    show ?thesis unfolding codes
    proof (rule wp_store [OF b1 _ F(5) avail c R(4)])
      fix db b2 assume 2: "node_holds c db (LeafNode eb' nb)" "at_view {} (view_write b db V) b2"
      show "wp (write_node a (node_code c (LeafNode ea' b))) (\<lambda>_. wp (write_node p (node_code c (InnerNode ?ch (lk @ fst (hd eb') # rk)))) (\<lambda>_. Q True) E) E b2"
      proof (rule wp_write_two [OF 2(2) _ _ _ c R(3,5)], goal_cases)
        case (4 da dp b')
        then show ?case by (intro Q1 [OF R(6) [OF _ 2(1)]])
      qed (use avail F(4,6) in simp_all)
    qed simp
  qed
  have stay: "wp (unpin_page b False) (\<lambda>_. Q False) E b1" if "at_view {} (view_pin b V) b1" for b1
    by (rule wp_unpin_at [OF that]) (use avail Q2 in simp_all)
  show ?thesis unfolding borrow_right_leaf_def Let_def map_append list.map root_page.simps idx wp_fun
  proof (rule wp_fetch_at [OF b0 F(5) avail], rule wp_read_at [where x = "(map fst eb, map snd eb, nb)"])
    fix b1 assume b1: "at_view {} (view_pin b V) b1"
    then show "at_view {} (view_pin b V) b1" .
    show "wp (case (map fst eb, map snd eb, nb) of (r_keys, r_rids, r_next) \<Rightarrow>
        if leading_run r_keys < length r_keys \<and> bc_min_leaf_keys c \<le> length r_keys - leading_run r_keys
          \<and> length (map fst ea) + leading_run r_keys \<le> bc_max_leaf_keys c
        then py_seq (write_buf b (write_leaf c (drop (leading_run r_keys) r_keys) (drop (leading_run r_keys) r_rids) r_next))
          (py_seq (unpin_page b True)
          (py_seq (write_node a (write_leaf c (map fst ea @ take (leading_run r_keys) r_keys) (map snd ea @ take (leading_run r_keys) r_rids) na))
          (py_seq (commit_internal c p ?ch ((lk @ s # rk)[length ls := r_keys ! leading_run r_keys])) (py_return True))))
        else py_seq (unpin_page b False) (py_return False)) Q E b1"
      using move [OF b1] stay [OF b1] unfolding k_def by (simp add: wp_fun wp_return_fun)
  qed (use F(11) in simp_all)
qed

lemma borrow_left_leaf_spec:
  assumes inv: "tree_inv c (v_page V) (v_count V) (plug (Node p (ls @ Leaf a ea na # Leaf b eb nb # rs) (lk @ s # rk)) ctx)"
    and shape: "length ls = length lk" "length rs = length rk" "ctx_shape ctx"
    and keyed: "keyed (concat (map images ls) @ concat (map images rs))"
    and c: "conf_ok c" and b0: "at_view {} V b0" and avail: "0 < v_avail V"
    and Q1: "\<And>V' b'. repaired c V p (ls @ Leaf a ea na # Leaf b eb nb # rs) (lk @ s # rk) ctx V' \<Longrightarrow> at_view {} V' b' \<Longrightarrow> Q True b'"
    and Q2: "\<And>b'. at_view {} V b' \<Longrightarrow> Q False b'"
  shows "wp (borrow_left_leaf c p (map root_page (ls @ Leaf a ea na # Leaf b eb nb # rs)) (lk @ s # rk) (length ls + 1) (map fst eb) (map snd eb) nb)
    Q E b0"
proof -
  note F = leaf_pair_facts [OF inv shape]
  define k where "k = leading_run (rev (map fst ea))"
  define m where "m = length ea - k"
  define ea' eb' where "ea' = take m ea" and "eb' = drop m ea @ eb"
  let ?ch = "map root_page ls @ a # b # map root_page rs"
  have idx: "?ch ! (length ls + 1 - 1) = a" "?ch ! (length ls + 1) = b" by (simp_all add: nth_append)
  have move: "wp (write_buf a (write_leaf c (take m (map fst ea)) (take m (map snd ea)) na)) (\<lambda>_. wp (unpin_page a True)
      (\<lambda>_. wp (write_node b (write_leaf c (drop m (map fst ea) @ map fst eb) (drop m (map snd ea) @ map snd eb) nb))
      (\<lambda>_. wp (commit_internal c p ?ch ((lk @ s # rk)[length ls := map fst ea ! m])) (\<lambda>_. Q True) E) E) E) E b1"
    if b1: "at_view {} (view_pin a V) b1"
      and ok: "k < length ea" "length eb + k \<le> bc_max_leaf_keys c" for b1
  proof -
    have sorted: "sorted (map fst ea)" using F(1) by (simp add: sorted_append)
    have ok': "\<forall>y \<in> set (map fst ea). key_ok c y" using F(7) by auto
    have "leading_run (rev (map fst ea)) < length (map fst ea)" using ok(1) by (simp add: k_def)
    note lead = trailing_run_less [OF ok' sorted this, folded k_def, unfolded length_map, folded m_def]
    have m: "0 < m" "m < length ea" using ok(1) lead(1) by (simp_all add: m_def)
    have hd: "hd eb' = ea ! m" using m(2) by (simp add: eb'_def hd_append hd_drop_conv_nth)
    have "fst e < fst (ea ! m)" if "e \<in> set ea'" for e
    proof -
      have "fst e \<in> set (take m (map fst ea))" using that by (auto simp: ea'_def take_map)
      then show ?thesis using lead(2) m(2) by auto
    qed
    then have lt: "\<forall>e \<in> set ea'. fst e < fst (hd eb')" unfolding hd by blast
    have new: "ea' @ eb' = ea @ eb" "ea' \<noteq> []" "eb' \<noteq> []" using m by (auto simp: ea'_def eb'_def)
    have len: "length ea' \<le> bc_max_leaf_keys c" "length eb' \<le> bc_max_leaf_keys c"
      using ok F(8) by (simp_all add: ea'_def eb'_def m_def)
    note R = leaf_pair_repaired [OF inv shape new lt len keyed]
    have codes: "write_leaf c (take m (map fst ea)) (take m (map snd ea)) na = node_code c (LeafNode ea' b)"
      "write_leaf c (drop m (map fst ea) @ map fst eb) (drop m (map snd ea) @ map snd eb) nb = node_code c (LeafNode eb' nb)"
      "commit_internal c p ?ch ((lk @ s # rk)[length ls := map fst ea ! m]) = write_node p (node_code c (InnerNode ?ch (lk @ fst (hd eb') # rk)))"
      using m shape(1) unfolding hd commit_internal_eq
      by (simp_all add: ea'_def eb'_def drop_map take_map R(1) list_update_append)
    show ?thesis unfolding codes
    proof (rule wp_store [OF b1 _ F(4) avail c R(3)])
      fix da b2 assume 2: "node_holds c da (LeafNode ea' b)" "at_view {} (view_write a da V) b2"
      show "wp (write_node b (node_code c (LeafNode eb' nb))) (\<lambda>_. wp (write_node p (node_code c (InnerNode ?ch (lk @ fst (hd eb') # rk)))) (\<lambda>_. Q True) E) E b2"
      proof (rule wp_write_two [OF 2(2) _ _ _ c R(4,5)], goal_cases)
        case (4 db dp b')
        then show ?case unfolding view_write_swap [OF R(2) [symmetric]] by (intro Q1 [OF R(6) [OF 2(1)]])
      qed (use avail F(5,6) in simp_all)
    qed simp
  qed
  have stay: "wp (unpin_page a False) (\<lambda>_. Q False) E b1" if "at_view {} (view_pin a V) b1" for b1
    by (rule wp_unpin_at [OF that]) (use avail Q2 in simp_all)
  show ?thesis unfolding borrow_left_leaf_def Let_def map_append list.map root_page.simps idx wp_fun
  proof (rule wp_fetch_at [OF b0 F(4) avail], rule wp_read_at [where x = "(map fst ea, map snd ea, na)"])
    fix b1 assume b1: "at_view {} (view_pin a V) b1"
    then show "at_view {} (view_pin a V) b1" .
    show "wp (case (map fst ea, map snd ea, na) of (l_keys, l_rids, l_next) \<Rightarrow>
        if leading_run (rev l_keys) < length l_keys \<and> bc_min_leaf_keys c \<le> length l_keys - leading_run (rev l_keys)
          \<and> length (map fst eb) + leading_run (rev l_keys) \<le> bc_max_leaf_keys c
        then py_seq (write_buf a (write_leaf c (take (length l_keys - leading_run (rev l_keys)) l_keys) (take (length l_keys - leading_run (rev l_keys)) l_rids) l_next))
          (py_seq (unpin_page a True)
          (py_seq (write_node b (write_leaf c (drop (length l_keys - leading_run (rev l_keys)) l_keys @ map fst eb)
             (drop (length l_keys - leading_run (rev l_keys)) l_rids @ map snd eb) nb))
          (py_seq (commit_internal c p ?ch ((lk @ s # rk)[length ls + 1 - 1 := l_keys ! (length l_keys - leading_run (rev l_keys))])) (py_return True))))
        else py_seq (unpin_page a False) (py_return False)) Q E b1"
      using move [OF b1] stay [OF b1] unfolding k_def m_def by (simp add: wp_fun wp_return_fun)
  qed (use F(10) in simp_all)
qed

text \<open>
  Merging two leaves or redistributing their entries: the two branches of the code, for a
  sibling on the right or on the left, do the same from here on.
\<close>

definition few_duplicates :: "btconf \<Rightarrow> entry list \<Rightarrow> bool" where
  "few_duplicates c es \<longleftrightarrow> (\<forall>k. length (filter (\<lambda>e. fst e = k) es) \<le> bc_max_leaf_keys c div 4)"

lemma few_duplicates_sub: "few_duplicates c (xs @ ys @ zs) \<Longrightarrow> few_duplicates c ys"
  unfolding few_duplicates_def by (simp, meson add_leD1 add_leD2)

definition combine_leaves :: "btconf \<Rightarrow> nat \<Rightarrow> nat list \<Rightarrow> pyval list \<Rightarrow> nat \<Rightarrow> entry list \<Rightarrow> nat \<Rightarrow> (pool, unit) py" where
  "combine_leaves c p ch ks i es nx =
     (let ckeys = map fst es; crids = map snd es; a = ch ! i; b = ch ! (i + 1)
      in if length ckeys \<le> bc_max_leaf_keys c then
           py_seq (write_node a (write_leaf c ckeys crids nx)) (commit_internal c p (delete_at (i + 1) ch) (delete_at i ks))
         else
           py_bind (py_lift (split_point ckeys)) (\<lambda>s.
           py_seq (write_node a (write_leaf c (take s ckeys) (take s crids) b))
          (py_seq (write_node b (write_leaf c (drop s ckeys) (drop s crids) nx))
                  (commit_internal c p ch (ks[i := ckeys ! s])))))"

lemma delete_at_append: "delete_at (length xs) (xs @ y # ys) = xs @ ys"
  by (simp add: delete_at_def)

lemma combine_leaves_spec:
  assumes inv: "tree_inv c (v_page V) (v_count V) (plug (Node p (ls @ Leaf a ea na # Leaf b eb nb # rs) (lk @ s # rk)) ctx)"
    and shape: "length ls = length lk" "length rs = length rk" "ctx_shape ctx"
    and keyed: "keyed (concat (map images ls) @ concat (map images rs))"
    and c: "conf_ok c" and b0: "at_view {} V b0" and avail: "0 < v_avail V"
    and small: "length ea < bc_min_leaf_keys c \<or> length eb < bc_min_leaf_keys c"
    and few: "few_duplicates c (ea @ eb)"
    and Q: "\<And>V' b'. repaired c V p (ls @ Leaf a ea na # Leaf b eb nb # rs) (lk @ s # rk) ctx V' \<Longrightarrow> at_view {} V' b' \<Longrightarrow> Q () b'"
  shows "wp (combine_leaves c p (map root_page (ls @ Leaf a ea na # Leaf b eb nb # rs)) (lk @ s # rk) (length ls) (ea @ eb) nb) Q E b0"
proof -
  note F = leaf_pair_facts [OF inv shape]
  let ?es = "ea @ eb" and ?ch = "map root_page ls @ a # b # map root_page rs" and ?max = "bc_max_leaf_keys c"
  have idx: "?ch ! length ls = a" "?ch ! (length ls + 1) = b" by (simp_all add: nth_append)
  have del: "delete_at (length ls + 1) ?ch = map root_page ls @ a # map root_page rs" "delete_at (length ls) (lk @ s # rk) = lk @ rk"
    using delete_at_append [of "map root_page ls @ [a]" b] delete_at_append [of lk s rk] shape(1) by simp_all
  show ?thesis
  proof (cases "length ?es \<le> ?max")
    case True
    note R = leaf_merge_repaired [OF inv shape True keyed]
    have "wp (write_node a (node_code c (LeafNode ?es nb))) (\<lambda>_. wp (write_node p (node_code c (InnerNode (map root_page ls @ a # map root_page rs) (lk @ rk)))) Q E) E b0"
      by (rule wp_write_two [OF b0 avail F(4,6) c R(1,2)]) (rule Q [OF R(3)])
    with True show ?thesis
      unfolding combine_leaves_def Let_def map_append list.map root_page.simps idx del commit_internal_eq by (simp add: wp_fun)
  next
    case False
    have ok: "\<forall>y \<in> set (map fst ?es). key_ok c y" using F(7) by auto
    have two: "2 \<le> length (map fst ?es)" using False conf_okD(2) [OF c] by simp
    have rep: "map fst ?es \<noteq> replicate (length (map fst ?es)) (map fst ?es ! 0)"
    proof
      assume "map fst ?es = replicate (length (map fst ?es)) (map fst ?es ! 0)"
      then have "\<forall>e \<in> set ?es. fst e = map fst ?es ! 0" by (metis (no_types, lifting) image_eqI in_set_replicate list.set_map)
      then have "filter (\<lambda>e. fst e = map fst ?es ! 0) ?es = ?es" by (simp only: filter_True)
      then have "length ?es \<le> ?max div 4" using few unfolding few_duplicates_def by metis
      with False show False by simp
    qed
    obtain m where m: "split_point (map fst ?es) = Inr m" "0 < m" "m < length ?es" "map fst ?es ! (m - 1) < map fst ?es ! m"
      using split_point_ok [OF ok F(1) two] rep by (cases "split_point (map fst ?es)") (simp_all del: map_append nth_map)
    define ea' eb' where "ea' = take m ?es" and "eb' = drop m ?es"
    have hd: "hd eb' = ?es ! m" unfolding eb'_def by (rule hd_drop_conv_nth [OF m(3)])
    have lt: "\<forall>e \<in> set ea'. fst e < fst (hd eb')"
    proof
      fix e assume "e \<in> set ea'"
      then obtain i where i: "i < m" "e = ?es ! i" using m(3) unfolding ea'_def in_set_conv_nth by (auto simp del: take_append)
      have "map fst ?es ! i \<le> map fst ?es ! (m - 1)" by (rule sorted_nth_mono [OF F(1)]) (use i m(3) in auto)
      also note m(4)
      finally show "fst e < fst (hd eb')" using i m(3) hd by (simp del: map_append)
    qed
    have new: "ea' @ eb' = ea @ eb" "ea' \<noteq> []" "eb' \<noteq> []" using m(2,3) by (auto simp: ea'_def eb'_def simp del: take_append drop_append)
    have "length (filter (\<lambda>y. y = x) (map fst ?es)) \<le> ?max div 4" for x
      using few by (simp add: few_duplicates_def filter_map comp_def)
    note bal = split_point_balanced [OF ok two m(1) this]
    have "length ?es < ?max + ?max div 2" using small F(8,9) c by (auto simp: conf_ok_def)
    then have len: "length ea' \<le> ?max" "length eb' \<le> ?max"
      using bal m(3) unfolding ea'_def eb'_def length_take length_drop length_map by linarith+
    note R = leaf_pair_repaired [OF inv shape new lt len keyed]
    have codes: "write_leaf c (take m (map fst ?es)) (take m (map snd ?es)) b = node_code c (LeafNode ea' b)"
      "write_leaf c (drop m (map fst ?es)) (drop m (map snd ?es)) nb = node_code c (LeafNode eb' nb)"
      "commit_internal c p ?ch ((lk @ s # rk)[length ls := map fst ?es ! m]) = write_node p (node_code c (InnerNode ?ch (lk @ fst (hd eb') # rk)))"
      using m(3) shape(1) unfolding hd commit_internal_eq
      by (simp_all add: ea'_def eb'_def drop_map take_map list_update_append del: map_append)
    have "wp (write_node a (node_code c (LeafNode ea' b))) (\<lambda>_. wp (write_node b (node_code c (LeafNode eb' nb)))
        (\<lambda>_. wp (write_node p (node_code c (InnerNode ?ch (lk @ fst (hd eb') # rk)))) Q E) E) E b0"
    proof (rule wp_poke [OF b0 F(4) avail c R(3)])
      fix da b1 assume 1: "node_holds c da (LeafNode ea' b)" "at_view {} (view_write a da V) b1"
      show "wp (write_node b (node_code c (LeafNode eb' nb))) (\<lambda>_. wp (write_node p (node_code c (InnerNode ?ch (lk @ fst (hd eb') # rk)))) Q E) E b1"
      proof (rule wp_write_two [OF 1(2) _ _ _ c R(4,5)], goal_cases)
        case (4 db dp b')
        then show ?case unfolding view_write_swap [OF R(2) [symmetric]] by (intro Q [OF R(6) [OF 1(1)]])
      qed (use avail F(5,6) in simp_all)
    qed
    then have "wp (combine_leaves c p ?ch (lk @ s # rk) (length ls) ?es nb) Q E b0"
      unfolding combine_leaves_def Let_def idx if_not_P [OF False [folded length_map [of fst]]] wp_fun m(1) wp_lift_Inr codes .
    then show ?thesis by simp
  qed
qed

lemma wp_combine_right:
  assumes "at_view {} V b0" and "ch ! (i + 1) < v_count V" and "0 < v_avail V"
    and "read_leaf c (v_page V (ch ! (i + 1))) = Inr (map fst eb, map snd eb, nb)"
    and "\<And>b1. at_view {} V b1 \<Longrightarrow> wp (combine_leaves c p ch ks i (ea @ eb) nb) Q E b1"
  shows "wp (combine_right_leaf c p ch ks i (map fst ea) (map snd ea)) Q E b0"
  unfolding combine_right_leaf_def Let_def wp_fun
  by (rule wp_peek [where f = "read_leaf c", OF assms(1-4)]) (simp only: prod.case assms(5) [unfolded combine_leaves_def Let_def map_append])

lemma wp_combine_left:
  assumes "at_view {} V b0" and "ch ! i < v_count V" and "0 < v_avail V"
    and "read_leaf c (v_page V (ch ! i)) = Inr (map fst ea, map snd ea, na)"
    and "\<And>b1. at_view {} V b1 \<Longrightarrow> wp (combine_leaves c p ch ks i (ea @ eb) nb) Q E b1"
  shows "wp (combine_left_leaf c p ch ks (i + 1) (map fst eb) (map snd eb) nb) Q E b0"
proof -
  have "i + 1 \<noteq> 0" by simp
  show ?thesis unfolding combine_left_leaf_def Let_def if_not_P [OF \<open>i + 1 \<noteq> 0\<close>] wp_fun add_diff_cancel_right'
    by (rule wp_peek [where f = "read_leaf c", OF assms(1-4)]) (simp only: prod.case assms(5) [unfolded combine_leaves_def Let_def map_append])
qed

lemma has_height_0: "has_height 0 t \<longleftrightarrow> (\<exists>p es nx. t = Leaf p es nx)"
  by (cases t) simp_all

text \<open>A leaf with its right or left sibling.\<close>

lemma right_sibling:
  assumes inv: "tree_inv c pg n (plug (Leaf q es nx) ((p, ls, lk, rk, B # rs) # ctx))" and shape: "ctx_shape ((p, ls, lk, rk, B # rs) # ctx)"
  obtains b eb nb s rk' where "B = Leaf b eb nb" "rk = s # rk'" "length rs = length rk'"
    "\<exists>xs zs. entries (items (plug (Leaf q es nx) ((p, ls, lk, rk, B # rs) # ctx))) = xs @ (es @ eb) @ zs"
proof -
  obtain s rk' where rk: "rk = s # rk'" "length rs = length rk'" using shape by (cases rk) auto
  have "has_height 0 B" using inv [unfolded tree_inv_plug [OF shape]] by auto
  then obtain b eb nb where B: "B = Leaf b eb nb" by (auto simp: has_height_0)
  show ?thesis
  proof (rule that [OF B rk])
    show "\<exists>xs zs. entries (items (plug (Leaf q es nx) ((p, ls, lk, rk, B # rs) # ctx))) = xs @ (es @ eb) @ zs"
      unfolding items_plug [OF shape] unfolding B rk
      by (rule exI [of _ "entries (left_items ((p, ls, lk, rk, B # rs) # ctx))"],
          rule exI [of _ "entries (right_seg rk' (map items rs) @ right_items ctx)"]) (simp add: right_seg_def)
  qed
qed

lemma left_sibling:
  assumes inv: "tree_inv c pg n (plug (Leaf q es nx) ((p, ls, lk, rk, rs) # ctx))" and shape: "ctx_shape ((p, ls, lk, rk, rs) # ctx)"
    and ls: "ls \<noteq> []"
  obtains a ea na s ls' lk' where "ls = ls' @ [Leaf a ea na]" "lk = lk' @ [s]" "length ls' = length lk'"
    "\<exists>xs zs. entries (items (plug (Leaf q es nx) ((p, ls, lk, rk, rs) # ctx))) = xs @ (ea @ es) @ zs"
proof -
  obtain ls' A where ls': "ls = ls' @ [A]" using ls by (cases ls rule: rev_cases) auto
  then obtain s lk' where lk: "lk = lk' @ [s]" "length ls' = length lk'" using shape by (cases lk rule: rev_cases) auto
  have "has_height 0 A" using inv [unfolded tree_inv_plug [OF shape]] ls' by auto
  then obtain a ea na where A: "A = Leaf a ea na" by (auto simp: has_height_0)
  show ?thesis
  proof (rule that [OF ls' [unfolded A] lk])
    show "\<exists>xs zs. entries (items (plug (Leaf q es nx) ((p, ls, lk, rk, rs) # ctx))) = xs @ (ea @ es) @ zs"
      unfolding items_plug [OF shape] unfolding ls' lk A
      by (rule exI [of _ "entries (left_items ctx @ left_seg (map items ls') lk')"],
          rule exI [of _ "entries (right_items ((p, ls, lk, rk, rs) # ctx))"])
        (use left_seg_snoc [of "map items ls'" lk' "entry_items ea" s] lk(2) in simp)
  qed
qed

lemma fixup_leaf_spec:
  assumes inv: "tree_inv c (v_page V) (v_count V) (plug (Leaf q es nx) ((p, ls, lk, rk, rs) # ctx))"
    and shape: "ctx_shape ((p, ls, lk, rk, rs) # ctx)" and keyed: "keyed (ctx_images q ((p, ls, lk, rk, rs) # ctx))"
    and c: "conf_ok c" and b0: "at_view {} V b0" and avail: "0 < v_avail V" and small: "length es < bc_min_leaf_keys c"
    and few: "few_duplicates c (entries (items (plug (Leaf q es nx) ((p, ls, lk, rk, rs) # ctx))))"
    and Q: "\<And>V' b'. repaired c V p (ls @ Leaf q es nx # rs) (lk @ rk) ctx V' \<Longrightarrow> at_view {} V' b' \<Longrightarrow> Q () b'"
  shows "wp (fixup_leaf c p (map root_page (ls @ Leaf q es nx # rs)) (lk @ rk) (length ls)) Q E b0"
proof -
  let ?ch = "map root_page (ls @ Leaf q es nx # rs)" and ?ks = "lk @ rk" and ?i = "length ls"
  let ?keys = "map fst es" and ?rids = "map snd es"
  have ctx: "ctx_shape ctx" "length ls = length lk" "length rs = length rk" using shape by simp_all
  note L = leaf_focus [OF inv shape]
  have right: "\<exists>b eb nb s rk' rs'. rs = Leaf b eb nb # rs' \<and> rk = s # rk' \<and> length rs' = length rk' \<and> few_duplicates c (es @ eb)"
    if ne: "rs \<noteq> []"
  proof -
    obtain B rs' where rs: "rs = B # rs'" using ne by (cases rs) auto
    from right_sibling [OF inv [unfolded rs] shape [unfolded rs]] few rs show ?thesis by (metis few_duplicates_sub)
  qed
  have left: "\<exists>a ea na s ls' lk'. ls = ls' @ [Leaf a ea na] \<and> lk = lk' @ [s] \<and> length ls' = length lk' \<and> few_duplicates c (ea @ es)"
    if "ls \<noteq> []"
    using left_sibling [OF inv shape that] few by (metis few_duplicates_sub)
  have combine: "wp (if ?i + 1 < length ?ch then combine_right_leaf c p ?ch ?ks ?i ?keys ?rids
      else combine_left_leaf c p ?ch ?ks ?i ?keys ?rids nx) Q E b1" if b1: "at_view {} V b1" for b1
  proof (cases "rs = []")
    case False
    then obtain b eb nb s rk' rs' where R: "rs = Leaf b eb nb # rs'" "rk = s # rk'" "length rs' = length rk'" "few_duplicates c (es @ eb)"
      using right by blast
    note I = inv [unfolded R plug.simps]
    note F = leaf_pair_facts [OF I ctx(2) R(3) ctx(1)]
    have K: "keyed (concat (map images ls) @ concat (map images rs'))" using keyed by (simp add: R)
    have W: "wp (combine_leaves c p ?ch ?ks ?i (es @ eb) nb) Q E b2" if "at_view {} V b2" for b2
      using combine_leaves_spec [OF I ctx(2) R(3) ctx(1) K c that avail disjI1 [OF small] R(4), of Q] Q by (simp add: R)
    have "wp (combine_right_leaf c p ?ch ?ks ?i ?keys ?rids) Q E b1"
      by (rule wp_combine_right [OF b1]) (use F avail W in \<open>simp_all add: R nth_append\<close>)
    then show ?thesis using R by simp
  next
    case True
    then have ls: "ls \<noteq> []" using keyed ctx by auto
    then obtain a ea na s ls' lk' where R: "ls = ls' @ [Leaf a ea na]" "lk = lk' @ [s]" "length ls' = length lk'" "few_duplicates c (ea @ es)"
      using left by blast
    have I: "tree_inv c (v_page V) (v_count V) (plug (Node p (ls' @ Leaf a ea na # Leaf q es nx # rs) (lk' @ s # rk)) ctx)"
      using inv by (simp add: R)
    note F = leaf_pair_facts [OF I R(3) ctx(3,1)]
    have K: "keyed (concat (map images ls') @ concat (map images rs))" using keyed by (simp add: R)
    have W: "wp (combine_leaves c p ?ch ?ks (length ls') (ea @ es) nx) Q E b2" if "at_view {} V b2" for b2
      using combine_leaves_spec [OF I R(3) ctx(3,1) K c that avail disjI2 [OF small] R(4), of Q] Q by (simp add: R)
    have "wp (combine_left_leaf c p ?ch ?ks (length ls' + 1) ?keys ?rids nx) Q E b1"
      by (rule wp_combine_left [OF b1]) (use F avail W in \<open>simp_all add: R nth_append\<close>)
    then show ?thesis using True by (simp add: R)
  qed
  have go_left: "wp (if 0 < ?i then borrow_left_leaf c p ?ch ?ks ?i ?keys ?rids nx else py_return False) (\<lambda>d. wp (if d then py_return ()
      else if ?i + 1 < length ?ch then combine_right_leaf c p ?ch ?ks ?i ?keys ?rids
      else combine_left_leaf c p ?ch ?ks ?i ?keys ?rids nx) Q E) E b1" if b1: "at_view {} V b1" for b1
  proof (cases "ls = []")
    case True
    then show ?thesis using combine [OF b1] by (simp add: wp_return)
  next
    case False
    then obtain a ea na s ls' lk' where R: "ls = ls' @ [Leaf a ea na]" "lk = lk' @ [s]" "length ls' = length lk'" using left by blast
    have I: "tree_inv c (v_page V) (v_count V) (plug (Node p (ls' @ Leaf a ea na # Leaf q es nx # rs) (lk' @ s # rk)) ctx)"
      using inv by (simp add: R)
    have K: "keyed (concat (map images ls') @ concat (map images rs))" using keyed by (simp add: R)
    have "wp (borrow_left_leaf c p (map root_page (ls' @ Leaf a ea na # Leaf q es nx # rs)) (lk' @ s # rk) (length ls' + 1) ?keys ?rids nx)
        (\<lambda>d. wp (if d then py_return () else if ?i + 1 < length ?ch then combine_right_leaf c p ?ch ?ks ?i ?keys ?rids
          else combine_left_leaf c p ?ch ?ks ?i ?keys ?rids nx) Q E) E b1"
      by (rule borrow_left_leaf_spec [OF I R(3) ctx(3,1) K c b1 avail]) (use Q combine in \<open>simp_all add: R wp_return\<close>)
    then show ?thesis by (simp add: R)
  qed
  have go_right: "wp (if ?i + 1 < length ?ch then borrow_right_leaf c p ?ch ?ks ?i ?keys ?rids nx else py_return False) (\<lambda>d. wp (if d then py_return ()
      else py_bind (if 0 < ?i then borrow_left_leaf c p ?ch ?ks ?i ?keys ?rids nx else py_return False) (\<lambda>d. if d then py_return ()
      else if ?i + 1 < length ?ch then combine_right_leaf c p ?ch ?ks ?i ?keys ?rids
      else combine_left_leaf c p ?ch ?ks ?i ?keys ?rids nx)) Q E) E b1" if b1: "at_view {} V b1" for b1
  proof (cases "rs = []")
    case True
    then show ?thesis using go_left [OF b1] by (simp add: wp_return wp_fun)
  next
    case False
    then obtain b eb nb s rk' rs' where R: "rs = Leaf b eb nb # rs'" "rk = s # rk'" "length rs' = length rk'" using right by blast
    note I = inv [unfolded R plug.simps]
    have K: "keyed (concat (map images ls) @ concat (map images rs'))" using keyed by (simp add: R)
    have "wp (borrow_right_leaf c p (map root_page (ls @ Leaf q es nx # Leaf b eb nb # rs')) (lk @ s # rk') ?i ?keys ?rids nx) (\<lambda>d. wp (if d then py_return ()
      else py_bind (if 0 < ?i then borrow_left_leaf c p ?ch ?ks ?i ?keys ?rids nx else py_return False) (\<lambda>d. if d then py_return ()
      else if ?i + 1 < length ?ch then combine_right_leaf c p ?ch ?ks ?i ?keys ?rids
      else combine_left_leaf c p ?ch ?ks ?i ?keys ?rids nx)) Q E) E b1"
      by (rule borrow_right_leaf_spec [OF I ctx(2) R(3) ctx(1) K c b1 avail]) (use Q go_left in \<open>simp_all add: R wp_return wp_fun\<close>)
    then show ?thesis by (simp add: R)
  qed
  have q: "?ch ! length ls = q" by (simp add: nth_append)
  show ?thesis unfolding fixup_leaf_def Let_def wp_fun q
    by (rule wp_peek [where f = "read_leaf c", OF b0 L(3) avail L(2)]) (use go_right in \<open>simp add: wp_fun\<close>)
qed

end
