(* ===== verification/BTree_Inner_Repair.thy ===== *)
theory BTree_Inner_Repair
  imports BTree_Leaf_Repair
begin

text \<open>
  Deletion from the B+-tree, second part: internal nodes. A rotation through the parent and
  a merge both leave the sequence of entries and separators of the tree as it is: they
  only divide it differently among the pages.
\<close>

section \<open>Two adjacent internal nodes\<close>

lemma weave_join:
  assumes "length xs = Suc (length ks)" and "length ys = Suc (length ls)"
  shows "weave (xs @ ys) (ks @ s # ls) = weave xs ks @ (s, None) # weave ys ls"
  using weave_cut [of "xs @ ys" "ks @ s # ls" "length ks"] assms by simp

lemma inner_pair_facts:
  assumes inv: "tree_inv c pg n (plug (Node p (ls @ Node a tas kas # Node b tbs kbs # rs) (lk @ s # rk)) ctx)"
    and shape: "length ls = length lk" "length rs = length rk" "ctx_shape ctx"
  shows "a < n" and "b < n" and "p < n" and "a \<noteq> b"
    and "length tas = Suc (length kas)" and "length tbs = Suc (length kbs)"
    and "length kas \<le> bc_max_internal_keys c" and "length kbs \<le> bc_max_internal_keys c"
    and "read_internal c (pg a) = Inr (map root_page tas, kas)" and "read_internal c (pg b) = Inr (map root_page tbs, kbs)"
    and "\<forall>k \<in> set (kas @ s # kbs). key_ok c k" and "\<forall>q \<in> set (map root_page (tas @ tbs)). q < 2 ^ 32"
    and "internal_fits c (map root_page ls @ a # b # map root_page rs) (lk @ s # rk)"
proof -
  let ?A = "Node a tas kas" and ?B = "Node b tbs kbs"
  note I = inv [unfolded pair_inv [OF shape]]
  have P: "pages_ok c pg n (pair_images p ls lk ?A s ?B rk rs ctx)" using I by blast
  have mem: "(a, InnerNode (map root_page tas) kas) \<in> set (pair_images p ls lk ?A s ?B rk rs ctx)"
    "(b, InnerNode (map root_page tbs) kbs) \<in> set (pair_images p ls lk ?A s ?B rk rs ctx)"
    "(p, InnerNode (map root_page (ls @ ?A # ?B # rs)) (lk @ s # rk)) \<in> set (pair_images p ls lk ?A s ?B rk rs ctx)"
    by (simp_all add: pair_images_def)
  note Fa = pages_okD [OF P mem(1)] and Fb = pages_okD [OF P mem(2)] and Fp = pages_okD [OF P mem(3)]
  show "a \<noteq> b" using P by (simp add: pages_ok_def pair_images_def)
  show "a < n" "b < n" "p < n" "length tas = Suc (length kas)" "length tbs = Suc (length kbs)"
    "length kas \<le> bc_max_internal_keys c" "length kbs \<le> bc_max_internal_keys c"
    "read_internal c (pg a) = Inr (map root_page tas, kas)" "read_internal c (pg b) = Inr (map root_page tbs, kbs)"
    "internal_fits c (map root_page ls @ a # b # map root_page rs) (lk @ s # rk)"
    using Fa Fb Fp by (simp_all add: internal_fits_def)
  show "\<forall>k \<in> set (kas @ s # kbs). key_ok c k" "\<forall>q \<in> set (map root_page (tas @ tbs)). q < 2 ^ 32"
    using Fa(1) Fb(1) Fp(1) by (auto simp: internal_fits_def)
qed

text \<open>The pages of the pair, with the grandchildren together.\<close>

lemma inner_pair_images:
  "mset (pair_images p ls lk (Node a tas kas) s (Node b tbs kbs) rk rs ctx) =
    mset ((p, InnerNode (map root_page ls @ a # b # map root_page rs) (lk @ s # rk)) # (a, InnerNode (map root_page tas) kas)
      # (b, InnerNode (map root_page tbs) kbs) # concat (map images (tas @ tbs)) @ concat (map images ls) @ concat (map images rs) @ ctx_images p ctx)"
  by (simp add: pair_images_def)

lemma pages_ok_three:
  assumes "pages_ok c pg n ((p, x) # (a, y) # (b, z) # rest)"
    and "node_fits c x'" "node_holds c dp x'" and "node_fits c y'" "node_holds c da y'" and "node_fits c z'" "node_holds c db z'"
  shows "pages_ok c (pg(b := db, a := da, p := dp)) n ((p, x') # (a, y') # (b, z') # rest)"
proof -
  have "pages_ok c (pg(b := db)) n ([(p, x), (a, y)] @ (b, z') # rest)" by (rule pages_ok_set [OF _ assms(6,7)]) (use assms(1) in simp)
  then have "pages_ok c (pg(b := db, a := da)) n ([(p, x)] @ (a, y') # (b, z') # rest)" by (intro pages_ok_set [OF _ assms(4,5)]) simp
  then show ?thesis using pages_ok_update [OF _ assms(2,3)] by simp
qed

lemma inner_pair_repaired:
  assumes inv: "tree_inv c (v_page V) (v_count V) (plug (Node p (ls @ Node a tas kas # Node b tbs kbs # rs) (lk @ s # rk)) ctx)"
    and shape: "length ls = length lk" "length rs = length rk" "ctx_shape ctx"
    and new: "tas' @ tbs' = tas @ tbs" "kas' @ s' # kbs' = kas @ s # kbs" "length tas' = Suc (length kas')"
    and ne: "kas' \<noteq> []" "kbs' \<noteq> []"
    and len: "length kas' \<le> bc_max_internal_keys c" "length kbs' \<le> bc_max_internal_keys c"
    and keyed: "keyed (concat (map images ls) @ concat (map images rs))" "keyed (concat (map images (tas @ tbs)))"
  shows "node_fits c (InnerNode (map root_page tas') kas')" and "node_fits c (InnerNode (map root_page tbs') kbs')"
    and "node_fits c (InnerNode (map root_page ls @ a # b # map root_page rs) (lk @ s' # rk))"
    and "node_holds c da (InnerNode (map root_page tas') kas') \<Longrightarrow> node_holds c db (InnerNode (map root_page tbs') kbs') \<Longrightarrow>
      node_holds c dp (InnerNode (map root_page ls @ a # b # map root_page rs) (lk @ s' # rk)) \<Longrightarrow>
      repaired c V p (ls @ Node a tas kas # Node b tbs kbs # rs) (lk @ s # rk) ctx
        (view_write p dp (view_write a da (view_write b db V)))"
proof -
  let ?pg = "v_page V" and ?n = "v_count V" and ?A = "Node a tas kas" and ?B = "Node b tbs kbs"
  let ?A' = "Node a tas' kas'" and ?B' = "Node b tbs' kbs'" and ?L = "(p, ls, lk, rk, rs) # ctx"
  note F = inner_pair_facts [OF inv shape] and I = inv [unfolded pair_inv [OF shape]]
  have lenb: "length tbs' = Suc (length kbs')"
    using arg_cong [OF new(1), of length] arg_cong [OF new(2), of length] new(3) F(5,6) by simp
  have mem: "set tas' \<union> set tbs' = set tas \<union> set tbs" "set kas' \<union> insert s' (set kbs') = set kas \<union> insert s (set kbs)"
    using arg_cong [OF new(1), of set] arg_cong [OF new(2), of set] by simp_all
  have ok: "\<forall>k \<in> set kas' \<union> insert s' (set kbs'). key_ok c k" using F(11) unfolding mem by auto
  have kids: "\<forall>t \<in> set tas' \<union> set tbs'. root_page t < 2 ^ 32" using F(12) unfolding mem by auto
  show fa: "node_fits c (InnerNode (map root_page tas') kas')" and fb: "node_fits c (InnerNode (map root_page tbs') kbs')"
    and fp: "node_fits c (InnerNode (map root_page ls @ a # b # map root_page rs) (lk @ s' # rk))"
    using ok kids len new(3) lenb F(13) by (auto simp: internal_fits_def)
  assume d: "node_holds c da (InnerNode (map root_page tas') kas')" "node_holds c db (InnerNode (map root_page tbs') kbs')"
    "node_holds c dp (InnerNode (map root_page ls @ a # b # map root_page rs) (lk @ s' # rk))"
  have "pages_ok c ?pg ?n (pair_images p ls lk ?A s ?B rk rs ctx)" using I by blast
  from pages_ok_three [OF this [unfolded pages_ok_mset [OF inner_pair_images]] fp d(3) fa d(1) fb d(2)]
  have pages: "pages_ok c (?pg(b := db, a := da, p := dp)) ?n (pair_images p ls lk ?A' s' ?B' rk rs ctx)"
    unfolding pages_ok_mset [OF inner_pair_images] by (simp only: new(1))
  have items: "items ?A' @ (s', None) # items ?B' = items ?A @ (s, None) # items ?B"
    using weave_join [of "map items tas'" kas' "map items tbs'" kbs' s'] weave_join [of "map items tas" kas "map items tbs" kbs s]
      new lenb F(5,6) by (simp flip: map_append)
  have leaves: "leaves ?A' @ leaves ?B' = leaves ?A @ leaves ?B"
    using arg_cong [OF new(1), of "\<lambda>ts. concat (map leaves ts)"] by simp
  obtain h where h: "has_height h ?A" "has_height h ?B" "ctx_height h ?L" using I by blast
  then have h': "has_height h ?A'" "has_height h ?B'" using mem(1) unfolding has_height_Node by blast+
  have "sorted_wrt before (left_items ?L @ (items ?A' @ (s', None) # items ?B') @ right_items ?L)"
    "linked (left_leaves ?L @ (leaves ?A' @ leaves ?B') @ right_leaves ?L)"
    unfolding items leaves using I by simp_all
  then have inv': "tree_inv c (?pg(b := db, a := da, p := dp)) ?n (plug (Node p (ls @ ?A' # ?B' # rs) (lk @ s' # rk)) ctx)"
    unfolding pair_inv [OF shape] using pages h(3) h' by auto
  have w: "weave (map items (ls @ X # Y # rs)) (lk @ k # rk)
      = left_seg (map items ls) lk @ (items X @ (k, None) # items Y) @ right_seg rk (map items rs)" for X Y k
    using weave_split [of "map items ls" lk "map items (Y # rs)" "k # rk" "items X"] shape by (simp add: right_seg_def)
  have "entries (weave (map items (ls @ ?A' # ?B' # rs)) (lk @ s' # rk)) = entries (weave (map items (ls @ ?A # ?B # rs)) (lk @ s # rk))"
    unfolding w items ..
  moreover have "evolves (set (pages (Node p (ls @ ?A # ?B # rs) (lk @ s # rk)))) V (view_write p dp (view_write a da (view_write b db V)))"
    by (simp add: evolves_def)
  moreover have kin: "set (pages (Node a xs ks) @ pages (Node b ys ls)) = {a, b} \<union> (\<Union>t \<in> set xs \<union> set ys. set (pages t))" for xs ks ys ls
    by auto
  have same: "set (pages ?A' @ pages ?B') = set (pages ?A @ pages ?B)" unfolding kin mem(1) ..
  have "set (pages (Node p (ls @ X # Y # rs) ks)) = insert p ((\<Union>t \<in> set ls \<union> set rs. set (pages t)) \<union> set (pages X @ pages Y))" for X Y ks
    by auto
  from this [of ?A' ?B'] this [of ?A ?B]
  have "set (pages (Node p (ls @ ?A' # ?B' # rs) (lk @ s' # rk))) \<subseteq> set (pages (Node p (ls @ ?A # ?B # rs) (lk @ s # rk)))"
    unfolding same by simp
  moreover have "keyed (images ?A' @ images ?B')" using keyed(2) ne mem(1) by auto
  ultimately show "repaired c V p (ls @ ?A # ?B # rs) (lk @ s # rk) ctx (view_write p dp (view_write a da (view_write b db V)))"
    unfolding repaired_def using inv' keyed(1)
    by (intro exI [of _ "ls @ ?A' # ?B' # rs"] exI [of _ "lk @ s' # rk"]) (simp del: images.simps items.simps)
qed

lemma inner_merge_repaired:
  assumes inv: "tree_inv c (v_page V) (v_count V) (plug (Node p (ls @ Node a tas kas # Node b tbs kbs # rs) (lk @ s # rk)) ctx)"
    and shape: "length ls = length lk" "length rs = length rk" "ctx_shape ctx"
    and len: "length kas + length kbs < bc_max_internal_keys c"
    and keyed: "keyed (concat (map images ls) @ concat (map images rs))" "keyed (concat (map images (tas @ tbs)))"
  shows "node_fits c (InnerNode (map root_page (tas @ tbs)) (kas @ s # kbs))"
    and "node_fits c (InnerNode (map root_page ls @ a # map root_page rs) (lk @ rk))"
    and "node_holds c da (InnerNode (map root_page (tas @ tbs)) (kas @ s # kbs)) \<Longrightarrow>
      node_holds c dp (InnerNode (map root_page ls @ a # map root_page rs) (lk @ rk)) \<Longrightarrow>
      repaired c V p (ls @ Node a tas kas # Node b tbs kbs # rs) (lk @ s # rk) ctx (view_write p dp (view_write a da V))"
proof -
  let ?pg = "v_page V" and ?n = "v_count V" and ?A = "Node a tas kas" and ?B = "Node b tbs kbs"
  let ?M = "Node a (tas @ tbs) (kas @ s # kbs)" and ?L = "(p, ls, lk, rk, rs) # ctx"
  note F = inner_pair_facts [OF inv shape] and I = inv [unfolded pair_inv [OF shape]]
  show fa: "node_fits c (InnerNode (map root_page (tas @ tbs)) (kas @ s # kbs))"
    and fp: "node_fits c (InnerNode (map root_page ls @ a # map root_page rs) (lk @ rk))"
    using F(5,6,11-13) len by (auto simp: internal_fits_def)
  assume d: "node_holds c da (InnerNode (map root_page (tas @ tbs)) (kas @ s # kbs))"
    "node_holds c dp (InnerNode (map root_page ls @ a # map root_page rs) (lk @ rk))"
  let ?P = "InnerNode (map root_page ls @ a # b # map root_page rs) (lk @ s # rk)"
  let ?rest = "concat (map images (tas @ tbs)) @ concat (map images ls) @ concat (map images rs) @ ctx_images p ctx"
  have "pages_ok c ?pg ?n (pair_images p ls lk ?A s ?B rk rs ctx)" using I by blast
  from pages_ok_drop [of _ _ _ "[(p, ?P), (a, InnerNode (map root_page tas) kas)]", simplified, OF this [unfolded pages_ok_mset [OF inner_pair_images]]]
  have "pages_ok c (?pg(a := da)) ?n ([(p, ?P)] @ (a, InnerNode (map root_page (tas @ tbs)) (kas @ s # kbs)) # ?rest)"
    by (intro pages_ok_set [OF _ fa d(1)]) simp
  then have "pages_ok c (?pg(a := da, p := dp)) ?n ((p, InnerNode (map root_page ls @ a # map root_page rs) (lk @ rk))
      # (a, InnerNode (map root_page (tas @ tbs)) (kas @ s # kbs)) # ?rest)"
    using pages_ok_update [OF _ fp d(2)] by simp
  then have pages: "pages_ok c (?pg(a := da, p := dp)) ?n (images ?M @ ctx_images (root_page ?M) ?L)"
    by (subst pages_ok_mset [of _ "(p, InnerNode (map root_page ls @ a # map root_page rs) (lk @ rk))
      # (a, InnerNode (map root_page (tas @ tbs)) (kas @ s # kbs)) # ?rest"]) simp_all
  have items: "items ?M = items ?A @ (s, None) # items ?B"
    using weave_join [of "map items tas" kas "map items tbs" kbs s] F(5,6) by simp
  obtain h where "has_height h ?A" "has_height h ?B" "ctx_height h ?L" using I by blast
  then have h: "has_height h ?M \<and> ctx_height h ?L" unfolding has_height_Node by auto
  have shape': "ctx_shape ?L" using shape by simp
  have "tree_inv c (?pg(a := da, p := dp)) ?n (plug ?M ?L)"
    unfolding tree_inv_plug [OF shape'] items using pages I h by auto
  then have inv': "tree_inv c (?pg(a := da, p := dp)) ?n (plug (Node p (ls @ ?M # rs) (lk @ rk)) ctx)" by simp
  have "weave (map items (ls @ ?M # rs)) (lk @ rk) = weave (map items (ls @ ?A # ?B # rs)) (lk @ s # rk)"
    using weave_split [of "map items ls" lk "map items rs" rk "items ?M"]
      weave_split [of "map items ls" lk "map items (?B # rs)" "s # rk" "items ?A"] shape
    by (simp add: right_seg_def items del: items.simps)
  moreover have "evolves (set (pages (Node p (ls @ ?A # ?B # rs) (lk @ s # rk)))) V (view_write p dp (view_write a da V))"
    by (simp add: evolves_def)
  moreover have "set (pages (Node p (ls @ ?M # rs) (lk @ rk))) \<subseteq> set (pages (Node p (ls @ ?A # ?B # rs) (lk @ s # rk)))" by auto
  moreover have "keyed (images ?M)" using keyed(2) by auto
  ultimately show "repaired c V p (ls @ ?A # ?B # rs) (lk @ s # rk) ctx (view_write p dp (view_write a da V))"
    unfolding repaired_def using inv' keyed(1)
    by (intro exI [of _ "ls @ ?M # rs"] exI [of _ "lk @ rk"]) (simp del: images.simps items.simps)
qed

section \<open>Repairing internal nodes\<close>

lemma borrow_right_internal_spec:
  assumes inv: "tree_inv c (v_page V) (v_count V) (plug (Node p (ls @ Node a tas kas # Node b tbs kbs # rs) (lk @ s # rk)) ctx)"
    and shape: "length ls = length lk" "length rs = length rk" "ctx_shape ctx"
    and keyed: "keyed (concat (map images ls) @ concat (map images rs))" "keyed (concat (map images (tas @ tbs)))"
    and c: "conf_ok c" and b0: "at_view {} V b0" and avail: "0 < v_avail V" and small: "length kas < bc_min_internal_keys c"
    and Q1: "\<And>V' b'. repaired c V p (ls @ Node a tas kas # Node b tbs kbs # rs) (lk @ s # rk) ctx V' \<Longrightarrow> at_view {} V' b' \<Longrightarrow> Q True b'"
    and Q2: "\<And>b'. at_view {} V b' \<Longrightarrow> length kbs \<le> bc_min_internal_keys c \<Longrightarrow> Q False b'"
  shows "wp (borrow_right_internal c p (map root_page (ls @ Node a tas kas # Node b tbs kbs # rs)) (lk @ s # rk) (length ls) (map root_page tas) kas)
    Q E b0"
proof -
  note F = inner_pair_facts [OF inv shape]
  let ?ch = "map root_page ls @ a # b # map root_page rs"
  let ?tbs = "map root_page tbs"
  have idx: "?ch ! length ls = a" "?ch ! (length ls + 1) = b" "(lk @ s # rk) ! length ls = s" using shape(1) by (simp_all add: nth_append)
  have move: "wp (write_buf b (write_internal c (tl ?tbs) (tl kbs))) (\<lambda>_. wp (unpin_page b True)
      (\<lambda>_. wp (write_node a (write_internal c (map root_page tas @ [hd ?tbs]) (kas @ [s])))
      (\<lambda>_. wp (commit_internal c p ?ch ((lk @ s # rk)[length ls := hd kbs])) (\<lambda>_. Q True) E) E) E) E b1"
    if b1: "at_view {} (view_pin b V) b1" and big: "bc_min_internal_keys c < length kbs" for b1
  proof -
    obtain k kbs' where k: "kbs = k # kbs'" using big by (cases kbs) auto
    then have ne: "kbs' \<noteq> []" using big small by auto
    obtain t tbs' where t: "tbs = t # tbs'" using F(6) by (cases tbs) auto
    have len: "length (kas @ [s]) \<le> bc_max_internal_keys c" "length kbs' \<le> bc_max_internal_keys c"
      using small F(8) k conf_okD(7) [OF c] by auto
    have new: "(tas @ [t]) @ tbs' = tas @ tbs" "(kas @ [s]) @ k # kbs' = kas @ s # kbs" "length (tas @ [t]) = Suc (length (kas @ [s]))"
      using F(5) by (simp_all add: k t)
    note R = inner_pair_repaired [OF inv shape new _ ne len keyed, simplified]
    have codes: "write_internal c (tl ?tbs) (tl kbs) = node_code c (InnerNode (map root_page tbs') kbs')"
      "write_internal c (map root_page tas @ [hd ?tbs]) (kas @ [s]) = node_code c (InnerNode (map root_page (tas @ [t])) (kas @ [s]))"
      "commit_internal c p ?ch ((lk @ s # rk)[length ls := hd kbs]) = write_node p (node_code c (InnerNode ?ch (lk @ k # rk)))"
      using shape(1) unfolding commit_internal_eq by (simp_all add: k t list_update_append)
    show ?thesis unfolding codes
    proof (rule wp_store [OF b1 _ F(2) avail c])
      fix db b2 assume 2: "node_holds c db (InnerNode (map root_page tbs') kbs')" "at_view {} (view_write b db V) b2"
      show "wp (write_node a (node_code c (InnerNode (map root_page (tas @ [t])) (kas @ [s]))))
          (\<lambda>_. wp (write_node p (node_code c (InnerNode ?ch (lk @ k # rk)))) (\<lambda>_. Q True) E) E b2"
      proof (rule wp_write_two [OF 2(2) _ _ _ c], goal_cases)
        case (6 da dp b')
        then show ?case using 2(1) by (intro Q1 [OF R(4), of da db dp b']) simp_all
      qed (use avail F(1,3) R(1,3) in simp_all)
    qed (use R(2) in simp_all)
  qed
  have stay: "wp (unpin_page b False) (\<lambda>_. Q False) E b1" if "at_view {} (view_pin b V) b1" "length kbs \<le> bc_min_internal_keys c" for b1
    by (rule wp_unpin_at [OF that(1)]) (use avail Q2 that(2) in simp_all)
  show ?thesis unfolding borrow_right_internal_def Let_def map_append list.map root_page.simps idx wp_fun
  proof (rule wp_fetch_at [OF b0 F(2) avail], rule wp_read_at [where x = "(?tbs, kbs)"])
    fix b1 assume b1: "at_view {} (view_pin b V) b1"
    then show "at_view {} (view_pin b V) b1" .
    show "wp (case (?tbs, kbs) of (r_children, r_keys) \<Rightarrow>
        if bc_min_internal_keys c < length r_keys
        then py_seq (write_buf b (write_internal c (tl r_children) (tl r_keys)))
          (py_seq (unpin_page b True)
          (py_seq (write_node a (write_internal c (map root_page tas @ [hd r_children]) (kas @ [s])))
          (py_seq (commit_internal c p ?ch ((lk @ s # rk)[length ls := hd r_keys])) (py_return True))))
        else py_seq (unpin_page b False) (py_return False)) Q E b1"
      using move [OF b1] stay [OF b1] by (simp add: wp_fun wp_return_fun)
  qed (use F(10) in simp_all)
qed

lemma borrow_left_internal_spec:
  assumes inv: "tree_inv c (v_page V) (v_count V) (plug (Node p (ls @ Node a tas kas # Node b tbs kbs # rs) (lk @ s # rk)) ctx)"
    and shape: "length ls = length lk" "length rs = length rk" "ctx_shape ctx"
    and keyed: "keyed (concat (map images ls) @ concat (map images rs))" "keyed (concat (map images (tas @ tbs)))"
    and c: "conf_ok c" and b0: "at_view {} V b0" and avail: "0 < v_avail V" and small: "length kbs < bc_min_internal_keys c"
    and Q1: "\<And>V' b'. repaired c V p (ls @ Node a tas kas # Node b tbs kbs # rs) (lk @ s # rk) ctx V' \<Longrightarrow> at_view {} V' b' \<Longrightarrow> Q True b'"
    and Q2: "\<And>b'. at_view {} V b' \<Longrightarrow> length kas \<le> bc_min_internal_keys c \<Longrightarrow> Q False b'"
  shows "wp (borrow_left_internal c p (map root_page (ls @ Node a tas kas # Node b tbs kbs # rs)) (lk @ s # rk) (length ls + 1) (map root_page tbs) kbs)
    Q E b0"
proof -
  note F = inner_pair_facts [OF inv shape]
  let ?ch = "map root_page ls @ a # b # map root_page rs"
  let ?tas = "map root_page tas"
  have idx: "?ch ! (length ls + 1 - 1) = a" "?ch ! (length ls + 1) = b" "(lk @ s # rk) ! (length ls + 1 - 1) = s"
    using shape(1) by (simp_all add: nth_append)
  have move: "wp (write_buf a (write_internal c (butlast ?tas) (butlast kas))) (\<lambda>_. wp (unpin_page a True)
      (\<lambda>_. wp (write_node b (write_internal c (last ?tas # map root_page tbs) (s # kbs)))
      (\<lambda>_. wp (commit_internal c p ?ch ((lk @ s # rk)[length ls := last kas])) (\<lambda>_. Q True) E) E) E) E b1"
    if b1: "at_view {} (view_pin a V) b1" and big: "bc_min_internal_keys c < length kas" for b1
  proof -
    obtain k kas' where k: "kas = kas' @ [k]" using big by (cases kas rule: rev_cases) auto
    then have ne: "kas' \<noteq> []" using big small by auto
    obtain t tas' where t: "tas = tas' @ [t]" using F(5) by (cases tas rule: rev_cases) auto
    have len: "length kas' \<le> bc_max_internal_keys c" "length (s # kbs) \<le> bc_max_internal_keys c"
      using small F(7) k conf_okD(7) [OF c] by auto
    have new: "tas' @ (t # tbs) = tas @ tbs" "kas' @ k # (s # kbs) = kas @ s # kbs" "length tas' = Suc (length kas')"
      using F(5) by (simp_all add: k t)
    note R = inner_pair_repaired [OF inv shape new ne _ len keyed, simplified]
    have codes: "write_internal c (butlast ?tas) (butlast kas) = node_code c (InnerNode (map root_page tas') kas')"
      "write_internal c (last ?tas # map root_page tbs) (s # kbs) = node_code c (InnerNode (map root_page (t # tbs)) (s # kbs))"
      "commit_internal c p ?ch ((lk @ s # rk)[length ls := last kas]) = write_node p (node_code c (InnerNode ?ch (lk @ k # rk)))"
      using shape(1) unfolding commit_internal_eq by (simp_all add: k t list_update_append)
    show ?thesis unfolding codes
    proof (rule wp_store [OF b1 _ F(1) avail c])
      fix da b2 assume 2: "node_holds c da (InnerNode (map root_page tas') kas')" "at_view {} (view_write a da V) b2"
      show "wp (write_node b (node_code c (InnerNode (map root_page (t # tbs)) (s # kbs))))
          (\<lambda>_. wp (write_node p (node_code c (InnerNode ?ch (lk @ k # rk)))) (\<lambda>_. Q True) E) E b2"
      proof (rule wp_write_two [OF 2(2) _ _ _ c], goal_cases)
        case (6 db dp b')
        then show ?case using 2(1) unfolding view_write_swap [OF F(4) [symmetric]] by (intro Q1 [OF R(4), of da db dp b']) simp_all
      qed (use avail F(2,3) R(2,3) in simp_all)
    qed (use R(1) in simp_all)
  qed
  have stay: "wp (unpin_page a False) (\<lambda>_. Q False) E b1" if "at_view {} (view_pin a V) b1" "length kas \<le> bc_min_internal_keys c" for b1
    by (rule wp_unpin_at [OF that(1)]) (use avail Q2 that(2) in simp_all)
  show ?thesis unfolding borrow_left_internal_def Let_def map_append list.map root_page.simps idx wp_fun
  proof (rule wp_fetch_at [OF b0 F(1) avail], rule wp_read_at [where x = "(?tas, kas)"])
    fix b1 assume b1: "at_view {} (view_pin a V) b1"
    then show "at_view {} (view_pin a V) b1" .
    show "wp (case (?tas, kas) of (l_children, l_keys) \<Rightarrow>
        if bc_min_internal_keys c < length l_keys
        then py_seq (write_buf a (write_internal c (butlast l_children) (butlast l_keys)))
          (py_seq (unpin_page a True)
          (py_seq (write_node b (write_internal c (last l_children # map root_page tbs) (s # kbs)))
          (py_seq (commit_internal c p ?ch ((lk @ s # rk)[length ls + 1 - 1 := last l_keys])) (py_return True))))
        else py_seq (unpin_page a False) (py_return False)) Q E b1"
      using move [OF b1] stay [OF b1] by (simp add: wp_fun wp_return_fun)
  qed (use F(9) in simp_all)
qed

lemma merge_internal_spec:
  assumes inv: "tree_inv c (v_page V) (v_count V) (plug (Node p (ls @ Node a tas kas # Node b tbs kbs # rs) (lk @ s # rk)) ctx)"
    and shape: "length ls = length lk" "length rs = length rk" "ctx_shape ctx"
    and keyed: "keyed (concat (map images ls) @ concat (map images rs))" "keyed (concat (map images (tas @ tbs)))"
    and c: "conf_ok c" and b0: "at_view {} V b0" and avail: "0 < v_avail V"
    and small: "length kas + length kbs < bc_max_internal_keys c"
    and Q: "\<And>V' b'. repaired c V p (ls @ Node a tas kas # Node b tbs kbs # rs) (lk @ s # rk) ctx V' \<Longrightarrow> at_view {} V' b' \<Longrightarrow> Q () b'"
  shows "wp (merge_right_internal c p (map root_page (ls @ Node a tas kas # Node b tbs kbs # rs)) (lk @ s # rk) (length ls) (map root_page tas) kas)
      Q E b0"
    and "wp (merge_left_internal c p (map root_page (ls @ Node a tas kas # Node b tbs kbs # rs)) (lk @ s # rk) (length ls + 1) (map root_page tbs) kbs)
      Q E b0"
proof -
  note F = inner_pair_facts [OF inv shape] and R = inner_merge_repaired [OF inv shape small keyed]
  let ?ch = "map root_page ls @ a # b # map root_page rs"
  have idx: "?ch ! length ls = a" "?ch ! (length ls + 1) = b" "(lk @ s # rk) ! length ls = s" using shape(1) by (simp_all add: nth_append)
  have del: "delete_at (length ls + 1) ?ch = map root_page ls @ a # map root_page rs" "delete_at (length ls) (lk @ s # rk) = lk @ rk"
    using delete_at_append [of "map root_page ls @ [a]" b] delete_at_append [of lk s rk] shape(1) by simp_all
  have "wp (write_node a (node_code c (InnerNode (map root_page (tas @ tbs)) (kas @ s # kbs))))
      (\<lambda>_. wp (write_node p (node_code c (InnerNode (map root_page ls @ a # map root_page rs) (lk @ rk)))) Q E) E b1"
    if "at_view {} V b1" for b1
    by (rule wp_write_two [OF that avail F(1,3) c R(1,2)]) (rule Q [OF R(3)])
  then have go: "wp (write_node a (write_internal c (map root_page tas @ map root_page tbs) (kas @ [s] @ kbs)))
      (\<lambda>_. wp (commit_internal c p (map root_page ls @ a # map root_page rs) (lk @ rk)) Q E) E b1" if "at_view {} V b1" for b1
    using that unfolding commit_internal_eq by simp
  show "wp (merge_right_internal c p (map root_page (ls @ Node a tas kas # Node b tbs kbs # rs)) (lk @ s # rk) (length ls) (map root_page tas) kas)
      Q E b0"
    unfolding merge_right_internal_def Let_def map_append list.map root_page.simps idx del wp_fun
    by (rule wp_peek [where f = "read_internal c", OF b0 F(2) avail F(10)]) (simp only: prod.case wp_fun go)
  have "length ls + 1 \<noteq> 0" by simp
  show "wp (merge_left_internal c p (map root_page (ls @ Node a tas kas # Node b tbs kbs # rs)) (lk @ s # rk) (length ls + 1) (map root_page tbs) kbs)
      Q E b0"
    unfolding merge_left_internal_def Let_def if_not_P [OF \<open>length ls + 1 \<noteq> 0\<close>] map_append list.map root_page.simps
      add_diff_cancel_right' idx del wp_fun
    by (rule wp_peek [where f = "read_internal c", OF b0 F(1) avail F(9)]) (simp only: prod.case wp_fun go)
qed

text \<open>The siblings of an internal node are internal nodes.\<close>

lemma inner_siblings:
  assumes "tree_inv c pg n (plug (Node q ts ks) ((p, ls, lk, rk, rs) # ctx))" and "ctx_shape ((p, ls, lk, rk, rs) # ctx)"
    and "t \<in> set ls \<union> set rs"
  obtains b tbs kbs where "t = Node b tbs kbs"
proof -
  obtain h where "has_height (Suc h) t" using assms(1) [unfolded tree_inv_plug [OF assms(2)]] assms(3) unfolding has_height_Node by auto
  then show ?thesis using that by (cases t) simp_all
qed

lemma fixup_internal_spec:
  assumes inv: "tree_inv c (v_page V) (v_count V) (plug (Node q ts ks) ((p, ls, lk, rk, rs) # ctx))"
    and shape: "ctx_shape ((p, ls, lk, rk, rs) # ctx)" and keyed: "keyed (ctx_images q ((p, ls, lk, rk, rs) # ctx))"
    and kids: "keyed (concat (map images ts))"
    and c: "conf_ok c" and b0: "at_view {} V b0" and avail: "0 < v_avail V" and small: "length ks < bc_min_internal_keys c"
    and Q: "\<And>V' b'. repaired c V p (ls @ Node q ts ks # rs) (lk @ rk) ctx V' \<Longrightarrow> at_view {} V' b' \<Longrightarrow> Q () b'"
  shows "wp (fixup_internal c p (map root_page (ls @ Node q ts ks # rs)) (lk @ rk) (length ls)) Q E b0"
proof -
  let ?ch = "map root_page (ls @ Node q ts ks # rs)" and ?ks = "lk @ rk" and ?i = "length ls" and ?kids = "map root_page ts"
  let ?merge = "if ?i + 1 < length ?ch then merge_right_internal c p ?ch ?ks ?i ?kids ks else merge_left_internal c p ?ch ?ks ?i ?kids ks"
  have ctx: "ctx_shape ctx" "length ls = length lk" "length rs = length rk" using shape by simp_all
  note N = node_focus [OF inv shape]
  have max: "2 * bc_min_internal_keys c < bc_max_internal_keys c" using conf_okD(3,7) [OF c] by simp
  have right: "\<exists>b tbs kbs s rk' rs'. rs = Node b tbs kbs # rs' \<and> rk = s # rk' \<and> length rs' = length rk'" if ne: "rs \<noteq> []"
  proof -
    obtain B rs' where rs: "rs = B # rs'" using ne by (cases rs) auto
    moreover obtain s rk' where "rk = s # rk'" using ctx(3) rs by (cases rk) auto
    moreover obtain b tbs kbs where "B = Node b tbs kbs" by (rule inner_siblings [OF inv shape, of B]) (simp add: rs)
    ultimately show ?thesis using ctx(3) by auto
  qed
  have left: "\<exists>a tas kas s ls' lk'. ls = ls' @ [Node a tas kas] \<and> lk = lk' @ [s] \<and> length ls' = length lk'" if ne: "ls \<noteq> []"
  proof -
    obtain A ls' where ls: "ls = ls' @ [A]" using ne by (cases ls rule: rev_cases) auto
    moreover obtain s lk' where "lk = lk' @ [s]" using ctx(2) ls by (cases lk rule: rev_cases) auto
    moreover obtain a tas kas where "A = Node a tas kas" by (rule inner_siblings [OF inv shape, of A]) (simp add: ls)
    ultimately show ?thesis using ctx(2) by auto
  qed
  have go_left: "wp (if 0 < ?i then borrow_left_internal c p ?ch ?ks ?i ?kids ks else py_return False)
      (\<lambda>d. wp (if d then py_return () else ?merge) Q E) E b1"
    if b1: "at_view {} V b1" and R': "rs \<noteq> [] \<Longrightarrow> (\<And>b1. at_view {} V b1 \<Longrightarrow> wp ?merge Q E b1)" for b1
  proof (cases "ls = []")
    case True
    then have "rs \<noteq> []" using keyed ctx by auto
    with True R' [OF _ b1] show ?thesis by (simp add: wp_return)
  next
    case False
    then obtain a tas kas s ls' lk' where R: "ls = ls' @ [Node a tas kas]" "lk = lk' @ [s]" "length ls' = length lk'" using left by blast
    have I: "tree_inv c (v_page V) (v_count V) (plug (Node p (ls' @ Node a tas kas # Node q ts ks # rs) (lk' @ s # rk)) ctx)"
      using inv by (simp add: R)
    have K: "keyed (concat (map images ls') @ concat (map images rs))" "keyed (concat (map images (tas @ ts)))"
      using keyed kids by (simp_all add: R)
    have merge: "wp ?merge Q E b2" if b2: "at_view {} V b2" and few: "length kas \<le> bc_min_internal_keys c" for b2
    proof (cases "rs = []")
      case False
      then show ?thesis by (rule R' [OF _ b2])
    next
      case True
      have "length kas + length ks < bc_max_internal_keys c" using few small max by simp
      from merge_internal_spec(2) [OF I R(3) ctx(3,1) K c b2 avail this, of Q] Q True show ?thesis by (simp add: R)
    qed
    have "wp (borrow_left_internal c p (map root_page (ls' @ Node a tas kas # Node q ts ks # rs)) (lk' @ s # rk) (length ls' + 1) ?kids ks)
        (\<lambda>d. wp (if d then py_return () else ?merge) Q E) E b1"
      by (rule borrow_left_internal_spec [OF I R(3) ctx(3,1) K c b1 avail small]) (use Q merge in \<open>simp_all add: R wp_return\<close>)
    then show ?thesis by (simp add: R)
  qed
  have go_right: "wp (if ?i + 1 < length ?ch then borrow_right_internal c p ?ch ?ks ?i ?kids ks else py_return False) (\<lambda>d. wp (if d then py_return ()
      else py_bind (if 0 < ?i then borrow_left_internal c p ?ch ?ks ?i ?kids ks else py_return False) (\<lambda>d. if d then py_return () else ?merge)) Q E) E b1"
    if b1: "at_view {} V b1" for b1
  proof (cases "rs = []")
    case True
    then show ?thesis using go_left [OF b1] by (simp add: wp_return wp_fun)
  next
    case False
    then obtain b tbs kbs s rk' rs' where R: "rs = Node b tbs kbs # rs'" "rk = s # rk'" "length rs' = length rk'" using right by blast
    note I = inv [unfolded R plug.simps]
    have K: "keyed (concat (map images ls) @ concat (map images rs'))" "keyed (concat (map images (ts @ tbs)))"
      using keyed kids by (simp_all add: R)
    have merge: "wp ?merge Q E b2" if b2: "at_view {} V b2" and few: "length kbs \<le> bc_min_internal_keys c" for b2
    proof -
      have "length ks + length kbs < bc_max_internal_keys c" using few small max by simp
      from merge_internal_spec(1) [OF I ctx(2) R(3) ctx(1) K c b2 avail this, of Q] Q show ?thesis by (simp add: R)
    qed
    have "wp (borrow_right_internal c p (map root_page (ls @ Node q ts ks # Node b tbs kbs # rs')) (lk @ s # rk') ?i ?kids ks) (\<lambda>d. wp (if d then py_return ()
      else py_bind (if 0 < ?i then borrow_left_internal c p ?ch ?ks ?i ?kids ks else py_return False) (\<lambda>d. if d then py_return () else ?merge)) Q E) E b1"
    proof (rule borrow_right_internal_spec [OF I ctx(2) R(3) ctx(1) K c b1 avail small], goal_cases)
      case (1 V' b')
      then show ?case using Q by (simp add: R wp_return)
    next
      case (2 b')
      show ?case unfolding if_False wp_fun by (rule go_left [OF 2(1)]) (rule merge [OF _ 2(2)])
    qed
    then show ?thesis by (simp add: R)
  qed
  have q: "?ch ! length ls = q" by (simp add: nth_append)
  show ?thesis unfolding fixup_internal_def Let_def wp_fun q
    by (rule wp_peek [where f = "read_internal c", OF b0 N(3) avail N(2)]) (use go_right in \<open>simp add: wp_fun\<close>)
qed

end
