(* ===== verification/BTree_Delete.thy ===== *)
theory BTree_Delete
  imports BTree_Inner_Repair
begin

text \<open>
  Deletion from the B+-tree, third part: the entry is taken out of its leaf, the code walks
  up its path repairing nodes, and the root is dropped when it has a single child left. The
  node the walk has reached may be without a key; all others have one.
\<close>

section \<open>Going up the path\<close>

definition settled :: "btconf \<Rightarrow> tree \<Rightarrow> view \<Rightarrow> tree \<Rightarrow> view \<Rightarrow> bool" where
  "settled c T V T' V' \<longleftrightarrow> tree_inv c (v_page V') (v_count V') T' \<and> keyed (images T')
     \<and> entries (items T') = entries (items T) \<and> evolves (set (pages T)) V V' \<and> v_count V' = v_count V"

text \<open>A root without keys has one child, which takes its place.\<close>

lemma shrunk_root:
  assumes "tree_inv c pg n (Node p ts [])"
  obtains t where "ts = [t]" "tree_inv c pg n t" "items (Node p ts []) = items t" "set (pages t) \<subseteq> set (pages (Node p ts []))"
proof -
  have "length ts = 1" using node_focus(4) [of c pg n p ts "[]" "[]"] assms by simp
  then obtain t where t: "ts = [t]" by (cases ts) auto
  have "pages_ok c pg n (images t)" using tree_invD(1) [OF assms] by (simp add: t pages_ok_def)
  moreover have "\<exists>h. has_height h t" using tree_invD(2) [OF assms] unfolding has_height_Node by (auto simp: t)
  ultimately have "tree_inv c pg n t" using tree_invD(3,4) [OF assms] by (simp add: t tree_inv_def)
  then show ?thesis by (rule that [OF t]) (auto simp: t)
qed

lemma wp_shrink_root:
  assumes inv: "tree_inv c (v_page V) (v_count V) F" and kids: "keyed (tl (images F))" and c: "bt_conf t = c"
    and b: "at_view {} V b" and avail: "0 < v_avail V" and root: "bt_root t = root_page F"
    and Q: "\<And>T' b'. settled c F V T' V \<Longrightarrow> at_view {} V b' \<Longrightarrow> Q () (t\<lparr>bt_pool := b', bt_root := root_page T'\<rparr>)"
  shows "wp maybe_shrink_root Q E (t\<lparr>bt_pool := b\<rparr>)"
proof -
  let ?p = "root_page F"
  have same: "t\<lparr>bt_pool := b', bt_root := ?p\<rparr> = t\<lparr>bt_pool := b'\<rparr>" for b' using root by simp
  have unpin: "wp (unpin_page ?p False) Q' E' b1" if "at_view {} (view_pin ?p V) b1" "\<And>b2. at_view {} V b2 \<Longrightarrow> Q' () b2" for Q' E' b1
    by (rule wp_unpin_at [OF that(1)]) (use that(2) avail in simp_all)
  have fine: "Q () (t\<lparr>bt_pool := b'\<rparr>)" if "keyed (images F)" "at_view {} V b'" for b'
    using Q [of F b'] that inv unfolding same by (simp add: settled_def evolves_def)
  show ?thesis
  proof (cases F)
    case (Leaf q es nx)
    note L = leaf_focus [of c "v_page V" "v_count V" q es nx "[]", simplified, OF inv [unfolded Leaf]]
    show ?thesis unfolding maybe_shrink_root_def wp_fun wp_gets wp_on_tree
    proof (simp add: root, rule wp_fetch_at [OF b _ avail], goal_cases)
      case (2 b1)
      show ?case by (rule wp_read_at [OF 2, where x = PT_BTREE_LEAF])
        (use L(1) unpin [OF 2] fine Leaf in \<open>simp_all add: wp_on_tree root\<close>)
    qed (use L Leaf in simp)
  next
    case (Node q ts ks)
    note N = node_focus [of c "v_page V" "v_count V" q ts ks "[]", simplified, OF inv [unfolded Node]]
    have fin: "wp (if length ks = 0 then py_modify (\<lambda>t. t\<lparr>bt_root := map root_page ts ! 0\<rparr>) else py_return ()) Q E (t\<lparr>bt_pool := b'\<rparr>)"
      if b': "at_view {} V b'" for b'
    proof (cases "ks = []")
      case True
      from shrunk_root [OF inv [unfolded Node True]] obtain t' where t': "ts = [t']" "tree_inv c (v_page V) (v_count V) t'"
        "items (Node q ts []) = items t'" "set (pages t') \<subseteq> set (pages (Node q ts []))" by blast
      have "settled c F V t' V" using t' kids by (simp add: settled_def Node True evolves_def)
      from Q [OF this b'] show ?thesis using True t'(1) by (simp add: wp_modify)
    next
      case False
      then show ?thesis using fine [OF _ b'] kids Node by (simp add: wp_return)
    qed
    show ?thesis unfolding maybe_shrink_root_def wp_fun wp_gets wp_on_tree
    proof (simp add: root, rule wp_fetch_at [OF b _ avail], goal_cases)
      case (2 b1)
      have "wp (read_buf q (read_internal c)) (\<lambda>(children, keys) b1. wp (py_seq (on_tree (unpin_page q False))
          (if length keys = 0 then py_modify (\<lambda>t. t\<lparr>bt_root := children ! 0\<rparr>) else py_return ())) Q E (t\<lparr>bt_pool := b1\<rparr>)) E' b1" for E'
        by (rule wp_read_at [OF 2 [unfolded Node root_page.simps], where x = "(map root_page ts, ks)"])
          (use N(2) unpin [OF 2] fin Node in \<open>simp_all add: wp_fun wp_on_tree_next\<close>)
      then show ?case
        by (intro wp_read_at [OF 2, where x = PT_BTREE_INTERNAL]) (use N(1) Node c in \<open>simp_all add: wp_fun wp_on_tree_next case_prod_unfold root\<close>)
    qed (use N Node in simp)
  qed
qed

text \<open>What one step up needs of the focus, its parent and the place of the focus in it.\<close>

lemma focus_parent:
  assumes inv: "tree_inv c pg n (plug F ((p, ls, lk, rk, rs) # ctx))" and shape: "ctx_shape ((p, ls, lk, rk, rs) # ctx)"
  shows "read_internal c (pg p) = Inr (map root_page (ls @ F # rs), lk @ rk)" and "p < n"
    and "list_index (root_page F) (map root_page (ls @ F # rs)) = Inr (length ls)"
proof -
  note N = node_focus [of c pg n p "ls @ F # rs" "lk @ rk" ctx]
  show "read_internal c (pg p) = Inr (map root_page (ls @ F # rs), lk @ rk)" "p < n" using N inv shape by simp_all
  have P: "pages_ok c pg n (images F @ ctx_images (root_page F) ((p, ls, lk, rk, rs) # ctx))"
    using inv [unfolded tree_inv_plug [OF shape]] by blast
  have "root_page F \<noteq> root_page t" if "t \<in> set ls" for t
  proof -
    obtain x y where "(root_page F, x) \<in> set (images F)" "(root_page t, y) \<in> set (images t)"
      using root_image [of F] root_image [of t] by blast
    with pages_ok_differ [OF P, of "(root_page F, x)" "(root_page t, y)"] that show ?thesis by auto
  qed
  then have "root_page F \<notin> set (map root_page ls)" by auto
  then show "list_index (root_page F) (map root_page (ls @ F # rs)) = Inr (length ls)"
    using list_index_split [of "root_page F" "map root_page ls"] by simp
qed

fun key_count :: "tree \<Rightarrow> nat" where
  "key_count (Leaf p es nx) = length es"
| "key_count (Node p ts ks) = length ks"

fun is_leaf :: "tree \<Rightarrow> bool" where
  "is_leaf (Leaf p es nx) = True"
| "is_leaf (Node p ts ks) = False"

lemma focus_count:
  assumes "tree_inv c pg n (plug F ctx)" and "ctx_shape ctx"
  shows "count_keys c (pg (root_page F)) = Inr (is_leaf F, key_count F)" and "root_page F < n"
  using assms leaf_focus [of c pg n _ _ _ ctx] node_focus [of c pg n _ _ _ ctx]
  by (cases F; simp add: count_keys_def)+

lemma settled_trans:
  assumes "tree_inv c (v_page V1) (v_count V1) T1" and "entries (items T1) = entries (items T)"
    and "set (pages T1) \<subseteq> set (pages T)" and "evolves (set (pages T)) V V1" and "v_count V1 = v_count V"
    and "settled c T1 V1 T' V'"
  shows "settled c T V T' V'"
  using assms evolves_trans [OF assms(4), of "set (pages T1)" V'] by (auto simp: settled_def)

text \<open>One repair, seen from the whole tree.\<close>

lemma repaired_whole:
  assumes "repaired c V p ts ks ctx V'" and "ctx_shape ctx"
  obtains F' where "tree_inv c (v_page V') (v_count V') (plug F' ctx)" "root_page F' = p" "keyed (tl (images F'))"
    "entries (items (plug F' ctx)) = entries (items (plug (Node p ts ks) ctx))"
    "set (pages (plug F' ctx)) \<subseteq> set (pages (plug (Node p ts ks) ctx))"
    "evolves (set (pages (plug (Node p ts ks) ctx))) V V'" "v_count V' = v_count V"
proof -
  obtain ts' ks' where R: "tree_inv c (v_page V') (v_count V') (plug (Node p ts' ks') ctx)"
    "entries (weave (map items ts') ks') = entries (weave (map items ts) ks)"
    "set (pages (Node p ts' ks')) \<subseteq> set (pages (Node p ts ks))" "keyed (concat (map images ts'))"
    "evolves (set (pages (Node p ts ks))) V V'" "v_count V' = v_count V"
    using assms(1) by (auto simp: repaired_def)
  show ?thesis
  proof (rule that [OF R(1)])
    show "entries (items (plug (Node p ts' ks') ctx)) = entries (items (plug (Node p ts ks) ctx))"
      using R(2) by (simp add: items_plug [OF assms(2)])
    show "set (pages (plug (Node p ts' ks') ctx)) \<subseteq> set (pages (plug (Node p ts ks) ctx))"
      using R(3) unfolding plug_pages root_page.simps by blast
    show "evolves (set (pages (plug (Node p ts ks) ctx))) V V'"
      by (rule evolves_mono [OF R(5)]) (unfold plug_pages, rule Un_upper1)
  qed (use R in simp_all)
qed

lemma fixup_levels_spec:
  assumes "tree_inv c (v_page V) (v_count V) (plug F ctx)" and "ctx_shape ctx" and "keyed (ctx_images (root_page F) ctx)"
    and "keyed (tl (images F))" and "few_duplicates c (entries (items (plug F ctx)))"
    and "at_view {} V b" and "0 < v_avail V" and "bt_root t = root_page (plug F ctx)"
    and "\<And>T' V' b'. settled c (plug F ctx) V T' V' \<Longrightarrow> at_view {} V' b' \<Longrightarrow> Q () (t\<lparr>bt_pool := b', bt_root := root_page T'\<rparr>)"
    and c: "conf_ok c" "bt_conf t = c"
  shows "wp (fixup_levels c (rev (map fst ctx) @ root_page F # rest) (length ctx)) Q E (t\<lparr>bt_pool := b\<rparr>)"
  using assms(1-9)
proof (induction ctx arbitrary: V F b rest)
  case Nil
  show ?case unfolding list.size fixup_levels.simps(1)
    by (rule wp_shrink_root [where F = F and V = V and c = c]) (use Nil.prems c in simp_all)
next
  case (Cons f ctx)
  obtain p ls lk rk rs where f: "f = (p, ls, lk, rk, rs)" by (cases f)
  note inv = Cons.prems(1) [unfolded f] and shape = Cons.prems(2) [unfolded f]
  note P = focus_parent [OF inv shape] and K = focus_count [OF inv shape]
  let ?path = "rev (map fst (f # ctx)) @ root_page F # rest" and ?ch = "map root_page (ls @ F # rs)" and ?T = "plug F (f # ctx)"
  let ?min = "if is_leaf F then bc_min_leaf_keys c else bc_min_internal_keys c"
  have path: "?path ! Suc (length ctx) = root_page F" "?path ! length ctx = p" by (simp_all add: nth_append f)
  have avail: "0 < v_avail V" by (rule Cons.prems(7))
  have up: "wp (fixup_levels c ?path (length ctx)) Q E (t\<lparr>bt_pool := b'\<rparr>)"
    if R: "repaired c V p (ls @ F # rs) (lk @ rk) ctx V'" and b': "at_view {} V' b'" for V' b'
  proof -
    from repaired_whole [OF R] shape obtain F' where F': "tree_inv c (v_page V') (v_count V') (plug F' ctx)" "root_page F' = p"
      "keyed (tl (images F'))" "entries (items (plug F' ctx)) = entries (items ?T)" "set (pages (plug F' ctx)) \<subseteq> set (pages ?T)"
      "evolves (set (pages ?T)) V V'" "v_count V' = v_count V" by (auto simp: f)
    have "wp (fixup_levels c (rev (map fst ctx) @ root_page F' # (root_page F # rest)) (length ctx)) Q E (t\<lparr>bt_pool := b'\<rparr>)"
    proof (rule Cons.IH [OF F'(1) _ _ F'(3) _ b'])
      show "keyed (ctx_images (root_page F') ctx)" using Cons.prems(3) F'(2) by (simp add: f)
      show "bt_root t = root_page (plug F' ctx)" using Cons.prems(8) F'(2) by (auto simp: f root_page_plug)
      show "Q () (t\<lparr>bt_pool := b'', bt_root := root_page T'\<rparr>)" if "settled c (plug F' ctx) V' T' V''" "at_view {} V'' b''" for T' V'' b''
        by (rule Cons.prems(9) [OF settled_trans [OF F'(1,4,5,6,7) that(1)] that(2)])
      show "0 < v_avail V'" using avail F'(6) by (simp add: evolves_def)
    qed (use shape Cons.prems(5) F'(4) in simp_all)
    then show ?thesis by (simp add: F'(2) f)
  qed
  have mend: "wp (on_tree (if is_leaf F then fixup_leaf c p ?ch (lk @ rk) (length ls) else fixup_internal c p ?ch (lk @ rk) (length ls)))
      (\<lambda>_. wp (fixup_levels c ?path (length ctx)) Q E) E (t\<lparr>bt_pool := b1\<rparr>)"
    if b1: "at_view {} V b1" and few: "key_count F < ?min" for b1
  proof (cases F)
    case (Leaf q es nx)
    show ?thesis unfolding wp_on_tree_next Leaf is_leaf.simps if_True
      by (rule fixup_leaf_spec [OF inv [unfolded Leaf] shape _ c(1) b1 avail])
        (use Cons.prems(3,5) few up Leaf f in simp_all)
  next
    case (Node q ts ks)
    show ?thesis unfolding wp_on_tree_next Node is_leaf.simps if_False
      by (rule fixup_internal_spec [OF inv [unfolded Node] shape _ _ c(1) b1 avail])
        (use Cons.prems(3,4) few up Node f in simp_all)
  qed
  have stop: "Q () (t\<lparr>bt_pool := b1\<rparr>)" if b1: "at_view {} V b1" and "?min \<le> key_count F" for b1
  proof -
    have "keyed (images F)" using that(2) Cons.prems(4) conf_okD(3,7) [OF c(1)] by (cases F) auto
    then have "settled c ?T V ?T V" using Cons.prems(1,3) keyed_plug [of F "f # ctx"] by (simp add: settled_def evolves_def)
    from Cons.prems(9) [OF this b1] show ?thesis unfolding Cons.prems(8) [symmetric] by simp
  qed
  let ?step = "\<lambda>(leaf, count). if count \<ge> (if leaf then bc_min_leaf_keys c else bc_min_internal_keys c) then py_return ()
     else py_bind (on_tree (fetch_page p)) (\<lambda>parent_data.
       py_bind (on_tree (read_buf parent_data (read_internal c))) (\<lambda>(p_children, p_keys).
       py_bind (py_lift (list_index (root_page F) p_children)) (\<lambda>idx.
       py_seq (on_tree (unpin_page p False))
      (py_seq (on_tree (if leaf then fixup_leaf c p p_children p_keys idx else fixup_internal c p p_children p_keys idx))
              (fixup_levels c ?path (length ctx))))))"
  have step: "wp (?step (is_leaf F, key_count F)) Q E (t\<lparr>bt_pool := b1\<rparr>)" if b1: "at_view {} V b1" for b1
  proof (cases "?min \<le> key_count F")
    case True
    then show ?thesis using stop [OF b1] by (simp add: wp_return)
  next
    case False
    then have few: "key_count F < ?min" by simp
    have "wp (py_bind (on_tree (fetch_page p)) (\<lambda>parent_data.
       py_bind (on_tree (read_buf parent_data (read_internal c))) (\<lambda>(p_children, p_keys).
       py_bind (py_lift (list_index (root_page F) p_children)) (\<lambda>idx.
       py_seq (on_tree (unpin_page p False))
      (py_seq (on_tree (if is_leaf F then fixup_leaf c p p_children p_keys idx else fixup_internal c p p_children p_keys idx))
              (fixup_levels c ?path (length ctx))))))) Q E (t\<lparr>bt_pool := b1\<rparr>)"
      unfolding wp_fun wp_on_tree_next
    proof (rule wp_fetch_at [OF b1 P(2) avail], goal_cases)
      case (1 b2)
      have "wp (unpin_page p False) (\<lambda>_ b. wp (on_tree (if is_leaf F then fixup_leaf c p ?ch (lk @ rk) (length ls) else fixup_internal c p ?ch (lk @ rk) (length ls)))
          (\<lambda>_. wp (fixup_levels c ?path (length ctx)) Q E) E (t\<lparr>bt_pool := b\<rparr>)) E' b2" for E'
        by (rule wp_unpin_at [OF 1]) (use avail mend [OF _ few] in simp_all)
      then show ?case
        by (intro wp_read_at [where x = "(?ch, lk @ rk)", OF 1]) (simp_all only: view_sel P prod.case wp_fun wp_lift_Inr wp_on_tree_next, simp)
    qed
    with False show ?thesis by simp
  qed
  show ?case unfolding list.size add_Suc_right add_0_right fixup_levels.simps(2) Let_def path wp_fun(1) wp_on_tree_next
    by (rule wp_peek [where f = "count_keys c", OF Cons.prems(6) K(2) avail K(1)]) (rule step)
qed

section \<open>Taking an entry out of its leaf\<close>

lemma sorted_run:
  "sorted ks \<Longrightarrow> i < length ks \<Longrightarrow>
     (i < length (takeWhile (\<lambda>y. y < k) ks) \<longleftrightarrow> ks ! i < (k :: 'a :: linorder))
     \<and> (i < length (takeWhile (\<lambda>y. y \<le> k) ks) \<longleftrightarrow> ks ! i \<le> k)"
proof (induction ks arbitrary: i)
  case (Cons a ks)
  show ?case
  proof (cases i)
    case (Suc j)
    have "a \<le> ks ! j" using Cons.prems Suc by simp
    then have "a < k \<or> \<not> ks ! j < k" "a \<le> k \<or> \<not> ks ! j \<le> k" by auto
    with Cons.IH [of j] Cons.prems Suc show ?thesis by auto
  qed auto
qed simp

lemma remove1_first:
  assumes "i < length xs" and "xs ! i = x" and "\<forall>j < i. xs ! j \<noteq> x"
  shows "delete_at i xs = remove1 x xs"
proof -
  have xs: "xs = take i xs @ x # drop (Suc i) xs" using id_take_nth_drop [OF assms(1)] assms(2) by simp
  have "x \<notin> set (take i xs)" using assms(1,3) by (auto simp: in_set_conv_nth)
  then have "remove1 x (take i xs @ x # drop (Suc i) xs) = take i xs @ drop (Suc i) xs" by (simp add: remove1_append)
  with xs show ?thesis by (simp add: delete_at_def)
qed

lemma find_target_first:
  fixes k :: pyval
  assumes srt: "sorted (map fst es)"
  defines "lo \<equiv> length (takeWhile (\<lambda>y. y < k) (map fst es))" and "hi \<equiv> length (takeWhile (\<lambda>y. y \<le> k) (map fst es))"
  shows "case find_target (map snd es) r lo hi of
      None \<Rightarrow> (k, r) \<notin> set es
    | Some i \<Rightarrow> (k, r) \<in> set es \<and> delete_at i es = remove1 (k, r) es"
proof -
  have hi: "hi \<le> length es" using length_takeWhile_le [of _ "map fst es"] by (simp add: hi_def)
  have key: "lo \<le> i \<and> i < hi \<longleftrightarrow> fst (es ! i) = k" if "i < length es" for i
    using sorted_run [OF srt, of i k] that by (auto simp: lo_def hi_def)
  have hit: "map snd es ! i = r \<longleftrightarrow> es ! i = (k, r)" if "lo \<le> i" "i < hi" for i
    using key [of i] that hi by (auto simp: prod_eq_iff)
  show ?thesis
  proof (cases "find_target (map snd es) r lo hi")
    case None
    then have no: "\<forall>i \<in> set [lo..<hi]. map snd es ! i \<noteq> r" by (simp add: find_target_def find_None_iff)
    have "(k, r) \<notin> set es"
    proof
      assume "(k, r) \<in> set es"
      then obtain i where i: "i < length es" "es ! i = (k, r)" by (auto simp: in_set_conv_nth)
      with key [of i] have "lo \<le> i" "i < hi" by simp_all
      then have "map snd es ! i = r" using hit [of i] i(2) by blast
      with no \<open>lo \<le> i\<close> \<open>i < hi\<close> show False by (metis atLeastLessThan_iff atLeastLessThan_upt)
    qed
    with None show ?thesis by simp
  next
    case (Some i)
    then obtain n where n: "n < length [lo..<hi]" "map snd es ! ([lo..<hi] ! n) = r" "i = [lo..<hi] ! n"
      "\<forall>j < n. map snd es ! ([lo..<hi] ! j) \<noteq> r" by (auto simp: find_target_def find_Some_iff)
    then have i: "i = lo + n" "i < hi" by auto
    have at: "es ! i = (k, r)" using hit [of i] n(2,3) i by simp
    have "es ! j \<noteq> (k, r)" if "j < i" for j
    proof
      assume j: "es ! j = (k, r)"
      then have "lo \<le> j" "j < hi" using key [of j] that i hi by auto
      then have "j - lo < n" "[lo..<hi] ! (j - lo) = j" using that i by auto
      with n(4) hit [of j] j \<open>lo \<le> j\<close> \<open>j < hi\<close> show False by auto
    qed
    then have "delete_at i es = remove1 (k, r) es" using at i hi by (intro remove1_first) simp_all
    moreover have "(k, r) \<in> set es" using at i hi by (metis nth_mem order_less_le_trans)
    ultimately show ?thesis using Some by simp
  qed
qed

lemma leaf_shrunk:
  assumes inv: "tree_inv c pg n (plug (Leaf p es nx) ctx)" and ctx: "ctx_shape ctx" and x: "x \<in> set es"
  shows "node_fits c (LeafNode (remove1 x es) nx)"
    and "node_holds c d (LeafNode (remove1 x es) nx) \<Longrightarrow> tree_inv c (pg(p := d)) n (plug (Leaf p (remove1 x es) nx) ctx)"
proof -
  note L = leaf_focus [OF inv ctx] and I = inv [unfolded tree_inv_plug [OF ctx]]
  obtain ys zs where es: "es = ys @ x # zs" "remove1 x es = ys @ zs" using split_list_first [OF x] by (auto simp: remove1_append)
  show f: "node_fits c (LeafNode (remove1 x es) nx)" using L unfolding es(2) by (auto simp: leaf_fits_def es(1))
  assume d: "node_holds c d (LeafNode (remove1 x es) nx)"
  have "pages_ok c (pg(p := d)) n (images (Leaf p (remove1 x es) nx) @ ctx_images p ctx)"
    using pages_ok_update [OF _ f d, of pg n p "LeafNode es nx" "ctx_images p ctx"] I by simp
  moreover have "sorted_wrt before (left_items ctx @ items (Leaf p (remove1 x es) nx) @ right_items ctx)"
    using sorted_wrt_drop_between [of before "left_items ctx @ entry_items ys" "(fst x, Some (snd x))" "entry_items zs @ right_items ctx"] I
    unfolding es(2) by (simp add: es(1) entry_items_def case_prod_unfold)
  moreover have "linked (left_leaves ctx @ leaves (Leaf p (remove1 x es) nx) @ right_leaves ctx)"
    using linked_replace [of "left_leaves ctx" p es nx "right_leaves ctx"] I by simp
  ultimately show "tree_inv c (pg(p := d)) n (plug (Leaf p (remove1 x es) nx) ctx)"
    unfolding tree_inv_plug [OF ctx] using I by simp
qed

lemma few_duplicates_remove1: "few_duplicates c es \<Longrightarrow> few_duplicates c (remove1 x es)"
proof -
  assume few: "few_duplicates c es"
  have "length (filter (\<lambda>e. fst e = k) (remove1 x es)) \<le> length (filter (\<lambda>e. fst e = k) es)" for k
    by (induction es) auto
  with few show ?thesis unfolding few_duplicates_def by (meson order_trans)
qed

lemma wp_delete:
  assumes t: "tree_at t T" and k: "key_ok (bt_conf t) k" and few: "few_duplicates (bt_conf t) (entries (items T))"
    and Q1: "\<And>T' b r'. (k, r) \<in> set (entries (items T)) \<Longrightarrow> tree_at (t\<lparr>bt_pool := b, bt_root := r'\<rparr>) T' \<Longrightarrow>
      entries (items T') = remove1 (k, r) (entries (items T)) \<Longrightarrow>
      evolves (set (pages T)) (pool_view (bt_pool t)) (pool_view b) \<Longrightarrow> Q True (t\<lparr>bt_pool := b, bt_root := r'\<rparr>)"
    and Q2: "\<And>b. (k, r) \<notin> set (entries (items T)) \<Longrightarrow> at_view {} (pool_view (bt_pool t)) b \<Longrightarrow> Q False (t\<lparr>bt_pool := b\<rparr>)"
  shows "wp (bt_delete k r) Q E t"
  unfolding bt_delete_def wp_fun wp_gets Let_def
proof (rule wp_find_leaf_path [OF t k], goal_cases)
  case (1 p es nx ctx b)
  let ?V = "pool_view (bt_pool t)" and ?c = "bt_conf t"
  note T = 1(1) and ctx = 1(2,3) and b = 1(4)
  note D = tree_atD [OF t] and inv = tree_atD(6) [OF t, folded T, folded pool_view_sel]
  note L = leaf_focus [OF inv ctx(1)] and A = entries_around [OF inv ctx]
  have avail: "0 < v_avail ?V" using D(3) by simp
  let ?lo = "length (takeWhile (\<lambda>y. y < k) (map fst es))" and ?hi = "length (takeWhile (\<lambda>y. y \<le> k) (map fst es))"
  note target = find_target_first [OF L(6), of k r]
  have mem: "(k, r) \<in> set (entries (items T)) \<longleftrightarrow> (k, r) \<in> set es"
    unfolding T [symmetric] A(1) using A(2,3) by auto
  have gone: "remove1 (k, r) (entries (items T)) = entries (left_items ctx) @ remove1 (k, r) es @ entries (right_items ctx)"
    if "(k, r) \<in> set es"
  proof -
    have "(k, r) \<notin> set (entries (left_items ctx))" using A(2) by auto
    then show ?thesis unfolding T [symmetric] A(1) using that by (simp add: remove1_append)
  qed
  have finish: "wp (case find_target (map snd es) r ?lo ?hi of
        None \<Rightarrow> py_seq (on_tree (unpin_page p False)) (py_return False)
      | Some i \<Rightarrow> py_seq (on_tree (write_buf p (write_leaf ?c (delete_at i (map fst es)) (delete_at i (map snd es)) nx)))
          (py_seq (on_tree (unpin_page p True)) (py_seq (fixup_after_delete ?c (rev (map fst ctx) @ [p])) (py_return True)))) Q E (t\<lparr>bt_pool := b1\<rparr>)"
    if b1: "at_view {} (view_pin p ?V) b1" for b1
  proof (cases "find_target (map snd es) r ?lo ?hi")
    case None
    with target mem have "(k, r) \<notin> set (entries (items T))" by simp
    then have "wp (unpin_page p False) (\<lambda>_ b. Q False (t\<lparr>bt_pool := b\<rparr>)) E' b1" for E'
      by (intro wp_unpin_at [OF b1]) (use avail Q2 in simp_all)
    with None show ?thesis by (simp add: wp_fun wp_return_fun wp_on_tree_next)
  next
    case (Some i)
    with target have here: "(k, r) \<in> set es" and del: "delete_at i es = remove1 (k, r) es" by simp_all
    let ?es = "remove1 (k, r) es"
    let ?F = "Leaf p ?es nx"
    note S = leaf_shrunk [OF inv ctx(1) here]
    have code: "write_leaf ?c (delete_at i (map fst es)) (delete_at i (map snd es)) nx = node_code ?c (LeafNode ?es nx)"
      by (simp flip: del add: delete_at_def take_map drop_map)
    have path: "length (rev (map fst ctx) @ [p]) - 1 = length ctx" by simp
    have own: "p \<in> set (pages T)" using plug_pages [of "Leaf p es nx" ctx] T by auto
    have same: "set (pages (plug ?F ctx)) = set (pages T)" using plug_pages [of "Leaf p es nx" ctx] plug_pages [of ?F ctx] T by simp
    have ents: "entries (items (plug ?F ctx)) = remove1 (k, r) (entries (items T))"
      unfolding gone [OF here] by (simp add: items_plug [OF ctx(1)])
    have "wp (write_buf p (node_code ?c (LeafNode ?es nx))) (\<lambda>_. wp (unpin_page p True)
        (\<lambda>_ b. wp (fixup_levels ?c (rev (map fst ctx) @ [p]) (length ctx)) (\<lambda>_. Q True) E (t\<lparr>bt_pool := b\<rparr>)) E') E' b1" for E'
    proof (rule wp_store [OF b1 _ L(3) avail D(1) S(1)])
      fix d b2 assume d: "node_holds ?c d (LeafNode ?es nx)" and b2: "at_view {} (view_write p d ?V) b2"
      have "wp (fixup_levels ?c (rev (map fst ctx) @ root_page ?F # []) (length ctx)) (\<lambda>_. Q True) E (t\<lparr>bt_pool := b2\<rparr>)"
      proof (rule fixup_levels_spec [where V = "view_write p d ?V"])
        show "tree_inv ?c (v_page (view_write p d ?V)) (v_count (view_write p d ?V)) (plug ?F ctx)" using S(2) [OF d] by simp
        show "few_duplicates ?c (entries (items (plug ?F ctx)))" unfolding ents by (rule few_duplicates_remove1 [OF few])
        show "bt_root t = root_page (plug ?F ctx)" using D(5) T by (auto simp: root_page_plug)
        show "keyed (ctx_images (root_page ?F) ctx)" using D(7) keyed_plug [of "Leaf p es nx" ctx] T by simp
        fix T' V' b' assume T': "settled ?c (plug ?F ctx) (view_write p d ?V) T' V'" and b': "at_view {} V' b'"
        have e: "evolves (set (pages T)) ?V V'"
          by (rule evolves_trans [OF evolves_write [OF own]]) (use T' same in \<open>auto simp: settled_def\<close>)
        have "tree_at (t\<lparr>bt_pool := b', bt_root := root_page T'\<rparr>) T'"
          by (rule tree_at_change [OF t _ b' e]) (use T' D(4) in \<open>auto simp: settled_def pool_view_sel\<close>)
        then show "Q True (t\<lparr>bt_pool := b', bt_root := root_page T'\<rparr>)"
          by (rule Q1 [rotated]) (use mem here T' ents e at_viewD(3) [OF b'] in \<open>simp_all add: settled_def\<close>)
      qed (use ctx(1) b2 avail D(1) in simp_all)
      then show "wp (fixup_levels ?c (rev (map fst ctx) @ [p]) (length ctx)) (\<lambda>_. Q True) E (t\<lparr>bt_pool := b2\<rparr>)" by simp
    qed simp
    then show ?thesis unfolding Some option.case code fixup_after_delete_def path by (simp add: wp_fun wp_return_fun wp_on_tree_next)
  qed
  show ?case
    unfolding last_snoc wp_fun wp_on_tree_next
  proof (rule wp_fetch_at [OF b L(3) avail], goal_cases)
    case (1 b1)
    show ?case
    proof (rule wp_read_at [where x = "(map fst es, map snd es, nx)", OF 1], goal_cases)
      case 3
      show ?case
        using finish [OF 1] unfolding prod.case wp_fun py_bisect_left_ok [OF k L(4,6)] py_bisect_right_ok [OF k L(4,6)] wp_lift_Inr .
    qed (use L(2) in simp_all)
  qed
qed

end
