(* ===== verification/BTree_Index.thy ===== *)
theory BTree_Index
  imports BTree_Delete
begin

text \<open>
  What the rest of the program relies on of an index. The locale \<open>ordered_index\<close> states the
  contract over the list of entries in key order; its clients' lemmas say what a search
  returns after an insertion or a deletion. The B+-tree is an interpretation of it, and the properties of
  the tree are stated over \<open>tree_holds\<close>. A tree just created is the sample state.
\<close>

section \<open>Entries\<close>

abbreviation entries_for :: "pyval \<Rightarrow> entry list \<Rightarrow> entry list" where
  "entries_for k es \<equiv> filter (\<lambda>e. fst e = k) es"

abbreviation rids_for :: "pyval \<Rightarrow> entry list \<Rightarrow> rid list" where
  "rids_for k es \<equiv> map snd (entries_for k es)"

lemma rids_for_insert:
  assumes "sorted (map fst es)"
  shows "rids_for k' (insert_entry k r es) = rids_for k' es @ (if k' = k then [r] else [])"
proof -
  let ?b = "dropWhile (\<lambda>e. fst e \<le> k) es"
  have es: "filter P es = filter P (takeWhile (\<lambda>e. fst e \<le> k) es) @ filter P ?b" for P :: "entry \<Rightarrow> bool"
    by (metis filter_append takeWhile_dropWhile_id)
  have "\<forall>e \<in> set ?b. k < fst e" using assms by (induction es) auto
  then have "k' = k \<Longrightarrow> entries_for k' ?b = []" by (auto simp: filter_empty_conv)
  then show ?thesis unfolding es [of "\<lambda>e. fst e = k'"] by (auto simp: insert_entry_def)
qed

lemma sorted_insert_entry:
  assumes "sorted (map fst es)"
  shows "sorted (map fst (insert_entry k r es))"
proof -
  have "\<forall>e \<in> set (dropWhile (\<lambda>e. fst e \<le> k) es). k < fst e" using assms by (induction es) auto
  moreover have "sorted (map fst (takeWhile (\<lambda>e. fst e \<le> k) es @ dropWhile (\<lambda>e. fst e \<le> k) es))" using assms by simp
  ultimately show ?thesis
    by (auto simp: insert_entry_def sorted_append less_imp_le simp del: takeWhile_dropWhile_id dest: set_takeWhileD)
qed

lemma rids_for_remove1:
  "rids_for k' (remove1 (k, r) es) = (if k' = k then remove1 r (rids_for k es) else rids_for k' es)"
  by (induction es) auto

lemma remove1_insert_entry:
  assumes "(k, r) \<notin> set es"
  shows "remove1 (k, r) (insert_entry k r es) = es"
proof -
  have "(k, r) \<notin> set (takeWhile (\<lambda>e. fst e \<le> k) es)" using assms by (auto dest: set_takeWhileD)
  then show ?thesis by (simp add: insert_entry_def remove1_append)
qed

section \<open>The contract of an index\<close>

locale ordered_index =
  fixes holds :: "'t \<Rightarrow> entry list \<Rightarrow> bool"
    and conf :: "'t \<Rightarrow> btconf"
    and room :: "'t \<Rightarrow> bool"
    and search :: "pyval \<Rightarrow> ('t, rid list) py"
    and scan :: "pyval \<Rightarrow> pyval \<Rightarrow> ('t, entry list) py"
    and insert :: "pyval \<Rightarrow> rid \<Rightarrow> ('t, unit) py"
    and delete :: "pyval \<Rightarrow> rid \<Rightarrow> ('t, bool) py"
  assumes in_order: "holds t es \<Longrightarrow> sorted (map fst es)"
    and search_law: "holds t es \<Longrightarrow> key_ok (conf t) k \<Longrightarrow>
      wp (search k) (\<lambda>rs t'. rs = rids_for k es \<and> holds t' es \<and> conf t' = conf t) (\<lambda>_ _. False) t"
    and scan_law: "holds t es \<Longrightarrow> bound_ok (conf t) lo \<Longrightarrow> bound_ok (conf t) hi \<Longrightarrow>
      wp (scan lo hi) (\<lambda>out t'. out = filter (in_range lo hi) es \<and> holds t' es \<and> conf t' = conf t) (\<lambda>_ _. False) t"
    and insert_law: "holds t es \<Longrightarrow> room t \<Longrightarrow> key_ok (conf t) k \<Longrightarrow> rid_ok r \<Longrightarrow>
      \<not> (bc_unique (conf t) \<and> rids_for k es \<noteq> []) \<Longrightarrow> length (rids_for k es) < bc_max_leaf_keys (conf t) \<Longrightarrow>
      wp (insert k r) (\<lambda>_ t'. holds t' (insert_entry k r es) \<and> conf t' = conf t) (\<lambda>_ _. False) t"
    and unique_law: "holds t es \<Longrightarrow> key_ok (conf t) k \<Longrightarrow> bc_unique (conf t) \<Longrightarrow> rids_for k es \<noteq> [] \<Longrightarrow>
      wp (insert k r) (\<lambda>_ _. False) (\<lambda>e t'. e = DuplicateKeyError \<and> holds t' es \<and> conf t' = conf t) t"
    and delete_law: "holds t es \<Longrightarrow> key_ok (conf t) k \<Longrightarrow> few_duplicates (conf t) es \<Longrightarrow>
      wp (delete k r) (\<lambda>d t'. d = ((k, r) \<in> set es) \<and> holds t' (remove1 (k, r) es) \<and> conf t' = conf t) (\<lambda>_ _. False) t"
begin

lemma search_after_delete:
  assumes h: "holds t es" and k: "key_ok (conf t) k" "key_ok (conf t) k'" and few: "few_duplicates (conf t) es"
  shows "wp (py_bind (delete k r) (\<lambda>d. py_bind (search k') (\<lambda>rs. py_return (d, rs))))
    (\<lambda>(d, rs) t'. d = ((k, r) \<in> set es) \<and> rs = (if k' = k then remove1 r (rids_for k es) else rids_for k' es)
       \<and> holds t' (remove1 (k, r) es)) (\<lambda>_ _. False) t"
  unfolding wp_bind
proof (rule wp_mono [OF delete_law [OF h k(1) few, of r]], goal_cases)
  case (1 d t')
  then have t': "holds t' (remove1 (k, r) es)" "conf t' = conf t" by simp_all
  show ?case unfolding wp_bind
    by (rule wp_mono [OF search_law [OF t'(1), of k']]) (use k(2) 1 in \<open>auto simp: rids_for_remove1 wp_return\<close>)
qed simp

text \<open>Deleting an entry just inserted restores the index.\<close>

lemma delete_undoes_insert:
  assumes h: "holds t es" "room t" and k: "key_ok (conf t) k" and r: "rid_ok r"
    and new: "\<not> (bc_unique (conf t) \<and> rids_for k es \<noteq> [])" and few: "length (rids_for k es) < bc_max_leaf_keys (conf t)"
    and small: "few_duplicates (conf t) (insert_entry k r es)" and fresh: "(k, r) \<notin> set es"
  shows "wp (py_seq (insert k r) (delete k r)) (\<lambda>d t'. d \<and> holds t' es) (\<lambda>_ _. False) t"
  unfolding wp_seq
proof (rule wp_mono [OF insert_law [OF h k r new few]], goal_cases)
  case (1 x t')
  then have t': "holds t' (insert_entry k r es)" "conf t' = conf t" by simp_all
  show ?case
    by (rule wp_mono [OF delete_law [OF t'(1), of k r]])
      (use k small t'(2) in \<open>auto simp: remove1_insert_entry [OF fresh]\<close>)
qed simp

lemma search_after_insert:
  assumes h: "holds t es" "room t" and k: "key_ok (conf t) k" "key_ok (conf t) k'" and r: "rid_ok r"
    and new: "\<not> (bc_unique (conf t) \<and> rids_for k es \<noteq> [])" and few: "length (rids_for k es) < bc_max_leaf_keys (conf t)"
  shows "wp (py_seq (insert k r) (search k'))
    (\<lambda>rs t'. rs = rids_for k' es @ (if k' = k then [r] else []) \<and> holds t' (insert_entry k r es)) (\<lambda>_ _. False) t"
  unfolding wp_seq
proof (rule wp_mono [OF insert_law [OF h k(1) r new few]], goal_cases)
  case (1 x t')
  then have t': "holds t' (insert_entry k r es)" "conf t' = conf t" by simp_all
  show ?case
    by (rule wp_mono [OF search_law [OF t'(1), of k']]) (use k(2) t'(2) in \<open>auto simp: rids_for_insert [OF in_order [OF h(1)]]\<close>)
qed simp

text \<open>A unique index holds at most one entry for a key, if it did before.\<close>

lemma unique_stays_unique:
  assumes h: "holds t es" "room t" and k: "key_ok (conf t) k" and r: "rid_ok r" and u: "bc_unique (conf t)"
    and size: "0 < bc_max_leaf_keys (conf t)" and one: "distinct (map fst es)"
  shows "wp (insert k r) (\<lambda>_ t'. holds t' (insert_entry k r es) \<and> distinct (map fst (insert_entry k r es)))
    (\<lambda>e t'. e = DuplicateKeyError \<and> holds t' es) t"
proof (cases "rids_for k es = []")
  case True
  then have "k \<notin> fst ` set es" by (auto simp: filter_empty_conv)
  moreover have "distinct (map fst (takeWhile (\<lambda>e. fst e \<le> k) es @ dropWhile (\<lambda>e. fst e \<le> k) es))" using one by simp
  ultimately have "distinct (map fst (insert_entry k r es))"
    by (auto simp: insert_entry_def simp del: takeWhile_dropWhile_id dest: set_takeWhileD set_dropWhileD)
  then show ?thesis using True size by (intro wp_mono [OF insert_law [OF h k r]]) auto
next
  case False
  then show ?thesis by (intro wp_mono [OF unique_law [OF h(1) k u]]) auto
qed

lemma search_is_point_scan:
  assumes "holds t es" and "key_ok (conf t) k"
  shows "wp (search k) (\<lambda>rs t'. wp (scan k k) (\<lambda>out _. rs = map snd out) (\<lambda>_ _. False) t') (\<lambda>_ _. False) t"
proof (rule wp_mono [OF search_law [OF assms]], goal_cases)
  case (1 rs t')
  have "k \<noteq> VNone" using assms(2) by (auto simp: key_ok_def)
  then have "in_range k k = (\<lambda>e. fst e = k)" by (intro ext) (auto simp: in_range_def)
  then show ?case using 1 assms(2) by (intro wp_mono [OF scan_law [of t' es k k]]) (auto simp: bound_ok_def)
qed simp

end

section \<open>The B+-tree keeps the contract\<close>

definition tree_room :: "btree \<Rightarrow> bool" where
  "tree_room t \<longleftrightarrow> pool_count (bt_pool t) + 34 \<le> INVALID_PAGE_ID"

interpretation tree_index: ordered_index tree_holds bt_conf tree_room bt_search range_scan bt_insert bt_delete
proof (unfold_locales, goal_cases)
  case (1 t es)
  then show ?case using entries_sorted tree_invD(3) [OF tree_atD(6)] by (auto simp: tree_holds_def)
next
  case (2 t es k)
  then obtain T where T: "tree_at t T" "entries (items T) = es" by (auto simp: tree_holds_def)
  show ?case by (rule wp_search [OF T(1) 2(2)]) (use T tree_at_same_view [OF T(1)] in \<open>auto simp: tree_holds_def\<close>)
next
  case (3 t es lo hi)
  then obtain T where T: "tree_at t T" "entries (items T) = es" by (auto simp: tree_holds_def)
  show ?case by (rule wp_range_scan [OF T(1) 3(2,3)]) (use T tree_at_same_view [OF T(1)] in \<open>auto simp: tree_holds_def\<close>)
next
  case (4 t es k r)
  then obtain T where T: "tree_at t T" "entries (items T) = es" by (auto simp: tree_holds_def)
  have present: "rids_for k es \<noteq> [] \<longleftrightarrow> k \<in> fst ` set (entries (items T))" using T(2) by (auto simp: filter_empty_conv)
  show ?case
  proof (rule wp_insert [OF T(1) 4(3,4)], goal_cases)
    case 1
    then show ?case using 4(2) by (simp add: tree_room_def)
  next
    case 2
    then show ?case using 4(5) present by blast
  next
    case (3 T' b r')
    then show ?case using T(2) by (auto simp: tree_holds_def)
  next
    case (4 b)
    then show ?case using \<open>length (rids_for k es) < _\<close> T(2) by simp
  qed
next
  case (5 t es k r)
  then obtain T where T: "tree_at t T" "entries (items T) = es" by (auto simp: tree_holds_def)
  have "k \<in> fst ` set (entries (items T))" using T(2) 5(4) by (auto simp: filter_empty_conv)
  then show ?case
    by (rule wp_insert_duplicate [OF T(1) 5(2,3)]) (use T tree_at_same_view [OF T(1)] in \<open>auto simp: tree_holds_def\<close>)
next
  case (6 t es k r)
  then obtain T where T: "tree_at t T" "entries (items T) = es" by (auto simp: tree_holds_def)
  show ?case
    by (rule wp_delete [OF T(1) 6(2)])
      (use 6(3) T tree_at_same_view [OF T(1)] in \<open>auto simp: tree_holds_def remove1_idem\<close>)
qed

section \<open>A new tree\<close>

lemma btree_open_leaf:
  assumes b: "at_view {} (pool_view b) b" and avail: "2 \<le> v_avail (pool_view b)" and cnt: "pool_count b < INVALID_PAGE_ID"
    and c: "btree_config kt ks uniq = Inr c" "conf_ok c"
  shows "wp (btree_open kt ks None uniq) (\<lambda>(c', p) b'. c' = c \<and> p = pool_count b
    \<and> tree_at \<lparr>bt_pool = b', bt_conf = c, bt_root = p\<rparr> (Leaf p [] INVALID_PAGE_ID) \<and> (\<exists>d. pool_view b' = view_grow d (pool_view b))) (\<lambda>_ _. False) b"
proof -
  have fit: "node_fits c (LeafNode [] INVALID_PAGE_ID)" by (simp add: leaf_fits_def INVALID_PAGE_ID_def)
  have "wp new_page (\<lambda>p. wp (write_buf p (node_code c (LeafNode [] INVALID_PAGE_ID))) (\<lambda>_. wp (unpin_page p True)
     (\<lambda>_ b'. p = pool_count b \<and> tree_at \<lparr>bt_pool = b', bt_conf = c, bt_root = p\<rparr> (Leaf p [] INVALID_PAGE_ID) \<and> (\<exists>d. pool_view b' = view_grow d (pool_view b))) E) E) E b" for E
  proof (rule wp_fresh [OF b _ c(2) fit], goal_cases)
    case (2 d b')
    note A = at_viewD [OF 2(2)]
    have "pages_ok c (pool_page b') (pool_count b') [(v_count (pool_view b), LeafNode [] INVALID_PAGE_ID)]"
      using 2(1) fit A by (simp add: pages_ok_def)
    then have "tree_inv c (pool_page b') (pool_count b') (Leaf (v_count (pool_view b)) [] INVALID_PAGE_ID)"
      using A by (auto simp: tree_inv_def entry_items_def)
    then have "tree_at \<lparr>bt_pool = b', bt_conf = c, bt_root = v_count (pool_view b)\<rparr> (Leaf (v_count (pool_view b)) [] INVALID_PAGE_ID)"
      using A avail cnt 2(2) c(2) by (simp add: tree_at_def pool_view_sel)
    then show ?case using A(3) by (auto simp: pool_view_sel)
  qed (use avail in simp)
  then show ?thesis by (simp add: btree_open_def wp_fun wp_return_fun wp_lift_Inr c)
qed

lemma btree_open_new:
  assumes "at_view {} (pool_view b) b" and "2 \<le> v_avail (pool_view b)" and "pool_count b < INVALID_PAGE_ID"
    and "btree_config kt ks uniq = Inr c" and "conf_ok c"
  shows "wp (btree_open kt ks None uniq) (\<lambda>(c', p) b'. c' = c \<and> tree_holds \<lparr>bt_pool = b', bt_conf = c, bt_root = p\<rparr> []
    \<and> pool_count b' = pool_count b + 1) (\<lambda>_ _. False) b"
proof (rule wp_mono [OF btree_open_leaf [OF assms]], goal_cases)
  case (1 x b')
  then obtain d p where x: "x = (c, p)" and t: "tree_at \<lparr>bt_pool = b', bt_conf = c, bt_root = p\<rparr> (Leaf p [] INVALID_PAGE_ID)"
    and v: "pool_view b' = view_grow d (pool_view b)" by auto
  have "tree_holds \<lparr>bt_pool = b', bt_conf = c, bt_root = p\<rparr> []" unfolding tree_holds_def by (intro exI conjI) (rule t, simp)
  moreover have "pool_count b' = pool_count b + 1" using arg_cong [OF v, of v_count] by (simp add: pool_view_sel)
  ultimately show ?case by (simp add: x)
qed simp

definition int_config :: "bool \<Rightarrow> btconf" where
  "int_config uniq = \<lparr>bc_key_type = T_INT, bc_key_size = 8, bc_unique = uniq, bc_max_leaf_keys = 292,
     bc_min_leaf_keys = 146, bc_max_internal_keys = 340, bc_min_internal_keys = 169\<rparr>"

lemma int_config: "btree_config T_INT n uniq = Inr (int_config uniq)"
  by (simp add: btree_config_def int_config_def Let_def node_consts)

definition fresh_tree :: "bool \<Rightarrow> btree" where
  "fresh_tree uniq = (case btree_open T_INT 8 None uniq (pool_init (disk_open None) 2) of
     (r, b) \<Rightarrow> (case r of Inl _ \<Rightarrow> \<lparr>bt_pool = b, bt_conf = int_config uniq, bt_root = 0\<rparr>
                | Inr (c, p) \<Rightarrow> \<lparr>bt_pool = b, bt_conf = c, bt_root = p\<rparr>))"

lemma fresh_tree:
  "tree_holds (fresh_tree uniq) []" "bt_conf (fresh_tree uniq) = int_config uniq" "tree_room (fresh_tree uniq)"
proof -
  let ?b = "pool_init (disk_open None) 2"
  have "dm_num_pages (disk_open None) = 0" by (simp add: disk_open_def Let_def)
  then have cnt: "pool_count ?b = 0" by (simp add: pool_init_def)
  have "wp (btree_open T_INT 8 None uniq) (\<lambda>(c, p) b'. c = int_config uniq
      \<and> tree_holds \<lparr>bt_pool = b', bt_conf = int_config uniq, bt_root = p\<rparr> []
      \<and> pool_count b' = pool_count ?b + 1) (\<lambda>_ _. False) ?b"
    by (rule btree_open_new)
      (use cnt int_config btree_config_ok [OF int_config, of 8] in \<open>simp_all add: at_view_def pool_init_inv [OF disk_open_inv] INVALID_PAGE_ID_def\<close>)
  then show "tree_holds (fresh_tree uniq) []" "bt_conf (fresh_tree uniq) = int_config uniq" "tree_room (fresh_tree uniq)"
    by (auto simp: wp_total fresh_tree_def cnt tree_room_def INVALID_PAGE_ID_def)
qed

lemma fresh_tree_conf [simp]:
  "key_ok (bt_conf (fresh_tree uniq)) (VInt 7)" "key_ok (bt_conf (fresh_tree uniq)) (VInt 8)"
  "bc_unique (bt_conf (fresh_tree uniq)) = uniq" "bc_max_leaf_keys (bt_conf (fresh_tree uniq)) = 292"
  by (simp_all add: fresh_tree int_config_def key_ok_def)

section \<open>Properties\<close>

text \<open>
  C26: \<^verbatim>\<open>search\<close> returns every row identifier stored under the key and no other, in the order
  of their insertion, whatever the shape of the tree and however many duplicates there are;
  the tree is not changed.
\<close>

theorem bt_search_complete:
  assumes "tree_holds t es" and "key_ok (bt_conf t) k"
  shows "wp (bt_search k) (\<lambda>rs t'. rs = map snd (filter (\<lambda>e. fst e = k) es) \<and> tree_holds t' es) (\<lambda>_ _. False) t"
  by (rule wp_mono [OF tree_index.search_law [OF assms]]) simp_all

theorem bt_search_complete_witness:
  "wp (bt_search (VInt 7)) (\<lambda>rs t'. rs = [] \<and> tree_holds t' []) (\<lambda>_ _. False) (fresh_tree False)"
  by (rule wp_mono [OF bt_search_complete [OF fresh_tree(1)]]) simp_all

text \<open>
  C27: \<^verbatim>\<open>range_scan\<close> follows the chain of leaves to its end and yields exactly the entries with
  a key between the bounds, in ascending order; a bound may be \<^verbatim>\<open>None\<close>.
\<close>

theorem bt_range_scan_exact:
  assumes "tree_holds t es" and "bound_ok (bt_conf t) lo" and "bound_ok (bt_conf t) hi"
  shows "wp (range_scan lo hi) (\<lambda>out t'. out = filter (in_range lo hi) es \<and> sorted (map fst out) \<and> tree_holds t' es)
    (\<lambda>_ _. False) t"
  by (rule wp_mono [OF tree_index.scan_law [OF assms]])
    (use sorted_filter [of fst es "in_range lo hi"] tree_index.in_order [OF assms(1)] in auto)

theorem bt_range_scan_exact_witness:
  "wp (range_scan VNone (VInt 7)) (\<lambda>out t'. out = [] \<and> tree_holds t' []) (\<lambda>_ _. False) (fresh_tree True)"
  by (rule wp_mono [OF bt_range_scan_exact [OF fresh_tree(1)]]) (simp_all add: bound_ok_def)

text \<open>
  C28: After \<^verbatim>\<open>insert(k, r)\<close>, with all the splits it causes, a search for \<open>k\<close> returns \<open>r\<close> behind
  the identifiers \<open>k\<close> had before, and a search for any other key returns what it returned
  before. The insertion succeeds unless the key exists in a unique index or has as many
  entries as a leaf holds.
\<close>

theorem bt_insert_then_search:
  assumes "tree_holds t es" and "tree_room t" and "key_ok (bt_conf t) k" and "key_ok (bt_conf t) k'" and "rid_ok r"
    and "\<not> (bc_unique (bt_conf t) \<and> rids_for k es \<noteq> [])" and "length (rids_for k es) < bc_max_leaf_keys (bt_conf t)"
  shows "wp (py_seq (bt_insert k r) (bt_search k'))
    (\<lambda>rs t'. rs = rids_for k' es @ (if k' = k then [r] else []) \<and> tree_holds t' (insert_entry k r es)) (\<lambda>_ _. False) t"
  using assms by (rule tree_index.search_after_insert)

theorem bt_insert_then_search_witness:
  "wp (py_seq (bt_insert (VInt 7) (RID 3 4)) (bt_search (VInt 7))) (\<lambda>rs t'. rs = [RID 3 4]) (\<lambda>_ _. False) (fresh_tree True)"
  by (rule wp_mono [OF bt_insert_then_search [OF fresh_tree(1,3)]]) (simp_all add: rid_ok_def)

text \<open>
  C29: \<^verbatim>\<open>delete(k, r)\<close> returns whether the pair was in the index and removes exactly one
  occurrence of it: afterwards a search for \<open>k\<close> returns the identifiers as before without \<open>r\<close>,
  and a search for any other key what it returned before, whatever the borrowing, merging and
  shrinking of the tree the deletion causes. No key may have more than a quarter of a
  leaf's entries; a unique index always satisfies this.
\<close>

theorem bt_delete_then_search:
  assumes "tree_holds t es" and "key_ok (bt_conf t) k" and "key_ok (bt_conf t) k'" and "few_duplicates (bt_conf t) es"
  shows "wp (py_bind (bt_delete k r) (\<lambda>d. py_bind (bt_search k') (\<lambda>rs. py_return (d, rs))))
    (\<lambda>(d, rs) t'. d = ((k, r) \<in> set es) \<and> rs = (if k' = k then remove1 r (rids_for k es) else rids_for k' es)
       \<and> tree_holds t' (remove1 (k, r) es)) (\<lambda>_ _. False) t"
  using assms by (rule tree_index.search_after_delete)

text \<open>
  Inserting an entry the index does not hold and deleting it again gives an index with
  the entries it had, although the pages may be arranged differently.
\<close>

theorem bt_delete_undoes_insert:
  assumes "tree_holds t es" and "tree_room t" and "key_ok (bt_conf t) k" and "rid_ok r"
    and "\<not> (bc_unique (bt_conf t) \<and> rids_for k es \<noteq> [])" and "length (rids_for k es) < bc_max_leaf_keys (bt_conf t)"
    and "few_duplicates (bt_conf t) (insert_entry k r es)" and "(k, r) \<notin> set es"
  shows "wp (py_seq (bt_insert k r) (bt_delete k r)) (\<lambda>d t'. d \<and> tree_holds t' es) (\<lambda>_ _. False) t"
  using assms by (rule tree_index.delete_undoes_insert)

theorem bt_delete_undoes_insert_witness:
  "wp (py_seq (bt_insert (VInt 7) (RID 3 4)) (bt_delete (VInt 7) (RID 3 4))) (\<lambda>d t'. d \<and> tree_holds t' []) (\<lambda>_ _. False) (fresh_tree False)"
  by (rule bt_delete_undoes_insert [OF fresh_tree(1,3)]) (simp_all add: rid_ok_def few_duplicates_def insert_entry_def)

text \<open>
  A unique index rejects a second entry for a key with \<^verbatim>\<open>DuplicateKeyError\<close> and keeps its
  entries.
\<close>

theorem bt_unique_rejects:
  assumes "tree_holds t es" and "key_ok (bt_conf t) k" and "bc_unique (bt_conf t)" and "rids_for k es \<noteq> []"
  shows "wp (bt_insert k r) (\<lambda>_ _. False) (\<lambda>e t'. e = DuplicateKeyError \<and> tree_holds t' es) t"
  by (rule wp_mono [OF tree_index.unique_law [OF assms]]) simp_all

text \<open>A unique tree with one entry.\<close>

definition small_tree :: btree where
  "small_tree = snd (bt_insert (VInt 7) (RID 3 4) (fresh_tree True))"

lemma small_tree: "tree_holds small_tree [(VInt 7, RID 3 4)]" "bt_conf small_tree = int_config True"
proof -
  have "wp (bt_insert (VInt 7) (RID 3 4)) (\<lambda>_ t'. tree_holds t' [(VInt 7, RID 3 4)] \<and> bt_conf t' = int_config True)
      (\<lambda>_ _. False) (fresh_tree True)"
    by (rule wp_mono [OF tree_index.insert_law [OF fresh_tree(1,3)]])
      (auto simp: rid_ok_def insert_entry_def fresh_tree(2) int_config_def key_ok_def split: if_splits)
  then show "tree_holds small_tree [(VInt 7, RID 3 4)]" "bt_conf small_tree = int_config True"
    by (auto simp: wp_total small_tree_def)
qed

theorem bt_delete_then_search_witness:
  "wp (py_bind (bt_delete (VInt 7) (RID 3 4)) (\<lambda>d. py_bind (bt_search (VInt 7)) (\<lambda>rs. py_return (d, rs))))
    (\<lambda>(d, rs) t'. d \<and> rs = [] \<and> tree_holds t' []) (\<lambda>_ _. False) small_tree"
  by (rule wp_mono [OF bt_delete_then_search [OF small_tree(1)]])
    (auto simp: small_tree(2) int_config_def key_ok_def few_duplicates_def)

theorem bt_unique_rejects_witness:
  "wp (bt_insert (VInt 7) (RID 9 9)) (\<lambda>_ _. False) (\<lambda>e t'. e = DuplicateKeyError \<and> tree_holds t' [(VInt 7, RID 3 4)]) small_tree"
  by (rule bt_unique_rejects [OF small_tree(1)]) (simp_all add: small_tree(2) int_config_def key_ok_def rid_ok_def)

text \<open>
  A point lookup and a scan with both bounds at the key agree: the two access paths of
  the index return the same row identifiers in the same order.
\<close>

theorem bt_search_is_point_scan:
  assumes "tree_holds t es" and "key_ok (bt_conf t) k"
  shows "wp (bt_search k) (\<lambda>rs t'. wp (range_scan k k) (\<lambda>out _. rs = map snd out) (\<lambda>_ _. False) t') (\<lambda>_ _. False) t"
  using assms by (rule tree_index.search_is_point_scan)

theorem bt_search_is_point_scan_witness:
  "wp (bt_search (VInt 7)) (\<lambda>rs t'. wp (range_scan (VInt 7) (VInt 7)) (\<lambda>out _. rs = map snd out) (\<lambda>_ _. False) t')
    (\<lambda>_ _. False) small_tree"
  by (rule bt_search_is_point_scan [OF small_tree(1)]) (simp add: small_tree(2) int_config_def key_ok_def)

text \<open>
  The limits that the constructor computes: a full node fits a page, two leaves at the
  minimum fit one leaf, and two internal nodes at the minimum fit one together with the
  separator between them.
\<close>

theorem btree_limits:
  assumes "btree_config kt ks uniq = Inr c" and "ks \<le> 1016"
  shows "LEAF_HEADER + bc_max_leaf_keys c * (bc_key_size c + RID_SIZE) \<le> PAGE_SIZE
    \<and> INTERNAL_HEADER + CHILD_SIZE + bc_max_internal_keys c * (bc_key_size c + CHILD_SIZE) \<le> PAGE_SIZE
    \<and> 2 * bc_min_leaf_keys c \<le> bc_max_leaf_keys c \<and> 2 * bc_min_internal_keys c + 1 \<le> bc_max_internal_keys c"
  using btree_config_ok [OF assms] by (auto simp: conf_ok_def)

theorem btree_limits_witness:
  "LEAF_HEADER + bc_max_leaf_keys (int_config True) * (bc_key_size (int_config True) + RID_SIZE) \<le> PAGE_SIZE
    \<and> INTERNAL_HEADER + CHILD_SIZE + bc_max_internal_keys (int_config True) * (bc_key_size (int_config True) + CHILD_SIZE) \<le> PAGE_SIZE
    \<and> 2 * bc_min_leaf_keys (int_config True) \<le> bc_max_leaf_keys (int_config True)
    \<and> 2 * bc_min_internal_keys (int_config True) + 1 \<le> bc_max_internal_keys (int_config True)"
  by (rule btree_limits [OF int_config [of 8]]) simp

text \<open>A unique index has few duplicates.\<close>

lemma few_duplicates_distinct:
  assumes "distinct (map fst es)" and "conf_ok c"
  shows "few_duplicates c es"
proof -
  have "length (entries_for k es) \<le> 1" for k
    using assms(1) by (induction es) (auto simp: filter_empty_conv rev_image_eqI)
  moreover have "1 \<le> bc_max_leaf_keys c div 4" using conf_okD(2) [OF assms(2)] by simp
  ultimately show ?thesis unfolding few_duplicates_def by (meson order_trans)
qed

lemma run_length_replicate:
  "py_eq x x \<Longrightarrow> \<not> py_eq y x \<Longrightarrow> run_length x (replicate n x @ y # ys) = n"
  by (induction n) simp_all

lemma sorted_VInt_upto: "sorted (map VInt [i..j])"
  by (simp add: sorted_map sorted_wrt_upto sorted_wrt_mono_rel [OF _ sorted_wrt_upto])


definition text_config :: btconf where
  "text_config = \<lparr>bc_key_type = T_TEXT, bc_key_size = 8, bc_unique = False, bc_max_leaf_keys = 292,
     bc_min_leaf_keys = 146, bc_max_internal_keys = 340, bc_min_internal_keys = 169\<rparr>"


end
