(* ===== verification/Sql_Syntax.thy ===== *)
theory Sql_Syntax
  imports Py_Numbers
begin

text \<open>
  The syntax trees of SQL (\<^verbatim>\<open>sql/ast.py\<close>): expressions and statements, one constructor or
  record per data class. Operators and names are strings, as in the code.
\<close>

section \<open>Expressions\<close>

datatype expr =
    Literal pyval
  | ColumnRef ustring "ustring option"
  | Star
  | UnaryOp ustring expr
  | BinaryOp ustring expr expr
  | FunctionCall ustring expr

section \<open>Statements\<close>

record column_def =
  cd_name :: ustring
  cd_type :: ustring

record select_item =
  si_expr :: expr
  si_alias :: "ustring option"

record join_clause =
  jc_table :: ustring
  jc_on :: expr
  jc_alias :: "ustring option"

record order_by_item =
  ob_expr :: expr
  ob_descending :: bool

record select_stmt =
  sel_items :: "select_item list"
  sel_table :: ustring
  sel_table_alias :: "ustring option"
  sel_join :: "join_clause option"
  sel_where :: "expr option"
  sel_group_by :: "ustring list"
  sel_order_by :: "order_by_item list"
  sel_limit :: "int option"

datatype statement =
    CreateTable ustring "column_def list"
  | CreateIndex ustring ustring ustring bool
  | Insert ustring "ustring list option" "expr list list"
  | Select select_stmt
  | Update ustring "(ustring \<times> expr) list" "expr option"
  | Delete ustring "expr option"

end
