(* ===== verification/Sql_Lexer.thy ===== *)
theory Sql_Lexer
  imports Sql_Syntax
begin

text \<open>
  The lexer (\<^verbatim>\<open>sql/lexer.py\<close>). The master regular expression is a list of alternatives that
  are tried in order at a position; \<open>lex_match\<close> returns the first that matches and how many
  characters it takes, as Python's backtracking matcher does. \<^verbatim>\<open>\s\<close> and \<^verbatim>\<open>\d\<close> are Python's
  classes for strings (Unicode 14).
\<close>

section \<open>Character classes\<close>

definition re_space :: "nat \<Rightarrow> bool" where
  "re_space c \<longleftrightarrow> 9 \<le> c \<and> c \<le> 13 \<or> 28 \<le> c \<and> c \<le> 32 \<or> c = 133 \<or> c = 160 \<or> c = 5760
     \<or> 8192 \<le> c \<and> c \<le> 8202 \<or> c = 8232 \<or> c = 8233 \<or> c = 8239 \<or> c = 8287 \<or> c = 12288"

text \<open>The zeros of the scripts that have decimal digits; each is followed by the other nine.\<close>

definition decimal_zeros :: "nat list" where
  "decimal_zeros = [48, 1632, 1776, 1984, 2406, 2534, 2662, 2790, 2918, 3046, 3174, 3302, 3430, 3558, 3664,
     3792, 3872, 4160, 4240, 6112, 6160, 6470, 6608, 6784, 6800, 6992, 7088, 7232, 7248, 42528, 43216, 43264,
     43472, 43504, 43600, 44016, 65296, 66720, 68912, 69734, 69872, 69942, 70096, 70384, 70736, 70864, 71248,
     71360, 71472, 71904, 72016, 72784, 73040, 73120, 92768, 92864, 93008, 120782, 120792, 120802, 120812,
     120822, 123200, 123632, 125264, 130032]"

definition decimal_value :: "nat \<Rightarrow> nat option" where
  "decimal_value c = map_option (\<lambda>z. c - z) (find (\<lambda>z. z \<le> c \<and> c < z + 10) decimal_zeros)"

definition re_digit :: "nat \<Rightarrow> bool" where
  "re_digit c \<longleftrightarrow> decimal_value c \<noteq> None"

definition ident_start :: "nat \<Rightarrow> bool" where
  "ident_start c \<longleftrightarrow> 65 \<le> c \<and> c \<le> 90 \<or> 97 \<le> c \<and> c \<le> 122 \<or> c = 95"

definition ident_char :: "nat \<Rightarrow> bool" where
  "ident_char c \<longleftrightarrow> ident_start c \<or> 48 \<le> c \<and> c \<le> 57"

definition single_ops :: "ustring" where
  "single_ops = u ''=<>(),;.*-''"

definition double_ops :: "ustring list" where
  "double_ops = [u ''<='', u ''>='', u ''<>'', u ''!='']"

section \<open>The alternatives of the master expression\<close>

datatype lex_class = L_WHITESPACE | L_COMMENT | L_NUMBER | L_STRING | L_IDENT | L_OP

definition match_space :: "ustring \<Rightarrow> nat option" where
  "match_space cs = (let n = length (takeWhile re_space cs) in if 0 < n then Some n else None)"

definition match_comment :: "ustring \<Rightarrow> nat option" where
  "match_comment cs = (if take 2 cs = u ''--'' then Some (2 + length (takeWhile (\<lambda>c. c \<noteq> 10) (drop 2 cs))) else None)"

definition match_number :: "ustring \<Rightarrow> nat option" where
  "match_number cs =
     (let n = length (takeWhile re_digit cs)
      in if n = 0 then None
         else (case drop n cs of
                 [] \<Rightarrow> Some n
               | c # rest \<Rightarrow> let m = length (takeWhile re_digit rest)
                   in if c = 46 \<and> 0 < m then Some (n + 1 + m) else Some n))"

text \<open>
  The text behind an opening quote, up to and with the closing one. At a doubled quote the
  matcher first goes on behind it; only if the literal is then never closed is the first of
  the two the closing quote.
\<close>

fun string_rest :: "ustring \<Rightarrow> nat option" where
  "string_rest [] = None"
| "string_rest [c] = (if c = 39 then Some 1 else None)"
| "string_rest (c # d # cs) =
     (if c = 39 then
        if d = 39 then (case string_rest cs of None \<Rightarrow> Some 1 | Some n \<Rightarrow> Some (n + 2)) else Some 1
      else map_option Suc (string_rest (d # cs)))"

definition match_string :: "ustring \<Rightarrow> nat option" where
  "match_string cs = (case cs of [] \<Rightarrow> None | c # rest \<Rightarrow> if c = 39 then map_option Suc (string_rest rest) else None)"

definition match_ident :: "ustring \<Rightarrow> nat option" where
  "match_ident cs = (case cs of [] \<Rightarrow> None | c # rest \<Rightarrow>
     if ident_start c then Some (Suc (length (takeWhile ident_char rest))) else None)"

definition match_op :: "ustring \<Rightarrow> nat option" where
  "match_op cs = (if take 2 cs \<in> set double_ops then Some 2
     else case cs of [] \<Rightarrow> None | c # _ \<Rightarrow> if c \<in> set single_ops then Some 1 else None)"

text \<open>The first alternative that matches.\<close>

definition lex_match :: "ustring \<Rightarrow> (lex_class \<times> nat) option" where
  "lex_match cs =
     (case match_space cs of Some n \<Rightarrow> Some (L_WHITESPACE, n) | None \<Rightarrow>
      case match_comment cs of Some n \<Rightarrow> Some (L_COMMENT, n) | None \<Rightarrow>
      case match_number cs of Some n \<Rightarrow> Some (L_NUMBER, n) | None \<Rightarrow>
      case match_string cs of Some n \<Rightarrow> Some (L_STRING, n) | None \<Rightarrow>
      case match_ident cs of Some n \<Rightarrow> Some (L_IDENT, n) | None \<Rightarrow>
      case match_op cs of Some n \<Rightarrow> Some (L_OP, n) | None \<Rightarrow> None)"

lemma lex_match_pos: "lex_match cs = Some (k, n) \<Longrightarrow> 0 < n"
  unfolding lex_match_def match_space_def match_comment_def match_number_def match_string_def match_ident_def match_op_def
  by (auto simp: Let_def split: option.splits if_splits list.splits)

section \<open>Tokens\<close>

datatype token_kind = KEYWORD | IDENT | NUMBER | STRING | OP | EOF

record token =
  tok_kind :: token_kind
  tok_value :: ustring
  tok_pos :: nat

definition KEYWORDS :: "ustring list" where
  "KEYWORDS = map u [''CREATE'', ''TABLE'', ''INDEX'', ''ON'', ''UNIQUE'', ''INSERT'', ''INTO'', ''VALUES'',
     ''SELECT'', ''FROM'', ''WHERE'', ''AND'', ''OR'', ''NOT'', ''ORDER'', ''BY'', ''ASC'',
     ''DESC'', ''LIMIT'', ''GROUP'', ''JOIN'', ''UPDATE'', ''SET'', ''DELETE'', ''AS'',
     ''TRUE'', ''FALSE'', ''NULL'', ''INT'', ''FLOAT'', ''TEXT'', ''BOOL'']"

text \<open>
  \<^verbatim>\<open>str.upper\<close>. The code only compares the result with ASCII texts or applies it to ASCII
  texts. The ASCII letters and the ten other characters whose upper-case form is ASCII are
  exact; the upper-case form of any other character is not ASCII, and the character stands for it.
\<close>

definition upper_char :: "nat \<Rightarrow> ustring" where
  "upper_char c =
     (if 97 \<le> c \<and> c \<le> 122 then [c - 32]
      else if c = 223 then u ''SS'' else if c = 305 then u ''I'' else if c = 383 then u ''S''
      else if c = 64256 then u ''FF'' else if c = 64257 then u ''FI'' else if c = 64258 then u ''FL''
      else if c = 64259 then u ''FFI'' else if c = 64260 then u ''FFL'' else if c = 64261 \<or> c = 64262 then u ''ST''
      else [c])"

definition upper :: "ustring \<Rightarrow> ustring" where
  "upper cs = concat (map upper_char cs)"

text \<open>\<^verbatim>\<open>replace("''", "'")\<close>.\<close>

fun unescape_quotes :: "ustring \<Rightarrow> ustring" where
  "unescape_quotes (c # d # cs) = (if c = 39 \<and> d = 39 then 39 # unescape_quotes cs else c # unescape_quotes (d # cs))"
| "unescape_quotes cs = cs"

definition make_token :: "lex_class \<Rightarrow> ustring \<Rightarrow> nat \<Rightarrow> token" where
  "make_token k txt pos =
     (case k of
        L_IDENT \<Rightarrow> if upper txt \<in> set KEYWORDS then \<lparr>tok_kind = KEYWORD, tok_value = upper txt, tok_pos = pos\<rparr>
          else \<lparr>tok_kind = IDENT, tok_value = txt, tok_pos = pos\<rparr>
      | L_STRING \<Rightarrow> \<lparr>tok_kind = STRING, tok_value = unescape_quotes (butlast (tl txt)), tok_pos = pos\<rparr>
      | L_NUMBER \<Rightarrow> \<lparr>tok_kind = NUMBER, tok_value = txt, tok_pos = pos\<rparr>
      | _ \<Rightarrow> \<lparr>tok_kind = OP, tok_value = txt, tok_pos = pos\<rparr>)"

text \<open>The loop of \<^verbatim>\<open>tokenize\<close> on the text from \<open>pos\<close> on: every match takes a character.\<close>

function tokenize_loop :: "nat \<Rightarrow> ustring \<Rightarrow> token list res" where
  "tokenize_loop pos cs =
     (if cs = [] then Inr [\<lparr>tok_kind = EOF, tok_value = [], tok_pos = pos\<rparr>]
      else case lex_match cs of
        None \<Rightarrow> Inl LexError
      | Some (k, n) \<Rightarrow>
          if k = L_WHITESPACE \<or> k = L_COMMENT then tokenize_loop (pos + n) (drop n cs)
          else res_bind (tokenize_loop (pos + n) (drop n cs)) (\<lambda>ts. Inr (make_token k (take n cs) pos # ts)))"
  by pat_completeness auto
termination
  by (relation "measure (\<lambda>(pos, cs). length cs)") (auto dest: lex_match_pos)

declare tokenize_loop.simps [simp del]

definition tokenize :: "ustring \<Rightarrow> token list res" where
  "tokenize sql = tokenize_loop 0 sql"

end
