(* ===== verification/Sql_Parser.thy ===== *)
theory Sql_Parser
  imports Sql_Lexer
begin

text \<open>
  The recursive-descent parser (\<^verbatim>\<open>sql/parser.py\<close>), one definition per method of \<^verbatim>\<open>Parser\<close>. The
  state of the parser object is the list of the tokens from \<^verbatim>\<open>self.pos\<close> on; an exception ends
  the parse, so it carries no state. The methods for expressions call each other; their fuel
  bounds the depth of the calls, and \<open>Sql_Fuel\<close> shows that the fuel given by \<open>parse_expr\<close>
  is never used up. The limit of Python on the depth of calls is not modelled.
\<close>

section \<open>Parsers\<close>

type_synonym 'a parser = "token list \<Rightarrow> ('a \<times> token list) res"

definition p_return :: "'a \<Rightarrow> 'a parser" where
  "p_return x = (\<lambda>ts. Inr (x, ts))"

definition p_raise :: "py_error \<Rightarrow> 'a parser" where
  "p_raise e = (\<lambda>ts. Inl e)"

definition p_bind :: "'a parser \<Rightarrow> ('a \<Rightarrow> 'b parser) \<Rightarrow> 'b parser" where
  "p_bind p f = (\<lambda>ts. res_bind (p ts) (\<lambda>(x, ts'). f x ts'))"

definition p_lift :: "'a res \<Rightarrow> 'a parser" where
  "p_lift r = (\<lambda>ts. res_bind r (\<lambda>x. Inr (x, ts)))"

section \<open>The token stream\<close>

definition p_peek :: "token parser" where
  "p_peek ts = (case ts of [] \<Rightarrow> Inl IndexError | t # _ \<Rightarrow> Inr (t, ts))"

definition p_advance :: "token parser" where
  "p_advance ts = (case ts of [] \<Rightarrow> Inl IndexError | t # ts' \<Rightarrow> Inr (t, ts'))"

definition is_token :: "token_kind \<Rightarrow> ustring option \<Rightarrow> token \<Rightarrow> bool" where
  "is_token kind val t \<longleftrightarrow> tok_kind t = kind \<and> (val = None \<or> val = Some (tok_value t))"

definition p_check :: "token_kind \<Rightarrow> ustring option \<Rightarrow> bool parser" where
  "p_check kind val = p_bind p_peek (\<lambda>t. p_return (is_token kind val t))"

definition p_match :: "token_kind \<Rightarrow> ustring option \<Rightarrow> token option parser" where
  "p_match kind val = p_bind (p_check kind val) (\<lambda>b. if b then p_bind p_advance (\<lambda>t. p_return (Some t)) else p_return None)"

definition p_expect :: "token_kind \<Rightarrow> ustring option \<Rightarrow> token parser" where
  "p_expect kind val = p_bind p_peek (\<lambda>t. p_bind (p_check kind val) (\<lambda>b. if b then p_advance else p_raise ParseError))"

abbreviation key_word :: "string \<Rightarrow> token option parser" where
  "key_word w \<equiv> p_match KEYWORD (Some (u w))"

abbreviation op_sign :: "string \<Rightarrow> token option parser" where
  "op_sign w \<equiv> p_match OP (Some (u w))"

definition p_ident :: "ustring parser" where
  "p_ident = p_bind (p_expect IDENT None) (\<lambda>t. p_return (tok_value t))"

text \<open>
  The loop \<^verbatim>\<open>while self._match("OP", ","): xs.append(p())\<close> behind the first element. Every turn
  takes a token, so the number of tokens is fuel enough.
\<close>

fun comma_loop :: "nat \<Rightarrow> 'a parser \<Rightarrow> 'a list parser" where
  "comma_loop 0 p = p_raise Diverges"
| "comma_loop (Suc k) p =
     p_bind (op_sign '','') (\<lambda>m. case m of None \<Rightarrow> p_return []
       | Some _ \<Rightarrow> p_bind p (\<lambda>x. p_bind (comma_loop k p) (\<lambda>xs. p_return (x # xs))))"

definition comma_list :: "'a parser \<Rightarrow> 'a list parser" where
  "comma_list p = p_bind p (\<lambda>x ts. p_bind (comma_loop (Suc (length ts)) p) (\<lambda>xs. p_return (x # xs)) ts)"

section \<open>Expressions\<close>

definition COMPARISON_OPS :: "ustring list" where
  "COMPARISON_OPS = map u [''='', ''<>'', ''!='', ''<'', ''<='', ''>'', ''>='']"

text \<open>\<^verbatim>\<open>-operand.value\<close>; a truth value is a number.\<close>

fun negate :: "pyval \<Rightarrow> pyval option" where
  "negate (VInt i) = Some (VInt (- i))"
| "negate (VBool b) = Some (VInt (if b then - 1 else 0))"
| "negate (VFloat f) = Some (VFloat (if f_negative f then f - 2 ^ 63 else f + 2 ^ 63))"
| "negate _ = None"

text \<open>\<^verbatim>\<open>int\<close> and \<^verbatim>\<open>float\<close> of the text of a number read the digits of all scripts.\<close>

definition ascii_digit :: "nat \<Rightarrow> nat" where
  "ascii_digit c = (case decimal_value c of None \<Rightarrow> c | Some d \<Rightarrow> 48 + d)"

definition number_literal :: "ustring \<Rightarrow> pyval res" where
  "number_literal s =
     (if 46 \<in> set s then res_bind (float_of_str (map ascii_digit s)) (\<lambda>f. Inr (VFloat f))
      else res_bind (int_of_str (map ascii_digit s)) (\<lambda>i. Inr (VInt i)))"

fun parse_or :: "nat \<Rightarrow> expr parser"
  and or_loop :: "nat \<Rightarrow> expr \<Rightarrow> expr parser"
  and parse_and :: "nat \<Rightarrow> expr parser"
  and and_loop :: "nat \<Rightarrow> expr \<Rightarrow> expr parser"
  and parse_not :: "nat \<Rightarrow> expr parser"
  and parse_comparison :: "nat \<Rightarrow> expr parser"
  and parse_primary :: "nat \<Rightarrow> expr parser" where
  "parse_or 0 = p_raise Diverges"
| "parse_or (Suc k) = p_bind (parse_and k) (\<lambda>left. or_loop k left)"
| "or_loop 0 left = p_raise Diverges"
| "or_loop (Suc k) left =
     p_bind (key_word ''OR'') (\<lambda>m. case m of None \<Rightarrow> p_return left
       | Some _ \<Rightarrow> p_bind (parse_and k) (\<lambda>right. or_loop k (BinaryOp (u ''OR'') left right)))"
| "parse_and 0 = p_raise Diverges"
| "parse_and (Suc k) = p_bind (parse_not k) (\<lambda>left. and_loop k left)"
| "and_loop 0 left = p_raise Diverges"
| "and_loop (Suc k) left =
     p_bind (key_word ''AND'') (\<lambda>m. case m of None \<Rightarrow> p_return left
       | Some _ \<Rightarrow> p_bind (parse_not k) (\<lambda>right. and_loop k (BinaryOp (u ''AND'') left right)))"
| "parse_not 0 = p_raise Diverges"
| "parse_not (Suc k) =
     p_bind (key_word ''NOT'') (\<lambda>m. case m of
         Some _ \<Rightarrow> p_bind (parse_not k) (\<lambda>e. p_return (UnaryOp (u ''NOT'') e))
       | None \<Rightarrow> parse_comparison k)"
| "parse_comparison 0 = p_raise Diverges"
| "parse_comparison (Suc k) =
     p_bind (parse_primary k) (\<lambda>left.
     p_bind p_peek (\<lambda>t.
       if tok_kind t = OP \<and> tok_value t \<in> set COMPARISON_OPS then
         p_bind p_advance (\<lambda>t.
         p_bind (parse_primary k) (\<lambda>right.
         p_return (BinaryOp (if tok_value t = u ''!='' then u ''<>'' else tok_value t) left right)))
       else p_return left))"
| "parse_primary 0 = p_raise Diverges"
| "parse_primary (Suc k) =
     p_bind p_peek (\<lambda>tok.
       if is_token OP (Some (u ''-'')) tok then
         p_bind p_advance (\<lambda>_.
         p_bind (parse_primary k) (\<lambda>operand.
           case operand of
             Literal v \<Rightarrow> (case negate v of Some w \<Rightarrow> p_return (Literal w) | None \<Rightarrow> p_raise ParseError)
           | _ \<Rightarrow> p_raise ParseError))
       else if tok_kind tok = NUMBER then
         p_bind p_advance (\<lambda>_. p_bind (p_lift (number_literal (tok_value tok))) (\<lambda>v. p_return (Literal v)))
       else if tok_kind tok = STRING then p_bind p_advance (\<lambda>_. p_return (Literal (VStr (tok_value tok))))
       else if is_token KEYWORD (Some (u ''TRUE'')) tok then p_bind p_advance (\<lambda>_. p_return (Literal (VBool True)))
       else if is_token KEYWORD (Some (u ''FALSE'')) tok then p_bind p_advance (\<lambda>_. p_return (Literal (VBool False)))
       else if is_token KEYWORD (Some (u ''NULL'')) tok then p_bind p_advance (\<lambda>_. p_return (Literal VNone))
       else if is_token OP (Some (u ''('')) tok then
         p_bind p_advance (\<lambda>_.
         p_bind (parse_or k) (\<lambda>inner.
         p_bind (p_expect OP (Some (u '')''))) (\<lambda>_. p_return inner)))
       else if is_token OP (Some (u ''*'')) tok then p_bind p_advance (\<lambda>_. p_return Star)
       else if tok_kind tok = IDENT then
         p_bind p_advance (\<lambda>_.
         p_bind (op_sign ''('') (\<lambda>m. case m of
             Some _ \<Rightarrow>
               p_bind (p_check OP (Some (u ''*''))) (\<lambda>star.
               p_bind (if star then p_return Star else parse_or k) (\<lambda>arg.
               p_bind (if arg = Star then op_sign ''*'' else p_return None) (\<lambda>_.
               p_bind (p_expect OP (Some (u '')''))) (\<lambda>_.
               p_return (FunctionCall (upper (tok_value tok)) arg)))))
           | None \<Rightarrow>
               p_bind (op_sign ''.'') (\<lambda>m. case m of
                   Some _ \<Rightarrow> p_bind p_ident (\<lambda>c. p_return (ColumnRef c (Some (tok_value tok))))
                 | None \<Rightarrow> p_return (ColumnRef (tok_value tok) None))))
       else p_raise ParseError)"

text \<open>A call of the chain from \<^verbatim>\<open>_parse_or\<close> down to \<^verbatim>\<open>_parse_primary\<close> takes a token in eight calls.\<close>

definition parse_expr :: "expr parser" where
  "parse_expr ts = parse_or (8 * length ts + 5) ts"

section \<open>Statements\<close>

definition parse_column_def :: "column_def parser" where
  "parse_column_def =
     p_bind p_ident (\<lambda>name.
     p_bind p_advance (\<lambda>type_tok.
       if upper (tok_value type_tok) \<in> set (map u [''INT'', ''FLOAT'', ''TEXT'', ''BOOL''])
       then p_return \<lparr>cd_name = name, cd_type = upper (tok_value type_tok)\<rparr>
       else p_raise ParseError))"

definition parse_create :: "statement parser" where
  "parse_create =
     p_bind (p_expect KEYWORD (Some (u ''CREATE''))) (\<lambda>_.
     p_bind (key_word ''UNIQUE'') (\<lambda>un.
     p_bind (key_word ''TABLE'') (\<lambda>m. case m of
         Some _ \<Rightarrow>
           p_bind p_ident (\<lambda>table.
           p_bind (p_expect OP (Some (u ''(''))) (\<lambda>_.
           p_bind (comma_list parse_column_def) (\<lambda>columns.
           p_bind (p_expect OP (Some (u '')''))) (\<lambda>_.
           p_return (CreateTable table columns)))))
       | None \<Rightarrow>
           p_bind (p_expect KEYWORD (Some (u ''INDEX''))) (\<lambda>_.
           p_bind p_ident (\<lambda>index_name.
           p_bind (p_expect KEYWORD (Some (u ''ON''))) (\<lambda>_.
           p_bind p_ident (\<lambda>table.
           p_bind (p_expect OP (Some (u ''(''))) (\<lambda>_.
           p_bind p_ident (\<lambda>column.
           p_bind (p_expect OP (Some (u '')''))) (\<lambda>_.
           p_return (CreateIndex index_name table column (un \<noteq> None)))))))))))) "

definition parse_value_row :: "expr list parser" where
  "parse_value_row =
     p_bind (p_expect OP (Some (u ''(''))) (\<lambda>_.
     p_bind (comma_list parse_expr) (\<lambda>values.
     p_bind (p_expect OP (Some (u '')''))) (\<lambda>_. p_return values)))"

definition parse_insert :: "statement parser" where
  "parse_insert =
     p_bind (p_expect KEYWORD (Some (u ''INSERT''))) (\<lambda>_.
     p_bind (p_expect KEYWORD (Some (u ''INTO''))) (\<lambda>_.
     p_bind p_ident (\<lambda>table.
     p_bind (p_bind (op_sign ''('') (\<lambda>m. case m of None \<Rightarrow> p_return None
         | Some _ \<Rightarrow> p_bind (comma_list p_ident) (\<lambda>names.
             p_bind (p_expect OP (Some (u '')''))) (\<lambda>_. p_return (Some names))))) (\<lambda>columns.
     p_bind (p_expect KEYWORD (Some (u ''VALUES''))) (\<lambda>_.
     p_bind (comma_list parse_value_row) (\<lambda>rows.
     p_return (Insert table columns rows)))))))"

definition parse_optional_alias :: "ustring option parser" where
  "parse_optional_alias =
     p_bind (key_word ''AS'') (\<lambda>m. case m of
         Some _ \<Rightarrow> p_bind p_ident (\<lambda>a. p_return (Some a))
       | None \<Rightarrow> p_bind (p_check IDENT None) (\<lambda>b.
           if b then p_bind p_advance (\<lambda>t. p_return (Some (tok_value t))) else p_return None))"

definition parse_select_item :: "select_item parser" where
  "parse_select_item =
     p_bind parse_expr (\<lambda>e.
     p_bind (key_word ''AS'') (\<lambda>m. case m of
         Some _ \<Rightarrow> p_bind p_ident (\<lambda>a. p_return \<lparr>si_expr = e, si_alias = Some a\<rparr>)
       | None \<Rightarrow> p_return \<lparr>si_expr = e, si_alias = None\<rparr>))"

definition parse_select_items :: "select_item list parser" where
  "parse_select_items =
     p_bind (op_sign ''*'') (\<lambda>m. case m of
         Some _ \<Rightarrow> p_return [\<lparr>si_expr = Star, si_alias = None\<rparr>]
       | None \<Rightarrow> comma_list parse_select_item)"

definition parse_order_item :: "order_by_item parser" where
  "parse_order_item =
     p_bind parse_expr (\<lambda>e.
     p_bind (key_word ''DESC'') (\<lambda>m. case m of
         Some _ \<Rightarrow> p_return \<lparr>ob_expr = e, ob_descending = True\<rparr>
       | None \<Rightarrow> p_bind (key_word ''ASC'') (\<lambda>_. p_return \<lparr>ob_expr = e, ob_descending = False\<rparr>)))"

text \<open>The optional clauses of \<^verbatim>\<open>SELECT\<close>, in their order.\<close>

definition parse_join :: "join_clause option parser" where
  "parse_join =
     p_bind (key_word ''JOIN'') (\<lambda>m. case m of None \<Rightarrow> p_return None
       | Some _ \<Rightarrow>
           p_bind p_ident (\<lambda>table.
           p_bind parse_optional_alias (\<lambda>alias.
           p_bind (p_expect KEYWORD (Some (u ''ON''))) (\<lambda>_.
           p_bind parse_expr (\<lambda>on.
           p_return (Some \<lparr>jc_table = table, jc_on = on, jc_alias = alias\<rparr>))))))"

definition parse_where :: "expr option parser" where
  "parse_where =
     p_bind (key_word ''WHERE'') (\<lambda>m. case m of None \<Rightarrow> p_return None
       | Some _ \<Rightarrow> p_bind parse_expr (\<lambda>e. p_return (Some e)))"

definition parse_group_by :: "ustring list parser" where
  "parse_group_by =
     p_bind (key_word ''GROUP'') (\<lambda>m. case m of None \<Rightarrow> p_return []
       | Some _ \<Rightarrow> p_bind (p_expect KEYWORD (Some (u ''BY''))) (\<lambda>_. comma_list p_ident))"

definition parse_order_by :: "order_by_item list parser" where
  "parse_order_by =
     p_bind (key_word ''ORDER'') (\<lambda>m. case m of None \<Rightarrow> p_return []
       | Some _ \<Rightarrow> p_bind (p_expect KEYWORD (Some (u ''BY''))) (\<lambda>_. comma_list parse_order_item))"

definition parse_limit :: "int option parser" where
  "parse_limit =
     p_bind (key_word ''LIMIT'') (\<lambda>m. case m of None \<Rightarrow> p_return None
       | Some _ \<Rightarrow> p_bind (p_expect NUMBER None) (\<lambda>t.
           p_bind (p_lift (int_of_str (map ascii_digit (tok_value t)))) (\<lambda>i. p_return (Some i))))"

definition parse_select :: "statement parser" where
  "parse_select =
     p_bind (p_expect KEYWORD (Some (u ''SELECT''))) (\<lambda>_.
     p_bind parse_select_items (\<lambda>items.
     p_bind (p_expect KEYWORD (Some (u ''FROM''))) (\<lambda>_.
     p_bind p_ident (\<lambda>table.
     p_bind parse_optional_alias (\<lambda>table_alias.
     p_bind parse_join (\<lambda>join.
     p_bind parse_where (\<lambda>wh.
     p_bind parse_group_by (\<lambda>group_by.
     p_bind parse_order_by (\<lambda>order_by.
     p_bind parse_limit (\<lambda>limit.
     p_return (Select \<lparr>sel_items = items, sel_table = table, sel_table_alias = table_alias, sel_join = join,
       sel_where = wh, sel_group_by = group_by, sel_order_by = order_by, sel_limit = limit\<rparr>)))))))))))"

definition parse_assignment :: "(ustring \<times> expr) parser" where
  "parse_assignment =
     p_bind p_ident (\<lambda>name.
     p_bind (p_expect OP (Some (u ''=''))) (\<lambda>_.
     p_bind parse_expr (\<lambda>e. p_return (name, e))))"

definition parse_update :: "statement parser" where
  "parse_update =
     p_bind (p_expect KEYWORD (Some (u ''UPDATE''))) (\<lambda>_.
     p_bind p_ident (\<lambda>table.
     p_bind (p_expect KEYWORD (Some (u ''SET''))) (\<lambda>_.
     p_bind (comma_list parse_assignment) (\<lambda>assignments.
     p_bind parse_where (\<lambda>wh. p_return (Update table assignments wh))))))"

definition parse_delete :: "statement parser" where
  "parse_delete =
     p_bind (p_expect KEYWORD (Some (u ''DELETE''))) (\<lambda>_.
     p_bind (p_expect KEYWORD (Some (u ''FROM''))) (\<lambda>_.
     p_bind p_ident (\<lambda>table.
     p_bind parse_where (\<lambda>wh. p_return (Delete table wh)))))"

definition parse_statement :: "statement parser" where
  "parse_statement =
     p_bind (p_bind p_peek (\<lambda>t.
       if is_token KEYWORD (Some (u ''CREATE'')) t then parse_create
       else if is_token KEYWORD (Some (u ''INSERT'')) t then parse_insert
       else if is_token KEYWORD (Some (u ''SELECT'')) t then parse_select
       else if is_token KEYWORD (Some (u ''UPDATE'')) t then parse_update
       else if is_token KEYWORD (Some (u ''DELETE'')) t then parse_delete
       else p_raise ParseError)) (\<lambda>stmt.
     p_bind (op_sign '';'') (\<lambda>_.
     p_bind (p_expect EOF None) (\<lambda>_. p_return stmt)))"

definition parse :: "ustring \<Rightarrow> statement res" where
  "parse sql = res_bind (tokenize sql) (\<lambda>ts. res_bind (parse_statement ts) (\<lambda>(stmt, _). Inr stmt))"

end
