(* ===== verification/Sql_Fuel.thy ===== *)
theory Sql_Fuel
  imports Sql_Parser
begin

text \<open>
  The parser ends on every input. A parser is \<open>total\<close> when it does not use up its fuel and
  never returns more tokens than it was given; the combinators keep this. For expressions the
  depth of the calls is bounded by eight times the number of tokens, and more fuel does not
  change a result, so the methods satisfy the equations of the code without fuel.
\<close>

section \<open>Total parsers\<close>

definition total :: "'a parser \<Rightarrow> bool" where
  "total p \<longleftrightarrow> (\<forall>ts. p ts \<noteq> Inl Diverges \<and> (\<forall>x ts'. p ts = Inr (x, ts') \<longrightarrow> length ts' \<le> length ts))"

named_theorems total_intros "rules that show that a parser ends"

lemma totalI:
  "(\<And>ts. p ts \<noteq> Inl Diverges) \<Longrightarrow> (\<And>ts x ts'. p ts = Inr (x, ts') \<Longrightarrow> length ts' \<le> length ts) \<Longrightarrow> total p"
  by (simp add: total_def)

lemma totalD:
  assumes "total p"
  shows "p ts \<noteq> Inl Diverges" and "p ts = Inr (x, ts') \<Longrightarrow> length ts' \<le> length ts"
  using assms by (auto simp: total_def)

lemma p_bind_eq:
  "p_bind p f ts = Inr (y, ts'') \<longleftrightarrow> (\<exists>x ts'. p ts = Inr (x, ts') \<and> f x ts' = Inr (y, ts''))"
  "p_bind p f ts = Inl e \<longleftrightarrow> p ts = Inl e \<or> (\<exists>x ts'. p ts = Inr (x, ts') \<and> f x ts' = Inl e)"
  by (auto simp: p_bind_def res_bind_Inr_iff res_bind_Inl_iff)

lemma p_bind_Inr: "p ts = Inr (x, ts') \<Longrightarrow> p_bind p f ts = f x ts'"
  by (simp add: p_bind_def)

lemma total_return [total_intros]: "total (p_return x)"
  by (simp add: total_def p_return_def)

lemma total_raise [total_intros]: "e \<noteq> Diverges \<Longrightarrow> total (p_raise e)"
  by (simp add: total_def p_raise_def)

lemma total_bind [total_intros]: "total p \<Longrightarrow> (\<And>x. total (f x)) \<Longrightarrow> total (p_bind p f)"
proof (rule totalI)
  assume p: "total p" and f: "\<And>x. total (f x)"
  show "p_bind p f ts \<noteq> Inl Diverges" for ts using totalD(1) [OF p] totalD(1) [OF f] by (auto simp: p_bind_eq)
  show "length ts'' \<le> length ts" if "p_bind p f ts = Inr (y, ts'')" for ts y ts''
    using that totalD(2) [OF p] totalD(2) [OF f] by (fastforce simp: p_bind_eq intro: order_trans)
qed

lemma total_if [total_intros]: "total p \<Longrightarrow> total q \<Longrightarrow> total (if b then p else q)"
  by simp

lemma total_case_option [total_intros]:
  "total p \<Longrightarrow> (\<And>x. total (f x)) \<Longrightarrow> total (case m of None \<Rightarrow> p | Some x \<Rightarrow> f x)"
  by (cases m) simp_all

lemma total_lift [total_intros]: "r \<noteq> Inl Diverges \<Longrightarrow> total (p_lift r)"
  by (cases r) (auto simp: total_def p_lift_def)

lemma total_peek [total_intros]: "total p_peek" and total_advance [total_intros]: "total p_advance"
  by (auto simp: total_def p_peek_def p_advance_def split: list.splits)

lemma total_stream [total_intros]:
  "total (p_check kind v)" "total (p_match kind v)" "total (p_expect kind v)" "total p_ident"
  unfolding p_check_def p_match_def p_expect_def p_ident_def
  by (intro total_intros; simp)+

text \<open>A token that is taken is gone.\<close>

lemma match_shrinks: "p_match kind v ts = Inr (Some t, ts') \<Longrightarrow> length ts = Suc (length ts')"
  by (auto simp: p_match_def p_check_def p_bind_def p_peek_def p_advance_def p_return_def
      split: list.splits if_splits elim!: res_bindE)

lemma match_none: "p_match kind v ts = Inr (None, ts') \<Longrightarrow> ts' = ts"
  by (auto simp: p_match_def p_check_def p_bind_def p_peek_def p_advance_def p_return_def
      split: list.splits if_splits elim!: res_bindE)

lemma comma_loop_total:
  assumes "total p"
  shows "(length ts < k \<longrightarrow> comma_loop k p ts \<noteq> Inl Diverges) \<and> (\<forall>xs ts'. comma_loop k p ts = Inr (xs, ts') \<longrightarrow> length ts' \<le> length ts)"
proof (induction k arbitrary: ts)
  case 0
  then show ?case by (simp add: p_raise_def)
next
  case (Suc k)
  note m = totalD [OF total_stream(2)] and P = totalD [OF assms]
  have "length ts' \<le> length ts" if "comma_loop (Suc k) p ts = Inr (xs, ts')" for xs ts'
    using that Suc.IH P(2) m(2) by (fastforce simp: p_bind_eq p_return_def split: option.splits intro: order_trans)
  moreover have "comma_loop (Suc k) p ts \<noteq> Inl Diverges" if "length ts < Suc k"
  proof
    assume "comma_loop (Suc k) p ts = Inl Diverges"
    then obtain t ts1 x ts2 where 1: "op_sign '','' ts = Inr (Some t, ts1)" "p ts1 = Inr (x, ts2)" "comma_loop k p ts2 = Inl Diverges"
      using m(1) P(1) by (auto simp: p_bind_eq p_return_def split: option.splits)
    have "length ts2 < k" using match_shrinks [OF 1(1)] P(2) [OF 1(2)] that by simp
    with Suc.IH 1(3) show False by blast
  qed
  ultimately show ?case by blast
qed

lemma total_comma_list [total_intros]:
  assumes "total p"
  shows "total (comma_list p)"
proof (rule totalI)
  note P = totalD [OF assms] and L = comma_loop_total [OF assms]
  show "comma_list p ts \<noteq> Inl Diverges" for ts
    using P(1) L by (auto simp: comma_list_def p_bind_eq p_return_def simp del: comma_loop.simps)
  show "length ts' \<le> length ts" if "comma_list p ts = Inr (xs, ts')" for ts xs ts'
    using that P(2) L by (fastforce simp: comma_list_def p_bind_eq p_return_def simp del: comma_loop.simps intro: order_trans)
qed

section \<open>Results and fuel\<close>

text \<open>More fuel can only turn \<open>Diverges\<close> into a result.\<close>

definition less_defined :: "'a res \<Rightarrow> 'a res \<Rightarrow> bool" where
  "less_defined r r' \<longleftrightarrow> r = Inl Diverges \<or> r' = r"

definition fuel_le :: "'a parser \<Rightarrow> 'a parser \<Rightarrow> bool" where
  "fuel_le p q \<longleftrightarrow> (\<forall>ts. less_defined (p ts) (q ts))"

named_theorems fuel_intros "parsers and fuel"

lemma fuel_refl [fuel_intros]: "fuel_le p p"
  by (simp add: fuel_le_def less_defined_def)

lemma fuel_bind [fuel_intros]: "fuel_le p q \<Longrightarrow> (\<And>x. fuel_le (f x) (g x)) \<Longrightarrow> fuel_le (p_bind p f) (p_bind q g)"
  unfolding fuel_le_def less_defined_def p_bind_def
proof
  fix ts assume p: "\<forall>ts. p ts = Inl Diverges \<or> q ts = p ts" and f: "\<And>x. \<forall>ts. f x ts = Inl Diverges \<or> g x ts = f x ts"
  show "res_bind (p ts) (\<lambda>(x, ts'). f x ts') = Inl Diverges \<or> res_bind (q ts) (\<lambda>(x, ts'). g x ts') = res_bind (p ts) (\<lambda>(x, ts'). f x ts')"
    using p [rule_format, of ts] f by (cases "p ts") auto
qed

lemma fuel_if [fuel_intros]: "fuel_le p q \<Longrightarrow> fuel_le p' q' \<Longrightarrow> fuel_le (if b then p else p') (if b then q else q')"
  by simp

lemma fuel_option [fuel_intros]:
  "fuel_le p q \<Longrightarrow> (\<And>x. fuel_le (f x) (g x)) \<Longrightarrow>
    fuel_le (case m of None \<Rightarrow> p | Some x \<Rightarrow> f x) (case m of None \<Rightarrow> q | Some x \<Rightarrow> g x)"
  by (cases m) simp_all

lemma fuel_raise [fuel_intros]: "fuel_le (p_raise Diverges) q"
  by (simp add: fuel_le_def less_defined_def p_raise_def)

definition expr_fuel_le :: "nat \<Rightarrow> nat \<Rightarrow> bool" where
  "expr_fuel_le k k' \<longleftrightarrow> fuel_le (parse_or k) (parse_or k') \<and> (\<forall>e. fuel_le (or_loop k e) (or_loop k' e))
   \<and> fuel_le (parse_and k) (parse_and k') \<and> (\<forall>e. fuel_le (and_loop k e) (and_loop k' e))
   \<and> fuel_le (parse_not k) (parse_not k') \<and> fuel_le (parse_comparison k) (parse_comparison k')
   \<and> fuel_le (parse_primary k) (parse_primary k')"

lemma expr_fuel_step:
  assumes "expr_fuel_le k k'"
  shows "expr_fuel_le (Suc k) (Suc k')"
proof -
  from assms have IH: "fuel_le (parse_or k) (parse_or k')" "\<And>e. fuel_le (or_loop k e) (or_loop k' e)"
    "fuel_le (parse_and k) (parse_and k')" "\<And>e. fuel_le (and_loop k e) (and_loop k' e)"
    "fuel_le (parse_not k) (parse_not k')" "fuel_le (parse_comparison k) (parse_comparison k')"
    "fuel_le (parse_primary k) (parse_primary k')" by (simp_all add: expr_fuel_le_def)
  show ?thesis unfolding expr_fuel_le_def parse_or.simps(2) or_loop.simps(2)
      parse_and.simps(2) and_loop.simps(2) parse_not.simps(2) parse_comparison.simps(2) parse_primary.simps(2)
    by (intro conjI allI IH fuel_intros)
qed

lemma expr_fuel_mono: "k \<le> k' \<Longrightarrow> expr_fuel_le k k'"
proof (induction k arbitrary: k')
  case 0
  show ?case unfolding expr_fuel_le_def parse_or.simps(1) or_loop.simps(1) parse_and.simps(1) and_loop.simps(1) parse_not.simps(1)
      parse_comparison.simps(1) parse_primary.simps(1) by (intro conjI allI fuel_raise)
next
  case (Suc k)
  then obtain j where "k' = Suc j" "k \<le> j" by (cases k') auto
  with Suc.IH expr_fuel_step show ?case by blast
qed

section \<open>What an expression takes\<close>

definition keeps :: "'a parser \<Rightarrow> bool" where
  "keeps p \<longleftrightarrow> (\<forall>ts x ts'. p ts = Inr (x, ts') \<longrightarrow> length ts' \<le> length ts)"

definition takes :: "'a parser \<Rightarrow> bool" where
  "takes p \<longleftrightarrow> (\<forall>ts x ts'. p ts = Inr (x, ts') \<longrightarrow> length ts' < length ts)"

named_theorems take_intros "parsers and the number of tokens they leave"

lemma total_keeps: "total p \<Longrightarrow> keeps p"
  by (simp add: total_def keeps_def)

lemma takes_keeps: "takes p \<Longrightarrow> keeps p"
  by (auto simp: keeps_def takes_def intro: less_imp_le)

lemma keeps_bind [take_intros]: "keeps p \<Longrightarrow> (\<And>x. keeps (f x)) \<Longrightarrow> keeps (p_bind p f)"
  unfolding keeps_def by (fastforce simp: p_bind_eq intro: order_trans)

lemma takes_bind: "takes p \<Longrightarrow> (\<And>x. keeps (f x)) \<Longrightarrow> takes (p_bind p f)"
  unfolding keeps_def takes_def by (fastforce simp: p_bind_eq intro: le_less_trans)

lemma takes_bind_keeps: "keeps p \<Longrightarrow> (\<And>x. takes (f x)) \<Longrightarrow> takes (p_bind p f)"
  unfolding keeps_def takes_def by (fastforce simp: p_bind_eq intro: less_le_trans)

lemma keeps_basic [take_intros]:
  "keeps (p_return x)" "keeps (p_raise e)" "keeps (p_lift r)" "keeps p_peek" "keeps p_advance"
  "keeps (p_check kind v)" "keeps (p_match kind v)" "keeps (p_expect kind v)" "keeps p_ident"
proof -
  show "keeps (p_raise e)" "keeps (p_lift r)" by (auto simp: keeps_def p_raise_def p_lift_def elim!: res_bindE)
qed (rule total_keeps, rule total_intros)+

lemma takes_advance: "takes p_advance"
  by (auto simp: takes_def p_advance_def split: list.splits)

lemma takes_raise [take_intros]: "takes (p_raise e)"
  by (simp add: takes_def p_raise_def)

lemmas takes_bind_stream [take_intros] =
  takes_bind [OF takes_advance] takes_bind_keeps [OF keeps_basic(4)] takes_bind_keeps [OF keeps_basic(7)]

lemma take_if [take_intros]:
  "keeps p \<Longrightarrow> keeps q \<Longrightarrow> keeps (if b then p else q)"
  "takes p \<Longrightarrow> takes q \<Longrightarrow> takes (if b then p else q)"
  by simp_all

lemma take_option [take_intros]:
  "keeps p \<Longrightarrow> (\<And>x. keeps (f x)) \<Longrightarrow> keeps (case m of None \<Rightarrow> p | Some x \<Rightarrow> f x)"
  "takes p \<Longrightarrow> (\<And>x. takes (f x)) \<Longrightarrow> takes (case m of None \<Rightarrow> p | Some x \<Rightarrow> f x)"
  by (cases m; simp)+

lemma keeps_expr [take_intros]:
  "(\<And>v. keeps (f v)) \<Longrightarrow> keeps (case e of Literal v \<Rightarrow> f v | _ \<Rightarrow> p_raise x)"
  by (cases e) (simp_all add: keeps_basic)

lemma expr_takes:
  "takes (parse_or k) \<and> (\<forall>e. keeps (or_loop k e)) \<and> takes (parse_and k) \<and> (\<forall>e. keeps (and_loop k e))
   \<and> takes (parse_not k) \<and> takes (parse_comparison k) \<and> takes (parse_primary k)"
proof (induction k)
  case 0
  show ?case by (auto intro: take_intros)
next
  case (Suc k)
  then have t: "takes (parse_or k)" "takes (parse_and k)" "takes (parse_not k)" "takes (parse_comparison k)" "takes (parse_primary k)"
    and k: "\<And>e. keeps (or_loop k e)" "\<And>e. keeps (and_loop k e)" by blast+
  note b = t [THEN takes_bind] t [THEN takes_keeps]
  show ?case unfolding parse_or.simps(2) or_loop.simps(2)
      parse_and.simps(2) and_loop.simps(2) parse_not.simps(2) parse_comparison.simps(2) parse_primary.simps(2)
    by (intro conjI allI t k b take_intros)
qed

section \<open>The fuel is enough\<close>

text \<open>\<open>ends n p\<close>: the parser does not use up its fuel on \<open>n\<close> tokens or fewer.\<close>

definition ends :: "nat \<Rightarrow> 'a parser \<Rightarrow> bool" where
  "ends n p \<longleftrightarrow> (\<forall>ts. length ts \<le> n \<longrightarrow> p ts \<noteq> Inl Diverges)"

named_theorems end_intros "parsers that do not use up their fuel"

lemma total_ends: "total p \<Longrightarrow> ends n p"
  by (simp add: total_def ends_def)

lemma ends_bind: "keeps p \<Longrightarrow> ends n p \<Longrightarrow> (\<And>x. ends n (f x)) \<Longrightarrow> ends n (p_bind p f)"
  unfolding ends_def keeps_def by (auto simp: p_bind_eq) (meson order_trans)

lemma ends_takes: "takes p \<Longrightarrow> ends n p \<Longrightarrow> (\<And>x m. m < n \<Longrightarrow> ends m (f x)) \<Longrightarrow> ends n (p_bind p f)"
  unfolding ends_def takes_def by (auto simp: p_bind_eq) (metis order_refl order_less_le_trans)

lemma ends_basic [end_intros]:
  "ends n (p_return x)" "e \<noteq> Diverges \<Longrightarrow> ends n (p_raise e)" "r \<noteq> Inl Diverges \<Longrightarrow> ends n (p_lift r)" "ends n p_peek"
  "ends n p_advance" "ends n (p_check kind v)" "ends n (p_match kind v)" "ends n (p_expect kind v)" "ends n p_ident"
  by (rule total_ends, intro total_intros; assumption)+

lemmas ends_bind_stream [end_intros] =
  ends_takes [OF takes_advance ends_basic(5)] ends_bind [OF keeps_basic(4) ends_basic(4)] ends_bind [OF keeps_basic(3) ends_basic(3)]
  ends_bind [OF keeps_basic(6) ends_basic(6)] ends_bind [OF keeps_basic(8) ends_basic(8)] ends_bind [OF keeps_basic(9) ends_basic(9)]

lemma ends_match [end_intros]:
  assumes "ends n p" and "\<And>t m. m < n \<Longrightarrow> ends m (f t)"
  shows "ends n (p_bind (p_match kind v) (\<lambda>m. case m of None \<Rightarrow> p | Some t \<Rightarrow> f t))"
  unfolding ends_def
proof (intro allI impI notI)
  fix ts assume n: "length ts \<le> n" and "p_bind (p_match kind v) (\<lambda>m. case m of None \<Rightarrow> p | Some t \<Rightarrow> f t) ts = Inl Diverges"
  then obtain x ts' where m: "p_match kind v ts = Inr (x, ts')" and d: "(case x of None \<Rightarrow> p | Some t \<Rightarrow> f t) ts' = Inl Diverges"
    using totalD(1) [OF total_stream(2)] by (auto simp: p_bind_eq)
  show False
  proof (cases x)
    case None
    with m d assms(1) n show False by (auto simp: ends_def dest: match_none)
  next
    case (Some t)
    with m d assms(2) [of "length ts'" t] n show False by (auto simp: ends_def dest: match_shrinks)
  qed
qed

lemma ends_if [end_intros]: "ends n p \<Longrightarrow> ends n q \<Longrightarrow> ends n (if b then p else q)"
  by simp

lemma ends_bind_if [end_intros]:
  "keeps p \<Longrightarrow> keeps q \<Longrightarrow> ends n p \<Longrightarrow> ends n q \<Longrightarrow> (\<And>x. ends n (f x)) \<Longrightarrow> ends n (p_bind (if b then p else q) f)"
  by (simp add: ends_bind)

lemma ends_option [end_intros]: "ends n p \<Longrightarrow> (\<And>x. ends n (f x)) \<Longrightarrow> ends n (case m of None \<Rightarrow> p | Some x \<Rightarrow> f x)"
  by (cases m) simp_all

lemma ends_expr [end_intros]:
  "(\<And>v. ends n (f v)) \<Longrightarrow> x \<noteq> Diverges \<Longrightarrow> ends n (case e of Literal v \<Rightarrow> f v | _ \<Rightarrow> p_raise x)"
  by (cases e) (simp_all add: ends_basic)

lemma number_literal_ends [end_intros]: "number_literal s \<noteq> Inl Diverges"
  by (auto simp: number_literal_def float_of_str_def int_of_str_def Let_def res_bind_Inl_iff split: prod.splits option.splits if_splits)

lemma int_of_str_ends [end_intros]: "int_of_str s \<noteq> Inl Diverges"
  by (auto simp: int_of_str_def Let_def split: prod.splits option.splits)

text \<open>
  From \<^verbatim>\<open>_parse_or\<close> the calls go down to \<^verbatim>\<open>_parse_primary\<close> in four steps, and every call back up
  or round a loop has taken a token.
\<close>

lemma expr_ends:
  "(8 * n + 5 \<le> k \<longrightarrow> ends n (parse_or k)) \<and> (8 * n + 1 \<le> k \<longrightarrow> (\<forall>e. ends n (or_loop k e)))
   \<and> (8 * n + 4 \<le> k \<longrightarrow> ends n (parse_and k)) \<and> (8 * n + 1 \<le> k \<longrightarrow> (\<forall>e. ends n (and_loop k e)))
   \<and> (8 * n + 3 \<le> k \<longrightarrow> ends n (parse_not k)) \<and> (8 * n + 2 \<le> k \<longrightarrow> ends n (parse_comparison k))
   \<and> (8 * n + 1 \<le> k \<longrightarrow> ends n (parse_primary k))"
proof (induction k arbitrary: n)
  case 0
  show ?case by simp
next
  case (Suc k)
  then have IH: "\<And>n. 8 * n + 5 \<le> k \<Longrightarrow> ends n (parse_or k)" "\<And>n e. 8 * n + 1 \<le> k \<Longrightarrow> ends n (or_loop k e)"
    "\<And>n. 8 * n + 4 \<le> k \<Longrightarrow> ends n (parse_and k)" "\<And>n e. 8 * n + 1 \<le> k \<Longrightarrow> ends n (and_loop k e)"
    "\<And>n. 8 * n + 3 \<le> k \<Longrightarrow> ends n (parse_not k)" "\<And>n. 8 * n + 2 \<le> k \<Longrightarrow> ends n (parse_comparison k)"
    "\<And>n. 8 * n + 1 \<le> k \<Longrightarrow> ends n (parse_primary k)" by blast+
  have t: "takes (parse_or k)" "takes (parse_and k)" "takes (parse_not k)" "takes (parse_primary k)"
    using expr_takes by blast+
  note b = t [THEN ends_takes] t [THEN takes_keeps] keeps_basic
  show ?case unfolding parse_or.simps(2) or_loop.simps(2)
      parse_and.simps(2) and_loop.simps(2) parse_not.simps(2) parse_comparison.simps(2) parse_primary.simps(2)
    by (intro conjI impI allI IH b end_intros) simp_all
qed

theorem parse_expr_or: "8 * length ts + 5 \<le> k \<Longrightarrow> parse_or k ts = parse_expr ts"
  using expr_ends [of "length ts" "8 * length ts + 5"] expr_fuel_mono [of "8 * length ts + 5" k]
  by (auto simp: ends_def expr_fuel_le_def fuel_le_def less_defined_def parse_expr_def)

lemma total_parse_expr [total_intros]: "total parse_expr"
proof (rule totalI)
  show "parse_expr ts \<noteq> Inl Diverges" for ts
    using expr_ends [of "length ts" "8 * length ts + 5"] by (auto simp: ends_def parse_expr_def)
  show "length ts' \<le> length ts" if "parse_expr ts = Inr (x, ts')" for ts x ts'
    using that expr_takes [of "8 * length ts + 5"] by (auto simp: takes_def parse_expr_def intro: less_imp_le)
qed

lemmas statement_defs = parse_column_def_def parse_create_def parse_value_row_def parse_insert_def parse_optional_alias_def
  parse_select_item_def parse_select_items_def parse_order_item_def parse_join_def parse_where_def parse_group_by_def
  parse_order_by_def parse_limit_def parse_select_def parse_assignment_def parse_update_def parse_delete_def

lemma total_parse_statement: "total parse_statement"
  unfolding parse_statement_def statement_defs
  by (intro total_intros end_intros; simp)

lemma tokenize_loop_ends: "tokenize_loop i s \<noteq> Inl Diverges"
  by (induction i s rule: tokenize_loop.induct)
    (subst tokenize_loop.simps; auto simp: res_bind_Inl_iff split: option.splits prod.splits if_splits)

end
