(* ===== verification/Sql_Errors.thy ===== *)
theory Sql_Errors
  imports Sql_Fuel
begin

text \<open>
  The exceptions of lexer and parser. The tokens end with the one \<open>EOF\<close> token, which only the
  last step of \<^verbatim>\<open>parse_statement\<close> takes, so \<^verbatim>\<open>self.tokens[self.pos]\<close> is never out of range.
\<close>

section \<open>The end of the tokens\<close>

definition eof_ended :: "token list \<Rightarrow> bool" where
  "eof_ended ts \<longleftrightarrow> ts \<noteq> [] \<and> tok_kind (last ts) = EOF \<and> tok_value (last ts) = [] \<and> list_all (\<lambda>t. tok_kind t \<noteq> EOF) (butlast ts)"

lemma eof_ended_Cons: "eof_ended (t # ts) \<longleftrightarrow> (if tok_kind t = EOF then ts = [] \<and> tok_value t = [] else eof_ended ts)"
  by (auto simp: eof_ended_def)

lemma eof_not_empty [simp]: "\<not> eof_ended []"
  by (simp add: eof_ended_def)

lemma make_token_kind: "tok_kind (make_token k txt pos) \<noteq> EOF"
  by (auto simp: make_token_def split: lex_class.splits)

lemma tokenize_loop_result:
  "case tokenize_loop pos cs of Inl e \<Rightarrow> e = LexError | Inr ts \<Rightarrow> eof_ended ts"
proof (induction pos cs rule: tokenize_loop.induct)
  case (1 pos cs)
  consider "cs = []" | "cs \<noteq> []" "lex_match cs = None" | k n where "cs \<noteq> []" "lex_match cs = Some (k, n)"
    by (cases "lex_match cs") auto
  then show ?case
  proof cases
    case 3
    then show ?thesis using "1.IH" [OF 3 refl]
      by (subst tokenize_loop.simps) (cases "tokenize_loop (pos + n) (drop n cs)"; auto simp: eof_ended_Cons make_token_kind)
  qed (subst tokenize_loop.simps; simp add: eof_ended_Cons)+
qed

section \<open>Parsers that stay in the tokens\<close>

definition sql_error :: "py_error \<Rightarrow> bool" where
  "sql_error e \<longleftrightarrow> e \<in> {ParseError, ValueError, Diverges}"

lemma sql_error_simps [simp]: "sql_error ParseError" "sql_error ValueError" "sql_error Diverges" "\<not> sql_error IndexError"
  by (simp_all add: sql_error_def)

definition stays_at :: "token option \<Rightarrow> 'a parser \<Rightarrow> bool" where
  "stays_at h p \<longleftrightarrow> (\<forall>ts. eof_ended ts \<and> (\<forall>t. h = Some t \<longrightarrow> hd ts = t) \<longrightarrow>
     (case p ts of Inl e \<Rightarrow> sql_error e | Inr (x, ts') \<Rightarrow> eof_ended ts'))"

abbreviation stays :: "'a parser \<Rightarrow> bool" where
  "stays p \<equiv> stays_at None p"

named_theorems stay_intros "parsers that leave the end of the tokens in place"

lemma stays_weaken: "stays p \<Longrightarrow> stays_at h p"
  by (auto simp: stays_at_def)

lemma staysD: "stays p \<Longrightarrow> eof_ended ts \<Longrightarrow> p ts = Inr (x, ts') \<Longrightarrow> eof_ended ts'"
  "stays p \<Longrightarrow> eof_ended ts \<Longrightarrow> p ts = Inl e \<Longrightarrow> sql_error e"
  unfolding stays_at_def by (fastforce split: sum.splits prod.splits)+

lemma stays_return [stay_intros]: "stays_at h (p_return x)"
  by (simp add: stays_at_def p_return_def)

lemma stays_raise [stay_intros]: "sql_error e \<Longrightarrow> stays_at h (p_raise e)"
  by (simp add: stays_at_def p_raise_def)

lemma stays_lift [stay_intros]: "(\<And>e. r = Inl e \<Longrightarrow> sql_error e) \<Longrightarrow> stays_at h (p_lift r)"
  by (cases r) (simp_all add: stays_at_def p_lift_def)

lemma stays_bind:
  assumes "stays p" and "\<And>x. stays (f x)"
  shows "stays_at h (p_bind p f)"
proof (rule stays_weaken)
  show "stays (p_bind p f)" unfolding stays_at_def
  proof (intro allI impI)
    fix ts assume "eof_ended ts \<and> (\<forall>t. None = Some t \<longrightarrow> hd ts = t)"
    then have ts: "eof_ended ts" ..
    show "case p_bind p f ts of Inl e \<Rightarrow> sql_error e | Inr (x, ts') \<Rightarrow> eof_ended ts'"
    proof (cases "p ts")
      case (Inl e)
      with staysD(2) [OF assms(1) ts] show ?thesis by (simp add: p_bind_def)
    next
      case (Inr r)
      then obtain x ts' where x: "p ts = Inr (x, ts')" by (cases r) simp
      show ?thesis using assms(2) [of x] staysD(1) [OF assms(1) ts x] by (simp add: p_bind_Inr [of p, OF x] stays_at_def)
    qed
  qed
qed

lemma stays_peek: "(\<And>t. stays_at (Some t) (f t)) \<Longrightarrow> stays_at h (p_bind p_peek f)"
  unfolding stays_at_def by (auto simp: p_bind_def p_peek_def eof_ended_def split: list.splits)

lemma stays_advance: "tok_kind t \<noteq> EOF \<Longrightarrow> (\<And>x. stays (f x)) \<Longrightarrow> stays_at (Some t) (p_bind p_advance f)"
  unfolding stays_at_def by (auto simp: p_bind_def p_advance_def eof_ended_Cons split: list.splits)

lemma stays_if [stay_intros]:
  "(b \<Longrightarrow> stays_at h p) \<Longrightarrow> (\<not> b \<Longrightarrow> stays_at h q) \<Longrightarrow> stays_at h (if b then p else q)"
  by simp

lemma stays_option [stay_intros]:
  "stays_at h p \<Longrightarrow> (\<And>x. stays_at h (f x)) \<Longrightarrow> stays_at h (case m of None \<Rightarrow> p | Some x \<Rightarrow> f x)"
  by (cases m) simp_all

lemma stays_expr [stay_intros]:
  "(\<And>v. stays_at h (f v)) \<Longrightarrow> sql_error x \<Longrightarrow> stays_at h (case e of Literal v \<Rightarrow> f v | _ \<Rightarrow> p_raise x)"
  by (cases e) (simp_all add: stays_raise)

lemma stays_stream [stay_intros]:
  "stays_at h p_peek" "stays_at h (p_check kind v)" "kind \<noteq> EOF \<Longrightarrow> stays_at h (p_match kind v)"
  "kind \<noteq> EOF \<Longrightarrow> stays_at h (p_expect kind v)" "stays_at h p_ident"
  by (auto simp: stays_at_def p_peek_def p_check_def p_match_def p_expect_def p_ident_def p_bind_def p_return_def p_raise_def
      p_advance_def is_token_def eof_ended_Cons sql_error_def split: list.splits)

lemmas stays_bind_stream [stay_intros] = stays_bind [OF stays_stream(2)] stays_bind [OF stays_stream(3)] stays_bind [OF stays_stream(4)]
  stays_bind [OF stays_stream(5)] stays_bind [OF stays_lift]

lemma stays_bind_if [stay_intros]:
  "stays p \<Longrightarrow> stays q \<Longrightarrow> (\<And>x. stays (f x)) \<Longrightarrow> stays_at h (p_bind (if b then p else q) f)"
  by (simp add: stays_bind)

text \<open>Fuel that depends on the tokens.\<close>

lemma stays_fuel: "(\<And>k. stays_at h (F k)) \<Longrightarrow> stays_at h (\<lambda>ts. F (g ts) ts)"
  by (simp add: stays_at_def)

lemma stays_comma_loop: "stays p \<Longrightarrow> stays (comma_loop k p)"
  by (induction k) (auto intro!: stay_intros stays_bind simp: sql_error_def)

lemma stays_comma_list [stay_intros]: "stays p \<Longrightarrow> stays_at h (comma_list p)"
  unfolding comma_list_def
  by (intro stays_bind [of p] stays_fuel [of None "\<lambda>k. p_bind (comma_loop k p) _" "\<lambda>ts. Suc (length ts)"] stay_intros stays_bind stays_comma_loop)

lemma not_eof: "is_token kind v t \<Longrightarrow> kind \<noteq> EOF \<Longrightarrow> tok_kind t \<noteq> EOF"
  by (simp add: is_token_def)

lemma int_of_str_error: "int_of_str s = Inl e \<Longrightarrow> sql_error e"
  by (auto simp: int_of_str_def Let_def sql_error_def split: prod.splits option.splits)

lemma number_literal_error: "number_literal s = Inl e \<Longrightarrow> sql_error e"
  by (auto simp: number_literal_def float_of_str_def int_of_str_def Let_def res_bind_Inl_iff sql_error_def
      split: prod.splits option.splits if_splits)

lemma expr_stays:
  "stays (parse_or k) \<and> (\<forall>e. stays (or_loop k e)) \<and> stays (parse_and k) \<and> (\<forall>e. stays (and_loop k e))
   \<and> stays (parse_not k) \<and> stays (parse_comparison k) \<and> stays (parse_primary k)"
proof (induction k)
  case 0
  show ?case by (simp add: stays_raise sql_error_def)
next
  case (Suc k)
  then have IH: "stays (parse_or k)" "\<And>e. stays (or_loop k e)" "stays (parse_and k)" "\<And>e. stays (and_loop k e)"
    "stays (parse_not k)" "stays (parse_comparison k)" "stays (parse_primary k)" by blast+
  note b = IH(1,3,5,6,7) [THEN stays_bind]
  show ?case unfolding parse_or.simps(2) or_loop.simps(2)
      parse_and.simps(2) and_loop.simps(2) parse_not.simps(2) parse_comparison.simps(2) parse_primary.simps(2)
    by (intro conjI allI stays_peek stays_advance IH b stay_intros)
      (auto simp: is_token_def dest: number_literal_error)
qed

lemma stays_parse_expr [stay_intros]: "stays_at h parse_expr"
proof -
  have "stays (parse_or k)" for k using expr_stays by blast
  then show ?thesis by (simp add: stays_at_def parse_expr_def)
qed

lemma stays_column_def [stay_intros]: "stays_at h parse_column_def"
proof -
  have "stays (p_bind p_advance (\<lambda>t. if upper (tok_value t) \<in> set (map u [''INT'', ''FLOAT'', ''TEXT'', ''BOOL''])
       then p_return \<lparr>cd_name = name, cd_type = upper (tok_value t)\<rparr> else p_raise ParseError))" for name
    by (auto simp: stays_at_def p_bind_def p_advance_def p_return_def p_raise_def eof_ended_Cons upper_def u_def split: list.splits)
  then show ?thesis unfolding parse_column_def_def by (rule stays_bind_stream)
qed

lemma stays_optional_alias [stay_intros]: "stays_at h parse_optional_alias"
proof -
  have a: "stays (p_bind (p_check IDENT None) (\<lambda>b.
           if b then p_bind p_advance (\<lambda>t. p_return (Some (tok_value t))) else p_return None))"
    by (auto simp: stays_at_def p_check_def is_token_def p_bind_def p_peek_def p_advance_def p_return_def eof_ended_Cons split: list.splits)
  show ?thesis unfolding parse_optional_alias_def
    by (rule stays_bind_stream(2), simp, rule stays_option [OF a]) (intro stay_intros)
qed

lemma stays_statement:
  "stays_at h parse_create" "stays_at h parse_insert" "stays_at h parse_select" "stays_at h parse_update" "stays_at h parse_delete"
  unfolding parse_create_def parse_value_row_def parse_insert_def
    parse_select_item_def parse_select_items_def parse_order_item_def parse_join_def parse_where_def parse_group_by_def
    parse_order_by_def parse_limit_def parse_select_def parse_assignment_def parse_update_def parse_delete_def
  by (intro stays_bind stay_intros; auto dest: int_of_str_error)+

theorem parse_statement_error:
  assumes "eof_ended ts" and "parse_statement ts = Inl e"
  shows "e = ParseError \<or> e = ValueError"
proof -
  let ?s = "p_bind p_peek (\<lambda>t.
       if is_token KEYWORD (Some (u ''CREATE'')) t then parse_create
       else if is_token KEYWORD (Some (u ''INSERT'')) t then parse_insert
       else if is_token KEYWORD (Some (u ''SELECT'')) t then parse_select
       else if is_token KEYWORD (Some (u ''UPDATE'')) t then parse_update
       else if is_token KEYWORD (Some (u ''DELETE'')) t then parse_delete
       else p_raise ParseError)"
  have s: "stays ?s" by (intro stays_peek stays_if stays_statement stays_raise) simp
  have m: "stays (op_sign '';'')" by (intro stay_intros) simp
  consider "?s ts = Inl e"
    | stmt ts1 where "?s ts = Inr (stmt, ts1)" "op_sign '';'' ts1 = Inl e"
    | stmt ts1 t ts2 where "?s ts = Inr (stmt, ts1)" "op_sign '';'' ts1 = Inr (t, ts2)" "p_expect EOF None ts2 = Inl e"
    using assms(2) unfolding parse_statement_def p_bind_eq(2) [of ?s] p_bind_eq(2) [of "op_sign _"] p_bind_eq(2) [of "p_expect _ _"]
    by (auto simp: p_return_def)
  then have "sql_error e"
  proof cases
    case 1 with staysD(2) [OF s assms(1)] show ?thesis by blast
  next
    case 2 with staysD(2) [OF m staysD(1) [OF s assms(1)]] show ?thesis by blast
  next
    case 3
    then have "eof_ended ts2" using staysD(1) [OF m staysD(1) [OF s assms(1)]] by blast
    with 3(3) show ?thesis
      by (auto simp: p_expect_def p_check_def p_peek_def p_advance_def p_bind_def p_return_def p_raise_def split: list.splits if_splits)
  qed
  moreover have "e \<noteq> Diverges" using totalD(1) [OF total_parse_statement] assms(2) by blast
  ultimately show ?thesis by (auto simp: sql_error_def)
qed

text \<open>
  C32: \<^verbatim>\<open>parse\<close> ends on every text, and the only exceptions are the two of the SQL package and the
  \<^verbatim>\<open>ValueError\<close> of \<^verbatim>\<open>int\<close>: the tokens are never read past their end, and the fuel of the model is
  never used up.
\<close>

theorem parse_result:
  "(\<exists>stmt. parse sql = Inr stmt) \<or> parse sql \<in> {Inl LexError, Inl ParseError, Inl ValueError}"
proof (cases "tokenize sql")
  case (Inl e)
  with tokenize_loop_result [of 0 sql] show ?thesis by (simp add: parse_def tokenize_def)
next
  case (Inr ts)
  with tokenize_loop_result [of 0 sql] have "eof_ended ts" by (simp add: tokenize_def)
  with parse_statement_error [of ts] Inr show ?thesis by (cases "parse_statement ts") (auto simp: parse_def)
qed

end
