(* ===== verification/Expr_Eval.thy ===== *)
theory Expr_Eval
  imports Sql_Syntax Disk_Manager "HOL-Library.AList" "HOL-Library.Sublist"
begin

text \<open>
  Evaluation of expressions on a row (\<^verbatim>\<open>expr.py\<close>). A row is a Python dictionary: an association
  list in the order of insertion. Its values are column values and, under \<^verbatim>\<open>"__rid__"\<close>, the
  row id that the scans attach; a query can name that entry like a column.
\<close>

section \<open>Rows and cells\<close>

datatype cell = Val pyval | Rid rid

type_synonym row = "(ustring \<times> cell) list"

text \<open>\<^verbatim>\<open>d[k] = v\<close> keeps the place of a key that is there and appends a new one.\<close>

abbreviation dict_set :: "'k \<Rightarrow> 'v \<Rightarrow> ('k \<times> 'v) list \<Rightarrow> ('k \<times> 'v) list" where
  "dict_set \<equiv> AList.update"

definition dict_update :: "('k \<times> 'v) list \<Rightarrow> ('k \<times> 'v) list \<Rightarrow> ('k \<times> 'v) list" where
  "dict_update d es = fold (\<lambda>(k, v). dict_set k v) es d"

abbreviation to_dict :: "('k \<times> 'v) list \<Rightarrow> ('k \<times> 'v) list" where
  "to_dict es \<equiv> dict_update [] es"

lemma map_of_dict_update: "map_of (dict_update d es) = map_of d ++ map_of (rev es)"
proof (induction es arbitrary: d)
  case (Cons e es)
  then show ?case
    by (cases e) (simp add: dict_update_def update_conv' map_add_def fun_eq_iff split: option.splits)
qed (simp add: dict_update_def)

lemma distinct_dict_update: "distinct (map fst d) \<Longrightarrow> distinct (map fst (dict_update d es))"
proof (induction es arbitrary: d)
  case (Cons e es)
  then show ?case by (cases e) (simp add: dict_update_def distinct_update)
qed (simp add: dict_update_def)

section \<open>Comparisons\<close>

fun number_le :: "number \<Rightarrow> number \<Rightarrow> bool" where
  "number_le x y = (number_less x y \<or> number_eq x y)"

fun py_le :: "pyval \<Rightarrow> pyval \<Rightarrow> bool res" where
  "py_le (VStr s) (VStr t) = Inr (s \<le> t)"
| "py_le v w =
     (case py_number v of None \<Rightarrow> Inl TypeError
      | Some x \<Rightarrow> (case py_number w of None \<Rightarrow> Inl TypeError | Some y \<Rightarrow> Inr (number_le x y)))"

fun cell_eq :: "cell \<Rightarrow> cell \<Rightarrow> bool" where
  "cell_eq (Val v) (Val w) = py_eq v w"
| "cell_eq (Rid r) (Rid q) = (r = q)"
| "cell_eq _ _ = False"

fun cell_less :: "cell \<Rightarrow> cell \<Rightarrow> bool res" where
  "cell_less (Val v) (Val w) = py_less v w"
| "cell_less _ _ = Inl TypeError"

fun cell_le :: "cell \<Rightarrow> cell \<Rightarrow> bool res" where
  "cell_le (Val v) (Val w) = py_le v w"
| "cell_le _ _ = Inl TypeError"

fun truthy :: "cell \<Rightarrow> bool" where
  "truthy (Val v) = py_truthy v"
| "truthy (Rid r) = True"

definition COMPARATORS :: "(ustring \<times> (cell \<Rightarrow> cell \<Rightarrow> bool res)) list" where
  "COMPARATORS =
     [(u ''='', \<lambda>a b. Inr (cell_eq a b)), (u ''<>'', \<lambda>a b. Inr (\<not> cell_eq a b)),
      (u ''<'', cell_less), (u ''<='', cell_le), (u ''>'', \<lambda>a b. cell_less b a), (u ''>='', \<lambda>a b. cell_le b a)]"

section \<open>Columns\<close>

definition qualified_key :: "ustring \<Rightarrow> ustring \<Rightarrow> ustring" where
  "qualified_key t c = t @ 46 # c"

definition resolve_column :: "row \<Rightarrow> ustring \<Rightarrow> ustring option \<Rightarrow> cell res" where
  "resolve_column row name table =
     (case table of
        Some t \<Rightarrow> (case map_of row (qualified_key t name) of Some v \<Rightarrow> Inr v | None \<Rightarrow> Inl ColumnNotFoundError)
      | None \<Rightarrow>
          (case map_of row name of Some v \<Rightarrow> Inr v
           | None \<Rightarrow>
               (case filter (\<lambda>(k, v). suffix (46 # name) k) row of
                  [] \<Rightarrow> Inl ColumnNotFoundError
                | [(k, v)] \<Rightarrow> Inr v
                | _ \<Rightarrow> Inl AmbiguousColumnError)))"

section \<open>Evaluation\<close>

abbreviation truth :: "bool \<Rightarrow> cell" where
  "truth b \<equiv> Val (VBool b)"

fun evaluate :: "expr \<Rightarrow> row \<Rightarrow> cell res" where
  "evaluate (Literal v) row = Inr (Val v)"
| "evaluate (ColumnRef name table) row = resolve_column row name table"
| "evaluate Star row = Inl ValueError"
| "evaluate (UnaryOp oper e) row =
     (if oper = u ''NOT'' then res_bind (evaluate e row) (\<lambda>v. Inr (truth (\<not> truthy v)))
      else Inl ValueError)"
| "evaluate (BinaryOp oper l r) row =
     (if oper = u ''AND'' then
        res_bind (evaluate l row) (\<lambda>a.
          if truthy a then res_bind (evaluate r row) (\<lambda>b. Inr (truth (truthy b))) else Inr (truth False))
      else if oper = u ''OR'' then
        res_bind (evaluate l row) (\<lambda>a.
          if truthy a then Inr (truth True) else res_bind (evaluate r row) (\<lambda>b. Inr (truth (truthy b))))
      else
        res_bind (evaluate l row) (\<lambda>a.
        res_bind (evaluate r row) (\<lambda>b.
          if a = Val VNone \<or> b = Val VNone then Inr (truth False)
          else case map_of COMPARATORS oper of
            None \<Rightarrow> Inl KeyError
          | Some f \<Rightarrow> res_bind (f a b) (\<lambda>c. Inr (truth c)))))"
| "evaluate (FunctionCall name arg) row = Inl ValueError"

text \<open>\<^verbatim>\<open>if evaluate(predicate, row):\<close>\<close>

definition holds :: "expr \<Rightarrow> row \<Rightarrow> bool res" where
  "holds e row = res_bind (evaluate e row) (\<lambda>v. Inr (truthy v))"

lemma holds_and: "holds (BinaryOp (u ''AND'') l r) row = res_bind (holds l row) (\<lambda>a. if a then holds r row else Inr False)"
  by (cases "evaluate l row"; cases "evaluate r row") (auto simp: holds_def)

end
