(* ===== verification/Query_Ops.thy ===== *)
theory Query_Ops
  imports Expr_Eval Row_Types
begin

text \<open>
  The parts of the executor (\<^verbatim>\<open>executor.py\<close>) that work on rows alone: building a row from a stored
  tuple, projection, sorting and aggregation. They read no page; each returns a value or an
  exception.
\<close>

section \<open>Rows of tuples\<close>

definition row_from_tuple :: "ustring \<Rightarrow> schema \<Rightarrow> rid \<Rightarrow> bytes \<Rightarrow> row res" where
  "row_from_tuple alias sch rid raw =
     res_bind (decode_row (tuple_payload raw) sch) (\<lambda>values.
     let cells = zip (schema_names sch) (map Val values)
     in Inr (dict_set (u ''__rid__'') (Rid rid)
          (dict_update (to_dict (map (\<lambda>(c, v). (qualified_key alias c, v)) cells)) cells)))"

section \<open>Projection\<close>

definition lower :: "ustring \<Rightarrow> ustring" where
  "lower = map to_lower"

definition default_column_name :: "select_item \<Rightarrow> ustring" where
  "default_column_name item =
     (case si_expr item of
        ColumnRef name _ \<Rightarrow> name
      | FunctionCall name _ \<Rightarrow> lower name
      | _ \<Rightarrow> u ''expr'')"

definition item_name :: "select_item \<Rightarrow> ustring" where
  "item_name item = (case si_alias item of Some a \<Rightarrow> if a \<noteq> [] then a else default_column_name item
     | None \<Rightarrow> default_column_name item)"

definition is_star :: "select_item list \<Rightarrow> bool" where
  "is_star items \<longleftrightarrow> (case items of [item] \<Rightarrow> si_expr item = Star | _ \<Rightarrow> False)"

fun project_items :: "select_item list \<Rightarrow> row \<Rightarrow> row \<Rightarrow> row res" where
  "project_items [] row out = Inr out"
| "project_items (item # items) row out =
     res_bind (evaluate (si_expr item) row) (\<lambda>v. project_items items row (dict_set (item_name item) v out))"

definition project_row :: "select_item list \<Rightarrow> row \<Rightarrow> row res" where
  "project_row items row =
     (if is_star items then Inr (filter (\<lambda>(k, v). \<not> prefix (u ''__'') k \<and> 46 \<notin> set k) row)
      else project_items items row [])"

section \<open>Sorting\<close>

text \<open>
  \<^verbatim>\<open>list.sort\<close>: all keys are computed first, in the order of the list. The sort is stable and
  raises when it compares keys that Python does not order, which it does as soon as two rows have
  such keys. (For keys that are not-a-number the order of the result is that of the algorithm.)
\<close>

fun insort_res :: "cell \<times> 'a \<Rightarrow> (cell \<times> 'a) list \<Rightarrow> (cell \<times> 'a) list res" where
  "insort_res x [] = Inr [x]"
| "insort_res x (y # ys) =
     res_bind (cell_less (fst y) (fst x)) (\<lambda>b.
       if b then res_bind (insort_res x ys) (\<lambda>zs. Inr (y # zs)) else Inr (x # y # ys))"

fun sort_res :: "(cell \<times> 'a) list \<Rightarrow> (cell \<times> 'a) list res" where
  "sort_res [] = Inr []"
| "sort_res (x # xs) = res_bind (sort_res xs) (insort_res x)"

definition py_sort :: "('a \<Rightarrow> cell res) \<Rightarrow> bool \<Rightarrow> 'a list \<Rightarrow> 'a list res" where
  "py_sort key reverse xs =
     res_bind (res_map key xs) (\<lambda>ks.
     res_bind (sort_res (if reverse then rev (zip ks xs) else zip ks xs)) (\<lambda>ys.
     Inr (if reverse then rev (map snd ys) else map snd ys)))"

fun sort_rows :: "order_by_item list \<Rightarrow> row list \<Rightarrow> row list res" where
  "sort_rows [] rows = Inr rows"
| "sort_rows (item # items) rows =
     res_bind (sort_rows items rows) (py_sort (evaluate (ob_expr item)) (ob_descending item))"

section \<open>Arithmetic of the aggregates\<close>

definition f_nan :: "64 word" where
  "f_nan = f_make False (f_max_bits + 2 ^ 51)"

text \<open>The signed value of a finite float as a fraction.\<close>

definition f_signed :: "64 word \<Rightarrow> int \<times> nat" where
  "f_signed f = (case f_magnitude f of (n, d) \<Rightarrow> (if f_negative f then - int n else int n, d))"

definition f_add :: "64 word \<Rightarrow> 64 word \<Rightarrow> 64 word" where
  "f_add f g =
     (if f_is_nan f \<or> f_is_nan g then f_nan
      else if f_is_inf f then (if f_is_inf g \<and> f_negative g \<noteq> f_negative f then f_nan else f)
      else if f_is_inf g then g
      else case (f_signed f, f_signed g) of ((n, d), (n', d')) \<Rightarrow>
        let s = n * int d' + n' * int d
        in if s = 0 then f_make (f_negative f \<and> f_negative g) 0
           else f_make (s < 0) (round_magnitude (nat \<bar>s\<bar>) (d * d')))"

text \<open>Division of a float by a positive float.\<close>

definition f_div_pos :: "64 word \<Rightarrow> 64 word \<Rightarrow> 64 word" where
  "f_div_pos f g =
     (if f_is_nan f \<or> f_is_nan g then f_nan
      else if f_is_inf f then (if f_is_inf g then f_nan else f)
      else if f_is_inf g then f_make (f_negative f) 0
      else case (f_magnitude f, f_magnitude g) of ((n, d), (n', d')) \<Rightarrow>
        f_make (f_negative f) (round_magnitude (n * d') (d * n')))"

text \<open>\<^verbatim>\<open>total + value\<close> where \<^verbatim>\<open>total\<close> is a number.\<close>

definition is_float :: "pyval \<Rightarrow> bool" where
  "is_float v \<longleftrightarrow> (case v of VFloat _ \<Rightarrow> True | _ \<Rightarrow> False)"

definition py_add :: "pyval \<Rightarrow> pyval \<Rightarrow> pyval res" where
  "py_add v w =
     (if py_number v = None \<or> py_number w = None then Inl TypeError
      else if is_float v \<or> is_float w
      then res_bind (py_float v) (\<lambda>f. res_bind (py_float w) (\<lambda>g. Inr (VFloat (f_add f g))))
      else res_bind (py_int v) (\<lambda>i. res_bind (py_int w) (\<lambda>j. Inr (VInt (i + j)))))"

text \<open>\<^verbatim>\<open>total / count\<close> for a number and a positive count.\<close>

fun py_truediv :: "pyval \<Rightarrow> nat \<Rightarrow> pyval res" where
  "py_truediv (VFloat f) n = res_bind (float_of_int (int n)) (\<lambda>g. Inr (VFloat (f_div_pos f g)))"
| "py_truediv v n =
     res_bind (py_int v) (\<lambda>i.
       let bits = round_magnitude (nat \<bar>i\<bar>) n
       in if bits = f_max_bits then Inl OverflowError else Inr (VFloat (f_make (i < 0) bits)))"

section \<open>Aggregates\<close>

record agg_state =
  ag_kind :: ustring
  ag_count :: nat
  ag_total :: pyval
  ag_best :: cell

definition new_agg :: "ustring \<Rightarrow> agg_state" where
  "new_agg kind = \<lparr>ag_kind = kind, ag_count = 0, ag_total = VInt 0, ag_best = Val VNone\<rparr>"

definition add_cell :: "pyval \<Rightarrow> cell \<Rightarrow> pyval res" where
  "add_cell t c = (case c of Val v \<Rightarrow> py_add t v | Rid _ \<Rightarrow> Inl TypeError)"

definition agg_add :: "agg_state \<Rightarrow> cell \<Rightarrow> agg_state res" where
  "agg_add st value =
     (if ag_kind st = u ''COUNT'' then
        Inr (if value \<noteq> Val VNone then st\<lparr>ag_count := ag_count st + 1\<rparr> else st)
      else if value = Val VNone then Inr st
      else if ag_kind st = u ''SUM'' then
        res_bind (add_cell (ag_total st) value) (\<lambda>t. Inr (st\<lparr>ag_total := t\<rparr>))
      else if ag_kind st = u ''AVG'' then
        res_bind (add_cell (ag_total st) value) (\<lambda>t. Inr (st\<lparr>ag_total := t, ag_count := ag_count st + 1\<rparr>))
      else if ag_kind st = u ''MIN'' then
        (if ag_best st = Val VNone then Inr (st\<lparr>ag_best := value\<rparr>)
         else res_bind (cell_less value (ag_best st)) (\<lambda>b. Inr (if b then st\<lparr>ag_best := value\<rparr> else st)))
      else if ag_kind st = u ''MAX'' then
        (if ag_best st = Val VNone then Inr (st\<lparr>ag_best := value\<rparr>)
         else res_bind (cell_less (ag_best st) value) (\<lambda>b. Inr (if b then st\<lparr>ag_best := value\<rparr> else st)))
      else Inr st)"

definition agg_result :: "agg_state \<Rightarrow> cell res" where
  "agg_result st =
     (if ag_kind st = u ''COUNT'' then Inr (Val (VInt (int (ag_count st))))
      else if ag_kind st = u ''SUM'' then Inr (Val (ag_total st))
      else if ag_kind st = u ''AVG'' then
        (if ag_count st \<noteq> 0 then res_bind (py_truediv (ag_total st) (ag_count st)) (\<lambda>v. Inr (Val v))
         else Inr (Val VNone))
      else Inr (ag_best st))"

section \<open>Grouping\<close>

text \<open>
  A group is the tuple of its grouping values and, for each item of the \<^verbatim>\<open>SELECT\<close> list that is a
  function call, the state of the aggregate. \<^verbatim>\<open>groups\<close> and \<^verbatim>\<open>group_values\<close> are dictionaries with the
  same keys; a key is found by Python's equality of tuples.
\<close>

type_synonym agg_group = "cell list \<times> agg_state option list"

definition row_get :: "row \<Rightarrow> ustring \<Rightarrow> cell" where
  "row_get row k = (case map_of row k of Some v \<Rightarrow> v | None \<Rightarrow> Val VNone)"

definition new_states :: "select_item list \<Rightarrow> agg_state option list" where
  "new_states items = map (\<lambda>item. case si_expr item of FunctionCall name _ \<Rightarrow> Some (new_agg name) | _ \<Rightarrow> None) items"

definition item_add :: "row \<Rightarrow> select_item \<times> agg_state option \<Rightarrow> agg_state option res" where
  "item_add row = (\<lambda>(item, st).
     case (si_expr item, st) of
       (FunctionCall _ arg, Some s) \<Rightarrow>
         res_bind (if arg = Star then Inr (Val (VInt 1)) else evaluate arg row) (\<lambda>v.
         res_bind (agg_add s v) (\<lambda>s'. Inr (Some s')))
     | _ \<Rightarrow> Inr st)"

fun group_add :: "select_item list \<Rightarrow> row \<Rightarrow> cell list \<Rightarrow> agg_group list \<Rightarrow> agg_group list res" where
  "group_add items row key [] =
     res_bind (res_map (item_add row) (zip items (new_states items))) (\<lambda>sts. Inr [(key, sts)])"
| "group_add items row key ((key', sts) # gs) =
     (if list_all2 cell_eq key' key
      then res_bind (res_map (item_add row) (zip items sts)) (\<lambda>sts'. Inr ((key', sts') # gs))
      else res_bind (group_add items row key gs) (\<lambda>gs'. Inr ((key', sts) # gs')))"

definition group_row :: "ustring list \<Rightarrow> select_item list \<Rightarrow> row \<Rightarrow> agg_group list \<Rightarrow> agg_group list res" where
  "group_row group_by items row gs = group_add items row (map (row_get row) group_by) gs"

fun group_rows :: "ustring list \<Rightarrow> select_item list \<Rightarrow> row list \<Rightarrow> agg_group list \<Rightarrow> agg_group list res" where
  "group_rows group_by items [] gs = Inr gs"
| "group_rows group_by items (row # rows) gs = res_bind (group_row group_by items row gs) (group_rows group_by items rows)"

text \<open>\<^verbatim>\<open>item.expr.name if hasattr(item.expr, "name") else name\<close>\<close>

definition source_name :: "select_item \<Rightarrow> ustring" where
  "source_name item = (case si_expr item of ColumnRef name _ \<Rightarrow> name | FunctionCall name _ \<Rightarrow> name | _ \<Rightarrow> item_name item)"

definition item_result :: "row \<Rightarrow> select_item \<times> agg_state option \<Rightarrow> (ustring \<times> cell) res" where
  "item_result values = (\<lambda>(item, st).
     case st of
       Some s \<Rightarrow> res_bind (agg_result s) (\<lambda>v. Inr (item_name item, v))
     | None \<Rightarrow> Inr (item_name item, row_get values (source_name item)))"

definition group_result :: "ustring list \<Rightarrow> select_item list \<Rightarrow> agg_group \<Rightarrow> row res" where
  "group_result group_by items = (\<lambda>(key, sts).
     res_bind (res_map (item_result (to_dict (zip group_by key))) (zip items sts)) (\<lambda>es. Inr (to_dict es)))"

definition no_rows_result :: "select_item list \<Rightarrow> row res" where
  "no_rows_result items =
     res_bind (res_map (item_result []) (filter (\<lambda>(item, st). st \<noteq> None) (zip items (new_states items)))) (\<lambda>es. Inr (to_dict es))"

definition group_results :: "ustring list \<Rightarrow> select_item list \<Rightarrow> agg_group list \<Rightarrow> row list res" where
  "group_results group_by items gs =
     res_bind (res_map (group_result group_by items) gs) (\<lambda>out.
       if gs = [] \<and> group_by = [] then res_bind (no_rows_result items) (\<lambda>r. Inr (out @ [r])) else Inr out)"

definition aggregate_rows :: "ustring list \<Rightarrow> select_item list \<Rightarrow> row list \<Rightarrow> row list res" where
  "aggregate_rows group_by items rows =
     res_bind (group_rows group_by items rows []) (group_results group_by items)"

end
