(* ===== verification/Catalog.thy ===== *)
theory Catalog
  imports Heap_File BTree Json Expr_Eval
begin

text \<open>
  The catalog (\<^verbatim>\<open>catalog.py\<close>): the tables with their columns, first heap pages and indexes, and the
  JSON file that holds them. The file is replaced atomically, so its contents are one text;
  \<open>cat_file\<close> is \<open>None\<close> while there is no file. The main result is that after every operation,
  finished or failed, the file describes the tables in memory.
\<close>

section \<open>Metadata\<close>

record index_meta =
  im_name :: ustring
  im_column :: ustring
  im_root_page_id :: nat
  im_unique :: bool
  im_key_type :: col_type

record table_meta =
  tb_name :: ustring
  tb_schema :: schema
  tb_heap_first_page_id :: nat
  tb_indexes :: "(ustring \<times> index_meta) list"

record catalog =
  cat_pool :: pool
  cat_tables :: "(ustring \<times> table_meta) list"
  cat_file :: "ustring option"

definition on_cat_pool :: "(pool, 'a) py \<Rightarrow> (catalog, 'a) py" where
  "on_cat_pool m = py_zoom cat_pool (\<lambda>b c. c\<lparr>cat_pool := b\<rparr>) m"

section \<open>The file\<close>

fun col_type_value :: "col_type \<Rightarrow> ustring" where
  "col_type_value T_INT = u ''INT''"
| "col_type_value T_FLOAT = u ''FLOAT''"
| "col_type_value T_TEXT = u ''TEXT''"
| "col_type_value T_BOOL = u ''BOOL''"

definition col_type_of :: "ustring \<Rightarrow> col_type res" where
  "col_type_of s =
     (if s = u ''INT'' then Inr T_INT else if s = u ''FLOAT'' then Inr T_FLOAT
      else if s = u ''TEXT'' then Inr T_TEXT else if s = u ''BOOL'' then Inr T_BOOL else Inl ValueError)"

definition index_json :: "index_meta \<Rightarrow> json" where
  "index_json idx =
     JObj [(u ''column'', JStr (im_column idx)), (u ''root_page_id'', JInt (int (im_root_page_id idx))),
           (u ''unique'', JBool (im_unique idx)), (u ''key_type'', JStr (col_type_value (im_key_type idx)))]"

definition table_json :: "table_meta \<Rightarrow> json" where
  "table_json meta =
     JObj [(u ''schema'', JArr (map (\<lambda>c. JArr [JStr (col_name c), JStr (col_type_value (col_type c))]) (columns (tb_schema meta)))),
           (u ''heap_first_page_id'', JInt (int (tb_heap_first_page_id meta))),
           (u ''indexes'', JObj (map (\<lambda>(n, idx). (n, index_json idx)) (tb_indexes meta)))]"

definition tables_json :: "(ustring \<times> table_meta) list \<Rightarrow> json" where
  "tables_json ts = JObj [(u ''tables'', JObj (map (\<lambda>(n, meta). (n, table_json meta)) ts))]"

definition cat_save :: "(catalog, unit) py" where
  "cat_save = py_modify (\<lambda>c. c\<lparr>cat_file := Some (dumps_indented (tables_json (cat_tables c)))\<rparr>)"

text \<open>
  Reading the file. Items that are not of the type \<^verbatim>\<open>_save\<close> writes are refused here; the code
  would fail on them later, when it uses them.
\<close>

definition j_item :: "ustring \<Rightarrow> json \<Rightarrow> json res" where
  "j_item key j =
     (case j of JObj ms \<Rightarrow> (case map_of ms key of Some v \<Rightarrow> Inr v | None \<Rightarrow> Inl KeyError) | _ \<Rightarrow> Inl TypeError)"

definition j_items :: "json \<Rightarrow> (ustring \<times> json) list res" where
  "j_items j = (case j of JObj ms \<Rightarrow> Inr ms | _ \<Rightarrow> Inl AttributeError)"

definition j_get_items :: "ustring \<Rightarrow> json \<Rightarrow> (ustring \<times> json) list res" where
  "j_get_items key j =
     (case j of JObj ms \<Rightarrow> (case map_of ms key of Some v \<Rightarrow> j_items v | None \<Rightarrow> Inr []) | _ \<Rightarrow> Inl AttributeError)"

definition j_str :: "json \<Rightarrow> ustring res" where
  "j_str j = (case j of JStr s \<Rightarrow> Inr s | _ \<Rightarrow> Inl TypeError)"

definition j_nat :: "json \<Rightarrow> nat res" where
  "j_nat j = (case j of JInt i \<Rightarrow> if 0 \<le> i then Inr (nat i) else Inl TypeError | _ \<Rightarrow> Inl TypeError)"

definition j_bool :: "json \<Rightarrow> bool res" where
  "j_bool j = (case j of JBool b \<Rightarrow> Inr b | _ \<Rightarrow> Inl TypeError)"

definition load_column :: "json \<Rightarrow> column res" where
  "load_column j =
     (case j of
        JArr [n, t] \<Rightarrow>
          res_bind (j_str n) (\<lambda>name. res_bind (j_str t) (\<lambda>ty.
          res_bind (col_type_of ty) (\<lambda>ct. Inr \<lparr>col_name = name, col_type = ct\<rparr>)))
      | JArr _ \<Rightarrow> Inl ValueError
      | _ \<Rightarrow> Inl TypeError)"

definition load_schema :: "json \<Rightarrow> schema res" where
  "load_schema j =
     (case j of JArr cs \<Rightarrow> res_bind (res_map load_column cs) (\<lambda>cols. Inr \<lparr>columns = cols\<rparr>) | _ \<Rightarrow> Inl TypeError)"

definition load_index :: "ustring \<times> json \<Rightarrow> (ustring \<times> index_meta) res" where
  "load_index = (\<lambda>(idx_name, p).
     res_bind (res_bind (j_item (u ''column'') p) j_str) (\<lambda>column.
     res_bind (res_bind (j_item (u ''root_page_id'') p) j_nat) (\<lambda>root.
     res_bind (res_bind (j_item (u ''unique'') p) j_bool) (\<lambda>uniq.
     res_bind (res_bind (res_bind (j_item (u ''key_type'') p) j_str) col_type_of) (\<lambda>kt.
     Inr (idx_name, \<lparr>im_name = idx_name, im_column = column, im_root_page_id = root, im_unique = uniq, im_key_type = kt\<rparr>))))))"

definition load_table :: "ustring \<times> json \<Rightarrow> (ustring \<times> table_meta) res" where
  "load_table = (\<lambda>(name, p).
     res_bind (res_bind (j_item (u ''schema'') p) load_schema) (\<lambda>sch.
     res_bind (res_bind (j_item (u ''heap_first_page_id'') p) j_nat) (\<lambda>first.
     res_bind (res_bind (j_get_items (u ''indexes'') p) (res_map load_index)) (\<lambda>idxs.
     Inr (name, \<lparr>tb_name = name, tb_schema = sch, tb_heap_first_page_id = first, tb_indexes = to_dict idxs\<rparr>)))))"

definition cat_load :: "ustring \<Rightarrow> (ustring \<times> table_meta) list res" where
  "cat_load txt =
     res_bind (loads_text txt) (\<lambda>payload.
     res_bind (j_get_items (u ''tables'') payload) (\<lambda>ts.
     res_bind (res_map load_table ts) (\<lambda>metas. Inr (to_dict metas))))"

definition catalog_open :: "pool \<Rightarrow> ustring option \<Rightarrow> catalog res" where
  "catalog_open b file =
     (case file of
        None \<Rightarrow> Inr \<lparr>cat_pool = b, cat_tables = [], cat_file = None\<rparr>
      | Some txt \<Rightarrow> res_bind (cat_load txt) (\<lambda>ts. Inr \<lparr>cat_pool = b, cat_tables = ts, cat_file = file\<rparr>))"

section \<open>Operations\<close>

definition get_table :: "ustring \<Rightarrow> (catalog, table_meta) py" where
  "get_table name =
     py_bind (py_gets (\<lambda>c. map_of (cat_tables c) name)) (\<lambda>m.
       case m of Some meta \<Rightarrow> py_return meta | None \<Rightarrow> py_raise TableNotFoundError)"

definition has_table :: "ustring \<Rightarrow> (catalog, bool) py" where
  "has_table name = py_gets (\<lambda>c. map_of (cat_tables c) name \<noteq> None)"

definition create_table :: "ustring \<Rightarrow> schema \<Rightarrow> (catalog, table_meta) py" where
  "create_table name sch =
     py_bind (has_table name) (\<lambda>there.
       if there then py_raise TableAlreadyExistsError
       else
         py_bind (on_cat_pool (heap_open None)) (\<lambda>(first, _).
         py_seq (on_cat_pool (flush_page first))
        (let meta = \<lparr>tb_name = name, tb_schema = sch, tb_heap_first_page_id = first, tb_indexes = []\<rparr>
         in py_seq (py_modify (\<lambda>c. c\<lparr>cat_tables := dict_set name meta (cat_tables c)\<rparr>))
           (py_seq cat_save (py_return meta)))))"

text \<open>The metadata objects are shared by reference; changing an index is changing it in the table.\<close>

definition set_index :: "ustring \<Rightarrow> ustring \<Rightarrow> index_meta \<Rightarrow> catalog \<Rightarrow> catalog" where
  "set_index table index idx c =
     c\<lparr>cat_tables := map (\<lambda>(n, meta). (n, if n = table then meta\<lparr>tb_indexes := dict_set index idx (tb_indexes meta)\<rparr> else meta))
        (cat_tables c)\<rparr>"

definition create_index :: "ustring \<Rightarrow> ustring \<Rightarrow> ustring \<Rightarrow> bool \<Rightarrow> (catalog, index_meta) py" where
  "create_index table_name index_name column uniq =
     py_bind (get_table table_name) (\<lambda>table.
       if map_of (tb_indexes table) index_name \<noteq> None then py_raise ValueError
       else
         py_bind (py_lift (schema_column (tb_schema table) column)) (\<lambda>col.
           if col_type col \<noteq> T_INT \<and> col_type col \<noteq> T_TEXT then py_raise ValueError
           else
             py_bind (on_cat_pool (btree_open (col_type col) 8 None uniq)) (\<lambda>(_, root).
             py_seq (on_cat_pool (flush_page root))
            (let meta = \<lparr>im_name = index_name, im_column = column, im_root_page_id = root, im_unique = uniq,
                         im_key_type = col_type col\<rparr>
             in py_seq (py_modify (set_index table_name index_name meta)) (py_seq cat_save (py_return meta))))))"

definition update_index_root :: "ustring \<Rightarrow> ustring \<Rightarrow> nat \<Rightarrow> (catalog, unit) py" where
  "update_index_root table_name index_name new_root_page_id =
     py_bind (py_gets (\<lambda>c. map_of (cat_tables c) table_name)) (\<lambda>t.
       case t of None \<Rightarrow> py_raise KeyError
       | Some table \<Rightarrow>
           (case map_of (tb_indexes table) index_name of None \<Rightarrow> py_raise KeyError
            | Some idx \<Rightarrow>
                if im_root_page_id idx = new_root_page_id then py_return ()
                else py_seq (py_modify (set_index table_name index_name (idx\<lparr>im_root_page_id := new_root_page_id\<rparr>))) cat_save))"

section \<open>The file describes the tables\<close>

definition index_ok :: "ustring \<times> index_meta \<Rightarrow> bool" where
  "index_ok = (\<lambda>(n, idx). im_name idx = n \<and> str_ok n \<and> str_ok (im_column idx))"

definition table_ok :: "ustring \<times> table_meta \<Rightarrow> bool" where
  "table_ok = (\<lambda>(n, meta). tb_name meta = n \<and> str_ok n \<and> list_all (\<lambda>c. str_ok (col_name c)) (columns (tb_schema meta))
     \<and> distinct (map fst (tb_indexes meta)) \<and> list_all index_ok (tb_indexes meta))"

definition tables_ok :: "(ustring \<times> table_meta) list \<Rightarrow> bool" where
  "tables_ok ts \<longleftrightarrow> distinct (map fst ts) \<and> list_all table_ok ts"

text \<open>The file holds the tables; before the first change there is no file and no table.\<close>

definition cat_inv :: "catalog \<Rightarrow> bool" where
  "cat_inv c \<longleftrightarrow> tables_ok (cat_tables c) \<and>
     (case cat_file c of None \<Rightarrow> cat_tables c = [] | Some txt \<Rightarrow> cat_load txt = Inr (cat_tables c))"

lemma res_map_map: "list_all (\<lambda>x. f (g x) = Inr x) xs \<Longrightarrow> res_map f (map g xs) = Inr xs"
  by (induction xs) simp_all

lemma dict_update_distinct: "distinct (map fst (d @ es)) \<Longrightarrow> dict_update d es = d @ es"
proof (induction es arbitrary: d)
  case (Cons e es)
  obtain k v where e: "e = (k, v)" by (cases e)
  have "k \<notin> fst ` set d" using Cons.prems e by auto
  then have "dict_set k v d = d @ [(k, v)]" by (induction d) auto
  with Cons.IH [of "d @ [(k, v)]"] Cons.prems e show ?case by (simp add: dict_update_def)
qed (simp add: dict_update_def)

lemma to_dict_distinct:
  assumes "distinct (map fst es)"
  shows "to_dict es = es"
  using dict_update_distinct [of "[]" es] assms by simp

lemma str_ok_const: "str_ok (u s)"
proof -
  have "of_char c < (256 :: nat)" for c :: char by simp
  from less_trans [OF this] show ?thesis by (auto simp: str_ok_def u_def is_surrogate_def not_le)
qed

lemma key_names: "u ''column'' \<noteq> u ''root_page_id''" "u ''column'' \<noteq> u ''unique''" "u ''column'' \<noteq> u ''key_type''"
  "u ''root_page_id'' \<noteq> u ''unique''" "u ''root_page_id'' \<noteq> u ''key_type''" "u ''unique'' \<noteq> u ''key_type''"
  "u ''schema'' \<noteq> u ''heap_first_page_id''" "u ''schema'' \<noteq> u ''indexes''" "u ''heap_first_page_id'' \<noteq> u ''indexes''"
  by (simp_all add: u_def)

lemma col_type_of_value: "col_type_of (col_type_value t) = Inr t"
  by (cases t) (simp_all add: col_type_of_def u_def)

lemma str_ok_col_type: "str_ok (col_type_value t)"
  by (cases t) (simp_all add: str_ok_const)

lemma load_index_json: "index_ok (n, idx) \<Longrightarrow> load_index (n, index_json idx) = Inr (n, idx)"
  by (cases idx) (simp add: index_ok_def load_index_def index_json_def j_item_def j_str_def j_nat_def j_bool_def col_type_of_value u_def)

lemma load_schema_json:
  "load_schema (JArr (map (\<lambda>c. JArr [JStr (col_name c), JStr (col_type_value (col_type c))]) (columns sch))) = Inr sch"
  by (subst load_schema_def) (simp add: res_map_map list_all_iff load_column_def j_str_def col_type_of_value)

lemma load_table_json:
  assumes "table_ok (n, meta)"
  shows "load_table (n, table_json meta) = Inr (n, meta)"
proof -
  have "res_map load_index (map (\<lambda>(n, idx). (n, index_json idx)) (tb_indexes meta)) = Inr (tb_indexes meta)"
    using assms load_index_json by (intro res_map_map) (auto simp: table_ok_def list_all_iff)
  moreover have "to_dict (tb_indexes meta) = tb_indexes meta" using assms by (simp add: table_ok_def to_dict_distinct)
  ultimately show ?thesis using assms
    by (cases meta) (simp add: load_table_def table_json_def j_item_def j_get_items_def j_items_def j_nat_def load_schema_json table_ok_def u_def)
qed

lemma json_ok_dict:
  assumes "distinct (map fst xs)" and "\<And>n x. (n, x) \<in> set xs \<Longrightarrow> str_ok n \<and> json_ok (f x)"
  shows "json_ok (JObj (map (\<lambda>(n, x). (n, f x)) xs))"
proof -
  have "map fst (map (\<lambda>(n, x). (n, f x)) xs) = map fst xs" by auto
  with assms show ?thesis by (auto simp del: map_map)
qed

lemma json_ok_tables:
  assumes "tables_ok ts"
  shows "json_ok (tables_json ts)"
proof -
  have i: "json_ok (index_json idx)" if "index_ok (n, idx)" for n idx
    using that by (auto simp: index_ok_def index_json_def key_names str_ok_const str_ok_col_type)
  have "json_ok (table_json meta)" if ok: "table_ok (n, meta)" for n meta
  proof -
    have "json_ok (JObj (map (\<lambda>(n, idx). (n, index_json idx)) (tb_indexes meta)))"
      using ok i by (intro json_ok_dict) (auto simp: table_ok_def list_all_iff index_ok_def)
    moreover have "json_ok (JArr (map (\<lambda>c. JArr [JStr (col_name c), JStr (col_type_value (col_type c))]) (columns (tb_schema meta))))"
      using ok by (auto simp: table_ok_def list_all_iff str_ok_col_type)
    ultimately show ?thesis unfolding table_json_def by (simp add: key_names str_ok_const del: json_ok.simps(3))
  qed
  then have "json_ok (JObj (map (\<lambda>(n, meta). (n, table_json meta)) ts))"
    using assms by (intro json_ok_dict) (auto simp: tables_ok_def list_all_iff table_ok_def)
  then show ?thesis unfolding tables_json_def by (simp add: str_ok_const)
qed

lemma load_save: "tables_ok ts \<Longrightarrow> cat_load (dumps_indented (tables_json ts)) = Inr ts"
proof -
  assume ok: "tables_ok ts"
  have "res_map load_table (map (\<lambda>(n, meta). (n, table_json meta)) ts) = Inr ts"
    using ok load_table_json by (intro res_map_map) (auto simp: tables_ok_def list_all_iff)
  moreover have "to_dict ts = ts" using ok by (simp add: tables_ok_def to_dict_distinct)
  ultimately show ?thesis
    using loads_text_dumps_indented [OF json_ok_tables [OF ok]]
    by (simp add: cat_load_def tables_json_def j_get_items_def j_items_def)
qed

section \<open>Operations and the file\<close>

text \<open>Whatever happens in the storage below, only the pool changes.\<close>

lemma wp_on_cat_pool:
  "(\<And>x b. Q x (c\<lparr>cat_pool := b\<rparr>)) \<Longrightarrow> (\<And>e b. E e (c\<lparr>cat_pool := b\<rparr>)) \<Longrightarrow> wp (on_cat_pool m) Q E c"
  by (simp add: on_cat_pool_def wp_zoom) (simp add: wp_def split: prod.splits sum.splits)

definition same_catalog :: "catalog \<Rightarrow> catalog \<Rightarrow> bool" where
  "same_catalog c c' \<longleftrightarrow> cat_tables c' = cat_tables c \<and> cat_file c' = cat_file c"

lemma same_catalog_pool [simp]: "same_catalog c (c'\<lparr>cat_pool := b\<rparr>) \<longleftrightarrow> same_catalog c c'"
  by (simp add: same_catalog_def)

lemma same_catalog_refl [simp]: "same_catalog c c"
  by (simp add: same_catalog_def)

lemma same_catalog_inv: "same_catalog c c' \<Longrightarrow> cat_inv c \<Longrightarrow> cat_inv c'"
  by (simp add: same_catalog_def cat_inv_def split: option.splits)

lemma cat_save_inv:
  "tables_ok (cat_tables c) \<Longrightarrow> wp cat_save (\<lambda>_ c'. cat_inv c' \<and> cat_tables c' = cat_tables c \<and> cat_pool c' = cat_pool c) E c"
  by (simp add: cat_save_def wp_modify cat_inv_def load_save)

lemma dict_set_new: "map_of d k = None \<Longrightarrow> dict_set k v d = d @ [(k, v)]"
  by (induction d) (auto split: if_splits)

lemma dict_set_same: "map_of d k = Some v \<Longrightarrow> dict_set k v d = d"
  by (induction d) (auto split: if_splits)

lemma create_table_spec:
  assumes "cat_inv c" and "str_ok name" and "list_all (\<lambda>c. str_ok (col_name c)) (columns sch)"
  shows "wp (create_table name sch)
    (\<lambda>m c'. cat_inv c' \<and> map_of (cat_tables c) name = None \<and> cat_tables c' = cat_tables c @ [(name, m)]
       \<and> tb_name m = name \<and> tb_schema m = sch \<and> tb_indexes m = [])
    (\<lambda>e c'. same_catalog c c' \<and> (map_of (cat_tables c) name \<noteq> None \<longrightarrow> e = TableAlreadyExistsError \<and> c' = c)) c"
proof (cases "map_of (cat_tables c) name")
  case (Some m)
  then show ?thesis by (simp add: create_table_def has_table_def wp_rules)
next
  case None
  have ok: "tables_ok (cat_tables c @ [(name, \<lparr>tb_name = name, tb_schema = sch, tb_heap_first_page_id = p, tb_indexes = []\<rparr>)])" for p
    using assms None by (auto simp: cat_inv_def tables_ok_def table_ok_def map_of_eq_None_iff)
  show ?thesis unfolding create_table_def has_table_def wp_bind wp_gets None
  proof (simp add: wp_bind, rule wp_on_cat_pool, goal_cases)
    case (1 fl b)
    obtain first last where fl: "fl = (first, last)" by (cases fl)
    show ?case unfolding fl prod.case Let_def wp_seq
    proof (rule wp_on_cat_pool, goal_cases)
      case (1 x b')
      show ?case unfolding wp_modify wp_seq
        by (rule wp_mono [OF cat_save_inv]) (simp_all add: ok dict_set_new None wp_return)
    qed simp
  qed simp
qed

lemma set_index_ok:
  assumes "tables_ok (cat_tables c)" and "index_ok (index, idx)"
  shows "tables_ok (cat_tables (set_index table index idx c))"
proof -
  have "list_all index_ok (dict_set index idx is)" if "list_all index_ok is" for "is"
    using that assms(2) by (induction "is") (auto simp: index_ok_def)
  then have "table_ok (n, meta\<lparr>tb_indexes := dict_set index idx (tb_indexes meta)\<rparr>)" if "table_ok (n, meta)" for n meta
    using that by (auto simp: table_ok_def distinct_update)
  moreover have "map fst (cat_tables (set_index table index idx c)) = map fst (cat_tables c)"
    by (auto simp: set_index_def)
  ultimately show ?thesis using assms(1)
    by (auto simp: tables_ok_def set_index_def list_all_iff simp del: map_map)
qed

lemma set_index_tables:
  "map_of (cat_tables (set_index table index idx c)) n =
     (if n = table then map_option (\<lambda>meta. meta\<lparr>tb_indexes := dict_set index idx (tb_indexes meta)\<rparr>) (map_of (cat_tables c) n)
      else map_of (cat_tables c) n)"
proof -
  have "map_of (map (\<lambda>(n, meta). (n, f n meta)) ts) n = map_option (f n) (map_of ts n)" for f :: "ustring \<Rightarrow> table_meta \<Rightarrow> table_meta" and ts
    by (induction ts) auto
  then show ?thesis by (auto simp: set_index_def option.map_ident)
qed

lemma table_okD: "tables_ok ts \<Longrightarrow> map_of ts n = Some meta \<Longrightarrow> table_ok (n, meta)"
  by (auto simp: tables_ok_def list_all_iff dest: map_of_SomeD)

lemma schema_column_name: "schema_column sch n = Inr col \<Longrightarrow> col \<in> set (columns sch) \<and> col_name col = n"
  by (auto simp: schema_column_def index_of_def index_of_loop_Inr elim!: res_bindE)

lemma create_index_spec:
  assumes "cat_inv c" and "str_ok index"
  shows "wp (create_index table index column uniq)
    (\<lambda>idx c'. cat_inv c' \<and> index_ok (index, idx) \<and> im_column idx = column \<and> im_unique idx = uniq
       \<and> (\<exists>meta. map_of (cat_tables c) table = Some meta \<and> map_of (tb_indexes meta) index = None
            \<and> map_of (cat_tables c') = (map_of (cat_tables c))(table \<mapsto> meta\<lparr>tb_indexes := tb_indexes meta @ [(index, idx)]\<rparr>)))
    (\<lambda>e c'. same_catalog c c') c"
proof (cases "map_of (cat_tables c) table")
  case None
  then show ?thesis by (simp add: create_index_def get_table_def wp_rules)
next
  case (Some meta)
  have ok: "tables_ok (cat_tables c)" using assms(1) by (simp add: cat_inv_def)
  note meta = table_okD [OF ok Some]
  show ?thesis
  proof (cases "map_of (tb_indexes meta) index = None \<and> (\<exists>col. schema_column (tb_schema meta) column = Inr col \<and> (col_type col = T_INT \<or> col_type col = T_TEXT))")
    case False
    then show ?thesis by (auto simp: create_index_def get_table_def wp_rules Some split: sum.splits)
  next
    case True
    then obtain col where new: "map_of (tb_indexes meta) index = None"
      and col: "schema_column (tb_schema meta) column = Inr col" "col_type col = T_INT \<or> col_type col = T_TEXT" by blast
    have "str_ok column" using schema_column_name [OF col(1)] meta by (auto simp: table_ok_def list_all_iff)
    then have idx: "index_ok (index, \<lparr>im_name = index, im_column = column, im_root_page_id = p, im_unique = uniq, im_key_type = col_type col\<rparr>)" for p
      using assms(2) by (simp add: index_ok_def)
    show ?thesis unfolding create_index_def get_table_def wp_bind wp_gets Some option.case
    proof (simp add: wp_rules new col, rule wp_on_cat_pool, goal_cases)
      case (1 cr b)
      obtain cf root where cr: "cr = (cf, root)" by (cases cr)
      show ?case unfolding cr prod.case Let_def wp_seq
      proof (rule wp_on_cat_pool, goal_cases)
        case (1 x b')
        show ?case unfolding wp_modify wp_seq
          by (rule wp_mono [OF cat_save_inv [OF set_index_ok [OF _ idx]]])
            (auto simp: ok wp_return idx fun_eq_iff set_index_tables Some dict_set_new new)
      qed simp
    qed (simp add: col)
  qed
qed

lemma update_index_root_spec:
  assumes "cat_inv c"
  shows "wp (update_index_root table index root)
    (\<lambda>_ c'. cat_inv c' \<and> (\<exists>meta idx. map_of (cat_tables c) table = Some meta \<and> map_of (tb_indexes meta) index = Some idx
       \<and> map_of (cat_tables c') = (map_of (cat_tables c))
           (table \<mapsto> meta\<lparr>tb_indexes := dict_set index (idx\<lparr>im_root_page_id := root\<rparr>) (tb_indexes meta)\<rparr>)))
    (\<lambda>e c'. c' = c \<and> e = KeyError) c"
proof -
  have ok: "tables_ok (cat_tables c)" using assms by (simp add: cat_inv_def)
  consider "map_of (cat_tables c) table = None"
    | meta where "map_of (cat_tables c) table = Some meta" "map_of (tb_indexes meta) index = None"
    | meta idx where "map_of (cat_tables c) table = Some meta" "map_of (tb_indexes meta) index = Some idx"
    by (cases "map_of (cat_tables c) table") auto
  then show ?thesis
  proof cases
    case (3 meta idx)
    then have idx: "index_ok (index, idx\<lparr>im_root_page_id := root\<rparr>)"
      using table_okD [OF ok 3(1)] by (auto simp: table_ok_def list_all_iff index_ok_def dest!: map_of_SomeD)
    have same: "dict_set index idx (tb_indexes meta) = tb_indexes meta" using 3(2)
      by (rule dict_set_same)
    show ?thesis
    proof (cases "im_root_page_id idx = root")
      case True
      then have "idx\<lparr>im_root_page_id := root\<rparr> = idx" by (cases idx) simp
      with same have "meta\<lparr>tb_indexes := dict_set index (idx\<lparr>im_root_page_id := root\<rparr>) (tb_indexes meta)\<rparr> = meta" by simp
      with True 3 assms show ?thesis by (simp add: update_index_root_def wp_rules fun_upd_idem)
    next
      case False
      then show ?thesis unfolding update_index_root_def wp_bind wp_gets 3 option.case
        by (simp add: wp_rules, intro wp_mono [OF cat_save_inv [OF set_index_ok [OF ok idx]]])
          (use 3 in \<open>auto simp: fun_eq_iff set_index_tables\<close>)
    qed
  qed (simp_all add: update_index_root_def wp_rules)
qed

section \<open>All that can happen to a catalog\<close>

text \<open>
  The states of a catalog: opened without a file, changed by the three operations, whether they
  finish or raise, by the storage below, and opened again from its file.
\<close>

inductive cat_reach :: "catalog \<Rightarrow> bool" where
  opened: "catalog_open b None = Inr c \<Longrightarrow> cat_reach c"
| table: "cat_reach c \<Longrightarrow> str_ok name \<Longrightarrow> list_all (\<lambda>c. str_ok (col_name c)) (columns sch) \<Longrightarrow>
    create_table name sch c = (r, c') \<Longrightarrow> cat_reach c'"
| index: "cat_reach c \<Longrightarrow> str_ok index \<Longrightarrow> create_index table index column uniq c = (r', c') \<Longrightarrow> cat_reach c'"
| root: "cat_reach c \<Longrightarrow> update_index_root table index root c = (r'', c') \<Longrightarrow> cat_reach c'"
| storage: "cat_reach c \<Longrightarrow> cat_reach (c\<lparr>cat_pool := b\<rparr>)"
| reopened: "cat_reach c \<Longrightarrow> catalog_open b (cat_file c) = Inr c' \<Longrightarrow> cat_reach c'"

lemma wp_outcome:
  assumes "wp m Q E s" and "m s = (r, s')" and "\<And>x. Q x s' \<Longrightarrow> P s'" and "\<And>e. E e s' \<Longrightarrow> P s'"
  shows "P s'"
  using assms by (auto simp: wp_def split: sum.splits)

lemma cat_reach_inv: "cat_reach c \<Longrightarrow> cat_inv c"
proof (induction rule: cat_reach.induct)
  case (opened b c)
  then show ?case by (auto simp: catalog_open_def cat_inv_def tables_ok_def)
next
  case (table c name sch r c')
  show ?case by (rule wp_outcome [OF create_table_spec [OF table.IH table(2,3)] table(4)])
    (auto intro: same_catalog_inv [OF _ table.IH])
next
  case (index c index table column uniq r' c')
  show ?case by (rule wp_outcome [OF create_index_spec [OF index.IH index(2)] index(3)])
    (auto intro: same_catalog_inv [OF _ index.IH])
next
  case (root c table index root r'' c')
  show ?case by (rule wp_outcome [OF update_index_root_spec [OF root.IH] root(2)]) (auto intro: root.IH)
next
  case (storage c b)
  then show ?case using same_catalog_inv [of c "c\<lparr>cat_pool := b\<rparr>"] by simp
next
  case (reopened c b c')
  then show ?case by (auto simp: catalog_open_def cat_inv_def tables_ok_def split: option.splits elim!: res_bindE)
qed

text \<open>
  C39: whatever sequence of table and index creations and root changes ran before, finished or
  failed at any point in the storage below, opening the catalog file again gives exactly the
  tables, columns, first pages and indexes that were in memory.
\<close>

theorem catalog_reopens:
  assumes "cat_reach c"
  shows "\<exists>c'. catalog_open b (cat_file c) = Inr c' \<and> cat_tables c' = cat_tables c"
  using cat_reach_inv [OF assms] by (cases "cat_file c") (simp_all add: cat_inv_def catalog_open_def)

text \<open>
  \<^verbatim>\<open>create_table\<close> either adds exactly the new table, with no index and with the given columns,
  behind the existing ones, or raises and leaves tables and file as they were; it raises
  \<^verbatim>\<open>TableAlreadyExistsError\<close> for a name that is taken.
\<close>

theorem create_table_atomic:
  assumes "cat_reach c" and "str_ok name" and "list_all (\<lambda>c. str_ok (col_name c)) (columns sch)"
  shows "wp (create_table name sch)
    (\<lambda>m c'. map_of (cat_tables c) name = None \<and> cat_tables c' = cat_tables c @ [(name, m)]
       \<and> tb_schema m = sch \<and> tb_indexes m = [])
    (\<lambda>e c'. cat_tables c' = cat_tables c \<and> cat_file c' = cat_file c
       \<and> (map_of (cat_tables c) name \<noteq> None \<longrightarrow> e = TableAlreadyExistsError)) c"
  by (rule wp_mono [OF create_table_spec [OF cat_reach_inv [OF assms(1)] assms(2,3)]]) (simp_all add: same_catalog_def)

section \<open>A small catalog\<close>

definition empty_catalog :: catalog where
  "empty_catalog = \<lparr>cat_pool = pool_init (disk_open None) 2, cat_tables = [], cat_file = None\<rparr>"

definition sample_schema :: schema where
  "sample_schema = \<lparr>columns = [\<lparr>col_name = u ''id'', col_type = T_INT\<rparr>, \<lparr>col_name = u ''name'', col_type = T_TEXT\<rparr>]\<rparr>"

definition sample_catalog :: catalog where
  "sample_catalog = snd (create_table (u ''t'') sample_schema empty_catalog)"

lemma empty_catalog_reach: "cat_reach empty_catalog"
  by (rule cat_reach.opened [of "pool_init (disk_open None) 2"]) (simp add: catalog_open_def empty_catalog_def)

lemma sample_schema_ok: "list_all (\<lambda>c. str_ok (col_name c)) (columns sample_schema)"
  by (simp add: sample_schema_def str_ok_const)

lemma sample_catalog_reach: "cat_reach sample_catalog"
  by (rule cat_reach.table [OF empty_catalog_reach str_ok_const sample_schema_ok, of "''t''" "fst (create_table (u ''t'') sample_schema empty_catalog)"])
    (simp add: sample_catalog_def)

theorem catalog_reopens_witness:
  "\<exists>c'. catalog_open (cat_pool sample_catalog) (cat_file sample_catalog) = Inr c' \<and> cat_tables c' = cat_tables sample_catalog"
  by (rule catalog_reopens [OF sample_catalog_reach])

theorem create_table_atomic_witness:
  "wp (create_table (u ''t'') sample_schema)
    (\<lambda>m c'. map_of (cat_tables empty_catalog) (u ''t'') = None \<and> cat_tables c' = cat_tables empty_catalog @ [(u ''t'', m)]
       \<and> tb_schema m = sample_schema \<and> tb_indexes m = [])
    (\<lambda>e c'. cat_tables c' = cat_tables empty_catalog \<and> cat_file c' = cat_file empty_catalog) empty_catalog"
  by (rule wp_mono [OF create_table_atomic [OF empty_catalog_reach str_ok_const [of "''t''"] sample_schema_ok]]) simp_all

end
