(* ===== verification/Executor.thy ===== *)
theory Executor
  imports Query_Ops Catalog Transactions
begin

text \<open>
  The query executor (\<^verbatim>\<open>executor.py\<close>): every operator is opened and then asked for one row after the
  other. A \<open>plan\<close> is the tree of operators as the planner builds it; \<open>op_open\<close> gives a \<open>cursor\<close>, the
  tree with the fields that \<^verbatim>\<open>open\<close> and \<^verbatim>\<open>next\<close> change; \<open>cursor_next\<close> is \<^verbatim>\<open>next\<close>. The scans are
  Python generators: their state is the place where the generator waits, and a heap scan waits
  with its page pinned. \<^verbatim>\<open>close\<close> only calls \<^verbatim>\<open>close\<close> of the children and changes nothing.

  The operators work on the pages through the pool. The fuel bounds the number of calls and turns
  of loops; the theorems show for well-formed tables that enough fuel gives the result.
\<close>

section \<open>Generators\<close>

text \<open>A heap and a tree as the objects that hold them: only the pool changes when they are read.\<close>

definition with_heap :: "nat \<times> nat \<Rightarrow> (heapfile, 'a) py \<Rightarrow> (pool, 'a) py" where
  "with_heap = (\<lambda>(first, last) m b. case m \<lparr>hf_first = first, hf_last = last, hf_pool = b\<rparr> of (r, h) \<Rightarrow> (r, hf_pool h))"

definition with_tree :: "btconf \<times> nat \<Rightarrow> (btree, 'a) py \<Rightarrow> (pool, 'a) py" where
  "with_tree = (\<lambda>(c, root) m b. case m \<lparr>bt_pool = b, bt_conf = c, bt_root = root\<rparr> of (r, t) \<Rightarrow> (r, bt_pool t))"

text \<open>
  \<^verbatim>\<open>HeapFile.scan\<close>: before the test of the outer loop on a page, in the inner loop before slot \<open>i\<close>
  of a pinned page, or finished.
\<close>

datatype heap_iter =
    Scan_Page nat
  | Scan_Slots nat nat nat nat
  | Scan_End

fun scan_slots :: "nat \<Rightarrow> nat \<Rightarrow> nat \<Rightarrow> (pool, ((rid \<times> bytes) \<times> nat) option) py" where
  "scan_slots 0 page_id i = py_return None"
| "scan_slots (Suc k) page_id i =
     py_bind (buf_get page_id) (\<lambda>data.
     py_bind (py_lift (read_slot data i)) (\<lambda>(offset, length).
       if length \<noteq> DELETED
       then py_return (Some ((RID page_id i, py_slice offset (offset + length) data), Suc i))
       else scan_slots k page_id (Suc i)))"

fun scan_next :: "nat \<Rightarrow> heap_iter \<Rightarrow> (pool, (rid \<times> bytes) option \<times> heap_iter) py" where
  "scan_next 0 it = py_raise Diverges"
| "scan_next (Suc k) (Scan_Page page_id) =
     (if page_id = INVALID_PAGE_ID then py_return (None, Scan_End)
      else
        py_bind (fetch_page page_id) (\<lambda>r.
        py_bind (buf_get r) (\<lambda>data.
        py_bind (py_lift (read_header data)) (\<lambda>(_, num_slots, _, next_page).
        scan_next k (Scan_Slots page_id num_slots next_page 0)))))"
| "scan_next (Suc k) (Scan_Slots page_id num_slots next_page i) =
     py_bind (scan_slots (num_slots - i) page_id i) (\<lambda>r.
       case r of
         Some (row, i') \<Rightarrow> py_return (Some row, Scan_Slots page_id num_slots next_page i')
       | None \<Rightarrow> py_seq (unpin_page page_id False) (scan_next k (Scan_Page next_page)))"
| "scan_next (Suc k) Scan_End = py_return (None, Scan_End)"

text \<open>
  \<^verbatim>\<open>BPlusTree.range_scan\<close>: not started, before the test of the outer loop on a leaf, or in the inner
  loop with the entries of the leaf that are left.
\<close>

datatype range_iter =
    Range_Start
  | Range_Leaf nat
  | Range_Items "(pyval \<times> rid) list" nat
  | Range_End

fun range_next :: "nat \<Rightarrow> btconf \<times> nat \<Rightarrow> pyval \<Rightarrow> pyval \<Rightarrow> range_iter \<Rightarrow> (pool, (pyval \<times> rid) option \<times> range_iter) py" where
  "range_next 0 tree lo hi it = py_raise Diverges"
| "range_next (Suc k) tree lo hi Range_Start =
     py_bind (with_tree tree (if lo = VNone then leftmost_leaf else py_bind (find_leaf_path lo) (\<lambda>path. py_return (last path))))
       (\<lambda>leaf_id. range_next k tree lo hi (Range_Leaf leaf_id))"
| "range_next (Suc k) tree lo hi (Range_Leaf leaf_id) =
     (if leaf_id = INVALID_PAGE_ID then py_return (None, Range_End)
      else
        py_bind (fetch_page leaf_id) (\<lambda>data.
        py_bind (read_buf data (read_leaf (fst tree))) (\<lambda>(keys, rids, next_leaf).
        py_seq (unpin_page leaf_id False)
       (py_bind (py_lift (if lo = VNone then Inr 0 else py_bisect_left keys lo)) (\<lambda>i.
        range_next k tree lo hi (Range_Items (drop i (zip keys rids)) next_leaf))))))"
| "range_next (Suc k) tree lo hi (Range_Items [] next_leaf) = range_next k tree lo hi (Range_Leaf next_leaf)"
| "range_next (Suc k) tree lo hi (Range_Items ((key, r) # es) next_leaf) =
     py_bind (py_lift (if hi = VNone then Inr False else py_less hi key)) (\<lambda>past.
       if past then py_return (None, Range_End) else py_return (Some (key, r), Range_Items es next_leaf))"
| "range_next (Suc k) tree lo hi Range_End = py_return (None, Range_End)"

section \<open>Operators\<close>

text \<open>What the two scans share: the heap, the schema, the alias and the transaction.\<close>

record scan_base =
  sb_heap :: "nat \<times> nat"
  sb_schema :: schema
  sb_alias :: ustring
  sb_snapshot :: snapshot
  sb_txn_mgr :: txn_mgr

text \<open>
  The right side of a join: what \<^verbatim>\<open>catalog.get_table\<close> gives (the catalog does not change while a
  query runs), the alias and the transaction.
\<close>

record join_right =
  jr_table :: "table_meta res"
  jr_alias :: ustring
  jr_snapshot :: snapshot
  jr_txn_mgr :: txn_mgr

datatype plan =
    SeqScan scan_base
  | IndexScan scan_base "btconf \<times> nat" pyval pyval
  | Filter plan expr
  | NestedLoopJoin plan join_right expr
  | Project plan "select_item list"
  | Sort plan "order_by_item list"
  | Limit plan int
  | HashAggregate plan "ustring list" "select_item list"

datatype cursor =
    SeqScan_Cur scan_base heap_iter
  | IndexScan_Cur scan_base "btconf \<times> nat" pyval pyval range_iter
  | Filter_Cur cursor expr
  | Join_Cur cursor join_right expr "row option" "cursor option"
  | Project_Cur cursor "select_item list"
  | Rows_Cur "row list"
  | Limit_Cur cursor int int

text \<open>The row of a tuple that the transaction sees, as both scans compute it.\<close>

definition visible_row :: "scan_base \<Rightarrow> rid \<Rightarrow> bytes \<Rightarrow> row option res" where
  "visible_row sb rid raw =
     res_bind (unpack_tuple_header raw) (\<lambda>(xmin, xmax).
       if is_visible (sb_txn_mgr sb) xmin xmax (sb_snapshot sb)
       then res_bind (row_from_tuple (sb_alias sb) (sb_schema sb) rid raw) (\<lambda>row. Inr (Some row))
       else Inr None)"

text \<open>\<^verbatim>\<open>self._right = self.right_factory()\<close> and its \<^verbatim>\<open>open\<close>.\<close>

definition right_open :: "join_right \<Rightarrow> (pool, cursor) py" where
  "right_open jr =
     py_bind (py_lift (jr_table jr)) (\<lambda>meta.
     py_bind (heap_open (Some (tb_heap_first_page_id meta))) (\<lambda>heap.
     py_return (SeqScan_Cur \<lparr>sb_heap = heap, sb_schema = tb_schema meta, sb_alias = jr_alias jr,
       sb_snapshot = jr_snapshot jr, sb_txn_mgr = jr_txn_mgr jr\<rparr> (Scan_Page (fst heap)))))"

text \<open>
  The \<^verbatim>\<open>next\<close> methods. \<open>nxt\<close> is \<open>cursor_next\<close> with one unit of fuel less: \<^verbatim>\<open>next\<close> of a child, and a
  further turn of the loop of the operator itself.
\<close>

type_synonym next_fun = "cursor \<Rightarrow> (pool, row option \<times> cursor) py"

definition seq_scan_next :: "nat \<Rightarrow> next_fun \<Rightarrow> scan_base \<Rightarrow> heap_iter \<Rightarrow> (pool, row option \<times> cursor) py" where
  "seq_scan_next k nxt sb it =
     py_bind (scan_next k it) (\<lambda>(x, it').
       case x of
         None \<Rightarrow> py_return (None, SeqScan_Cur sb it')
       | Some (rid, raw) \<Rightarrow>
           py_bind (py_lift (visible_row sb rid raw)) (\<lambda>v.
             case v of
               Some row \<Rightarrow> py_return (Some row, SeqScan_Cur sb it')
             | None \<Rightarrow> nxt (SeqScan_Cur sb it')))"

definition index_scan_next :: "nat \<Rightarrow> next_fun \<Rightarrow> scan_base \<Rightarrow> btconf \<times> nat \<Rightarrow> pyval \<Rightarrow> pyval \<Rightarrow> range_iter \<Rightarrow>
    (pool, row option \<times> cursor) py" where
  "index_scan_next k nxt sb tree lo hi it =
     py_bind (range_next k tree lo hi it) (\<lambda>(x, it').
       case x of
         None \<Rightarrow> py_return (None, IndexScan_Cur sb tree lo hi it')
       | Some (_, rid) \<Rightarrow>
           py_bind (with_heap (sb_heap sb) (heap_get rid)) (\<lambda>raw.
             case raw of
               None \<Rightarrow> nxt (IndexScan_Cur sb tree lo hi it')
             | Some raw \<Rightarrow>
                 py_bind (py_lift (visible_row sb rid raw)) (\<lambda>v.
                   case v of
                     Some row \<Rightarrow> py_return (Some row, IndexScan_Cur sb tree lo hi it')
                   | None \<Rightarrow> nxt (IndexScan_Cur sb tree lo hi it'))))"

definition filter_next :: "next_fun \<Rightarrow> cursor \<Rightarrow> expr \<Rightarrow> (pool, row option \<times> cursor) py" where
  "filter_next nxt child predicate =
     py_bind (nxt child) (\<lambda>(x, child').
       case x of
         None \<Rightarrow> py_return (None, Filter_Cur child' predicate)
       | Some row \<Rightarrow>
           py_bind (py_lift (holds predicate row)) (\<lambda>b.
             if b then py_return (Some row, Filter_Cur child' predicate)
             else nxt (Filter_Cur child' predicate)))"

definition join_next :: "next_fun \<Rightarrow> cursor \<Rightarrow> join_right \<Rightarrow> expr \<Rightarrow> row option \<Rightarrow> cursor option \<Rightarrow> (pool, row option \<times> cursor) py" where
  "join_next nxt left jr on left_row right =
     (case left_row of
        None \<Rightarrow> py_return (None, Join_Cur left jr on None right)
      | Some l \<Rightarrow>
          (case right of
             None \<Rightarrow> py_raise AttributeError
           | Some rc \<Rightarrow>
               py_bind (nxt rc) (\<lambda>(x, rc').
                 case x of
                   None \<Rightarrow>
                     py_bind (nxt left) (\<lambda>(y, left').
                       case y of
                         None \<Rightarrow> py_return (None, Join_Cur left' jr on None (Some rc'))
                       | Some l' \<Rightarrow> py_bind (right_open jr) (\<lambda>r. nxt (Join_Cur left' jr on (Some l') (Some r))))
                 | Some r \<Rightarrow>
                     let merged = dict_update l r
                     in py_bind (py_lift (holds on merged)) (\<lambda>b.
                          if b then py_return (Some merged, Join_Cur left jr on (Some l) (Some rc'))
                          else nxt (Join_Cur left jr on (Some l) (Some rc'))))))"

definition project_next :: "next_fun \<Rightarrow> cursor \<Rightarrow> select_item list \<Rightarrow> (pool, row option \<times> cursor) py" where
  "project_next nxt child items =
     py_bind (nxt child) (\<lambda>(x, child').
       case x of
         None \<Rightarrow> py_return (None, Project_Cur child' items)
       | Some row \<Rightarrow> py_bind (py_lift (project_row items row)) (\<lambda>out. py_return (Some out, Project_Cur child' items)))"

text \<open>\<^verbatim>\<open>next\<close> of the sort and of the aggregation, which differ in \<^verbatim>\<open>open\<close> only.\<close>

definition rows_next :: "row list \<Rightarrow> (pool, row option \<times> cursor) py" where
  "rows_next rows =
     (case rows of [] \<Rightarrow> py_return (None, Rows_Cur []) | row # rows' \<Rightarrow> py_return (Some row, Rows_Cur rows'))"

definition limit_next :: "next_fun \<Rightarrow> cursor \<Rightarrow> int \<Rightarrow> int \<Rightarrow> (pool, row option \<times> cursor) py" where
  "limit_next nxt child limit count =
     (if limit \<le> count then py_return (None, Limit_Cur child limit count)
      else py_bind (nxt child) (\<lambda>(x, child').
        case x of
          None \<Rightarrow> py_return (None, Limit_Cur child' limit count)
        | Some row \<Rightarrow> py_return (Some row, Limit_Cur child' limit (count + 1))))"

fun cursor_next :: "nat \<Rightarrow> cursor \<Rightarrow> (pool, row option \<times> cursor) py" where
  "cursor_next 0 c = py_raise Diverges"
| "cursor_next (Suc k) (SeqScan_Cur sb it) = seq_scan_next k (cursor_next k) sb it"
| "cursor_next (Suc k) (IndexScan_Cur sb tree lo hi it) = index_scan_next k (cursor_next k) sb tree lo hi it"
| "cursor_next (Suc k) (Filter_Cur child predicate) = filter_next (cursor_next k) child predicate"
| "cursor_next (Suc k) (Join_Cur left jr on left_row right) = join_next (cursor_next k) left jr on left_row right"
| "cursor_next (Suc k) (Project_Cur child items) = project_next (cursor_next k) child items"
| "cursor_next (Suc k) (Rows_Cur rows) = rows_next rows"
| "cursor_next (Suc k) (Limit_Cur child limit count) = limit_next (cursor_next k) child limit count"

text \<open>\<^verbatim>\<open>while (row := child.next()) is not None: rows.append(row)\<close>\<close>

fun drain :: "nat \<Rightarrow> cursor \<Rightarrow> (pool, row list) py" where
  "drain 0 c = py_raise Diverges"
| "drain (Suc k) c =
     py_bind (cursor_next k c) (\<lambda>(x, c').
       case x of None \<Rightarrow> py_return [] | Some row \<Rightarrow> py_bind (drain k c') (\<lambda>rows. py_return (row # rows)))"

text \<open>The loop of the aggregation: each row is added to its group as it comes.\<close>

fun agg_loop :: "nat \<Rightarrow> ustring list \<Rightarrow> select_item list \<Rightarrow> cursor \<Rightarrow> agg_group list \<Rightarrow> (pool, agg_group list) py" where
  "agg_loop 0 group_by items c gs = py_raise Diverges"
| "agg_loop (Suc k) group_by items c gs =
     py_bind (cursor_next k c) (\<lambda>(x, c').
       case x of None \<Rightarrow> py_return gs
       | Some row \<Rightarrow> py_bind (py_lift (group_row group_by items row gs)) (agg_loop k group_by items c'))"

text \<open>The \<^verbatim>\<open>open\<close> methods that do more than open the child, given the opened child.\<close>

definition join_open :: "nat \<Rightarrow> cursor \<Rightarrow> join_right \<Rightarrow> expr \<Rightarrow> (pool, cursor) py" where
  "join_open k lc jr on =
     py_bind (cursor_next k lc) (\<lambda>(x, lc').
       case x of
         None \<Rightarrow> py_return (Join_Cur lc' jr on None None)
       | Some l \<Rightarrow> py_bind (right_open jr) (\<lambda>r. py_return (Join_Cur lc' jr on (Some l) (Some r))))"

definition sort_open :: "nat \<Rightarrow> cursor \<Rightarrow> order_by_item list \<Rightarrow> (pool, cursor) py" where
  "sort_open k c order_by =
     py_bind (drain k c) (\<lambda>rows.
     py_bind (py_lift (sort_rows order_by rows)) (\<lambda>rows'. py_return (Rows_Cur rows')))"

definition aggregate_open :: "nat \<Rightarrow> cursor \<Rightarrow> ustring list \<Rightarrow> select_item list \<Rightarrow> (pool, cursor) py" where
  "aggregate_open k c group_by items =
     py_bind (agg_loop k group_by items c []) (\<lambda>gs.
     py_bind (py_lift (group_results group_by items gs)) (\<lambda>rows. py_return (Rows_Cur rows)))"

fun op_open :: "nat \<Rightarrow> plan \<Rightarrow> (pool, cursor) py" where
  "op_open k (SeqScan sb) = py_return (SeqScan_Cur sb (Scan_Page (fst (sb_heap sb))))"
| "op_open k (IndexScan sb tree lo hi) = py_return (IndexScan_Cur sb tree lo hi Range_Start)"
| "op_open k (Filter child predicate) = py_bind (op_open k child) (\<lambda>c. py_return (Filter_Cur c predicate))"
| "op_open k (NestedLoopJoin left jr on) = py_bind (op_open k left) (\<lambda>lc. join_open k lc jr on)"
| "op_open k (Project child items) = py_bind (op_open k child) (\<lambda>c. py_return (Project_Cur c items))"
| "op_open k (Sort child order_by) = py_bind (op_open k child) (\<lambda>c. sort_open k c order_by)"
| "op_open k (Limit child limit) = py_bind (op_open k child) (\<lambda>c. py_return (Limit_Cur c limit 0))"
| "op_open k (HashAggregate child group_by items) = py_bind (op_open k child) (\<lambda>c. aggregate_open k c group_by items)"

text \<open>\<^verbatim>\<open>list(plan)\<close>\<close>

definition run_plan :: "nat \<Rightarrow> plan \<Rightarrow> (pool, row list) py" where
  "run_plan k p = py_bind (op_open k p) (drain k)"

end
