(* ===== verification/Planner.thy ===== *)
theory Planner
  imports Executor
begin

text \<open>
  The planner (\<^verbatim>\<open>planner.py\<close>): it turns a \<^verbatim>\<open>SELECT\<close>, or a table and a condition, into a tree of
  operators. The lemmas show what taking one conjunct out of the condition does: splitting a
  condition and joining it again changes neither its value nor its exceptions, and where the
  conjunct holds, the rest of the condition decides as the whole did.

  The heap and tree objects that the planner makes read the pool, so planning is code on the
  catalog with its pool.
\<close>

section \<open>Conditions\<close>

fun flatten_and_expr :: "expr \<Rightarrow> expr list" where
  "flatten_and_expr (BinaryOp oper l r) =
     (if oper = u ''AND'' then flatten_and_expr l @ flatten_and_expr r else [BinaryOp oper l r])"
| "flatten_and_expr e = [e]"

definition flatten_and :: "expr option \<Rightarrow> expr list" where
  "flatten_and e = (case e of None \<Rightarrow> [] | Some e \<Rightarrow> flatten_and_expr e)"

definition rebuild_and :: "expr list \<Rightarrow> expr option" where
  "rebuild_and conjuncts =
     (case conjuncts of [] \<Rightarrow> None | c # cs \<Rightarrow> Some (foldl (BinaryOp (u ''AND'')) c cs))"

fun equality_in :: "ustring \<Rightarrow> (ustring \<times> ustring) list \<Rightarrow> (expr \<times> expr) list \<Rightarrow> (ustring \<times> pyval) option" where
  "equality_in alias indexed [] = None"
| "equality_in alias indexed ((maybe_col, maybe_lit) # pairs) =
     (case (maybe_col, maybe_lit) of
        (ColumnRef name table, Literal v) \<Rightarrow>
          if table \<noteq> None \<and> table \<noteq> Some alias then equality_in alias indexed pairs
          else (case map_of indexed name of
                  Some index \<Rightarrow> Some (index, v)
                | None \<Rightarrow> equality_in alias indexed pairs)
      | _ \<Rightarrow> equality_in alias indexed pairs)"

definition matching_equality :: "expr \<Rightarrow> ustring \<Rightarrow> (ustring \<times> ustring) list \<Rightarrow> (ustring \<times> pyval) option" where
  "matching_equality conjunct alias indexed_columns =
     (case conjunct of
        BinaryOp oper l r \<Rightarrow>
          if oper = u ''='' then equality_in alias indexed_columns [(l, r), (r, l)] else None
      | _ \<Rightarrow> None)"

text \<open>The loop over the conjuncts: the position of the first that an index answers, and the match.\<close>

fun find_match :: "nat \<Rightarrow> ustring \<Rightarrow> (ustring \<times> ustring) list \<Rightarrow> expr list \<Rightarrow> (nat \<times> ustring \<times> pyval) option" where
  "find_match i alias indexed [] = None"
| "find_match i alias indexed (c # cs) =
     (case matching_equality c alias indexed of
        None \<Rightarrow> find_match (Suc i) alias indexed cs
      | Some m \<Rightarrow> Some (i, m))"

section \<open>Plans\<close>

definition indexed_columns :: "table_meta \<Rightarrow> (ustring \<times> ustring) list" where
  "indexed_columns meta = to_dict (map (\<lambda>(name, idx). (im_column idx, name)) (tb_indexes meta))"

text \<open>\<^verbatim>\<open>BPlusTree(...)\<close> on the root that the catalog has; the key size is the default.\<close>

definition open_index :: "index_meta \<Rightarrow> bool \<Rightarrow> (catalog, btconf \<times> nat) py" where
  "open_index idx uniq = on_cat_pool (btree_open (im_key_type idx) 8 (Some (im_root_page_id idx)) uniq)"

definition open_heap :: "table_meta \<Rightarrow> (catalog, nat \<times> nat) py" where
  "open_heap meta = on_cat_pool (heap_open (Some (tb_heap_first_page_id meta)))"

definition build_base_scan :: "ustring \<Rightarrow> ustring \<Rightarrow> expr option \<Rightarrow> transaction \<Rightarrow> txn_mgr \<Rightarrow> (catalog, plan \<times> expr option) py" where
  "build_base_scan table_name alias cond txn mgr =
     py_bind (get_table table_name) (\<lambda>meta.
     py_bind (open_heap meta) (\<lambda>heap.
     let conjuncts = flatten_and cond;
         sb = \<lparr>sb_heap = heap, sb_schema = tb_schema meta, sb_alias = alias,
               sb_snapshot = tx_snapshot txn, sb_txn_mgr = mgr\<rparr>
     in case find_match 0 alias (indexed_columns meta) conjuncts of
          None \<Rightarrow> py_return (SeqScan sb, cond)
        | Some (i, index_name, value) \<Rightarrow>
            (case map_of (tb_indexes meta) index_name of
               None \<Rightarrow> py_raise KeyError
             | Some idx_meta \<Rightarrow>
                 py_bind (open_index idx_meta (im_unique idx_meta)) (\<lambda>tree.
                 py_return (IndexScan sb tree value value, rebuild_and (take i conjuncts @ drop (i + 1) conjuncts))))))"

definition build_row_source_plan :: "ustring \<Rightarrow> ustring \<Rightarrow> expr option \<Rightarrow> transaction \<Rightarrow> txn_mgr \<Rightarrow> (catalog, plan) py" where
  "build_row_source_plan table_name alias cond txn mgr =
     py_bind (build_base_scan table_name alias cond txn mgr) (\<lambda>(scan, residual).
       case residual of Some e \<Rightarrow> py_return (Filter scan e) | None \<Rightarrow> py_return scan)"

text \<open>\<^verbatim>\<open>alias or table\<close>\<close>

definition or_table :: "ustring option \<Rightarrow> ustring \<Rightarrow> ustring" where
  "or_table alias table = (case alias of Some a \<Rightarrow> if a \<noteq> [] then a else table | None \<Rightarrow> table)"

definition join_plan :: "select_stmt \<Rightarrow> transaction \<Rightarrow> txn_mgr \<Rightarrow> plan \<Rightarrow> (catalog, plan) py" where
  "join_plan stmt txn mgr plan =
     (case sel_join stmt of
        None \<Rightarrow> py_return plan
      | Some j \<Rightarrow>
          py_bind (py_gets (\<lambda>c. fst (get_table (jc_table j) c))) (\<lambda>meta.
          py_return (NestedLoopJoin plan
            \<lparr>jr_table = meta, jr_alias = or_table (jc_alias j) (jc_table j), jr_snapshot = tx_snapshot txn, jr_txn_mgr = mgr\<rparr>
            (jc_on j))))"

definition is_call :: "select_item \<Rightarrow> bool" where
  "is_call item \<longleftrightarrow> (case si_expr item of FunctionCall _ _ \<Rightarrow> True | _ \<Rightarrow> False)"

definition sorted_plan :: "select_stmt \<Rightarrow> plan \<Rightarrow> plan" where
  "sorted_plan stmt plan = (if sel_order_by stmt \<noteq> [] then Sort plan (sel_order_by stmt) else plan)"

definition limited_plan :: "select_stmt \<Rightarrow> plan \<Rightarrow> plan" where
  "limited_plan stmt plan = (case sel_limit stmt of Some n \<Rightarrow> Limit plan n | None \<Rightarrow> plan)"

definition shape_plan :: "select_stmt \<Rightarrow> plan \<Rightarrow> plan" where
  "shape_plan stmt plan =
     (if list_ex is_call (sel_items stmt) \<or> sel_group_by stmt \<noteq> []
      then limited_plan stmt (sorted_plan stmt (HashAggregate plan (sel_group_by stmt) (sel_items stmt)))
      else Project (limited_plan stmt (sorted_plan stmt plan)) (sel_items stmt))"

definition build_select_plan :: "select_stmt \<Rightarrow> transaction \<Rightarrow> txn_mgr \<Rightarrow> (catalog, plan) py" where
  "build_select_plan stmt txn mgr =
     py_bind (build_row_source_plan (sel_table stmt) (or_table (sel_table_alias stmt) (sel_table stmt)) (sel_where stmt) txn mgr) (\<lambda>plan.
     py_bind (join_plan stmt txn mgr plan) (\<lambda>plan.
     py_return (shape_plan stmt plan)))"

section \<open>Splitting and joining conditions\<close>

text \<open>A list of conditions, decided one after the other until one is false or raises.\<close>

fun holds_all :: "expr list \<Rightarrow> row \<Rightarrow> bool res" where
  "holds_all [] row = Inr True"
| "holds_all (c # cs) row = res_bind (holds c row) (\<lambda>b. if b then holds_all cs row else Inr False)"

lemma holds_all_append:
  "holds_all (cs @ ds) row = res_bind (holds_all cs row) (\<lambda>b. if b then holds_all ds row else Inr False)"
proof (induction cs)
  case (Cons c cs)
  then show ?case by (cases "holds c row") auto
qed simp

lemma holds_all_single: "holds_all [c] row = holds c row"
  by (cases "holds c row") auto

lemma holds_all_flatten: "holds_all (flatten_and_expr e) row = holds e row"
proof (induction e rule: flatten_and_expr.induct)
  case (1 oper l r)
  then show ?case
    by (cases "oper = u ''AND''") (simp_all add: holds_all_append holds_and holds_all_single del: holds_all.simps cong: if_cong)
qed (simp_all add: holds_all_single del: holds_all.simps)

definition holds_opt :: "expr option \<Rightarrow> row \<Rightarrow> bool res" where
  "holds_opt e row = (case e of None \<Rightarrow> Inr True | Some e \<Rightarrow> holds e row)"

lemma holds_flatten: "holds_all (flatten_and e) row = holds_opt e row"
  by (cases e) (simp_all add: flatten_and_def holds_opt_def holds_all_flatten)

lemma holds_rebuild: "holds_opt (rebuild_and cs) row = holds_all cs row"
proof -
  have "holds (foldl (BinaryOp (u ''AND'')) c cs) row = holds_all (c # cs) row" for c cs
  proof (induction cs arbitrary: c)
    case Nil
    then show ?case using holds_all_single by simp
  next
    case (Cons d ds)
    have "holds (foldl (BinaryOp (u ''AND'')) (BinaryOp (u ''AND'') c d) ds) row = holds_all (BinaryOp (u ''AND'') c d # ds) row"
      by (rule Cons.IH)
    then show ?case by (cases "holds c row") (auto simp: holds_and)
  qed
  then show ?thesis by (cases cs) (simp_all add: holds_opt_def rebuild_and_def del: holds_all.simps(2))
qed

text \<open>
  Splitting a condition at its \<^verbatim>\<open>AND\<close>s and joining the conjuncts again changes neither the value of
  the condition on any row nor the exception it raises.
\<close>

theorem rebuilt_condition_same: "holds_opt (rebuild_and (flatten_and e)) row = holds_opt e row"
  by (simp add: holds_rebuild holds_flatten)

text \<open>Taking out one conjunct.\<close>

lemma find_match_nth:
  "find_match i alias indexed cs = Some (j, m) \<Longrightarrow>
     i \<le> j \<and> j - i < length cs \<and> matching_equality (cs ! (j - i)) alias indexed = Some m"
proof (induction cs arbitrary: i)
  case (Cons c cs)
  then show ?case
    by (cases "matching_equality c alias indexed") (fastforce simp: nth_Cons' Suc_diff_le dest: Cons.IH)+
qed simp

lemma holds_all_without:
  assumes "i < length cs"
  shows "holds (cs ! i) row = Inr True \<Longrightarrow> holds_all (take i cs @ drop (i + 1) cs) row = holds_all cs row"
    and "holds (cs ! i) row = Inr False \<Longrightarrow> holds_all cs row = res_bind (holds_all (take i cs) row) (\<lambda>_. Inr False)"
proof -
  have cs: "cs = take i cs @ cs ! i # drop (i + 1) cs" using id_take_nth_drop [OF assms] by simp
  have split: "holds_all cs row = res_bind (holds_all (take i cs) row) (\<lambda>b. if b then holds_all (cs ! i # drop (i + 1) cs) row else Inr False)"
    by (subst cs) (rule holds_all_append)
  { assume "holds (cs ! i) row = Inr True"
    then show "holds_all (take i cs @ drop (i + 1) cs) row = holds_all cs row"
      unfolding split holds_all_append by (cases "holds_all (take i cs) row") auto }
  { assume "holds (cs ! i) row = Inr False"
    then show "holds_all cs row = res_bind (holds_all (take i cs) row) (\<lambda>_. Inr False)"
      unfolding split by (cases "holds_all (take i cs) row") auto }
qed

end
