(* ===== verification/Query_Trace.thy ===== *)
theory Query_Trace
  imports Executor BTree_Search
begin

text \<open>
  What a plan computes. A trace is the list of rows that an operator gives one after the other,
  and the exception that it raises instead of a further row, if any: operators are lazy, so rows
  that come before an exception are handed on, and a \<^verbatim>\<open>LIMIT\<close> can stop before it. The theorems show
  that opening and draining the operators of a plan gives the rows of its trace, with every page
  that was pinned on the way released, or raises its exception.
\<close>

section \<open>Results for enough fuel\<close>

definition yields :: "(nat \<Rightarrow> (pool, 'a) py) \<Rightarrow> view \<Rightarrow> 'a \<Rightarrow> view \<Rightarrow> bool" where
  "yields m V x V' \<longleftrightarrow>
     eventually (\<lambda>k. \<forall>b. at_view {} V b \<longrightarrow> wp (m k) (\<lambda>y b'. y = x \<and> at_view {} V' b') (\<lambda>_ _. False) b) sequentially"

definition raises :: "(nat \<Rightarrow> (pool, 'a) py) \<Rightarrow> view \<Rightarrow> py_error \<Rightarrow> bool" where
  "raises m V e \<longleftrightarrow>
     eventually (\<lambda>k. \<forall>b. at_view {} V b \<longrightarrow> wp (m k) (\<lambda>_ _. False) (\<lambda>e' _. e' = e) b) sequentially"

lemma yieldsI: "(\<And>k b. at_view {} V b \<Longrightarrow> wp (m k) (\<lambda>y b'. y = x \<and> at_view {} V' b') (\<lambda>_ _. False) b) \<Longrightarrow> yields m V x V'"
  by (simp add: yields_def)

lemma raisesI: "(\<And>k b. at_view {} V b \<Longrightarrow> wp (m k) (\<lambda>_ _. False) (\<lambda>e' _. e' = e) b) \<Longrightarrow> raises m V e"
  by (simp add: raises_def)

lemma yields_return: "yields (\<lambda>k. py_return x) V x V"
  by (rule yieldsI) (simp add: wp_return)

lemma yields_lift: "r = Inr x \<Longrightarrow> yields (\<lambda>k. py_lift r) V x V"
  by (rule yieldsI) (simp add: wp_lift)

lemma raises_lift: "r = Inl e \<Longrightarrow> raises (\<lambda>k. py_lift r) V e"
  by (rule raisesI) (simp add: wp_lift)

lemma yields_Suc: "yields (\<lambda>k. m (Suc k)) V x V' \<Longrightarrow> yields m V x V'"
  unfolding yields_def by (subst (asm) eventually_sequentially_Suc)

lemma raises_Suc: "raises (\<lambda>k. m (Suc k)) V e \<Longrightarrow> raises m V e"
  unfolding raises_def by (subst (asm) eventually_sequentially_Suc)

lemma yields_bind:
  assumes "yields m V x V'" and "yields (\<lambda>k. f k x) V' y V''"
  shows "yields (\<lambda>k. py_bind (m k) (f k)) V y V''"
  using eventually_conj [OF assms [unfolded yields_def]] unfolding yields_def
proof (rule eventually_mono)
  fix k assume k: "(\<forall>b. at_view {} V b \<longrightarrow> wp (m k) (\<lambda>y b'. y = x \<and> at_view {} V' b') (\<lambda>_ _. False) b) \<and>
    (\<forall>b. at_view {} V' b \<longrightarrow> wp (f k x) (\<lambda>z b'. z = y \<and> at_view {} V'' b') (\<lambda>_ _. False) b)"
  show "\<forall>b. at_view {} V b \<longrightarrow> wp (py_bind (m k) (f k)) (\<lambda>z b'. z = y \<and> at_view {} V'' b') (\<lambda>_ _. False) b"
    unfolding wp_fun using k by (blast intro: wp_mono)
qed

lemma raises_bind: "raises m V e \<Longrightarrow> raises (\<lambda>k. py_bind (m k) (f k)) V e"
  unfolding raises_def wp_fun by (erule eventually_mono) (blast intro: wp_mono)

lemma yields_raises:
  assumes "yields m V x V'" and "raises (\<lambda>k. f k x) V' e"
  shows "raises (\<lambda>k. py_bind (m k) (f k)) V e"
  using eventually_conj [OF assms(1) [unfolded yields_def] assms(2) [unfolded raises_def]] unfolding raises_def
proof (rule eventually_mono)
  fix k assume k: "(\<forall>b. at_view {} V b \<longrightarrow> wp (m k) (\<lambda>y b'. y = x \<and> at_view {} V' b') (\<lambda>_ _. False) b) \<and>
    (\<forall>b. at_view {} V' b \<longrightarrow> wp (f k x) (\<lambda>_ _. False) (\<lambda>e' _. e' = e) b)"
  show "\<forall>b. at_view {} V b \<longrightarrow> wp (py_bind (m k) (f k)) (\<lambda>_ _. False) (\<lambda>e' _. e' = e) b"
    unfolding wp_fun using k by (blast intro: wp_mono)
qed

lemma yields_seq: "yields m V x V' \<Longrightarrow> yields n V' y V'' \<Longrightarrow> yields (\<lambda>k. py_seq (m k) (n k)) V y V''"
  unfolding py_seq_def by (rule yields_bind)

lemma yields_eventually:
  assumes "yields m V x V'" and "at_view {} V b"
  shows "\<exists>n. \<forall>k \<ge> n. fst (m k b) = Inr x \<and> at_view {} V' (snd (m k b))"
proof -
  obtain n where n: "\<And>k. n \<le> k \<Longrightarrow> wp (m k) (\<lambda>y b'. y = x \<and> at_view {} V' b') (\<lambda>_ _. False) b"
    using assms by (auto simp: yields_def eventually_sequentially)
  have "fst (m k b) = Inr x \<and> at_view {} V' (snd (m k b))" if "n \<le> k" for k
    using n [OF that] by (auto simp: wp_def split: prod.splits sum.splits)
  then show ?thesis by blast
qed

lemma raises_eventually:
  assumes "raises m V e" and "at_view {} V b"
  shows "\<exists>n. \<forall>k \<ge> n. fst (m k b) = Inl e"
proof -
  obtain n where n: "\<And>k. n \<le> k \<Longrightarrow> wp (m k) (\<lambda>_ _. False) (\<lambda>e' _. e' = e) b"
    using assms by (auto simp: raises_def eventually_sequentially)
  have "fst (m k b) = Inl e" if "n \<le> k" for k
    using n [OF that] by (auto simp: wp_def split: prod.splits sum.splits)
  then show ?thesis by blast
qed

section \<open>Pages\<close>

text \<open>The view after the pages of the list are pinned, the first of the list last.\<close>

definition pinned :: "nat list \<Rightarrow> view \<Rightarrow> view" where
  "pinned P V = foldr view_pin P V"

lemma pinned_simps [simp]:
  "pinned [] V = V" "pinned (p # P) V = view_pin p (pinned P V)" "pinned (P @ Q) V = pinned P (pinned Q V)"
  by (simp_all add: pinned_def)

lemma pinned_sel [simp]: "v_count (pinned P V) = v_count V" "v_page (pinned P V) = v_page V"
  by (induction P) simp_all

lemma pinned_avail: "v_avail V \<le> v_avail (pinned P V) + length P"
  by (induction P) (auto simp: view_pin_def)

lemma yields_fetch: "p < v_count V \<Longrightarrow> 0 < v_avail V \<Longrightarrow> yields (\<lambda>k. fetch_page p) V p (view_pin p V)"
  by (rule yieldsI) (rule wp_fetch_at, simp_all)

lemma yields_buf_get: "0 < v_pins V p \<Longrightarrow> yields (\<lambda>k. buf_get p) V (v_page V p) V"
  by (rule yieldsI) (rule wp_buf_get, use at_viewD in \<open>auto\<close>)

lemma yields_unpin: "0 < v_avail V \<Longrightarrow> yields (\<lambda>k. unpin_page p False) (view_pin p V) () V"
  by (rule yieldsI) (rule wp_unpin_at, auto)

lemma view_pin_pins [simp]: "0 < v_pins (view_pin p V) p"
  by (simp add: view_pin_def)

section \<open>Heap scans\<close>

text \<open>The tuples of the page chain that starts at a page.\<close>

inductive heap_chain :: "view \<Rightarrow> nat \<Rightarrow> (rid \<times> bytes) list \<Rightarrow> bool" for V where
  chain_end: "heap_chain V INVALID_PAGE_ID []"
| chain_page: "p \<noteq> INVALID_PAGE_ID \<Longrightarrow> p < v_count V \<Longrightarrow> read_header (v_page V p) = Inr (t, n, f, nx) \<Longrightarrow>
    page_rows p (v_page V p) 0 n = Inr rs \<Longrightarrow> heap_chain V nx rest \<Longrightarrow> heap_chain V p (rs @ rest)"

lemma heap_chain_view: "heap_chain V p rows \<Longrightarrow> v_count V' = v_count V \<Longrightarrow> v_page V' = v_page V \<Longrightarrow> heap_chain V' p rows"
  by (induction rule: heap_chain.induct) (auto intro: heap_chain.intros)

text \<open>What a generator still has to give, and the page it holds.\<close>

inductive heap_iter_at :: "view \<Rightarrow> heap_iter \<Rightarrow> (rid \<times> bytes) list \<Rightarrow> nat list \<Rightarrow> bool" for V where
  at_page: "heap_chain V p rows \<Longrightarrow> heap_iter_at V (Scan_Page p) rows []"
| at_slots: "p < v_count V \<Longrightarrow> page_rows p (v_page V p) i (n - i) = Inr rs \<Longrightarrow> heap_chain V nx rest \<Longrightarrow>
    heap_iter_at V (Scan_Slots p n nx i) (rs @ rest) [p]"
| at_end: "heap_iter_at V Scan_End [] []"

lemma page_rows_Suc:
  "page_rows p d i (Suc k) = Inr rs \<Longrightarrow>
     \<exists>off len rest. read_slot d i = Inr (off, len) \<and> page_rows p d (Suc i) k = Inr rest
       \<and> rs = (if len \<noteq> DELETED then (RID p i, py_slice off (off + len) d) # rest else rest)"
  by (auto elim!: res_bindE)

lemma scan_slots_spec:
  assumes "page_rows p (v_page V p) i k = Inr rs" and "0 < v_pins V p"
  shows "case rs of
      [] \<Rightarrow> yields (\<lambda>_. scan_slots k p i) V None V
    | r # rs' \<Rightarrow> \<exists>j. i < j \<and> yields (\<lambda>_. scan_slots k p i) V (Some (r, j)) V \<and> page_rows p (v_page V p) j (i + k - j) = Inr rs'"
  using assms(1)
proof (induction k arbitrary: i rs)
  case 0
  then show ?case by (simp add: yields_return)
next
  case (Suc k)
  obtain off len rest where 1: "read_slot (v_page V p) i = Inr (off, len)" "page_rows p (v_page V p) (Suc i) k = Inr rest"
    and rs: "rs = (if len \<noteq> DELETED then (RID p i, py_slice off (off + len) (v_page V p)) # rest else rest)"
    using page_rows_Suc [OF Suc.prems] by blast
  have step: "yields (\<lambda>_. scan_slots (Suc k) p i) V x V" if "yields (\<lambda>_. if len \<noteq> DELETED
       then py_return (Some ((RID p i, py_slice off (off + len) (v_page V p)), Suc i)) else scan_slots k p (Suc i)) V x V" for x
    unfolding scan_slots.simps
    by (rule yields_bind [OF yields_buf_get [OF assms(2)]], rule yields_bind [OF yields_lift [OF 1(1)]]) (use that in simp)
  show ?case
  proof (cases "len = DELETED")
    case True
    then have skip: "yields (\<lambda>_. scan_slots k p (Suc i)) V x V \<Longrightarrow> yields (\<lambda>_. scan_slots (Suc k) p i) V x V" for x
      using step by simp
    note IH = Suc.IH [OF 1(2)]
    show ?thesis
    proof (cases rest)
      case Nil
      with IH skip True show ?thesis by (simp add: rs)
    next
      case (Cons r rs')
      with IH obtain j where j: "Suc i < j" "yields (\<lambda>_. scan_slots k p (Suc i)) V (Some (r, j)) V"
        "page_rows p (v_page V p) j (Suc i + k - j) = Inr rs'" by auto
      then show ?thesis using skip [OF j(2)] True Cons by (auto simp: rs intro!: exI [of _ j])
    qed
  next
    case False
    then show ?thesis using step 1(2) by (auto simp: rs intro!: exI [of _ "Suc i"] yields_return)
  qed
qed

lemma heap_iter_pins: "heap_iter_at V it rows P \<Longrightarrow> length P \<le> 1"
  by (induction rule: heap_iter_at.induct) simp_all

text \<open>Asked for a row, the generator gives the next tuple and holds its page, or ends with its page released.\<close>

definition gives :: "view \<Rightarrow> heap_iter \<Rightarrow> (rid \<times> bytes) list \<Rightarrow> nat list \<Rightarrow> bool" where
  "gives V it rows P \<longleftrightarrow>
     (case rows of
        [] \<Rightarrow> \<exists>it'. yields (\<lambda>k. scan_next k it) (pinned P V) (None, it') V
      | x # xs \<Rightarrow> \<exists>it' P'. yields (\<lambda>k. scan_next k it) (pinned P V) (Some x, it') (pinned P' V) \<and> heap_iter_at V it' xs P' \<and> P' \<noteq> [])"

lemma gives_pass:
  assumes "gives V it rows P"
    and "\<And>y V'. yields (\<lambda>k. scan_next k it) (pinned P V) y V' \<Longrightarrow> yields (\<lambda>k. scan_next k it0) (pinned P0 V) y V'"
  shows "gives V it0 rows P0"
  using assms(1) unfolding gives_def by (cases rows) (auto dest!: assms(2))

lemma gives_slots:
  assumes "p < v_count V" and "page_rows p (v_page V p) i (n - i) = Inr rs" and "heap_chain V nx rest" and "0 < v_avail V"
    and "gives V (Scan_Page nx) rest []"
  shows "gives V (Scan_Slots p n nx i) (rs @ rest) [p]"
proof -
  let ?W = "view_pin p V"
  have S: "case rs of [] \<Rightarrow> yields (\<lambda>_. scan_slots (n - i) p i) ?W None ?W
    | r # rs' \<Rightarrow> \<exists>j. i < j \<and> yields (\<lambda>_. scan_slots (n - i) p i) ?W (Some (r, j)) ?W
        \<and> page_rows p (v_page V p) j (i + (n - i) - j) = Inr rs'"
    using scan_slots_spec [of p ?W i "n - i" rs, unfolded view_sel] assms(2) by simp
  show ?thesis
  proof (cases rs)
    case Nil
    then have none: "yields (\<lambda>_. scan_slots (n - i) p i) ?W None ?W" using S by simp
    have step: "yields (\<lambda>k. scan_next k (Scan_Slots p n nx i)) ?W y V'" if "yields (\<lambda>k. scan_next k (Scan_Page nx)) V y V'" for y V'
      by (rule yields_Suc, unfold scan_next.simps, rule yields_bind [OF none])
        (simp, rule yields_seq [OF yields_unpin [OF assms(4)] that])
    show ?thesis using gives_pass [OF assms(5), of "Scan_Slots p n nx i" "[p]"] step Nil by simp
  next
    case (Cons r rs')
    then obtain j where j: "i < j" "yields (\<lambda>_. scan_slots (n - i) p i) ?W (Some (r, j)) ?W" "page_rows p (v_page V p) j (i + (n - i) - j) = Inr rs'"
      using S by auto
    have rows: "page_rows p (v_page V p) j (n - j) = Inr rs'"
    proof (cases "i \<le> n")
      case False
      then show ?thesis using j(3) assms(2) Cons by simp
    qed (use j in simp)
    have "yields (\<lambda>k. scan_next k (Scan_Slots p n nx i)) ?W (Some r, Scan_Slots p n nx j) ?W"
      by (rule yields_Suc, unfold scan_next.simps, rule yields_bind [OF j(2)]) (simp add: yields_return)
    moreover have "heap_iter_at V (Scan_Slots p n nx j) (rs' @ rest) [p]"
      by (rule at_slots) (use assms rows in simp_all)
    ultimately show ?thesis using Cons by (auto simp: gives_def intro!: exI [of _ "[p]"])
  qed
qed

lemma gives_page: "heap_chain V p rows \<Longrightarrow> 0 < v_avail V \<Longrightarrow> gives V (Scan_Page p) rows []"
proof (induction rule: heap_chain.induct)
  case chain_end
  have "yields (\<lambda>k. scan_next k (Scan_Page INVALID_PAGE_ID)) V (None, Scan_End) V"
    by (rule yields_Suc) (simp add: yields_return)
  then show ?case by (auto simp: gives_def)
next
  case (chain_page p t n f nx rs rest)
  let ?W = "view_pin p V"
  have G: "gives V (Scan_Slots p n nx 0) (rs @ rest) [p]"
    by (rule gives_slots) (use chain_page in simp_all)
  have step: "yields (\<lambda>k. scan_next k (Scan_Page p)) V y V'" if "yields (\<lambda>k. scan_next k (Scan_Slots p n nx 0)) ?W y V'" for y V'
    using chain_page(1)
    by (intro yields_Suc [of "\<lambda>k. scan_next k (Scan_Page p)"], unfold scan_next.simps, simp)
      (rule yields_bind [OF yields_fetch [OF chain_page(2) chain_page.prems]], rule yields_bind [OF yields_buf_get],
        simp, simp, rule yields_bind [OF yields_lift [OF chain_page(3)]], simp add: that)
  show ?case by (rule gives_pass [OF G]) (use step in simp)
qed

lemma scan_next_gives: "heap_iter_at V it rows P \<Longrightarrow> 0 < v_avail V \<Longrightarrow> gives V it rows P"
proof (induction rule: heap_iter_at.induct)
  case at_end
  have "yields (\<lambda>k. scan_next k Scan_End) V (None, Scan_End) V" by (rule yields_Suc) (simp add: yields_return)
  then show ?case by (auto simp: gives_def)
qed (auto intro: gives_page gives_slots)

section \<open>Traces\<close>

type_synonym 'a trace = "'a list \<times> py_error option"

text \<open>Rows that each give a trace of their own, up to the first exception.\<close>

fun trace_bind :: "('a \<Rightarrow> 'b trace) \<Rightarrow> 'a list \<Rightarrow> py_error option \<Rightarrow> 'b trace" where
  "trace_bind f [] out = ([], out)"
| "trace_bind f (x # xs) out =
     (case f x of
        (ys, Some e) \<Rightarrow> (ys, Some e)
      | (ys, None) \<Rightarrow> (case trace_bind f xs out of (zs, out') \<Rightarrow> (ys @ zs, out')))"

definition one_row :: "'a option res \<Rightarrow> 'a trace" where
  "one_row r = (case r of Inl e \<Rightarrow> ([], Some e) | Inr None \<Rightarrow> ([], None) | Inr (Some x) \<Rightarrow> ([x], None))"

definition keep_if :: "bool res \<Rightarrow> 'a \<Rightarrow> 'a trace" where
  "keep_if r x = one_row (res_bind r (\<lambda>b. Inr (if b then Some x else None)))"

lemma one_row_simps [simp]:
  "one_row (Inl e) = ([], Some e)" "one_row (Inr None) = ([], None)" "one_row (Inr (Some x)) = ([x], None)"
  by (simp_all add: one_row_def)

lemma keep_if_simps [simp]:
  "keep_if (Inl e) x = ([], Some e)" "keep_if (Inr True) x = ([x], None)" "keep_if (Inr False) x = ([], None)"
  by (simp_all add: keep_if_def)

section \<open>Cursors that serve a trace\<close>

text \<open>
  \<open>serves m V rows out c P\<close>: with the pages \<open>P\<close> pinned by it, at most \<open>m\<close>, the cursor gives the rows,
  one for each call of \<^verbatim>\<open>next\<close>, and then \<open>None\<close> or the exception. With \<open>cl\<close> it holds no page at the end.
\<close>

inductive serves :: "bool \<Rightarrow> nat \<Rightarrow> view \<Rightarrow> row list \<Rightarrow> py_error option \<Rightarrow> cursor \<Rightarrow> nat list \<Rightarrow> bool" for cl m V where
  serves_end: "yields (\<lambda>k. cursor_next k c) (pinned P V) (None, c') (pinned P' V) \<Longrightarrow> length P \<le> m \<Longrightarrow> length P' \<le> m \<Longrightarrow>
    (cl \<Longrightarrow> P' = []) \<Longrightarrow> serves cl m V [] None c P"
| serves_fail: "raises (\<lambda>k. cursor_next k c) (pinned P V) e \<Longrightarrow> length P \<le> m \<Longrightarrow> serves cl m V [] (Some e) c P"
| serves_row: "yields (\<lambda>k. cursor_next k c) (pinned P V) (Some r, c') (pinned P' V) \<Longrightarrow> length P \<le> m \<Longrightarrow>
    serves cl m V rs out c' P' \<Longrightarrow> serves cl m V (r # rs) out c P"

inductive_cases serves_NilE: "serves cl m V [] out c P"
inductive_cases serves_ConsE: "serves cl m V (r # rs) out c P"

lemma serves_endI:
  "yields (\<lambda>k. cursor_next (Suc k) c) (pinned P V) (None, c') V \<Longrightarrow> length P \<le> m \<Longrightarrow> serves cl m V [] None c P"
  by (rule serves_end [of _ _ _ c' "[]"]) (auto intro: yields_Suc)

lemma serves_failI:
  "raises (\<lambda>k. cursor_next (Suc k) c) (pinned P V) e \<Longrightarrow> length P \<le> m \<Longrightarrow> serves cl m V [] (Some e) c P"
  by (rule serves_fail) (auto intro: raises_Suc)

lemma serves_rowI:
  "yields (\<lambda>k. cursor_next (Suc k) c) (pinned P V) (Some r, c') (pinned P' V) \<Longrightarrow> length P \<le> m \<Longrightarrow>
    serves cl m V rs out c' P' \<Longrightarrow> serves cl m V (r # rs) out c P"
  by (rule serves_row) (auto intro: yields_Suc)

lemma serves_pins: "serves cl m V rows out c P \<Longrightarrow> length P \<le> m"
  by (induction rule: serves.induct) simp_all

abbreviation serves_trace :: "bool \<Rightarrow> nat \<Rightarrow> view \<Rightarrow> row trace \<Rightarrow> cursor \<Rightarrow> nat list \<Rightarrow> bool" where
  "serves_trace cl m V tr c P \<equiv> serves cl m V (fst tr) (snd tr) c P"

text \<open>A call that only passes on to another one.\<close>

definition defers :: "view \<Rightarrow> cursor \<Rightarrow> nat list \<Rightarrow> cursor \<Rightarrow> nat list \<Rightarrow> bool" where
  "defers V c P c' P' \<longleftrightarrow>
     (\<forall>x V'. yields (\<lambda>k. cursor_next k c') (pinned P' V) x V' \<longrightarrow> yields (\<lambda>k. cursor_next k c) (pinned P V) x V')
   \<and> (\<forall>e. raises (\<lambda>k. cursor_next k c') (pinned P' V) e \<longrightarrow> raises (\<lambda>k. cursor_next k c) (pinned P V) e)"

lemma serves_defer:
  assumes "defers V c P c' P'" and "length P \<le> m" and "serves cl m V rows out c' P'"
  shows "serves cl m V rows out c P"
  using assms(3) assms(1,2) by (cases rule: serves.cases) (auto simp: defers_def intro: serves.intros)

lemma defersI:
  assumes "\<And>x V'. yields (\<lambda>k. cursor_next k c') (pinned P' V) x V' \<Longrightarrow> yields (\<lambda>k. cursor_next (Suc k) c) (pinned P V) x V'"
    and "\<And>e. raises (\<lambda>k. cursor_next k c') (pinned P' V) e \<Longrightarrow> raises (\<lambda>k. cursor_next (Suc k) c) (pinned P V) e"
  shows "defers V c P c' P'"
  unfolding defers_def using assms by (auto intro: yields_Suc raises_Suc)

subsection \<open>Materialised rows\<close>

lemma serves_rows: "length P \<le> m \<Longrightarrow> (cl \<Longrightarrow> P = []) \<Longrightarrow> serves cl m V rows None (Rows_Cur rows) P"
proof (induction rows)
  case Nil
  have "yields (\<lambda>k. cursor_next k (Rows_Cur [])) (pinned P V) (None, Rows_Cur []) (pinned P V)"
    by (rule yields_Suc) (simp add: rows_next_def yields_return)
  with Nil show ?case by (auto intro: serves_end)
next
  case (Cons r rows)
  have "yields (\<lambda>k. cursor_next k (Rows_Cur (r # rows))) (pinned P V) (Some r, Rows_Cur rows) (pinned P V)"
    by (rule yields_Suc) (simp add: rows_next_def yields_return)
  with Cons show ?case by (auto intro: serves_row)
qed

subsection \<open>Sequential scan\<close>

definition seq_trace :: "scan_base \<Rightarrow> (rid \<times> bytes) list \<Rightarrow> row trace" where
  "seq_trace sb tuples = trace_bind (\<lambda>(rid, raw). one_row (visible_row sb rid raw)) tuples None"

lemma serves_seq:
  assumes "heap_iter_at V it tuples P" and "0 < v_avail V"
  shows "serves_trace True 1 V (seq_trace sb tuples) (SeqScan_Cur sb it) P"
  using assms(1)
proof (induction tuples arbitrary: it P)
  case Nil
  note P = heap_iter_pins [OF Nil]
  obtain it' where y: "yields (\<lambda>k. scan_next k it) (pinned P V) (None, it') V"
    using scan_next_gives [OF Nil assms(2)] by (auto simp: gives_def)
  have "yields (\<lambda>k. cursor_next (Suc k) (SeqScan_Cur sb it)) (pinned P V) (None, SeqScan_Cur sb it') V"
    unfolding cursor_next.simps seq_scan_next_def by (rule yields_bind [OF y]) (simp add: yields_return)
  from serves_endI [OF this P] show ?case by (simp add: seq_trace_def)
next
  case (Cons t tuples)
  note P = heap_iter_pins [OF Cons.prems]
  obtain rid raw where t: "t = (rid, raw)" by (cases t)
  obtain it' P' where y: "yields (\<lambda>k. scan_next k it) (pinned P V) (Some (rid, raw), it') (pinned P' V)" and it': "heap_iter_at V it' tuples P'"
    using scan_next_gives [OF Cons.prems assms(2)] by (auto simp: gives_def t)
  note IH = Cons.IH [OF it']
  show ?case
  proof (cases "visible_row sb rid raw")
    case (Inl e)
    have "raises (\<lambda>k. cursor_next (Suc k) (SeqScan_Cur sb it)) (pinned P V) e"
      unfolding cursor_next.simps seq_scan_next_def by (rule yields_raises [OF y]) (simp add: Inl raises_bind raises_lift)
    from serves_failI [OF this P] show ?thesis by (simp add: seq_trace_def t Inl)
  next
    case (Inr v)
    show ?thesis
    proof (cases v)
      case (Some row)
      have "yields (\<lambda>k. cursor_next (Suc k) (SeqScan_Cur sb it)) (pinned P V) (Some row, SeqScan_Cur sb it') (pinned P' V)"
        unfolding cursor_next.simps seq_scan_next_def
        by (rule yields_bind [OF y], simp, rule yields_bind [OF yields_lift [OF Inr]]) (simp add: Some yields_return)
      from serves_rowI [OF this P IH] show ?thesis by (simp add: seq_trace_def t Inr Some split_beta)
    next
      case None
      have "defers V (SeqScan_Cur sb it) P (SeqScan_Cur sb it') P'"
        by (rule defersI; unfold cursor_next.simps seq_scan_next_def)
          (rule yields_bind [OF y] yields_raises [OF y], simp,
           rule yields_bind [OF yields_lift [OF Inr]] yields_raises [OF yields_lift [OF Inr]], simp add: None)+
      from serves_defer [OF this P IH] show ?thesis by (simp add: seq_trace_def t Inr None split_beta)
    qed
  qed
qed

subsection \<open>Filter and projection\<close>

definition filter_trace :: "expr \<Rightarrow> row trace \<Rightarrow> row trace" where
  "filter_trace p tr = trace_bind (\<lambda>r. keep_if (holds p r) r) (fst tr) (snd tr)"

definition project_trace :: "select_item list \<Rightarrow> row trace \<Rightarrow> row trace" where
  "project_trace sel tr = trace_bind (\<lambda>r. one_row (res_bind (project_row sel r) (\<lambda>out. Inr (Some out)))) (fst tr) (snd tr)"

lemma serves_filter: "serves cl m V rows out c P \<Longrightarrow> serves_trace cl m V (filter_trace p (rows, out)) (Filter_Cur c p) P"
proof (induction rule: serves.induct)
  case (serves_end c P c' P')
  have "yields (\<lambda>k. cursor_next (Suc k) (Filter_Cur c p)) (pinned P V) (None, Filter_Cur c' p) (pinned P' V)"
    unfolding cursor_next.simps filter_next_def by (rule yields_bind [OF serves_end(1)]) (simp add: yields_return)
  from serves.serves_end [OF yields_Suc [OF this] serves_end(2-4)] show ?case by (simp add: filter_trace_def)
next
  case (serves_fail c P e)
  have "raises (\<lambda>k. cursor_next (Suc k) (Filter_Cur c p)) (pinned P V) e"
    unfolding cursor_next.simps filter_next_def by (rule raises_bind [OF serves_fail(1)])
  from serves_failI [OF this serves_fail(2)] show ?case by (simp add: filter_trace_def)
next
  case (serves_row c P r c' P' rs out)
  note y = serves_row(1) and IH = serves_row.IH
  consider e where "holds p r = Inl e" | "holds p r = Inr True" | "holds p r = Inr False"
    by (cases "holds p r") auto
  then show ?case
  proof cases
    case (1 e)
    have "raises (\<lambda>k. cursor_next (Suc k) (Filter_Cur c p)) (pinned P V) e"
      unfolding cursor_next.simps filter_next_def by (rule yields_raises [OF y]) (simp add: 1 raises_bind raises_lift)
    from serves_failI [OF this serves_row(2)] show ?thesis by (simp add: filter_trace_def 1)
  next
    case 2
    have "yields (\<lambda>k. cursor_next (Suc k) (Filter_Cur c p)) (pinned P V) (Some r, Filter_Cur c' p) (pinned P' V)"
      unfolding cursor_next.simps filter_next_def
      by (rule yields_bind [OF y], simp, rule yields_bind [OF yields_lift [OF 2]]) (simp add: yields_return)
    from serves_rowI [OF this serves_row(2) IH] show ?thesis by (simp add: filter_trace_def 2 split_beta)
  next
    case 3
    have "defers V (Filter_Cur c p) P (Filter_Cur c' p) P'"
      by (rule defersI; unfold cursor_next.simps filter_next_def)
        (rule yields_bind [OF y] yields_raises [OF y], simp,
         rule yields_bind [OF yields_lift [OF 3]] yields_raises [OF yields_lift [OF 3]], simp)+
    from serves_defer [OF this serves_row(2) IH] show ?thesis by (simp add: filter_trace_def 3 split_beta)
  qed
qed

lemma serves_project: "serves cl m V rows out c P \<Longrightarrow> serves_trace cl m V (project_trace sel (rows, out)) (Project_Cur c sel) P"
proof (induction rule: serves.induct)
  case (serves_end c P c' P')
  have "yields (\<lambda>k. cursor_next (Suc k) (Project_Cur c sel)) (pinned P V) (None, Project_Cur c' sel) (pinned P' V)"
    unfolding cursor_next.simps project_next_def by (rule yields_bind [OF serves_end(1)]) (simp add: yields_return)
  from serves.serves_end [OF yields_Suc [OF this] serves_end(2-4)] show ?case by (simp add: project_trace_def)
next
  case (serves_fail c P e)
  have "raises (\<lambda>k. cursor_next (Suc k) (Project_Cur c sel)) (pinned P V) e"
    unfolding cursor_next.simps project_next_def by (rule raises_bind [OF serves_fail(1)])
  from serves_failI [OF this serves_fail(2)] show ?case by (simp add: project_trace_def)
next
  case (serves_row c P r c' P' rs out)
  note y = serves_row(1) and IH = serves_row.IH
  show ?case
  proof (cases "project_row sel r")
    case (Inl e)
    have "raises (\<lambda>k. cursor_next (Suc k) (Project_Cur c sel)) (pinned P V) e"
      unfolding cursor_next.simps project_next_def by (rule yields_raises [OF y]) (simp add: Inl raises_bind raises_lift)
    from serves_failI [OF this serves_row(2)] show ?thesis by (simp add: project_trace_def Inl)
  next
    case (Inr x)
    have "yields (\<lambda>k. cursor_next (Suc k) (Project_Cur c sel)) (pinned P V) (Some x, Project_Cur c' sel) (pinned P' V)"
      unfolding cursor_next.simps project_next_def
      by (rule yields_bind [OF y], simp, rule yields_bind [OF yields_lift [OF Inr]]) (simp add: yields_return)
    from serves_rowI [OF this serves_row(2) IH] show ?thesis by (simp add: project_trace_def Inr split_beta)
  qed
qed

subsection \<open>Limit\<close>

definition limit_trace :: "int \<Rightarrow> row trace \<Rightarrow> row trace" where
  "limit_trace n tr = (if nat n \<le> length (fst tr) then (take (nat n) (fst tr), None) else tr)"

lemma serves_stop:
  assumes "limit \<le> cnt" and "length P \<le> m"
  shows "serves False m V [] None (Limit_Cur c limit cnt) P"
proof (rule serves_end)
  show "yields (\<lambda>k. cursor_next k (Limit_Cur c limit cnt)) (pinned P V) (None, Limit_Cur c limit cnt) (pinned P V)"
    by (rule yields_Suc) (simp add: limit_next_def assms(1) yields_return)
qed (use assms in auto)

lemma serves_limit:
  "serves cl m V rows out c P \<Longrightarrow> serves_trace False m V (limit_trace (limit - cnt) (rows, out)) (Limit_Cur c limit cnt) P"
proof (induction arbitrary: cnt rule: serves.induct)
  case (serves_end c P c' P')
  show ?case
  proof (cases "limit \<le> cnt")
    case False
    have "yields (\<lambda>k. cursor_next (Suc k) (Limit_Cur c limit cnt)) (pinned P V) (None, Limit_Cur c' limit cnt) (pinned P' V)"
      unfolding cursor_next.simps limit_next_def using False
      by simp (rule yields_bind [OF serves_end(1)], simp add: yields_return)
    from serves.serves_end [OF yields_Suc [OF this] serves_end(2,3)] show ?thesis by (simp add: limit_trace_def)
  qed (use serves_end serves_stop in \<open>simp add: limit_trace_def\<close>)
next
  case (serves_fail c P e)
  show ?case
  proof (cases "limit \<le> cnt")
    case False
    have "raises (\<lambda>k. cursor_next (Suc k) (Limit_Cur c limit cnt)) (pinned P V) e"
      unfolding cursor_next.simps limit_next_def using False by simp (rule raises_bind [OF serves_fail(1)])
    from serves_failI [OF this serves_fail(2)] False show ?thesis by (simp add: limit_trace_def)
  qed (use serves_fail serves_stop in \<open>simp add: limit_trace_def\<close>)
next
  case (serves_row c P r c' P' rs out)
  show ?case
  proof (cases "limit \<le> cnt")
    case False
    have "yields (\<lambda>k. cursor_next (Suc k) (Limit_Cur c limit cnt)) (pinned P V) (Some r, Limit_Cur c' limit (cnt + 1)) (pinned P' V)"
      unfolding cursor_next.simps limit_next_def using False
      by simp (rule yields_bind [OF serves_row(1)], simp add: yields_return)
    moreover have "nat (limit - cnt) = Suc (nat (limit - (cnt + 1)))" using False by simp
    ultimately show ?thesis using serves_rowI [OF _ serves_row(2) serves_row.IH [of "cnt + 1"]]
      by (auto simp: limit_trace_def split: if_splits)
  qed (use serves_row serves_stop in \<open>simp add: limit_trace_def\<close>)
qed

end
