(* ===== verification/Query_Run.thy ===== *)
theory Query_Run
  imports Query_Trace
begin

text \<open>
  Running plans: draining a cursor, aggregation, nested loop joins and index scans serve their
  traces, and every plan on well-formed tables has the outcome of its trace.
\<close>

section \<open>Heap files in a view\<close>

definition heap_here :: "view \<Rightarrow> nat list \<Rightarrow> bool" where
  "heap_here V ps \<longleftrightarrow> ps \<noteq> [] \<and> distinct ps \<and> is_chain (v_page V) ps \<and> INVALID_PAGE_ID \<notin> set ps
     \<and> (\<forall>p \<in> set ps. p < v_count V \<and> heap_page_ok (v_page V p))"

definition tuples_of :: "view \<Rightarrow> nat list \<Rightarrow> (rid \<times> bytes) list" where
  "tuples_of V ps = concat (map (\<lambda>p. page_live p (v_page V p)) ps)"

lemma heap_here_view: "v_count V' = v_count V \<Longrightarrow> v_page V' = v_page V \<Longrightarrow> heap_here V' ps = heap_here V ps"
  by (simp add: heap_here_def)

lemma heap_here_pinned [simp]: "heap_here (pinned P V) ps = heap_here V ps" "tuples_of (pinned P V) ps = tuples_of V ps"
  by (simp_all add: heap_here_def tuples_of_def)

lemma chain_of_pages:
  assumes "is_chain (v_page V) ps" and "INVALID_PAGE_ID \<notin> set ps" and "\<forall>p \<in> set ps. p < v_count V \<and> heap_page_ok (v_page V p)"
  shows "heap_chain V (if ps = [] then INVALID_PAGE_ID else hd ps) (tuples_of V ps)"
  using assms
proof (induction ps)
  case Nil
  then show ?case by (simp add: tuples_of_def chain_end)
next
  case (Cons p ps)
  let ?d = "v_page V p"
  have ok: "p < v_count V" "heap_page_ok ?d" "p \<noteq> INVALID_PAGE_ID" using Cons.prems by auto
  have nx: "page_next ?d = (if ps = [] then INVALID_PAGE_ID else hd ps)" using Cons.prems(1) by (cases ps) auto
  have "is_chain (v_page V) ps" using Cons.prems(1) by (cases ps) auto
  then have "heap_chain V (page_next ?d) (tuples_of V ps)" using Cons by (simp add: nx)
  then have "heap_chain V p (page_live p ?d @ tuples_of V ps)"
    using page_rows_eq [OF ok(2), of 0 "page_num ?d"]
    by (intro chain_page [OF ok(3,1) read_heap_page(1) [OF ok(2)]]) (simp_all add: page_live_def)
  then show ?case by (simp add: tuples_of_def)
qed

lemma heap_here_chain: "heap_here V ps \<Longrightarrow> heap_chain V (hd ps) (tuples_of V ps)"
  using chain_of_pages [of V ps] by (simp add: heap_here_def)

lemma yields_heap_open:
  assumes "heap_here V ps" and "0 < v_avail V"
  shows "yields (\<lambda>k. heap_open (Some (hd ps))) V (hd ps, last ps) V"
proof (rule yieldsI)
  fix b assume b: "at_view {} V b"
  note D = at_viewD [OF b]
  have idle: "pool_idle b" using D assms(2) by (simp add: pool_idle_def)
  obtain p qs where ps: "ps = p # qs" using assms(1) by (cases ps) (auto simp: heap_here_def)
  have H: "distinct ps" "is_chain (v_page V) ps" "INVALID_PAGE_ID \<notin> set ps" "\<forall>p \<in> set ps. p < v_count V"
    using assms(1) by (auto simp: heap_here_def)
  have v: "v_page V = pool_page b" "v_count V = pool_count b" using D by (auto simp: pool_view_def)
  have "card (set ps) \<le> card {..<pool_count b}" using H(4) v by (intro card_mono) auto
  then have len: "length qs < pool_count b + 1" using distinct_card [OF H(1)] ps by simp
  have "wp (find_last_page_loop (pool_count b + 1) [p] p)
      (\<lambda>r b'. r = last (p # qs) \<and> pool_idle b' \<and> pool_view b' = pool_view b) (\<lambda>_ _. False) b"
    by (rule find_last_page_loop_chain [OF idle _ _ _ _ _ len]) (use H v ps in auto)
  then show "wp (heap_open (Some (hd ps))) (\<lambda>y b'. y = (hd ps, last ps) \<and> at_view {} V b') (\<lambda>_ _. False) b"
    unfolding heap_open_def option.case wp_bind wp_return find_last_page_def wp_gets ps list.sel
    by (rule wp_mono) (use D in \<open>auto simp: wp_return at_view_def pool_idle_def ps\<close>)
qed

lemma wp_with_heap [wp_rules]:
  "wp (with_heap (f, l) m) Q E b =
     wp m (\<lambda>x h. Q x (hf_pool h)) (\<lambda>e h. E e (hf_pool h)) \<lparr>hf_first = f, hf_last = l, hf_pool = b\<rparr>"
  by (simp add: wp_def with_heap_def split: prod.splits sum.splits)

lemma view_write_same: "view_write p (v_page V p) V = V"
  by (simp add: view_write_def)

lemma yields_heap_get:
  assumes "p < v_count V" and "heap_page_ok (v_page V p)" and "0 < v_avail V"
  shows "yields (\<lambda>k. with_heap h (heap_get (RID p i))) V (tuple_at (v_page V p) i) V"
proof (rule yieldsI)
  fix b assume b: "at_view {} V b"
  obtain f l where h: "h = (f, l)" by (cases h)
  let ?h = "\<lparr>hf_first = f, hf_last = l, hf_pool = b\<rparr>"
  note D = at_viewD [OF b]
  have "wp (heap_get (RID p i)) (page_effect ?h p (\<lambda>x d. x = tuple_at (heap_page ?h p) i \<and> d = heap_page ?h p)) (\<lambda>_ _. False) ?h"
    by (rule heap_get_spec) (use D assms in \<open>auto simp: heap_idle_def\<close>)
  then show "wp (with_heap h (heap_get (RID p i))) (\<lambda>y b'. y = tuple_at (v_page V p) i \<and> at_view {} V b') (\<lambda>_ _. False) b"
    unfolding h wp_with_heap
  proof (rule wp_mono, goal_cases)
    case (1 x h')
    then obtain b' where "h' = ?h\<lparr>hf_pool := b'\<rparr>" "heap_idle h'" "pool_view b' = view_write p (v_page V p) V" "x = tuple_at (v_page V p) i"
      using D(3,5) by (auto simp: page_effect_def)
    then show ?case by (simp add: at_view_def heap_idle_def view_write_same)
  qed simp
qed

section \<open>Draining a cursor\<close>

lemma drain_serves:
  "serves cl m V rows out c P \<Longrightarrow> out = None \<Longrightarrow>
     \<exists>P'. length P' \<le> m \<and> (cl \<longrightarrow> P' = []) \<and> yields (\<lambda>k. drain k c) (pinned P V) rows (pinned P' V)"
proof (induction rule: serves.induct)
  case (serves_end c P c' P')
  have "yields (\<lambda>k. drain (Suc k) c) (pinned P V) [] (pinned P' V)"
    unfolding drain.simps by (rule yields_bind [OF serves_end(1)]) (simp add: yields_return)
  from yields_Suc [OF this] serves_end show ?case by auto
next
  case (serves_row c P r c' P' rs out)
  then obtain P'' where P'': "length P'' \<le> m" "cl \<longrightarrow> P'' = []" "yields (\<lambda>k. drain k c') (pinned P' V) rs (pinned P'' V)"
    by auto
  have "yields (\<lambda>k. drain (Suc k) c) (pinned P V) (r # rs) (pinned P'' V)"
    unfolding drain.simps
    by (rule yields_bind [OF serves_row(1)], simp, rule yields_bind [OF P''(3)]) (simp add: yields_return)
  from yields_Suc [OF this] P'' show ?case by auto
qed simp

lemma drain_raises: "serves cl m V rows out c P \<Longrightarrow> out = Some e \<Longrightarrow> raises (\<lambda>k. drain k c) (pinned P V) e"
proof (induction rule: serves.induct)
  case (serves_fail c P e')
  have "raises (\<lambda>k. drain (Suc k) c) (pinned P V) e'"
    unfolding drain.simps by (rule raises_bind [OF serves_fail(1)])
  with serves_fail show ?case by (simp add: raises_Suc)
next
  case (serves_row c P r c' P' rs out)
  have "raises (\<lambda>k. drain (Suc k) c) (pinned P V) e"
    unfolding drain.simps by (rule yields_raises [OF serves_row(1)]) (simp add: raises_bind serves_row)
  then show ?case by (rule raises_Suc)
qed simp

text \<open>The loop of the aggregation.\<close>

definition agg_outcome :: "ustring list \<Rightarrow> select_item list \<Rightarrow> row trace \<Rightarrow> agg_group list \<Rightarrow> agg_group list res" where
  "agg_outcome gb sel tr gs = res_bind (group_rows gb sel (fst tr) gs) (\<lambda>gs'. case snd tr of Some e \<Rightarrow> Inl e | None \<Rightarrow> Inr gs')"

lemma agg_loop_serves:
  "serves cl m V rows out c P \<Longrightarrow>
     (case agg_outcome gb sel (rows, out) gs of
        Inl e \<Rightarrow> raises (\<lambda>k. agg_loop k gb sel c gs) (pinned P V) e
      | Inr gs' \<Rightarrow> \<exists>P'. length P' \<le> m \<and> (cl \<longrightarrow> P' = []) \<and> yields (\<lambda>k. agg_loop k gb sel c gs) (pinned P V) gs' (pinned P' V))"
proof (induction arbitrary: gs rule: serves.induct)
  case (serves_end c P c' P')
  have "yields (\<lambda>k. agg_loop (Suc k) gb sel c gs) (pinned P V) gs (pinned P' V)"
    unfolding agg_loop.simps by (rule yields_bind [OF serves_end(1)]) (simp add: yields_return)
  from yields_Suc [OF this] serves_end show ?case by (auto simp: agg_outcome_def)
next
  case (serves_fail c P e)
  have "raises (\<lambda>k. agg_loop (Suc k) gb sel c gs) (pinned P V) e"
    unfolding agg_loop.simps by (rule raises_bind [OF serves_fail(1)])
  then show ?case by (simp add: agg_outcome_def raises_Suc)
next
  case (serves_row c P r c' P' rs out)
  show ?case
  proof (cases "group_row gb sel r gs")
    case (Inl e)
    have "raises (\<lambda>k. agg_loop (Suc k) gb sel c gs) (pinned P V) e"
      unfolding agg_loop.simps by (rule yields_raises [OF serves_row(1)]) (simp add: Inl raises_bind raises_lift)
    with Inl show ?thesis by (simp add: agg_outcome_def raises_Suc)
  next
    case (Inr gs1)
    have out: "agg_outcome gb sel (r # rs, out) gs = agg_outcome gb sel (rs, out) gs1" by (simp add: agg_outcome_def Inr)
    have y: "yields (\<lambda>k. agg_loop (Suc k) gb sel c gs) (pinned P V) x V'"
      if "yields (\<lambda>k. agg_loop k gb sel c' gs1) (pinned P' V) x V'" for x V'
      unfolding agg_loop.simps
      by (rule yields_bind [OF serves_row(1)], simp, rule yields_bind [OF yields_lift [OF Inr]]) (rule that)
    have f: "raises (\<lambda>k. agg_loop (Suc k) gb sel c gs) (pinned P V) e"
      if "raises (\<lambda>k. agg_loop k gb sel c' gs1) (pinned P' V) e" for e
      unfolding agg_loop.simps
      by (rule yields_raises [OF serves_row(1)], simp, rule yields_raises [OF yields_lift [OF Inr]]) (rule that)
    show ?thesis unfolding out using serves_row.IH [of gs1]
      by (auto split: sum.splits intro: yields_Suc [OF y] raises_Suc [OF f])
  qed
qed

section \<open>Joins\<close>

definition trace_append :: "'a trace \<Rightarrow> 'a trace \<Rightarrow> 'a trace" where
  "trace_append tr more_tr = (case snd tr of Some e \<Rightarrow> (fst tr, Some e) | None \<Rightarrow> (fst tr @ fst more_tr, snd more_tr))"

lemma trace_append_simps [simp]:
  "trace_append ([], None) more_tr = more_tr" "trace_append ([], Some e) more_tr = ([], Some e)"
  "trace_append (x # xs, out) more_tr = (x # fst (trace_append (xs, out) more_tr), snd (trace_append (xs, out) more_tr))"
  by (simp_all add: trace_append_def split: option.splits)

lemma trace_bind_Cons: "trace_bind f (x # xs) out = trace_append (f x) (trace_bind f xs out)"
  by (cases "f x") (simp add: trace_append_def split: option.splits prod.splits)

definition match_trace :: "expr \<Rightarrow> row \<Rightarrow> row trace \<Rightarrow> row trace" where
  "match_trace on l right = trace_bind (\<lambda>r. keep_if (holds on (dict_update l r)) (dict_update l r)) (fst right) (snd right)"

definition join_trace :: "expr \<Rightarrow> row trace \<Rightarrow> row trace \<Rightarrow> row trace" where
  "join_trace on right left = trace_bind (\<lambda>l. match_trace on l right) (fst left) (snd left)"

lemma match_trace_Cons:
  "match_trace on l (r # rs, out) = trace_append (keep_if (holds on (dict_update l r)) (dict_update l r)) (match_trace on l (rs, out))"
  by (simp add: match_trace_def trace_bind_Cons del: trace_bind.simps)

lemma join_trace_Cons:
  "join_trace on right (l # ls, out) = trace_append (match_trace on l right) (join_trace on right (ls, out))"
  by (simp add: join_trace_def trace_bind_Cons del: trace_bind.simps)

definition right_base :: "join_right \<Rightarrow> table_meta \<Rightarrow> nat \<times> nat \<Rightarrow> scan_base" where
  "right_base jr meta heap =
     \<lparr>sb_heap = heap, sb_schema = tb_schema meta, sb_alias = jr_alias jr, sb_snapshot = jr_snapshot jr, sb_txn_mgr = jr_txn_mgr jr\<rparr>"

lemma yields_right_open:
  assumes "jr_table jr = Inr meta" and "heap_here V ps" and "tb_heap_first_page_id meta = hd ps" and "0 < v_avail V"
  shows "yields (\<lambda>k. right_open jr) V (SeqScan_Cur (right_base jr meta (hd ps, last ps)) (Scan_Page (hd ps))) V"
  unfolding right_open_def
  by (rule yields_bind [OF yields_lift [OF assms(1)]], unfold assms(3), rule yields_bind [OF yields_heap_open [OF assms(2,4)]])
    (simp add: yields_return right_base_def)

lemma serves_seq_scan:
  assumes "heap_here V ps" and "0 < v_avail V"
  shows "serves_trace True 1 V (seq_trace sb (tuples_of V ps)) (SeqScan_Cur sb (Scan_Page (hd ps))) []"
  by (rule serves_seq [OF at_page [OF heap_here_chain [OF assms(1)]] assms(2)])

text \<open>The right side of one left row, given what follows when it is exhausted.\<close>

lemma serves_join_right:
  assumes "serves True 1 (pinned Pl V) rows out rc Pr" and "length Pl \<le> m"
    and "\<And>rc rc' Pr. length Pr \<le> 1 \<Longrightarrow> yields (\<lambda>k. cursor_next k rc) (pinned Pr (pinned Pl V)) (None, rc') (pinned Pl V) \<Longrightarrow>
      serves_trace cl (m + 1) V more_tr (Join_Cur lc jr on (Some l) (Some rc)) (Pr @ Pl)"
  shows "serves_trace cl (m + 1) V (trace_append (match_trace on l (rows, out)) more_tr) (Join_Cur lc jr on (Some l) (Some rc)) (Pr @ Pl)"
  using assms(1)
proof (induction rule: serves.induct)
  case (serves_end c P c' P')
  then show ?case using assms(3) [of P c c'] by (simp add: match_trace_def)
next
  case (serves_fail c P e)
  have "raises (\<lambda>k. cursor_next (Suc k) (Join_Cur lc jr on (Some l) (Some c))) (pinned (P @ Pl) V) e"
    unfolding cursor_next.simps join_next_def by (simp add: raises_bind [OF serves_fail(1)])
  from serves_failI [OF this] serves_fail(2) assms(2) show ?case by (simp add: match_trace_def)
next
  case (serves_row c P r c' P' rs out)
  note y = serves_row(1) and IH = serves_row.IH
  let ?m = "dict_update l r"
  have P: "length (P @ Pl) \<le> m + 1" using serves_row(2) assms(2) by simp
  consider e where "holds on ?m = Inl e" | "holds on ?m = Inr True" | "holds on ?m = Inr False"
    by (cases "holds on ?m") auto
  then show ?case
  proof cases
    case (1 e)
    have "raises (\<lambda>k. cursor_next (Suc k) (Join_Cur lc jr on (Some l) (Some c))) (pinned (P @ Pl) V) e"
      unfolding cursor_next.simps join_next_def option.case pinned_simps
      by (rule yields_raises [OF y]) (simp add: 1 Let_def raises_bind raises_lift)
    from serves_failI [OF this P] show ?thesis by (simp add: match_trace_Cons 1)
  next
    case 2
    have "yields (\<lambda>k. cursor_next (Suc k) (Join_Cur lc jr on (Some l) (Some c))) (pinned (P @ Pl) V)
        (Some ?m, Join_Cur lc jr on (Some l) (Some c')) (pinned (P' @ Pl) V)"
      unfolding cursor_next.simps join_next_def option.case pinned_simps
      by (rule yields_bind [OF y], simp add: Let_def, rule yields_bind [OF yields_lift [OF 2]]) (simp add: yields_return)
    from serves_rowI [OF this P IH] show ?thesis by (simp add: match_trace_Cons 2)
  next
    case 3
    have "defers V (Join_Cur lc jr on (Some l) (Some c)) (P @ Pl) (Join_Cur lc jr on (Some l) (Some c')) (P' @ Pl)"
      by (rule defersI; unfold cursor_next.simps join_next_def option.case pinned_simps)
        (rule yields_bind [OF y] yields_raises [OF y], simp add: Let_def,
         rule yields_bind [OF yields_lift [OF 3]] yields_raises [OF yields_lift [OF 3]], simp)+
    from serves_defer [OF this P IH] show ?thesis by (simp add: match_trace_Cons 3)
  qed
qed

lemma serves_join:
  assumes jr: "jr_table jr = Inr meta" "heap_here V ps" "tb_heap_first_page_id meta = hd ps" and avail: "m < v_avail V"
    and full: "full = seq_trace (right_base jr meta (hd ps, last ps)) (tuples_of V ps)"
  shows "serves cl m V ls out lc Pl \<Longrightarrow> serves True 1 (pinned Pl V) rows out' rc Pr \<Longrightarrow>
    serves_trace cl (m + 1) V (trace_append (match_trace on l (rows, out')) (join_trace on full (ls, out)))
      (Join_Cur lc jr on (Some l) (Some rc)) (Pr @ Pl)"
proof (induction arbitrary: l rows out' rc Pr rule: serves.induct)
  case (serves_end lc Pl lc' Pl')
  show ?case
  proof (rule serves_join_right [OF serves_end.prems serves_end(2)])
    fix rc rc' Pr assume r: "length Pr \<le> 1" "yields (\<lambda>k. cursor_next k rc) (pinned Pr (pinned Pl V)) (None, rc') (pinned Pl V)"
    have "yields (\<lambda>k. cursor_next (Suc k) (Join_Cur lc jr on (Some l) (Some rc))) (pinned (Pr @ Pl) V)
        (None, Join_Cur lc' jr on None (Some rc')) (pinned Pl' V)"
      unfolding cursor_next.simps join_next_def option.case pinned_simps
      by (rule yields_bind [OF r(2)], simp, rule yields_bind [OF serves_end(1)]) (simp add: yields_return)
    from serves.serves_end [OF yields_Suc [OF this], of "m + 1" cl] r(1) serves_end(2-4)
    show "serves_trace cl (m + 1) V (join_trace on full ([], None)) (Join_Cur lc jr on (Some l) (Some rc)) (Pr @ Pl)"
      by (simp add: join_trace_def)
  qed
next
  case (serves_fail lc Pl e)
  show ?case
  proof (rule serves_join_right [OF serves_fail.prems serves_fail(2)])
    fix rc rc' Pr assume r: "length Pr \<le> 1" "yields (\<lambda>k. cursor_next k rc) (pinned Pr (pinned Pl V)) (None, rc') (pinned Pl V)"
    have "raises (\<lambda>k. cursor_next (Suc k) (Join_Cur lc jr on (Some l) (Some rc))) (pinned (Pr @ Pl) V) e"
      unfolding cursor_next.simps join_next_def option.case pinned_simps
      by (rule yields_raises [OF r(2)]) (simp add: raises_bind [OF serves_fail(1)])
    from serves_failI [OF this] r(1) serves_fail(2)
    show "serves_trace cl (m + 1) V (join_trace on full ([], Some e)) (Join_Cur lc jr on (Some l) (Some rc)) (Pr @ Pl)"
      by (simp add: join_trace_def)
  qed
next
  case (serves_row lc Pl l' lc' Pl' ls out)
  have "length Pl' \<le> m" using serves_pins [OF serves_row(3)] .
  then have free: "0 < v_avail (pinned Pl' V)" using pinned_avail [of V Pl'] avail by simp
  note op = yields_right_open [of jr meta "pinned Pl' V" ps, simplified, OF jr free]
  note scan = serves_seq_scan [of "pinned Pl' V" ps, unfolded heap_here_pinned, OF jr(2) free]
  show ?case
  proof (rule serves_join_right [OF serves_row.prems serves_row(2)])
    fix rc rc' Pr assume r: "length Pr \<le> 1" "yields (\<lambda>k. cursor_next k rc) (pinned Pr (pinned Pl V)) (None, rc') (pinned Pl V)"
    have d: "defers V (Join_Cur lc jr on (Some l) (Some rc)) (Pr @ Pl)
        (Join_Cur lc' jr on (Some l') (Some (SeqScan_Cur (right_base jr meta (hd ps, last ps)) (Scan_Page (hd ps))))) Pl'"
      by (rule defersI; unfold cursor_next.simps join_next_def option.case pinned_simps)
        (rule yields_bind [OF r(2)] yields_raises [OF r(2)], simp,
         rule yields_bind [OF serves_row(1)] yields_raises [OF serves_row(1)], simp,
         rule yields_bind [OF op] yields_raises [OF op], simp)+
    have "serves_trace cl (m + 1) V (trace_append (match_trace on l' full) (join_trace on full (ls, out)))
        (Join_Cur lc' jr on (Some l') (Some (SeqScan_Cur (right_base jr meta (hd ps, last ps)) (Scan_Page (hd ps))))) Pl'"
      using serves_row.IH [OF scan, of l'] by (simp add: full)
    from serves_defer [OF d _ this] r(1) serves_row(2)
    show "serves_trace cl (m + 1) V (join_trace on full (l' # ls, out)) (Join_Cur lc jr on (Some l) (Some rc)) (Pr @ Pl)"
      by (simp add: join_trace_Cons)
  qed
qed

section \<open>Index scans\<close>

text \<open>A chain of leaves in a view, with its entries in order.\<close>

definition leaves_here :: "view \<Rightarrow> btconf \<Rightarrow> (nat \<times> entry list \<times> nat) list \<Rightarrow> bool" where
  "leaves_here V c ls \<longleftrightarrow> linked ls \<and> sorted (map fst (leaf_entries ls))
     \<and> (\<forall>(p, es, nx) \<in> set ls. p < v_count V \<and> p \<noteq> INVALID_PAGE_ID \<and> read_leaf c (v_page V p) = Inr (map fst es, map snd es, nx)
        \<and> (\<forall>k \<in> set (map fst es). key_ok c k))"

lemma leaves_here_Cons:
  assumes "leaves_here V c ((p, es, nx) # ls)"
  shows "leaves_here V c ls" and "nx = first_leaf ls" and "p < v_count V" and "p \<noteq> INVALID_PAGE_ID"
    and "read_leaf c (v_page V p) = Inr (map fst es, map snd es, nx)" and "\<forall>k \<in> set (map fst es). key_ok c k"
    and "sorted (map fst (es @ leaf_entries ls))"
  using assms by (auto simp: leaves_here_def linked_Cons sorted_append)

text \<open>A tree in a view.\<close>

definition index_here :: "view \<Rightarrow> btconf \<times> nat \<Rightarrow> tree \<Rightarrow> bool" where
  "index_here V tree T \<longleftrightarrow> conf_ok (fst tree) \<and> v_count V \<le> INVALID_PAGE_ID \<and> snd tree = root_page T
     \<and> tree_inv (fst tree) (v_page V) (v_count V) T"

inductive range_at :: "view \<Rightarrow> btconf \<times> nat \<Rightarrow> pyval \<Rightarrow> pyval \<Rightarrow> range_iter \<Rightarrow> entry list \<Rightarrow> bool" for V tree lo hi where
  range_end: "range_at V tree lo hi Range_End []"
| range_leaf: "leaves_here V (fst tree) ls \<Longrightarrow>
    range_at V tree lo hi (Range_Leaf (first_leaf ls)) (filter (in_range lo hi) (leaf_entries ls))"
| range_items: "leaves_here V (fst tree) ls \<Longrightarrow> \<forall>k \<in> set (map fst es). key_ok (fst tree) k \<Longrightarrow>
    sorted (map fst (es @ leaf_entries ls)) \<Longrightarrow> \<forall>e \<in> set es. lo = VNone \<or> lo \<le> fst e \<Longrightarrow>
    range_at V tree lo hi (Range_Items es (first_leaf ls)) (filter (in_range lo hi) (es @ leaf_entries ls))"
| range_start: "index_here V tree T \<Longrightarrow> range_at V tree lo hi Range_Start (filter (in_range lo hi) (entries (items T)))"

definition range_gives :: "view \<Rightarrow> btconf \<times> nat \<Rightarrow> pyval \<Rightarrow> pyval \<Rightarrow> range_iter \<Rightarrow> entry list \<Rightarrow> bool" where
  "range_gives V tree lo hi it es \<longleftrightarrow>
     (case es of
        [] \<Rightarrow> \<exists>it'. yields (\<lambda>k. range_next k tree lo hi it) V (None, it') V
      | e # es' \<Rightarrow> \<exists>it'. yields (\<lambda>k. range_next k tree lo hi it) V (Some e, it') V \<and> range_at V tree lo hi it' es')"

lemma range_gives_pass:
  assumes "range_gives V tree lo hi it es"
    and "\<And>y V'. yields (\<lambda>k. range_next k tree lo hi it) V y V' \<Longrightarrow> yields (\<lambda>k. range_next (Suc k) tree lo hi it0) V y V'"
  shows "range_gives V tree lo hi it0 es"
  using assms(1) unfolding range_gives_def by (cases es) (auto dest!: assms(2) intro: yields_Suc)

lemma range_gives_items:
  assumes hi: "bound_ok (fst tree) hi" and ls: "leaves_here V (fst tree) ls" and es: "\<forall>k \<in> set (map fst es). key_ok (fst tree) k"
    "sorted (map fst (es @ leaf_entries ls))" "\<forall>e \<in> set es. lo = VNone \<or> lo \<le> fst e"
    and leaf: "range_gives V tree lo hi (Range_Leaf (first_leaf ls)) (filter (in_range lo hi) (leaf_entries ls))"
  shows "range_gives V tree lo hi (Range_Items es (first_leaf ls)) (filter (in_range lo hi) (es @ leaf_entries ls))"
proof (cases es)
  case Nil
  then show ?thesis using range_gives_pass [OF leaf, of "Range_Items [] (first_leaf ls)"] by simp
next
  case (Cons e es')
  obtain k r where e: "e = (k, r)" by (cases e)
  let ?past = "hi \<noteq> VNone \<and> hi < k"
  have less: "(if hi = VNone then Inr False else py_less hi k) = Inr ?past"
    using key_ok_compare [of "fst tree" hi k] hi es(1) by (auto simp: bound_ok_def Cons e)
  have step: "yields (\<lambda>n. range_next (Suc n) tree lo hi (Range_Items es (first_leaf ls))) V y V"
    if "y = (if ?past then (None, Range_End) else (Some e, Range_Items es' (first_leaf ls)))" for y
    unfolding Cons e range_next.simps
    by (rule yields_bind [OF yields_lift [OF less]]) (auto simp: that e intro: yields_return)
  show ?thesis
  proof (cases ?past)
    case True
    then have "\<forall>x \<in> set (es @ leaf_entries ls). hi < fst x" using es(2) by (auto simp: Cons e intro: less_le_trans)
    then have "filter (in_range lo hi) (es @ leaf_entries ls) = []"
      using True by (intro filter_none) (fastforce simp: in_range_def)
    then show ?thesis using yields_Suc [OF step] True by (auto simp: range_gives_def)
  next
    case False
    have "in_range lo hi e" using False es(3) by (auto simp: in_range_def Cons e not_less)
    moreover have "range_at V tree lo hi (Range_Items es' (first_leaf ls)) (filter (in_range lo hi) (es' @ leaf_entries ls))"
      by (rule range_items [OF ls]) (use es in \<open>auto simp: Cons\<close>)
    moreover have "yields (\<lambda>n. range_next n tree lo hi (Range_Items es (first_leaf ls))) V (Some e, Range_Items es' (first_leaf ls)) V"
      by (rule yields_Suc [OF step]) (use False in auto)
    ultimately show ?thesis by (auto simp: range_gives_def Cons)
  qed
qed

lemma yields_read: "0 < v_pins V p \<Longrightarrow> f (v_page V p) = Inr x \<Longrightarrow> yields (\<lambda>k. read_buf p f) V x V"
  unfolding read_buf_def by (rule yields_bind [OF yields_buf_get]) (simp_all add: yields_lift)

lemma range_gives_leaf:
  assumes lo: "bound_ok (fst tree) lo" and hi: "bound_ok (fst tree) hi" and avail: "0 < v_avail V"
  shows "leaves_here V (fst tree) ls \<Longrightarrow>
    range_gives V tree lo hi (Range_Leaf (first_leaf ls)) (filter (in_range lo hi) (leaf_entries ls))"
proof (induction ls)
  case Nil
  have "yields (\<lambda>n. range_next (Suc n) tree lo hi (Range_Leaf INVALID_PAGE_ID)) V (None, Range_End) V" by (simp add: yields_return)
  from yields_Suc [OF this] show ?case by (auto simp: range_gives_def)
next
  case (Cons l ls)
  obtain p es nx where l: "l = (p, es, nx)" by (cases l)
  note H = leaves_here_Cons [OF Cons.prems [unfolded l]]
  have srt: "sorted (map fst es)" using H(7) by (simp add: sorted_append)
  define es' where "es' = filter (\<lambda>e. lo = VNone \<or> lo \<le> fst e) es"
  let ?i = "if lo = VNone then 0 else length (takeWhile (\<lambda>y. y < lo) (map fst es))"
  have i: "(if lo = VNone then Inr 0 else py_bisect_left (map fst es) lo) = Inr ?i"
    using lo py_bisect_left_ok [OF _ H(6) srt] by (auto simp: bound_ok_def)
  have d: "drop ?i (zip (map fst es) (map snd es)) = es'"
    using drop_less_keys [OF srt, of lo] by (simp add: zip_map_fst_snd es'_def)
  have "sorted (map fst (es' @ leaf_entries ls))" using H(7) by (auto simp: es'_def sorted_append sorted_filter)
  then have G: "range_gives V tree lo hi (Range_Items es' nx) (filter (in_range lo hi) (es' @ leaf_entries ls))"
    unfolding H(2) by (intro range_gives_items [OF hi H(1)] Cons.IH [OF H(1)]) (use H(6) in \<open>auto simp: es'_def\<close>)
  have eq: "filter (in_range lo hi) es' = filter (in_range lo hi) es" by (auto simp: es'_def in_range_def intro: filter_cong)
  have "yields (\<lambda>n. range_next (Suc n) tree lo hi (Range_Leaf p)) V y V'"
    if "yields (\<lambda>n. range_next n tree lo hi (Range_Items es' nx)) V y V'" for y V'
    unfolding range_next.simps
    by (simp only: H(4) if_False, rule yields_bind [OF yields_fetch [OF H(3) avail]],
        rule yields_bind [OF yields_read [where x = "(map fst es, map snd es, nx)"]], simp, simp add: H(5), simp only: prod.case,
        rule yields_seq [OF yields_unpin [OF avail]], rule yields_bind [OF yields_lift [OF i]])
      (simp only: d that)
  from range_gives_pass [OF G this] show ?case by (simp add: l eq)
qed

text \<open>The leaf where the search for a key ends.\<close>

primrec leaf_for :: "pyval \<Rightarrow> tree \<Rightarrow> nat" where
  "leaf_for k (Leaf p es nx) = p"
| "leaf_for k (Node p ts ks) = map (leaf_for k) ts ! length (takeWhile (\<lambda>y. y \<le> k) ks)"

lemma leaf_for_plug: "ctx_shape ctx \<Longrightarrow> ctx_key k ctx \<Longrightarrow> leaf_for k (plug t ctx) = leaf_for k t"
proof (induction t ctx rule: plug.induct)
  case (2 t p ls lk rk rs ctx)
  have "takeWhile (\<lambda>y. y \<le> k) (lk @ rk) = lk"
    using "2.prems"(2) by (cases rk) (auto simp: takeWhile_append)
  then show ?case using 2 by (simp add: nth_append)
qed simp

lemma wp_with_tree [wp_rules]:
  "wp (with_tree (c, root) m) Q E b =
     wp m (\<lambda>x t. Q x (bt_pool t)) (\<lambda>e t. E e (bt_pool t)) \<lparr>bt_pool = b, bt_conf = c, bt_root = root\<rparr>"
  by (simp add: wp_def with_tree_def split: prod.splits sum.splits)

definition start_leaf :: "pyval \<Rightarrow> tree \<Rightarrow> nat" where
  "start_leaf lo T = (if lo = VNone then first_leaf (leaves T) else leaf_for lo T)"

lemma yields_start_leaf:
  assumes T: "index_here V (c, root) T" and lo: "bound_ok c lo" and avail: "0 < v_avail V"
  shows "yields (\<lambda>k. with_tree (c, root) (if lo = VNone then leftmost_leaf else py_bind (find_leaf_path lo) (\<lambda>path. py_return (last path))))
    V (start_leaf lo T) V"
proof (rule yieldsI)
  fix b assume b: "at_view {} V b"
  note D = at_viewD [OF b]
  have I: "tree_inv c (v_page V) (v_count V) T" "root = root_page T" using T by (simp_all add: index_here_def)
  obtain h where h: "has_height h T" using tree_invD(2) [OF I(1)] by blast
  have fuel: "h < pool_count b + 1" using height_less [OF I(1) h] D(4) by simp
  let ?Q = "\<lambda>y b'. y = start_leaf lo T \<and> at_view {} V b'"
  show "wp (with_tree (c, root) (if lo = VNone then leftmost_leaf else py_bind (find_leaf_path lo) (\<lambda>path. py_return (last path))))
    ?Q (\<lambda>_ _. False) b"
  proof (cases "lo = VNone")
    case True
    have "wp (leftmost_leaf_loop c (pool_count b + 1) (root_page T)) ?Q (\<lambda>_ _. False) b"
      by (rule leftmost_leaf_loop_spec [where ctx = "[]" and V = V, OF _ _ h fuel avail b])
        (use I True leaves_plug in \<open>auto simp: start_leaf_def\<close>)
    then show ?thesis by (simp add: True wp_with_tree leftmost_leaf_def wp_fun wp_gets wp_on_tree I(2) del: leftmost_leaf_loop.simps)
  next
    case False
    then have k: "key_ok c lo" using lo by (simp add: bound_ok_def)
    have "wp (find_leaf_path_loop c (pool_count b + 1) lo [root_page T] (root_page T)) (\<lambda>path. ?Q (last path)) (\<lambda>_ _. False) b"
      by (rule find_leaf_path_loop_spec [where ctx = "[]" and t = T and V = V, simplified, OF k I(1) h _ avail b])
        (use fuel False leaf_for_plug [of _ lo] in \<open>fastforce simp: start_leaf_def\<close>)+
    then show ?thesis by (simp add: False wp_with_tree find_leaf_path_def wp_fun wp_gets wp_on_tree wp_return_fun I(2) del: find_leaf_path_loop.simps)
  qed
qed

lemma search_ends:
  assumes "has_height h t" and "tree_inv c pg n (plug t ctx)" and "ctx_shape ctx" and "ctx_key k ctx"
  shows "\<exists>p es nx ctx'. plug (Leaf p es nx) ctx' = plug t ctx \<and> ctx_shape ctx' \<and> ctx_key k ctx'"
  using assms
proof (induction h arbitrary: t ctx)
  case 0
  then obtain p es nx where "t = Leaf p es nx" by (cases t) auto
  with 0 show ?case by blast
next
  case (Suc h)
  then obtain p ts ks where t: "t = Node p ts ks" by (cases t) auto
  note N = node_focus [OF Suc.prems(2) [unfolded t] Suc.prems(3)]
  let ?i = "length (takeWhile (\<lambda>y. y \<le> k) ks)"
  have i: "?i < length ts" using N(4) by (simp add: length_takeWhile_le less_Suc_eq_le)
  let ?ctx = "(p, take ?i ts, take ?i ks, drop ?i ks, drop (Suc ?i) ts) # ctx"
  note P = plug_child [OF i N(4), where p = p and ctx = ctx]
  have "has_height h (ts ! ?i)" using Suc.prems(1) i by (simp add: t)
  moreover have "ctx_key k ?ctx" unfolding ctx_key.simps using Suc.prems(4) takeWhile_split [OF N(6), of k] by blast
  ultimately show ?case using Suc.IH [of "ts ! ?i" ?ctx] P(1) P(2) [OF Suc.prems(3)] Suc.prems(2) by (simp only: t)
qed

text \<open>The scan starts at a leaf of the chain, and what lies before it is not in the range.\<close>

lemma start_leaf_in_chain:
  assumes T: "index_here V tree T" and lo: "bound_ok (fst tree) lo"
  shows "\<exists>ls. start_leaf lo T = first_leaf ls \<and> leaves_here V (fst tree) ls
    \<and> filter (in_range lo hi) (entries (items T)) = filter (in_range lo hi) (leaf_entries ls)"
proof -
  let ?c = "fst tree"
  have I: "tree_inv ?c (v_page V) (v_count V) T" "v_count V \<le> INVALID_PAGE_ID" using T by (simp_all add: index_here_def)
  note E = tree_entries [OF I(1)]
  have here: "leaves_here V ?c ls" if "leaves T = xs @ ls" for xs ls
    using tree_invD(4) [OF I(1)] E(2) leaves_ok [OF I] that
    by (auto simp: leaves_here_def sorted_append intro: linked_append)
  show ?thesis
  proof (cases "lo = VNone")
    case True
    then show ?thesis using here [of "[]" "leaves T"] E(1) by (auto simp: start_leaf_def)
  next
    case False
    obtain h where h: "has_height h T" using tree_invD(2) [OF I(1)] by blast
    obtain p es nx ctx where ctx: "plug (Leaf p es nx) ctx = T" "ctx_shape ctx" "ctx_key lo ctx"
      using search_ends [of h T ?c "v_page V" "v_count V" "[]" lo] h I(1) by auto
    let ?ls = "(p, es, nx) # right_leaves ctx"
    have lv: "leaves T = left_leaves ctx @ ?ls" using leaves_plug [of "Leaf p es nx" ctx] ctx(1) by simp
    note A = entries_around [OF I(1) [folded ctx(1)] ctx(2,3)]
    have "\<forall>(p, x) \<in> set (ctx_images p ctx). node_fits ?c x"
      using pages_okD(1) [OF tree_invD(1) [OF I(1)]] mset_eq_setD [OF images_plug [of "Leaf p es nx" ctx]] ctx(1) by fastforce
    note L = entries_ctx_leaves(1) [OF this ctx(2)]
    have "\<forall>e \<in> set (leaf_entries (left_leaves ctx)). \<not> in_range lo hi e"
      using A(2) False unfolding L by (auto simp: in_range_def)
    then have "filter (in_range lo hi) (entries (items T)) = filter (in_range lo hi) (leaf_entries ?ls)"
      by (simp add: E(1) lv filter_none)
    moreover have "start_leaf lo T = first_leaf ?ls"
      using leaf_for_plug [OF ctx(2,3), of "Leaf p es nx"] ctx(1) False by (simp add: start_leaf_def)
    ultimately show ?thesis using here [OF lv] by blast
  qed
qed

lemma range_next_gives:
  assumes "range_at V tree lo hi it es" and "bound_ok (fst tree) lo" and "bound_ok (fst tree) hi" and "0 < v_avail V"
  shows "range_gives V tree lo hi it es"
  using assms(1)
proof (cases rule: range_at.cases)
  case range_end
  have "yields (\<lambda>n. range_next (Suc n) tree lo hi Range_End) V (None, Range_End) V" by (simp add: yields_return)
  from yields_Suc [OF this] range_end show ?thesis by (auto simp: range_gives_def)
next
  case (range_start T)
  obtain ls where ls: "start_leaf lo T = first_leaf ls" "leaves_here V (fst tree) ls"
      "filter (in_range lo hi) (entries (items T)) = filter (in_range lo hi) (leaf_entries ls)"
    using start_leaf_in_chain [OF range_start(3) assms(2)] by blast
  have "yields (\<lambda>n. range_next (Suc n) tree lo hi Range_Start) V y V'"
    if "yields (\<lambda>n. range_next n tree lo hi (Range_Leaf (first_leaf ls))) V y V'" for y V'
    unfolding range_next.simps
    by (rule yields_bind [OF yields_start_leaf [of V "fst tree" "snd tree" T lo, unfolded prod.collapse, OF range_start(3) assms(2,4)]])
      (simp only: ls(1) that)
  from range_gives_pass [OF range_gives_leaf [OF assms(2-4) ls(2)] this] show ?thesis by (simp add: range_start ls(3))
next
  case (range_items ls es')
  then show ?thesis using range_gives_items [OF assms(3)] range_gives_leaf [OF assms(2-4)] by auto
qed (use range_gives_leaf [OF assms(2-4)] in auto)

definition index_trace :: "scan_base \<Rightarrow> (rid \<Rightarrow> bytes option) \<Rightarrow> entry list \<Rightarrow> row trace" where
  "index_trace sb get es =
     trace_bind (\<lambda>(_, rid). case get rid of None \<Rightarrow> ([], None) | Some raw \<Rightarrow> one_row (visible_row sb rid raw)) es None"

definition rids_here :: "view \<Rightarrow> (rid \<Rightarrow> bytes option) \<Rightarrow> entry list \<Rightarrow> bool" where
  "rids_here V get es \<longleftrightarrow> (\<forall>(_, r) \<in> set es. rid_page_id r < v_count V \<and> heap_page_ok (v_page V (rid_page_id r))
     \<and> tuple_at (v_page V (rid_page_id r)) (rid_slot_id r) = get r)"

lemma serves_index:
  assumes "range_at V tree lo hi it es" and "rids_here V get es"
    and k: "bound_ok (fst tree) lo" "bound_ok (fst tree) hi" "0 < v_avail V"
  shows "serves_trace True 1 V (index_trace sb get es) (IndexScan_Cur sb tree lo hi it) []"
  using assms(1,2)
proof (induction es arbitrary: it rule: list.induct)
  case Nil
  obtain it' where y: "yields (\<lambda>n. range_next n tree lo hi it) V (None, it') V"
    using range_next_gives [OF Nil(1) k] by (auto simp: range_gives_def)
  have "yields (\<lambda>n. cursor_next (Suc n) (IndexScan_Cur sb tree lo hi it)) (pinned [] V) (None, IndexScan_Cur sb tree lo hi it') V"
    unfolding cursor_next.simps index_scan_next_def pinned_simps by (rule yields_bind [OF y]) (simp add: yields_return)
  from serves_endI [OF this] show ?case by (simp add: index_trace_def)
next
  case (Cons e es)
  obtain key rid where e: "e = (key, rid)" by (cases e)
  obtain it' where y: "yields (\<lambda>n. range_next n tree lo hi it) V (Some (key, rid), it') V" and it': "range_at V tree lo hi it' es"
    using range_next_gives [OF Cons.prems(1) k] by (auto simp: range_gives_def e)
  have IH: "serves_trace True 1 V (index_trace sb get es) (IndexScan_Cur sb tree lo hi it') []"
    using Cons.IH [OF it'] Cons.prems(2) by (simp add: rids_here_def)
  have get: "yields (\<lambda>n. with_heap (sb_heap sb) (heap_get rid)) V (get rid) V"
    using Cons.prems(2) yields_heap_get [of "rid_page_id rid" V "sb_heap sb" "rid_slot_id rid"] k(3)
    by (cases rid) (auto simp: rids_here_def e)
  have skip: "defers V (IndexScan_Cur sb tree lo hi it) [] (IndexScan_Cur sb tree lo hi it') []"
    if "get rid = None \<or> (\<exists>raw. get rid = Some raw \<and> visible_row sb rid raw = Inr None)"
    using that
  proof
    assume "get rid = None"
    then show ?thesis
      by (intro defersI; unfold cursor_next.simps index_scan_next_def pinned_simps)
        (rule yields_bind [OF y] yields_raises [OF y], simp, rule yields_bind [OF get] yields_raises [OF get], simp)+
  next
    assume "\<exists>raw. get rid = Some raw \<and> visible_row sb rid raw = Inr None"
    then obtain raw where raw: "get rid = Some raw" and v: "visible_row sb rid raw = Inr None" by blast
    show ?thesis
      by (intro defersI; unfold cursor_next.simps index_scan_next_def pinned_simps)
        (rule yields_bind [OF y] yields_raises [OF y], simp, rule yields_bind [OF get] yields_raises [OF get], simp add: raw,
         rule yields_bind [OF yields_lift [OF v]] yields_raises [OF yields_lift [OF v]], simp)+
  qed
  consider "get rid = None" | raw err where "get rid = Some raw" "visible_row sb rid raw = Inl err"
    | raw where "get rid = Some raw" "visible_row sb rid raw = Inr None"
    | raw row where "get rid = Some raw" "visible_row sb rid raw = Inr (Some row)"
    by (cases "get rid") (auto, metis obj_sumE option.exhaust)
  then show ?case
  proof cases
    case 1
    from serves_defer [OF skip _ IH] 1 show ?thesis by (simp add: index_trace_def e split_beta)
  next
    case (2 raw err)
    have "raises (\<lambda>n. cursor_next (Suc n) (IndexScan_Cur sb tree lo hi it)) (pinned [] V) err"
      unfolding cursor_next.simps index_scan_next_def pinned_simps
      by (rule yields_raises [OF y], simp, rule yields_raises [OF get]) (simp add: 2 raises_bind raises_lift)
    from serves_failI [OF this] show ?thesis by (simp add: index_trace_def e 2)
  next
    case (3 raw)
    from serves_defer [OF skip _ IH] 3 show ?thesis by (simp add: index_trace_def e split_beta)
  next
    case (4 raw row)
    have "yields (\<lambda>n. cursor_next (Suc n) (IndexScan_Cur sb tree lo hi it)) (pinned [] V) (Some row, IndexScan_Cur sb tree lo hi it') (pinned [] V)"
      unfolding cursor_next.simps index_scan_next_def pinned_simps
      by (rule yields_bind [OF y], simp, rule yields_bind [OF get], simp add: 4(1), rule yields_bind [OF yields_lift [OF 4(2)]])
        (simp add: yields_return)
    from serves_rowI [OF this _ IH] show ?thesis by (simp add: index_trace_def e 4 split_beta)
  qed
qed

end
