(* ===== verification/Query_Semantics.thy ===== *)
theory Query_Semantics
  imports Query_Run
begin

text \<open>
  The meaning of a plan as a function of the stored tuples and index entries, and the proof that
  the executor computes it: for every fuel that is large enough, \<open>run_plan\<close> returns the rows of the
  plan or raises its exception. A plan without \<^verbatim>\<open>LIMIT\<close> that returns has released every page.
\<close>

section \<open>Stored data\<close>

record store =
  st_heap :: "nat \<Rightarrow> (rid \<times> bytes) list"
  st_index :: "btconf \<times> nat \<Rightarrow> entry list"

lemma tuples_of_set:
  "(r, t) \<in> set (tuples_of V ps) \<longleftrightarrow> rid_page_id r \<in> set ps \<and> tuple_at (v_page V (rid_page_id r)) (rid_slot_id r) = Some t"
  by (auto simp: tuples_of_def page_live_set)

lemma distinct_tuples: "distinct ps \<Longrightarrow> distinct (map fst (tuples_of V ps))"
proof (induction ps)
  case (Cons p ps)
  have "distinct (map fst (page_live p (v_page V p)))" using page_live_sorted [of p "v_page V p"] by (simp add: strict_sorted_iff)
  moreover have "fst ` set (page_live p (v_page V p)) \<inter> fst ` set (tuples_of V ps) = {}"
    using Cons.prems by (auto simp: page_live_set tuples_of_set)
  ultimately show ?case using Cons by (simp add: tuples_of_def)
qed (simp add: tuples_of_def)

lemma map_of_tuples:
  "map_of (tuples_of V ps) r = (if rid_page_id r \<in> set ps then tuple_at (v_page V (rid_page_id r)) (rid_slot_id r) else None)"
proof (cases "map_of (tuples_of V ps) r")
  case None
  then have "(r, t) \<notin> set (tuples_of V ps)" for t by (auto simp: map_of_eq_None_iff image_iff)
  with None show ?thesis
    by (cases "tuple_at (v_page V (rid_page_id r)) (rid_slot_id r)") (auto simp: tuples_of_set)
next
  case (Some t)
  then show ?thesis using tuples_of_set [of r t V ps] by (auto dest: map_of_SomeD)
qed

section \<open>The meaning of a plan\<close>

text \<open>The first row of the left side, and with it the right side, are taken when the join opens.\<close>

definition join_outcome :: "expr \<Rightarrow> join_right \<Rightarrow> (table_meta \<Rightarrow> row trace) \<Rightarrow> row trace \<Rightarrow> row trace res" where
  "join_outcome on jr right tr =
     (case tr of
        ([], None) \<Rightarrow> Inr ([], None)
      | ([], Some e) \<Rightarrow> Inl e
      | (_ # _, _) \<Rightarrow> res_bind (jr_table jr) (\<lambda>meta. Inr (join_trace on (right meta) tr)))"

fun plan_trace :: "store \<Rightarrow> plan \<Rightarrow> row trace res" where
  "plan_trace st (SeqScan sb) = Inr (seq_trace sb (st_heap st (fst (sb_heap sb))))"
| "plan_trace st (IndexScan sb tree lo hi) =
     Inr (index_trace sb (map_of (st_heap st (fst (sb_heap sb)))) (filter (in_range lo hi) (st_index st tree)))"
| "plan_trace st (Filter child p) = res_bind (plan_trace st child) (\<lambda>tr. Inr (filter_trace p tr))"
| "plan_trace st (NestedLoopJoin left jr on) =
     res_bind (plan_trace st left) (join_outcome on jr (\<lambda>meta. seq_trace
       (right_base jr meta (tb_heap_first_page_id meta, tb_heap_first_page_id meta)) (st_heap st (tb_heap_first_page_id meta))))"
| "plan_trace st (Project child sel) = res_bind (plan_trace st child) (\<lambda>tr. Inr (project_trace sel tr))"
| "plan_trace st (Sort child ob) =
     res_bind (plan_trace st child) (\<lambda>tr.
       case snd tr of Some e \<Rightarrow> Inl e | None \<Rightarrow> res_bind (sort_rows ob (fst tr)) (\<lambda>rows. Inr (rows, None)))"
| "plan_trace st (Limit child n) = res_bind (plan_trace st child) (\<lambda>tr. Inr (limit_trace n tr))"
| "plan_trace st (HashAggregate child gb sel) =
     res_bind (plan_trace st child) (\<lambda>tr.
     res_bind (agg_outcome gb sel tr []) (\<lambda>gs.
     res_bind (group_results gb sel gs) (\<lambda>rows. Inr (rows, None))))"

definition plan_result :: "store \<Rightarrow> plan \<Rightarrow> row list res" where
  "plan_result st p =
     res_bind (plan_trace st p) (\<lambda>tr. case snd tr of Some e \<Rightarrow> Inl e | None \<Rightarrow> Inr (fst tr))"

text \<open>The last page of the heap object plays no part in reading rows.\<close>

lemma seq_trace_heap: "seq_trace (right_base jr meta h) ts = seq_trace (right_base jr meta h') ts"
  by (simp add: seq_trace_def visible_row_def right_base_def cong: if_cong)

section \<open>The data that a plan reads\<close>

definition heap_at :: "view \<Rightarrow> store \<Rightarrow> nat \<Rightarrow> nat list \<Rightarrow> bool" where
  "heap_at V st f ps \<longleftrightarrow> heap_here V ps \<and> hd ps = f \<and> st_heap st f = tuples_of V ps"

fun stored :: "view \<Rightarrow> store \<Rightarrow> plan \<Rightarrow> bool" where
  "stored V st (SeqScan sb) = (\<exists>ps. heap_at V st (fst (sb_heap sb)) ps)"
| "stored V st (IndexScan sb tree lo hi) =
     (\<exists>ps T. heap_at V st (fst (sb_heap sb)) ps \<and> index_here V tree T \<and> st_index st tree = entries (items T)
        \<and> bound_ok (fst tree) lo \<and> bound_ok (fst tree) hi \<and> (\<forall>(k, r) \<in> set (entries (items T)). rid_page_id r \<in> set ps))"
| "stored V st (Filter child p) = stored V st child"
| "stored V st (NestedLoopJoin left jr on) =
     (stored V st left \<and> (\<forall>meta. jr_table jr = Inr meta \<longrightarrow> (\<exists>ps. heap_at V st (tb_heap_first_page_id meta) ps)))"
| "stored V st (Project child sel) = stored V st child"
| "stored V st (Sort child ob) = stored V st child"
| "stored V st (Limit child n) = stored V st child"
| "stored V st (HashAggregate child gb sel) = stored V st child"

text \<open>The frames that must be free, and plans without a limit.\<close>

fun frames :: "plan \<Rightarrow> nat" where
  "frames (SeqScan sb) = 1"
| "frames (IndexScan sb tree lo hi) = 1"
| "frames (Filter child p) = frames child"
| "frames (NestedLoopJoin left jr on) = frames left + 1"
| "frames (Project child sel) = frames child"
| "frames (Sort child ob) = frames child"
| "frames (Limit child n) = frames child"
| "frames (HashAggregate child gb sel) = frames child"

fun unlimited :: "plan \<Rightarrow> bool" where
  "unlimited (SeqScan sb) = True"
| "unlimited (IndexScan sb tree lo hi) = True"
| "unlimited (Filter child p) = unlimited child"
| "unlimited (NestedLoopJoin left jr on) = unlimited left"
| "unlimited (Project child sel) = unlimited child"
| "unlimited (Sort child ob) = unlimited child"
| "unlimited (Limit child n) = False"
| "unlimited (HashAggregate child gb sel) = unlimited child"

section \<open>Opening a plan\<close>

definition opens :: "bool \<Rightarrow> nat \<Rightarrow> view \<Rightarrow> (nat \<Rightarrow> (pool, cursor) py) \<Rightarrow> row trace res \<Rightarrow> bool" where
  "opens cl m V op oc \<longleftrightarrow>
     (case oc of
        Inl e \<Rightarrow> raises op V e
      | Inr tr \<Rightarrow> \<exists>c P. yields op V c (pinned P V) \<and> serves_trace cl m V tr c P)"

lemma opens_bind:
  assumes "opens cl m V op oc"
    and "\<And>tr c P. oc = Inr tr \<Longrightarrow> serves_trace cl m V tr c P \<Longrightarrow>
      (case f tr of
         Inl e \<Rightarrow> raises (\<lambda>k. g k c) (pinned P V) e
       | Inr tr' \<Rightarrow> \<exists>c' P'. yields (\<lambda>k. g k c) (pinned P V) c' (pinned P' V) \<and> serves_trace cl' m' V tr' c' P')"
  shows "opens cl' m' V (\<lambda>k. py_bind (op k) (g k)) (res_bind oc f)"
proof (cases oc)
  case (Inl e)
  then show ?thesis using assms(1) by (simp add: opens_def raises_bind)
next
  case (Inr tr)
  then obtain c P where c: "yields op V c (pinned P V)" "serves_trace cl m V tr c P" using assms(1) by (auto simp: opens_def)
  show ?thesis
  proof (cases "f tr")
    case (Inl e)
    then show ?thesis using assms(2) [OF Inr c(2)] Inr yields_raises [OF c(1)] by (simp add: opens_def)
  next
    case (Inr tr')
    then obtain c' P' where "yields (\<lambda>k. g k c) (pinned P V) c' (pinned P' V)" "serves_trace cl' m' V tr' c' P'"
      using assms(2) [OF \<open>oc = Inr tr\<close> c(2)] by auto
    with Inr \<open>oc = Inr tr\<close> yields_bind [OF c(1), of g] show ?thesis by (auto simp: opens_def)
  qed
qed

lemma opens_wrap:
  assumes "opens cl m V op oc" and "\<And>tr c P. serves_trace cl m V tr c P \<Longrightarrow> serves_trace cl' m V (f tr) (h c) P"
  shows "opens cl' m V (\<lambda>k. py_bind (op k) (\<lambda>c. py_return (h c))) (res_bind oc (\<lambda>tr. Inr (f tr)))"
  by (rule opens_bind [OF assms(1)]) (auto intro!: exI yields_return assms(2))

text \<open>Sorting and aggregation: the rows are there once the child is exhausted.\<close>

lemma serves_sort_open:
  assumes "serves_trace cl m V tr c P"
  shows "case (case snd tr of Some e \<Rightarrow> Inl e | None \<Rightarrow> res_bind (sort_rows ob (fst tr)) (\<lambda>rows. Inr (rows, None))) of
      Inl e \<Rightarrow> raises (\<lambda>k. sort_open k c ob) (pinned P V) e
    | Inr tr' \<Rightarrow> \<exists>c' P'. yields (\<lambda>k. sort_open k c ob) (pinned P V) c' (pinned P' V) \<and> serves_trace cl m V tr' c' P'"
proof (cases "snd tr")
  case (Some e)
  then show ?thesis using drain_raises [OF assms] by (simp add: sort_open_def raises_bind)
next
  case None
  obtain P' where P': "length P' \<le> m" "cl \<longrightarrow> P' = []" "yields (\<lambda>k. drain k c) (pinned P V) (fst tr) (pinned P' V)"
    using drain_serves [OF assms None] by blast
  show ?thesis
  proof (cases "sort_rows ob (fst tr)")
    case (Inl e)
    have "raises (\<lambda>k. sort_open k c ob) (pinned P V) e"
      unfolding sort_open_def by (rule yields_raises [OF P'(3)]) (simp add: raises_bind raises_lift Inl)
    with None Inl show ?thesis by simp
  next
    case (Inr rows)
    have "yields (\<lambda>k. sort_open k c ob) (pinned P V) (Rows_Cur rows) (pinned P' V)"
      unfolding sort_open_def
      by (rule yields_bind [OF P'(3)], rule yields_bind [OF yields_lift [OF Inr]]) (rule yields_return)
    with None Inr P' serves_rows [of P' m cl V rows] show ?thesis by auto
  qed
qed

lemma serves_aggregate_open:
  assumes "serves_trace cl m V tr c P"
  shows "case res_bind (agg_outcome gb sel tr []) (\<lambda>gs. res_bind (group_results gb sel gs) (\<lambda>rows. Inr (rows, None))) of
      Inl e \<Rightarrow> raises (\<lambda>k. aggregate_open k c gb sel) (pinned P V) e
    | Inr tr' \<Rightarrow> \<exists>c' P'. yields (\<lambda>k. aggregate_open k c gb sel) (pinned P V) c' (pinned P' V) \<and> serves_trace cl m V tr' c' P'"
proof (cases "agg_outcome gb sel tr []")
  case (Inl e)
  then show ?thesis using agg_loop_serves [OF assms, of gb sel "[]"] by (simp add: aggregate_open_def raises_bind)
next
  case (Inr gs)
  then obtain P' where P': "length P' \<le> m" "cl \<longrightarrow> P' = []" "yields (\<lambda>k. agg_loop k gb sel c []) (pinned P V) gs (pinned P' V)"
    using agg_loop_serves [OF assms, of gb sel "[]"] by auto
  show ?thesis
  proof (cases "group_results gb sel gs")
    case (Inl e)
    have "raises (\<lambda>k. aggregate_open k c gb sel) (pinned P V) e"
      unfolding aggregate_open_def by (rule yields_raises [OF P'(3)]) (simp add: raises_bind raises_lift Inl)
    with \<open>agg_outcome gb sel tr [] = Inr gs\<close> Inl show ?thesis by simp
  next
    case (Inr rows)
    have "yields (\<lambda>k. aggregate_open k c gb sel) (pinned P V) (Rows_Cur rows) (pinned P' V)"
      unfolding aggregate_open_def
      by (rule yields_bind [OF P'(3)], rule yields_bind [OF yields_lift [OF Inr]]) (rule yields_return)
    with \<open>agg_outcome gb sel tr [] = Inr gs\<close> Inr P' serves_rows [of P' m cl V rows] show ?thesis by auto
  qed
qed

lemma serves_no_left:
  assumes "length P \<le> m" and "cl \<longrightarrow> P = []"
  shows "serves cl m V [] None (Join_Cur c jr on None right) P"
proof (rule serves_end)
  show "yields (\<lambda>k. cursor_next k (Join_Cur c jr on None right)) (pinned P V) (None, Join_Cur c jr on None right) (pinned P V)"
    by (rule yields_Suc) (simp add: join_next_def yields_return)
qed (use assms in auto)

lemma serves_join_open:
  assumes "serves_trace cl m V tr c P" and "m < v_avail V"
    and right: "\<And>meta. jr_table jr = Inr meta \<Longrightarrow> \<exists>ps. heap_here V ps \<and> tb_heap_first_page_id meta = hd ps
      \<and> right meta = seq_trace (right_base jr meta (hd ps, last ps)) (tuples_of V ps)"
  shows "case join_outcome on jr right tr of
      Inl e \<Rightarrow> raises (\<lambda>k. join_open k c jr on) (pinned P V) e
    | Inr tr' \<Rightarrow> \<exists>c' P'. yields (\<lambda>k. join_open k c jr on) (pinned P V) c' (pinned P' V) \<and> serves_trace cl (m + 1) V tr' c' P'"
proof -
  obtain rows out where tr: "tr = (rows, out)" by (cases tr)
  have S: "serves cl m V rows out c P" using assms(1) by (simp add: tr)
  show ?thesis
  proof (cases rule: serves.cases [OF S])
    case (1 c0 P0 c' P')
    have "yields (\<lambda>k. join_open k c jr on) (pinned P V) (Join_Cur c' jr on None None) (pinned P' V)"
      unfolding join_open_def 1(3,4) by (rule yields_bind [OF 1(5)]) (simp add: yields_return)
    moreover have "serves cl (m + 1) V [] None (Join_Cur c' jr on None None) P'" using 1 by (intro serves_no_left) auto
    ultimately show ?thesis using 1 by (auto simp: join_outcome_def tr)
  next
    case (2 c0 P0 e)
    then show ?thesis by (simp add: join_outcome_def tr join_open_def raises_bind)
  next
    case (3 c0 P0 l c' P' rs out0)
    then have y: "yields (\<lambda>k. cursor_next k c) (pinned P V) (Some l, c') (pinned P' V)" and left: "serves cl m V rs out c' P'" by simp_all
    show ?thesis
    proof (cases "jr_table jr")
      case (Inl e)
      have "raises (\<lambda>k. join_open k c jr on) (pinned P V) e"
        unfolding join_open_def by (rule yields_raises [OF y]) (simp add: right_open_def Inl raises_bind raises_lift)
      then show ?thesis using 3 by (simp add: join_outcome_def tr Inl)
    next
      case (Inr meta)
      obtain ps where ps: "heap_here V ps" "tb_heap_first_page_id meta = hd ps"
          "right meta = seq_trace (right_base jr meta (hd ps, last ps)) (tuples_of V ps)" using right [OF Inr] by blast
      have free: "0 < v_avail (pinned P' V)" using pinned_avail [of V P'] serves_pins [OF left] assms(2) by simp
      let ?r = "SeqScan_Cur (right_base jr meta (hd ps, last ps)) (Scan_Page (hd ps))"
      note op = yields_right_open [of jr meta "pinned P' V" ps, unfolded heap_here_pinned, OF Inr ps(1,2) free]
      have "yields (\<lambda>k. join_open k c jr on) (pinned P V) (Join_Cur c' jr on (Some l) (Some ?r)) (pinned P' V)"
        unfolding join_open_def by (rule yields_bind [OF y], simp, rule yields_bind [OF op]) (rule yields_return)
      moreover have "serves_trace cl (m + 1) V (join_trace on (right meta) (l # rs, out)) (Join_Cur c' jr on (Some l) (Some ?r)) P'"
        using serves_join [OF Inr ps(1,2) assms(2) ps(3) left
            serves_seq_scan [of "pinned P' V" ps, unfolded heap_here_pinned, OF ps(1) free], of on l]
        by (simp add: join_trace_Cons ps(3))
      ultimately show ?thesis using 3 by (auto simp: join_outcome_def tr Inr)
    qed
  qed
qed

lemma plan_opens:
  assumes "stored V st p" and "frames p \<le> v_avail V"
  shows "opens (unlimited p) (frames p) V (\<lambda>k. op_open k p) (plan_trace st p)"
  using assms
proof (induction p)
  case (SeqScan sb)
  then obtain ps where ps: "heap_here V ps" "hd ps = fst (sb_heap sb)" "st_heap st (fst (sb_heap sb)) = tuples_of V ps"
    by (auto simp: heap_at_def)
  have "serves_trace True 1 V (seq_trace sb (tuples_of V ps)) (SeqScan_Cur sb (Scan_Page (hd ps))) []"
    using SeqScan.prems by (intro serves_seq_scan ps) simp
  with ps show ?case by (auto simp: opens_def intro!: exI [of _ "[]"] exI yields_return)
next
  case (IndexScan sb tree lo hi)
  then obtain ps T where ps: "heap_at V st (fst (sb_heap sb)) ps" and T: "index_here V tree T" "st_index st tree = entries (items T)"
      "bound_ok (fst tree) lo" "bound_ok (fst tree) hi" "\<forall>(k, r) \<in> set (entries (items T)). rid_page_id r \<in> set ps"
    by auto
  have "rids_here V (map_of (st_heap st (fst (sb_heap sb)))) (filter (in_range lo hi) (entries (items T)))"
    using ps T(5) by (auto simp: rids_here_def heap_at_def heap_here_def map_of_tuples)
  from serves_index [OF range_start [OF T(1)] this T(3,4), of sb] IndexScan.prems T(2)
  show ?case by (auto simp: opens_def intro!: exI [of _ "[]"] exI yields_return)
next
  case (Filter child p)
  then show ?case by (auto intro!: opens_wrap serves_filter [of _ _ _ "fst tr" "snd tr" for tr, unfolded prod.collapse])
next
  case (NestedLoopJoin left jr on)
  then have IH: "opens (unlimited left) (frames left) V (\<lambda>k. op_open k left) (plan_trace st left)" by simp
  show ?case unfolding plan_trace.simps op_open.simps unlimited.simps frames.simps
  proof (rule opens_bind [OF IH], rule serves_join_open)
    show "frames left < v_avail V" using NestedLoopJoin.prems by simp
    fix meta assume "jr_table jr = Inr meta"
    then obtain ps where "heap_at V st (tb_heap_first_page_id meta) ps" using NestedLoopJoin.prems by auto
    then show "\<exists>ps. heap_here V ps \<and> tb_heap_first_page_id meta = hd ps
      \<and> seq_trace (right_base jr meta (tb_heap_first_page_id meta, tb_heap_first_page_id meta)) (st_heap st (tb_heap_first_page_id meta))
        = seq_trace (right_base jr meta (hd ps, last ps)) (tuples_of V ps)"
      by (intro exI [of _ ps]) (auto simp: heap_at_def intro: seq_trace_heap)
  qed
next
  case (Project child sel)
  then show ?case by (auto intro!: opens_wrap serves_project [of _ _ _ "fst tr" "snd tr" for tr, unfolded prod.collapse])
next
  case (Sort child ob)
  then have "opens (unlimited child) (frames child) V (\<lambda>k. op_open k child) (plan_trace st child)" by simp
  then show ?case unfolding plan_trace.simps op_open.simps unlimited.simps frames.simps
    by (rule opens_bind) (rule serves_sort_open)
next
  case (Limit child n)
  then show ?case
    using serves_limit [where cnt = 0 and limit = n] by (auto intro!: opens_wrap)
next
  case (HashAggregate child gb sel)
  then have "opens (unlimited child) (frames child) V (\<lambda>k. op_open k child) (plan_trace st child)" by simp
  then show ?case unfolding plan_trace.simps op_open.simps unlimited.simps frames.simps
    by (rule opens_bind) (rule serves_aggregate_open)
qed

lemma run_plan_outcome:
  assumes "stored V st p" and "frames p \<le> v_avail V"
  shows "case plan_result st p of
      Inl e \<Rightarrow> raises (\<lambda>k. run_plan k p) V e
    | Inr rows \<Rightarrow> \<exists>P. length P \<le> frames p \<and> (unlimited p \<longrightarrow> P = []) \<and> yields (\<lambda>k. run_plan k p) V rows (pinned P V)"
proof (cases "plan_trace st p")
  case (Inl e)
  then show ?thesis using plan_opens [OF assms] by (simp add: plan_result_def opens_def run_plan_def raises_bind)
next
  case (Inr tr)
  then obtain c P where c: "yields (\<lambda>k. op_open k p) V c (pinned P V)" "serves_trace (unlimited p) (frames p) V tr c P"
    using plan_opens [OF assms] by (auto simp: opens_def)
  show ?thesis
  proof (cases "snd tr")
    case (Some e)
    then show ?thesis using drain_raises [OF c(2)] Inr yields_raises [OF c(1), of drain]
      by (simp add: plan_result_def run_plan_def)
  next
    case None
    then show ?thesis using drain_serves [OF c(2) None] Inr yields_bind [OF c(1), of drain]
      by (auto simp: plan_result_def run_plan_def)
  qed
qed

section \<open>Properties\<close>

text \<open>
  C17: on well-formed tables and indexes, with as many frames free as the plan has scans, \<^verbatim>\<open>list(plan)\<close>
  returns exactly the rows of the plan's meaning, or raises its exception, for every plan; a plan
  without \<^verbatim>\<open>LIMIT\<close> that returns leaves every page as it was, with all its pins released.
\<close>

theorem run_plan_computes:
  assumes "at_view {} V b" and "stored V st p" and "frames p \<le> v_avail V"
  shows "\<exists>n. \<forall>k \<ge> n. fst (run_plan k p b) = plan_result st p
    \<and> (unlimited p \<and> (\<exists>rows. plan_result st p = Inr rows) \<longrightarrow> at_view {} V (snd (run_plan k p b)))"
proof (cases "plan_result st p")
  case (Inl e)
  then have "raises (\<lambda>k. run_plan k p) V e" using run_plan_outcome [OF assms(2,3)] by simp
  from raises_eventually [OF this assms(1)] Inl show ?thesis by simp
next
  case (Inr rows)
  then obtain P where P: "unlimited p \<longrightarrow> P = []" "yields (\<lambda>k. run_plan k p) V rows (pinned P V)"
    using run_plan_outcome [OF assms(2,3)] by auto
  from yields_eventually [OF P(2) assms(1)] P(1) Inr show ?thesis by auto
qed

section \<open>A small table\<close>

definition id_schema :: schema where
  "id_schema = \<lparr>columns = [\<lparr>col_name = u ''id'', col_type = T_INT\<rparr>]\<rparr>"

text \<open>The version of a row that transaction 1 has inserted.\<close>

definition id_tuple :: "nat \<Rightarrow> bytes" where
  "id_tuple n = le_bytes 4 1 @ le_bytes 4 INFINITY_TXN @ le_bytes 8 n"

definition id_scan :: scan_base where
  "id_scan = \<lparr>sb_heap = (0, 0), sb_schema = id_schema, sb_alias = u ''t'',
     sb_snapshot = \<lparr>sn_xid = 2, sn_active_xids = {}\<rparr>, sb_txn_mgr = tm_init (wal_open None) 2 None\<rparr>"

lemma decode_id_tuple: "n < 2 ^ 63 \<Longrightarrow> decode_row (tuple_payload (id_tuple n)) id_schema = Inr [VInt (int n)]"
  by (simp add: decode_row_def id_schema_def id_tuple_def tuple_payload_def MVCC_HEADER_SIZE_def unpack_from_def py_slice_def int64_of_nat_def)

lemma visible_id_tuple: "n < 2 ^ 63 \<Longrightarrow> visible_row id_scan rid (id_tuple n) =
   Inr (Some [(u ''t.id'', Val (VInt (int n))), (u ''id'', Val (VInt (int n))), (u ''__rid__'', Rid rid)])"
  using decode_id_tuple [of n]
  by (simp add: visible_row_def row_from_tuple_def id_scan_def unpack_tuple_header_def id_tuple_def MVCC_HEADER_SIZE_def
      is_visible_def tm_init_def committed_before_def INFINITY_TXN_def)
    (simp add: id_schema_def schema_names_def dict_update_def qualified_key_def u_def)

text \<open>A heap file with one row, and the scan of it.\<close>

definition id_heap :: heapfile where
  "id_heap = snd (heap_insert (id_tuple 7) fresh_heap)"

lemma id_heap: "heap_inv id_heap" "\<exists>r. heap_map id_heap = [r \<mapsto> id_tuple 7]"
proof -
  have "length (id_tuple 7) \<le> 4083" by (simp add: id_tuple_def)
  from heap.insert_law [OF fresh_heap(1) fresh_heap_fits [OF this]]
  show "heap_inv id_heap" "\<exists>r. heap_map id_heap = [r \<mapsto> id_tuple 7]"
    by (auto simp: wp_total id_heap_def fresh_heap)
qed

lemma heap_rows_single:
  assumes "heap_inv h" and "heap_map h = [r \<mapsto> t]"
  shows "heap_rows h = [(r, t)]"
proof -
  have S: "set (heap_rows h) = {(r, t)}" using heap_rows_set [of _ _ h] assms(2) by (auto split: if_splits)
  moreover have "distinct (heap_rows h)" using heap_rows_sorted [OF assms(1)] by (simp add: strict_sorted_iff distinct_map)
  ultimately have "length (heap_rows h) = 1" using distinct_card [of "heap_rows h"] by simp
  with S show ?thesis by (auto simp: length_Suc_conv)
qed

lemma heap_inv_here:
  assumes "heap_inv h"
  shows "heap_here (pool_view (hf_pool h)) (heap_pages h)" and "hd (heap_pages h) = hf_first h"
    and "tuples_of (pool_view (hf_pool h)) (heap_pages h) = heap_rows h"
    and "at_view {} (pool_view (hf_pool h)) (hf_pool h)" and "2 \<le> v_avail (pool_view (hf_pool h))"
  using assms heap_on_pages(2) [of "heap_pages h" h]
  by (auto simp: heap_inv_def heap_on_def heap_here_def tuples_of_def heap_rows_def pool_view_sel strict_sorted_iff
      at_view_def heap_idle_def)

abbreviation id_heap_scan :: plan where
  "id_heap_scan \<equiv> SeqScan (id_scan\<lparr>sb_heap := (hf_first id_heap, hf_last id_heap)\<rparr>)"

abbreviation id_heap_store :: store where
  "id_heap_store \<equiv> \<lparr>st_heap = \<lambda>_. heap_rows id_heap, st_index = \<lambda>_. []\<rparr>"

lemma id_heap_stored: "stored (pool_view (hf_pool id_heap)) id_heap_store id_heap_scan"
  using heap_inv_here [OF id_heap(1)] by (auto simp: heap_at_def intro!: exI [of _ "heap_pages id_heap"])

lemma id_heap_result:
  "\<exists>r. plan_result id_heap_store id_heap_scan =
     Inr [[(u ''t.id'', Val (VInt 7)), (u ''id'', Val (VInt 7)), (u ''__rid__'', Rid r)]]"
proof -
  obtain r where r: "heap_rows id_heap = [(r, id_tuple 7)]" using id_heap heap_rows_single by blast
  have "visible_row (id_scan\<lparr>sb_heap := h\<rparr>) rid raw = visible_row id_scan rid raw" for h rid raw
    by (simp add: visible_row_def cong: if_cong)
  with r visible_id_tuple [of 7 r] show ?thesis by (auto simp: plan_result_def seq_trace_def)
qed

theorem run_plan_computes_witness:
  "\<exists>k r. fst (run_plan k id_heap_scan (hf_pool id_heap)) =
     Inr [[(u ''t.id'', Val (VInt 7)), (u ''id'', Val (VInt 7)), (u ''__rid__'', Rid r)]]"
  using run_plan_computes [OF heap_inv_here(4) [OF id_heap(1)] id_heap_stored] heap_inv_here(5) [OF id_heap(1)] id_heap_result
  by force

section \<open>A limit keeps a page pinned\<close>

text \<open>
  The generator of a heap scan releases its page only when it is asked for the next page. A limit
  that stops before leaves the page pinned, and nothing releases it later.
\<close>

lemma first_row_pins:
  assumes "heap_here V ps" and "tuples_of V ps = (rid, raw) # ts" and "visible_row sb rid raw = Inr (Some row)" and "0 < v_avail V"
  shows "\<exists>it p. yields (\<lambda>k. cursor_next k (SeqScan_Cur sb (Scan_Page (hd ps)))) V (Some row, SeqScan_Cur sb it) (view_pin p V)"
proof -
  have "heap_iter_at V (Scan_Page (hd ps)) ((rid, raw) # ts) []"
    using at_page [OF heap_here_chain [OF assms(1)]] assms(2) by simp
  from scan_next_gives [OF this assms(4)] obtain it P where
    P: "yields (\<lambda>k. scan_next k (Scan_Page (hd ps))) V (Some (rid, raw), it) (pinned P V)" "heap_iter_at V it ts P" "P \<noteq> []"
    by (auto simp: gives_def)
  obtain p where p: "P = [p]" using P(3) heap_iter_pins [OF P(2)] by (cases P) auto
  have "yields (\<lambda>k. cursor_next (Suc k) (SeqScan_Cur sb (Scan_Page (hd ps)))) V (Some row, SeqScan_Cur sb it) (view_pin p V)"
    unfolding cursor_next.simps seq_scan_next_def
    by (rule yields_bind [OF P(1)], simp, rule yields_bind [OF yields_lift [OF assms(3)]]) (simp add: p yields_return)
  from yields_Suc [OF this] show ?thesis by blast
qed

text \<open>
  C38: \<^verbatim>\<open>LIMIT 1\<close> on a table whose first stored tuple is visible returns that row and leaves a page of
  the table with one pin more than before.
\<close>

theorem limit_leaves_page_pinned:
  assumes "at_view {} V b" and "heap_at V st (fst (sb_heap sb)) ps" and "tuples_of V ps = (rid, raw) # ts"
    and "visible_row sb rid raw = Inr (Some row)" and "0 < v_avail V"
  shows "\<exists>n p. \<forall>k \<ge> n. fst (run_plan k (Limit (SeqScan sb) 1) b) = Inr [row]
    \<and> pool_pins (snd (run_plan k (Limit (SeqScan sb) 1) b)) p = pool_pins b p + 1"
proof -
  have H: "heap_here V ps" "hd ps = fst (sb_heap sb)" using assms(2) by (simp_all add: heap_at_def)
  obtain it p where y: "yields (\<lambda>k. cursor_next k (SeqScan_Cur sb (Scan_Page (hd ps)))) V (Some row, SeqScan_Cur sb it) (view_pin p V)"
    using first_row_pins [OF H(1) assms(3-5)] by blast
  let ?c = "Limit_Cur (SeqScan_Cur sb it) 1 1"
  have one: "yields (\<lambda>k. cursor_next k (Limit_Cur (SeqScan_Cur sb (Scan_Page (hd ps))) 1 0)) V (Some row, ?c) (view_pin p V)"
    by (rule yields_Suc, unfold cursor_next.simps limit_next_def, simp, rule yields_bind [OF y]) (simp add: yields_return)
  have two: "yields (\<lambda>k. cursor_next k ?c) (view_pin p V) (None, ?c) (view_pin p V)"
    by (rule yields_Suc) (simp add: limit_next_def yields_return)
  have three: "yields (\<lambda>k. drain k ?c) (view_pin p V) [] (view_pin p V)"
    by (rule yields_Suc, unfold drain.simps, rule yields_bind [OF two]) (simp add: yields_return)
  have "yields (\<lambda>k. drain k (Limit_Cur (SeqScan_Cur sb (Scan_Page (hd ps))) 1 0)) V [row] (view_pin p V)"
    by (rule yields_Suc, unfold drain.simps, rule yields_bind [OF one], simp, rule yields_bind [OF three]) (simp add: yields_return)
  then have "yields (\<lambda>k. run_plan k (Limit (SeqScan sb) 1)) V [row] (view_pin p V)"
    unfolding run_plan_def by (intro yields_bind [where x = "Limit_Cur (SeqScan_Cur sb (Scan_Page (hd ps))) 1 0" and V' = V])
      (simp_all add: H(2) py_bind_def py_return_def yields_return [unfolded py_return_def])
  from yields_eventually [OF this assms(1)] obtain n where n: "\<forall>k \<ge> n. fst (run_plan k (Limit (SeqScan sb) 1) b) = Inr [row]
    \<and> at_view {} (view_pin p V) (snd (run_plan k (Limit (SeqScan sb) 1) b))" by blast
  have "pool_pins b' p = pool_pins b p + 1" if "at_view {} (view_pin p V) b'" for b'
    using at_viewD(6) [OF that] at_viewD(6) [OF assms(1)] by (simp add: view_pin_def)
  with n show ?thesis by blast
qed

theorem limit_leaves_page_pinned_witness:
  "\<exists>k p r. fst (run_plan k (Limit id_heap_scan 1) (hf_pool id_heap)) =
      Inr [[(u ''t.id'', Val (VInt 7)), (u ''id'', Val (VInt 7)), (u ''__rid__'', Rid r)]]
    \<and> pool_pins (snd (run_plan k (Limit id_heap_scan 1) (hf_pool id_heap))) p = pool_pins (hf_pool id_heap) p + 1"
proof -
  let ?sb = "id_scan\<lparr>sb_heap := (hf_first id_heap, hf_last id_heap)\<rparr>"
  note H = heap_inv_here [OF id_heap(1)]
  obtain r where r: "heap_rows id_heap = [(r, id_tuple 7)]" using id_heap heap_rows_single by blast
  have v: "visible_row ?sb r (id_tuple 7) = Inr (Some [(u ''t.id'', Val (VInt 7)), (u ''id'', Val (VInt 7)), (u ''__rid__'', Rid r)])"
    using visible_id_tuple [of 7 r] by (simp add: visible_row_def cong: if_cong)
  have at: "heap_at (pool_view (hf_pool id_heap)) id_heap_store (fst (sb_heap ?sb)) (heap_pages id_heap)"
    using H by (simp add: heap_at_def)
  from limit_leaves_page_pinned [OF H(4) at _ v] H(3,5) r show ?thesis by fastforce
qed

end
