(* ===== verification/Index_Pushdown.thy ===== *)
theory Index_Pushdown
  imports Planner Query_Semantics BTree_Index
begin

text \<open>
  The planner's one optimisation: a conjunct \<^verbatim>\<open>column = literal\<close> on an indexed column is answered by
  an index scan and left out of the filter. The result is that of the sequential scan with the
  whole condition, up to the order of the rows, if the index has an entry for every visible row
  and no evaluation raises.
\<close>

section \<open>Columns of rows\<close>

text \<open>Column names as the lexer makes them have no dot; none is the name of the row id.\<close>

definition plain_schema :: "schema \<Rightarrow> bool" where
  "plain_schema sch \<longleftrightarrow> distinct (schema_names sch) \<and> (\<forall>n \<in> set (schema_names sch). 46 \<notin> set n) \<and> u ''__rid__'' \<notin> set (schema_names sch)"

lemma length_decode_row_loop: "decode_row_loop data off cols vs = Inr ws \<Longrightarrow> length ws = length vs + length cols"
  by (induction data off cols vs rule: decode_row_loop.induct) (auto elim!: res_bindE)

lemma length_decode_row: "decode_row data sch = Inr vs \<Longrightarrow> length vs = length (schema_names sch)"
  using length_decode_row_loop by (fastforce simp: decode_row_def schema_names_def)

lemma map_of_rev_zip:
  assumes "distinct ks" and "length ks = length vs" and "i < length ks"
  shows "map_of (rev (zip ks vs)) (ks ! i) = Some (vs ! i)"
proof (rule map_of_is_SomeI)
  show "distinct (map fst (rev (zip ks vs)))" using assms by (simp add: rev_map [symmetric])
  show "(ks ! i, vs ! i) \<in> set (rev (zip ks vs))" using assms by (auto simp: in_set_zip intro!: exI [of _ i])
qed

lemma inj_qualified: "inj (qualified_key a)"
  by (rule injI) (simp add: qualified_key_def)

lemma resolve_row_column:
  assumes row: "row_from_tuple alias sch rid raw = Inr row" and vs: "decode_row (tuple_payload raw) sch = Inr vs"
    and sch: "plain_schema sch" and i: "index_of sch name = Inr i"
  shows "resolve_column row name None = Inr (Val (vs ! i))" and "resolve_column row name (Some alias) = Inr (Val (vs ! i))"
proof -
  let ?ks = "schema_names sch" let ?vs = "map Val vs" let ?q = "qualified_key alias"
  have len: "length ?ks = length ?vs" using length_decode_row [OF vs] by simp
  have n: "i < length ?ks" "?ks ! i = name" using i by (auto simp: index_of_def index_of_loop_Inr schema_names_def)
  have D: "distinct ?ks" "46 \<notin> set name" "name \<noteq> u ''__rid__''" "u ''__rid__'' \<notin> set ?ks"
    using sch n nth_mem [OF n(1)] by (auto simp: plain_schema_def)
  have quals: "map (\<lambda>(c, v). (?q c, v)) (zip ?ks ?vs) = zip (map ?q ?ks) ?vs"
    by (simp add: zip_map1 split_beta)
  have row': "row = dict_set (u ''__rid__'') (Rid rid) (dict_update (to_dict (zip (map ?q ?ks) ?vs)) (zip ?ks ?vs))"
    using row by (simp add: row_from_tuple_def vs Let_def quals)
  have m: "map_of row k = (if k = u ''__rid__'' then Some (Rid rid)
      else (map_of (rev (zip (map ?q ?ks) ?vs)) ++ map_of (rev (zip ?ks ?vs))) k)" for k
    unfolding row' by (simp add: update_conv' map_of_dict_update)
  have "map_of row name = Some (?vs ! i)"
    using map_of_rev_zip [OF D(1) len n(1)] D(3) by (simp add: m n(2))
  then show "resolve_column row name None = Inr (Val (vs ! i))" using n len by (simp add: resolve_column_def)
  have dot: "46 \<in> set (?q name)" by (simp add: qualified_key_def)
  have "?q name \<notin> set ?ks" using sch dot by (auto simp: plain_schema_def)
  then have "map_of (rev (zip ?ks ?vs)) (?q name) = None" by (auto simp: map_of_eq_None_iff dest: set_zip_leftD)
  moreover have "?q name \<noteq> u ''__rid__''" using dot by (auto simp: u_def)
  moreover have "map_of (rev (zip (map ?q ?ks) ?vs)) (?q name) = Some (?vs ! i)"
    using map_of_rev_zip [of "map ?q ?ks" ?vs i] len n D(1) by (simp add: distinct_map inj_on_subset [OF inj_qualified])
  ultimately have "map_of row (?q name) = Some (?vs ! i)" by (simp add: m map_add_def)
  then show "resolve_column row name (Some alias) = Inr (Val (vs ! i))" using n len by (simp add: resolve_column_def)
qed

section \<open>The matched conjunct\<close>

lemma matching_equality_cases:
  assumes "matching_equality c alias indexed = Some (index, v)"
  shows "\<exists>name table. (c = BinaryOp (u ''='') (ColumnRef name table) (Literal v) \<or> c = BinaryOp (u ''='') (Literal v) (ColumnRef name table))
    \<and> (table = None \<or> table = Some alias) \<and> map_of indexed name = Some index"
  using assms by (cases c) (auto simp: matching_equality_def split: if_splits expr.splits option.splits)

lemma holds_equality:
  assumes c: "c = BinaryOp (u ''='') (ColumnRef name table) (Literal v) \<or> c = BinaryOp (u ''='') (Literal v) (ColumnRef name table)"
    and res: "resolve_column row name table = Inr (Val key)" and ok: "key_ok cf v" "key_ok cf key"
  shows "holds c row = Inr (key = v)"
proof -
  have "key \<noteq> VNone" "v \<noteq> VNone" using ok by (auto simp: key_ok_def)
  moreover have "map_of COMPARATORS (u ''='') = Some (\<lambda>a b. Inr (cell_eq a b))" by (simp add: COMPARATORS_def)
  moreover have "u ''='' \<noteq> u ''AND''" "u ''='' \<noteq> u ''OR''" by (simp_all add: u_def)
  ultimately show ?thesis using c res key_ok_compare(2) [OF ok] key_ok_compare(2) [OF ok(2,1)]
    by (auto simp: holds_def)
qed

section \<open>Traces without exceptions\<close>

lemma trace_bind_concat: "\<forall>x \<in> set xs. snd (f x) = None \<Longrightarrow> trace_bind f xs None = (concat (map (\<lambda>x. fst (f x)) xs), None)"
proof (induction xs)
  case (Cons x xs)
  then show ?case by (cases "f x") auto
qed simp

definition seen_rows :: "scan_base \<Rightarrow> rid \<times> bytes \<Rightarrow> row list" where
  "seen_rows sb = (\<lambda>(rid, raw). case visible_row sb rid raw of Inr (Some row) \<Rightarrow> [row] | _ \<Rightarrow> [])"

lemma one_row_seen: "visible_row sb rid raw = Inr v \<Longrightarrow> one_row (visible_row sb rid raw) = (seen_rows sb (rid, raw), None)"
  by (cases v) (simp_all add: seen_rows_def)

lemma seq_trace_seen:
  assumes "\<forall>(rid, raw) \<in> set ts. \<exists>v. visible_row sb rid raw = Inr v"
  shows "seq_trace sb ts = (concat (map (seen_rows sb) ts), None)"
proof -
  have one: "one_row (visible_row sb rid raw) = (seen_rows sb (rid, raw), None)" if "(rid, raw) \<in> set ts" for rid raw
    using assms that one_row_seen by fastforce
  then show ?thesis unfolding seq_trace_def
    by (subst trace_bind_concat) (auto intro!: arg_cong [where f = concat] map_cong)
qed

definition looked_up :: "(rid \<times> bytes) list \<Rightarrow> entry list \<Rightarrow> (rid \<times> bytes) list" where
  "looked_up ts es = concat (map (\<lambda>(_, rid). case map_of ts rid of None \<Rightarrow> [] | Some raw \<Rightarrow> [(rid, raw)]) es)"

lemma looked_up_set: "(rid, raw) \<in> set (looked_up ts es) \<longleftrightarrow> rid \<in> snd ` set es \<and> map_of ts rid = Some raw"
  by (force simp: looked_up_def split: option.splits)

lemma distinct_looked_up: "distinct (map snd es) \<Longrightarrow> distinct (map fst (looked_up ts es))"
proof (induction es)
  case (Cons e es)
  then show ?case using looked_up_set [of "snd e" _ ts es]
    by (cases e) (force simp: looked_up_def split: option.splits)
qed (simp add: looked_up_def)

lemma index_trace_seen:
  assumes "\<forall>(rid, raw) \<in> set ts. \<exists>v. visible_row sb rid raw = Inr v"
  shows "index_trace sb (map_of ts) es = (concat (map (seen_rows sb) (looked_up ts es)), None)"
proof -
  let ?f = "\<lambda>(_, rid). case map_of ts rid of None \<Rightarrow> ([], None) | Some raw \<Rightarrow> one_row (visible_row sb rid raw)"
  let ?g = "\<lambda>(_, rid). case map_of ts rid of None \<Rightarrow> [] | Some raw \<Rightarrow> seen_rows sb (rid, raw)"
  have f: "?f e = (?g e, None)" for e
    using assms one_row_seen [of sb] by (cases e) (fastforce split: option.splits dest!: map_of_SomeD)
  have "concat (map ?g es) = concat (map (seen_rows sb) (looked_up ts es))"
    unfolding looked_up_def by (induction es) (auto split: option.splits)
  then show ?thesis unfolding index_trace_def by (subst trace_bind_concat) (simp_all add: f)
qed

lemma filter_trace_total:
  assumes "\<forall>r \<in> set rows. \<exists>b. holds p r = Inr b"
  shows "filter_trace p (rows, None) = (filter (\<lambda>r. holds p r = Inr True) rows, None)"
  using assms
proof (induction rows)
  case (Cons r rows)
  then obtain b where "holds p r = Inr b" by auto
  with Cons show ?case by (cases b) (simp_all add: filter_trace_def)
qed (simp add: filter_trace_def)

lemma mset_concat_map: "mset xs = mset ys \<Longrightarrow> mset (concat (map h xs)) = mset (concat (map h ys))"
proof -
  have "mset (concat (map h zs)) = \<Sum>\<^sub># (image_mset (\<lambda>z. mset (h z)) (mset zs))" for zs
    by (induction zs) simp_all
  then show "mset xs = mset ys \<Longrightarrow> ?thesis" by simp
qed

lemma concat_map_nonempty: "concat (map h xs) = concat (map h (filter (\<lambda>x. h x \<noteq> []) xs))"
  by (induction xs) auto

section \<open>Push-down\<close>

text \<open>What \<^verbatim>\<open>CREATE INDEX\<close> takes as the key of a tuple.\<close>

definition tuple_key :: "schema \<Rightarrow> ustring \<Rightarrow> bytes \<Rightarrow> pyval res" where
  "tuple_key sch name raw =
     res_bind (decode_row (tuple_payload raw) sch) (\<lambda>vs. res_bind (index_of sch name) (\<lambda>i. Inr (vs ! i)))"

text \<open>
  Every entry of a stored tuple has the tuple's key, no row id has two entries, and every tuple
  that is visible, or cannot be decoded, has an entry.
\<close>

definition index_covers :: "scan_base \<Rightarrow> ustring \<Rightarrow> (rid \<times> bytes) list \<Rightarrow> entry list \<Rightarrow> bool" where
  "index_covers sb name ts es \<longleftrightarrow> distinct (map snd es)
     \<and> (\<forall>(key, rid) \<in> set es. \<forall>raw. map_of ts rid = Some raw \<longrightarrow> tuple_key (sb_schema sb) name raw = Inr key)
     \<and> (\<forall>(rid, raw) \<in> set ts. visible_row sb rid raw \<noteq> Inr None \<longrightarrow> rid \<in> snd ` set es)"

definition filtered :: "expr option \<Rightarrow> plan \<Rightarrow> plan" where
  "filtered cond p = (case cond of Some e \<Rightarrow> Filter p e | None \<Rightarrow> p)"

lemma plan_trace_filtered:
  assumes "plan_trace st p = Inr (rows, None)" and "\<forall>r \<in> set rows. \<exists>b. holds_opt cond r = Inr b"
  shows "plan_result st (filtered cond p) = Inr (filter (\<lambda>r. holds_opt cond r = Inr True) rows)"
  using assms by (cases cond) (simp_all add: filtered_def plan_result_def holds_opt_def filter_trace_total)

lemma holds_all_total: "\<forall>c \<in> set cs. \<exists>b. holds c r = Inr b \<Longrightarrow> \<exists>b. holds_all cs r = Inr b"
  by (induction cs) auto

lemma indexed_columns_index:
  assumes "distinct (map fst (tb_indexes meta))" and "map_of (indexed_columns meta) name = Some index"
  shows "\<exists>idx. map_of (tb_indexes meta) index = Some idx \<and> im_column idx = name"
proof -
  let ?es = "map (\<lambda>(n, idx). (im_column idx, n)) (tb_indexes meta)"
  have "map_of (rev ?es) name = Some index" using assms(2) by (simp add: indexed_columns_def map_of_dict_update)
  then have "(name, index) \<in> set ?es" by (auto dest: map_of_SomeD)
  then obtain idx where "(index, idx) \<in> set (tb_indexes meta)" "im_column idx = name" by auto
  with assms(1) show ?thesis by auto
qed

lemma pushdown_rows:
  assumes covers: "index_covers sb name ts es" and sch: "plain_schema (sb_schema sb)" and ts: "distinct (map fst ts)"
    and total: "\<forall>(rid, raw) \<in> set ts. \<exists>v. visible_row sb rid raw = Inr v"
    and keys: "\<forall>(k, r) \<in> set es. key_ok cf k" and v: "key_ok cf v"
    and c: "i < length cs" "cs ! i = BinaryOp (u ''='') (ColumnRef name table) (Literal v) \<or>
      cs ! i = BinaryOp (u ''='') (Literal v) (ColumnRef name table)" "table = None \<or> table = Some (sb_alias sb)"
    and conj: "\<forall>t \<in> set ts. \<forall>row \<in> set (seen_rows sb t). \<forall>c \<in> set cs. \<exists>b. holds c row = Inr b"
  shows "mset (filter (\<lambda>r. holds_all cs r = Inr True) (concat (map (seen_rows sb) ts)))
    = mset (filter (\<lambda>r. holds_all (take i cs @ drop (i + 1) cs) r = Inr True)
        (concat (map (seen_rows sb) (looked_up ts (filter (in_range v v) es)))))"
proof -
  let ?rest = "take i cs @ drop (i + 1) cs" and ?L = "looked_up ts (filter (in_range v v) es)"
  define hA where "hA t = filter (\<lambda>r. holds_all cs r = Inr True) (seen_rows sb t)" for t
  define hB where "hB t = filter (\<lambda>r. holds_all ?rest r = Inr True) (seen_rows sb t)" for t
  have ent: "\<exists>k. (k, rid) \<in> set es \<and> holds (cs ! i) row = Inr (k = v)"
    if t: "(rid, raw) \<in> set ts" and row: "row \<in> set (seen_rows sb (rid, raw))" for rid raw row
  proof -
    have raw: "map_of ts rid = Some raw" using ts t by simp
    have vis: "visible_row sb rid raw = Inr (Some row)"
      using row by (auto simp: seen_rows_def split: sum.splits option.splits)
    then obtain k where k: "(k, rid) \<in> set es" "tuple_key (sb_schema sb) name raw = Inr k"
      using covers t raw unfolding index_covers_def by fastforce
    from k(2) obtain vs j where vs: "decode_row (tuple_payload raw) (sb_schema sb) = Inr vs" "index_of (sb_schema sb) name = Inr j" "k = vs ! j"
      by (auto simp: tuple_key_def elim!: res_bindE)
    have "row_from_tuple (sb_alias sb) (sb_schema sb) rid raw = Inr row"
      using vis by (auto simp: visible_row_def split: if_splits elim!: res_bindE)
    note R = resolve_row_column [OF this vs(1) sch vs(2)]
    have "resolve_column row name table = Inr (Val k)" using c(3) R vs(3) by auto
    from holds_equality [OF c(2) this v] keys k(1) show ?thesis by fastforce
  qed
  have "inj_on snd (set es)" using covers by (simp add: index_covers_def distinct_map)
  then have one: "k = k'" if "(k, rid) \<in> set es" "(k', rid) \<in> set es" for k k' rid
    using that inj_onD [of snd "set es" "(k, rid)" "(k', rid)"] by simp
  have L: "(rid, raw) \<in> set ?L \<longleftrightarrow> (rid, raw) \<in> set ts \<and> (v, rid) \<in> set es" for rid raw
  proof -
    have "in_range v v e \<longleftrightarrow> fst e = v" for e :: entry using v by (auto simp: in_range_def key_ok_def)
    then have "rid \<in> snd ` set (filter (in_range v v) es) \<longleftrightarrow> (v, rid) \<in> set es" by force
    with ts show ?thesis by (auto simp: looked_up_set)
  qed
  have same: "hA t = hB t" if "t \<in> set ?L" for t
  proof -
    obtain rid raw where t: "t = (rid, raw)" by (cases t)
    have "holds (cs ! i) row = Inr True" if "row \<in> set (seen_rows sb t)" for row
      using ent [of rid raw row] that \<open>t \<in> set ?L\<close> L one t by fastforce
    then show ?thesis unfolding hA_def hB_def using holds_all_without(1) [OF c(1)] by (auto intro: filter_cong)
  qed
  have in_L: "t \<in> set ?L" if t_in: "t \<in> set ts" "hA t \<noteq> []" for t
  proof -
    obtain rid raw where t: "t = (rid, raw)" by (cases t)
    obtain row where row: "row \<in> set (seen_rows sb t)" "holds_all cs row = Inr True"
      using t_in(2) by (auto simp: hA_def filter_empty_conv)
    obtain k where k: "(k, rid) \<in> set es" "holds (cs ! i) row = Inr (k = v)" using ent row(1) t_in(1) t by blast
    have "k = v"
    proof (rule ccontr)
      assume "k \<noteq> v"
      then have "holds_all cs row = res_bind (holds_all (take i cs) row) (\<lambda>_. Inr False)"
        using holds_all_without(2) [OF c(1)] k(2) by simp
      with row(2) show False by (cases "holds_all (take i cs) row") simp_all
    qed
    with k(1) t_in(1) L t show ?thesis by simp
  qed
  have "set (filter (\<lambda>t. hA t \<noteq> []) ts) = set (filter (\<lambda>t. hA t \<noteq> []) ?L)" using in_L L by auto
  moreover have "distinct (map snd (filter (in_range v v) es))"
    using covers by (auto simp: index_covers_def distinct_map intro: inj_on_subset)
  then have "distinct (map fst ?L)" by (rule distinct_looked_up)
  ultimately have "mset (filter (\<lambda>t. hA t \<noteq> []) ts) = mset (filter (\<lambda>t. hA t \<noteq> []) ?L)"
    using ts by (subst set_eq_iff_mset_eq_distinct [symmetric]) (simp_all add: distinct_map)
  then have "mset (concat (map hA ts)) = mset (concat (map hA ?L))"
    by (subst (1 2) concat_map_nonempty) (rule mset_concat_map)
  also have "concat (map hA ?L) = concat (map hB ?L)" using same by (intro arg_cong [where f = concat] map_cong) auto
  finally show ?thesis by (simp add: hA_def [abs_def] hB_def [abs_def] filter_concat comp_def)
qed

text \<open>
  C18: for a condition with a conjunct \<^verbatim>\<open>column = literal\<close> that the planner hands to an index, the index
  scan with the rest of the condition gives the same rows as the sequential scan with the whole
  condition, up to their order, if the index covers the visible rows, the literal is a key of the
  index and no row or conjunct raises.
\<close>

theorem index_pushdown_equivalent:
  assumes "find_match 0 (sb_alias sb) (indexed_columns meta) (flatten_and cond) = Some (i, index, v)"
    and "distinct (map fst (tb_indexes meta))" and "map_of (tb_indexes meta) index = Some idx"
    and "index_covers sb (im_column idx) (st_heap st (fst (sb_heap sb))) (st_index st tree)"
    and "plain_schema (sb_schema sb)" and "distinct (map fst (st_heap st (fst (sb_heap sb))))"
    and "\<forall>(rid, raw) \<in> set (st_heap st (fst (sb_heap sb))). \<exists>x. visible_row sb rid raw = Inr x"
    and "\<forall>t \<in> set (st_heap st (fst (sb_heap sb))). \<forall>row \<in> set (seen_rows sb t). \<forall>c \<in> set (flatten_and cond). \<exists>b. holds c row = Inr b"
    and "key_ok (fst tree) v" and "\<forall>(k, r) \<in> set (st_index st tree). key_ok (fst tree) k"
  shows "\<exists>rows rows'. plan_result st (filtered cond (SeqScan sb)) = Inr rows
    \<and> plan_result st (filtered (rebuild_and (take i (flatten_and cond) @ drop (i + 1) (flatten_and cond))) (IndexScan sb tree v v)) = Inr rows'
    \<and> mset rows' = mset rows"
proof -
  let ?ts = "st_heap st (fst (sb_heap sb))" and ?cs = "flatten_and cond"
  let ?rest = "take i ?cs @ drop (i + 1) ?cs" and ?L = "looked_up ?ts (filter (in_range v v) (st_index st tree))"
  have m: "i < length ?cs" "matching_equality (?cs ! i) (sb_alias sb) (indexed_columns meta) = Some (index, v)"
    using find_match_nth [OF assms(1)] by simp_all
  obtain name table where c: "?cs ! i = BinaryOp (u ''='') (ColumnRef name table) (Literal v) \<or>
      ?cs ! i = BinaryOp (u ''='') (Literal v) (ColumnRef name table)" "table = None \<or> table = Some (sb_alias sb)"
      "map_of (indexed_columns meta) name = Some index"
    using matching_equality_cases [OF m(2)] by blast
  have name: "im_column idx = name" using indexed_columns_index [OF assms(2) c(3)] assms(3) by auto
  note rows = pushdown_rows [OF assms(4) [unfolded name] assms(5-7,10,9) m(1) c(1,2) assms(8)]
  have L: "set ?L \<subseteq> set ?ts" by (auto simp: looked_up_set dest: map_of_SomeD)
  have "\<forall>r \<in> set (concat (map (seen_rows sb) ?ts)). \<exists>b. holds_opt cond r = Inr b"
    using assms(8) holds_all_total [of ?cs] by (fastforce simp: holds_flatten [symmetric])
  then have seq: "plan_result st (filtered cond (SeqScan sb)) = Inr (filter (\<lambda>r. holds_all ?cs r = Inr True) (concat (map (seen_rows sb) ?ts)))"
    using plan_trace_filtered [of st "SeqScan sb"] seq_trace_seen [OF assms(7)] by (simp add: holds_flatten)
  have "\<exists>b. holds c r = Inr b" if r: "r \<in> set (concat (map (seen_rows sb) ?L))" and c: "c \<in> set ?rest" for r c
  proof -
    obtain t where "t \<in> set ?ts" "r \<in> set (seen_rows sb t)" using r L by auto
    moreover have "c \<in> set ?cs" using c by (auto dest: in_set_takeD in_set_dropD)
    ultimately show ?thesis using assms(8) by blast
  qed
  then have "\<forall>r \<in> set (concat (map (seen_rows sb) ?L)). \<exists>b. holds_opt (rebuild_and ?rest) r = Inr b"
    using holds_all_total [of ?rest] by (simp add: holds_rebuild)
  then have "plan_result st (filtered (rebuild_and ?rest) (IndexScan sb tree v v))
      = Inr (filter (\<lambda>r. holds_all ?rest r = Inr True) (concat (map (seen_rows sb) ?L)))"
    using plan_trace_filtered [of st "IndexScan sb tree v v"] index_trace_seen [OF assms(7)] by (simp add: holds_rebuild)
  with seq rows show ?thesis by auto
qed

section \<open>A small table with an index\<close>

definition id_meta :: table_meta where
  "id_meta = \<lparr>tb_name = u ''t'', tb_schema = id_schema, tb_heap_first_page_id = 0,
     tb_indexes = [(u ''i'', \<lparr>im_name = u ''i'', im_column = u ''id'', im_root_page_id = 1, im_unique = False, im_key_type = T_INT\<rparr>)]\<rparr>"

definition id_store :: store where
  "id_store = \<lparr>st_heap = \<lambda>_. [(RID 0 0, id_tuple 1), (RID 0 1, id_tuple 2)],
     st_index = \<lambda>_. [(VInt 1, RID 0 0), (VInt 2, RID 0 1)]\<rparr>"

lemma holds_id: "holds (BinaryOp (u ''='') (ColumnRef (u ''id'') None) (Literal (VInt m)))
   [(u ''t.id'', Val (VInt n)), (u ''id'', Val (VInt n)), (u ''__rid__'', Rid rid)] = Inr (n = m)"
  by (simp add: holds_def resolve_column_def COMPARATORS_def u_def)

theorem index_pushdown_equivalent_witness:
  "\<exists>rows rows'. plan_result id_store (filtered (Some (BinaryOp (u ''='') (ColumnRef (u ''id'') None) (Literal (VInt 2)))) (SeqScan id_scan)) = Inr rows
    \<and> plan_result id_store (IndexScan id_scan (int_config False, 1) (VInt 2) (VInt 2)) = Inr rows' \<and> mset rows' = mset rows"
proof -
  let ?c = "BinaryOp (u ''='') (ColumnRef (u ''id'') None) (Literal (VInt 2))"
  have cs: "flatten_and (Some ?c) = [?c]" by (simp add: flatten_and_def u_def)
  have m: "find_match 0 (sb_alias id_scan) (indexed_columns id_meta) (flatten_and (Some ?c)) = Some (0, u ''i'', VInt 2)"
    by (simp add: cs matching_equality_def indexed_columns_def id_meta_def dict_update_def)
  have "index_of id_schema (u ''id'') = Inr 0" by (simp add: index_of_def id_schema_def)
  then have k: "tuple_key id_schema (u ''id'') (id_tuple n) = Inr (VInt (int n))" if "n < 2 ^ 63" for n
    using that by (simp add: tuple_key_def decode_id_tuple)
  have covers: "index_covers id_scan (u ''id'') (st_heap id_store (fst (sb_heap id_scan))) (st_index id_store (int_config False, 1))"
    using k [of 1] k [of 2] by (simp add: index_covers_def id_store_def id_scan_def)
  have plain: "plain_schema (sb_schema id_scan)" by (simp add: plain_schema_def id_scan_def id_schema_def schema_names_def u_def)
  have seen: "seen_rows id_scan (rid, id_tuple n) = [[(u ''t.id'', Val (VInt (int n))), (u ''id'', Val (VInt (int n))), (u ''__rid__'', Rid rid)]]"
    if "n < 2 ^ 63" for rid n using visible_id_tuple [OF that] by (simp add: seen_rows_def)
  have "\<exists>rows rows'. plan_result id_store (filtered (Some ?c) (SeqScan id_scan)) = Inr rows
    \<and> plan_result id_store (filtered (rebuild_and (take 0 (flatten_and (Some ?c)) @ drop (0 + 1) (flatten_and (Some ?c))))
        (IndexScan id_scan (int_config False, 1) (VInt 2) (VInt 2))) = Inr rows' \<and> mset rows' = mset rows"
    by (rule index_pushdown_equivalent [OF m, where idx = "snd (hd (tb_indexes id_meta))"])
      (use covers plain seen visible_id_tuple holds_id in \<open>auto simp: id_meta_def cs id_store_def key_ok_def int_config_def\<close>)
  then show ?thesis by (simp add: cs rebuild_and_def filtered_def)
qed

section \<open>Null\<close>


end
