(* ===== verification/Query_Laws.thy ===== *)
theory Query_Laws
  imports Index_Pushdown
begin

text \<open>
  Laws of the row operators: \<^verbatim>\<open>ORDER BY\<close> is the stable lexicographic sort, the aggregates without
  \<^verbatim>\<open>GROUP BY\<close> count and sum, and a condition that is well typed for a table never raises on its rows.
\<close>

section \<open>Order by\<close>

text \<open>Keys that Python compares: all integers or all strings.\<close>

definition comparable :: "pyval set \<Rightarrow> bool" where
  "comparable vs \<longleftrightarrow> (\<forall>v \<in> vs. \<exists>i. v = VInt i) \<or> (\<forall>v \<in> vs. \<exists>s. v = VStr s)"

lemma comparable_less: "comparable vs \<Longrightarrow> v \<in> vs \<Longrightarrow> w \<in> vs \<Longrightarrow> py_less v w = Inr (v < w)"
  by (cases v; cases w) (auto simp: comparable_def)

lemma insort_res_eq:
  assumes "comparable vs" and "k x \<in> vs" and "\<forall>y \<in> set ys. k y \<in> vs"
  shows "insort_res (Val (k x), x) (map (\<lambda>y. (Val (k y), y)) ys) = Inr (map (\<lambda>y. (Val (k y), y)) (insort_key k x ys))"
  using assms(3)
proof (induction ys)
  case (Cons y ys)
  then show ?case using comparable_less [OF assms(1), of "k y" "k x"] assms(2) by (auto simp: not_less)
qed simp

lemma sort_res_eq:
  assumes "comparable vs" and "\<forall>x \<in> set xs. k x \<in> vs"
  shows "sort_res (map (\<lambda>x. (Val (k x), x)) xs) = Inr (map (\<lambda>x. (Val (k x), x)) (sort_key k xs))"
  using assms(2)
proof (induction xs)
  case (Cons x xs)
  then show ?case using insort_res_eq [OF assms(1), of k x "sort_key k xs"] by simp
qed simp

lemma py_sort_eq:
  assumes "\<forall>x \<in> set xs. key x = Inr (Val (k x))" and "comparable (k ` set xs)"
  shows "py_sort key desc xs = Inr (if desc then rev (sort_key k (rev xs)) else sort_key k xs)"
proof -
  have "res_map key xs = Inr (map (\<lambda>x. Val (k x)) xs)" using assms(1) by (induction xs) auto
  moreover have "zip (map (\<lambda>x. Val (k x)) xs) xs = map (\<lambda>x. (Val (k x), x)) xs" by (induction xs) auto
  ultimately show ?thesis
    using sort_res_eq [OF assms(2), of xs k] sort_res_eq [OF assms(2), of "rev xs" k]
    by (simp add: py_sort_def rev_map comp_def)
qed

text \<open>A stable sort keeps the order among the elements of one key.\<close>

lemma sorted_by_key:
  "sorted_wrt (\<lambda>x y. k x \<le> k y) ys \<Longrightarrow> (\<And>v. sorted_wrt R (filter (\<lambda>y. k y = v) ys)) \<Longrightarrow>
     sorted_wrt (\<lambda>x y. k x < k y \<or> k x = k y \<and> R x y) (ys :: 'a list)" for k :: "'a \<Rightarrow> 'b :: order"
proof (induction ys)
  case (Cons y ys)
  have rest: "sorted_wrt R (filter (\<lambda>y. k y = v) ys)" for v
    using Cons.prems(2) [of v] by (cases "k y = v") simp_all
  have "R y z" if "z \<in> set ys" "k y = k z" for z using Cons.prems(2) [of "k y"] that by simp
  with Cons.IH Cons.prems(1) rest show ?case by (auto simp: le_less)
qed simp

lemma sort_key_stable_sorted:
  fixes k :: "'a \<Rightarrow> 'b :: linorder"
  assumes "sorted_wrt R xs"
  shows "sorted_wrt (\<lambda>x y. k x < k y \<or> k x = k y \<and> R x y) (sort_key k xs)"
proof (rule sorted_by_key)
  have "sorted (map k (sort_key k xs))" by simp
  then show "sorted_wrt (\<lambda>x y. k x \<le> k y) (sort_key k xs)" by (simp only: sorted_map)
  show "sorted_wrt R (filter (\<lambda>y. k y = v) (sort_key k xs))" for v
    using assms by (simp add: sort_key_stable sorted_wrt_filter)
qed

lemma sort_key_desc_sorted:
  fixes k :: "'a \<Rightarrow> 'b :: linorder"
  assumes "sorted_wrt R xs"
  shows "sorted_wrt (\<lambda>x y. k y < k x \<or> k x = k y \<and> R x y) (rev (sort_key k (rev xs)))"
proof -
  have "sorted_wrt (\<lambda>x y. R y x) (rev xs)" using assms by (simp add: sorted_wrt_rev)
  from sort_key_stable_sorted [OF this, of k] show ?thesis
    by (auto simp: sorted_wrt_rev elim: sorted_wrt_mono_rel [rotated])
qed

definition order_key :: "order_by_item \<Rightarrow> row \<Rightarrow> pyval" where
  "order_key ob row = (case evaluate (ob_expr ob) row of Inr (Val v) \<Rightarrow> v | _ \<Rightarrow> VNone)"

text \<open>The first item that distinguishes two rows decides.\<close>

fun in_order :: "order_by_item list \<Rightarrow> row \<Rightarrow> row \<Rightarrow> bool" where
  "in_order [] r s = True"
| "in_order (ob # obs) r s =
     ((if ob_descending ob then order_key ob s < order_key ob r else order_key ob r < order_key ob s)
      \<or> order_key ob r = order_key ob s \<and> in_order obs r s)"

definition orderable :: "order_by_item list \<Rightarrow> row list \<Rightarrow> bool" where
  "orderable obs rows \<longleftrightarrow> (\<forall>ob \<in> set obs. comparable (order_key ob ` set rows)
     \<and> (\<forall>row \<in> set rows. evaluate (ob_expr ob) row = Inr (Val (order_key ob row))))"

text \<open>
  C19: \<^verbatim>\<open>ORDER BY\<close> with several items, ascending or descending, returns the same rows in the
  lexicographic order of the items, if the values of each item are all integers or all strings.
\<close>

theorem order_by_sorts:
  assumes "orderable obs rows"
  shows "\<exists>out. sort_rows obs rows = Inr out \<and> mset out = mset rows \<and> sorted_wrt (in_order obs) out"
  using assms
proof (induction obs)
  case Nil
  then show ?case by (simp add: sorted_wrt_iff_nth_less)
next
  case (Cons ob obs)
  obtain mid where mid: "sort_rows obs rows = Inr mid" "mset mid = mset rows" "sorted_wrt (in_order obs) mid"
    using Cons by (auto simp: orderable_def)
  have set_mid: "set mid = set rows" by (rule mset_eq_setD [OF mid(2)])
  let ?k = "order_key ob"
  have sort: "py_sort (evaluate (ob_expr ob)) (ob_descending ob) mid
      = Inr (if ob_descending ob then rev (sort_key ?k (rev mid)) else sort_key ?k mid)"
    by (rule py_sort_eq) (use Cons.prems set_mid in \<open>auto simp: orderable_def\<close>)
  have "sorted_wrt (in_order (ob # obs)) (if ob_descending ob then rev (sort_key ?k (rev mid)) else sort_key ?k mid)"
    using sort_key_stable_sorted [OF mid(3), of ?k] sort_key_desc_sorted [OF mid(3), of ?k] by (auto elim: sorted_wrt_mono_rel [rotated])
  with mid sort show ?case by (auto simp del: in_order.simps)
qed

theorem order_by_sorts_witness:
  "\<exists>out. sort_rows [\<lparr>ob_expr = ColumnRef (u ''a'') None, ob_descending = True\<rparr>]
      [[(u ''a'', Val (VInt 1))], [(u ''a'', Val (VInt 2))]] = Inr out
    \<and> mset out = mset [[(u ''a'', Val (VInt 1))], [(u ''a'', Val (VInt 2))]]
    \<and> sorted_wrt (in_order [\<lparr>ob_expr = ColumnRef (u ''a'') None, ob_descending = True\<rparr>]) out"
  by (rule order_by_sorts) (simp add: orderable_def order_key_def resolve_column_def comparable_def)

section \<open>Aggregates\<close>

abbreviation count_star :: "ustring \<Rightarrow> select_item" where
  "count_star a \<equiv> \<lparr>si_expr = FunctionCall (u ''COUNT'') Star, si_alias = Some a\<rparr>"

abbreviation sum_of :: "expr \<Rightarrow> ustring \<Rightarrow> select_item" where
  "sum_of e b \<equiv> \<lparr>si_expr = FunctionCall (u ''SUM'') e, si_alias = Some b\<rparr>"

abbreviation totals :: "nat \<Rightarrow> int \<Rightarrow> agg_state option list" where
  "totals n t \<equiv> [Some ((new_agg (u ''COUNT''))\<lparr>ag_count := n\<rparr>), Some ((new_agg (u ''SUM''))\<lparr>ag_total := VInt t\<rparr>)]"

lemma add_to_totals:
  assumes "e \<noteq> Star" and "evaluate e row = Inr (Val (VInt i))"
  shows "res_map (item_add row) (zip [count_star a, sum_of e b] (totals n t)) = Inr (totals (n + 1) (t + i))"
proof -
  have "u ''SUM'' \<noteq> u ''COUNT''" by (simp add: u_def)
  then show ?thesis using assms
    by (simp add: item_add_def agg_add_def new_agg_def add_cell_def py_add_def is_float_def)
qed

lemma group_rows_totals:
  assumes "e \<noteq> Star" and "\<forall>row \<in> set rows. evaluate e row = Inr (Val (VInt (f row)))"
  shows "group_rows [] [count_star a, sum_of e b] rows [([], totals n t)]
    = Inr [([], totals (n + length rows) (t + (\<Sum>row \<leftarrow> rows. f row)))]"
  using assms(2)
proof (induction rows arbitrary: n t)
  case (Cons row rows)
  have "group_row [] [count_star a, sum_of e b] row [([], totals n t)] = Inr [([], totals (n + 1) (t + f row))]"
    using add_to_totals [OF assms(1), of row "f row" a b n t] Cons.prems by (simp add: group_row_def)
  with Cons show ?case by (simp add: add.assoc)
qed simp

text \<open>
  C20: \<^verbatim>\<open>SELECT COUNT(*) AS a, SUM(e) AS b\<close> without \<^verbatim>\<open>GROUP BY\<close> gives one row with the number of rows and the
  exact sum of the integers that \<^verbatim>\<open>e\<close> has on them, also when there are no rows.
\<close>

theorem count_and_sum:
  assumes "e \<noteq> Star" and "\<forall>row \<in> set rows. evaluate e row = Inr (Val (VInt (f row)))" and "a \<noteq> b" and "a \<noteq> []" and "b \<noteq> []"
  shows "aggregate_rows [] [count_star a, sum_of e b] rows
    = Inr [[(a, Val (VInt (int (length rows)))), (b, Val (VInt (\<Sum>row \<leftarrow> rows. f row)))]]"
proof -
  have ne: "u ''SUM'' \<noteq> u ''COUNT''" by (simp add: u_def)
  have start: "new_states [count_star a, sum_of e b] = totals 0 0" by (simp add: new_states_def new_agg_def)
  have "item_name (count_star a) = a" "item_name (sum_of e b) = b" using assms(4,5) by (simp_all add: item_name_def)
  then have res: "res_map (item_result vs) (zip [count_star a, sum_of e b] (totals n t)) = Inr [(a, Val (VInt (int n))), (b, Val (VInt t))]" for vs n t
    using ne by (simp add: item_result_def agg_result_def new_agg_def)
  show ?thesis
  proof (cases rows)
    case Nil
    have "filter (\<lambda>(item, st). st \<noteq> None) (zip [count_star a, sum_of e b] (totals 0 0)) = zip [count_star a, sum_of e b] (totals 0 0)" by simp
    with res [of "[]" 0 0] show ?thesis using assms(3) Nil
      by (simp add: aggregate_rows_def group_results_def no_rows_result_def start dict_update_def)
  next
    case (Cons row rest)
    have "group_row [] [count_star a, sum_of e b] row [] = Inr [([], totals 1 (f row))]"
      using add_to_totals [OF assms(1), of row "f row" a b 0 0] assms(2) Cons by (simp add: group_row_def start)
    with group_rows_totals [OF assms(1), of rest f a b 1 "f row"] assms(2) Cons
    have "group_rows [] [count_star a, sum_of e b] rows [] = Inr [([], totals (length rows) (\<Sum>row \<leftarrow> rows. f row))]" by simp
    with res [of "to_dict (zip [] [])" "length rows" "\<Sum>row \<leftarrow> rows. f row"] assms(3) show ?thesis
      by (simp add: aggregate_rows_def group_results_def group_result_def dict_update_def)
  qed
qed

theorem count_and_sum_witness:
  "aggregate_rows [] [count_star (u ''n''), sum_of (ColumnRef (u ''x'') None) (u ''s'')]
      [[(u ''x'', Val (VInt 5))], [(u ''x'', Val (VInt (-2)))]]
    = Inr [[(u ''n'', Val (VInt 2)), (u ''s'', Val (VInt 3))]]"
  using count_and_sum [of "ColumnRef (u ''x'') None" "[[(u ''x'', Val (VInt 5))], [(u ''x'', Val (VInt (-2)))]]"
      "\<lambda>row. if row = [(u ''x'', Val (VInt 5))] then 5 else -2" "u ''n''" "u ''s''"]
  by (simp add: resolve_column_def u_def)

section \<open>Types of expressions\<close>

datatype etype = E_Number | E_Text | E_Null

definition val_type :: "pyval \<Rightarrow> etype" where
  "val_type v = (case v of VNone \<Rightarrow> E_Null | VStr _ \<Rightarrow> E_Text | _ \<Rightarrow> E_Number)"

text \<open>The columns that a query can name, with their types.\<close>

type_synonym col_types = "ustring \<Rightarrow> ustring option \<Rightarrow> etype option"

definition order_ops :: "ustring list" where
  "order_ops = [u ''<'', u ''<='', u ''>'', u ''>='']"

text \<open>Only an order between a number and a text, an unknown column, \<^verbatim>\<open>*\<close> and a function call are refused.\<close>

inductive typed :: "col_types \<Rightarrow> expr \<Rightarrow> etype \<Rightarrow> bool" for G where
  lit: "typed G (Literal v) (val_type v)"
| col: "G name table = Some t \<Longrightarrow> typed G (ColumnRef name table) t"
| neg: "typed G e t \<Longrightarrow> typed G (UnaryOp (u ''NOT'') e) E_Number"
| conn: "typed G l t \<Longrightarrow> typed G r t' \<Longrightarrow> oper = u ''AND'' \<or> oper = u ''OR'' \<Longrightarrow> typed G (BinaryOp oper l r) E_Number"
| eq: "typed G l t \<Longrightarrow> typed G r t' \<Longrightarrow> oper = u ''='' \<or> oper = u ''<>'' \<Longrightarrow> typed G (BinaryOp oper l r) E_Number"
| ord: "typed G l t \<Longrightarrow> typed G r t' \<Longrightarrow> oper \<in> set order_ops \<Longrightarrow> t = t' \<or> t = E_Null \<or> t' = E_Null \<Longrightarrow>
    typed G (BinaryOp oper l r) E_Number"

definition row_typed :: "col_types \<Rightarrow> row \<Rightarrow> bool" where
  "row_typed G row \<longleftrightarrow> (\<forall>name table t. G name table = Some t \<longrightarrow> (\<exists>v. resolve_column row name table = Inr (Val v) \<and> val_type v = t))"

lemma compare_typed:
  assumes "val_type v = val_type w" and "v \<noteq> VNone"
  shows "\<exists>b. cell_less (Val v) (Val w) = Inr b" and "\<exists>b. cell_le (Val v) (Val w) = Inr b"
  using assms by (cases v; cases w; simp add: val_type_def)+

lemma comparators:
  "map_of COMPARATORS (u ''='') = Some (\<lambda>a b. Inr (cell_eq a b))" "map_of COMPARATORS (u ''<>'') = Some (\<lambda>a b. Inr (\<not> cell_eq a b))"
  "map_of COMPARATORS (u ''<'') = Some cell_less" "map_of COMPARATORS (u ''<='') = Some cell_le"
  "map_of COMPARATORS (u ''>'') = Some (\<lambda>a b. cell_less b a)" "map_of COMPARATORS (u ''>='') = Some (\<lambda>a b. cell_le b a)"
  by (simp_all add: COMPARATORS_def u_def)

lemma evaluate_compare:
  assumes "evaluate l row = Inr (Val v)" and "evaluate r row = Inr (Val w)" and "oper \<noteq> u ''AND''" and "oper \<noteq> u ''OR''"
    and "map_of COMPARATORS oper = Some f" and "v \<noteq> VNone \<Longrightarrow> w \<noteq> VNone \<Longrightarrow> \<exists>b. f (Val v) (Val w) = Inr b"
  shows "\<exists>b. evaluate (BinaryOp oper l r) row = Inr (truth b)"
  using assms by (cases "v = VNone \<or> w = VNone") auto

lemma evaluate_connective:
  assumes "evaluate l row = Inr (Val v)" and "evaluate r row = Inr (Val w)" and "oper = u ''AND'' \<or> oper = u ''OR''"
  shows "\<exists>b. evaluate (BinaryOp oper l r) row = Inr (truth b)"
proof -
  have "u ''OR'' \<noteq> u ''AND''" by (simp add: u_def)
  with assms show ?thesis by (cases "py_truthy v") auto
qed

lemma typed_evaluates:
  assumes "typed G e t" and "row_typed G row"
  shows "\<exists>v. evaluate e row = Inr (Val v) \<and> val_type v = t"
  using assms(1)
proof (induction rule: typed.induct)
  case (col name table t)
  then show ?case using assms(2) by (simp add: row_typed_def)
next
  case (conn l t r t' oper)
  then obtain v w where "evaluate l row = Inr (Val v)" "evaluate r row = Inr (Val w)" by auto
  from evaluate_connective [OF this conn(3)] show ?case by (auto simp: val_type_def simp del: evaluate.simps)
next
  case (eq l t r t' oper)
  then obtain v w where e: "evaluate l row = Inr (Val v)" "evaluate r row = Inr (Val w)" by auto
  have "oper \<noteq> u ''AND''" "oper \<noteq> u ''OR''" using eq(3) by (auto simp: u_def)
  then have "\<exists>b. evaluate (BinaryOp oper l r) row = Inr (truth b)"
    using evaluate_compare [OF e] eq(3) comparators by fastforce
  then show ?case by (auto simp: val_type_def simp del: evaluate.simps)
next
  case (ord l t r t' oper)
  then obtain v w where e: "evaluate l row = Inr (Val v)" "val_type v = t" "evaluate r row = Inr (Val w)" "val_type w = t'" by auto
  have ne: "oper \<noteq> u ''AND''" "oper \<noteq> u ''OR''" using ord(3) by (auto simp: order_ops_def u_def)
  have "val_type x = E_Null \<longleftrightarrow> x = VNone" for x by (cases x) (simp_all add: val_type_def)
  then have same: "val_type v = val_type w" if "v \<noteq> VNone" "w \<noteq> VNone" using ord(4) e that by auto
  note cmp = evaluate_compare [OF e(1,3) ne]
  have lt: "\<exists>b. cell_less (Val v) (Val w) = Inr b" "\<exists>b. cell_le (Val v) (Val w) = Inr b"
    "\<exists>b. cell_less (Val w) (Val v) = Inr b" "\<exists>b. cell_le (Val w) (Val v) = Inr b" if "v \<noteq> VNone" "w \<noteq> VNone"
    using compare_typed [OF same [OF that] that(1)] compare_typed [OF same [OF that, symmetric] that(2)] by blast+
  from ord(3) consider "oper = u ''<''" | "oper = u ''<=''" | "oper = u ''>''" | "oper = u ''>=''" by (auto simp: order_ops_def)
  then have "\<exists>b. evaluate (BinaryOp oper l r) row = Inr (truth b)"
  proof cases
    case 1 with comparators(3) cmp lt(1) show ?thesis by blast
  next
    case 2 with comparators(4) cmp lt(2) show ?thesis by blast
  next
    case 3 show ?thesis by (rule cmp, simp only: 3 comparators(5)) (rule lt(3))
  next
    case 4 show ?thesis by (rule cmp, simp only: 4 comparators(6)) (rule lt(4))
  qed
  then show ?case by (auto simp: val_type_def simp del: evaluate.simps)
qed (auto simp: val_type_def)

text \<open>The types of the columns of a table under an alias.\<close>

definition column_type :: "col_type \<Rightarrow> etype" where
  "column_type c = (if c = T_TEXT then E_Text else E_Number)"

definition table_types :: "ustring \<Rightarrow> schema \<Rightarrow> col_types" where
  "table_types alias sch name table =
     (if table = None \<or> table = Some alias
      then (case schema_column sch name of Inr c \<Rightarrow> Some (column_type (col_type c)) | Inl _ \<Rightarrow> None) else None)"

lemma decode_value_type: "decode_value data off ty = Inr (v, n) \<Longrightarrow> val_type v = column_type ty"
  by (cases ty) (auto simp: val_type_def column_type_def Let_def elim!: res_bindE)

lemma decode_row_loop_types:
  "decode_row_loop data off cols acc = Inr vs \<Longrightarrow>
     \<exists>ws. vs = acc @ ws \<and> list_all2 (\<lambda>v c. val_type v = column_type (col_type c)) ws cols"
proof (induction data off cols acc rule: decode_row_loop.induct)
  case (2 data offset c cols acc)
  then obtain v n where v: "decode_value data offset (col_type c) = Inr (v, n)"
    and rest: "decode_row_loop data (offset + n) cols (acc @ [v]) = Inr vs" by (auto elim!: res_bindE)
  from "2.IH" [OF rest] obtain ws where "vs = acc @ [v] @ ws" "list_all2 (\<lambda>v c. val_type v = column_type (col_type c)) ws cols"
    by auto
  with decode_value_type [OF v] show ?case by (intro exI [of _ "v # ws"]) simp
qed simp

lemma scanned_row_typed:
  assumes "visible_row sb rid raw = Inr (Some row)" and "plain_schema (sb_schema sb)"
  shows "row_typed (table_types (sb_alias sb) (sb_schema sb)) row"
  unfolding row_typed_def
proof (intro allI impI)
  fix name table t assume G: "table_types (sb_alias sb) (sb_schema sb) name table = Some t"
  let ?sch = "sb_schema sb"
  obtain i where i: "index_of ?sch name = Inr i" and t: "t = column_type (col_type (columns ?sch ! i))" and tab: "table = None \<or> table = Some (sb_alias sb)"
    using G by (auto simp: table_types_def schema_column_def split: if_splits sum.splits elim!: res_bindE)
  have row: "row_from_tuple (sb_alias sb) ?sch rid raw = Inr row"
    using assms(1) by (auto simp: visible_row_def split: if_splits elim!: res_bindE)
  then obtain vs where vs: "decode_row (tuple_payload raw) ?sch = Inr vs" by (auto simp: row_from_tuple_def elim!: res_bindE)
  note R = resolve_row_column [OF row vs assms(2) i]
  have "i < length (columns ?sch)" using i by (auto simp: index_of_def index_of_loop_Inr)
  then have "val_type (vs ! i) = t"
    using decode_row_loop_types [OF vs [unfolded decode_row_def]] t by (auto simp: list_all2_conv_all_nth)
  then show "\<exists>v. resolve_column row name table = Inr (Val v) \<and> val_type v = t" using R tab by auto
qed

text \<open>
  C21: a condition that is well typed for the columns of a table never raises on a row of the table,
  and its value has its type: every visible row that a scan decodes is either kept or dropped.
\<close>

theorem typed_condition_never_raises:
  assumes "typed (table_types (sb_alias sb) (sb_schema sb)) e t" and "plain_schema (sb_schema sb)"
    and "visible_row sb rid raw = Inr (Some row)"
  shows "(\<exists>v. evaluate e row = Inr (Val v) \<and> val_type v = t) \<and> (\<exists>b. holds e row = Inr b)"
  using typed_evaluates [OF assms(1) scanned_row_typed [OF assms(3,2)]] by (auto simp: holds_def)

theorem typed_condition_never_raises_witness:
  "\<exists>b. holds (BinaryOp (u ''<'') (ColumnRef (u ''id'') None) (Literal (VInt 3)))
     [(u ''t.id'', Val (VInt 7)), (u ''id'', Val (VInt 7)), (u ''__rid__'', Rid (RID 0 0))] = Inr b"
proof -
  have G: "table_types (sb_alias id_scan) (sb_schema id_scan) (u ''id'') None = Some E_Number"
    by (simp add: table_types_def id_scan_def id_schema_def schema_column_def index_of_def column_type_def)
  have "typed (table_types (sb_alias id_scan) (sb_schema id_scan)) (BinaryOp (u ''<'') (ColumnRef (u ''id'') None) (Literal (VInt 3))) E_Number"
    by (rule typed.ord, rule typed.col, rule G, rule typed.lit) (simp_all add: order_ops_def val_type_def)
  moreover have "plain_schema (sb_schema id_scan)" by (simp add: plain_schema_def id_scan_def id_schema_def schema_names_def u_def)
  ultimately show ?thesis using typed_condition_never_raises [OF _ _ visible_id_tuple [of 7 "RID 0 0"]] by simp
qed

end
