(* ===== verification/Base64.thy ===== *)
theory Base64
  imports Prelude
begin

text \<open>
  \<^verbatim>\<open>base64.b64encode\<close> and \<^verbatim>\<open>base64.b64decode\<close>, with which the log stores the bytes of a tuple in a
  JSON string. The decoder is the lenient one of the library: it skips characters that are not in
  the alphabet and stops after the padding.
\<close>

section \<open>Alphabet\<close>

definition b64_char :: "nat \<Rightarrow> nat" where
  "b64_char v =
     (if v < 26 then 65 + v else if v < 52 then 97 + (v - 26) else if v < 62 then 48 + (v - 52)
      else if v = 62 then 43 else 47)"

definition b64_value :: "nat \<Rightarrow> nat option" where
  "b64_value c =
     (if 65 \<le> c \<and> c \<le> 90 then Some (c - 65) else if 97 \<le> c \<and> c \<le> 122 then Some (c - 97 + 26)
      else if 48 \<le> c \<and> c \<le> 57 then Some (c - 48 + 52) else if c = 43 then Some 62 else if c = 47 then Some 63 else None)"

lemma b64_value_char: "v < 64 \<Longrightarrow> b64_value (b64_char v) = Some v"
  by (auto simp: b64_value_def b64_char_def)

lemma b64_char_not_pad: "b64_char v \<noteq> 61"
  by (auto simp: b64_char_def)

lemma b64_char_ascii: "b64_char v < 128"
  by (auto simp: b64_char_def)

section \<open>Encoder and decoder\<close>

fun b64encode :: "bytes \<Rightarrow> ustring" where
  "b64encode [] = []"
| "b64encode [a] = [b64_char (unat a div 4), b64_char (unat a mod 4 * 16), 61, 61]"
| "b64encode [a, b] =
     [b64_char (unat a div 4), b64_char (unat a mod 4 * 16 + unat b div 16), b64_char (unat b mod 16 * 4), 61]"
| "b64encode (a # b # c # bs) =
     [b64_char (unat a div 4), b64_char (unat a mod 4 * 16 + unat b div 16),
      b64_char (unat b mod 16 * 4 + unat c div 64), b64_char (unat c mod 64)] @ b64encode bs"

text \<open>
  The loop of the decoder: \<open>quad\<close> characters of the current group of four are read, \<open>left\<close> are the
  bits of the last one that no byte has taken yet, \<open>pads\<close> counts padding characters in a row.
\<close>

fun a2b_base64 :: "nat \<Rightarrow> nat \<Rightarrow> nat \<Rightarrow> ustring \<Rightarrow> bytes res" where
  "a2b_base64 quad left pads [] = (if quad = 0 then Inr [] else Inl ValueError)"
| "a2b_base64 quad left pads (ch # s) =
     (if ch = 61 then
        (if 2 \<le> quad then (if 4 \<le> quad + (pads + 1) then Inr [] else a2b_base64 quad left (pads + 1) s)
         else a2b_base64 quad left pads s)
      else case b64_value ch of
        None \<Rightarrow> a2b_base64 quad left pads s
      | Some v \<Rightarrow>
          if quad = 0 then a2b_base64 1 v 0 s
          else if quad = 1 then res_bind (a2b_base64 2 (v mod 16) 0 s) (\<lambda>bs. Inr (word_of_nat (left * 4 + v div 16) # bs))
          else if quad = 2 then res_bind (a2b_base64 3 (v mod 4) 0 s) (\<lambda>bs. Inr (word_of_nat (left * 16 + v div 4) # bs))
          else res_bind (a2b_base64 0 0 0 s) (\<lambda>bs. Inr (word_of_nat (left * 64 + v) # bs)))"

definition b64decode :: "ustring \<Rightarrow> bytes res" where
  "b64decode s = (if list_all (\<lambda>c. c < 128) s then a2b_base64 0 0 0 s else Inl ValueError)"

section \<open>Round trip\<close>

lemma byte_parts: "unat (a :: byte) div 4 < 64" "unat a div 16 < 16" "unat a div 64 < 4"
  using unat_byte_bound [of a] by (simp_all add: less_mult_imp_div_less)

lemma sextets:
  "x < 4 \<Longrightarrow> y < 16 \<Longrightarrow> x * 16 + y < (64 :: nat)" "x < 16 \<Longrightarrow> y < 4 \<Longrightarrow> x * 4 + y < (64 :: nat)"
  by linarith+

lemma b64decode_char: "v < 64 \<Longrightarrow> a2b_base64 quad left pads (b64_char v # s) =
   (if quad = 0 then a2b_base64 1 v 0 s
    else if quad = 1 then res_bind (a2b_base64 2 (v mod 16) 0 s) (\<lambda>bs. Inr (word_of_nat (left * 4 + v div 16) # bs))
    else if quad = 2 then res_bind (a2b_base64 3 (v mod 4) 0 s) (\<lambda>bs. Inr (word_of_nat (left * 16 + v div 4) # bs))
    else res_bind (a2b_base64 0 0 0 s) (\<lambda>bs. Inr (word_of_nat (left * 64 + v) # bs)))"
  by (simp only: a2b_base64.simps b64_value_char b64_char_not_pad if_False option.case)

lemma join_first: "y < 16 \<Longrightarrow> n div 4 * 4 + (n mod 4 * 16 + y) div 16 = (n :: nat)"
  by (simp add: div_mult_mod_eq)

lemma join_second: "z < 4 \<Longrightarrow> (m * 16 + n div 16) mod 16 * 16 + (n mod 16 * 4 + z) div 4 = (n :: nat)" if "n < 256"
  using that by (simp add: less_mult_imp_div_less)

lemma join_third: "(m * 4 + n div 64) mod 4 * 64 + n mod 64 = (n :: nat)" if "n < 256"
  using that by (simp add: less_mult_imp_div_less)

lemma a2b_encode: "a2b_base64 0 0 0 (b64encode bs) = Inr bs"
proof (induction bs rule: b64encode.induct)
  case (2 a)
  then show ?case using byte_parts [of a] sextets(1) [of "unat a mod 4" 0] join_first [of 0 "unat a"]
    by (simp add: b64decode_char del: a2b_base64.simps(2)) (simp add: b64_value_char b64_char_not_pad)
next
  case (3 a b)
  then show ?case using byte_parts [of a] byte_parts [of b] sextets(1) [of "unat a mod 4" "unat b div 16"]
      join_first [of "unat b div 16" "unat a"] join_second [of "unat b" 0 "unat a mod 4"]
    by (simp add: b64decode_char del: a2b_base64.simps(2)) (simp add: b64_value_char b64_char_not_pad)
next
  case (4 a b c bs)
  then show ?case using byte_parts [of a] byte_parts [of b] byte_parts [of c] sextets(1) [of "unat a mod 4" "unat b div 16"]
      sextets(2) [of "unat b mod 16" "unat c div 64"]
      join_first [of "unat b div 16" "unat a"] join_second [of "unat b" "unat c div 64" "unat a mod 4"] join_third [of "unat c" "unat b mod 16"]
    by (simp add: b64decode_char del: a2b_base64.simps(2))
qed simp

lemma b64encode_ascii: "list_all (\<lambda>c. c < 128) (b64encode bs)"
  by (induction bs rule: b64encode.induct) (simp_all add: b64_char_ascii)

lemma b64_roundtrip: "b64decode (b64encode bs) = Inr bs"
  by (simp add: b64decode_def b64encode_ascii a2b_encode)

end
