(* ===== verification/Database.thy ===== *)
theory Database
  imports Planner Sql_Parser Base64
begin

text \<open>
  The database (\<^verbatim>\<open>database.py\<close>): opening with recovery, checkpoints, closing, and the execution of
  SQL statements. The state is the catalog with its buffer pool and disk, and the transaction
  manager with its log. Heap and tree objects are local to the methods; when one of them raises,
  the objects are gone and the pages remain as they are.

  The fuel is that of the query executor.
\<close>

section \<open>State\<close>

record exec_result =
  er_rows :: "row list option"
  er_row_count :: nat
  er_message :: ustring

definition er_iter :: "exec_result \<Rightarrow> row list" where
  "er_iter r = (case er_rows r of None \<Rightarrow> [] | Some rows \<Rightarrow> rows)"

definition er_len :: "exec_result \<Rightarrow> nat" where
  "er_len r = length (er_iter r)"

record database =
  db_catalog :: catalog
  db_mgr :: txn_mgr

definition on_catalog :: "(catalog, 'a) py \<Rightarrow> (database, 'a) py" where
  "on_catalog m = py_zoom db_catalog (\<lambda>c db. db\<lparr>db_catalog := c\<rparr>) m"

definition on_mgr :: "(txn_mgr, 'a) py \<Rightarrow> (database, 'a) py" where
  "on_mgr m = py_zoom db_mgr (\<lambda>tm db. db\<lparr>db_mgr := tm\<rparr>) m"

definition on_db_pool :: "(pool, 'a) py \<Rightarrow> (database, 'a) py" where
  "on_db_pool m = on_catalog (on_cat_pool m)"

text \<open>Methods that change the heap or tree object: they return the object too.\<close>

definition heap_do :: "nat \<times> nat \<Rightarrow> (heapfile, 'a) py \<Rightarrow> (pool, 'a \<times> nat \<times> nat) py" where
  "heap_do = (\<lambda>(first, last) m b.
     case m \<lparr>hf_first = first, hf_last = last, hf_pool = b\<rparr> of
       (Inl e, h) \<Rightarrow> (Inl e, hf_pool h)
     | (Inr x, h) \<Rightarrow> (Inr (x, hf_first h, hf_last h), hf_pool h))"

definition tree_add :: "btconf \<times> nat \<Rightarrow> pyval \<Rightarrow> rid \<Rightarrow> (pool, btconf \<times> nat) py" where
  "tree_add = (\<lambda>(c, root) key rid b.
     case bt_insert key rid \<lparr>bt_pool = b, bt_conf = c, bt_root = root\<rparr> of
       (Inl e, t) \<Rightarrow> (Inl e, bt_pool t)
     | (Inr _, t) \<Rightarrow> (Inr (bt_conf t, bt_root t), bt_pool t))"

text \<open>\<^verbatim>\<open>try: m except Exception: h; raise\<close>\<close>

definition py_on_error :: "('s, 'a) py \<Rightarrow> ('s, unit) py \<Rightarrow> ('s, 'a) py" where
  "py_on_error m h = (\<lambda>s. case m s of
       (Inl e, s') \<Rightarrow> (case h s' of (Inl e', s'') \<Rightarrow> (Inl e', s'') | (Inr _, s'') \<Rightarrow> (Inl e, s''))
     | (Inr x, s') \<Rightarrow> (Inr x, s'))"

section \<open>Recovery\<close>

definition json_rid :: "json \<Rightarrow> rid res" where
  "json_rid j =
     (case j of
        JArr (p # s # _) \<Rightarrow> res_bind (j_nat p) (\<lambda>page_id. res_bind (j_nat s) (\<lambda>slot_id. Inr (RID page_id slot_id)))
      | JArr _ \<Rightarrow> Inl IndexError
      | _ \<Rightarrow> Inl TypeError)"

definition rid_json :: "rid \<Rightarrow> json" where
  "rid_json r = JArr [JInt (int (rid_page_id r)), JInt (int (rid_slot_id r))]"

text \<open>Keys are written by \<^verbatim>\<open>json.dumps\<close> and read back; they are numbers, strings or null.\<close>

fun json_key :: "json \<Rightarrow> pyval res" where
  "json_key JNull = Inr VNone"
| "json_key (JBool b) = Inr (VBool b)"
| "json_key (JInt i) = Inr (VInt i)"
| "json_key (JFloat f) = Inr (VFloat f)"
| "json_key (JStr s) = Inr (VStr s)"
| "json_key _ = Inl TypeError"

fun key_json :: "pyval \<Rightarrow> json" where
  "key_json VNone = JNull"
| "key_json (VBool b) = JBool b"
| "key_json (VInt i) = JInt i"
| "key_json (VFloat f) = JFloat f"
| "key_json (VStr s) = JStr s"

definition redo_heap_insert :: "table_meta \<Rightarrow> json \<Rightarrow> (database, unit) py" where
  "redo_heap_insert table op =
     py_bind (on_catalog (open_heap table)) (\<lambda>heap.
     py_bind (py_lift (res_bind (res_bind (j_item (u ''tuple'') op) j_str) b64decode)) (\<lambda>tup.
     py_seq (on_db_pool (heap_do heap (heap_insert tup))) (py_return ())))"

definition redo_set_xmax :: "table_meta \<Rightarrow> json \<Rightarrow> (database, unit) py" where
  "redo_set_xmax table op =
     py_bind (on_catalog (open_heap table)) (\<lambda>heap.
     py_bind (py_lift (res_bind (j_item (u ''rid'') op) json_rid)) (\<lambda>rid.
     py_bind (on_db_pool (with_heap heap (heap_get rid))) (\<lambda>raw.
       case raw of
         None \<Rightarrow> py_return ()
       | Some raw \<Rightarrow>
           py_bind (py_lift (res_bind (res_bind (j_item (u ''xmax'') op) j_nat) (with_xmax raw))) (\<lambda>raw'.
           py_seq (on_db_pool (with_heap heap (heap_update_in_place rid raw'))) (py_return ())))))"

definition redo_btree_insert :: "table_meta \<Rightarrow> json \<Rightarrow> (database, unit) py" where
  "redo_btree_insert table op =
     py_bind (py_lift (res_bind (j_item (u ''index'') op) j_str)) (\<lambda>index.
       case map_of (tb_indexes table) index of
         None \<Rightarrow> py_raise KeyError
       | Some idx_meta \<Rightarrow>
           py_bind (on_catalog (open_index idx_meta False)) (\<lambda>tree.
           py_bind (py_lift (res_bind (j_item (u ''key'') op) json_key)) (\<lambda>key.
           py_bind (py_lift (res_bind (j_item (u ''rid'') op) json_rid)) (\<lambda>rid.
           py_bind (on_db_pool (tree_add tree key rid)) (\<lambda>tree'.
           on_catalog (update_index_root (tb_name table) index (snd tree')))))))"

definition apply_recovery_op :: "json \<Rightarrow> (database, unit) py" where
  "apply_recovery_op op =
     py_bind (py_lift (res_bind (j_item (u ''table'') op) j_str)) (\<lambda>name.
     py_bind (on_catalog (get_table name)) (\<lambda>table.
     py_bind (py_lift (j_item (u ''kind'') op)) (\<lambda>kind.
       if kind = JStr (u ''heap_insert'') then redo_heap_insert table op
       else if kind = JStr (u ''heap_set_xmax'') then redo_set_xmax table op
       else if kind = JStr (u ''btree_insert'') then redo_btree_insert table op
       else py_raise ValueError)))"

definition db_recover :: "(database, unit) py" where
  "db_recover =
     py_bind (py_gets (\<lambda>db. wl_bytes (tm_wal (db_mgr db)))) (\<lambda>file.
     py_bind (py_lift (committed_operations_since_checkpoint file)) (\<lambda>records.
     py_seq (py_for records (\<lambda>r. apply_recovery_op (lr_payload r)))
    (py_bind (py_gets (\<lambda>db. cat_pool (db_catalog db))) (\<lambda>b.
       if bp_disk_writes b \<noteq> 0 \<or> bp_disk_reads b \<noteq> 0 then on_db_pool flush_all else py_return ()))))"

text \<open>The constructor up to recovery, on the three files, and then with recovery.\<close>

definition database_start :: "bytes option \<Rightarrow> ustring option \<Rightarrow> bytes option \<Rightarrow> nat \<Rightarrow> database res" where
  "database_start data_file catalog_file wal_file buffer_pool_size =
     (let pool = pool_init (disk_open data_file) buffer_pool_size
      in res_bind (catalog_open pool catalog_file) (\<lambda>cat.
         let wal = wal_open wal_file
         in res_bind (next_txn_id_after_recovery (wl_bytes wal)) (\<lambda>next_id.
            res_bind (uncommitted_txn_ids_since_checkpoint (wl_bytes wal)) (\<lambda>aborted.
            Inr \<lparr>db_catalog = cat, db_mgr = tm_init wal next_id (Some aborted)\<rparr>))))"

definition database_open :: "bytes option \<Rightarrow> ustring option \<Rightarrow> bytes option \<Rightarrow> nat \<Rightarrow> database res" where
  "database_open data_file catalog_file wal_file buffer_pool_size =
     res_bind (database_start data_file catalog_file wal_file buffer_pool_size) (\<lambda>db.
       case db_recover db of (Inl e, _) \<Rightarrow> Inl e | (Inr _, db') \<Rightarrow> Inr db')"

definition db_checkpoint :: "(database, unit) py" where
  "db_checkpoint =
     py_bind (py_gets (\<lambda>db. has_active_transactions (db_mgr db))) (\<lambda>active.
       if active then py_raise RuntimeError
       else py_seq (on_db_pool flush_all) (py_seq (on_mgr (on_wal log_checkpoint)) (py_return ())))"

definition db_close :: "(database, unit) py" where
  "db_close = py_seq (on_db_pool flush_all) (py_seq (on_db_pool (on_disk disk_close)) (on_mgr (on_wal wal_close)))"

definition db_begin :: "(database, transaction) py" where
  "db_begin = on_mgr tm_begin"

section \<open>Definition of tables and indexes\<close>

definition message_result :: "ustring \<Rightarrow> exec_result" where
  "message_result m = \<lparr>er_rows = None, er_row_count = 0, er_message = m\<rparr>"

definition count_result :: "string \<Rightarrow> nat \<Rightarrow> exec_result" where
  "count_result verb n = \<lparr>er_rows = None, er_row_count = n, er_message = u verb @ 32 # nat_digits n\<rparr>"

definition def_column :: "column_def \<Rightarrow> column res" where
  "def_column c = res_bind (col_type_of (cd_type c)) (\<lambda>t. Inr \<lparr>col_name = cd_name c, col_type = t\<rparr>)"

definition execute_create_table :: "ustring \<Rightarrow> column_def list \<Rightarrow> (database, exec_result) py" where
  "execute_create_table table cols =
     py_bind (py_lift (res_map def_column cols)) (\<lambda>cs.
     py_seq (on_catalog (create_table table \<lparr>columns = cs\<rparr>))
            (py_return (message_result (u ''CREATE TABLE '' @ table))))"

text \<open>The loop over \<^verbatim>\<open>heap.scan()\<close>, which holds its page while the tree is changed.\<close>

fun fill_index :: "nat \<Rightarrow> schema \<Rightarrow> nat \<Rightarrow> heap_iter \<Rightarrow> btconf \<times> nat \<Rightarrow> (pool, btconf \<times> nat) py" where
  "fill_index 0 sch col_index it tree = py_raise Diverges"
| "fill_index (Suc k) sch col_index it tree =
     py_bind (scan_next k it) (\<lambda>(x, it').
       case x of
         None \<Rightarrow> py_return tree
       | Some (rid, raw) \<Rightarrow>
           py_bind (py_lift (decode_row (tuple_payload raw) sch)) (\<lambda>values.
             if col_index < length values
             then py_bind (tree_add tree (values ! col_index) rid) (fill_index k sch col_index it')
             else py_raise IndexError))"

definition execute_create_index :: "nat \<Rightarrow> ustring \<Rightarrow> ustring \<Rightarrow> ustring \<Rightarrow> bool \<Rightarrow> (database, exec_result) py" where
  "execute_create_index k index_name table_name column uniq =
     py_bind (on_catalog (get_table table_name)) (\<lambda>table.
     py_bind (on_catalog (create_index table_name index_name column uniq)) (\<lambda>meta.
     py_bind (on_catalog (open_heap table)) (\<lambda>heap.
     py_bind (on_catalog (open_index meta False)) (\<lambda>tree.
     py_bind (py_lift (index_of (tb_schema table) column)) (\<lambda>col_index.
     py_bind (on_db_pool (fill_index k (tb_schema table) col_index (Scan_Page (fst heap)) tree)) (\<lambda>tree'.
     py_seq (on_catalog (update_index_root table_name index_name (snd tree')))
            (py_return (message_result (u ''CREATE INDEX '' @ index_name)))))))))"

section \<open>Rows to insert\<close>

text \<open>An expression on the empty row has no row id as its value.\<close>

definition cell_value :: "cell \<Rightarrow> pyval res" where
  "cell_value c = (case c of Val v \<Rightarrow> Inr v | Rid _ \<Rightarrow> Inl TypeError)"

definition constant_value :: "expr \<Rightarrow> pyval res" where
  "constant_value e = res_bind (evaluate e []) cell_value"

text \<open>\<^verbatim>\<open>[value_map[name] for name in names]\<close>\<close>

definition pick_values :: "ustring list \<Rightarrow> (ustring \<times> pyval) list \<Rightarrow> pyval list res" where
  "pick_values names value_map =
     res_map (\<lambda>n. case map_of value_map n of Some v \<Rightarrow> Inr v | None \<Rightarrow> Inl KeyError) names"

definition resolve_row :: "ustring list \<Rightarrow> ustring list \<Rightarrow> expr list \<Rightarrow> pyval list res" where
  "resolve_row names cols row_exprs =
     (if length row_exprs \<noteq> length cols then Inl ValueError
      else
        res_bind (res_map (\<lambda>(name, e). res_bind (constant_value e) (\<lambda>v. Inr (name, v))) (zip cols row_exprs)) (\<lambda>es.
        let value_map = to_dict es
        in if list_ex (\<lambda>c. map_of value_map c = None) names then Inl ValueError
           else pick_values names value_map))"

definition resolve_insert_values :: "ustring list option \<Rightarrow> expr list list \<Rightarrow> schema \<Rightarrow> pyval list list res" where
  "resolve_insert_values stmt_columns rows sch =
     (let cols = (case stmt_columns of Some cs \<Rightarrow> if cs \<noteq> [] then cs else schema_names sch | None \<Rightarrow> schema_names sch)
      in res_map (resolve_row (schema_names sch) cols) rows)"

section \<open>Indexes of a changed row\<close>

definition db_heap_get :: "nat \<times> nat \<Rightarrow> rid \<Rightarrow> (database, bytes option) py" where
  "db_heap_get heap rid = on_db_pool (with_heap heap (heap_get rid))"

fun unique_loop :: "transaction \<Rightarrow> nat \<times> nat \<Rightarrow> rid option \<Rightarrow> rid list \<Rightarrow> (database, unit) py" where
  "unique_loop txn heap exclude_rid [] = py_return ()"
| "unique_loop txn heap exclude_rid (rid # rids) =
     (if exclude_rid = Some rid then unique_loop txn heap exclude_rid rids
      else
        py_bind (db_heap_get heap rid) (\<lambda>raw.
          case raw of
            None \<Rightarrow> unique_loop txn heap exclude_rid rids
          | Some raw \<Rightarrow>
              py_bind (py_lift (unpack_tuple_header raw)) (\<lambda>(xmin, xmax).
              py_bind (py_gets db_mgr) (\<lambda>mgr.
                if is_visible mgr xmin xmax (tx_snapshot txn) then py_raise DuplicateKeyError
                else unique_loop txn heap exclude_rid rids))))"

definition check_unique_constraint :: "index_meta \<Rightarrow> pyval \<Rightarrow> transaction \<Rightarrow> nat \<times> nat \<Rightarrow> rid option \<Rightarrow> (database, unit) py" where
  "check_unique_constraint idx_meta key txn heap exclude_rid =
     (if \<not> im_unique idx_meta then py_return ()
      else
        py_bind (on_catalog (open_index idx_meta False)) (\<lambda>tree.
        py_bind (on_db_pool (with_tree tree (bt_search key))) (unique_loop txn heap exclude_rid)))"

definition db_log :: "transaction \<Rightarrow> string \<Rightarrow> (ustring \<times> json) list \<Rightarrow> (database, unit) py" where
  "db_log txn kind kwargs = on_mgr (txn_log_operation txn (u kind) kwargs)"

definition index_row :: "table_meta \<Rightarrow> transaction \<Rightarrow> (ustring \<times> pyval) list \<Rightarrow> rid \<Rightarrow> nat \<times> nat \<Rightarrow> rid option \<Rightarrow>
    ustring \<times> index_meta \<Rightarrow> (database, unit) py" where
  "index_row table txn value_map rid heap exclude_rid = (\<lambda>(idx_name, idx_meta).
     case map_of value_map (im_column idx_meta) of
       None \<Rightarrow> py_raise KeyError
     | Some key \<Rightarrow>
         py_seq (check_unique_constraint idx_meta key txn heap exclude_rid)
        (py_bind (on_catalog (open_index idx_meta False)) (\<lambda>tree.
         py_bind (on_db_pool (tree_add tree key rid)) (\<lambda>tree'.
         py_seq (on_catalog (update_index_root (tb_name table) idx_name (snd tree')))
                (db_log txn ''btree_insert''
                   [(u ''table'', JStr (tb_name table)), (u ''index'', JStr idx_name), (u ''key'', key_json key),
                    (u ''rid'', rid_json rid)])))))"

text \<open>
  \<^verbatim>\<open>table\<close> is the catalog's own object, so its indexes have the roots that earlier rows left. The
  loop changes the root of one index after the other.
\<close>

definition insert_into_indexes :: "table_meta \<Rightarrow> transaction \<Rightarrow> (ustring \<times> pyval) list \<Rightarrow> rid \<Rightarrow> nat \<times> nat \<Rightarrow> rid option \<Rightarrow>
    (database, unit) py" where
  "insert_into_indexes table txn value_map rid heap exclude_rid =
     py_bind (py_gets (\<lambda>db. map_of (cat_tables (db_catalog db)) (tb_name table))) (\<lambda>t.
     py_for (case t of Some meta \<Rightarrow> tb_indexes meta | None \<Rightarrow> tb_indexes table)
       (index_row table txn value_map rid heap exclude_rid))"

section \<open>Statements on rows\<close>

text \<open>A new row version: its tuple goes to the heap and to the log. Returns its id and the heap.\<close>

definition insert_version :: "table_meta \<Rightarrow> transaction \<Rightarrow> nat \<times> nat \<Rightarrow> pyval list \<Rightarrow> (database, rid \<times> nat \<times> nat) py" where
  "insert_version table txn heap values =
     py_bind (py_lift (encode_row values (tb_schema table))) (\<lambda>payload.
     py_bind (py_lift (pack_tuple (tx_id txn) INFINITY_TXN payload)) (\<lambda>tup.
     py_bind (on_db_pool (heap_do heap (heap_insert tup))) (\<lambda>(rid, heap').
     py_seq (db_log txn ''heap_insert''
               [(u ''table'', JStr (tb_name table)), (u ''tuple'', JStr (b64encode tup)), (u ''rid'', rid_json rid)])
            (py_return (rid, heap')))))"

fun insert_rows :: "table_meta \<Rightarrow> transaction \<Rightarrow> nat \<times> nat \<Rightarrow> pyval list list \<Rightarrow> nat \<Rightarrow> (database, nat) py" where
  "insert_rows table txn heap [] n = py_return n"
| "insert_rows table txn heap (values # rows) n =
     py_bind (insert_version table txn heap values) (\<lambda>(rid, heap').
     py_seq (insert_into_indexes table txn (to_dict (zip (schema_names (tb_schema table)) values)) rid heap' None)
            (insert_rows table txn heap' rows (n + 1)))"

definition execute_insert :: "ustring \<Rightarrow> ustring list option \<Rightarrow> expr list list \<Rightarrow> transaction \<Rightarrow> (database, exec_result) py" where
  "execute_insert table_name cols row_exprs txn =
     py_bind (on_catalog (get_table table_name)) (\<lambda>table.
     py_bind (on_catalog (open_heap table)) (\<lambda>heap.
     py_bind (py_lift (resolve_insert_values cols row_exprs (tb_schema table))) (\<lambda>rows.
     py_bind (insert_rows table txn heap rows 0) (\<lambda>n.
     py_return (count_result ''INSERT'' n)))))"

definition execute_select :: "nat \<Rightarrow> select_stmt \<Rightarrow> transaction \<Rightarrow> (database, exec_result) py" where
  "execute_select k stmt txn =
     py_bind (py_gets db_mgr) (\<lambda>mgr.
     py_bind (on_catalog (build_select_plan stmt txn mgr)) (\<lambda>plan.
     py_bind (on_db_pool (run_plan k plan)) (\<lambda>rows.
     py_return (count_result ''SELECT'' (length rows)\<lparr>er_rows := Some rows\<rparr>))))"

text \<open>The rows that a condition selects, as \<^verbatim>\<open>UPDATE\<close> and \<^verbatim>\<open>DELETE\<close> find them before they change any.\<close>

definition matching_rows :: "nat \<Rightarrow> ustring \<Rightarrow> expr option \<Rightarrow> transaction \<Rightarrow> (database, row list) py" where
  "matching_rows k table_name cond txn =
     py_bind (py_gets db_mgr) (\<lambda>mgr.
     py_bind (on_catalog (build_row_source_plan table_name table_name cond txn mgr)) (\<lambda>plan.
     on_db_pool (run_plan k plan)))"

definition row_rid :: "row \<Rightarrow> rid res" where
  "row_rid row = (case map_of row (u ''__rid__'') of Some (Rid r) \<Rightarrow> Inr r | Some _ \<Rightarrow> Inl AttributeError | None \<Rightarrow> Inl KeyError)"

text \<open>The conflict check on the current version, and stamping it as deleted.\<close>

definition check_conflict :: "transaction \<Rightarrow> bytes \<Rightarrow> (database, unit) py" where
  "check_conflict txn raw =
     py_bind (py_lift (unpack_tuple_header raw)) (\<lambda>(xmin, xmax). on_mgr (check_write_conflict txn xmax))"

definition stamp_deleted :: "table_meta \<Rightarrow> transaction \<Rightarrow> nat \<times> nat \<Rightarrow> rid \<Rightarrow> bytes \<Rightarrow> (database, unit) py" where
  "stamp_deleted table txn heap rid raw =
     py_bind (py_lift (with_xmax raw (tx_id txn))) (\<lambda>raw'.
     py_seq (on_db_pool (with_heap heap (heap_update_in_place rid raw')))
            (db_log txn ''heap_set_xmax''
               [(u ''table'', JStr (tb_name table)), (u ''rid'', rid_json rid), (u ''xmax'', JInt (int (tx_id txn)))]))"

fun assign_values :: "(ustring \<times> expr) list \<Rightarrow> (ustring \<times> pyval) list \<Rightarrow> (ustring \<times> pyval) list res" where
  "assign_values [] value_map = Inr value_map"
| "assign_values ((col, e) # assigns) value_map =
     res_bind (constant_value e) (\<lambda>v. assign_values assigns (dict_set col v value_map))"

definition update_version :: "table_meta \<Rightarrow> transaction \<Rightarrow> (ustring \<times> expr) list \<Rightarrow> nat \<times> nat \<Rightarrow> rid \<Rightarrow> bytes \<Rightarrow>
    (database, nat \<times> nat) py" where
  "update_version table txn assigns heap rid raw =
     py_seq (check_conflict txn raw)
    (py_bind (py_lift (decode_row (tuple_payload raw) (tb_schema table))) (\<lambda>old_values.
     py_bind (py_lift (assign_values assigns (to_dict (zip (schema_names (tb_schema table)) old_values)))) (\<lambda>value_map.
     py_bind (py_lift (pick_values (schema_names (tb_schema table)) value_map)) (\<lambda>new_values.
     py_seq (stamp_deleted table txn heap rid raw)
    (py_bind (insert_version table txn heap new_values) (\<lambda>(new_rid, heap').
     py_seq (insert_into_indexes table txn value_map new_rid heap' (Some rid))
            (py_return heap')))))))"

fun update_rows :: "table_meta \<Rightarrow> transaction \<Rightarrow> (ustring \<times> expr) list \<Rightarrow> nat \<times> nat \<Rightarrow> row list \<Rightarrow> nat \<Rightarrow> (database, nat) py" where
  "update_rows table txn assigns heap [] n = py_return n"
| "update_rows table txn assigns heap (row # rows) n =
     py_bind (py_lift (row_rid row)) (\<lambda>rid.
     py_bind (db_heap_get heap rid) (\<lambda>raw.
       case raw of
         None \<Rightarrow> update_rows table txn assigns heap rows n
       | Some raw \<Rightarrow>
           py_bind (update_version table txn assigns heap rid raw) (\<lambda>heap'.
           update_rows table txn assigns heap' rows (n + 1))))"

definition execute_update :: "nat \<Rightarrow> ustring \<Rightarrow> (ustring \<times> expr) list \<Rightarrow> expr option \<Rightarrow> transaction \<Rightarrow> (database, exec_result) py" where
  "execute_update k table_name assigns cond txn =
     py_bind (on_catalog (get_table table_name)) (\<lambda>table.
     py_bind (on_catalog (open_heap table)) (\<lambda>heap.
     py_bind (matching_rows k table_name cond txn) (\<lambda>matches.
     py_bind (update_rows table txn assigns heap matches 0) (\<lambda>n.
     py_return (count_result ''UPDATE'' n)))))"

fun delete_rows :: "table_meta \<Rightarrow> transaction \<Rightarrow> nat \<times> nat \<Rightarrow> row list \<Rightarrow> nat \<Rightarrow> (database, nat) py" where
  "delete_rows table txn heap [] n = py_return n"
| "delete_rows table txn heap (row # rows) n =
     py_bind (py_lift (row_rid row)) (\<lambda>rid.
     py_bind (db_heap_get heap rid) (\<lambda>raw.
       case raw of
         None \<Rightarrow> delete_rows table txn heap rows n
       | Some raw \<Rightarrow>
           py_seq (check_conflict txn raw)
          (py_seq (stamp_deleted table txn heap rid raw)
                  (delete_rows table txn heap rows (n + 1)))))"

definition execute_delete :: "nat \<Rightarrow> ustring \<Rightarrow> expr option \<Rightarrow> transaction \<Rightarrow> (database, exec_result) py" where
  "execute_delete k table_name cond txn =
     py_bind (on_catalog (get_table table_name)) (\<lambda>table.
     py_bind (on_catalog (open_heap table)) (\<lambda>heap.
     py_bind (matching_rows k table_name cond txn) (\<lambda>matches.
     py_bind (delete_rows table txn heap matches 0) (\<lambda>n.
     py_return (count_result ''DELETE'' n)))))"

section \<open>Execution\<close>

text \<open>\<^verbatim>\<open>execute\<close> passes no transaction only for the two statements that define tables and indexes.\<close>

definition needs_txn :: "transaction option \<Rightarrow> (transaction \<Rightarrow> (database, 'a) py) \<Rightarrow> (database, 'a) py" where
  "needs_txn txn f = (case txn of Some t \<Rightarrow> f t | None \<Rightarrow> py_raise AttributeError)"

definition dispatch :: "nat \<Rightarrow> statement \<Rightarrow> transaction option \<Rightarrow> (database, exec_result) py" where
  "dispatch k stmt txn =
     (case stmt of
        CreateTable table cols \<Rightarrow> execute_create_table table cols
      | CreateIndex index_name table column uniq \<Rightarrow> execute_create_index k index_name table column uniq
      | Insert table cols rows \<Rightarrow> needs_txn txn (execute_insert table cols rows)
      | Select sel \<Rightarrow> needs_txn txn (execute_select k sel)
      | Update table assigns cond \<Rightarrow> needs_txn txn (execute_update k table assigns cond)
      | Delete table cond \<Rightarrow> needs_txn txn (execute_delete k table cond))"

definition is_ddl :: "statement \<Rightarrow> bool" where
  "is_ddl stmt \<longleftrightarrow> (case stmt of CreateTable _ _ \<Rightarrow> True | CreateIndex _ _ _ _ \<Rightarrow> True | _ \<Rightarrow> False)"

text \<open>A transaction that \<^verbatim>\<open>execute\<close> begins itself is seen by nobody else, so its end is only that of the manager.\<close>

definition execute :: "nat \<Rightarrow> ustring \<Rightarrow> transaction option \<Rightarrow> (database, exec_result) py" where
  "execute k sql txn =
     py_bind (py_lift (parse sql)) (\<lambda>stmt.
       if txn = None \<and> \<not> is_ddl stmt then
         py_bind db_begin (\<lambda>own.
         py_bind (py_on_error (dispatch k stmt (Some own)) (py_seq (on_mgr (tm_abort own)) (py_return ()))) (\<lambda>result.
         py_seq (on_mgr (tm_commit own)) (py_return result)))
       else dispatch k stmt txn)"

end
