(* ===== verification/Database_Laws.thy ===== *)
theory Database_Laws
  imports Database
begin

text \<open>
  Laws of the database: what the statements do to the transaction manager and to the log, how a
  statement ends its own transaction, and what recovery finds of it after a crash.
\<close>

section \<open>What a statement logs\<close>

text \<open>
  Code that runs for transaction \<open>x\<close> only appends operation records of \<open>x\<close> to the log and leaves
  the rest of the transaction manager as it is, whether it returns or raises.
\<close>

fun op_of :: "nat \<Rightarrow> log_entry \<Rightarrow> bool" where
  "op_of x (rt, y, p) \<longleftrightarrow> rt = R_OP \<and> y = x \<and> length (payload_bytes p) < 2 ^ 32"

definition logged :: "log_entry list \<Rightarrow> txn_mgr \<Rightarrow> txn_mgr" where
  "logged ops tm = tm\<lparr>tm_wal := (tm_wal tm)\<lparr>wl_bytes := wl_bytes (tm_wal tm) @ log_bytes ops\<rparr>\<rparr>"

definition logs :: "nat \<Rightarrow> (database, 'a) py \<Rightarrow> bool" where
  "logs x m \<longleftrightarrow> (\<forall>db. \<not> wl_closed (tm_wal (db_mgr db)) \<longrightarrow>
     (\<exists>ops. list_all (op_of x) ops \<and> db_mgr (snd (m db)) = logged ops (db_mgr db)))"

named_theorems logs_rules "what code logs, by its structure"

lemma op_ofD: "op_of x e \<Longrightarrow> fst e = R_OP \<and> fst (snd e) = x"
  by (cases e) simp

lemma logged_Nil [simp]: "logged [] tm = tm"
  by (simp add: logged_def log_bytes_def)

lemma logged_append: "logged b (logged a tm) = logged (a @ b) tm"
  by (simp add: logged_def log_bytes_def)

lemma logged_simps [simp]:
  "wl_closed (tm_wal (logged ops tm)) = wl_closed (tm_wal tm)" "tm_next_txn_id (logged ops tm) = tm_next_txn_id tm"
  "tm_active_xids (logged ops tm) = tm_active_xids tm" "tm_aborted_xids (logged ops tm) = tm_aborted_xids tm"
  by (simp_all add: logged_def)

lemma logs_same: "(\<And>db. db_mgr (snd (m db)) = db_mgr db) \<Longrightarrow> logs x m"
  unfolding logs_def by (intro allI impI exI [of _ "[]"]) simp

lemma logs_pure [logs_rules]:
  "logs x (py_return a)" "logs x (py_raise e)" "logs x (py_lift r)" "logs x (py_gets f)" "logs x (on_catalog m)" "logs x (on_db_pool n)"
  by (rule logs_same; simp add: py_return_def py_raise_def py_lift_def py_gets_def on_db_pool_def on_catalog_def py_zoom_def split: prod.splits)+

lemma logs_bind [logs_rules]:
  assumes "logs x m" and "\<And>a. logs x (f a)"
  shows "logs x (py_bind m f)"
  unfolding logs_def
proof (intro allI impI)
  fix db :: database assume open': "\<not> wl_closed (tm_wal (db_mgr db))"
  then obtain ops where m: "list_all (op_of x) ops" "db_mgr (snd (m db)) = logged ops (db_mgr db)"
    using assms(1) by (auto simp: logs_def)
  show "\<exists>ops. list_all (op_of x) ops \<and> db_mgr (snd (py_bind m f db)) = logged ops (db_mgr db)"
  proof (cases "m db")
    case (Pair r db1)
    show ?thesis
    proof (cases r)
      case (Inl e)
      with Pair m show ?thesis by (auto simp: py_bind_def)
    next
      case (Inr a)
      have "\<not> wl_closed (tm_wal (db_mgr db1))" using open' m(2) Pair by simp
      then obtain ops' where "list_all (op_of x) ops'" "db_mgr (snd (f a db1)) = logged ops' (db_mgr db1)"
        using assms(2) [of a] unfolding logs_def by blast
      then show ?thesis using m Pair Inr by (intro exI [of _ "ops @ ops'"]) (simp add: py_bind_def logged_append)
    qed
  qed
qed

lemma logs_seq [logs_rules]: "logs x m \<Longrightarrow> logs x n \<Longrightarrow> logs x (py_seq m n)"
  by (simp add: py_seq_def logs_bind)

lemma logs_if [logs_rules]: "logs x m \<Longrightarrow> logs x n \<Longrightarrow> logs x (if b then m else n)"
  by simp

lemma logs_case_option [logs_rules]: "logs x m \<Longrightarrow> (\<And>a. logs x (f a)) \<Longrightarrow> logs x (case y of None \<Rightarrow> m | Some a \<Rightarrow> f a)"
  by (cases y) simp_all

lemma logs_case_prod [logs_rules]: "(\<And>a b. logs x (f a b)) \<Longrightarrow> logs x (case y of (a, b) \<Rightarrow> f a b)"
  by (cases y) simp

lemma logs_for [logs_rules]: "(\<And>a. logs x (f a)) \<Longrightarrow> logs x (py_for xs f)"
  by (induction xs) (simp_all add: logs_rules)

text \<open>Appending a record writes all of it or nothing.\<close>

lemma wal_append_cases:
  assumes "\<not> wl_closed w"
  shows "snd (wal_append rt txn p w) = w
    \<or> (length (payload_bytes p) < 2 ^ 32 \<and> snd (wal_append rt txn p w) = w\<lparr>wl_bytes := wl_bytes w @ entry_bytes (rt, txn, p)\<rparr>)"
proof (cases "if p \<noteq> [] then utf8_encode (dumps (JObj p)) else Inr []")
  case (Inl e)
  then show ?thesis by (simp add: wal_append_def py_bind_def py_lift_def)
next
  case (Inr body)
  then have body: "payload_bytes p = body" by (auto simp: payload_bytes_def split: if_splits)
  show ?thesis
  proof (cases "txn < 2 ^ 32 \<and> length body < 2 ^ 32")
    case True
    then have "pack_log_header rt txn (length body) = Inr (le_bytes 1 (record_type_value rt) @ le_bytes 4 txn @ le_bytes 4 (length body))"
      using record_type_value_bound [of rt] by (simp add: pack_log_header_def pack_uint_def)
    with Inr True body assms show ?thesis
      by (simp add: wal_append_def wal_op_def wal_write_def py_bind_def py_seq_def py_lift_def py_return_def)
  next
    case False
    then have "\<exists>e. pack_log_header rt txn (length body) = Inl e"
      using record_type_value_bound [of rt] by (auto simp: pack_log_header_def pack_uint_def)
    with Inr assms show ?thesis by (auto simp: wal_append_def wal_op_def py_bind_def py_lift_def)
  qed
qed

lemma logs_db_log [logs_rules]:
  assumes "tx_id t = x" shows "logs x (db_log t kind kwargs)"
  unfolding logs_def
proof (intro allI impI)
  fix db :: database assume "\<not> wl_closed (tm_wal (db_mgr db))"
  let ?p = "(u ''kind'', JStr (u kind)) # kwargs" let ?w = "tm_wal (db_mgr db)"
  have st: "db_mgr (snd (db_log t kind kwargs db)) = (db_mgr db)\<lparr>tm_wal := snd (wal_append R_OP x ?p ?w)\<rparr>"
    by (simp add: assms db_log_def on_mgr_def txn_log_operation_def on_wal_def log_operation_def py_zoom_def py_seq_def py_bind_def
        py_return_def split: prod.splits sum.splits)
  from wal_append_cases [OF \<open>\<not> wl_closed ?w\<close>, of R_OP x ?p]
  show "\<exists>ops. list_all (op_of x) ops \<and> db_mgr (snd (db_log t kind kwargs db)) = logged ops (db_mgr db)"
  proof
    assume "snd (wal_append R_OP x ?p ?w) = ?w"
    then show ?thesis using st by (intro exI [of _ "[]"]) simp
  next
    assume "length (payload_bytes ?p) < 2 ^ 32 \<and> snd (wal_append R_OP x ?p ?w) = ?w\<lparr>wl_bytes := wl_bytes ?w @ entry_bytes (R_OP, x, ?p)\<rparr>"
    then show ?thesis using st by (intro exI [of _ "[(R_OP, x, ?p)]"]) (simp add: logged_def log_bytes_def)
  qed
qed


lemma logs_unique_loop [logs_rules]: "logs x (unique_loop t heap ex rids)"
  by (induction rids) (auto simp: db_heap_get_def intro!: logs_rules)

lemma logs_check_unique [logs_rules]: "logs x (check_unique_constraint idx key t heap ex)"
  unfolding check_unique_constraint_def by (intro logs_rules)

lemma logs_index_row [logs_rules]: "tx_id t = x \<Longrightarrow> logs x (index_row table t vm rid heap ex entry)"
  unfolding index_row_def by (intro logs_rules) auto

lemma logs_insert_into_indexes [logs_rules]: "tx_id t = x \<Longrightarrow> logs x (insert_into_indexes table t vm rid heap ex)"
  unfolding insert_into_indexes_def by (intro logs_rules)

lemma logs_insert_version [logs_rules]: "tx_id t = x \<Longrightarrow> logs x (insert_version table t heap vs)"
  unfolding insert_version_def by (intro logs_rules)

lemma logs_insert_rows [logs_rules]: "tx_id t = x \<Longrightarrow> logs x (insert_rows table t heap rows n)"
  by (induction rows arbitrary: heap n) (auto intro!: logs_rules)

lemma logs_matching_rows [logs_rules]: "logs x (matching_rows k name cond t)"
  unfolding matching_rows_def by (intro logs_rules)

lemma logs_check_conflict [logs_rules]: "logs x (check_conflict t raw)"
proof -
  have "logs x (on_mgr (check_write_conflict t xmax))" for xmax
    by (rule logs_same) (simp add: on_mgr_def py_zoom_def check_write_conflict_eq)
  then show ?thesis unfolding check_conflict_def by (intro logs_rules)
qed

lemma logs_stamp_deleted [logs_rules]: "tx_id t = x \<Longrightarrow> logs x (stamp_deleted table t heap rid raw)"
  unfolding stamp_deleted_def by (intro logs_rules)

lemma logs_update_version [logs_rules]: "tx_id t = x \<Longrightarrow> logs x (update_version table t assigns heap rid raw)"
  unfolding update_version_def by (intro logs_rules)

lemma logs_update_rows [logs_rules]: "tx_id t = x \<Longrightarrow> logs x (update_rows table t assigns heap rows n)"
  by (induction rows arbitrary: heap n) (auto simp: db_heap_get_def intro!: logs_rules)

lemma logs_delete_rows [logs_rules]: "tx_id t = x \<Longrightarrow> logs x (delete_rows table t heap rows n)"
  by (induction rows arbitrary: n) (auto simp: db_heap_get_def intro!: logs_rules)

lemma logs_dispatch:
  assumes "tx_id t = x" shows "logs x (dispatch k stmt (Some t))"
  by (cases stmt)
    (use assms in \<open>simp_all add: dispatch_def needs_txn_def execute_create_table_def execute_create_index_def execute_insert_def
      execute_select_def execute_update_def execute_delete_def logs_rules\<close>)

section \<open>A statement and its transaction\<close>

definition closing :: "'a res \<Rightarrow> record_type" where
  "closing r = (case r of Inl _ \<Rightarrow> R_ABORT | Inr _ \<Rightarrow> R_COMMIT)"

lemma tm_begin_logged:
  assumes "\<not> wl_closed (tm_wal tm)" and "tm_next_txn_id tm < 2 ^ 32"
  shows "tm_begin tm = (Inr \<lparr>tx_id = tm_next_txn_id tm,
      tx_snapshot = \<lparr>sn_xid = tm_next_txn_id tm, sn_active_xids = tm_active_xids tm\<rparr>, tx_state = TXN_ACTIVE\<rparr>,
    (logged [(R_BEGIN, tm_next_txn_id tm, [])] tm)\<lparr>tm_next_txn_id := tm_next_txn_id tm + 1,
      tm_active_xids := insert (tm_next_txn_id tm) (tm_active_xids tm)\<rparr>)"
  using assms by (simp add: tm_begin_def py_bind_def py_seq_def py_gets_def py_modify_def py_return_def on_wal_def py_zoom_def
      log_begin_eq logged_def log_bytes_def del: entry_bytes.simps)

lemma tm_abort_logged:
  assumes "\<not> wl_closed (tm_wal tm)" and "tx_id t < 2 ^ 32" and "tx_state t = TXN_ACTIVE"
  shows "tm_abort t tm = (Inr (t\<lparr>tx_state := TXN_ABORTED\<rparr>),
    (logged [(R_ABORT, tx_id t, [])] tm)\<lparr>tm_active_xids := tm_active_xids tm - {tx_id t},
      tm_aborted_xids := insert (tx_id t) (tm_aborted_xids tm)\<rparr>)"
  using assms by (simp add: tm_abort_def py_bind_def py_seq_def py_modify_def py_return_def on_wal_def py_zoom_def
      log_abort_eq logged_def log_bytes_def del: entry_bytes.simps)

definition synced :: "txn_mgr \<Rightarrow> txn_mgr" where
  "synced tm = tm\<lparr>tm_wal := (tm_wal tm)\<lparr>wl_synced := length (wl_bytes (tm_wal tm))\<rparr>\<rparr>"

lemma tm_commit_logged:
  assumes "\<not> wl_closed (tm_wal tm)" and "tx_id t < 2 ^ 32" and "tx_state t = TXN_ACTIVE"
  shows "tm_commit t tm = (Inr (t\<lparr>tx_state := TXN_COMMITTED\<rparr>),
    (synced (logged [(R_COMMIT, tx_id t, [])] tm))\<lparr>tm_active_xids := tm_active_xids tm - {tx_id t}\<rparr>)"
  using assms by (simp add: tm_commit_def py_bind_def py_seq_def py_modify_def py_return_def on_wal_def py_zoom_def
      log_commit_eq logged_def synced_def log_bytes_def del: entry_bytes.simps)

text \<open>The manager after a statement with a transaction of its own.\<close>

definition after_statement :: "log_entry list \<Rightarrow> 'a res \<Rightarrow> txn_mgr \<Rightarrow> txn_mgr" where
  "after_statement ops r tm =
     (let n = tm_next_txn_id tm;
          tm' = (logged ((R_BEGIN, n, []) # ops @ [(closing r, n, [])]) tm)
            \<lparr>tm_next_txn_id := n + 1, tm_active_xids := tm_active_xids tm - {n}\<rparr>
      in case r of
           Inl _ \<Rightarrow> tm'\<lparr>tm_aborted_xids := insert n (tm_aborted_xids tm)\<rparr>
         | Inr _ \<Rightarrow> synced tm')"

lemma execute_own_transaction:
  assumes p: "parse sql = Inr stmt" "\<not> is_ddl stmt"
    and tm: "\<not> wl_closed (tm_wal (db_mgr db))" "tm_next_txn_id (db_mgr db) < 2 ^ 32"
  obtains ops r db' where "execute k sql None db = (r, db')" and "list_all (op_of (tm_next_txn_id (db_mgr db))) ops"
    and "db_mgr db' = after_statement ops r (db_mgr db)"
proof -
  let ?tm = "db_mgr db" let ?n = "tm_next_txn_id ?tm"
  define own where "own = \<lparr>tx_id = ?n, tx_snapshot = \<lparr>sn_xid = ?n, sn_active_xids = tm_active_xids ?tm\<rparr>, tx_state = TXN_ACTIVE\<rparr>"
  define tm1 where "tm1 = (logged [(R_BEGIN, ?n, [])] ?tm)\<lparr>tm_next_txn_id := ?n + 1, tm_active_xids := insert ?n (tm_active_xids ?tm)\<rparr>"
  have own: "tx_id own = ?n" "tx_state own = TXN_ACTIVE" by (simp_all add: own_def)
  have begin': "db_begin db = (Inr own, db\<lparr>db_mgr := tm1\<rparr>)"
    using tm_begin_logged [OF tm] by (simp add: db_begin_def on_mgr_def py_zoom_def own_def tm1_def)
  have open1: "\<not> wl_closed (tm_wal tm1)" using tm(1) by (simp add: tm1_def)
  obtain r db2 where d: "dispatch k stmt (Some own) (db\<lparr>db_mgr := tm1\<rparr>) = (r, db2)" by fastforce
  obtain ops where ops: "list_all (op_of ?n) ops" "db_mgr db2 = logged ops tm1"
    using logs_dispatch [OF own(1), of k stmt] open1 d unfolding logs_def
    by (metis database.select_convs(2) database.surjective database.update_convs(2) snd_conv)
  have open2: "\<not> wl_closed (tm_wal (logged ops tm1))" using open1 by simp
  have small: "tx_id own < 2 ^ 32" using own(1) tm(2) by simp
  have ex: "execute k sql None db = (case r of
       Inl e \<Rightarrow> (Inl e, db2\<lparr>db_mgr := snd (tm_abort own (logged ops tm1))\<rparr>)
     | Inr x \<Rightarrow> (Inr x, db2\<lparr>db_mgr := snd (tm_commit own (logged ops tm1))\<rparr>))"
    using p begin' d ops(2) tm_abort_logged [OF open2 small own(2)] tm_commit_logged [OF open2 small own(2)]
    by (simp add: execute_def py_bind_def py_seq_def py_lift_def py_on_error_def py_return_def on_mgr_def py_zoom_def split: sum.splits)
  show ?thesis
  proof (cases r)
    case (Inl e)
    have "db_mgr (db2\<lparr>db_mgr := snd (tm_abort own (logged ops tm1))\<rparr>) = after_statement ops r ?tm"
      unfolding tm_abort_logged [OF open2 small own(2)]
      by (rule txn_mgr.equality) (simp_all add: own Inl after_statement_def Let_def closing_def tm1_def logged_def log_bytes_def)
    with that ex ops(1) Inl show ?thesis by simp
  next
    case (Inr x)
    have "db_mgr (db2\<lparr>db_mgr := snd (tm_commit own (logged ops tm1))\<rparr>) = after_statement ops r ?tm"
      unfolding tm_commit_logged [OF open2 small own(2)]
      by (rule txn_mgr.equality) (simp_all add: own Inr after_statement_def Let_def closing_def tm1_def logged_def synced_def log_bytes_def)
    with that ex ops(1) Inr show ?thesis by simp
  qed
qed

text \<open>The fields of the manager after a statement.\<close>

lemma after_statement_simps:
  assumes "n = tm_next_txn_id tm"
  shows "tm_next_txn_id (after_statement ops r tm) = n + 1"
    and "tm_active_xids (after_statement ops r tm) = tm_active_xids tm - {n}"
    and "tm_aborted_xids (after_statement ops r tm) = (case r of Inl _ \<Rightarrow> insert n (tm_aborted_xids tm) | Inr _ \<Rightarrow> tm_aborted_xids tm)"
    and "wl_bytes (tm_wal (after_statement ops r tm)) = wl_bytes (tm_wal tm) @ log_bytes ((R_BEGIN, n, []) # ops @ [(closing r, n, [])])"
    and "wl_closed (tm_wal (after_statement ops r tm)) = wl_closed (tm_wal tm)"
    and "wl_synced (tm_wal (after_statement ops r tm))
      = (case r of Inl _ \<Rightarrow> wl_synced (tm_wal tm) | Inr _ \<Rightarrow> length (wl_bytes (tm_wal (after_statement ops r tm))))"
  using assms by (cases r; simp add: after_statement_def Let_def logged_def synced_def)+

section \<open>The log of a statement\<close>

text \<open>A new transaction at the end of the log keeps the order of operations and commits.\<close>

lemma has_commit_append [simp]: "has_commit x (as @ bs) \<longleftrightarrow> has_commit x as \<or> has_commit x bs"
  by (auto simp: has_commit_def)

lemma entry_ops_other: "\<forall>e \<in> set es. fst (snd e) \<noteq> x \<Longrightarrow> entry_ops x es = []"
  by (auto simp: entry_ops_def filter_empty_conv)

lemma no_commit_in_ops: "list_all (op_of n) ops \<Longrightarrow> \<not> has_commit x ops"
  by (auto simp: has_commit_def list_all_iff)

lemma ops_before_commit_snoc:
  assumes ord: "ops_before_commit post" and new: "\<forall>e \<in> set post. fst (snd e) \<noteq> n" and ops: "list_all (op_of n) ops"
  shows "ops_before_commit (post @ (R_BEGIN, n, []) # ops @ [(rt, n, [])])"
  unfolding ops_before_commit_def
proof (intro allI impI)
  let ?tail = "(R_BEGIN, n, []) # ops @ [(rt, n, [])]" let ?mid = "post @ (R_BEGIN, n, []) # ops"
  fix as bs x assume s: "post @ ?tail = as @ bs" and c: "has_commit x as"
  have all_n: "fst (snd e) = n" if "e \<in> set ?tail" for e using that ops by (auto simp: list_all_iff dest: op_ofD)
  show "entry_ops x bs = []"
  proof (cases "x = n")
    case True
    have "\<not> has_commit n ?mid" using new no_commit_in_ops [OF ops] by (auto simp: has_commit_def)
    moreover have "has_commit n ?mid" if "bs = bs' @ [b]" for bs' b
    proof -
      have "?mid = as @ bs'" using s that by simp
      then show ?thesis using c True by (metis has_commit_append)
    qed
    ultimately have "bs = []" by (metis rev_exhaust)
    then show ?thesis by (simp add: entry_ops_def)
  next
    case False
    from s obtain us where "post = as @ us \<and> us @ ?tail = bs \<or> post @ us = as \<and> ?tail = us @ bs"
      by (simp only: append_eq_append_conv2) blast
    then show ?thesis
    proof
      assume u: "post = as @ us \<and> us @ ?tail = bs"
      then have "entry_ops x us = []" using ord c by (auto simp: ops_before_commit_def)
      moreover have "entry_ops x ?tail = []" by (rule entry_ops_other) (use False all_n in blast)
      ultimately show ?thesis using u entry_ops_append [of x us ?tail] by simp
    next
      assume "post @ us = as \<and> ?tail = us @ bs"
      then have "set bs \<subseteq> set ?tail" by (metis set_append sup_ge2)
      then show ?thesis using False all_n by (intro entry_ops_other) blast
    qed
  qed
qed

lemma statement_log_holds:
  assumes "wal_holds es m (tm_wal tm)" and "tm_next_txn_id tm < 2 ^ 32" and "\<forall>e \<in> set ops. entry_ok e"
  shows "wal_holds (es @ (R_BEGIN, tm_next_txn_id tm, []) # ops @ [(closing r, tm_next_txn_id tm, [])])
    (case r of Inl _ \<Rightarrow> m | Inr _ \<Rightarrow> length es + length ops + 2) (tm_wal (after_statement ops r tm))"
proof -
  let ?tail = "(R_BEGIN, tm_next_txn_id tm, []) # ops @ [(closing r, tm_next_txn_id tm, [])]"
  note S = after_statement_simps [OF refl, of ops r tm]
  have "\<forall>e \<in> set (es @ ?tail). entry_ok e" using assms by (auto simp: wal_holds_def payload_bytes_def)
  moreover have bytes: "wl_bytes (tm_wal (after_statement ops r tm)) = log_bytes (es @ ?tail)"
    using S(4) assms(1) by (simp add: wal_holds_def log_bytes_def)
  ultimately show ?thesis using assms(1) S(5,6) by (cases r) (auto simp: wal_holds_def log_bytes_def)
qed

lemma recovery_after_statement:
  assumes holds: "wal_holds (pre @ post) m (tm_wal tm)" and pre: "length pre \<le> m"
    and cp: "pre = [] \<or> fst (last pre) = R_CHECKPOINT" "\<forall>e \<in> set post. fst e \<noteq> R_CHECKPOINT" and ord: "ops_before_commit post"
    and new: "\<forall>e \<in> set post. fst (snd e) \<noteq> tm_next_txn_id tm" and n: "tm_next_txn_id tm < 2 ^ 32"
    and ops: "list_all (op_of (tm_next_txn_id tm)) ops" "\<forall>e \<in> set ops. entry_ok e"
    and cut: "wl_synced (tm_wal (after_statement ops r tm)) \<le> len"
  shows "\<exists>rs. committed_operations_since_checkpoint (take len (wl_bytes (tm_wal (after_statement ops r tm)))) = Inr rs
    \<and> record_ops (tm_next_txn_id tm) rs = (case r of Inl _ \<Rightarrow> [] | Inr _ \<Rightarrow> map (\<lambda>(_, _, p). JObj p) ops)
    \<and> (\<forall>x. x \<noteq> tm_next_txn_id tm \<longrightarrow> has_commit x (take (m - length pre) post) \<longrightarrow> record_ops x rs = entry_ops x post)"
proof -
  let ?n = "tm_next_txn_id tm" let ?tail = "(R_BEGIN, ?n, []) # ops @ [(closing r, ?n, [])]"
  let ?m = "case r of Inl _ \<Rightarrow> m | Inr _ \<Rightarrow> length (pre @ post) + length ops + 2"
  have holds': "wal_holds (pre @ (post @ ?tail)) ?m (tm_wal (after_statement ops r tm))"
    using statement_log_holds [OF holds n ops(2), of r] by simp
  have m: "m \<le> length pre + length post" using holds by (simp add: wal_holds_def)
  have "length pre \<le> ?m" using pre by (cases r) simp_all
  moreover have "\<forall>e \<in> set (post @ ?tail). fst e \<noteq> R_CHECKPOINT"
    using cp(2) ops(1) by (auto simp: list_all_iff closing_def split: sum.splits)
  ultimately obtain rs where rs: "committed_operations_since_checkpoint (take len (wl_bytes (tm_wal (after_statement ops r tm)))) = Inr rs"
    and R: "\<And>x. has_commit x (take (?m - length pre) (post @ ?tail)) \<Longrightarrow> record_ops x rs = entry_ops x (post @ ?tail)"
      "\<And>x. \<not> has_commit x (post @ ?tail) \<Longrightarrow> record_ops x rs = []"
    using recovered_operations [OF holds' cut _ cp(1) _ ops_before_commit_snoc [OF ord new ops(1)]] by blast
  have ops_n: "entry_ops ?n (post @ ?tail) = map (\<lambda>(_, _, p). JObj p) ops"
  proof -
    have "filter (\<lambda>(rt, y, _). rt = R_OP \<and> y = ?n) ops = ops" using ops(1) by (auto simp: filter_id_conv list_all_iff)
    then show ?thesis using entry_ops_other [OF new] by (simp add: entry_ops_append) (simp add: entry_ops_def closing_def split: sum.splits)
  qed
  have "record_ops ?n rs = (case r of Inl _ \<Rightarrow> [] | Inr _ \<Rightarrow> map (\<lambda>(_, _, p). JObj p) ops)"
  proof (cases r)
    case (Inl e)
    then have "\<not> has_commit ?n (post @ ?tail)" using new no_commit_in_ops [OF ops(1)] by (auto simp: has_commit_def closing_def)
    with R(2) Inl show ?thesis by simp
  next
    case (Inr a)
    then have "has_commit ?n (take (?m - length pre) (post @ ?tail))" by (auto simp: has_commit_def closing_def)
    with R(1) ops_n Inr show ?thesis by simp
  qed
  moreover have "record_ops x rs = entry_ops x post" if "x \<noteq> ?n" "has_commit x (take (m - length pre) post)" for x
  proof -
    have "has_commit x (take (?m - length pre) (post @ ?tail))" using that(2) m pre
      by (cases r) (auto simp: has_commit_def dest: in_set_takeD)
    moreover have "entry_ops x ?tail = []" using ops(1) that(1) by (intro entry_ops_other) (auto simp: list_all_iff)
    ultimately show ?thesis using R(1) by (simp add: entry_ops_append)
  qed
  ultimately show ?thesis using rs by blast
qed

text \<open>A new database and a statement, for the witnesses.\<close>

definition empty_database :: database where
  "empty_database = \<lparr>db_catalog = empty_catalog, db_mgr = tm_init (wal_open None) 1 None\<rparr>"

lemma tokenize_Cons:
  "tokenize_loop pos (c # cs) =
     (case lex_match (c # cs) of None \<Rightarrow> Inl LexError
      | Some (k, n) \<Rightarrow>
          if k = L_WHITESPACE \<or> k = L_COMMENT then tokenize_loop (pos + n) (drop n (c # cs))
          else res_bind (tokenize_loop (pos + n) (drop n (c # cs))) (\<lambda>ts. Inr (make_token k (take n (c # cs)) pos # ts)))"
  by (subst tokenize_loop.simps) simp

lemmas lex_eval = tokenize_def tokenize_Cons tokenize_loop.simps [of _ "[]"] lex_match_def match_space_def match_comment_def
  match_number_def match_string_def match_ident_def match_op_def Let_def re_space_def re_digit_def decimal_value_def
  decimal_zeros_def ident_start_def ident_char_def make_token_def upper_def upper_char_def KEYWORDS_def

lemmas parse_eval = p_bind_def p_return_def p_raise_def p_peek_def p_advance_def is_token_def p_check_def p_match_def p_expect_def p_ident_def

lemma parse_sample: "parse (u ''DELETE FROM t'') = Inr (Delete (u ''t'') None)"
proof -
  have "tokenize (u ''DELETE FROM t'') =
    Inr [\<lparr>tok_kind = KEYWORD, tok_value = u ''DELETE'', tok_pos = 0\<rparr>, \<lparr>tok_kind = KEYWORD, tok_value = u ''FROM'', tok_pos = 7\<rparr>,
     \<lparr>tok_kind = IDENT, tok_value = u ''t'', tok_pos = 12\<rparr>, \<lparr>tok_kind = EOF, tok_value = [], tok_pos = 13\<rparr>]"
    by (simp add: u_def lex_eval)
  then show ?thesis by (simp add: parse_def parse_statement_def parse_delete_def parse_where_def parse_eval u_def)
qed

section \<open>Properties\<close>

text \<open>
  C14: a statement that is not given a transaction always ends the one it begins. Whatever happens in it, its
  records stand in the log between a begin record and a commit record, if the statement returned, or an
  abort record, if it raised; a commit is flushed. The transaction is no longer active afterwards, it is marked as
  aborted exactly if the statement raised, and no other transaction changes its state.
\<close>

theorem statement_ends_its_transaction:
  assumes "parse sql = Inr stmt" and "\<not> is_ddl stmt" and "\<not> wl_closed (tm_wal (db_mgr db))"
    and "n = tm_next_txn_id (db_mgr db)" and "n < 2 ^ 32"
  shows "\<exists>ops r db'. execute k sql None db = (r, db') \<and> list_all (op_of n) ops
    \<and> wl_bytes (tm_wal (db_mgr db')) = wl_bytes (tm_wal (db_mgr db)) @ log_bytes ((R_BEGIN, n, []) # ops @ [(closing r, n, [])])
    \<and> (closing r = R_COMMIT \<longrightarrow> wl_synced (tm_wal (db_mgr db')) = length (wl_bytes (tm_wal (db_mgr db'))))
    \<and> tm_active_xids (db_mgr db') = tm_active_xids (db_mgr db) - {n}
    \<and> tm_aborted_xids (db_mgr db') = tm_aborted_xids (db_mgr db) \<union> (if closing r = R_ABORT then {n} else {})
    \<and> tm_next_txn_id (db_mgr db') = n + 1"
proof -
  obtain ops r db' where "execute k sql None db = (r, db')" "list_all (op_of n) ops" and mgr: "db_mgr db' = after_statement ops r (db_mgr db)"
    using execute_own_transaction [OF assms(1-3)] assms(4,5) by metis
  then show ?thesis using after_statement_simps [OF assms(4), of ops r]
    by (intro exI [of _ ops] exI [of _ r] exI [of _ db']) (cases r; simp add: mgr closing_def)
qed

theorem statement_ends_its_transaction_witness:
  "\<exists>ops r db'. execute 3 (u ''DELETE FROM t'') None empty_database = (r, db') \<and> list_all (op_of 1) ops
    \<and> wl_bytes (tm_wal (db_mgr db')) = log_bytes ((R_BEGIN, 1, []) # ops @ [(closing r, 1, [])])
    \<and> tm_active_xids (db_mgr db') = {} \<and> tm_next_txn_id (db_mgr db') = 2"
  using statement_ends_its_transaction [OF parse_sample, of empty_database 1 3]
  by (fastforce simp: is_ddl_def empty_database_def tm_init_def wal_open_def Let_def)



end
