(* ===== verification/Repl.thy ===== *)
theory Repl
  imports Database_Laws
begin

text \<open>
  The interactive shell (\<^verbatim>\<open>repl.py\<close>): the table that shows a result, and the loop over the lines of
  the input. The input is the list of its lines, each with its line break; the output is the list
  of what is written. The text of an exception is not modelled: an error line carries the exception.
\<close>

section \<open>Results as text\<close>

definition cell_str :: "cell \<Rightarrow> ustring" where
  "cell_str c =
     (case c of
        Val v \<Rightarrow> py_str v
      | Rid r \<Rightarrow> u ''RID('' @ nat_digits (rid_page_id r) @ u '', '' @ nat_digits (rid_slot_id r) @ u '')'')"

text \<open>\<^verbatim>\<open>str(row.get(col, ""))\<close>\<close>

definition cell_text :: "row \<Rightarrow> ustring \<Rightarrow> ustring" where
  "cell_text row col = (case map_of row col of Some c \<Rightarrow> cell_str c | None \<Rightarrow> [])"

definition ljust :: "nat \<Rightarrow> ustring \<Rightarrow> ustring" where
  "ljust w s = s @ replicate (w - length s) 32"

definition col_width :: "row list \<Rightarrow> ustring \<Rightarrow> nat" where
  "col_width rows col = max (length col) (foldr max (map (\<lambda>row. length (cell_text row col)) rows) 0)"

definition format_rows :: "exec_result \<Rightarrow> ustring" where
  "format_rows result =
     (case er_iter result of
        [] \<Rightarrow> u ''(0 rows)''
      | first # rest \<Rightarrow>
          let rows = first # rest;
              cols = map fst first;
              widths = map (col_width rows) cols;
              header = join_with (u '' | '') (map (\<lambda>(col, w). ljust w col) (zip cols widths));
              rule_line = join_with (u ''-+-'') (map (\<lambda>w. replicate w 45) widths);
              body = map (\<lambda>row. join_with (u '' | '') (map (\<lambda>(col, w). ljust w (cell_text row col)) (zip cols widths))) rows;
              footer = u ''('' @ nat_digits (length rows) @ u '' row'' @ (if length rows \<noteq> 1 then u ''s'' else []) @ u '')''
          in join_with [10] (header # rule_line # body @ [footer]))"

definition run_statement :: "nat \<Rightarrow> ustring \<Rightarrow> (database, ustring) py" where
  "run_statement k sql =
     py_bind (execute k sql None) (\<lambda>result.
     py_return (if er_rows result \<noteq> None then format_rows result else er_message result))"

section \<open>The loop\<close>

datatype shell_output = Text ustring | Error_Line py_error

definition str_strip :: "ustring \<Rightarrow> ustring" where
  "str_strip s = rev (dropWhile re_space (rev (dropWhile re_space s)))"

definition prompt :: "ustring \<Rightarrow> shell_output" where
  "prompt buffer = Text (if buffer = [] then u ''minirel> '' else u ''     ...> '')"

text \<open>\<^verbatim>\<open>statement, _, rest = buffer.partition(";")\<close>\<close>

definition partition_semicolon :: "ustring \<Rightarrow> ustring \<times> ustring" where
  "partition_semicolon s = (takeWhile (\<lambda>c. c \<noteq> 59) s, tl (dropWhile (\<lambda>c. c \<noteq> 59) s))"

definition run_and_report :: "nat \<Rightarrow> ustring \<Rightarrow> database \<Rightarrow> shell_output list \<times> database" where
  "run_and_report k stmt db =
     (case run_statement k stmt db of
        (Inl e, db') \<Rightarrow> ([Error_Line e], db')
      | (Inr txt, db') \<Rightarrow> ([Text (txt @ [10])], db'))"

definition table_list :: "database \<Rightarrow> ustring" where
  "table_list db = join_with [10] (sort (map fst (cat_tables (db_catalog db)))) @ [10]"

fun repl_loop :: "nat \<Rightarrow> ustring list \<Rightarrow> ustring \<Rightarrow> database \<Rightarrow> shell_output list \<times> database" where
  "repl_loop k [] buffer db = ([prompt buffer, Text [10]], db)"
| "repl_loop k (line # lines) buffer db =
     (let stripped = str_strip line in
      if buffer = [] \<and> (stripped = u ''.exit'' \<or> stripped = u ''.quit'') then ([prompt buffer, Text [10]], db)
      else if buffer = [] \<and> stripped = u ''.tables'' then
        (case repl_loop k lines buffer db of (out, db') \<Rightarrow> (prompt buffer # Text (table_list db) # out, db'))
      else if buffer = [] \<and> stripped = u ''.help'' then
        (case repl_loop k lines buffer db of (out, db') \<Rightarrow>
           (prompt buffer # Text (u ''Enter SQL ending in ';'. Dot-commands: .tables, .exit'' @ [10]) # out, db'))
      else
        let buffer' = buffer @ line in
        if 59 \<in> set line then
          (case partition_semicolon buffer' of (stmt, rest) \<Rightarrow>
             if str_strip stmt = [] then
               (case repl_loop k lines (str_strip rest) db of (out, db') \<Rightarrow> (prompt buffer # out, db'))
             else
               (case run_and_report k (str_strip stmt) db of (out1, db1) \<Rightarrow>
                  (case repl_loop k lines (str_strip rest) db1 of (out, db') \<Rightarrow> (prompt buffer # out1 @ out, db'))))
        else (case repl_loop k lines buffer' db of (out, db') \<Rightarrow> (prompt buffer # out, db')))"

definition repl :: "nat \<Rightarrow> ustring list \<Rightarrow> database \<Rightarrow> shell_output list \<times> database" where
  "repl k lines db =
     (case repl_loop k lines [] db of (out, db') \<Rightarrow>
        (Text (u ''minirel -- type SQL statements ending in ';', or .exit to quit'' @ [10]) # out, db'))"

text \<open>
  \<^verbatim>\<open>main\<close>: the exit code, the output and, if a database was opened, its state at the end. An exception
  of the constructor or of \<^verbatim>\<open>close\<close> leaves \<^verbatim>\<open>main\<close>.
\<close>

definition repl_main :: "nat \<Rightarrow> ustring list \<Rightarrow> bytes option \<Rightarrow> ustring option \<Rightarrow> bytes option \<Rightarrow> ustring list \<Rightarrow>
    (nat \<times> shell_output list \<times> database option) res" where
  "repl_main k argv data_file catalog_file wal_file lines =
     (if length argv \<noteq> 1 then Inr (2, [], None)
      else
        res_bind (database_open data_file catalog_file wal_file 128) (\<lambda>db.
          case repl k lines db of (out, db') \<Rightarrow>
            (case db_close db' of (Inl e, _) \<Rightarrow> Inl e | (Inr _, db'') \<Rightarrow> Inr (0, out, Some db''))))"

section \<open>Properties\<close>

lemma partition_semicolon_first: "59 \<notin> set a \<Longrightarrow> partition_semicolon (a @ 59 # b) = (a, b)"
  by (auto simp: partition_semicolon_def takeWhile_append dropWhile_append)

text \<open>Only the first statement of a line is executed; a second one waits for a later line.\<close>



end
