(* ===== verification/Table_Heaps.thy ===== *)
theory Table_Heaps
  imports Query_Semantics
begin

text \<open>
  The heaps of several tables in one buffer pool: what an operation on one of them does to the pool,
  and that the others stay as they are. A table is known by the first page of its heap; the heap
  object of a method is made anew from it.
\<close>

section \<open>Heaps by their first page\<close>

definition heap_of :: "pool \<Rightarrow> nat \<Rightarrow> heapfile" where
  "heap_of b f = \<lparr>hf_first = f, hf_last = last (heap_pages \<lparr>hf_first = f, hf_last = f, hf_pool = b\<rparr>), hf_pool = b\<rparr>"

lemma heap_of_sel [simp]: "hf_first (heap_of b f) = f" "hf_pool (heap_of b f) = b"
  by (simp_all add: heap_of_def)

lemma heap_of_pages: "heap_pages h = heap_pages (heap_of (hf_pool h) (hf_first h))"
  by (simp add: heap_pages_def)

lemma heap_inv_of:
  assumes "heap_inv h"
  shows "heap_of (hf_pool h) (hf_first h) = h"
proof -
  have "last (heap_pages h) = hf_last h" using assms by (simp add: heap_inv_def heap_on_def)
  moreover have "heap_pages \<lparr>hf_first = hf_first h, hf_last = hf_first h, hf_pool = hf_pool h\<rparr> = heap_pages h"
    by (simp add: heap_pages_def)
  ultimately show ?thesis by (simp add: heap_of_def)
qed

text \<open>
  A step that changes no page below the old end of the file outside \<open>A\<close>, may add pages, and
  leaves the pool idle.
\<close>

definition pool_step :: "nat set \<Rightarrow> pool \<Rightarrow> pool \<Rightarrow> bool" where
  "pool_step A b b' \<longleftrightarrow> pool_inv b' \<and> pool_stale b' = {} \<and> v_avail (pool_view b') = v_avail (pool_view b)
     \<and> pool_pins b' = pool_pins b \<and> pool_count b \<le> pool_count b' \<and> pool_count b' \<le> INVALID_PAGE_ID
     \<and> (\<forall>q < pool_count b. q \<notin> A \<longrightarrow> pool_page b' q = pool_page b q)"

lemma pool_step_view:
  assumes "at_view {} (pool_view b) b'" and "pool_count b \<le> INVALID_PAGE_ID"
  shows "pool_step {} b b'"
  using assms by (auto simp: at_view_def pool_step_def pool_view_def)

lemma pool_step_trans:
  assumes "pool_step A b b'" and "pool_step A' b' b''" and "\<forall>q \<in> A'. q \<in> A \<or> pool_count b \<le> q"
  shows "pool_step A b b''"
proof -
  have "pool_page b'' q = pool_page b q" if "q < pool_count b" "q \<notin> A" for q
    using assms that unfolding pool_step_def by (metis linorder_not_le order_less_le_trans)
  with assms(1,2) show ?thesis by (auto simp: pool_step_def)
qed

text \<open>A heap is the same in every idle pool that has its pages, with two frames to spare.\<close>

lemma heap_same:
  assumes inv: "heap_inv (heap_of b f)" and b': "pool_inv b'" "pool_stale b' = {}" "2 \<le> v_avail (pool_view b')" "pool_count b' \<le> INVALID_PAGE_ID"
    and same: "\<And>p. p \<in> set (heap_pages (heap_of b f)) \<Longrightarrow> p < pool_count b' \<and> pool_page b' p = pool_page b p"
    and pins: "pool_pins b' (hf_last (heap_of b f)) = 0"
  shows "heap_inv (heap_of b' f)" and "heap_pages (heap_of b' f) = heap_pages (heap_of b f)"
    and "heap_map (heap_of b' f) = heap_map (heap_of b f)"
proof -
  let ?h = "heap_of b f" let ?ps = "heap_pages ?h"
  have on: "heap_on ?ps ?h" using inv by (simp add: heap_inv_def)
  define h' where "h' = \<lparr>hf_first = f, hf_last = hf_last ?h, hf_pool = b'\<rparr>"
  have "is_chain (pool_page b') ?ps = is_chain (pool_page b) ?ps" by (rule is_chain_cong) (simp add: same)
  then have "heap_on ?ps h'" using on b'(4) same by (auto simp: heap_on_def h'_def)
  moreover have "heap_idle h'" using b' by (simp add: heap_idle_def h'_def)
  ultimately have I: "heap_inv h'" "heap_pages h' = ?ps"
    using heap_invI [of ?ps h'] b'(3) pins by (simp_all add: h'_def)
  have h': "heap_of b' f = h'" using heap_inv_of [OF I(1)] by (simp add: h'_def)
  show "heap_inv (heap_of b' f)" "heap_pages (heap_of b' f) = ?ps" using I by (simp_all add: h')
  show "heap_map (heap_of b' f) = heap_map ?h" using I(2) same by (auto simp: heap_map_def h' h'_def fun_eq_iff)
qed

lemma heap_frame:
  assumes inv: "heap_inv (heap_of b f)" and step: "pool_step A b b'" and out: "set (heap_pages (heap_of b f)) \<inter> A = {}"
  shows "heap_inv (heap_of b' f)" and "heap_pages (heap_of b' f) = heap_pages (heap_of b f)"
    and "heap_map (heap_of b' f) = heap_map (heap_of b f)"
proof -
  have *: "\<And>p. p \<in> set (heap_pages (heap_of b f)) \<Longrightarrow> p < pool_count b' \<and> pool_page b' p = pool_page b p"
    using step out inv by (force simp: pool_step_def heap_inv_def heap_on_def)
  have p: "pool_inv b'" "pool_stale b' = {}" "2 \<le> v_avail (pool_view b')" "pool_count b' \<le> INVALID_PAGE_ID" "pool_pins b' (hf_last (heap_of b f)) = 0"
    using step inv by (simp_all add: pool_step_def heap_inv_def)
  show "heap_inv (heap_of b' f)" "heap_pages (heap_of b' f) = heap_pages (heap_of b f)" "heap_map (heap_of b' f) = heap_map (heap_of b f)"
    using heap_same [OF inv p(1-4) * p(5)] by auto
qed

section \<open>Operations on one heap\<close>

text \<open>The heap \<open>h'\<close> is \<open>h\<close> after a step on its own pages, with the rows \<open>M\<close>.\<close>

definition heap_step :: "heapfile \<Rightarrow> (rid \<Rightarrow> bytes option) \<Rightarrow> heapfile \<Rightarrow> bool" where
  "heap_step h M h' \<longleftrightarrow> heap_inv h' \<and> hf_first h' = hf_first h \<and> heap_map h' = M
     \<and> pool_step (set (heap_pages h)) (hf_pool h) (hf_pool h')
     \<and> pool_count (hf_pool h') \<le> Suc (pool_count (hf_pool h))
     \<and> (\<forall>q \<in> set (heap_pages h'). q \<in> set (heap_pages h) \<or> pool_count (hf_pool h) \<le> q)"

lemma page_effect_step:
  assumes inv: "heap_inv h" and p: "p \<in> set (heap_pages h)" and eff: "page_effect h p R x h'"
    and R: "\<And>x d. R x d \<Longrightarrow> heap_page_ok d \<and> page_next d = page_next (heap_page h p)"
  shows "heap_step h (heap_map h') h'"
proof -
  from eff obtain b d where b: "h' = h\<lparr>hf_pool := b\<rparr>" "heap_idle h'" "pool_view b = view_write p d (pool_view (hf_pool h))"
    unfolding page_effect_def by blast
  note v = pool_view_eqD [OF b(3), simplified, unfolded pool_view_sel]
  have I: "heap_inv h'" "heap_pages h' = heap_pages h" by (rule page_effect_heap [OF inv p eff R]; simp)+
  have "pool_step (set (heap_pages h)) (hf_pool h) b"
    using b inv p v unfolding pool_step_def by (auto simp: heap_idle_def heap_inv_def heap_on_def)
  with I b(1) v show ?thesis by (simp add: heap_step_def)
qed

lemma heap_get_step:
  assumes inv: "heap_inv h" and r: "rid_page_id r \<in> set (heap_pages h)"
  shows "wp (heap_get r) (\<lambda>x h'. x = heap_map h r \<and> heap_step h (heap_map h) h' \<and> pool_count (hf_pool h') = pool_count (hf_pool h) \<and> hf_last h' = hf_last h
    \<and> pool_view (hf_pool h') = pool_view (hf_pool h)) (\<lambda>_ _. False) h"
proof -
  obtain p i where ri: "r = RID p i" by (cases r)
  with r have p: "p \<in> set (heap_pages h)" by simp
  have "heap_idle h" using inv by (simp add: heap_inv_def)
  note G = heap_get_spec [OF this heap_onD [OF inv p], of i]
  show ?thesis
  proof (rule wp_mono [OF wp_conj [OF G [folded ri] heap_get_map [OF inv r]]], goal_cases)
    case (1 x h')
    have "heap_step h (heap_map h') h'" by (rule page_effect_step [OF inv p conjunct1 [OF 1]]) (simp add: heap_onD(2) [OF inv p])
    moreover have "pool_count (hf_pool h') = pool_count (hf_pool h)" "hf_last h' = hf_last h" "pool_view (hf_pool h') = pool_view (hf_pool h)"
      using 1 by (auto simp: page_effect_def pool_view_def view_write_def)
    ultimately show ?case using 1 by simp
  qed simp
qed

lemma heap_update_step:
  assumes inv: "heap_inv h" and r: "heap_map h r = Some old" and len: "length new = length old"
  shows "wp (heap_update_in_place r new)
    (\<lambda>x h'. x \<and> heap_step h ((heap_map h)(r \<mapsto> new)) h' \<and> pool_count (hf_pool h') = pool_count (hf_pool h) \<and> hf_last h' = hf_last h) (\<lambda>_ _. False) h"
proof -
  obtain p i where ri: "r = RID p i" by (cases r)
  with r have p: "p \<in> set (heap_pages h)" "rid_page_id r \<in> set (heap_pages h)" by (auto simp: heap_map_def split: if_splits)
  have "heap_idle h" using inv by (simp add: heap_inv_def)
  note G = heap_update_spec [OF this heap_onD [OF inv p(1)], of i new]
  show ?thesis
  proof (rule wp_mono [OF wp_conj [OF G [folded ri] heap_update_map [OF inv p(2), of new]]], goal_cases)
    case (1 x h')
    have "heap_step h (heap_map h') h'" by (rule page_effect_step [OF inv p(1) conjunct1 [OF 1]]) simp
    moreover have "pool_count (hf_pool h') = pool_count (hf_pool h)" "hf_last h' = hf_last h"
      using 1 by (auto simp: page_effect_def pool_view_def view_write_def)
    ultimately show ?case using 1 r len by simp
  qed simp
qed

lemma heap_insert_step:
  assumes inv: "heap_inv h" and size: "HEAP_HEADER_SIZE + SLOT_SIZE + length row \<le> PAGE_SIZE"
    and cnt: "pool_count (hf_pool h) < INVALID_PAGE_ID"
  shows "wp (heap_insert row) (\<lambda>r h'. heap_map h r = None \<and> heap_step h ((heap_map h)(r \<mapsto> row)) h') (\<lambda>_ _. False) h"
proof -
  let ?p = "hf_last h" let ?d = "heap_page h ?p" let ?n = "pool_count (hf_pool h)"
  have p: "?p \<in> set (heap_pages h)" by (rule heap_last_in [OF inv])
  have idle: "heap_idle h" and av: "2 \<le> v_avail (pool_view (hf_pool h))" "pool_pins (hf_pool h) ?p = 0"
    using inv by (simp_all add: heap_inv_def)
  note D = heap_onD [OF inv p] and M = heap_insert_map [OF inv size cnt]
  have two: "heap_insert row = heap_insert_loop (Suc 1) row" by (simp add: heap_insert_def numeral_2_eq_2 del: heap_insert_loop.simps)
  show ?thesis
  proof (cases "has_room ?d row")
    case True
    note F = heap_insert_fit [OF idle D size True, of 1, folded two]
    show ?thesis
    proof (rule wp_mono [OF wp_conj [OF F M]], goal_cases)
      case (1 r h')
      have "heap_step h (heap_map h') h'" by (rule page_effect_step [OF inv p conjunct1 [OF 1]]) simp
      then show ?case using 1 by simp
    qed simp
  next
    case False
    have lim: "?n < 2 ^ 32" using cnt by (simp add: INVALID_PAGE_ID_def)
    note G = heap_insert_grow [OF idle av D(1) lim D(2) size False, of 0, folded One_nat_def, folded two]
    show ?thesis
    proof (rule wp_mono [OF wp_conj [OF G M]], goal_cases)
      case (1 r h')
      then obtain b d d1 where h': "h' = h\<lparr>hf_pool := b, hf_last := ?n\<rparr>" "heap_idle h'"
        and b: "pool_view b = (pool_view (hf_pool h))\<lparr>v_count := ?n + 1, v_page := (heap_page h)(?n := d, ?p := d1)\<rparr>"
        by blast
      note v = pool_view_eqD [OF b, simplified, unfolded pool_view_sel]
      have "pool_step (set (heap_pages h)) (hf_pool h) b"
        using h' p v cnt b unfolding pool_step_def by (auto simp: heap_idle_def)
      with 1 h' v have "heap_step h (heap_map h') h'" unfolding heap_step_def by auto
      then show ?case using conjunct2 [OF 1] by simp
    qed simp
  qed
qed

section \<open>Two pools with the same pages\<close>

text \<open>
  What an operation on a heap returns and which bytes it writes depends only on the pages, not on which of them are in
  memory. \<open>twin b b'\<close> says that the idle pool \<open>b'\<close> has the pages of \<open>b\<close>.
\<close>

definition twin :: "pool \<Rightarrow> pool \<Rightarrow> bool" where
  "twin b b' \<longleftrightarrow> pool_inv b' \<and> pool_stale b' = {} \<and> 2 \<le> v_avail (pool_view b') \<and> pool_pins b' = (\<lambda>_. 0)
     \<and> pool_count b' = pool_count b \<and> (\<forall>p < pool_count b. pool_page b' p = pool_page b p)"

lemma twin_heap:
  assumes inv: "heap_inv (heap_of b f)" and twin: "twin b b'"
  shows "heap_inv (heap_of b' f)" and "heap_pages (heap_of b' f) = heap_pages (heap_of b f)"
    and "heap_map (heap_of b' f) = heap_map (heap_of b f)" and "hf_last (heap_of b' f) = hf_last (heap_of b f)"
proof -
  note T = twin [unfolded twin_def]
  have cnt: "pool_count b' \<le> INVALID_PAGE_ID" and pages: "\<And>p. p \<in> set (heap_pages (heap_of b f)) \<Longrightarrow> p < pool_count b' \<and> pool_page b' p = pool_page b p"
    using inv T by (auto simp: heap_inv_def heap_on_def)
  have *: "pool_inv b'" "pool_stale b' = {}" "2 \<le> v_avail (pool_view b')" "pool_pins b' (hf_last (heap_of b f)) = 0" using T by simp_all
  show I: "heap_inv (heap_of b' f)" "heap_pages (heap_of b' f) = heap_pages (heap_of b f)" "heap_map (heap_of b' f) = heap_map (heap_of b f)"
    using heap_same [OF inv *(1-3) cnt pages *(4)] by auto
  show "hf_last (heap_of b' f) = hf_last (heap_of b f)" using I inv by (simp add: heap_inv_def heap_on_def)
qed

lemma twin_view: "twin b b' \<Longrightarrow> at_view {} (pool_view b') b'' \<Longrightarrow> twin b b''"
  by (auto simp: twin_def at_view_def pool_view_def)

lemma twin_of_view: "twin b b' \<Longrightarrow> pool_view b'' = pool_view b \<Longrightarrow> twin b'' b'"
  by (auto simp: twin_def pool_view_def)

lemma twin_write:
  assumes "twin b b'" and "p < pool_count b" and "pool_view b1 = view_write p d (pool_view b)" and "pool_view b1' = view_write p d (pool_view b')"
    and "pool_inv b1'" and "pool_stale b1' = {}"
  shows "twin b1 b1'"
  using assms pool_view_eqD [OF assms(3), simplified, unfolded pool_view_sel] pool_view_eqD [OF assms(4), simplified, unfolded pool_view_sel]
  by (auto simp: twin_def)

lemma heap_update_twin:
  assumes inv: "heap_inv (heap_of b f)" and twin: "twin b b'" and r: "heap_map (heap_of b f) r = Some old" and len: "length new = length old"
    and run: "heap_update_in_place r new (heap_of b f) = (x, h1)"
  shows "\<exists>h2. heap_update_in_place r new (heap_of b' f) = (Inr True, h2) \<and> twin (hf_pool h1) (hf_pool h2)"
proof -
  let ?h = "heap_of b f" let ?h' = "heap_of b' f" note H = twin_heap [OF inv twin]
  obtain p i where ri: "r = RID p i" by (cases r)
  with r have p: "p \<in> set (heap_pages ?h)" "p \<in> set (heap_pages ?h')" "tuple_at (heap_page ?h p) i = Some old" using H(2) by (auto simp: heap_map_def split: if_splits)
  have idle: "heap_idle ?h" "heap_idle ?h'" using inv H(1) by (simp_all add: heap_inv_def)
  note D = heap_onD [OF inv p(1)] and D' = heap_onD [OF H(1) p(2)]
  have pg: "heap_page ?h' p = heap_page ?h p" using D(1) twin by (simp add: twin_def)
  from heap_update_exact [OF idle(1) D, of i new] run obtain b1 d where 1: "h1 = ?h\<lparr>hf_pool := b1\<rparr>" "pool_view b1 = view_write p d (pool_view b)"
    "d = slice_assign (slot_off (heap_page ?h p) i) (slot_off (heap_page ?h p) i + slot_len (heap_page ?h p) i) new (heap_page ?h p)"
    using p(3) len by (auto simp: wp_total page_effect_def ri)
  from heap_update_exact [OF idle(2) D', of i new] obtain b2 where 2: "heap_update_in_place r new ?h' = (Inr True, ?h'\<lparr>hf_pool := b2\<rparr>)"
    "pool_view b2 = view_write p d (pool_view b')" "heap_idle (?h'\<lparr>hf_pool := b2\<rparr>)"
    using p(3) len unfolding pg 1(3) by (auto simp: wp_total page_effect_def ri)
  have "twin b1 b2" by (rule twin_write [OF twin _ 1(2) 2(2)]) (use D(1) 2(3) in \<open>simp_all add: heap_idle_def\<close>)
  with 1(1) 2(1) show ?thesis by simp
qed

lemma heap_insert_twin:
  assumes inv: "heap_inv (heap_of b f)" and twin: "twin b b'" and size: "HEAP_HEADER_SIZE + SLOT_SIZE + length row \<le> PAGE_SIZE"
    and cnt: "pool_count b < INVALID_PAGE_ID" and run: "heap_insert row (heap_of b f) = (Inr r, h1)"
  shows "\<exists>h2. heap_insert row (heap_of b' f) = (Inr r, h2) \<and> twin (hf_pool h1) (hf_pool h2)"
proof -
  let ?h = "heap_of b f" let ?h' = "heap_of b' f" let ?p = "hf_last ?h" let ?n = "pool_count b"
  note H = twin_heap [OF inv twin] and T = twin [unfolded twin_def]
  have p: "?p \<in> set (heap_pages ?h)" "?p \<in> set (heap_pages ?h')" using heap_last_in [OF inv] H(2) by simp_all
  have I: "heap_idle ?h" "2 \<le> v_avail (pool_view (hf_pool ?h))" "pool_pins (hf_pool ?h) ?p = 0"
    "heap_idle ?h'" "2 \<le> v_avail (pool_view (hf_pool ?h'))" "pool_pins (hf_pool ?h') (hf_last ?h') = 0"
    using inv H(1) by (simp_all add: heap_inv_def)
  note D = heap_onD [OF inv p(1)] and D' = heap_onD [OF H(1) p(2)]
  have pg: "heap_page ?h' ?p = heap_page ?h ?p" using D(1) T by simp
  have two: "heap_insert row = heap_insert_loop (Suc (Suc 0)) row" by (simp add: heap_insert_def numeral_2_eq_2 del: heap_insert_loop.simps)
  show ?thesis
  proof (cases "has_room (heap_page ?h ?p) row")
    case True
    from heap_insert_fit_exact [OF I(1) D size True, of "Suc 0", folded two] run obtain b1 d where 1: "h1 = ?h\<lparr>hf_pool := b1\<rparr>"
      "pool_view b1 = view_write ?p d (pool_view b)" "placed (heap_page ?h ?p) row d" "r = RID ?p (insert_slot (heap_page ?h ?p))"
      by (auto simp: wp_total page_effect_def)
    have "has_room (heap_page ?h' (hf_last ?h')) row" using True by (simp only: H(4) pg)
    from heap_insert_fit_exact [OF I(4) _ _ size this, of "Suc 0", folded two, unfolded H(4) pg, OF D'(1) D(2)]
    obtain b2 d' where 2: "heap_insert row ?h' = (Inr r, ?h'\<lparr>hf_pool := b2\<rparr>)" "pool_view b2 = view_write ?p d' (pool_view b')"
      "placed (heap_page ?h ?p) row d'" "heap_idle (?h'\<lparr>hf_pool := b2\<rparr>)"
      by (auto simp: wp_total page_effect_def 1(4))
    have "d' = d" using placed_unique(1) [OF 2(3) 1(3)] .
    then have "twin b1 b2" using twin_write [OF twin _ 1(2), of b2] D(1) 2(2,4) by (simp add: heap_idle_def)
    with 1(1) 2(1) show ?thesis by simp
  next
    case False
    have lim: "pool_count (hf_pool ?h) < 2 ^ 32" "pool_count (hf_pool ?h') < 2 ^ 32" using cnt T by (simp_all add: INVALID_PAGE_ID_def)
    from heap_insert_grow_exact [OF I(1-3) D(1) lim(1) D(2) size False, of 0, folded two] run obtain b1 d d1 where 1: "h1 = ?h\<lparr>hf_pool := b1, hf_last := ?n\<rparr>"
      "pool_view b1 = (pool_view b)\<lparr>v_count := ?n + 1, v_page := (heap_page ?h)(?n := d, ?p := d1)\<rparr>" "r = RID ?n 0" "placed_new row d"
      "write_header (heap_page ?h ?p) (page_type_value PT_HEAP) (page_num (heap_page ?h ?p)) (page_free (heap_page ?h ?p)) ?n = Inr d1"
      by (auto simp: wp_total)
    have "\<not> has_room (heap_page ?h' (hf_last ?h')) row" using False by (simp only: H(4) pg not_False_eq_True)
    from heap_insert_grow_exact [OF I(4-6) _ lim(2) _ size this, of 0, folded two, unfolded H(4) pg, OF D'(1) D(2)]
    obtain b2 d' d1' where 2: "heap_insert row ?h' = (Inr r, ?h'\<lparr>hf_pool := b2, hf_last := ?n\<rparr>)" "heap_idle (?h'\<lparr>hf_pool := b2, hf_last := ?n\<rparr>)"
      "pool_view b2 = (pool_view b')\<lparr>v_count := ?n + 1, v_page := (heap_page ?h')(?n := d', ?p := d1')\<rparr>" "placed_new row d'"
      "write_header (heap_page ?h ?p) (page_type_value PT_HEAP) (page_num (heap_page ?h ?p)) (page_free (heap_page ?h ?p)) ?n = Inr d1'"
      using T 1(3) by (auto simp: wp_total)
    have eq: "d' = d" "d1' = d1" using placed_unique(2) [OF 2(4) 1(4)] 1(5) 2(5) by simp_all
    have "twin b1 b2"
      using pool_view_eqD [OF 1(2), simplified, unfolded pool_view_sel] pool_view_eqD [OF 2(3), simplified, unfolded pool_view_sel] 2(2,3) T eq
      by (auto simp: twin_def heap_idle_def)
    with 1(1) 2(1) show ?thesis by simp
  qed
qed

end
