(* ===== verification/Op_Records.thy ===== *)
theory Op_Records
  imports Database_Laws BTree_Node
begin

text \<open>
  The operation records of rows: that they are small enough to be logged, and that logging them
  succeeds. The bound on the name of a table keeps a record below the four-byte length of the log.
\<close>

section \<open>The records\<close>

definition insert_op :: "ustring \<Rightarrow> bytes \<Rightarrow> rid \<Rightarrow> (ustring \<times> json) list" where
  "insert_op name tup rid =
     [(u ''kind'', JStr (u ''heap_insert'')), (u ''table'', JStr name), (u ''tuple'', JStr (b64encode tup)), (u ''rid'', rid_json rid)]"

definition xmax_op :: "ustring \<Rightarrow> rid \<Rightarrow> nat \<Rightarrow> (ustring \<times> json) list" where
  "xmax_op name rid x =
     [(u ''kind'', JStr (u ''heap_set_xmax'')), (u ''table'', JStr name), (u ''rid'', rid_json rid), (u ''xmax'', JInt (int x))]"

definition small_name :: "ustring \<Rightarrow> bool" where
  "small_name name \<longleftrightarrow> str_ok name \<and> length name \<le> 2 ^ 20"

definition small_rid :: "rid \<Rightarrow> bool" where
  "small_rid r \<longleftrightarrow> rid_page_id r < 2 ^ 32 \<and> rid_slot_id r < 2 ^ 32"

section \<open>Their length\<close>

lemma length_escape: "length (escape_char c) \<le> 12"
  by (simp add: escape_char_def hex4_def)

lemma length_dump_string: "length (dump_string s) \<le> 12 * length s + 2"
proof -
  have "length (concat (map escape_char s)) \<le> 12 * length s"
  proof (induction s)
    case (Cons c s)
    then show ?case using length_escape [of c] by simp
  qed simp
  then show ?thesis by (simp add: dump_string_def)
qed

lemma length_nat_digits: "n < 10 ^ Suc k \<Longrightarrow> length (nat_digits n) \<le> Suc k"
proof (induction k arbitrary: n)
  case 0
  then show ?case by (simp add: nat_digits.simps)
next
  case (Suc k)
  then have "n div 10 < 10 ^ Suc k" by (simp add: less_mult_imp_div_less)
  from Suc.IH [OF this] show ?case by (subst nat_digits.simps) simp
qed

lemma length_small_digits: "n < 2 ^ 32 \<Longrightarrow> length (nat_digits n) \<le> 10"
  using length_nat_digits [of n 9] by simp

lemma length_b64encode: "length (b64encode bs) \<le> 4 * length bs"
  by (induction bs rule: b64encode.induct) simp_all

lemma str_ok_b64: "str_ok (b64encode bs)"
  using b64encode_ascii [of bs] by (auto simp: str_ok_def list_all_iff is_surrogate_def)

lemma rid_json_ok [simp]: "json_ok (rid_json r)"
  by (simp add: rid_json_def)

lemma length_rid_json: "small_rid r \<Longrightarrow> length (dump_with (\<lambda>d. []) [58] k (rid_json r)) \<le> 23"
  using length_small_digits [of "rid_page_id r"] length_small_digits [of "rid_slot_id r"]
  by (simp add: rid_json_def small_rid_def int_str_def)

lemma insert_op_ok:
  assumes "small_name name" and "small_rid rid" and "length tup \<le> PAGE_SIZE" and "x < 2 ^ 32"
  shows "entry_ok (R_OP, x, insert_op name tup rid)"
proof -
  have ok: "json_ok (JObj (insert_op name tup rid))"
    using assms(1) str_ok_const str_ok_b64 by (simp add: insert_op_def small_name_def) (simp add: u_def)
  obtain bs where bs: "utf8_encode (dumps (JObj (insert_op name tup rid))) = Inr bs" "length bs = length (dumps (JObj (insert_op name tup rid)))"
    by (rule loads_dumps [OF ok])
  have "length (dumps (JObj (insert_op name tup rid))) < 2 ^ 32"
    using length_dump_string [of name] length_dump_string [of "b64encode tup"] length_b64encode [of tup] length_rid_json [OF assms(2), of 1] assms(1,3)
    by (simp add: dumps_def insert_op_def small_name_def PAGE_SIZE_def) (simp add: u_def dump_string_def escape_char_def)
  then show ?thesis using ok assms(4) bs by (simp add: payload_bytes_def)
qed

lemma xmax_op_ok:
  assumes "small_name name" and "small_rid rid" and "y < 2 ^ 32" and "x < 2 ^ 32"
  shows "entry_ok (R_OP, x, xmax_op name rid y)"
proof -
  have ok: "json_ok (JObj (xmax_op name rid y))"
    using assms(1) str_ok_const by (simp add: xmax_op_def small_name_def) (simp add: u_def)
  obtain bs where bs: "utf8_encode (dumps (JObj (xmax_op name rid y))) = Inr bs" "length bs = length (dumps (JObj (xmax_op name rid y)))"
    by (rule loads_dumps [OF ok])
  have "length (dumps (JObj (xmax_op name rid y))) < 2 ^ 32"
    using length_dump_string [of name] length_rid_json [OF assms(2), of 1] length_small_digits [OF assms(3)] assms(1)
    by (simp add: dumps_def xmax_op_def small_name_def int_str_def) (simp add: u_def dump_string_def escape_char_def)
  then show ?thesis using ok assms(4) bs by (simp add: payload_bytes_def)
qed

text \<open>The record of an index entry; its key is an integer of 64 bits or a short text.\<close>

definition index_op :: "ustring \<Rightarrow> ustring \<Rightarrow> pyval \<Rightarrow> rid \<Rightarrow> (ustring \<times> json) list" where
  "index_op name index key rid =
     [(u ''kind'', JStr (u ''btree_insert'')), (u ''table'', JStr name), (u ''index'', JStr index), (u ''key'', key_json key), (u ''rid'', rid_json rid)]"

lemma utf8_encode_str_ok:
  "utf8_encode s = Inr bs \<Longrightarrow> str_ok s \<and> length s \<le> length bs"
proof (induction s arbitrary: bs)
  case (Cons c s)
  then obtain cs bs' where c: "utf8_encode_char c = Inr cs" "utf8_encode s = Inr bs'" "bs = cs @ bs'"
    by (auto simp: utf8_encode_def elim!: res_bindE)
  then have "c < 1114112 \<and> \<not> is_surrogate c \<and> cs \<noteq> []" by (auto simp: utf8_encode_char_def is_surrogate_def split: if_splits)
  with Cons.IH [OF c(2)] c(3) show ?case by (cases cs) (auto simp: str_ok_def)
qed (simp add: str_ok_def)

lemma key_json_small:
  assumes "key_ok c key" and "bc_key_size c \<le> 1016"
  shows "json_ok (key_json key)" and "length (dump_with (\<lambda>d. []) [58] k (key_json key)) \<le> 12200"
proof -
  have d: "length (nat_digits n) \<le> 20" if "n \<le> 2 ^ 63" for n using length_nat_digits [of n 19] that by simp
  have "json_ok (key_json key) \<and> length (dump_with (\<lambda>d. []) [58] k (key_json key)) \<le> 12200"
  proof (cases key)
    case (VInt i)
    then have "- (2 ^ 63) \<le> i" "i < 2 ^ 63" using assms(1) by (simp_all add: key_ok_def)
    then have "length (nat_digits (nat (- i))) \<le> 20" "length (nat_digits (nat i)) \<le> 20" by (auto intro!: d)
    then show ?thesis using VInt by (simp add: int_str_def)
  next
    case (VStr s)
    then obtain bs where "utf8_encode s = Inr bs" "length bs \<le> bc_key_size c" using assms(1) by (auto simp: key_ok_def split: sum.splits)
    then have "str_ok s" "length s \<le> 1016" using utf8_encode_str_ok [of s bs] assms(2) by auto
    then show ?thesis using VStr length_dump_string [of s] by simp
  qed (use assms(1) in \<open>simp_all add: key_ok_def\<close>)
  then show "json_ok (key_json key)" and "length (dump_with (\<lambda>d. []) [58] k (key_json key)) \<le> 12200" by simp_all
qed

lemma index_op_ok:
  assumes "small_name name" and "small_name index" and "small_rid rid" and "key_ok c key" and "bc_key_size c \<le> 1016" and "x < 2 ^ 32"
  shows "entry_ok (R_OP, x, index_op name index key rid)"
proof -
  note K = key_json_small [OF assms(4,5)]
  have ok: "json_ok (JObj (index_op name index key rid))"
    using assms(1,2) str_ok_const K(1) by (simp add: index_op_def small_name_def) (simp add: u_def)
  obtain bs where bs: "utf8_encode (dumps (JObj (index_op name index key rid))) = Inr bs" "length bs = length (dumps (JObj (index_op name index key rid)))"
    by (rule loads_dumps [OF ok])
  have "length (dumps (JObj (index_op name index key rid))) < 2 ^ 32"
    using length_dump_string [of name] length_dump_string [of index] length_rid_json [OF assms(3), of 1] K(2) [of 1] assms(1,2)
    by (simp add: dumps_def index_op_def small_name_def) (simp add: u_def dump_string_def escape_char_def)
  then show ?thesis using ok assms(6) bs by (simp add: payload_bytes_def)
qed

section \<open>Logging them\<close>

lemma wal_append_ok:
  assumes "\<not> wl_closed w" and "entry_ok (rt, x, p)"
  shows "\<exists>n. wal_append rt x p w = (Inr n, w\<lparr>wl_bytes := wl_bytes w @ entry_bytes (rt, x, p)\<rparr>)"
proof -
  have enc: "(if p \<noteq> [] then utf8_encode (dumps (JObj p)) else Inr []) = Inr (payload_bytes p)"
    using payload_loads(2) [of p] assms(2) by (auto simp: payload_bytes_def)
  have "pack_log_header rt x (length (payload_bytes p)) =
      Inr (le_bytes 1 (record_type_value rt) @ le_bytes 4 x @ le_bytes 4 (length (payload_bytes p)))"
    using assms(2) record_type_value_bound [of rt] by (simp add: pack_log_header_def pack_uint_def)
  with assms(1) enc show ?thesis
    by (simp add: wal_append_def wal_op_def wal_write_def py_bind_def py_seq_def py_lift_def py_return_def)
qed

lemma db_log_eq:
  assumes "\<not> wl_closed (tm_wal (db_mgr db))" and "entry_ok (R_OP, tx_id t, (u ''kind'', JStr (u kind)) # kwargs)"
  shows "db_log t kind kwargs db = (Inr (), db\<lparr>db_mgr := logged [(R_OP, tx_id t, (u ''kind'', JStr (u kind)) # kwargs)] (db_mgr db)\<rparr>)"
  using wal_append_ok [OF assms]
  by (auto simp: db_log_def on_mgr_def txn_log_operation_def on_wal_def log_operation_def py_zoom_def py_seq_def py_bind_def py_return_def
      logged_def log_bytes_def)

end
