(* ===== verification/Table_Rows.thy ===== *)
theory Table_Rows
  imports Table_Heaps Op_Records Query_Laws
begin

text \<open>
  The rows of the tables of a database. The state of a database without indexes is abstracted to the
  row versions of each table; the statements are shown to change exactly these versions, and
  queries to read exactly the visible ones.
\<close>

section \<open>Databases without indexes\<close>

abbreviation db_pool :: "database \<Rightarrow> pool" where
  "db_pool db \<equiv> cat_pool (db_catalog db)"

abbreviation tables :: "database \<Rightarrow> ustring \<Rightarrow> table_meta option" where
  "tables db \<equiv> map_of (cat_tables (db_catalog db))"

definition set_pool :: "pool \<Rightarrow> database \<Rightarrow> database" where
  "set_pool b db = db\<lparr>db_catalog := (db_catalog db)\<lparr>cat_pool := b\<rparr>\<rparr>"

definition table_heap :: "database \<Rightarrow> table_meta \<Rightarrow> heapfile" where
  "table_heap db m = heap_of (db_pool db) (tb_heap_first_page_id m)"

text \<open>The heap object that a method makes for a table: its first and last page.\<close>

definition heap_object :: "database \<Rightarrow> table_meta \<Rightarrow> nat \<times> nat" where
  "heap_object db m = (tb_heap_first_page_id m, hf_last (table_heap db m))"

definition versions :: "database \<Rightarrow> ustring \<Rightarrow> rid \<Rightarrow> bytes option" where
  "versions db n r = (case tables db n of None \<Rightarrow> None | Some m \<Rightarrow> heap_map (table_heap db m) r)"

definition plain_db :: "database \<Rightarrow> bool" where
  "plain_db db \<longleftrightarrow>
     (\<forall>n m. tables db n = Some m \<longrightarrow> tb_name m = n \<and> tb_indexes m = [] \<and> heap_inv (table_heap db m))
     \<and> (\<forall>n m n' m'. tables db n = Some m \<longrightarrow> tables db n' = Some m' \<longrightarrow> n \<noteq> n' \<longrightarrow>
           set (heap_pages (table_heap db m)) \<inter> set (heap_pages (table_heap db m')) = {})"

lemma set_pool_sel [simp]:
  "db_pool (set_pool b db) = b" "tables (set_pool b db) = tables db" "db_mgr (set_pool b db) = db_mgr db"
  "cat_tables (db_catalog (set_pool b db)) = cat_tables (db_catalog db)"
  by (simp_all add: set_pool_def)

lemma plain_dbD:
  assumes "plain_db db" and "tables db n = Some m"
  shows "tb_name m = n" and "tb_indexes m = []" and "heap_inv (table_heap db m)"
    and "tables db n' = Some m' \<Longrightarrow> n \<noteq> n' \<Longrightarrow> set (heap_pages (table_heap db m)) \<inter> set (heap_pages (table_heap db m')) = {}"
  using assms unfolding plain_db_def by blast+

lemma table_heap_sel [simp]: "hf_first (table_heap db m) = tb_heap_first_page_id m" "hf_pool (table_heap db m) = db_pool db"
  by (simp_all add: table_heap_def)

lemma heap_object_heap [simp]:
  "\<lparr>hf_first = tb_heap_first_page_id m, hf_last = hf_last (table_heap db m), hf_pool = db_pool db\<rparr> = table_heap db m"
  by (simp add: table_heap_def heap_of_def)

lemma versions_table: "tables db n = Some m \<Longrightarrow> versions db n = heap_map (table_heap db m)"
  by (simp add: versions_def fun_eq_iff)

text \<open>A step on the heap of one table changes the versions of this table only.\<close>

lemma plain_step:
  assumes plain: "plain_db db" and tab: "tables db n = Some m" and step: "heap_step (table_heap db m) M h'"
    and db': "cat_tables (db_catalog db') = cat_tables (db_catalog db)" "db_pool db' = hf_pool h'"
  shows "plain_db db'" and "versions db' = (versions db)(n := M)" and "table_heap db' m = h'"
    and "pool_count (db_pool db') \<le> Suc (pool_count (db_pool db))"
proof -
  note P = plain_dbD [OF plain] and S = step [unfolded heap_step_def, simplified]
  show own: "table_heap db' m = h'" using heap_inv_of [of h'] S db'(2) by (simp add: table_heap_def)
  have other: "heap_inv (table_heap db' m')" "heap_pages (table_heap db' m') = heap_pages (table_heap db m')"
    "heap_map (table_heap db' m') = heap_map (table_heap db m')" if "tables db n' = Some m'" "n' \<noteq> n" for n' m'
  proof -
    have "set (heap_pages (table_heap db m')) \<inter> set (heap_pages (table_heap db m)) = {}" using P(4) [OF that(1) tab that(2)] .
    from heap_frame [OF P(3) [OF that(1), unfolded table_heap_def] _ this [unfolded table_heap_def]] S db'(2)
    show "heap_inv (table_heap db' m')" "heap_pages (table_heap db' m') = heap_pages (table_heap db m')"
      "heap_map (table_heap db' m') = heap_map (table_heap db m')" by (simp_all add: table_heap_def)
  qed
  have apart: "set (heap_pages h') \<inter> set (heap_pages (table_heap db m')) = {}" if "tables db n' = Some m'" "n' \<noteq> n" for n' m'
  proof -
    have "\<forall>q \<in> set (heap_pages (table_heap db m')). q < pool_count (db_pool db)"
      using P(3) [OF that(1)] by (simp add: heap_inv_def heap_on_def)
    then show ?thesis using S P(4) [OF tab that(1)] that(2) by fastforce
  qed
  show "plain_db db'" unfolding plain_db_def db'(1)
  proof (intro conjI allI impI)
    fix n1 m1 assume t: "tables db n1 = Some m1"
    show "tb_name m1 = n1" "tb_indexes m1 = []" using P(1,2) [OF t] by simp_all
    show "heap_inv (table_heap db' m1)" using t tab own S other(1) [OF t] by (cases "n1 = n") auto
  next
    fix n1 m1 n2 m2 assume t: "tables db n1 = Some m1" "tables db n2 = Some m2" "n1 \<noteq> n2"
    show "set (heap_pages (table_heap db' m1)) \<inter> set (heap_pages (table_heap db' m2)) = {}"
    proof (cases "n1 = n \<or> n2 = n")
      case True
      then show ?thesis using t tab own apart [OF t(1)] apart [OF t(2)] other(2) [OF t(1)] other(2) [OF t(2)] by auto
    next
      case False
      then show ?thesis using other(2) [OF t(1)] other(2) [OF t(2)] P(4) [OF t(1,2,3)] by simp
    qed
  qed
  show "versions db' = (versions db)(n := M)"
  proof (rule ext)
    fix n1
    show "versions db' n1 = ((versions db)(n := M)) n1"
      using own S tab other(3) [of n1] db'(1) by (cases "n1 = n") (auto simp: versions_def fun_eq_iff split: option.splits)
  qed
  show "pool_count (db_pool db') \<le> Suc (pool_count (db_pool db))" using S db'(2) by simp
qed

lemma plain_view:
  assumes plain: "plain_db db" and view: "at_view {} (pool_view (db_pool db)) b"
  shows "plain_db (set_pool b db)" and "versions (set_pool b db) = versions db"
    and "tables db n = Some m \<Longrightarrow> heap_object (set_pool b db) m = heap_object db m"
    and "tables db n = Some m \<Longrightarrow> heap_rows (table_heap (set_pool b db) m) = heap_rows (table_heap db m)"
    and "pool_count b = pool_count (db_pool db)"
proof -
  have V: "pool_count b = pool_count (db_pool db)" "pool_page b = pool_page (db_pool db)" "pool_pins b = pool_pins (db_pool db)"
    "pool_inv b" "pool_stale b = {}" "v_avail (pool_view b) = v_avail (pool_view (db_pool db))"
    using view by (auto simp: at_view_def pool_view_def)
  have pages: "heap_pages (table_heap (set_pool b db) m) = heap_pages (table_heap db m)" for m
    by (simp add: heap_pages_def V)
  have last: "hf_last (table_heap (set_pool b db) m) = hf_last (table_heap db m)" for m
    by (simp add: table_heap_def heap_of_def heap_pages_def V)
  have inv: "heap_inv (table_heap (set_pool b db) m) = heap_inv (table_heap db m)" if "heap_inv (table_heap db m)" for m
    using that by (simp add: heap_inv_def heap_on_def heap_idle_def pages last V)
  show "plain_db (set_pool b db)" using plain inv unfolding plain_db_def by (auto simp: pages)
  have "heap_map (table_heap (set_pool b db) m) = heap_map (table_heap db m)" for m
    by (simp add: heap_map_def fun_eq_iff pages V)
  then show "versions (set_pool b db) = versions db" by (simp add: versions_def fun_eq_iff split: option.splits)
  show "heap_object (set_pool b db) m = heap_object db m" by (simp add: heap_object_def last)
  show "heap_rows (table_heap (set_pool b db) m) = heap_rows (table_heap db m)" by (simp add: heap_rows_def pages V)
  show "pool_count b = pool_count (db_pool db)" by (rule V(1))
qed

section \<open>Inserting rows\<close>

lemma rid_ok_version:
  assumes "heap_inv h" and "heap_map h r = Some t"
  shows "rid_ok r"
proof -
  have p: "rid_page_id r \<in> set (heap_pages h)" "tuple_at (heap_page h (rid_page_id r)) (rid_slot_id r) = Some t"
    using assms(2) by (auto simp: heap_map_def split: if_splits)
  have "rid_page_id r < 2 ^ 32" using assms(1) p(1) by (auto simp: heap_inv_def heap_on_def INVALID_PAGE_ID_def)
  moreover have "page_num (heap_page h (rid_page_id r)) < 2 ^ 16"
    using heap_page_okD(1) [OF heap_onD(2) [OF assms(1) p(1)]] fld_bound [of 1 2 "heap_page h (rid_page_id r)"] PAGE_SIZE_def
    by (simp add: page_num_def)
  ultimately show ?thesis using p(2) by (simp add: rid_ok_def tuple_at_Some_iff)
qed

lemma small_rid_version: "heap_inv h \<Longrightarrow> heap_map h r = Some t \<Longrightarrow> small_rid r"
  using rid_ok_version [of h r t] by (simp add: rid_ok_def small_rid_def)

lemma open_heap_run:
  assumes "heap_inv (table_heap db m)"
  shows "\<exists>b. on_catalog (open_heap m) db = (Inr (heap_object db m), set_pool b db) \<and> at_view {} (pool_view (db_pool db)) b"
proof -
  have "wp (heap_open (Some (tb_heap_first_page_id m)))
    (\<lambda>(f, l) b. heap_inv \<lparr>hf_first = f, hf_last = l, hf_pool = b\<rparr>
      \<and> f = tb_heap_first_page_id m \<and> l = hf_last (table_heap db m) \<and> pool_view b = pool_view (db_pool db)) (\<lambda>_ _. False) (db_pool db)"
    using heap_open_existing [OF assms] by simp
  then obtain b where "heap_open (Some (tb_heap_first_page_id m)) (db_pool db) = (Inr (heap_object db m), b)"
    and b: "heap_inv \<lparr>hf_first = tb_heap_first_page_id m, hf_last = hf_last (table_heap db m), hf_pool = b\<rparr>" "pool_view b = pool_view (db_pool db)"
    by (auto simp: wp_total heap_object_def)
  moreover have "at_view {} (pool_view (db_pool db)) b" using b by (simp add: at_view_def heap_inv_def heap_idle_def)
  ultimately show ?thesis by (auto simp: on_catalog_def open_heap_def on_cat_pool_def py_zoom_def set_pool_def)
qed

lemma open_heap_eq:
  assumes "plain_db db" and "tables db n = Some m"
  shows "\<exists>b. on_catalog (open_heap m) db = (Inr (heap_object db m), set_pool b db) \<and> at_view {} (pool_view (db_pool db)) b"
  by (rule open_heap_run [OF plain_dbD(3) [OF assms]])

definition fits_page :: "bytes \<Rightarrow> bool" where
  "fits_page tup \<longleftrightarrow> HEAP_HEADER_SIZE + SLOT_SIZE + length tup \<le> PAGE_SIZE"

section \<open>Redoing logged operations\<close>

lemma insert_op_items:
  "j_item (u ''table'') (JObj (insert_op n tup r)) = Inr (JStr n)" "j_item (u ''kind'') (JObj (insert_op n tup r)) = Inr (JStr (u ''heap_insert''))"
  "j_item (u ''tuple'') (JObj (insert_op n tup r)) = Inr (JStr (b64encode tup))"
  by (simp_all add: insert_op_def j_item_def u_def)

lemma xmax_op_items:
  "j_item (u ''table'') (JObj (xmax_op n r x)) = Inr (JStr n)" "j_item (u ''kind'') (JObj (xmax_op n r x)) = Inr (JStr (u ''heap_set_xmax''))"
  "j_item (u ''rid'') (JObj (xmax_op n r x)) = Inr (rid_json r)" "j_item (u ''xmax'') (JObj (xmax_op n r x)) = Inr (JInt (int x))"
  by (simp_all add: xmax_op_def j_item_def u_def)

lemma json_rid_json [simp]: "json_rid (rid_json r) = Inr r"
  by (simp add: rid_json_def json_rid_def j_nat_def)

lemma kind_names: "u ''heap_set_xmax'' \<noteq> u ''heap_insert''"
  by (simp add: u_def)

lemma get_table_eq: "on_catalog (get_table n) db = (case tables db n of None \<Rightarrow> Inl TableNotFoundError | Some m \<Rightarrow> Inr m, db)"
  by (simp add: on_catalog_def py_zoom_def get_table_def py_bind_def py_gets_def py_return_def py_raise_def split: option.splits)

text \<open>The loop of recovery over a list of log entries.\<close>

abbreviation redo_ops :: "log_entry list \<Rightarrow> (database, unit) py" where
  "redo_ops es \<equiv> py_for es (\<lambda>(_, _, p). apply_recovery_op (JObj p))"

definition twin_db :: "database \<Rightarrow> database \<Rightarrow> bool" where
  "twin_db db dbx \<longleftrightarrow> cat_tables (db_catalog dbx) = cat_tables (db_catalog db) \<and> twin (db_pool db) (db_pool dbx)"

text \<open>Redoing \<open>es\<close> on any database with the tables and pages of \<open>db\<close> gives one with those of \<open>db'\<close>.\<close>

definition replays :: "database \<Rightarrow> log_entry list \<Rightarrow> database \<Rightarrow> bool" where
  "replays db es db' \<longleftrightarrow> (\<forall>dbx. twin_db db dbx \<longrightarrow> (\<exists>dbx'. redo_ops es dbx = (Inr (), dbx') \<and> twin_db db' dbx' \<and> db_mgr dbx' = db_mgr dbx))"

lemma replays_view:
  "pool_view (db_pool db') = pool_view (db_pool db) \<Longrightarrow> cat_tables (db_catalog db') = cat_tables (db_catalog db) \<Longrightarrow> replays db [] db'"
  by (auto simp: replays_def py_return_def twin_db_def twin_of_view)

lemma redo_append: "redo_ops (es @ es') db = py_seq (redo_ops es) (redo_ops es') db"
proof (induction es arbitrary: db)
  case (Cons e es)
  then show ?case by (auto simp: py_seq_def py_bind_def fun_eq_iff split: prod.splits sum.splits)
qed (simp add: py_seq_def py_bind_def py_return_def)

lemma replays_trans: "replays db es db' \<Longrightarrow> replays db' es' db'' \<Longrightarrow> replays db (es @ es') db''"
  unfolding replays_def redo_append py_seq_def py_bind_def by fastforce

lemma plain_twin:
  assumes plain: "plain_db db" and tw: "twin_db db db'"
  shows "plain_db db'" and "versions db' = versions db"
proof -
  have cat: "cat_tables (db_catalog db') = cat_tables (db_catalog db)" and tp: "twin (db_pool db) (db_pool db')" using tw by (simp_all add: twin_db_def)
  have H: "heap_inv (table_heap db' m)" "heap_pages (table_heap db' m) = heap_pages (table_heap db m)"
    "heap_map (table_heap db' m) = heap_map (table_heap db m)" if "tables db n = Some m" for n m
    using twin_heap [OF plain_dbD(3) [OF plain that, unfolded table_heap_def] tp] by (simp_all add: table_heap_def)
  show "plain_db db'" using plain H unfolding plain_db_def cat by metis
  show "versions db' = versions db" using H(3) cat by (auto simp: versions_def fun_eq_iff split: option.splits)
qed

lemma twin_open:
  assumes "heap_inv (table_heap db m)" and "twin_db db dbx"
  shows "\<exists>b. on_catalog (open_heap m) dbx = (Inr (heap_object db m), set_pool b dbx) \<and> twin (db_pool db) b"
proof -
  have tw: "twin (db_pool db) (db_pool dbx)" using assms(2) by (simp add: twin_db_def)
  note H = twin_heap [OF assms(1) [unfolded table_heap_def] tw]
  have "heap_object dbx m = heap_object db m" using H(4) by (simp add: heap_object_def table_heap_def)
  then show ?thesis using open_heap_run [of dbx m] H(1) twin_view [OF tw] by (auto simp: table_heap_def)
qed

lemma replays_insert:
  assumes heap: "heap_inv (table_heap db m)" and tab: "tables db n = Some m" and fits: "fits_page tup" and cnt: "pool_count (db_pool db) < INVALID_PAGE_ID"
    and run: "heap_insert tup (table_heap db m) = (Inr r, h')"
    and db': "db_pool db' = hf_pool h'" "cat_tables (db_catalog db') = cat_tables (db_catalog db)"
  shows "replays db [(ty, x, insert_op n tup r0)] db'"
  unfolding replays_def
proof (intro allI impI)
  fix dbx assume tw: "twin_db db dbx"
  obtain b where b: "on_catalog (open_heap m) dbx = (Inr (heap_object db m), set_pool b dbx)" "twin (db_pool db) b"
    using twin_open [OF heap tw] by blast
  from heap_insert_twin [OF heap [unfolded table_heap_def] b(2) fits [unfolded fits_page_def] cnt run [unfolded table_heap_def]]
  obtain h2 where h2: "heap_insert tup (heap_of b (tb_heap_first_page_id m)) = (Inr r, h2)" "twin (hf_pool h') (hf_pool h2)" by blast
  have "heap_of b (tb_heap_first_page_id m) = \<lparr>hf_first = tb_heap_first_page_id m, hf_last = hf_last (table_heap db m), hf_pool = b\<rparr>"
    using twin_heap(4) [OF heap [unfolded table_heap_def] b(2)] by (simp add: table_heap_def heap_of_def)
  with h2(1) have "on_db_pool (heap_do (heap_object db m) (heap_insert tup)) (set_pool b dbx) = (Inr (r, hf_first h2, hf_last h2), set_pool (hf_pool h2) dbx)"
    by (simp add: heap_do_def heap_object_def on_db_pool_def on_catalog_def on_cat_pool_def py_zoom_def set_pool_def)
  moreover have "tables dbx n = Some m" using tw tab by (simp add: twin_db_def)
  ultimately have "redo_ops [(ty, x, insert_op n tup r0)] dbx = (Inr (), set_pool (hf_pool h2) dbx)"
    using b(1) by (simp add: apply_recovery_op_def redo_heap_insert_def insert_op_items py_bind_def py_seq_def py_lift_def py_return_def
        j_str_def get_table_eq b64_roundtrip)
  moreover have "twin_db db' (set_pool (hf_pool h2) dbx)" using h2(2) db' tw by (simp add: twin_db_def)
  ultimately show "\<exists>dbx'. redo_ops [(ty, x, insert_op n tup r0)] dbx = (Inr (), dbx') \<and> twin_db db' dbx' \<and> db_mgr dbx' = db_mgr dbx" by simp
qed

lemma replays_xmax:
  assumes heap: "heap_inv (table_heap db m)" and tab: "tables db n = Some m" and old: "heap_map (table_heap db m) r = Some raw"
    and xm: "with_xmax raw x = Inr raw'" and run: "heap_update_in_place r raw' (table_heap db m) = (y, h')"
    and db': "db_pool db' = hf_pool h'" "cat_tables (db_catalog db') = cat_tables (db_catalog db)"
  shows "replays db [(ty, t, xmax_op n r x)] db'"
  unfolding replays_def
proof (intro allI impI)
  let ?f = "tb_heap_first_page_id m"
  fix dbx assume tw: "twin_db db dbx"
  obtain b where b: "on_catalog (open_heap m) dbx = (Inr (heap_object db m), set_pool b dbx)" "twin (db_pool db) b"
    using twin_open [OF heap tw] by blast
  note H = twin_heap [OF heap [unfolded table_heap_def] b(2)]
  have ob: "\<lparr>hf_first = ?f, hf_last = hf_last (table_heap db m), hf_pool = b\<rparr> = heap_of b ?f"
    using H(4) by (simp add: table_heap_def heap_of_def)
  have map: "heap_map (heap_of b ?f) r = Some raw" using old H(3) by (simp add: table_heap_def)
  then have pg: "rid_page_id r \<in> set (heap_pages (heap_of b ?f))" by (auto simp: heap_map_def split: if_splits)
  obtain h1 where g: "heap_get r (heap_of b ?f) = (Inr (Some raw), h1)" and st: "heap_step (heap_of b ?f) (heap_map (heap_of b ?f)) h1"
    and same: "pool_view (hf_pool h1) = pool_view b" "hf_last h1 = hf_last (heap_of b ?f)"
    using heap_get_step [OF H(1) pg] map by (auto simp: wp_total)
  have "at_view {} (pool_view b) (hf_pool h1)" using st same(1) by (simp add: at_view_def heap_step_def heap_inv_def heap_idle_def)
  then have tw1: "twin (db_pool db) (hf_pool h1)" by (rule twin_view [OF b(2)])
  have h1: "heap_of (hf_pool h1) ?f = \<lparr>hf_first = ?f, hf_last = hf_last (table_heap db m), hf_pool = hf_pool h1\<rparr>"
    using twin_heap(4) [OF heap [unfolded table_heap_def] tw1] by (simp add: table_heap_def heap_of_def)
  have "length raw' = length raw" using with_xmax_spec(1) [OF xm] by simp
  from heap_update_twin [OF heap [unfolded table_heap_def] tw1 old [unfolded table_heap_def] this run [unfolded table_heap_def]]
  obtain h2 where h2: "heap_update_in_place r raw' (heap_of (hf_pool h1) ?f) = (Inr True, h2)" "twin (hf_pool h') (hf_pool h2)" by blast
  let ?db1 = "set_pool (hf_pool h1) dbx" let ?db2 = "set_pool (hf_pool h2) dbx"
  have "on_db_pool (with_heap (heap_object db m) (heap_get r)) (set_pool b dbx) = (Inr (Some raw), ?db1)"
    using g by (simp add: with_heap_def heap_object_def ob on_db_pool_def on_catalog_def on_cat_pool_def py_zoom_def set_pool_def)
  moreover have "on_db_pool (with_heap (heap_object db m) (heap_update_in_place r raw')) ?db1 = (Inr True, ?db2)"
    using h2(1) by (simp add: with_heap_def heap_object_def h1 on_db_pool_def on_catalog_def on_cat_pool_def py_zoom_def set_pool_def)
  moreover have "tables dbx n = Some m" using tw tab by (simp add: twin_db_def)
  ultimately have "redo_ops [(ty, t, xmax_op n r x)] dbx = (Inr (), ?db2)"
    using b(1) xm by (simp add: apply_recovery_op_def redo_set_xmax_def xmax_op_items py_bind_def py_seq_def py_lift_def py_return_def
        j_str_def j_nat_def get_table_eq kind_names)
  moreover have "twin_db db' ?db2" using h2(2) db' tw by (simp add: twin_db_def)
  ultimately show "\<exists>dbx'. redo_ops [(ty, t, xmax_op n r x)] dbx = (Inr (), dbx') \<and> twin_db db' dbx' \<and> db_mgr dbx' = db_mgr dbx" by simp
qed

section \<open>Changes of rows\<close>

text \<open>The tuple of a new row version.\<close>

definition row_tuple :: "schema \<Rightarrow> nat \<Rightarrow> pyval list \<Rightarrow> bytes res" where
  "row_tuple sch x vs = res_bind (encode_row vs sch) (pack_tuple x INFINITY_TXN)"

text \<open>What stays the same in a database when rows of its tables change; redoing the log entries repeats the change.\<close>

definition row_change :: "database \<Rightarrow> ustring \<Rightarrow> (rid \<Rightarrow> bytes option) \<Rightarrow> log_entry list \<Rightarrow> nat \<Rightarrow> database \<Rightarrow> bool" where
  "row_change db n M ops k db' \<longleftrightarrow> plain_db db' \<and> cat_tables (db_catalog db') = cat_tables (db_catalog db)
     \<and> versions db' = (versions db)(n := M) \<and> db_mgr db' = logged ops (db_mgr db)
     \<and> pool_count (db_pool db') \<le> pool_count (db_pool db) + k \<and> list_all entry_ok ops \<and> replays db ops db'"

lemma row_change_refl: "plain_db db \<Longrightarrow> row_change db n (versions db n) [] 0 db"
  using replays_view [of db db] by (simp add: row_change_def)

lemma row_change_trans:
  "row_change db n M ops k db' \<Longrightarrow> row_change db' n M' ops' k' db'' \<Longrightarrow> row_change db n M' (ops @ ops') (k + k') db''"
  by (auto simp: row_change_def logged_append intro: replays_trans)

text \<open>The run of \<^verbatim>\<open>insert\<close> and the log record that follows, for any table with its heap in the pool.\<close>

lemma insert_version_run:
  assumes heap: "heap_inv (table_heap db m)" and log: "\<not> wl_closed (tm_wal (db_mgr db))" "tx_id t < 2 ^ 32" "small_name (tb_name m)"
    and tup: "row_tuple (tb_schema m) (tx_id t) vs = Inr tup" "fits_page tup" and cnt: "pool_count (db_pool db) < INVALID_PAGE_ID"
  shows "\<exists>rid h'. let db' = (set_pool (hf_pool h') db)\<lparr>db_mgr := logged [(R_OP, tx_id t, insert_op (tb_name m) tup rid)] (db_mgr db)\<rparr>
    in insert_version m t (heap_object db m) vs db = (Inr (rid, heap_object db' m), db') \<and> heap_map (table_heap db m) rid = None
      \<and> heap_step (table_heap db m) ((heap_map (table_heap db m))(rid \<mapsto> tup)) h' \<and> small_rid rid
      \<and> heap_insert tup (table_heap db m) = (Inr rid, h')"
proof -
  let ?h = "table_heap db m"
  from tup(1) obtain payload where enc: "encode_row vs (tb_schema m) = Inr payload" "pack_tuple (tx_id t) INFINITY_TXN payload = Inr tup"
    by (auto simp: row_tuple_def elim!: res_bindE)
  have "pool_count (hf_pool ?h) < INVALID_PAGE_ID" using cnt by simp
  from heap_insert_step [OF heap tup(2) [unfolded fits_page_def] this]
  obtain rid h' where ins: "heap_insert tup ?h = (Inr rid, h')" and new: "heap_map ?h rid = None" and st: "heap_step ?h ((heap_map ?h)(rid \<mapsto> tup)) h'"
    by (auto simp: wp_total)
  let ?e = "(R_OP, tx_id t, insert_op (tb_name m) tup rid)" let ?db1 = "set_pool (hf_pool h') db"
  define db' where "db' = ?db1\<lparr>db_mgr := logged [?e] (db_mgr db)\<rparr>"
  have h': "heap_inv h'" "heap_map h' rid = Some tup" "hf_first h' = tb_heap_first_page_id m" using st by (simp_all add: heap_step_def)
  have own: "table_heap db' m = h'" using heap_inv_of [OF h'(1)] h'(3) by (simp add: table_heap_def db'_def set_pool_def)
  have "heap_do (heap_object db m) (heap_insert tup) (db_pool db) = (Inr (rid, heap_object db' m), hf_pool h')"
    using ins own st by (simp add: heap_do_def heap_object_def heap_step_def split: prod.splits)
  then have do': "on_db_pool (heap_do (heap_object db m) (heap_insert tup)) db = (Inr (rid, heap_object db' m), ?db1)"
    by (simp add: on_db_pool_def on_catalog_def on_cat_pool_def py_zoom_def set_pool_def)
  have rid: "small_rid rid" by (rule small_rid_version [OF h'(1,2)])
  then have "entry_ok ?e" using insert_op_ok [OF log(3)] log(2) tup(2) by (simp add: fits_page_def del: entry_ok.simps)
  then have "db_log t ''heap_insert'' [(u ''table'', JStr (tb_name m)), (u ''tuple'', JStr (b64encode tup)), (u ''rid'', rid_json rid)] ?db1
      = (Inr (), db')"
    using db_log_eq [of ?db1 t "''heap_insert''"] log(1) by (simp add: insert_op_def db'_def del: entry_ok.simps)
  then have "insert_version m t (heap_object db m) vs db = (Inr (rid, heap_object db' m), db')"
    using enc do' by (simp add: insert_version_def py_bind_def py_seq_def py_lift_def py_return_def)
  with new st rid ins show ?thesis unfolding db'_def Let_def by blast
qed

lemma insert_version_eq:
  assumes plain: "plain_db db" and tab: "tables db n = Some m" and log: "\<not> wl_closed (tm_wal (db_mgr db))" "tx_id t < 2 ^ 32" "small_name n"
    and tup: "row_tuple (tb_schema m) (tx_id t) vs = Inr tup" "fits_page tup" and cnt: "pool_count (db_pool db) < INVALID_PAGE_ID"
  obtains rid db' where "insert_version m t (heap_object db m) vs db = (Inr (rid, heap_object db' m), db')" and "versions db n rid = None"
    and "row_change db n ((versions db n)(rid \<mapsto> tup)) [(R_OP, tx_id t, insert_op n tup rid)] 1 db'"
proof -
  let ?h = "table_heap db m"
  note P = plain_dbD [OF plain tab] and V = versions_table [OF tab]
  have name: "small_name (tb_name m)" using P(1) log(3) by simp
  obtain rid h' db' where db'_def: "db' = (set_pool (hf_pool h') db)\<lparr>db_mgr := logged [(R_OP, tx_id t, insert_op n tup rid)] (db_mgr db)\<rparr>"
    and run: "insert_version m t (heap_object db m) vs db = (Inr (rid, heap_object db' m), db')" and new: "heap_map ?h rid = None"
    and st: "heap_step ?h ((heap_map ?h)(rid \<mapsto> tup)) h'" and ins: "heap_insert tup ?h = (Inr rid, h')" and small: "small_rid rid"
    using insert_version_run [OF P(3) log(1,2) name tup cnt] P(1) unfolding Let_def by metis
  have S: "plain_db db'" "versions db' = (versions db)(n := (heap_map ?h)(rid \<mapsto> tup))" "pool_count (db_pool db') \<le> Suc (pool_count (db_pool db))"
    by (rule plain_step [OF plain tab st]; simp add: db'_def set_pool_def)+
  have "replays db [(R_OP, tx_id t, insert_op n tup rid)] db'"
    by (rule replays_insert [OF P(3) tab tup(2) cnt ins]) (simp_all add: db'_def)
  moreover have "entry_ok (R_OP, tx_id t, insert_op n tup rid)" using insert_op_ok [OF log(3) small _ log(2)] tup(2) by (simp add: fits_page_def del: entry_ok.simps)
  ultimately have "row_change db n ((versions db n)(rid \<mapsto> tup)) [(R_OP, tx_id t, insert_op n tup rid)] 1 db'"
    using S V by (simp add: row_change_def del: entry_ok.simps) (simp add: db'_def)
  with run new V show ?thesis using that by simp
qed

lemma no_indexes_eq:
  assumes "plain_db db" and "tables db n = Some m"
  shows "insert_into_indexes m t vm rid heap ex db = (Inr (), db)"
  using plain_dbD(1,2) [OF assms] assms(2) by (simp add: insert_into_indexes_def py_bind_def py_gets_def py_return_def)

text \<open>The new versions have new row ids; their tuples are logged in order.\<close>

lemma insert_rows_eq:
  assumes "plain_db db" and "tables db n = Some m" and "\<not> wl_closed (tm_wal (db_mgr db))" and "tx_id t < 2 ^ 32" and "small_name n"
    and "res_map (row_tuple (tb_schema m) (tx_id t)) rows = Inr tups" and "list_all fits_page tups"
    and "pool_count (db_pool db) + length rows \<le> INVALID_PAGE_ID"
  shows "\<exists>rids db'. insert_rows m t (heap_object db m) rows k db = (Inr (k + length rows), db') \<and> length rids = length tups \<and> distinct rids
    \<and> (\<forall>r \<in> set rids. versions db n r = None)
    \<and> row_change db n ((versions db n)(rids [\<mapsto>] tups)) (map2 (\<lambda>tup r. (R_OP, tx_id t, insert_op n tup r)) tups rids) (length rows) db'"
  using assms
proof (induction rows arbitrary: db tups k)
  case Nil
  then show ?case using row_change_refl by (simp add: py_return_def)
next
  case (Cons vs rows)
  from Cons.prems(6) obtain tup tups' where tup: "row_tuple (tb_schema m) (tx_id t) vs = Inr tup"
    and rest: "res_map (row_tuple (tb_schema m) (tx_id t)) rows = Inr tups'" and tups: "tups = tup # tups'" by (auto elim!: res_bindE)
  have cnt: "pool_count (db_pool db) < INVALID_PAGE_ID" and fit: "fits_page tup" using Cons.prems(7,8) tups by simp_all
  obtain rid db1 where ins: "insert_version m t (heap_object db m) vs db = (Inr (rid, heap_object db1 m), db1)"
    and new: "versions db n rid = None"
    and ch: "row_change db n ((versions db n)(rid \<mapsto> tup)) [(R_OP, tx_id t, insert_op n tup rid)] 1 db1"
    by (rule insert_version_eq [OF Cons.prems(1-5) tup fit cnt])
  have db1: "plain_db db1" "tables db1 n = Some m" "\<not> wl_closed (tm_wal (db_mgr db1))" "versions db1 n = (versions db n)(rid \<mapsto> tup)"
    "pool_count (db_pool db1) + length rows \<le> INVALID_PAGE_ID"
    using ch Cons.prems by (auto simp: row_change_def)
  obtain rids db2 where R: "insert_rows m t (heap_object db1 m) rows (k + 1) db1 = (Inr (k + 1 + length rows), db2)"
    "length rids = length tups'" "distinct rids" "\<forall>r \<in> set rids. versions db1 n r = None"
    and ch2: "row_change db1 n ((versions db1 n)(rids [\<mapsto>] tups')) (map2 (\<lambda>tup r. (R_OP, tx_id t, insert_op n tup r)) tups' rids) (length rows) db2"
    using Cons.IH [OF db1(1,2,3) Cons.prems(4,5) rest _ db1(5), of "k + 1"] Cons.prems(7) tups by auto
  have "rid \<notin> set rids" using R(4) db1(4) by auto
  have "insert_rows m t (heap_object db m) (vs # rows) k db = (Inr (k + length (vs # rows)), db2)"
    using ins R(1) no_indexes_eq [OF db1(1,2)] by (simp add: py_bind_def py_seq_def)
  moreover have "row_change db n ((versions db n)(rid # rids [\<mapsto>] tups)) (map2 (\<lambda>tup r. (R_OP, tx_id t, insert_op n tup r)) tups (rid # rids)) (length (vs # rows)) db2"
    using row_change_trans [OF ch ch2] db1(4) tups by simp
  moreover have "length (rid # rids) = length tups" "distinct (rid # rids)" using R(2,3) \<open>rid \<notin> set rids\<close> tups by simp_all
  moreover have "\<forall>r \<in> set (rid # rids). versions db n r = None" using R(4) new db1(4) by (auto split: if_splits)
  ultimately show ?case by blast
qed

section \<open>Reading and stamping versions\<close>

lemma db_heap_get_eq:
  assumes "plain_db db" and "tables db n = Some m" and "versions db n r = Some raw"
  shows "\<exists>db'. db_heap_get (heap_object db m) r db = (Inr (Some raw), db') \<and> row_change db n (versions db n) [] 0 db' \<and> heap_object db' m = heap_object db m"
proof -
  let ?h = "table_heap db m"
  note P = plain_dbD [OF assms(1,2)] and V = versions_table [OF assms(2)]
  have "rid_page_id r \<in> set (heap_pages ?h)" using assms(3) V by (auto simp: heap_map_def split: if_splits)
  from heap_get_step [OF P(3) this] obtain h' where g: "heap_get r ?h = (Inr (Some raw), h')"
    and st: "heap_step ?h (heap_map ?h) h'" and cnt: "pool_count (hf_pool h') = pool_count (db_pool db)" "hf_last h' = hf_last ?h"
      "pool_view (hf_pool h') = pool_view (db_pool db)"
    using assms(3) V by (auto simp: wp_total)
  define db' where "db' = set_pool (hf_pool h') db"
  have S: "plain_db db'" "versions db' = (versions db)(n := heap_map ?h)" "table_heap db' m = h'"
    by (rule plain_step [OF assms(1,2) st]; simp add: db'_def set_pool_def)+
  have "db_heap_get (heap_object db m) r db = (Inr (Some raw), db')"
    using g by (simp add: db_heap_get_def on_db_pool_def on_catalog_def on_cat_pool_def with_heap_def py_zoom_def heap_object_def db'_def set_pool_def)
  moreover have "replays db [] db'" by (rule replays_view) (simp_all add: db'_def cnt(3))
  then have "row_change db n (versions db n) [] 0 db'" using S V cnt by (simp add: row_change_def) (simp add: db'_def)
  ultimately show ?thesis using S(3) cnt(2) by (auto simp: heap_object_def)
qed

lemma stamp_deleted_eq:
  assumes plain: "plain_db db" and tab: "tables db n = Some m" and log: "\<not> wl_closed (tm_wal (db_mgr db))" "tx_id t < 2 ^ 32" "small_name n"
    and r: "versions db n r = Some raw" and x: "with_xmax raw (tx_id t) = Inr raw'"
  shows "\<exists>db'. stamp_deleted m t (heap_object db m) r raw db = (Inr (), db') \<and> heap_object db' m = heap_object db m
    \<and> row_change db n ((versions db n)(r \<mapsto> raw')) [(R_OP, tx_id t, xmax_op n r (tx_id t))] 0 db'"
proof -
  let ?h = "table_heap db m" let ?e = "(R_OP, tx_id t, xmax_op n r (tx_id t))"
  note P = plain_dbD [OF plain tab] and V = versions_table [OF tab]
  have old: "heap_map ?h r = Some raw" using r V by simp
  have "length raw' = length raw" using with_xmax_spec [OF x] by simp
  from heap_update_step [OF P(3) old this] obtain h' where upd: "heap_update_in_place r raw' ?h = (Inr True, h')"
    and st: "heap_step ?h ((heap_map ?h)(r \<mapsto> raw')) h'" and cnt: "pool_count (hf_pool h') = pool_count (db_pool db)" "hf_last h' = hf_last ?h"
    by (auto simp: wp_total)
  let ?db1 = "set_pool (hf_pool h') db"
  define db' where "db' = ?db1\<lparr>db_mgr := logged [?e] (db_mgr db)\<rparr>"
  have S: "plain_db db'" "versions db' = (versions db)(n := (heap_map ?h)(r \<mapsto> raw'))" "table_heap db' m = h'"
    by (rule plain_step [OF plain tab st]; simp add: db'_def set_pool_def)+
  have up: "on_db_pool (with_heap (heap_object db m) (heap_update_in_place r raw')) db = (Inr True, ?db1)"
    using upd by (simp add: on_db_pool_def on_catalog_def on_cat_pool_def with_heap_def py_zoom_def heap_object_def set_pool_def)
  have ok: "entry_ok ?e" using xmax_op_ok [OF log(3) small_rid_version [OF P(3) old] log(2,2)] .
  have "db_log t ''heap_set_xmax'' [(u ''table'', JStr (tb_name m)), (u ''rid'', rid_json r), (u ''xmax'', JInt (int (tx_id t)))] ?db1
      = (Inr (), db')"
    using db_log_eq [of ?db1 t "''heap_set_xmax''"] ok log(1) P(1) by (simp add: xmax_op_def db'_def del: entry_ok.simps)
  then have "stamp_deleted m t (heap_object db m) r raw db = (Inr (), db')"
    using x up by (simp add: stamp_deleted_def py_bind_def py_seq_def py_lift_def)
  moreover have "replays db [?e] db'" by (rule replays_xmax [OF P(3) tab old x upd]) (simp_all add: db'_def)
  then have "row_change db n ((versions db n)(r \<mapsto> raw')) [?e] 0 db'" using S V cnt ok by (simp add: row_change_def del: entry_ok.simps) (simp add: db'_def)
  ultimately show ?thesis using S(3) cnt(2) by (auto simp: heap_object_def)
qed

text \<open>The versions that a transaction may stamp: nobody who has not aborted has deleted them.\<close>

definition stampable :: "database \<Rightarrow> transaction \<Rightarrow> bytes \<Rightarrow> bool" where
  "stampable db t raw \<longleftrightarrow> (\<exists>xmin xmax. unpack_tuple_header raw = Inr (xmin, xmax)
     \<and> (xmax = INFINITY_TXN \<or> xmax = tx_id t \<or> xmax \<in> tm_aborted_xids (db_mgr db)))"

lemma check_conflict_eq:
  "stampable db t raw \<Longrightarrow> check_conflict t raw db = (Inr (), db)"
  by (auto simp: stampable_def check_conflict_def py_bind_def py_lift_def on_mgr_def py_zoom_def check_write_conflict_eq)

definition stamped :: "nat \<Rightarrow> bytes \<Rightarrow> bytes" where
  "stamped x raw = (case with_xmax raw x of Inr raw' \<Rightarrow> raw' | Inl _ \<Rightarrow> raw)"

lemma with_xmax_stamped:
  assumes "unpack_tuple_header raw = Inr h" and "x < 2 ^ 32"
  shows "with_xmax raw x = Inr (stamped x raw)"
proof -
  have "le_nat (take 4 raw) < 2 ^ 32" using le_nat_bound [of "take 4 raw"] power_increasing [of "length (take 4 raw)" 4 "256 :: nat"] by simp
  then show ?thesis using assms by (auto simp: stamped_def with_xmax_def unpack_tuple_header_def pack_tuple_def pack_uint_def split: if_splits)
qed

lemma row_changeD:
  assumes "row_change db n M ops k db'"
  shows "plain_db db'" and "tables db' = tables db" and "versions db' n = M" and "wl_closed (tm_wal (db_mgr db')) = wl_closed (tm_wal (db_mgr db))"
    and "stampable db' t raw = stampable db t raw" and "pool_count (db_pool db') \<le> pool_count (db_pool db) + k"
  using assms by (simp_all add: row_change_def stampable_def)

section \<open>Deleting rows\<close>

definition stamp_all :: "nat \<Rightarrow> rid set \<Rightarrow> (rid \<Rightarrow> bytes option) \<Rightarrow> rid \<Rightarrow> bytes option" where
  "stamp_all x R M = (\<lambda>r. if r \<in> R then map_option (stamped x) (M r) else M r)"

lemma stamp_all_insert: "r \<notin> R \<Longrightarrow> M r = Some raw \<Longrightarrow> stamp_all x R (M(r \<mapsto> stamped x raw)) = stamp_all x (insert r R) M"
  by (auto simp: stamp_all_def fun_eq_iff)

text \<open>Rows of a scan, with the ids of their versions, which the transaction may stamp.\<close>

definition targets :: "database \<Rightarrow> ustring \<Rightarrow> transaction \<Rightarrow> row list \<Rightarrow> rid list \<Rightarrow> bool" where
  "targets db n t rows rids \<longleftrightarrow> map row_rid rows = map Inr rids \<and> distinct rids
     \<and> (\<forall>r \<in> set rids. \<exists>raw. versions db n r = Some raw \<and> stampable db t raw)"

lemma targets_Cons:
  assumes "targets db n t (row # rows) rids"
  shows "\<exists>r rids' raw. rids = r # rids' \<and> row_rid row = Inr r \<and> r \<notin> set rids' \<and> versions db n r = Some raw \<and> stampable db t raw
    \<and> (\<forall>M ops k db'. row_change db n M ops k db' \<longrightarrow> (\<forall>q \<in> set rids'. M q = versions db n q) \<longrightarrow> targets db' n t rows rids')"
proof -
  from assms obtain r rids' where r: "rids = r # rids'" "row_rid row = Inr r" "map row_rid rows = map Inr rids'" "distinct rids"
    by (cases rids) (auto simp: targets_def)
  with assms obtain raw where "versions db n r = Some raw" "stampable db t raw" by (auto simp: targets_def)
  moreover have "targets db' n t rows rids'" if "row_change db n M ops k db'" "\<forall>q \<in> set rids'. M q = versions db n q" for M ops k db'
    using assms r that row_changeD(3,5) [OF that(1)] by (auto simp: targets_def)
  ultimately show ?thesis using r by auto
qed

lemma delete_rows_eq:
  assumes "plain_db db" and "tables db n = Some m" and "\<not> wl_closed (tm_wal (db_mgr db))" and "tx_id t < 2 ^ 32" and "small_name n"
    and "targets db n t rows rids"
  shows "\<exists>db'. delete_rows m t (heap_object db m) rows k db = (Inr (k + length rows), db')
    \<and> row_change db n (stamp_all (tx_id t) (set rids) (versions db n)) (map (\<lambda>r. (R_OP, tx_id t, xmax_op n r (tx_id t))) rids) 0 db'"
  using assms
proof (induction rows arbitrary: db rids k)
  case Nil
  then show ?case using row_change_refl [of db n] by (simp add: targets_def stamp_all_def py_return_def)
next
  case (Cons row rows)
  let ?x = "tx_id t"
  obtain r rids' raw where r: "rids = r # rids'" "row_rid row = Inr r" "r \<notin> set rids'" "versions db n r = Some raw" "stampable db t raw"
    and later: "\<forall>M ops k db'. row_change db n M ops k db' \<longrightarrow> (\<forall>q \<in> set rids'. M q = versions db n q) \<longrightarrow> targets db' n t rows rids'"
    using targets_Cons [OF Cons.prems(6)] by blast
  obtain db1 where g: "db_heap_get (heap_object db m) r db = (Inr (Some raw), db1)" "heap_object db1 m = heap_object db m"
    and c1: "row_change db n (versions db n) [] 0 db1" using db_heap_get_eq [OF Cons.prems(1,2) r(4)] by blast
  note D1 = row_changeD [OF c1]
  have x: "with_xmax raw ?x = Inr (stamped ?x raw)" using r(5) with_xmax_stamped [OF _ Cons.prems(4)] by (auto simp: stampable_def)
  obtain db2 where st: "stamp_deleted m t (heap_object db1 m) r raw db1 = (Inr (), db2)" "heap_object db2 m = heap_object db1 m"
    and c2: "row_change db1 n ((versions db1 n)(r \<mapsto> stamped ?x raw)) [(R_OP, ?x, xmax_op n r ?x)] 0 db2"
    using stamp_deleted_eq [OF D1(1), of n m t r raw] Cons.prems(2-5) r(4) x D1(2-4) by auto
  note D2 = row_changeD [OF c2] and c12 = row_change_trans [OF c1 c2]
  have "targets db2 n t rows rids'" using later c12 D1(3) r(3) by auto
  then obtain db3 where rest: "delete_rows m t (heap_object db2 m) rows (k + 1) db2 = (Inr (k + 1 + length rows), db3)"
    and c3: "row_change db2 n (stamp_all ?x (set rids') (versions db2 n)) (map (\<lambda>r. (R_OP, ?x, xmax_op n r ?x)) rids') 0 db3"
    using Cons.IH [OF D2(1), of rids' "k + 1"] Cons.prems(2-5) D1(2,4) D2(2,4) by auto
  have "delete_rows m t (heap_object db m) (row # rows) k db = (Inr (k + length (row # rows)), db3)"
    using r(2) g st rest check_conflict_eq [of db1 t raw] D1(5) r(5) by (simp add: py_bind_def py_seq_def py_lift_def)
  moreover have "row_change db n (stamp_all ?x (set rids) (versions db n)) (map (\<lambda>r. (R_OP, ?x, xmax_op n r ?x)) rids) 0 db3"
    using row_change_trans [OF c12 c3] D1(3) D2(3) stamp_all_insert [of r "set rids'" "versions db n" raw ?x] r(1,3,4) by simp
  ultimately show ?case by blast
qed

section \<open>Updating rows\<close>

text \<open>The tuple of the version that replaces a version.\<close>

definition update_tuple :: "table_meta \<Rightarrow> nat \<Rightarrow> (ustring \<times> expr) list \<Rightarrow> bytes \<Rightarrow> bytes res" where
  "update_tuple m x assigns raw =
     (let names = schema_names (tb_schema m)
      in res_bind (decode_row (tuple_payload raw) (tb_schema m)) (\<lambda>old_values.
         res_bind (assign_values assigns (to_dict (zip names old_values))) (\<lambda>value_map.
         res_bind (pick_values names value_map) (row_tuple (tb_schema m) x))))"

definition update_ops :: "nat \<Rightarrow> ustring \<Rightarrow> rid list \<Rightarrow> bytes list \<Rightarrow> rid list \<Rightarrow> log_entry list" where
  "update_ops x n rids tups new =
     concat (map (\<lambda>(r, tup, r'). [(R_OP, x, xmax_op n r x), (R_OP, x, insert_op n tup r')]) (zip rids (zip tups new)))"

lemma update_version_eq:
  assumes plain: "plain_db db" and tab: "tables db n = Some m" and log: "\<not> wl_closed (tm_wal (db_mgr db))" "tx_id t < 2 ^ 32" "small_name n"
    and r: "versions db n r = Some raw" "stampable db t raw" and tup: "update_tuple m (tx_id t) assigns raw = Inr tup" "fits_page tup"
    and cnt: "pool_count (db_pool db) < INVALID_PAGE_ID"
  shows "\<exists>r' db'. update_version m t assigns (heap_object db m) r raw db = (Inr (heap_object db' m), db') \<and> versions db n r' = None
    \<and> row_change db n ((versions db n)(r \<mapsto> stamped (tx_id t) raw, r' \<mapsto> tup))
        [(R_OP, tx_id t, xmax_op n r (tx_id t)), (R_OP, tx_id t, insert_op n tup r')] 1 db'"
proof -
  let ?x = "tx_id t" let ?names = "schema_names (tb_schema m)"
  from tup(1) obtain old vm vs where v: "decode_row (tuple_payload raw) (tb_schema m) = Inr old"
    "assign_values assigns (to_dict (zip ?names old)) = Inr vm" "pick_values ?names vm = Inr vs" "row_tuple (tb_schema m) ?x vs = Inr tup"
    by (auto simp: update_tuple_def Let_def elim!: res_bindE)
  have x: "with_xmax raw ?x = Inr (stamped ?x raw)" using r(2) with_xmax_stamped [OF _ log(2)] by (auto simp: stampable_def)
  obtain db1 where st: "stamp_deleted m t (heap_object db m) r raw db = (Inr (), db1)" "heap_object db1 m = heap_object db m"
    and c1: "row_change db n ((versions db n)(r \<mapsto> stamped ?x raw)) [(R_OP, ?x, xmax_op n r ?x)] 0 db1"
    using stamp_deleted_eq [OF plain tab log r(1) x] by blast
  note D1 = row_changeD [OF c1]
  have db1: "tables db1 n = Some m" "\<not> wl_closed (tm_wal (db_mgr db1))" "pool_count (db_pool db1) < INVALID_PAGE_ID"
    using tab log(1) cnt D1(2,4,6) by simp_all
  obtain r' db2 where ins: "insert_version m t (heap_object db1 m) vs db1 = (Inr (r', heap_object db2 m), db2)" "versions db1 n r' = None"
    and c2: "row_change db1 n ((versions db1 n)(r' \<mapsto> tup)) [(R_OP, ?x, insert_op n tup r')] 1 db2"
    by (rule insert_version_eq [OF D1(1) db1(1,2) log(2,3) v(4) tup(2) db1(3)])
  have db2: "plain_db db2" "tables db2 n = Some m" using row_changeD(1,2) [OF c2] db1(1) by simp_all
  have "update_version m t assigns (heap_object db m) r raw db = (Inr (heap_object db2 m), db2)"
    using check_conflict_eq [OF r(2)] v st ins no_indexes_eq [OF db2] by (simp add: update_version_def py_bind_def py_seq_def py_lift_def py_return_def)
  moreover have "versions db n r' = None" using ins(2) D1(3) by (simp split: if_splits)
  moreover have "row_change db n ((versions db n)(r \<mapsto> stamped ?x raw, r' \<mapsto> tup)) [(R_OP, ?x, xmax_op n r ?x), (R_OP, ?x, insert_op n tup r')] 1 db2"
    using row_change_trans [OF c1 c2] D1(3) by simp
  ultimately show ?thesis by blast
qed

lemma stamp_all_update:
  assumes "r \<notin> R" and "M r = Some raw" and "r' \<notin> insert r R"
  shows "stamp_all x R (M(r \<mapsto> stamped x raw, r' \<mapsto> tup)) = (stamp_all x (insert r R) M)(r' \<mapsto> tup)"
  using assms by (auto simp: stamp_all_def fun_eq_iff)

lemma update_rows_eq:
  assumes "plain_db db" and "tables db n = Some m" and "\<not> wl_closed (tm_wal (db_mgr db))" and "tx_id t < 2 ^ 32" and "small_name n"
    and "targets db n t rows rids" and "map (\<lambda>r. update_tuple m (tx_id t) assigns (the (versions db n r))) rids = map Inr tups"
    and "list_all fits_page tups" and "pool_count (db_pool db) + length rows \<le> INVALID_PAGE_ID"
  shows "\<exists>new db'. update_rows m t assigns (heap_object db m) rows k db = (Inr (k + length rows), db') \<and> length new = length tups \<and> distinct new
    \<and> (\<forall>r \<in> set new. versions db n r = None)
    \<and> row_change db n ((stamp_all (tx_id t) (set rids) (versions db n))(new [\<mapsto>] tups)) (update_ops (tx_id t) n rids tups new) (length rows) db'"
  using assms
proof (induction rows arbitrary: db rids tups k)
  case Nil
  then show ?case using row_change_refl [of db n] by (simp add: targets_def stamp_all_def update_ops_def py_return_def)
next
  case (Cons row rows)
  let ?x = "tx_id t"
  obtain r rids' raw where r: "rids = r # rids'" "row_rid row = Inr r" "r \<notin> set rids'" "versions db n r = Some raw" "stampable db t raw"
    and later: "\<forall>M ops k db'. row_change db n M ops k db' \<longrightarrow> (\<forall>q \<in> set rids'. M q = versions db n q) \<longrightarrow> targets db' n t rows rids'"
    using targets_Cons [OF Cons.prems(6)] by blast
  obtain tup tups' where tup: "tups = tup # tups'" "update_tuple m ?x assigns raw = Inr tup" "fits_page tup" "list_all fits_page tups'"
    "map (\<lambda>r. update_tuple m ?x assigns (the (versions db n r))) rids' = map Inr tups'"
    using Cons.prems(7,8) r(1,4) by (cases tups) auto
  obtain db1 where g: "db_heap_get (heap_object db m) r db = (Inr (Some raw), db1)" "heap_object db1 m = heap_object db m"
    and c1: "row_change db n (versions db n) [] 0 db1" using db_heap_get_eq [OF Cons.prems(1,2) r(4)] by blast
  note D1 = row_changeD [OF c1]
  have db1: "tables db1 n = Some m" "\<not> wl_closed (tm_wal (db_mgr db1))" "pool_count (db_pool db1) < INVALID_PAGE_ID"
    "versions db1 n r = Some raw" "stampable db1 t raw"
    using Cons.prems(2,3,9) D1(2-6) r(4,5) by simp_all
  obtain r' db2 where up: "update_version m t assigns (heap_object db1 m) r raw db1 = (Inr (heap_object db2 m), db2)" "versions db1 n r' = None"
    and c2: "row_change db1 n ((versions db1 n)(r \<mapsto> stamped ?x raw, r' \<mapsto> tup)) [(R_OP, ?x, xmax_op n r ?x), (R_OP, ?x, insert_op n tup r')] 1 db2"
    using update_version_eq [OF D1(1) db1(1,2) Cons.prems(4,5) db1(4,5) tup(2,3) db1(3)] by blast
  note D2 = row_changeD [OF c2] and c12 = row_change_trans [OF c1 c2]
  have fresh: "r' \<notin> insert r (set rids')" using up(2) Cons.prems(6) D1(3) r(1) by (auto simp: targets_def)
  have same: "versions db2 n q = versions db n q" if "q \<in> set rids'" for q using that fresh r(3) D1(3) D2(3) by auto
  have "targets db2 n t rows rids'" using later c12 same D2(3) by auto
  moreover have "map (\<lambda>r. update_tuple m ?x assigns (the (versions db2 n r))) rids' = map Inr tups'"
    using tup(5) same by (metis (no_types, lifting) map_eq_conv)
  ultimately obtain new db3 where R: "update_rows m t assigns (heap_object db2 m) rows (k + 1) db2 = (Inr (k + 1 + length rows), db3)"
    "length new = length tups'" "distinct new" "\<forall>q \<in> set new. versions db2 n q = None"
    and c3: "row_change db2 n ((stamp_all ?x (set rids') (versions db2 n))(new [\<mapsto>] tups')) (update_ops ?x n rids' tups' new) (length rows) db3"
    using Cons.IH [OF D2(1), of rids' tups' "k + 1"] Cons.prems(2-5,9) D1(2,4,6) D2(2,4,6) tup(4) by auto
  have "update_rows m t assigns (heap_object db m) (row # rows) k db = (Inr (k + length (row # rows)), db3)"
    using r(2) g up(1) R(1) by (simp add: py_bind_def py_lift_def)
  moreover have "length (r' # new) = length tups" "distinct (r' # new)" using R(2-4) D2(3) tup(1) by auto
  moreover have "\<forall>q \<in> set (r' # new). versions db n q = None" using R(4) up(2) D1(3) D2(3) by (auto split: if_splits)
  moreover have "stamp_all ?x (set rids') (versions db2 n) = (stamp_all ?x (set rids) (versions db n))(r' \<mapsto> tup)"
    using stamp_all_update [of r "set rids'" "versions db n" raw r' ?x tup] r(1,3,4) fresh D1(3) D2(3) by simp
  then have "row_change db n ((stamp_all ?x (set rids) (versions db n))(r' # new [\<mapsto>] tups)) (update_ops ?x n rids tups (r' # new)) (length (row # rows)) db3"
    using row_change_trans [OF c12 c3] by (simp add: r(1) tup(1) update_ops_def)
  ultimately show ?case by blast
qed

end
