(* ===== verification/Statement_Rows.thy ===== *)
theory Statement_Rows
  imports Table_Rows
begin

text \<open>
  The statements on rows, on a database without indexes. What a statement reads is given by the
  visibility of the versions of its table and by its condition; what it writes, by the versions that it
  adds and by those that it marks as deleted.
\<close>

section \<open>The rows that a condition selects\<close>

definition scan_of :: "database \<Rightarrow> table_meta \<Rightarrow> ustring \<Rightarrow> transaction \<Rightarrow> scan_base" where
  "scan_of db m alias t = \<lparr>sb_heap = heap_object db m, sb_schema = tb_schema m, sb_alias = alias,
     sb_snapshot = tx_snapshot t, sb_txn_mgr = db_mgr db\<rparr>"

definition db_store :: "database \<Rightarrow> store" where
  "db_store db = \<lparr>st_heap = \<lambda>f. heap_rows (heap_of (db_pool db) f), st_index = \<lambda>_. []\<rparr>"

text \<open>The row that a statement of \<open>t\<close> gets from a version, if it is visible to \<open>t\<close> and the condition holds.\<close>

definition matched :: "database \<Rightarrow> table_meta \<Rightarrow> ustring \<Rightarrow> transaction \<Rightarrow> expr option \<Rightarrow> rid \<Rightarrow> row option" where
  "matched db m alias t cond r =
     (case heap_map (table_heap db m) r of
        None \<Rightarrow> None
      | Some raw \<Rightarrow>
          (case visible_row (scan_of db m alias t) r raw of
             Inr (Some row) \<Rightarrow> if holds_opt cond row = Inr True then Some row else None
           | _ \<Rightarrow> None))"

definition matched_rids :: "database \<Rightarrow> table_meta \<Rightarrow> ustring \<Rightarrow> transaction \<Rightarrow> expr option \<Rightarrow> rid list" where
  "matched_rids db m alias t cond = filter (\<lambda>r. matched db m alias t cond r \<noteq> None) (map fst (heap_rows (table_heap db m)))"

text \<open>No version and no condition raises.\<close>

definition evaluable :: "database \<Rightarrow> table_meta \<Rightarrow> ustring \<Rightarrow> transaction \<Rightarrow> expr option \<Rightarrow> bool" where
  "evaluable db m alias t cond \<longleftrightarrow> (\<forall>(r, raw) \<in> set (heap_rows (table_heap db m)).
     \<exists>v. visible_row (scan_of db m alias t) r raw = Inr v \<and> (\<forall>row. v = Some row \<longrightarrow> (\<exists>b. holds_opt cond row = Inr b)))"

lemma matched_rids_props:
  assumes "heap_inv (table_heap db m)"
  shows "distinct (matched_rids db m alias t cond)" and "sorted_wrt (<) (matched_rids db m alias t cond)"
    and "r \<in> set (matched_rids db m alias t cond) \<longleftrightarrow> matched db m alias t cond r \<noteq> None"
proof -
  have s: "sorted_wrt (<) (map fst (heap_rows (table_heap db m)))" by (rule heap_rows_sorted [OF assms])
  then show "sorted_wrt (<) (matched_rids db m alias t cond)" by (simp add: matched_rids_def sorted_wrt_filter)
  then show "distinct (matched_rids db m alias t cond)" by (simp add: strict_sorted_iff)
  have "r \<in> fst ` set (heap_rows (table_heap db m))" if hit: "matched db m alias t cond r \<noteq> None"
  proof -
    obtain raw where "heap_map (table_heap db m) r = Some raw" using hit by (cases "heap_map (table_heap db m) r") (simp_all add: matched_def)
    then show ?thesis using heap_rows_set [of r raw "table_heap db m"] by force
  qed
  then show "r \<in> set (matched_rids db m alias t cond) \<longleftrightarrow> matched db m alias t cond r \<noteq> None" by (auto simp: matched_rids_def)
qed

lemma scan_result:
  assumes inv: "heap_inv (table_heap db m)" and ev: "evaluable db m alias t cond"
  shows "plan_result (db_store db) (filtered cond (SeqScan (scan_of db m alias t)))
    = Inr (map (\<lambda>r. the (matched db m alias t cond r)) (matched_rids db m alias t cond))"
proof -
  let ?sb = "scan_of db m alias t" let ?ts = "heap_rows (table_heap db m)" let ?f = "matched db m alias t cond"
  have heap: "st_heap (db_store db) (fst (sb_heap ?sb)) = ?ts" by (simp add: db_store_def scan_of_def heap_object_def table_heap_def)
  have "plan_trace (db_store db) (SeqScan ?sb) = Inr (concat (map (seen_rows ?sb) ?ts), None)"
    using seq_trace_seen [of ?ts ?sb] ev by (fastforce simp: heap evaluable_def)
  moreover have "\<forall>row \<in> set (concat (map (seen_rows ?sb) ?ts)). \<exists>b. holds_opt cond row = Inr b"
    using ev by (fastforce simp: evaluable_def seen_rows_def split: sum.splits option.splits)
  ultimately have res: "plan_result (db_store db) (filtered cond (SeqScan ?sb))
    = Inr (filter (\<lambda>row. holds_opt cond row = Inr True) (concat (map (seen_rows ?sb) ?ts)))" by (rule plan_trace_filtered)
  have "filter (\<lambda>row. holds_opt cond row = Inr True) (concat (map (seen_rows ?sb) ts))
    = map (\<lambda>r. the (?f r)) (filter (\<lambda>r. ?f r \<noteq> None) (map fst ts))" if "set ts \<subseteq> set ?ts" for ts
    using that
  proof (induction ts)
    case (Cons x ts)
    obtain r raw where x: "x = (r, raw)" by (cases x)
    have "heap_map (table_heap db m) r = Some raw" using Cons.prems heap_rows_set x by auto
    then have "?f r = (case visible_row ?sb r raw of Inr (Some row) \<Rightarrow> if holds_opt cond row = Inr True then Some row else None | _ \<Rightarrow> None)"
      by (simp add: matched_def)
    then show ?case using Cons by (auto simp: x seen_rows_def split: sum.splits option.splits)
  qed simp
  with res show ?thesis by (simp add: matched_rids_def)
qed

lemma no_index_match: "tb_indexes m = [] \<Longrightarrow> find_match i alias (indexed_columns m) cs = None"
proof (induction cs arbitrary: i)
  case (Cons c cs)
  have "map_of (indexed_columns m) name = None" for name using Cons.prems by (simp add: indexed_columns_def dict_update_def)
  then have "matching_equality c alias (indexed_columns m) \<noteq> Some x" for x
    using matching_equality_cases [of c "alias" "indexed_columns m" "fst x" "snd x"] by auto
  then have "matching_equality c alias (indexed_columns m) = None" by (metis option.exhaust)
  with Cons show ?case by simp
qed simp

lemma source_plan_eq:
  assumes "plain_db db" and "tables db n = Some m"
  shows "\<exists>b. build_row_source_plan n alias cond t (db_mgr db) (db_catalog db)
      = (Inr (filtered cond (SeqScan (scan_of db m alias t))), (db_catalog db)\<lparr>cat_pool := b\<rparr>) \<and> at_view {} (pool_view (db_pool db)) b"
proof -
  obtain b where b: "on_catalog (open_heap m) db = (Inr (heap_object db m), set_pool b db)" "at_view {} (pool_view (db_pool db)) b"
    using open_heap_eq [OF assms] by blast
  then have "open_heap m (db_catalog db) = (Inr (heap_object db m), (db_catalog db)\<lparr>cat_pool := b\<rparr>)"
    by (auto simp: on_catalog_def py_zoom_def set_pool_def split: prod.splits)
      (metis database.ext_inject database.surjective database.update_convs(1))
  then have "build_row_source_plan n alias cond t (db_mgr db) (db_catalog db)
      = (Inr (filtered cond (SeqScan (scan_of db m alias t))), (db_catalog db)\<lparr>cat_pool := b\<rparr>)"
    using assms(2) no_index_match [OF plain_dbD(2) [OF assms]]
    by (simp add: build_row_source_plan_def build_base_scan_def get_table_def py_bind_def py_gets_def py_return_def Let_def filtered_def
        scan_of_def split: option.splits)
  with b(2) show ?thesis by blast
qed

text \<open>Running a plan that reads the tables of the database.\<close>

lemma run_plan_eq:
  assumes plain: "plain_db db" and "stored (pool_view (db_pool db)) (db_store db) p" and "frames p \<le> 2" and "unlimited p"
    and tab: "tables db n = Some m" and res: "plan_result (db_store db) p = Inr rows"
  shows "\<exists>k0. \<forall>k \<ge> k0. \<forall>b. at_view {} (pool_view (db_pool db)) b \<longrightarrow>
    (\<exists>b'. on_db_pool (run_plan k p) (set_pool b db) = (Inr rows, set_pool b' db) \<and> at_view {} (pool_view (db_pool db)) b')"
proof -
  have "frames p \<le> v_avail (pool_view (db_pool db))" using assms(3) plain_dbD(3) [OF plain tab] by (simp add: heap_inv_def)
  from run_plan_outcome [OF assms(2) this] res assms(4)
  have "yields (\<lambda>k. run_plan k p) (pool_view (db_pool db)) rows (pool_view (db_pool db))" by auto
  then obtain k0 where k0: "\<And>k b. k0 \<le> k \<Longrightarrow> at_view {} (pool_view (db_pool db)) b \<Longrightarrow>
      wp (run_plan k p) (\<lambda>y b'. y = rows \<and> at_view {} (pool_view (db_pool db)) b') (\<lambda>_ _. False) b"
    by (auto simp: yields_def eventually_sequentially)
  have "\<exists>b'. on_db_pool (run_plan k p) (set_pool b db) = (Inr rows, set_pool b' db) \<and> at_view {} (pool_view (db_pool db)) b'"
    if "k0 \<le> k" "at_view {} (pool_view (db_pool db)) b" for k b
    using k0 [OF that] by (auto simp: wp_total on_db_pool_def on_catalog_def on_cat_pool_def py_zoom_def set_pool_def)
  then show ?thesis by blast
qed

lemma stored_scan:
  assumes "plain_db db" and "tables db n = Some m"
  shows "stored (pool_view (db_pool db)) (db_store db) (filtered cond (SeqScan (scan_of db m alias t)))"
    and "frames (filtered cond (SeqScan (scan_of db m alias t))) \<le> 2" and "unlimited (filtered cond (SeqScan (scan_of db m alias t)))"
proof -
  note H = heap_inv_here [OF plain_dbD(3) [OF assms]]
  have "heap_at (pool_view (db_pool db)) (db_store db) (fst (heap_object db m)) (heap_pages (table_heap db m))"
    using H by (simp add: heap_at_def db_store_def heap_object_def) (simp add: table_heap_def)
  then show "stored (pool_view (db_pool db)) (db_store db) (filtered cond (SeqScan (scan_of db m alias t)))"
    by (auto simp: filtered_def scan_of_def split: option.splits)
qed (simp_all add: filtered_def split: option.splits)

lemma matching_rows_eq:
  assumes plain: "plain_db db" and tab: "tables db n = Some m" and ev: "evaluable db m n t cond"
  shows "\<exists>k0. \<forall>k \<ge> k0. \<exists>b. matching_rows k n cond t db
      = (Inr (map (\<lambda>r. the (matched db m n t cond r)) (matched_rids db m n t cond)), set_pool b db) \<and> at_view {} (pool_view (db_pool db)) b"
proof -
  let ?p = "filtered cond (SeqScan (scan_of db m n t))"
  obtain b where b: "on_catalog (build_row_source_plan n n cond t (db_mgr db)) db = (Inr ?p, set_pool b db)" "at_view {} (pool_view (db_pool db)) b"
    using source_plan_eq [OF plain tab, of n cond t] by (auto simp: on_catalog_def py_zoom_def set_pool_def)
  obtain k0 where "\<And>k. k0 \<le> k \<Longrightarrow> \<exists>b'. on_db_pool (run_plan k ?p) (set_pool b db)
      = (Inr (map (\<lambda>r. the (matched db m n t cond r)) (matched_rids db m n t cond)), set_pool b' db) \<and> at_view {} (pool_view (db_pool db)) b'"
    using run_plan_eq [OF plain stored_scan [OF plain tab] tab scan_result [OF plain_dbD(3) [OF plain tab] ev]] b(2) by blast
  then show ?thesis using b(1) by (intro exI [of _ k0] allI impI) (simp add: matching_rows_def py_bind_def py_gets_def)
qed

lemma matched_Some:
  assumes "matched db m alias t cond r = Some row"
  shows "\<exists>raw. heap_map (table_heap db m) r = Some raw \<and> visible_row (scan_of db m alias t) r raw = Inr (Some row)"
    and "holds_opt cond row = Inr True" and "row_rid row = Inr r"
proof -
  obtain raw where raw: "heap_map (table_heap db m) r = Some raw" "visible_row (scan_of db m alias t) r raw = Inr (Some row)" "holds_opt cond row = Inr True"
    using assms by (auto simp: matched_def split: option.splits sum.splits if_splits)
  then show "\<exists>raw. heap_map (table_heap db m) r = Some raw \<and> visible_row (scan_of db m alias t) r raw = Inr (Some row)"
    "holds_opt cond row = Inr True" by blast+
  have "\<exists>d. row = dict_set (u ''__rid__'') (Rid r) d"
    using raw(2) by (auto simp: visible_row_def row_from_tuple_def Let_def split: if_splits elim!: res_bindE)
  then show "row_rid row = Inr r" by (auto simp: row_rid_def update_conv')
qed

lemma matched_targets:
  assumes plain: "plain_db db" and tab: "tables db n = Some m"
    and ok: "\<forall>r raw. versions db n r = Some raw \<longrightarrow> matched db m n t cond r \<noteq> None \<longrightarrow> stampable db t raw"
  shows "targets db n t (map (\<lambda>r. the (matched db m n t cond r)) (matched_rids db m n t cond)) (matched_rids db m n t cond)"
proof -
  note R = matched_rids_props [OF plain_dbD(3) [OF plain tab]]
  have "\<exists>raw. versions db n r = Some raw \<and> stampable db t raw" "row_rid (the (matched db m n t cond r)) = Inr r"
    if hit: "r \<in> set (matched_rids db m n t cond)" for r
  proof -
    obtain row where row: "matched db m n t cond r = Some row" using hit R(3) by auto
    then show "row_rid (the (matched db m n t cond r)) = Inr r" using matched_Some(3) by simp
    show "\<exists>raw. versions db n r = Some raw \<and> stampable db t raw" using matched_Some(1) [OF row] ok row versions_table [OF tab] by auto
  qed
  then show ?thesis using R(1) by (simp add: targets_def)
qed

lemma matched_dom:
  assumes "heap_inv (table_heap db m)"
  shows "set (matched_rids db m alias t cond) = dom (matched db m alias t cond)"
    and "length (matched_rids db m alias t cond) = card (dom (matched db m alias t cond))"
proof -
  show "set (matched_rids db m alias t cond) = dom (matched db m alias t cond)" using matched_rids_props(3) [OF assms] by (auto simp: dom_def)
  then show "length (matched_rids db m alias t cond) = card (dom (matched db m alias t cond))"
    using distinct_card [OF matched_rids_props(1) [OF assms]] by metis
qed

text \<open>What a statement matches does not depend on which pages are in memory.\<close>

lemma matched_view:
  assumes "plain_db db" and "tables db n = Some m" and "at_view {} (pool_view (db_pool db)) b"
  shows "matched (set_pool b db) m alias t cond = matched db m alias t cond"
    and "matched_rids (set_pool b db) m alias t cond = matched_rids db m alias t cond"
    and "evaluable (set_pool b db) m alias t cond = evaluable db m alias t cond"
    and "scan_of (set_pool b db) m alias t = scan_of db m alias t"
proof -
  note V = plain_view [OF assms(1,3)]
  show sc: "scan_of (set_pool b db) m alias t = scan_of db m alias t" using V(3) [OF assms(2)] by (simp add: scan_of_def)
  have "heap_map (table_heap (set_pool b db) m) = heap_map (table_heap db m)"
    using V(2) versions_table [OF assms(2)] versions_table [of "set_pool b db" n m] assms(2) by simp
  then show mt: "matched (set_pool b db) m alias t cond = matched db m alias t cond" unfolding matched_def sc by simp
  show "matched_rids (set_pool b db) m alias t cond = matched_rids db m alias t cond"
    by (simp add: matched_rids_def mt V(4) [OF assms(2)])
  show "evaluable (set_pool b db) m alias t cond = evaluable db m alias t cond" by (simp add: evaluable_def sc V(4) [OF assms(2)])
qed

text \<open>The first steps of \<^verbatim>\<open>UPDATE\<close> and \<^verbatim>\<open>DELETE\<close>: they find the rows and leave the tables as they are.\<close>

definition match_step :: "database \<Rightarrow> ustring \<Rightarrow> table_meta \<Rightarrow> transaction \<Rightarrow> expr option \<Rightarrow> nat \<Rightarrow> database \<Rightarrow> row list \<Rightarrow> bool" where
  "match_step db n m t cond k db1 rows \<longleftrightarrow> row_change db n (versions db n) [] 0 db1 \<and> targets db1 n t rows (matched_rids db m n t cond)
     \<and> length rows = card (dom (matched db m n t cond))
     \<and> (\<forall>f. py_bind (on_catalog (get_table n)) (\<lambda>table. py_bind (on_catalog (open_heap table)) (\<lambda>heap.
          py_bind (matching_rows k n cond t) (\<lambda>matches. f table heap matches))) db = (f m (heap_object db1 m) rows db1 :: exec_result res \<times> database))"

lemma match_stepD:
  assumes "match_step db n m t cond k db1 rows"
  shows "row_change db n (versions db n) [] 0 db1" and "targets db1 n t rows (matched_rids db m n t cond)"
    and "length rows = card (dom (matched db m n t cond))"
    and "py_bind (on_catalog (get_table n)) (\<lambda>table. py_bind (on_catalog (open_heap table)) (\<lambda>heap.
          py_bind (matching_rows k n cond t) (\<lambda>matches. f table heap matches))) db = (f m (heap_object db1 m) rows db1 :: exec_result res \<times> database)"
  using assms by (auto simp: match_step_def)

text \<open>\<open>k\<close> is enough fuel to find the rows, and the transaction may change them.\<close>

definition finds_rows :: "database \<Rightarrow> ustring \<Rightarrow> table_meta \<Rightarrow> transaction \<Rightarrow> expr option \<Rightarrow> nat \<Rightarrow> bool" where
  "finds_rows db n m t cond k \<longleftrightarrow> (\<exists>db1 rows. match_step db n m t cond k db1 rows)"

lemma open_and_match:
  assumes plain: "plain_db db" and tab: "tables db n = Some m" and ev: "evaluable db m n t cond"
    and ok: "\<forall>r raw. versions db n r = Some raw \<longrightarrow> matched db m n t cond r \<noteq> None \<longrightarrow> stampable db t raw"
  shows "\<exists>k0. \<forall>k \<ge> k0. finds_rows db n m t cond k"
proof -
  let ?rids = "matched_rids db m n t cond" let ?rows = "map (\<lambda>r. the (matched db m n t cond r)) ?rids"
  obtain b where b: "on_catalog (open_heap m) db = (Inr (heap_object db m), set_pool b db)" "at_view {} (pool_view (db_pool db)) b"
    using open_heap_eq [OF plain tab] by blast
  let ?db = "set_pool b db" note V = plain_view [OF plain b(2)] and M = matched_view [OF plain tab b(2)]
  have tab1: "tables ?db n = Some m" using tab by simp
  obtain k0 where k0: "\<And>k. k0 \<le> k \<Longrightarrow> \<exists>b'. matching_rows k n cond t ?db = (Inr ?rows, set_pool b' ?db) \<and> at_view {} (pool_view (db_pool ?db)) b'"
    using matching_rows_eq [OF V(1), of n m t cond] tab ev by (auto simp: M)
  have tg: "targets db n t ?rows ?rids" by (rule matched_targets [OF plain tab ok])
  have "match_step db n m t cond k (set_pool b' ?db) ?rows"
    if b': "matching_rows k n cond t ?db = (Inr ?rows, set_pool b' ?db)" "at_view {} (pool_view (db_pool ?db)) b'" for k b'
  proof -
    note V1 = plain_view [OF V(1) b'(2)]
    have "replays db [] (set_pool b' ?db)" by (rule replays_view) (use b(2) b'(2) in \<open>simp_all add: at_view_def\<close>)
    then have "row_change db n (versions db n) [] 0 (set_pool b' ?db)" using V1(1,2,5) V(2,5) by (simp add: row_change_def)
    moreover have "targets (set_pool b' ?db) n t ?rows ?rids" using tg by (simp add: targets_def V1(2) V(2) stampable_def)
    moreover have "length ?rows = card (dom (matched db m n t cond))" using matched_dom(2) [OF plain_dbD(3) [OF plain tab]] by simp
    ultimately show ?thesis using b(1) b'(1) tab V(3) [OF tab] V1(3) [OF tab1]
      by (simp add: match_step_def py_bind_def get_table_eq)
  qed
  then show ?thesis using k0 unfolding finds_rows_def by meson
qed

section \<open>What the statements change\<close>

lemma insert_change:
  assumes "plain_db db" and "tables db n = Some m" and "\<not> wl_closed (tm_wal (db_mgr db))" and "tx_id t < 2 ^ 32" and "small_name n"
    and "resolve_insert_values cols exprs (tb_schema m) = Inr rows"
    and "res_map (row_tuple (tb_schema m) (tx_id t)) rows = Inr tups" and "list_all fits_page tups"
    and "pool_count (db_pool db) + length rows \<le> INVALID_PAGE_ID"
  shows "\<exists>rids db'. execute_insert n cols exprs t db = (Inr (count_result ''INSERT'' (length rows)), db')
    \<and> length rids = length tups \<and> distinct rids \<and> (\<forall>r \<in> set rids. versions db n r = None)
    \<and> row_change db n ((versions db n)(rids [\<mapsto>] tups)) (map2 (\<lambda>tup r. (R_OP, tx_id t, insert_op n tup r)) tups rids) (length rows) db'"
proof -
  obtain b where b: "on_catalog (open_heap m) db = (Inr (heap_object db m), set_pool b db)" "at_view {} (pool_view (db_pool db)) b"
    using open_heap_eq [OF assms(1,2)] by blast
  let ?db = "set_pool b db" note V = plain_view [OF assms(1) b(2)]
  obtain rids db' where R: "insert_rows m t (heap_object ?db m) rows 0 ?db = (Inr (length rows), db')" "length rids = length tups" "distinct rids"
    "\<forall>r \<in> set rids. versions ?db n r = None"
    and ch: "row_change ?db n ((versions ?db n)(rids [\<mapsto>] tups)) (map2 (\<lambda>tup r. (R_OP, tx_id t, insert_op n tup r)) tups rids) (length rows) db'"
    using insert_rows_eq [OF V(1), of n m t rows tups 0] assms(2-5,7-9) V(5) by auto
  have "execute_insert n cols exprs t db = (Inr (count_result ''INSERT'' (length rows)), db')"
    using R(1) b(1) assms(2,6) V(3) [OF assms(2)] by (simp add: execute_insert_def py_bind_def py_lift_def py_return_def get_table_eq)
  moreover have "row_change db n (versions db n) [] 0 ?db" using V(1,2,5) replays_view [of ?db db] b(2) by (simp add: row_change_def at_view_def)
  ultimately show ?thesis using R(2-4) row_change_trans [OF _ ch] V(2) by fastforce
qed

lemma delete_change:
  assumes "plain_db db" and "tables db n = Some m" and "\<not> wl_closed (tm_wal (db_mgr db))" and "tx_id t < 2 ^ 32" and "small_name n"
    and "finds_rows db n m t cond k"
  shows "\<exists>db'. execute_delete k n cond t db = (Inr (count_result ''DELETE'' (card (dom (matched db m n t cond)))), db')
    \<and> row_change db n (stamp_all (tx_id t) (dom (matched db m n t cond)) (versions db n))
        (map (\<lambda>r. (R_OP, tx_id t, xmax_op n r (tx_id t))) (matched_rids db m n t cond)) 0 db'"
proof -
  from assms(6) obtain db1 rows where "match_step db n m t cond k db1 rows" unfolding finds_rows_def by blast
  note c = match_stepD(1) [OF this] and tg = match_stepD(2) [OF this] and len = match_stepD(3) [OF this] and run = match_stepD(4) [OF this]
  note D = row_changeD [OF c]
  obtain db' where del: "delete_rows m t (heap_object db1 m) rows 0 db1 = (Inr (length rows), db')"
    and ch: "row_change db1 n (stamp_all (tx_id t) (set (matched_rids db m n t cond)) (versions db1 n))
      (map (\<lambda>r. (R_OP, tx_id t, xmax_op n r (tx_id t))) (matched_rids db m n t cond)) 0 db'"
    using delete_rows_eq [OF D(1), of n m t rows "matched_rids db m n t cond" 0] assms(2-5) D(2,4) tg by auto
  have "execute_delete k n cond t db = (Inr (count_result ''DELETE'' (length rows)), db')"
    unfolding execute_delete_def run using del by (simp add: py_bind_def py_return_def)
  then show ?thesis using row_change_trans [OF c ch] len matched_dom(1) [OF plain_dbD(3) [OF assms(1,2)]] D(3) by auto
qed

lemma update_change:
  assumes "plain_db db" and "tables db n = Some m" and "\<not> wl_closed (tm_wal (db_mgr db))" and "tx_id t < 2 ^ 32" and "small_name n"
    and "finds_rows db n m t cond k"
    and "map (\<lambda>r. update_tuple m (tx_id t) assigns (the (versions db n r))) (matched_rids db m n t cond) = map Inr tups"
    and "list_all fits_page tups" and "pool_count (db_pool db) + card (dom (matched db m n t cond)) \<le> INVALID_PAGE_ID"
  shows "\<exists>db' new. execute_update k n assigns cond t db = (Inr (count_result ''UPDATE'' (card (dom (matched db m n t cond)))), db')
    \<and> length new = length tups \<and> distinct new \<and> (\<forall>r \<in> set new. versions db n r = None)
    \<and> row_change db n ((stamp_all (tx_id t) (dom (matched db m n t cond)) (versions db n))(new [\<mapsto>] tups))
        (update_ops (tx_id t) n (matched_rids db m n t cond) tups new) (card (dom (matched db m n t cond))) db'"
proof -
  from assms(6) obtain db1 rows where "match_step db n m t cond k db1 rows" unfolding finds_rows_def by blast
  note c = match_stepD(1) [OF this] and tg = match_stepD(2) [OF this] and len = match_stepD(3) [OF this] and run = match_stepD(4) [OF this]
  note D = row_changeD [OF c]
  obtain new db' where up: "update_rows m t assigns (heap_object db1 m) rows 0 db1 = (Inr (length rows), db')"
    and new: "length new = length tups" "distinct new" "\<forall>r \<in> set new. versions db1 n r = None"
    and ch: "row_change db1 n ((stamp_all (tx_id t) (set (matched_rids db m n t cond)) (versions db1 n))(new [\<mapsto>] tups))
      (update_ops (tx_id t) n (matched_rids db m n t cond) tups new) (length rows) db'"
    using update_rows_eq [OF D(1), of n m t rows "matched_rids db m n t cond" assigns tups 0] assms(2-5,7-9) D(2-4,6) tg len by auto
  have "execute_update k n assigns cond t db = (Inr (count_result ''UPDATE'' (length rows)), db')"
    unfolding execute_update_def run using up by (simp add: py_bind_def py_return_def)
  then show ?thesis using new row_change_trans [OF c ch] len matched_dom(1) [OF plain_dbD(3) [OF assms(1,2)]] D(3)
    by (intro exI [of _ db'] exI [of _ new]) auto
qed

section \<open>The rows that a query shows\<close>

text \<open>The row of a table as \<^verbatim>\<open>SELECT *\<close> shows it.\<close>

definition table_row :: "table_meta \<Rightarrow> bytes \<Rightarrow> row" where
  "table_row m raw = (case decode_row (tuple_payload raw) (tb_schema m) of Inr vs \<Rightarrow> zip (schema_names (tb_schema m)) (map Val vs) | Inl _ \<Rightarrow> [])"

definition shown_schema :: "schema \<Rightarrow> bool" where
  "shown_schema sch \<longleftrightarrow> plain_schema sch \<and> list_all (\<lambda>c. \<not> prefix (u ''__'') c) (schema_names sch)"

lemma project_star:
  assumes sch: "shown_schema (tb_schema m)" and row: "row_from_tuple alias (tb_schema m) r raw = Inr row" and star: "is_star sel"
  shows "project_row sel row = Inr (table_row m raw)"
proof -
  obtain vs where vs: "decode_row (tuple_payload raw) (tb_schema m) = Inr vs" using row by (auto simp: row_from_tuple_def elim!: res_bindE)
  let ?ks = "schema_names (tb_schema m)" let ?vs = "map Val vs" let ?q = "qualified_key alias"
  have len: "length ?ks = length ?vs" using length_decode_row [OF vs] by simp
  have D: "distinct ?ks" "\<forall>c \<in> set ?ks. 46 \<notin> set c" "u ''__rid__'' \<notin> set ?ks" "\<forall>c \<in> set ?ks. \<not> prefix (u ''__'') c"
    using sch by (auto simp: shown_schema_def plain_schema_def list_all_iff)
  have q: "46 \<in> set (?q c)" for c by (simp add: qualified_key_def)
  have qs: "map (\<lambda>(c, v). (?q c, v)) (zip ?ks ?vs) = zip (map ?q ?ks) ?vs" by (simp add: zip_map1 split_beta)
  have "distinct (map ?q ?ks)" using D(1) by (simp add: distinct_map inj_on_subset [OF inj_qualified])
  moreover have "set (map ?q ?ks) \<inter> set ?ks = {}" using D(2) q by auto
  ultimately have dist: "distinct (map fst (zip (map ?q ?ks) ?vs @ zip ?ks ?vs))" using D(1) len by simp
  have d1: "dict_update (to_dict (zip (map ?q ?ks) ?vs)) (zip ?ks ?vs) = zip (map ?q ?ks) ?vs @ zip ?ks ?vs"
    using dict_update_distinct [OF dist] to_dict_distinct [of "zip (map ?q ?ks) ?vs"] dist by simp
  have rid: "46 \<notin> set (u ''__rid__'')" "prefix (u ''__'') (u ''__rid__'')" by (simp_all add: u_def)
  have "map_of (zip (map ?q ?ks) ?vs @ zip ?ks ?vs) (u ''__rid__'') = None"
    using D(3) q rid(1) len by (auto simp: map_of_eq_None_iff dest!: set_zip_leftD)
  then have "row = zip (map ?q ?ks) ?vs @ zip ?ks ?vs @ [(u ''__rid__'', Rid r)]"
    using row by (simp add: row_from_tuple_def vs Let_def qs d1 dict_set_new)
  moreover have "filter (\<lambda>(k, v). \<not> prefix (u ''__'') k \<and> 46 \<notin> set k) (zip (map ?q ?ks) ?vs) = []"
    using q by (auto simp: filter_empty_conv dest!: set_zip_leftD)
  moreover have "filter (\<lambda>(k, v). \<not> prefix (u ''__'') k \<and> 46 \<notin> set k) (zip ?ks ?vs) = zip ?ks ?vs"
    using D(2,4) by (auto simp: filter_id_conv dest!: set_zip_leftD)
  ultimately show ?thesis using star rid(2) vs by (simp add: project_row_def table_row_def)
qed

section \<open>A database with one row\<close>

lemma some_fuel: "\<exists>k0 :: nat. \<forall>k \<ge> k0. P k \<Longrightarrow> \<exists>k. P k"
  by auto

definition row_meta :: table_meta where
  "row_meta = \<lparr>tb_name = u ''t'', tb_schema = id_schema, tb_heap_first_page_id = hf_first id_heap, tb_indexes = []\<rparr>"

definition row_db :: database where
  "row_db = \<lparr>db_catalog = \<lparr>cat_pool = hf_pool id_heap, cat_tables = [(u ''t'', row_meta)], cat_file = None\<rparr>,
     db_mgr = tm_init (wal_open None) 2 None\<rparr>"

definition row_txn :: transaction where
  "row_txn = \<lparr>tx_id = 2, tx_snapshot = \<lparr>sn_xid = 2, sn_active_xids = {}\<rparr>, tx_state = TXN_ACTIVE\<rparr>"

lemma row_db: "plain_db row_db" "tables row_db (u ''t'') = Some row_meta" "table_heap row_db row_meta = id_heap"
  "\<not> wl_closed (tm_wal (db_mgr row_db))" "tx_id row_txn = 2" "small_name (u ''t'')" "tb_schema row_meta = id_schema"
proof -
  show h: "table_heap row_db row_meta = id_heap" using heap_inv_of [OF id_heap(1)] by (simp add: table_heap_def row_db_def row_meta_def)
  show "tables row_db (u ''t'') = Some row_meta" by (simp add: row_db_def)
  show "plain_db row_db" using h id_heap(1) by (auto simp: plain_db_def row_db_def row_meta_def split: if_splits)
  show "small_name (u ''t'')" using str_ok_const by (simp add: small_name_def) (simp add: u_def)
qed (simp_all add: row_db_def tm_init_def wal_open_def Let_def row_txn_def row_meta_def)

lemma row_db_count: "pool_count (db_pool row_db) \<le> 2"
proof -
  have "length (id_tuple 7) \<le> 4083" by (simp add: id_tuple_def)
  then have "HEAP_HEADER_SIZE + SLOT_SIZE + length (id_tuple 7) \<le> PAGE_SIZE" by (simp add: page_consts)
  from heap_insert_step [OF fresh_heap(1) this] fresh_heap(3) show ?thesis
    by (auto simp: wp_total heap_step_def INVALID_PAGE_ID_def id_heap_def row_db_def)
qed

lemma row_db_versions: "\<exists>r. versions row_db (u ''t'') = [r \<mapsto> id_tuple 7] \<and> heap_rows (table_heap row_db row_meta) = [(r, id_tuple 7)]"
  using id_heap heap_rows_single versions_table [OF row_db(2)] row_db(3) by metis

lemma row_db_visible:
  "visible_row (scan_of row_db row_meta (u ''t'') row_txn) r (id_tuple 7)
     = Inr (Some [(u ''t.id'', Val (VInt 7)), (u ''id'', Val (VInt 7)), (u ''__rid__'', Rid r)])"
proof -
  have "scan_of row_db row_meta (u ''t'') row_txn = id_scan\<lparr>sb_heap := heap_object row_db row_meta\<rparr>"
    by (simp add: scan_of_def id_scan_def row_meta_def row_db_def row_txn_def)
  moreover have "visible_row (id_scan\<lparr>sb_heap := h\<rparr>) r raw = visible_row id_scan r raw" for h raw by (simp add: visible_row_def cong: if_cong)
  ultimately show ?thesis using visible_id_tuple [of 7 r] by simp
qed

lemma row_db_matched:
  assumes "versions row_db (u ''t'') = [r \<mapsto> id_tuple 7]"
  shows "matched row_db row_meta (u ''t'') row_txn None = [r \<mapsto> [(u ''t.id'', Val (VInt 7)), (u ''id'', Val (VInt 7)), (u ''__rid__'', Rid r)]]"
  using assms versions_table [OF row_db(2)] row_db_visible [of r] by (auto simp: matched_def fun_eq_iff holds_opt_def)

lemma row_db_evaluable: "evaluable row_db row_meta (u ''t'') row_txn None"
  using row_db_versions row_db_visible by (auto simp: evaluable_def holds_opt_def)

lemma header_id_tuple: "unpack_tuple_header (id_tuple n) = Inr (1, INFINITY_TXN)"
  by (simp add: unpack_tuple_header_def id_tuple_def MVCC_HEADER_SIZE_def INFINITY_TXN_def)

lemma row_db_stampable:
  "\<forall>r raw. versions row_db (u ''t'') r = Some raw \<longrightarrow> matched row_db row_meta (u ''t'') row_txn None r \<noteq> None \<longrightarrow> stampable row_db row_txn raw"
  using row_db_versions header_id_tuple by (auto simp: stampable_def split: if_splits)

section \<open>Properties\<close>

text \<open>
  C7: \<^verbatim>\<open>INSERT\<close> adds exactly its rows: each row of values becomes one new version under a row id that
  was free, created by the transaction and not deleted; all other versions of all tables stay as they are,
  and every new version is logged, in order.
\<close>

theorem insert_adds_versions:
  assumes "plain_db db" and "tables db n = Some m" and "\<not> wl_closed (tm_wal (db_mgr db))" and "tx_id t < 2 ^ 32" and "small_name n"
    and "resolve_insert_values cols exprs (tb_schema m) = Inr rows"
    and "res_map (row_tuple (tb_schema m) (tx_id t)) rows = Inr tups" and "list_all fits_page tups"
    and "pool_count (db_pool db) + length rows \<le> INVALID_PAGE_ID"
  shows "\<exists>rids db'. execute_insert n cols exprs t db = (Inr (count_result ''INSERT'' (length rows)), db')
    \<and> length rids = length tups \<and> distinct rids \<and> (\<forall>r \<in> set rids. versions db n r = None)
    \<and> plain_db db' \<and> tables db' = tables db \<and> versions db' = (versions db)(n := (versions db n)(rids [\<mapsto>] tups))
    \<and> db_mgr db' = logged (map2 (\<lambda>tup r. (R_OP, tx_id t, insert_op n tup r)) tups rids) (db_mgr db)"
  using insert_change [OF assms] by (auto simp: row_change_def)

abbreviation new_id_tuple :: "nat \<Rightarrow> bytes" where
  "new_id_tuple n \<equiv> le_bytes 4 2 @ le_bytes 4 INFINITY_TXN @ le_bytes 8 n"

lemma row_tuple_id: "n < 2 ^ 63 \<Longrightarrow> row_tuple id_schema 2 [VInt (int n)] = Inr (new_id_tuple n)"
  by (simp add: row_tuple_def encode_row_def id_schema_def pack_int64_def pack_tuple_def pack_uint_def INFINITY_TXN_def)

lemma fits_new_id: "fits_page (new_id_tuple n)"
  by (simp add: fits_page_def page_consts)

theorem insert_adds_versions_witness:
  "\<exists>r db'. execute_insert (u ''t'') None [[Literal (VInt 5)]] row_txn row_db = (Inr (count_result ''INSERT'' 1), db')
    \<and> versions row_db (u ''t'') r = None \<and> versions db' (u ''t'') r = Some (new_id_tuple 5)"
proof -
  have res: "resolve_insert_values None [[Literal (VInt 5)]] (tb_schema row_meta) = Inr [[VInt 5]]"
    by (simp add: row_db(7) resolve_insert_values_def resolve_row_def id_schema_def schema_names_def constant_value_def cell_value_def pick_values_def dict_update_def)
  have tup: "res_map (row_tuple (tb_schema row_meta) (tx_id row_txn)) [[VInt 5]] = Inr [new_id_tuple 5]"
    using row_tuple_id [of 5] by (simp add: row_db(5,7))
  have "pool_count (db_pool row_db) + length [[VInt 5]] \<le> INVALID_PAGE_ID" using row_db_count by (simp add: INVALID_PAGE_ID_def)
  from insert_adds_versions [OF row_db(1,2,4) _ row_db(6) res tup _ this] obtain rids db' where
    R: "execute_insert (u ''t'') None [[Literal (VInt 5)]] row_txn row_db = (Inr (count_result ''INSERT'' 1), db')" "length rids = 1"
      "\<forall>r \<in> set rids. versions row_db (u ''t'') r = None"
      "versions db' = (versions row_db)(u ''t'' := (versions row_db (u ''t''))(rids [\<mapsto>] [new_id_tuple 5]))"
    using fits_new_id by (auto simp: row_db(5))
  then obtain r where "rids = [r]" by (auto simp: length_Suc_conv)
  with R show ?thesis by auto
qed

text \<open>
  C8: \<^verbatim>\<open>DELETE\<close> marks as deleted exactly the versions that are visible to the transaction and satisfy the
  condition, if no other transaction that has not aborted has already deleted one of them, and returns their
  number; no other version changes.
\<close>

theorem delete_stamps_matches:
  assumes "plain_db db" and "tables db n = Some m" and "\<not> wl_closed (tm_wal (db_mgr db))" and "tx_id t < 2 ^ 32" and "small_name n"
    and "evaluable db m n t cond"
    and "\<forall>r raw. versions db n r = Some raw \<longrightarrow> matched db m n t cond r \<noteq> None \<longrightarrow> stampable db t raw"
  shows "\<exists>k0. \<forall>k \<ge> k0. \<exists>db'. execute_delete k n cond t db = (Inr (count_result ''DELETE'' (card (dom (matched db m n t cond)))), db')
    \<and> plain_db db' \<and> tables db' = tables db
    \<and> versions db' = (versions db)(n := stamp_all (tx_id t) (dom (matched db m n t cond)) (versions db n))"
proof -
  obtain k0 where "\<And>k. k0 \<le> k \<Longrightarrow> finds_rows db n m t cond k" using open_and_match [OF assms(1,2,6,7)] by blast
  with delete_change [OF assms(1-5)] show ?thesis unfolding row_change_def by (intro exI [of _ k0]) fastforce
qed

theorem delete_stamps_matches_witness:
  "\<exists>k r db'. execute_delete k (u ''t'') None row_txn row_db = (Inr (count_result ''DELETE'' 1), db')
    \<and> versions db' (u ''t'') = [r \<mapsto> stamped 2 (id_tuple 7)]"
proof -
  obtain r where r: "versions row_db (u ''t'') = [r \<mapsto> id_tuple 7]" using row_db_versions by blast
  have "stamp_all 2 {r} [r \<mapsto> id_tuple 7] = [r \<mapsto> stamped 2 (id_tuple 7)]" by (auto simp: stamp_all_def)
  moreover have "\<exists>k db'. execute_delete k (u ''t'') None row_txn row_db
      = (Inr (count_result ''DELETE'' (card (dom (matched row_db row_meta (u ''t'') row_txn None)))), db')
    \<and> plain_db db' \<and> tables db' = tables row_db
    \<and> versions db' = (versions row_db)(u ''t'' := stamp_all (tx_id row_txn) (dom (matched row_db row_meta (u ''t'') row_txn None)) (versions row_db (u ''t'')))"
    by (rule some_fuel [OF delete_stamps_matches [OF row_db(1,2,4) _ row_db(6) row_db_evaluable row_db_stampable]]) (simp add: row_db(5))
  ultimately show ?thesis using r row_db_matched [OF r] by (fastforce simp: row_db(5))
qed

text \<open>
  C9: \<^verbatim>\<open>UPDATE\<close> replaces exactly the versions that are visible to the transaction and satisfy the condition: each
  of them is marked as deleted, and a new version with the assigned values is added under a row id that was
  free; no other version of any table changes.
\<close>

theorem update_replaces_matches:
  assumes "plain_db db" and "tables db n = Some m" and "\<not> wl_closed (tm_wal (db_mgr db))" and "tx_id t < 2 ^ 32" and "small_name n"
    and "evaluable db m n t cond"
    and "\<forall>r raw. versions db n r = Some raw \<longrightarrow> matched db m n t cond r \<noteq> None \<longrightarrow> stampable db t raw"
    and "map (\<lambda>r. update_tuple m (tx_id t) assigns (the (versions db n r))) (matched_rids db m n t cond) = map Inr tups"
    and "list_all fits_page tups" and "pool_count (db_pool db) + card (dom (matched db m n t cond)) \<le> INVALID_PAGE_ID"
  shows "\<exists>k0. \<forall>k \<ge> k0. \<exists>db' new. execute_update k n assigns cond t db = (Inr (count_result ''UPDATE'' (card (dom (matched db m n t cond)))), db')
    \<and> length new = length tups \<and> distinct new \<and> (\<forall>r \<in> set new. versions db n r = None) \<and> plain_db db' \<and> tables db' = tables db
    \<and> versions db' = (versions db)(n := (stamp_all (tx_id t) (dom (matched db m n t cond)) (versions db n))(new [\<mapsto>] tups))"
proof -
  obtain k0 where "\<And>k. k0 \<le> k \<Longrightarrow> finds_rows db n m t cond k" using open_and_match [OF assms(1,2,6,7)] by blast
  with update_change [OF assms(1-5) _ assms(8-10)] show ?thesis unfolding row_change_def by (intro exI [of _ k0]) fastforce
qed

theorem update_replaces_matches_witness:
  "\<exists>k db'. execute_update k (u ''t'') [(u ''id'', Literal (VInt 8))] None row_txn row_db = (Inr (count_result ''UPDATE'' 1), db')"
proof -
  obtain r where r: "versions row_db (u ''t'') = [r \<mapsto> id_tuple 7]" "heap_rows (table_heap row_db row_meta) = [(r, id_tuple 7)]"
    using row_db_versions by blast
  note M = row_db_matched [OF r(1)]
  have rids: "matched_rids row_db row_meta (u ''t'') row_txn None = [r]" by (simp add: matched_rids_def r(2) M)
  have "update_tuple row_meta 2 [(u ''id'', Literal (VInt 8))] (id_tuple 7) = Inr (new_id_tuple 8)"
    using decode_id_tuple [of 7] row_tuple_id [of 8]
    by (simp add: update_tuple_def Let_def row_db(7)) (simp add: id_schema_def schema_names_def constant_value_def cell_value_def pick_values_def dict_update_def)
  then have tup: "map (\<lambda>r. update_tuple row_meta (tx_id row_txn) [(u ''id'', Literal (VInt 8))] (the (versions row_db (u ''t'') r)))
      (matched_rids row_db row_meta (u ''t'') row_txn None) = map Inr [new_id_tuple 8]"
    by (simp add: rids r(1) row_db(5))
  have "pool_count (db_pool row_db) + card (dom (matched row_db row_meta (u ''t'') row_txn None)) \<le> INVALID_PAGE_ID"
    using row_db_count by (simp add: M INVALID_PAGE_ID_def)
  from some_fuel [OF update_replaces_matches [OF row_db(1,2,4) _ row_db(6) row_db_evaluable row_db_stampable tup _ this]]
  show ?thesis using fits_new_id by (auto simp: row_db(5) M)
qed

text \<open>
  C10: \<^verbatim>\<open>SELECT * FROM table WHERE condition\<close> returns exactly the rows of the versions that are visible to the
  transaction and satisfy the condition, in the order of their row ids, each with the values stored for it, and
  changes nothing.
\<close>

theorem select_star_returns_matches:
  assumes "plain_db db" and "tables db n = Some m" and "evaluable db m (or_table a n) t cond" and "shown_schema (tb_schema m)" and "is_star sel"
  shows "\<exists>k0. \<forall>k \<ge> k0. \<exists>db' rids. execute_select k
        \<lparr>sel_items = sel, sel_table = n, sel_table_alias = a, sel_join = None, sel_where = cond, sel_group_by = [], sel_order_by = [], sel_limit = None\<rparr> t db
      = (Inr ((count_result ''SELECT'' (length rids))\<lparr>er_rows := Some (map (\<lambda>r. table_row m (the (versions db n r))) rids)\<rparr>), db')
    \<and> sorted_wrt (<) rids \<and> set rids = dom (matched db m (or_table a n) t cond) \<and> plain_db db' \<and> versions db' = versions db \<and> db_mgr db' = db_mgr db"
proof -
  let ?a = "or_table a n" let ?rids = "matched_rids db m ?a t cond" let ?p = "filtered cond (SeqScan (scan_of db m ?a t))"
  let ?rows = "map (\<lambda>r. the (matched db m ?a t cond r)) ?rids" let ?out = "map (\<lambda>r. table_row m (the (versions db n r))) ?rids"
  note inv = plain_dbD(3) [OF assms(1,2)] and st = stored_scan [OF assms(1,2), of cond ?a t]
  have proj: "project_row sel (the (matched db m ?a t cond r)) = Inr (table_row m (the (versions db n r)))" if hit: "r \<in> set ?rids" for r
  proof -
    obtain row where row: "matched db m ?a t cond r = Some row" using hit matched_rids_props(3) [OF inv] by auto
    then obtain raw where raw: "versions db n r = Some raw" "visible_row (scan_of db m ?a t) r raw = Inr (Some row)"
      using matched_Some(1) versions_table [OF assms(2)] by metis
    then have "row_from_tuple ?a (tb_schema m) r raw = Inr row" by (auto simp: visible_row_def scan_of_def split: if_splits elim!: res_bindE)
    from project_star [OF assms(4) this assms(5)] row raw(1) show ?thesis by simp
  qed
  have tr: "plan_trace (db_store db) ?p = Inr (?rows, None)"
    using scan_result [OF inv assms(3)] by (auto simp: plan_result_def split: option.splits elim!: res_bindE)
  have "project_trace sel (map (\<lambda>r. the (matched db m ?a t cond r)) rs, None) = (map (\<lambda>r. table_row m (the (versions db n r))) rs, None)"
    if "set rs \<subseteq> set ?rids" for rs using that by (induction rs) (simp_all add: project_trace_def proj one_row_def)
  then have res: "plan_result (db_store db) (Project ?p sel) = Inr ?out" using tr by (simp add: plan_result_def)
  obtain b where b: "build_row_source_plan n ?a cond t (db_mgr db) (db_catalog db) = (Inr ?p, (db_catalog db)\<lparr>cat_pool := b\<rparr>)"
    "at_view {} (pool_view (db_pool db)) b"
    using source_plan_eq [OF assms(1,2)] by blast
  have "\<not> list_ex is_call sel" using assms(5) by (auto simp: is_star_def is_call_def split: list.splits)
  with b(1) have plan: "on_catalog (build_select_plan \<lparr>sel_items = sel, sel_table = n, sel_table_alias = a, sel_join = None, sel_where = cond,
      sel_group_by = [], sel_order_by = [], sel_limit = None\<rparr> t (db_mgr db)) db = (Inr (Project ?p sel), set_pool b db)"
    by (simp add: on_catalog_def py_zoom_def build_select_plan_def py_bind_def py_return_def join_plan_def shape_plan_def sorted_plan_def
        limited_plan_def set_pool_def)
  obtain k0 where k0: "\<And>k. k0 \<le> k \<Longrightarrow> \<exists>b'. on_db_pool (run_plan k (Project ?p sel)) (set_pool b db) = (Inr ?out, set_pool b' db)
      \<and> at_view {} (pool_view (db_pool db)) b'"
    using run_plan_eq [OF assms(1), of "Project ?p sel" n m ?out] st assms(2) res b(2) by auto
  show ?thesis
  proof (intro exI [of _ k0] allI impI)
    fix k assume "k0 \<le> k"
    from k0 [OF this] obtain b' where b': "on_db_pool (run_plan k (Project ?p sel)) (set_pool b db) = (Inr ?out, set_pool b' db)"
      "at_view {} (pool_view (db_pool db)) b'" by blast
    note V = plain_view [OF assms(1) b'(2)]
    have "execute_select k \<lparr>sel_items = sel, sel_table = n, sel_table_alias = a, sel_join = None, sel_where = cond, sel_group_by = [],
        sel_order_by = [], sel_limit = None\<rparr> t db
      = (Inr ((count_result ''SELECT'' (length ?rids))\<lparr>er_rows := Some ?out\<rparr>), set_pool b' db)"
      using plan b'(1) by (simp add: execute_select_def py_bind_def py_gets_def py_return_def)
    then show "\<exists>db' rids. execute_select k
        \<lparr>sel_items = sel, sel_table = n, sel_table_alias = a, sel_join = None, sel_where = cond, sel_group_by = [], sel_order_by = [], sel_limit = None\<rparr> t db
      = (Inr ((count_result ''SELECT'' (length rids))\<lparr>er_rows := Some (map (\<lambda>r. table_row m (the (versions db n r))) rids)\<rparr>), db')
    \<and> sorted_wrt (<) rids \<and> set rids = dom (matched db m ?a t cond) \<and> plain_db db' \<and> versions db' = versions db \<and> db_mgr db' = db_mgr db"
      using V(1,2) matched_rids_props(2) [OF inv] matched_dom(1) [OF inv] by (intro exI [of _ "set_pool b' db"] exI [of _ ?rids]) simp
  qed
qed

theorem select_star_returns_matches_witness:
  "\<exists>k db'. execute_select k \<lparr>sel_items = [\<lparr>si_expr = Star, si_alias = None\<rparr>], sel_table = u ''t'', sel_table_alias = None, sel_join = None,
      sel_where = None, sel_group_by = [], sel_order_by = [], sel_limit = None\<rparr> row_txn row_db
    = (Inr ((count_result ''SELECT'' 1)\<lparr>er_rows := Some [[(u ''id'', Val (VInt 7))]]\<rparr>), db')"
proof -
  obtain r where r: "versions row_db (u ''t'') = [r \<mapsto> id_tuple 7]" using row_db_versions by blast
  have sch: "shown_schema (tb_schema row_meta)"
    by (simp add: row_db(7) shown_schema_def plain_schema_def id_schema_def schema_names_def u_def)
  have row: "table_row row_meta (id_tuple 7) = [(u ''id'', Val (VInt 7))]"
    using decode_id_tuple [of 7] by (simp add: table_row_def row_db(7)) (simp add: id_schema_def schema_names_def)
  have "rids = [r]" if "sorted_wrt (<) rids" "set rids = {r}" for rids
  proof -
    have "distinct rids" using that(1) by (simp add: strict_sorted_iff)
    moreover have "card (set rids) = 1" unfolding that(2) by simp
    ultimately have "length rids = 1" by (metis distinct_card)
    then obtain q where "rids = [q]" by (auto simp: length_Suc_conv)
    with that(2) show ?thesis by simp
  qed
  note one = this
  have star: "is_star [\<lparr>si_expr = Star, si_alias = None\<rparr>]" by (simp add: is_star_def)
  have ev: "evaluable row_db row_meta (or_table None (u ''t'')) row_txn None" using row_db_evaluable by (simp add: or_table_def)
  from some_fuel [OF select_star_returns_matches [OF row_db(1,2) ev sch star]] obtain k db' rids where
    ex: "execute_select k \<lparr>sel_items = [\<lparr>si_expr = Star, si_alias = None\<rparr>], sel_table = u ''t'', sel_table_alias = None, sel_join = None,
      sel_where = None, sel_group_by = [], sel_order_by = [], sel_limit = None\<rparr> row_txn row_db
      = (Inr ((count_result ''SELECT'' (length rids))\<lparr>er_rows := Some (map (\<lambda>r. table_row row_meta (the (versions row_db (u ''t'') r))) rids)\<rparr>), db')"
    and rids: "sorted_wrt (<) rids" "set rids = dom (matched row_db row_meta (or_table None (u ''t'')) row_txn None)" by blast
  have "set rids = {r}" using rids(2) row_db_matched [OF r] by (simp add: or_table_def)
  then have "rids = [r]" using one rids(1) by blast
  then show ?thesis using ex r row by (intro exI [of _ k] exI [of _ db']) simp
qed

end
