(* ===== verification/Replay.thy ===== *)
theory Replay
  imports Statement_Rows
begin

text \<open>
  Recovery of rows: what replaying a logged insertion or deletion does to the versions of a table. A
  replayed insertion chooses its row id anew, and adds the row again if it is already there.
\<close>

section \<open>Replaying one operation\<close>

definition replayed :: "database \<Rightarrow> ustring \<Rightarrow> (rid \<Rightarrow> bytes option) \<Rightarrow> database \<Rightarrow> bool" where
  "replayed db n M db' \<longleftrightarrow> plain_db db' \<and> cat_tables (db_catalog db') = cat_tables (db_catalog db) \<and> versions db' = (versions db)(n := M)
     \<and> db_mgr db' = db_mgr db"

lemma replayedD:
  assumes "replayed db n M db'"
  shows "plain_db db'" and "tables db' = tables db" and "versions db' n = M"
  using assms by (simp_all add: replayed_def)

lemma replayed_trans: "replayed db n M db' \<Longrightarrow> replayed db' n M' db'' \<Longrightarrow> replayed db n M' db''"
  by (simp add: replayed_def)

lemma replay_insert_eq:
  assumes plain: "plain_db db" and tab: "tables db n = Some m" and fits: "fits_page tup" and cnt: "pool_count (db_pool db) < INVALID_PAGE_ID"
  shows "\<exists>r' db'. versions db n r' = None \<and> (\<forall>r. apply_recovery_op (JObj (insert_op n tup r)) db = (Inr (), db'))
    \<and> replayed db n ((versions db n)(r' \<mapsto> tup)) db'
    \<and> set (heap_pages (table_heap db m)) \<subseteq> set (heap_pages (table_heap db' m))"
proof -
  obtain b where b: "on_catalog (open_heap m) db = (Inr (heap_object db m), set_pool b db)" "at_view {} (pool_view (db_pool db)) b"
    using open_heap_eq [OF plain tab] by blast
  let ?db = "set_pool b db" let ?h = "table_heap ?db m" note V = plain_view [OF plain b(2)]
  have tab1: "tables ?db n = Some m" and cnt1: "pool_count (hf_pool ?h) < INVALID_PAGE_ID" using tab cnt V(5) by simp_all
  have inv: "heap_inv ?h" by (rule plain_dbD(3) [OF V(1) tab1])
  from wp_conj [OF heap_insert_step [OF inv fits [unfolded fits_page_def] cnt1] heap_insert_map [OF inv fits [unfolded fits_page_def] cnt1]]
  obtain r' h' where ins: "heap_insert tup ?h = (Inr r', h')" and new: "heap_map ?h r' = None" and st: "heap_step ?h ((heap_map ?h)(r' \<mapsto> tup)) h'"
    and pages: "set (heap_pages ?h) \<subseteq> set (heap_pages h')"
    by (auto simp: wp_total)
  define db' where "db' = set_pool (hf_pool h') ?db"
  have S: "plain_db db'" "versions db' = (versions ?db)(n := (heap_map ?h)(r' \<mapsto> tup))" "table_heap db' m = h'"
    "pool_count (db_pool db') \<le> Suc (pool_count (db_pool ?db))"
    by (rule plain_step [OF V(1) tab1 st]; simp add: db'_def set_pool_def)+
  have "heap_do (heap_object ?db m) (heap_insert tup) (db_pool ?db) = (Inr (r', hf_first h', hf_last h'), hf_pool h')"
    unfolding heap_do_def heap_object_def prod.case heap_object_heap ins by simp
  then have "on_db_pool (heap_do (heap_object db m) (heap_insert tup)) ?db = (Inr (r', hf_first h', hf_last h'), db')"
    using V(3) [OF tab] by (simp add: on_db_pool_def on_catalog_def on_cat_pool_def py_zoom_def db'_def set_pool_def)
  then have "apply_recovery_op (JObj (insert_op n tup r)) db = (Inr (), db')" for r
    using tab b(1) by (simp add: apply_recovery_op_def redo_heap_insert_def insert_op_items py_bind_def py_seq_def py_lift_def py_return_def
        j_str_def get_table_eq b64_roundtrip)
  moreover have "versions db n = heap_map ?h" using V(2) versions_table [OF tab1] by simp
  moreover have "heap_pages ?h = heap_pages (table_heap db m)"
    using b(2) by (simp add: heap_pages_def at_view_def pool_view_def)
  ultimately show ?thesis using S new pages V(2,5) by (auto simp: replayed_def db'_def)
qed

lemma replay_xmax_eq:
  assumes plain: "plain_db db" and tab: "tables db n = Some m" and page: "rid_page_id r \<in> set (heap_pages (table_heap db m))" and x: "x < 2 ^ 32"
    and head: "\<forall>raw. versions db n r = Some raw \<longrightarrow> (\<exists>h. unpack_tuple_header raw = Inr h)"
  shows "\<exists>db'. apply_recovery_op (JObj (xmax_op n r x)) db = (Inr (), db')
    \<and> replayed db n (stamp_all x {r} (versions db n)) db'"
proof -
  obtain b where b: "on_catalog (open_heap m) db = (Inr (heap_object db m), set_pool b db)" "at_view {} (pool_view (db_pool db)) b"
    using open_heap_eq [OF plain tab] by blast
  let ?db = "set_pool b db" let ?h = "table_heap ?db m" note V = plain_view [OF plain b(2)]
  have tab1: "tables ?db n = Some m" using tab by simp
  have inv: "heap_inv ?h" and map: "versions db n = heap_map ?h" using plain_dbD(3) [OF V(1) tab1] V(2) versions_table [OF tab1] by simp_all
  have pg: "rid_page_id r \<in> set (heap_pages ?h)" using page b(2) by (simp add: heap_pages_def at_view_def pool_view_def)
  obtain h1 where g: "heap_get r ?h = (Inr (versions db n r), h1)" and st1: "heap_step ?h (heap_map ?h) h1"
    and same: "pool_count (hf_pool h1) = pool_count (db_pool ?db)" "hf_last h1 = hf_last ?h"
    using heap_get_step [OF inv pg] map by (auto simp: wp_total)
  define db1 where "db1 = set_pool (hf_pool h1) ?db"
  have S1: "plain_db db1" "versions db1 = (versions ?db)(n := heap_map ?h)" "table_heap db1 m = h1"
    by (rule plain_step [OF V(1) tab1 st1]; simp add: db1_def set_pool_def)+
  have ob: "heap_object db1 m = heap_object db m" using S1(3) same(2) V(3) [OF tab] by (simp add: heap_object_def)
  have c1: "replayed db n (versions db n) db1" using S1 V(2,5) map same(1) by (simp add: replayed_def) (simp add: db1_def)
  have "with_heap (heap_object ?db m) (heap_get r) (db_pool ?db) = (Inr (versions db n r), hf_pool h1)"
    unfolding with_heap_def heap_object_def prod.case heap_object_heap g by simp
  then have get: "on_db_pool (with_heap (heap_object db m) (heap_get r)) ?db = (Inr (versions db n r), db1)"
    using V(3) [OF tab] by (simp add: on_db_pool_def on_catalog_def on_cat_pool_def py_zoom_def db1_def set_pool_def)
  note step = apply_recovery_op_def redo_set_xmax_def xmax_op_items py_bind_def py_seq_def py_lift_def py_return_def j_str_def j_nat_def get_table_eq kind_names
  show ?thesis
  proof (cases "versions db n r")
    case None
    then have "apply_recovery_op (JObj (xmax_op n r x)) db = (Inr (), db1)" using tab b(1) get by (simp add: step)
    moreover have "stamp_all x {r} (versions db n) = versions db n" using None by (auto simp: stamp_all_def)
    ultimately show ?thesis using c1 by auto
  next
    case (Some raw)
    then have xm: "with_xmax raw x = Inr (stamped x raw)" using head with_xmax_stamped [OF _ x] by blast
    have "heap_map h1 r = Some raw" "length (stamped x raw) = length raw" "heap_inv h1"
      using st1 Some map with_xmax_spec(1) [OF xm] by (simp_all add: heap_step_def)
    from heap_update_step [OF this(3,1,2)] obtain h2 where up: "heap_update_in_place r (stamped x raw) h1 = (Inr True, h2)"
      and st2: "heap_step h1 ((heap_map h1)(r \<mapsto> stamped x raw)) h2" and same2: "pool_count (hf_pool h2) = pool_count (hf_pool h1)"
      by (auto simp: wp_total)
    define db2 where "db2 = set_pool (hf_pool h2) db1"
    have tab2: "tables db1 n = Some m" using tab by (simp add: db1_def)
    have S2: "plain_db db2" "versions db2 = (versions db1)(n := (heap_map h1)(r \<mapsto> stamped x raw))"
      by (rule plain_step [OF S1(1) tab2, unfolded S1(3), OF st2]; simp add: db2_def set_pool_def)+
    have "with_heap (heap_object db1 m) (heap_update_in_place r (stamped x raw)) (db_pool db1) = (Inr True, hf_pool h2)"
      unfolding with_heap_def heap_object_def prod.case heap_object_heap unfolding S1(3) up by simp
    then have "on_db_pool (with_heap (heap_object db m) (heap_update_in_place r (stamped x raw))) db1 = (Inr True, db2)"
      unfolding ob by (simp add: on_db_pool_def on_catalog_def on_cat_pool_def py_zoom_def db2_def set_pool_def)
    then have ap: "apply_recovery_op (JObj (xmax_op n r x)) db = (Inr (), db2)" using tab b(1) get Some xm by (simp add: step)
    have "heap_map h1 = versions db n" using st1 map by (simp add: heap_step_def)
    moreover have "stamp_all x {r} (versions db n) = (versions db n)(r \<mapsto> stamped x raw)" using Some by (auto simp: stamp_all_def)
    ultimately have "replayed db1 n (stamp_all x {r} (versions db n)) db2"
      using S2 same2 by (simp add: replayed_def) (simp add: db2_def db1_def)
    from replayed_trans [OF c1 this] ap show ?thesis by auto
  qed
qed

section \<open>Properties\<close>

text \<open>
  C35: replaying a logged insertion on a table that already holds the row adds it a second time, under another
  row id. This is what opening a database does after \<^verbatim>\<open>close\<close>, which writes all pages but no checkpoint
  record, or after a crash in which the page of the row had already been written back.
\<close>

theorem recovery_repeats_insert:
  assumes "plain_db db" and "tables db n = Some m" and "versions db n r = Some tup" and "fits_page tup" and "pool_count (db_pool db) < INVALID_PAGE_ID"
  shows "\<exists>r' db'. apply_recovery_op (JObj (insert_op n tup r)) db = (Inr (), db') \<and> r' \<noteq> r
    \<and> versions db' n = (versions db n)(r' \<mapsto> tup) \<and> versions db' n r = Some tup"
proof -
  obtain r' db' where R: "versions db n r' = None" "\<forall>r. apply_recovery_op (JObj (insert_op n tup r)) db = (Inr (), db')"
    "replayed db n ((versions db n)(r' \<mapsto> tup)) db'"
    using replay_insert_eq [OF assms(1,2,4,5)] by blast
  then show ?thesis using assms(3) replayedD(3) [OF R(3)] by (intro exI [of _ r'] exI [of _ db']) auto
qed

lemma row_db_room: "pool_count (db_pool row_db) < INVALID_PAGE_ID" "fits_page (id_tuple n)"
  using row_db_count by (simp_all add: INVALID_PAGE_ID_def fits_page_def page_consts id_tuple_def)

theorem recovery_repeats_insert_witness:
  "\<exists>r r' db'. apply_recovery_op (JObj (insert_op (u ''t'') (id_tuple 7) r)) row_db = (Inr (), db') \<and> r' \<noteq> r
    \<and> versions db' (u ''t'') r = Some (id_tuple 7) \<and> versions db' (u ''t'') r' = Some (id_tuple 7)"
proof -
  obtain r where "versions row_db (u ''t'') r = Some (id_tuple 7)" using row_db_versions by fastforce
  from recovery_repeats_insert [OF row_db(1,2) this row_db_room(2,1)] show ?thesis by fastforce
qed



end
