(* ===== verification/Checkpoint.thy ===== *)
theory Checkpoint
  imports Statement_Rows
begin

text \<open>
  Checkpoints: what is on disk after one, and what a process finds that opens the files after a crash.
\<close>

section \<open>The log after a checkpoint\<close>

lemma log_checkpoint_eq:
  assumes "wal_holds es m w"
  shows "\<exists>n w'. log_checkpoint w = (Inr n, w') \<and> wal_holds (es @ [(R_CHECKPOINT, 0, [])]) (Suc (length es)) w'"
proof -
  have "wp log_checkpoint (\<lambda>_ w'. wal_holds (es @ [(R_CHECKPOINT, 0, [])]) (Suc (length es)) w') (\<lambda>_ _. False) w"
    unfolding log_checkpoint_def wp_fun wp_return_fun
    by (rule wp_wal_append [OF assms]) (auto simp: payload_bytes_def intro!: wp_wal_flush)
  then show ?thesis by (auto simp: wp_total)
qed

lemma read_after_checkpoint:
  assumes "wal_holds (es @ [(R_CHECKPOINT, 0, [])]) (Suc (length es)) w" and "wl_synced w \<le> len"
  shows "read_all (take len (wl_bytes w)) = Inr (log_records 0 (es @ [(R_CHECKPOINT, 0, [])]))"
    and "committed_operations_since_checkpoint (take len (wl_bytes w)) = Inr []"
    and "uncommitted_txn_ids_since_checkpoint (take len (wl_bytes w)) = Inr {}"
proof -
  let ?es = "es @ [(R_CHECKPOINT, 0, [])]"
  obtain k where k: "Suc (length es) \<le> k" "k \<le> length ?es" "read_all (take len (wl_bytes w)) = Inr (log_records 0 (take k ?es))"
    by (rule read_after_crash [OF assms])
  then show all: "read_all (take len (wl_bytes w)) = Inr (log_records 0 ?es)" by simp
  have "after_checkpoint (log_records 0 (?es @ [])) = log_records (length (log_bytes ?es)) []"
    by (rule after_checkpoint_log) simp_all
  then have "read_since_last_checkpoint (take len (wl_bytes w)) = Inr []" using all by (simp add: read_since_eq)
  then show "committed_operations_since_checkpoint (take len (wl_bytes w)) = Inr []" "uncommitted_txn_ids_since_checkpoint (take len (wl_bytes w)) = Inr {}"
    by (simp_all add: committed_operations_since_checkpoint_def uncommitted_txn_ids_since_checkpoint_def)
qed

section \<open>Opening the files again\<close>

lemma reopen_catalog: "cat_inv c \<Longrightarrow> \<exists>c'. catalog_open b (cat_file c) = Inr c' \<and> cat_tables c' = cat_tables c \<and> cat_pool c' = b"
  by (cases "cat_file c") (simp_all add: cat_inv_def catalog_open_def)

lemma open_without_replay:
  assumes "cat_inv c" and "read_all log = Inr rs" and "committed_operations_since_checkpoint log = Inr []"
    and "uncommitted_txn_ids_since_checkpoint log = Inr ab"
  shows "\<exists>db. database_open data (cat_file c) (Some log) frames_n = Inr db \<and> db_pool db = pool_init (disk_open data) frames_n
    \<and> cat_tables (db_catalog db) = cat_tables c \<and> tm_aborted_xids (db_mgr db) = ab \<and> tm_active_xids (db_mgr db) = {}"
proof -
  let ?b = "pool_init (disk_open data) frames_n"
  obtain c' where c': "catalog_open ?b (cat_file c) = Inr c'" "cat_tables c' = cat_tables c" "cat_pool c' = ?b" using reopen_catalog [OF assms(1)] by blast
  obtain nxt where nx: "next_txn_id_after_recovery log = Inr nxt" using assms(2) by (simp add: next_txn_id_after_recovery_def)
  define db where "db = \<lparr>db_catalog = c', db_mgr = tm_init (wal_open (Some log)) nxt (Some ab)\<rparr>"
  have log: "wl_bytes (wal_open (Some log)) = log" by (simp add: wal_open_def)
  have "database_start data (cat_file c) (Some log) frames_n = Inr db" using c'(1) nx assms(4) by (simp add: database_start_def Let_def log db_def)
  moreover have "db_recover db = (Inr (), db)"
    using assms(3) c'(3) by (simp add: db_recover_def py_bind_def py_gets_def py_lift_def py_seq_def py_return_def db_def tm_init_def log pool_init_def)
  ultimately show ?thesis using c' by (intro exI [of _ db]) (simp add: database_open_def, simp add: db_def tm_init_def)
qed

lemma plain_same_pages:
  assumes plain: "plain_db db" and cat: "cat_tables (db_catalog db') = cat_tables (db_catalog db)"
    and b': "pool_inv (db_pool db')" "pool_stale (db_pool db') = {}" "2 \<le> v_avail (pool_view (db_pool db'))" "pool_count (db_pool db') \<le> INVALID_PAGE_ID"
    and pages: "pool_count (db_pool db) \<le> pool_count (db_pool db')" "\<forall>p < pool_count (db_pool db). pool_page (db_pool db') p = pool_page (db_pool db) p"
    and pins: "pool_pins (db_pool db') = (\<lambda>_. 0)"
  shows "plain_db db'" and "versions db' = versions db"
proof -
  have H: "heap_inv (table_heap db' m)" "heap_pages (table_heap db' m) = heap_pages (table_heap db m)"
    "heap_map (table_heap db' m) = heap_map (table_heap db m)" if tab: "tables db n = Some m" for n m
  proof -
    have inv: "heap_inv (heap_of (db_pool db) (tb_heap_first_page_id m))" using plain_dbD(3) [OF plain tab] by (simp add: table_heap_def)
    have *: "\<And>p. p \<in> set (heap_pages (heap_of (db_pool db) (tb_heap_first_page_id m))) \<Longrightarrow> p < pool_count (db_pool db') \<and> pool_page (db_pool db') p = pool_page (db_pool db) p"
      using inv pages by (fastforce simp: heap_inv_def heap_on_def)
    show "heap_inv (table_heap db' m)" "heap_pages (table_heap db' m) = heap_pages (table_heap db m)"
      "heap_map (table_heap db' m) = heap_map (table_heap db m)"
      using heap_same [OF inv b' * ] pins by (simp_all add: table_heap_def)
  qed
  show "plain_db db'" using plain H unfolding plain_db_def cat by metis
  show "versions db' = versions db" using H(3) cat by (auto simp: versions_def fun_eq_iff split: option.splits)
qed

lemma reopened_pool:
  fixes s' :: pool and n :: nat
  assumes "pool_inv s'" and "dm_synced (bp_disk s') = dm_file (bp_disk s')"
    and pages: "\<forall>p < pool_count s'. disk_page (bp_disk s') p = pool_page s' p"
  defines "b \<equiv> pool_init (disk_open (Some (dm_synced (bp_disk s')))) n"
  shows "pool_inv b" and "pool_stale b = {}" and "v_avail (pool_view b) = n" and "pool_pins b = (\<lambda>_. 0)" and "pool_count s' \<le> pool_count b"
    and "\<forall>p < pool_count s'. pool_page b p = pool_page s' p"
proof -
  let ?d = "disk_open (Some (dm_synced (bp_disk s')))"
  note I = pool_init_inv [OF disk_open_inv, of "Some (dm_synced (bp_disk s'))" n, folded b_def]
  show "pool_inv b" "pool_stale b = {}" "v_avail (pool_view b) = n" using I by simp_all
  show "pool_pins b = (\<lambda>_. 0)" using pool_view_eqD [OF I(3)] by (simp add: pool_view_sel)
  have "pool_count s' * PAGE_SIZE \<le> length (dm_file (bp_disk s'))" using pool_invD(1) [OF assms(1)] by (simp add: disk_inv_def)
  then have le: "pool_count s' \<le> dm_num_pages ?d" using assms(2) by (simp add: disk_open_def Let_def less_eq_div_iff_mult_less_eq)
  then show "pool_count s' \<le> pool_count b" by (simp add: b_def pool_count_init)
  have "disk_page ?d p = disk_page (bp_disk s') p" for p using assms(2) by (simp add: disk_page_def disk_open_def Let_def)
  then show "\<forall>p < pool_count s'. pool_page b p = pool_page s' p" using pages le pool_view_eqD(2) [OF I(3)] by (auto simp: pool_view_sel)
qed

text \<open>Writing the dirty pages back does not change the size of the file.\<close>

abbreviation pool_bytes :: "pool \<Rightarrow> nat" where
  "pool_bytes s \<equiv> length (dm_file (bp_disk s))"

lemma flush_page_bytes: "pool_inv s \<Longrightarrow> wp (flush_page p) (\<lambda>_ s'. pool_bytes s' = pool_bytes s) (\<lambda>_ _. True) s"
proof (cases "frame_of s p")
  case (Some i)
  assume inv: "pool_inv s"
  note D = pool_invD [OF inv]
  have "p * PAGE_SIZE + PAGE_SIZE \<le> pool_bytes s" by (rule page_end_le [OF D(1) D(5) [OF Some]])
  moreover have "i < length (bp_frames s)" using D(2) D(4) [OF Some] by simp
  ultimately show ?thesis using Some by (simp add: flush_page_def wp_rules write_back_def write_page_def length_file_write max_absorb1)
qed (simp add: flush_page_def wp_rules)

lemma flush_pages_bytes: "pool_inv s \<Longrightarrow> wp (py_for ps flush_page) (\<lambda>_ s'. pool_bytes s' = pool_bytes s) (\<lambda>_ _. True) s"
proof (induction ps arbitrary: s)
  case (Cons p ps)
  show ?case unfolding py_for.simps wp_seq
  proof (rule wp_mono [OF wp_conj [OF flush_page_spec flush_page_bytes]], goal_cases)
    case (3 x s')
    with Cons.IH [of s'] show ?case by simp
  qed (use Cons.prems in simp_all)
qed (simp add: wp_rules)

lemma flush_all_eq:
  assumes "pool_inv s" and "pool_stale s = {}"
  shows "\<exists>b. flush_all s = (Inr (), b) \<and> pool_inv b \<and> pool_view b = pool_view s \<and> dm_synced (bp_disk b) = dm_file (bp_disk b)
    \<and> (\<forall>p < pool_count s. disk_page (bp_disk b) p = pool_page s p) \<and> pool_bytes b = pool_bytes s \<and> pool_stale b = {}"
proof -
  have "wp flush_all (\<lambda>_ s'. pool_bytes s' = pool_bytes s) (\<lambda>_ _. True) s" unfolding flush_all_def
    by (simp add: wp_rules, rule wp_mono [OF flush_pages_bytes [OF assms(1)]]) (simp_all add: wp_on_disk, simp add: wp_def disk_fsync_def file_op_def)
  from wp_conj [OF flush_all_spec [OF assms] this] show ?thesis by (auto simp: wp_total)
qed

text \<open>The run of \<^verbatim>\<open>checkpoint\<close> when no transaction is active.\<close>

lemma checkpoint_run:
  assumes "pool_inv (db_pool db)" and "pool_stale (db_pool db) = {}" and "wal_holds es m (tm_wal (db_mgr db))" and idle: "\<not> has_active_transactions (db_mgr db)"
  shows "\<exists>b w. db_checkpoint db = (Inr (), (set_pool b db)\<lparr>db_mgr := (db_mgr db)\<lparr>tm_wal := w\<rparr>\<rparr>)
    \<and> at_view {} (pool_view (db_pool db)) b \<and> dm_synced (bp_disk b) = dm_file (bp_disk b)
    \<and> (\<forall>p < pool_count b. disk_page (bp_disk b) p = pool_page b p) \<and> pool_bytes b = pool_bytes (db_pool db)
    \<and> wal_holds (es @ [(R_CHECKPOINT, 0, [])]) (Suc (length es)) w"
proof -
  obtain b where fl: "flush_all (db_pool db) = (Inr (), b)" and b: "pool_inv b" "pool_view b = pool_view (db_pool db)"
    "dm_synced (bp_disk b) = dm_file (bp_disk b)" "\<forall>p < pool_count (db_pool db). disk_page (bp_disk b) p = pool_page (db_pool db) p"
    "pool_bytes b = pool_bytes (db_pool db)" "pool_stale b = {}"
    using flush_all_eq [OF assms(1,2)] by blast
  obtain k w where cp: "log_checkpoint (tm_wal (db_mgr db)) = (Inr k, w)" "wal_holds (es @ [(R_CHECKPOINT, 0, [])]) (Suc (length es)) w"
    using log_checkpoint_eq [OF assms(3)] by blast
  have "db_checkpoint db = (Inr (), (set_pool b db)\<lparr>db_mgr := (db_mgr db)\<lparr>tm_wal := w\<rparr>\<rparr>)"
    using idle fl cp(1) by (simp add: db_checkpoint_def py_bind_def py_gets_def py_seq_def py_return_def on_db_pool_def on_catalog_def on_cat_pool_def
        on_mgr_def on_wal_def py_zoom_def set_pool_def)
  moreover have "pool_count b = pool_count (db_pool db)" "pool_page b = pool_page (db_pool db)" using b(2) by (simp_all add: pool_view_def)
  ultimately show ?thesis using b cp(2) by (intro exI [of _ b] exI [of _ w]) (simp add: at_view_def)
qed

section \<open>A sample\<close>

text \<open>The sample database opened from its pages, with its catalog saved.\<close>

lemma length_pages: "(\<And>i. i < n \<Longrightarrow> length (f i) = k) \<Longrightarrow> length (concat (map f [0..<n])) = n * k"
  by (induction n) simp_all

lemma drop_pages: "(\<And>i. i < n \<Longrightarrow> length (f i) = k) \<Longrightarrow> p < n \<Longrightarrow> take k (drop (p * k) (concat (map f [0..<n]))) = f p"
proof (induction n)
  case (Suc n)
  have len: "length (concat (map f [0..<n])) = n * k" using Suc.prems(1) by (intro length_pages) simp
  show ?case
  proof (cases "p = n")
    case False
    then have "p < n" using Suc.prems by simp
    moreover from this have "p * k + k \<le> n * k" by (metis Suc_leI mult_Suc mult_le_mono1 add.commute)
    ultimately show ?thesis using Suc len by simp
  qed (use Suc.prems len in simp)
qed simp

definition row_pages :: bytes where
  "row_pages = concat (map (pool_page (db_pool row_db)) [0..<pool_count (db_pool row_db)])"

definition saved_db :: database where
  "saved_db = \<lparr>db_catalog = \<lparr>cat_pool = pool_init (disk_open (Some row_pages)) 2, cat_tables = cat_tables (db_catalog row_db),
       cat_file = Some (dumps_indented (tables_json (cat_tables (db_catalog row_db))))\<rparr>, db_mgr = db_mgr row_db\<rparr>"

lemma saved_pool: "pool_inv (db_pool saved_db)" "pool_stale (db_pool saved_db) = {}" "pool_bytes (db_pool saved_db) \<le> 2 * PAGE_SIZE"
  "plain_db saved_db" "versions saved_db = versions row_db"
proof -
  let ?b = "db_pool row_db" let ?d = "disk_open (Some row_pages)"
  have pool: "db_pool saved_db = pool_init ?d 2" by (simp add: saved_db_def)
  have inv: "pool_inv ?b" using id_heap(1) by (simp add: row_db_def heap_inv_def heap_on_def heap_idle_def)
  have len: "\<And>p. p < pool_count ?b \<Longrightarrow> length (pool_page ?b p) = PAGE_SIZE" using pool_page_length [OF inv] .
  then have size: "length row_pages = pool_count ?b * PAGE_SIZE" unfolding row_pages_def by (rule length_pages)
  note I = pool_init_inv [OF disk_open_inv, of "Some row_pages" 2, folded pool]
  have cnt: "pool_count (db_pool saved_db) = pool_count ?b" using size by (simp add: pool pool_count_init disk_open_def Let_def PAGE_SIZE_def)
  have pages: "\<forall>p < pool_count ?b. pool_page (db_pool saved_db) p = pool_page ?b p"
    using pool_view_eqD(2) [OF I(3)] cnt drop_pages [of "pool_count ?b" "pool_page ?b", OF len]
    by (simp add: pool pool_count_init disk_page_def file_read_def disk_open_def Let_def flip: row_pages_def)
  show "pool_inv (db_pool saved_db)" "pool_stale (db_pool saved_db) = {}" using I by simp_all
  show "pool_bytes (db_pool saved_db) \<le> 2 * PAGE_SIZE" using size row_db_count by (simp add: pool pool_init_def disk_open_def Let_def)
  have tabs: "cat_tables (db_catalog saved_db) = cat_tables (db_catalog row_db)" by (simp add: saved_db_def)
  have "pool_count (db_pool saved_db) \<le> INVALID_PAGE_ID" using cnt row_db_count by (simp add: INVALID_PAGE_ID_def)
  from plain_same_pages [OF row_db(1) tabs I(1,2) _ this _ pages] I(3) cnt show "plain_db saved_db" "versions saved_db = versions row_db"
    using pool_view_eqD(3) [OF I(3)] by simp_all
qed

end
