(* ===== verification/Redo.thy ===== *)
theory Redo
  imports Checkpoint
begin

text \<open>
  Recovery of the rows. Statements of transactions that all commit, in any interleaving, change the pages the way their log
  records say; a process that opens the files after a crash, with the pages as the last checkpoint left them, redoes these
  records and has the same versions under the same row ids.
\<close>

section \<open>Histories\<close>

text \<open>
  What happens in a database after a checkpoint: transactions begin and commit, run statements on rows, and pages move
  between memory and disk.
\<close>

inductive row_history :: "database \<Rightarrow> database \<Rightarrow> bool" for db0 where
  idle: "row_history db0 db0"
| moves: "row_history db0 db \<Longrightarrow> at_view {} (pool_view (db_pool db)) b \<Longrightarrow> row_history db0 (set_pool b db)"
| begins: "row_history db0 db \<Longrightarrow> tm_next_txn_id (db_mgr db) < 2 ^ 32 \<Longrightarrow> db_begin db = (Inr t, db') \<Longrightarrow> row_history db0 db'"
| commits: "row_history db0 db \<Longrightarrow> tx_id t < 2 ^ 32 \<Longrightarrow> on_mgr (tm_commit t) db = (Inr t', db') \<Longrightarrow> row_history db0 db'"
| inserts: "row_history db0 db \<Longrightarrow> tx_id t \<in> tm_active_xids (db_mgr db) \<Longrightarrow> tx_id t < 2 ^ 32 \<Longrightarrow> tables db n = Some m \<Longrightarrow> small_name n \<Longrightarrow>
    resolve_insert_values cols exprs (tb_schema m) = Inr rows \<Longrightarrow> res_map (row_tuple (tb_schema m) (tx_id t)) rows = Inr tups \<Longrightarrow>
    list_all fits_page tups \<Longrightarrow> pool_count (db_pool db) + length rows \<le> INVALID_PAGE_ID \<Longrightarrow>
    execute_insert n cols exprs t db = (y, db') \<Longrightarrow> row_history db0 db'"
| deletes: "row_history db0 db \<Longrightarrow> tx_id t \<in> tm_active_xids (db_mgr db) \<Longrightarrow> tx_id t < 2 ^ 32 \<Longrightarrow> tables db n = Some m \<Longrightarrow> small_name n \<Longrightarrow>
    finds_rows db n m t cond k \<Longrightarrow> execute_delete k n cond t db = (y, db') \<Longrightarrow> row_history db0 db'"
| updates: "row_history db0 db \<Longrightarrow> tx_id t \<in> tm_active_xids (db_mgr db) \<Longrightarrow> tx_id t < 2 ^ 32 \<Longrightarrow> tables db n = Some m \<Longrightarrow> small_name n \<Longrightarrow>
    finds_rows db n m t cond k \<Longrightarrow>
    map (\<lambda>r. update_tuple m (tx_id t) assigns (the (versions db n r))) (matched_rids db m n t cond) = map Inr tups \<Longrightarrow>
    list_all fits_page tups \<Longrightarrow> pool_count (db_pool db) + card (dom (matched db m n t cond)) \<le> INVALID_PAGE_ID \<Longrightarrow>
    execute_update k n assigns cond t db = (y, db') \<Longrightarrow> row_history db0 db'"

text \<open>
  What the log holds then: behind the entries \<open>pre\<close> of the checkpoint, entries of transactions that are active or have committed,
  and redoing the operations among them gives the pages. All of it is durable when no transaction is active.
\<close>

abbreviation op_entries :: "log_entry list \<Rightarrow> log_entry list" where
  "op_entries es \<equiv> filter (\<lambda>e. fst e = R_OP) es"

definition traced :: "nat set \<Rightarrow> log_entry list \<Rightarrow> bool" where
  "traced A post \<longleftrightarrow> (\<forall>(rt, x, p) \<in> set post. rt \<in> {R_BEGIN, R_OP, R_COMMIT} \<and> (x \<in> A \<or> has_commit x post))"

definition history_inv :: "database \<Rightarrow> log_entry list \<Rightarrow> database \<Rightarrow> log_entry list \<Rightarrow> nat \<Rightarrow> bool" where
  "history_inv db0 pre db post k \<longleftrightarrow> plain_db db \<and> cat_tables (db_catalog db) = cat_tables (db_catalog db0)
     \<and> wal_holds (pre @ post) k (tm_wal (db_mgr db)) \<and> length pre \<le> k
     \<and> (tm_active_xids (db_mgr db) = {} \<longrightarrow> k = length (pre @ post))
     \<and> traced (tm_active_xids (db_mgr db)) post \<and> replays db0 (op_entries post) db"

lemma wal_holds_logged:
  "wal_holds es k (tm_wal tm) \<Longrightarrow> list_all entry_ok ops \<Longrightarrow> wal_holds (es @ ops) k (tm_wal (logged ops tm))"
  by (auto simp: wal_holds_def logged_def log_bytes_def list_all_iff simp del: entry_ok.simps)

lemma wal_holds_synced: "wal_holds es k (tm_wal tm) \<Longrightarrow> wal_holds es (length es) (tm_wal (synced tm))"
  by (simp add: wal_holds_def synced_def)

lemma wal_open: "wal_holds es k w \<Longrightarrow> \<not> wl_closed w"
  by (simp add: wal_holds_def)

lemma traced_append:
  "traced A post \<Longrightarrow> A \<subseteq> A' \<Longrightarrow> \<forall>(rt, x, p) \<in> set ops. rt \<in> {R_BEGIN, R_OP, R_COMMIT} \<and> (x \<in> A' \<or> has_commit x (post @ ops)) \<Longrightarrow> traced A' (post @ ops)"
  unfolding traced_def has_commit_def by fastforce

lemma traced_commit: "traced A post \<Longrightarrow> traced (A - {x}) (post @ [(R_COMMIT, x, [])])"
  unfolding traced_def has_commit_def by fastforce

lemma history_change:
  assumes inv: "history_inv db0 pre db post k" and ch: "row_change db n M ops c db'" and x: "x \<in> tm_active_xids (db_mgr db)"
    and ops: "\<forall>e \<in> set ops. fst e = R_OP \<and> fst (snd e) = x"
  shows "history_inv db0 pre db' (post @ ops) k"
proof -
  note I = inv [unfolded history_inv_def] and C = ch [unfolded row_change_def]
  have op: "op_entries ops = ops" using ops by (simp add: filter_id_conv)
  have "wal_holds ((pre @ post) @ ops) k (tm_wal (db_mgr db'))" using wal_holds_logged [of "pre @ post" k "db_mgr db" ops] I C by simp
  moreover have "traced (tm_active_xids (db_mgr db')) (post @ ops)"
    using I C ops x by (intro traced_append [of "tm_active_xids (db_mgr db)"]) fastforce+
  moreover have "replays db0 (op_entries (post @ ops)) db'" using replays_trans [of db0 "op_entries post" db ops db'] I C op by simp
  ultimately show ?thesis using I C x by (auto simp: history_inv_def)
qed

lemma history_mgr:
  assumes "history_inv db0 pre db post k" and "db_mgr db' = tm'" and "db_catalog db' = db_catalog db"
    and "wal_holds (pre @ post @ ops) k' (tm_wal tm')" and "k \<le> k'" and "tm_active_xids tm' = {} \<longrightarrow> k' = length (pre @ post @ ops)"
    and "traced (tm_active_xids tm') (post @ ops)" and "op_entries ops = []"
  shows "history_inv db0 pre db' (post @ ops) k'"
proof -
  have "table_heap db' = table_heap db" using assms(3) by (simp add: table_heap_def fun_eq_iff)
  then have "plain_db db'" using assms(1,3) unfolding plain_db_def history_inv_def by simp
  moreover have "replays db0 (op_entries (post @ ops)) db'"
    using replays_trans [OF _ replays_view [of db' db], of db0 "op_entries post"] assms(1,3,8) by (simp add: history_inv_def)
  ultimately show ?thesis using assms by (simp add: history_inv_def)
qed

lemma history_begin:
  assumes I: "history_inv db0 pre db post k" and small: "tm_next_txn_id (db_mgr db) < 2 ^ 32" and run: "db_begin db = (Inr t, db')"
  shows "history_inv db0 pre db' (post @ [(R_BEGIN, tm_next_txn_id (db_mgr db), [])]) k"
proof -
  let ?x = "tm_next_txn_id (db_mgr db)" let ?e = "(R_BEGIN, ?x, []) :: log_entry"
  note J = I [unfolded history_inv_def]
  have "\<not> wl_closed (tm_wal (db_mgr db))" using J wal_open by blast
  note tb = tm_begin_logged [OF this small]
  define tm' where "tm' = (logged [?e] (db_mgr db))\<lparr>tm_next_txn_id := ?x + 1, tm_active_xids := insert ?x (tm_active_xids (db_mgr db))\<rparr>"
  have db': "db' = db\<lparr>db_mgr := tm'\<rparr>" using run by (simp add: db_begin_def on_mgr_def py_zoom_def tb tm'_def)
  have "wal_holds ((pre @ post) @ [?e]) k (tm_wal (logged [?e] (db_mgr db)))"
    by (rule wal_holds_logged) (use J small in \<open>simp_all add: payload_bytes_def\<close>)
  moreover have "traced (tm_active_xids tm') (post @ [?e])"
    by (rule traced_append [of "tm_active_xids (db_mgr db)"]) (use J in \<open>auto simp: tm'_def\<close>)
  ultimately show ?thesis by (intro history_mgr [OF I, of _ tm']) (simp_all add: db', simp_all add: tm'_def)
qed

lemma history_commit:
  assumes I: "history_inv db0 pre db post k" and small: "tx_id t < 2 ^ 32" and run: "on_mgr (tm_commit t) db = (Inr t', db')"
  shows "history_inv db0 pre db' (post @ [(R_COMMIT, tx_id t, [])]) (length (pre @ post @ [(R_COMMIT, tx_id t, [])]))"
proof -
  let ?e = "(R_COMMIT, tx_id t, []) :: log_entry"
  note J = I [unfolded history_inv_def]
  have op: "\<not> wl_closed (tm_wal (db_mgr db))" using J wal_open by blast
  have "tx_state t = TXN_ACTIVE"
    using run by (cases "tx_state t = TXN_ACTIVE") (simp_all add: on_mgr_def py_zoom_def tm_commit_def py_raise_def)
  note tc = tm_commit_logged [OF op small this]
  define tm' where "tm' = (synced (logged [?e] (db_mgr db)))\<lparr>tm_active_xids := tm_active_xids (db_mgr db) - {tx_id t}\<rparr>"
  have db': "db' = db\<lparr>db_mgr := tm'\<rparr>" using run by (simp add: on_mgr_def py_zoom_def tc tm'_def)
  have "wal_holds ((pre @ post) @ [?e]) k (tm_wal (logged [?e] (db_mgr db)))"
    by (rule wal_holds_logged) (use J small in \<open>simp_all add: payload_bytes_def\<close>)
  from wal_holds_synced [OF this] have "wal_holds (pre @ post @ [?e]) (length (pre @ post @ [?e])) (tm_wal tm')" by (simp add: tm'_def)
  moreover have "traced (tm_active_xids tm') (post @ [?e])" using J traced_commit by (simp add: tm'_def)
  moreover have "k \<le> length (pre @ post @ [?e])" using J by (simp add: wal_holds_def)
  ultimately show ?thesis by (intro history_mgr [OF I]) (simp_all add: db')
qed

lemma history_holds:
  assumes "row_history db0 db" and "history_inv db0 pre db0 [] k0"
  shows "\<exists>post k. history_inv db0 pre db post k"
  using assms
proof induction
  case idle
  then show ?case by blast
next
  case (moves db b)
  then obtain post k where I: "history_inv db0 pre db post k" by blast
  have "replays db [] (set_pool b db)" by (rule replays_view) (use moves.hyps(2) in \<open>simp_all add: at_view_def\<close>)
  then have "replays db0 (op_entries post) (set_pool b db)" using I replays_trans [of db0 "op_entries post" db "[]"] by (simp add: history_inv_def)
  then show ?case using I plain_view(1) [OF _ moves.hyps(2)] by (auto simp: history_inv_def)
next
  case (begins db t db')
  then show ?case using history_begin by blast
next
  case (commits db t t' db')
  then show ?case using history_commit by blast
next
  case (inserts db t n m cols exprs rows tups y db')
  then obtain post k where I: "history_inv db0 pre db post k" by blast
  then have P: "plain_db db" "\<not> wl_closed (tm_wal (db_mgr db))" using wal_open by (auto simp: history_inv_def)
  obtain rids where "row_change db n ((versions db n)(rids [\<mapsto>] tups)) (map2 (\<lambda>tup r. (R_OP, tx_id t, insert_op n tup r)) tups rids) (length rows) db'"
    using insert_change [OF P(1) inserts.hyps(4) P(2) inserts.hyps(3,5-9)] inserts.hyps(10) by auto
  then show ?case by (intro exI, rule history_change [OF I _ inserts.hyps(2)]) auto
next
  case (deletes db t n m cond k y db')
  then obtain post k' where I: "history_inv db0 pre db post k'" by blast
  then have P: "plain_db db" "\<not> wl_closed (tm_wal (db_mgr db))" using wal_open by (auto simp: history_inv_def)
  have "row_change db n (stamp_all (tx_id t) (dom (matched db m n t cond)) (versions db n))
        (map (\<lambda>r. (R_OP, tx_id t, xmax_op n r (tx_id t))) (matched_rids db m n t cond)) 0 db'"
    using delete_change [OF P(1) deletes.hyps(4) P(2) deletes.hyps(3,5,6)] deletes.hyps(7) by auto
  then show ?case by (intro exI, rule history_change [OF I _ deletes.hyps(2)]) auto
next
  case (updates db t n m cond k assigns tups y db')
  then obtain post k' where I: "history_inv db0 pre db post k'" by blast
  then have P: "plain_db db" "\<not> wl_closed (tm_wal (db_mgr db))" using wal_open by (auto simp: history_inv_def)
  obtain new where "row_change db n ((stamp_all (tx_id t) (dom (matched db m n t cond)) (versions db n))(new [\<mapsto>] tups))
        (update_ops (tx_id t) n (matched_rids db m n t cond) tups new) (card (dom (matched db m n t cond))) db'"
    using update_change [OF P(1) updates.hyps(4) P(2) updates.hyps(3,5-9)] updates.hyps(10) by auto
  then show ?case by (intro exI, rule history_change [OF I _ updates.hyps(2)]) (auto simp: update_ops_def)
qed

section \<open>Redoing the log\<close>

lemma redo_records:
  "py_for (filter (\<lambda>r. lr_type r = R_OP) (log_records k es)) (\<lambda>r. apply_recovery_op (lr_payload r)) = redo_ops (op_entries es)"
  by (induction es arbitrary: k) auto

lemma begins_log_records: "x \<in> lr_txn_id ` {r \<in> set (log_records k es). lr_type r = R_BEGIN} \<Longrightarrow> \<exists>p. (R_BEGIN, x, p) \<in> set es"
  by (induction es arbitrary: k) auto

lemma log_records_entry: "r \<in> set (log_records k es) \<Longrightarrow> \<exists>e \<in> set es. lr_txn_id r = fst (snd e)"
  by (induction es arbitrary: k) auto

text \<open>What recovery reads of a log all of whose transactions have committed.\<close>

lemma committed_log:
  assumes holds: "wal_holds (pre @ post) (length (pre @ post)) w" and cut: "wl_synced w \<le> len"
    and pre: "pre = [] \<or> fst (last pre) = R_CHECKPOINT" and tr: "traced {} post"
  shows "\<exists>rs. read_all (take len (wl_bytes w)) = Inr rs"
    and "committed_operations_since_checkpoint (take len (wl_bytes w)) = Inr (filter (\<lambda>r. lr_type r = R_OP) (log_records (length (log_bytes pre)) post))"
    and "uncommitted_txn_ids_since_checkpoint (take len (wl_bytes w)) = Inr {}"
proof -
  let ?rs = "log_records (length (log_bytes pre)) post"
  obtain k where k: "length (pre @ post) \<le> k" "read_all (take len (wl_bytes w)) = Inr (log_records 0 (take k (pre @ post)))"
    by (rule read_after_crash [OF holds cut])
  then show "\<exists>rs. read_all (take len (wl_bytes w)) = Inr rs" by blast
  have "\<forall>e \<in> set post. fst e \<noteq> R_CHECKPOINT" using tr by (auto simp: traced_def)
  then have since: "read_since_last_checkpoint (take len (wl_bytes w)) = Inr ?rs"
    using k after_checkpoint_log [OF pre, of post] by (simp add: read_since_eq)
  have all: "has_commit (fst (snd e)) post" if "e \<in> set post" for e using tr that by (auto simp: traced_def)
  have "lr_txn_id r \<in> lr_txn_id ` {r \<in> set ?rs. lr_type r = R_COMMIT}" if "r \<in> set ?rs" for r
    using log_records_entry [OF that] all unfolding commits_log_records by auto
  then show "committed_operations_since_checkpoint (take len (wl_bytes w)) = Inr (filter (\<lambda>r. lr_type r = R_OP) ?rs)"
    unfolding committed_operations_since_checkpoint_def since by (simp add: Let_def cong: filter_cong)
  show "uncommitted_txn_ids_since_checkpoint (take len (wl_bytes w)) = Inr {}"
    unfolding uncommitted_txn_ids_since_checkpoint_def since using all begins_log_records commits_log_records
    by (fastforce simp: Let_def)
qed

text \<open>Opening a database with operations to redo.\<close>

lemma open_with_redo:
  assumes cat: "cat_inv c" "cat_tables c = cat_tables (db_catalog db0)" and log: "read_all log = Inr rs" "committed_operations_since_checkpoint log = Inr ops"
    "uncommitted_txn_ids_since_checkpoint log = Inr ab" and ops: "py_for ops (\<lambda>r. apply_recovery_op (lr_payload r)) = redo_ops es"
    and rep: "replays db0 es db" and tw: "twin (db_pool db0) (pool_init (disk_open data) n)"
  shows "\<exists>db2. database_open data (cat_file c) (Some log) n = Inr db2 \<and> twin_db db db2 \<and> tm_aborted_xids (db_mgr db2) = ab \<and> tm_active_xids (db_mgr db2) = {}"
proof -
  let ?b = "pool_init (disk_open data) n"
  obtain c' where c': "catalog_open ?b (cat_file c) = Inr c'" "cat_tables c' = cat_tables c" "cat_pool c' = ?b" using reopen_catalog [OF cat(1)] by blast
  obtain nxt where nx: "next_txn_id_after_recovery log = Inr nxt" using log(1) by (simp add: next_txn_id_after_recovery_def)
  define dbs where "dbs = \<lparr>db_catalog = c', db_mgr = tm_init (wal_open (Some log)) nxt (Some ab)\<rparr>"
  have bytes: "wl_bytes (wal_open (Some log)) = log" by (simp add: wal_open_def)
  have start: "database_start data (cat_file c) (Some log) n = Inr dbs" using c'(1) nx log(3) by (simp add: database_start_def Let_def bytes dbs_def)
  have mgr: "wl_bytes (tm_wal (db_mgr dbs)) = log" "tm_aborted_xids (db_mgr dbs) = ab" "tm_active_xids (db_mgr dbs) = {}"
    by (simp_all add: dbs_def tm_init_def bytes)
  have "twin_db db0 dbs" using c' cat(2) tw by (simp add: twin_db_def dbs_def)
  then obtain dbx where dbx: "redo_ops es dbs = (Inr (), dbx)" "twin_db db dbx" "db_mgr dbx = db_mgr dbs" using rep unfolding replays_def by blast
  let ?finish = "py_bind (py_gets (\<lambda>db. cat_pool (db_catalog db))) (\<lambda>b. if bp_disk_writes b \<noteq> 0 \<or> bp_disk_reads b \<noteq> 0 then on_db_pool flush_all else py_return ())"
  have T: "pool_inv (db_pool dbx)" "pool_stale (db_pool dbx) = {}" using dbx(2) by (simp_all add: twin_db_def twin_def)
  obtain b where fl: "flush_all (db_pool dbx) = (Inr (), b)" "at_view {} (pool_view (db_pool dbx)) b"
    using flush_all_eq [OF T] by (auto simp: at_view_def)
  have "twin_db db (set_pool b dbx)" using dbx(2) twin_view [OF _ fl(2)] by (simp add: twin_db_def)
  moreover have "on_db_pool flush_all dbx = (Inr (), set_pool b dbx)"
    using fl(1) by (simp add: on_db_pool_def on_catalog_def on_cat_pool_def py_zoom_def set_pool_def)
  ultimately have "\<exists>db2. ?finish dbx = (Inr (), db2) \<and> twin_db db db2 \<and> db_mgr db2 = db_mgr dbs"
    using dbx(2,3) by (simp add: py_bind_def py_gets_def py_return_def)
  then obtain db2 where db2: "?finish dbx = (Inr (), db2)" "twin_db db db2" "db_mgr db2 = db_mgr dbs" by blast
  have "db_recover dbs = ?finish dbx" using log(2) dbx(1) by (simp add: db_recover_def py_bind_def py_gets_def py_lift_def py_seq_def mgr ops)
  then show ?thesis using start db2 mgr by (auto simp: database_open_def)
qed

text \<open>The state right after a checkpoint, where a history starts.\<close>

lemma checkpoint_starts:
  assumes plain: "plain_db dbc" and pool: "pool_inv (db_pool dbc)" "pool_stale (db_pool dbc) = {}"
    and wal: "wal_holds es m (tm_wal (db_mgr dbc))" and run: "db_checkpoint dbc = (Inr (), db0)"
  obtains b w where "db0 = (set_pool b dbc)\<lparr>db_mgr := (db_mgr dbc)\<lparr>tm_wal := w\<rparr>\<rparr>" and "at_view {} (pool_view (db_pool dbc)) b"
    and "dm_synced (bp_disk b) = dm_file (bp_disk b)" and "\<forall>p < pool_count b. disk_page (bp_disk b) p = pool_page b p"
    and "pool_bytes b = pool_bytes (db_pool dbc)" and "history_inv db0 (es @ [(R_CHECKPOINT, 0, [])]) db0 [] (Suc (length es))"
proof -
  have idle: "\<not> has_active_transactions (db_mgr dbc)" using run by (auto simp: db_checkpoint_def py_bind_def py_gets_def py_raise_def)
  obtain b w where db0: "db0 = (set_pool b dbc)\<lparr>db_mgr := (db_mgr dbc)\<lparr>tm_wal := w\<rparr>\<rparr>"
    and b: "at_view {} (pool_view (db_pool dbc)) b" "dm_synced (bp_disk b) = dm_file (bp_disk b)"
      "\<forall>p < pool_count b. disk_page (bp_disk b) p = pool_page b p" "pool_bytes b = pool_bytes (db_pool dbc)"
    and log: "wal_holds (es @ [(R_CHECKPOINT, 0, [])]) (Suc (length es)) w"
    using checkpoint_run [OF pool wal idle] run by auto
  have "plain_db (set_pool b dbc)" by (rule plain_view(1) [OF plain b(1)])
  then have "plain_db db0" by (simp add: plain_db_def table_heap_def db0)
  moreover have "tm_active_xids (db_mgr db0) = {}" using idle by (simp add: db0 has_active_transactions_def)
  ultimately have "history_inv db0 (es @ [(R_CHECKPOINT, 0, [])]) db0 [] (Suc (length es))"
    using log replays_view [of db0 db0] by (simp add: history_inv_def traced_def db0)
  with db0 b show ?thesis by (rule that)
qed

section \<open>Properties\<close>

text \<open>
  C5: recovery restores the rows. After a checkpoint, transactions run any interleaving of \<^verbatim>\<open>INSERT\<close>, \<^verbatim>\<open>DELETE\<close> and \<^verbatim>\<open>UPDATE\<close>
  and all of them commit. If the data file is still as the checkpoint left it, then a process that opens the files redoes
  the log and has the versions of every table that the database had, under the same row ids, and counts no transaction as
  aborted. The log may be cut anywhere behind its durable part, which contains every commit.
\<close>

theorem recovery_restores_rows:
  assumes "plain_db dbc" and "cat_inv (db_catalog dbc)" and "pool_inv (db_pool dbc)" and "pool_stale (db_pool dbc) = {}"
    and "wal_holds es m (tm_wal (db_mgr dbc))" and "2 \<le> n" and "pool_bytes (db_pool dbc) = pool_count (db_pool dbc) * PAGE_SIZE"
    and "db_checkpoint dbc = (Inr (), db0)" and "row_history db0 db" and "\<not> has_active_transactions (db_mgr db)"
    and "wl_synced (tm_wal (db_mgr db)) \<le> len"
  shows "\<exists>db2. database_open (Some (dm_synced (bp_disk (db_pool db0)))) (cat_file (db_catalog db0)) (Some (take len (wl_bytes (tm_wal (db_mgr db))))) n = Inr db2
    \<and> plain_db db2 \<and> cat_tables (db_catalog db2) = cat_tables (db_catalog db) \<and> versions db2 = versions db \<and> tm_aborted_xids (db_mgr db2) = {}"
proof -
  let ?pre = "es @ [(R_CHECKPOINT, 0, [])] :: log_entry list"
  obtain b w where db0: "db0 = (set_pool b dbc)\<lparr>db_mgr := (db_mgr dbc)\<lparr>tm_wal := w\<rparr>\<rparr>"
    and b: "at_view {} (pool_view (db_pool dbc)) b" "dm_synced (bp_disk b) = dm_file (bp_disk b)"
      "\<forall>p < pool_count b. disk_page (bp_disk b) p = pool_page b p" "pool_bytes b = pool_bytes (db_pool dbc)"
    and "history_inv db0 ?pre db0 [] (Suc (length es))"
    by (rule checkpoint_starts [OF assms(1,3,4,5,8)])
  with history_holds [OF assms(9)] obtain post k where I: "history_inv db0 ?pre db post k" by blast
  note J = I [unfolded history_inv_def]
  have act: "tm_active_xids (db_mgr db) = {}" using assms(10) by (simp add: has_active_transactions_def)
  then have "wal_holds (?pre @ post) (length (?pre @ post)) (tm_wal (db_mgr db))" "traced {} post" using J by auto
  note L = committed_log [OF this(1) assms(11) _ this(2)]
  have inv: "pool_inv b" and cnt: "pool_count b = pool_count (db_pool dbc)" using b(1) by (simp_all add: at_view_def pool_view_def)
  let ?b = "pool_init (disk_open (Some (dm_synced (bp_disk b)))) n"
  note P = reopened_pool [OF inv b(2,3), of n]
  have "pool_count ?b = pool_count b" using b(2,4) assms(7) cnt by (simp add: pool_count_init disk_open_def Let_def PAGE_SIZE_def)
  then have tw: "twin (db_pool db0) ?b" using P assms(6) by (simp add: twin_def db0)
  obtain rs where rs: "read_all (take len (wl_bytes (tm_wal (db_mgr db)))) = Inr rs" using L(1) by auto
  have cat: "cat_inv (db_catalog db0)" using assms(2) by (cases "cat_file (db_catalog dbc)") (auto simp: db0 cat_inv_def set_pool_def)
  have "fst (last ?pre) = R_CHECKPOINT" by simp
  from open_with_redo [OF cat refl rs L(2,3) redo_records _ tw] this J obtain db2 where
    op: "database_open (Some (dm_synced (bp_disk b))) (cat_file (db_catalog db0)) (Some (take len (wl_bytes (tm_wal (db_mgr db))))) n = Inr db2"
    and db2: "twin_db db db2" "tm_aborted_xids (db_mgr db2) = {}" by blast
  have "bp_disk (db_pool db0) = bp_disk b" by (simp add: db0)
  with op db2 plain_twin [OF _ db2(1)] J show ?thesis by (auto simp: twin_db_def)
qed

lemma saved_start:
  "cat_inv (db_catalog saved_db)" "wal_holds [] 0 (tm_wal (db_mgr saved_db))" "\<not> has_active_transactions (db_mgr saved_db)"
  "pool_bytes (db_pool saved_db) = pool_count (db_pool saved_db) * PAGE_SIZE" "tables saved_db (u ''t'') = Some row_meta"
  "tm_next_txn_id (db_mgr saved_db) = 2" "tm_active_xids (db_mgr saved_db) = {}"
proof -
  have "tables_ok (cat_tables (db_catalog row_db))"
    by (simp add: tables_ok_def table_ok_def row_db_def row_meta_def id_schema_def str_ok_const)
  then show "cat_inv (db_catalog saved_db)" by (simp add: cat_inv_def saved_db_def load_save)
  show "wal_holds [] 0 (tm_wal (db_mgr saved_db))" using wal_holds_open by (simp add: saved_db_def row_db_def tm_init_def)
  have inv: "pool_inv (db_pool row_db)" using id_heap(1) by (simp add: row_db_def heap_inv_def heap_on_def heap_idle_def)
  have "length row_pages = pool_count (db_pool row_db) * PAGE_SIZE" unfolding row_pages_def by (rule length_pages) (rule pool_page_length [OF inv])
  then show "pool_bytes (db_pool saved_db) = pool_count (db_pool saved_db) * PAGE_SIZE"
    by (simp add: saved_db_def pool_count_init disk_open_def Let_def PAGE_SIZE_def) (simp add: pool_init_def)
  show "tables saved_db (u ''t'') = Some row_meta" using row_db(2) by (simp add: saved_db_def)
qed (simp_all add: saved_db_def row_db_def tm_init_def has_active_transactions_def)

lemma saved_begin:
  "\<exists>db0 db1. db_checkpoint saved_db = (Inr (), db0) \<and> db_begin db0 = (Inr row_txn, db1) \<and> row_history db0 db1 \<and> plain_db db1
    \<and> \<not> wl_closed (tm_wal (db_mgr db1)) \<and> tables db1 (u ''t'') = Some row_meta \<and> tm_active_xids (db_mgr db1) = {2} \<and> pool_count (db_pool db1) \<le> 2"
proof -
  note P = saved_pool and S = saved_start
  obtain db0 where cp: "db_checkpoint saved_db = (Inr (), db0)" using checkpoint_run [OF P(1,2) S(2,3)] by blast
  obtain b w where db0: "db0 = (set_pool b saved_db)\<lparr>db_mgr := (db_mgr saved_db)\<lparr>tm_wal := w\<rparr>\<rparr>"
    and b: "at_view {} (pool_view (db_pool saved_db)) b" and I0: "history_inv db0 ([] @ [(R_CHECKPOINT, 0, [])]) db0 [] (Suc 0)"
    using checkpoint_starts [OF P(4,1,2) S(2) cp] by (metis list.size(3))
  have next0: "tm_next_txn_id (db_mgr db0) = 2" "tm_active_xids (db_mgr db0) = {}" using S(6,7) by (simp_all add: db0)
  have open0: "\<not> wl_closed (tm_wal (db_mgr db0))" using I0 wal_open by (auto simp: history_inv_def)
  have bg: "db_begin db0 = (Inr row_txn, db0\<lparr>db_mgr := snd (tm_begin (db_mgr db0))\<rparr>)"
    using tm_begin_logged [OF open0] next0 by (simp add: db_begin_def on_mgr_def py_zoom_def row_txn_def)
  define db1 where "db1 = db0\<lparr>db_mgr := snd (tm_begin (db_mgr db0))\<rparr>"
  have I1: "history_inv db0 ([] @ [(R_CHECKPOINT, 0, [])]) db1 ([] @ [(R_BEGIN, tm_next_txn_id (db_mgr db0), [])]) (Suc 0)"
    by (rule history_begin [OF I0 _ bg [folded db1_def]]) (simp add: next0)
  have H1: "row_history db0 db1" by (rule begins [OF idle _ bg [folded db1_def]]) (simp add: next0)
  have db1: "plain_db db1" "\<not> wl_closed (tm_wal (db_mgr db1))" "tables db1 (u ''t'') = Some row_meta" "tm_active_xids (db_mgr db1) = {2}"
    "pool_count (db_pool db1) \<le> 2"
  proof -
    show "plain_db db1" "\<not> wl_closed (tm_wal (db_mgr db1))" using I1 wal_open by (auto simp: history_inv_def)
    show "tables db1 (u ''t'') = Some row_meta" using S(5) by (simp add: db1_def db0)
    show "tm_active_xids (db_mgr db1) = {2}" using tm_begin_logged [OF open0] next0 by (simp add: db1_def)
    have "pool_count (db_pool saved_db) \<le> 2" using P(3) S(4) by (simp add: PAGE_SIZE_def)
    then show "pool_count (db_pool db1) \<le> 2" using b by (simp add: db1_def db0 at_view_def pool_view_def)
  qed
  show ?thesis using cp bg [folded db1_def] H1 db1 by blast
qed

lemma saved_history:
  "\<exists>db0 db1 y db2 t' db3 r. db_checkpoint saved_db = (Inr (), db0) \<and> db_begin db0 = (Inr row_txn, db1)
    \<and> execute_insert (u ''t'') None [[Literal (VInt 5)]] row_txn db1 = (Inr y, db2) \<and> on_mgr (tm_commit row_txn) db2 = (Inr t', db3)
    \<and> row_history db0 db3 \<and> \<not> has_active_transactions (db_mgr db3) \<and> wl_synced (tm_wal (db_mgr db3)) \<le> length (wl_bytes (tm_wal (db_mgr db3)))
    \<and> versions db3 (u ''t'') r = Some (new_id_tuple 5)"
proof -
  obtain db0 db1 where cp: "db_checkpoint saved_db = (Inr (), db0)" and bg: "db_begin db0 = (Inr row_txn, db1)" and H1: "row_history db0 db1"
    and db1: "plain_db db1" "\<not> wl_closed (tm_wal (db_mgr db1))" "tables db1 (u ''t'') = Some row_meta" "tm_active_xids (db_mgr db1) = {2}"
      "pool_count (db_pool db1) \<le> 2"
    using saved_begin by blast
  have res: "resolve_insert_values None [[Literal (VInt 5)]] (tb_schema row_meta) = Inr [[VInt 5]]"
    by (simp add: row_db(7) resolve_insert_values_def resolve_row_def id_schema_def schema_names_def constant_value_def cell_value_def pick_values_def dict_update_def)
  have tup: "res_map (row_tuple (tb_schema row_meta) (tx_id row_txn)) [[VInt 5]] = Inr [new_id_tuple 5]" "list_all fits_page [new_id_tuple 5]"
    using row_tuple_id [of 5] fits_new_id by (simp_all add: row_db(5,7))
  have small: "tx_id row_txn < 2 ^ 32" and room: "pool_count (db_pool db1) + length [[VInt 5]] \<le> INVALID_PAGE_ID"
    using db1(5) by (simp_all add: row_db(5) INVALID_PAGE_ID_def)
  obtain rids db2 where ins: "execute_insert (u ''t'') None [[Literal (VInt 5)]] row_txn db1 = (Inr (count_result ''INSERT'' (length [[VInt 5]])), db2)"
    and rids: "length rids = length [new_id_tuple 5]" and ch: "row_change db1 (u ''t'') ((versions db1 (u ''t''))(rids [\<mapsto>] [new_id_tuple 5]))
      (map2 (\<lambda>tup r. (R_OP, tx_id row_txn, insert_op (u ''t'') tup r)) [new_id_tuple 5] rids) (length [[VInt 5]]) db2"
    using insert_change [OF db1(1,3,2) small row_db(6) res tup room] by blast
  have act: "tx_id row_txn \<in> tm_active_xids (db_mgr db1)" by (simp add: db1(4) row_db(5))
  have H2: "row_history db0 db2" by (rule inserts [OF H1 act small db1(3) row_db(6) res tup room ins])
  obtain r where "rids = [r]" using rids by (auto simp: length_Suc_conv)
  then have r: "versions db2 (u ''t'') r = Some (new_id_tuple 5)" using row_changeD(3) [OF ch] by simp
  have open2: "\<not> wl_closed (tm_wal (db_mgr db2))" and act2: "tm_active_xids (db_mgr db2) = {2}"
    using row_changeD(4) [OF ch] db1(2,4) ch by (simp_all add: row_change_def)
  have st: "tx_state row_txn = TXN_ACTIVE" by (simp add: row_txn_def)
  note tc = tm_commit_logged [OF open2 small st]
  define db3 where "db3 = db2\<lparr>db_mgr := snd (tm_commit row_txn (db_mgr db2))\<rparr>"
  have cm: "on_mgr (tm_commit row_txn) db2 = (Inr (row_txn\<lparr>tx_state := TXN_COMMITTED\<rparr>), db3)" by (simp add: on_mgr_def py_zoom_def tc db3_def)
  have H3: "row_history db0 db3" by (rule commits [OF H2 small cm])
  have idle3: "\<not> has_active_transactions (db_mgr db3)" by (simp add: db3_def tc has_active_transactions_def act2 row_db(5))
  have "wl_synced (tm_wal (db_mgr db3)) \<le> length (wl_bytes (tm_wal (db_mgr db3)))" by (simp add: db3_def tc synced_def)
  moreover have "versions db3 = versions db2" by (simp add: versions_def db3_def table_heap_def fun_eq_iff split: option.splits)
  ultimately show ?thesis using cp bg ins cm H3 idle3 r by metis
qed

theorem recovery_restores_rows_witness:
  "\<exists>db0 db1 y db2 t' db3 db4 r. db_checkpoint saved_db = (Inr (), db0) \<and> db_begin db0 = (Inr row_txn, db1)
    \<and> execute_insert (u ''t'') None [[Literal (VInt 5)]] row_txn db1 = (Inr y, db2) \<and> on_mgr (tm_commit row_txn) db2 = (Inr t', db3)
    \<and> database_open (Some (dm_synced (bp_disk (db_pool db0)))) (cat_file (db_catalog db0)) (Some (wl_bytes (tm_wal (db_mgr db3)))) 2 = Inr db4
    \<and> versions db4 = versions db3 \<and> versions db4 (u ''t'') r = Some (new_id_tuple 5)"
proof -
  obtain db0 db1 y db2 t' db3 r where run: "db_checkpoint saved_db = (Inr (), db0)" "db_begin db0 = (Inr row_txn, db1)"
    "execute_insert (u ''t'') None [[Literal (VInt 5)]] row_txn db1 = (Inr y, db2)" "on_mgr (tm_commit row_txn) db2 = (Inr t', db3)"
    and H: "row_history db0 db3" "\<not> has_active_transactions (db_mgr db3)" "wl_synced (tm_wal (db_mgr db3)) \<le> length (wl_bytes (tm_wal (db_mgr db3)))"
    and r: "versions db3 (u ''t'') r = Some (new_id_tuple 5)"
    using saved_history by metis
  note P = saved_pool and S = saved_start
  obtain db4 where "database_open (Some (dm_synced (bp_disk (db_pool db0)))) (cat_file (db_catalog db0)) (Some (wl_bytes (tm_wal (db_mgr db3)))) 2 = Inr db4"
    "versions db4 = versions db3"
    using recovery_restores_rows [OF P(4) S(1) P(1,2) S(2) _ S(4) run(1) H, of 2] by auto
  with run r show ?thesis by metis
qed

end
