(* ===== verification/Indexed_Tables.thy ===== *)
theory Indexed_Tables
  imports Statement_Rows
begin

text \<open>
  Tables with indexes. Heaps and B+-trees share the pages of one pool; \<open>layout\<close> says that every table has
  its heap and every index its tree, and that no page belongs to two of them. The tree of
  an index is a ghost parameter: the catalog has only the page of its root, which changes when the tree
  grows.
\<close>

section \<open>Who owns which page\<close>

type_synonym trees = "ustring \<Rightarrow> ustring \<Rightarrow> tree"

datatype owner = Rows ustring | Index ustring ustring

definition index_at :: "pool \<Rightarrow> index_meta \<Rightarrow> tree \<Rightarrow> bool" where
  "index_at b idx T \<longleftrightarrow> (\<exists>c. btree_config (im_key_type idx) 8 False = Inr c
     \<and> tree_at \<lparr>bt_pool = b, bt_conf = c, bt_root = im_root_page_id idx\<rparr> T)"

definition owned :: "database \<Rightarrow> trees \<Rightarrow> owner \<Rightarrow> nat set" where
  "owned db L a = (case a of
       Rows n \<Rightarrow> (case tables db n of None \<Rightarrow> {} | Some m \<Rightarrow> set (heap_pages (table_heap db m)))
     | Index n i \<Rightarrow> (case tables db n of None \<Rightarrow> {} | Some m \<Rightarrow> if i \<in> fst ` set (tb_indexes m) then set (pages (L n i)) else {}))"

definition layout :: "trees \<Rightarrow> database \<Rightarrow> bool" where
  "layout L db \<longleftrightarrow>
     (\<forall>n m. tables db n = Some m \<longrightarrow> tb_name m = n \<and> distinct (map fst (tb_indexes m)) \<and> heap_inv (table_heap db m)
        \<and> (\<forall>(i, idx) \<in> set (tb_indexes m). index_at (db_pool db) idx (L n i)))
     \<and> (\<forall>a b. a \<noteq> b \<longrightarrow> owned db L a \<inter> owned db L b = {})"

lemma layoutD:
  assumes "layout L db" and "tables db n = Some m"
  shows "tb_name m = n" and "distinct (map fst (tb_indexes m))" and "heap_inv (table_heap db m)"
    and "(i, idx) \<in> set (tb_indexes m) \<Longrightarrow> index_at (db_pool db) idx (L n i)"
  using assms unfolding layout_def by blast+

lemma layout_apart: "layout L db \<Longrightarrow> a \<noteq> b \<Longrightarrow> owned db L a \<inter> owned db L b = {}"
  unfolding layout_def by blast

lemma owned_Rows: "tables db n = Some m \<Longrightarrow> owned db L (Rows n) = set (heap_pages (table_heap db m))"
  by (simp add: owned_def)

lemma owned_Index: "tables db n = Some m \<Longrightarrow> (i, idx) \<in> set (tb_indexes m) \<Longrightarrow> owned db L (Index n i) = set (pages (L n i))"
  by (force simp: owned_def)

lemma index_atD:
  assumes "index_at b idx T"
  shows "p \<in> set (pages T) \<Longrightarrow> p < pool_count b"
    and "pool_inv b" and "pool_stale b = {}" and "2 \<le> v_avail (pool_view b)" and "pool_count b \<le> INVALID_PAGE_ID"
proof -
  from assms obtain c where t: "tree_at \<lparr>bt_pool = b, bt_conf = c, bt_root = im_root_page_id idx\<rparr> T" unfolding index_at_def by blast
  note D = tree_atD [OF t]
  show "p \<in> set (pages T) \<Longrightarrow> p < pool_count b" using pages_okD(3) [OF tree_invD(1) [OF D(6)]] by fastforce
  show "pool_inv b" "pool_stale b = {}" "2 \<le> v_avail (pool_view b)" "pool_count b \<le> INVALID_PAGE_ID"
    using D(2,3,4) by (simp_all add: at_view_def)
qed

lemma owned_less: "layout L db \<Longrightarrow> p \<in> owned db L a \<Longrightarrow> p < pool_count (db_pool db)"
proof (cases a)
  case (Rows n)
  assume "layout L db" "p \<in> owned db L a"
  then show ?thesis using layoutD(3) [of L db n] Rows by (auto simp: owned_def heap_inv_def heap_on_def split: option.splits)
next
  case (Index n i)
  assume l: "layout L db" and p: "p \<in> owned db L a"
  then obtain m idx where "tables db n = Some m" "(i, idx) \<in> set (tb_indexes m)" "p \<in> set (pages (L n i))"
    using Index by (auto simp: owned_def split: option.splits if_splits)
  then show ?thesis using index_atD(1) [OF layoutD(4) [OF l]] by blast
qed

text \<open>A tree is the same in every idle pool that has its pages.\<close>

lemma index_frame:
  assumes at: "index_at b idx T" and step: "pool_step A b b'" and out: "set (pages T) \<inter> A = {}"
  shows "index_at b' idx T"
proof -
  from at obtain c where c: "btree_config (im_key_type idx) 8 False = Inr c" and t: "tree_at \<lparr>bt_pool = b, bt_conf = c, bt_root = im_root_page_id idx\<rparr> T"
    unfolding index_at_def by blast
  note D = tree_atD [OF t, simplified] and P = tree_invD(1) [OF tree_atD(6) [OF t]]
  have same: "p < pool_count b' \<and> pool_page b' p = pool_page b p" if "(p, x) \<in> set (images T)" for p x
  proof -
    have "p < pool_count b" "p \<notin> A" using pages_okD(3) [OF P that] that out by force+
    then show ?thesis using step by (auto simp: pool_step_def)
  qed
  have "pages_ok c (pool_page b') (pool_count b') (images T)" using P same unfolding pages_ok_def by fastforce
  then have "tree_inv c (pool_page b') (pool_count b') T" using D(6) by (simp add: tree_inv_def)
  moreover have "at_view {} (pool_view b') b'" "2 \<le> v_avail (pool_view b')" "pool_count b' \<le> INVALID_PAGE_ID"
    using step D(3) by (simp_all add: pool_step_def at_view_def)
  ultimately have "tree_at \<lparr>bt_pool = b', bt_conf = c, bt_root = im_root_page_id idx\<rparr> T" using D by (simp add: tree_at_def)
  with c show ?thesis unfolding index_at_def by blast
qed

text \<open>A step on the heap of one table.\<close>

lemma layout_heap_step:
  assumes lay: "layout L db" and tab: "tables db n = Some m" and step: "heap_step (table_heap db m) M h'"
    and db': "cat_tables (db_catalog db') = cat_tables (db_catalog db)" "db_pool db' = hf_pool h'"
  shows "layout L db'" and "versions db' = (versions db)(n := M)" and "table_heap db' m = h'"
    and "pool_count (db_pool db') \<le> Suc (pool_count (db_pool db))"
proof -
  note S = step [unfolded heap_step_def, simplified]
  have ps: "pool_step (owned db L (Rows n)) (db_pool db) (db_pool db')" using S db'(2) by (simp add: owned_Rows [OF tab])
  show own: "table_heap db' m = h'" using heap_inv_of [of h'] S db'(2) by (simp add: table_heap_def)
  have other: "heap_inv (table_heap db' m') \<and> heap_pages (table_heap db' m') = heap_pages (table_heap db m')
      \<and> heap_map (table_heap db' m') = heap_map (table_heap db m')" if "tables db n' = Some m'" "n' \<noteq> n" for n' m'
  proof -
    have "set (heap_pages (table_heap db m')) \<inter> owned db L (Rows n) = {}"
      using layout_apart [OF lay, of "Rows n'" "Rows n"] that by (simp add: owned_Rows [OF that(1)])
    from heap_frame [OF layoutD(3) [OF lay that(1), unfolded table_heap_def] ps this [unfolded table_heap_def]]
    show ?thesis by (simp add: table_heap_def)
  qed
  have ow: "owned db' L a = (if a = Rows n then set (heap_pages h') else owned db L a)" for a
    using other own tab db'(1) by (cases a) (auto simp: owned_def split: option.splits)
  have fresh: "set (heap_pages h') \<inter> owned db L a = {}" if "a \<noteq> Rows n" for a
    using S layout_apart [OF lay that] owned_less [OF lay, of _ a] by (fastforce simp: owned_Rows [OF tab])
  show "layout L db'" unfolding layout_def db'(1)
  proof (intro conjI allI impI)
    fix n1 m1 assume t: "tables db n1 = Some m1"
    note D = layoutD [OF lay t]
    show "tb_name m1 = n1" "distinct (map fst (tb_indexes m1))" by (rule D)+
    show "heap_inv (table_heap db' m1)" using t tab own S other [OF t] by (cases "n1 = n") auto
    show "\<forall>(i, idx) \<in> set (tb_indexes m1). index_at (db_pool db') idx (L n1 i)"
    proof safe
      fix i idx assume i: "(i, idx) \<in> set (tb_indexes m1)"
      have "set (pages (L n1 i)) \<inter> owned db L (Rows n) = {}"
        using layout_apart [OF lay, of "Index n1 i" "Rows n"] by (simp add: owned_Index [OF t i])
      then show "index_at (db_pool db') idx (L n1 i)" by (rule index_frame [OF D(4) [OF i] ps])
    qed
  next
    fix a b :: owner assume "a \<noteq> b"
    then show "owned db' L a \<inter> owned db' L b = {}"
      using fresh [of a] fresh [of b] layout_apart [OF lay, of a b] unfolding ow by (auto split: if_splits)
  qed
  show "versions db' = (versions db)(n := M)"
  proof (rule ext)
    fix n1
    show "versions db' n1 = ((versions db)(n := M)) n1"
      using own S tab other [of n1] db'(1) by (cases "n1 = n") (auto simp: versions_def fun_eq_iff split: option.splits)
  qed
  show "pool_count (db_pool db') \<le> Suc (pool_count (db_pool db))" using S db'(2) by simp
qed

text \<open>A step on the tree of one index, after which the catalog has its new root.\<close>

definition set_root :: "ustring \<Rightarrow> nat \<Rightarrow> table_meta \<Rightarrow> table_meta" where
  "set_root i r m = m\<lparr>tb_indexes := map (\<lambda>(j, idx). (j, if j = i then idx\<lparr>im_root_page_id := r\<rparr> else idx)) (tb_indexes m)\<rparr>"

lemma set_root_sel [simp]:
  "tb_name (set_root i r m) = tb_name m" "tb_schema (set_root i r m) = tb_schema m"
  "tb_heap_first_page_id (set_root i r m) = tb_heap_first_page_id m" "map fst (tb_indexes (set_root i r m)) = map fst (tb_indexes m)"
  "fst ` set (tb_indexes (set_root i r m)) = fst ` set (tb_indexes m)"
  by (auto simp: set_root_def image_image case_prod_unfold)

lemma table_heap_root [simp]: "table_heap db (set_root i r m) = table_heap db m"
  by (simp add: table_heap_def)

lemma tree_pool_step:
  assumes "tree_at t T" and "evolves A (pool_view b) (pool_view (bt_pool t))"
  shows "pool_step A b (bt_pool t)"
  using tree_atD [OF assms(1)] assms(2) by (auto simp: pool_step_def at_view_def evolves_def pool_view_sel pool_view_def)

lemma layout_tree_step:
  assumes lay: "layout L db" and tab: "tables db n = Some m" and i: "(i, idx) \<in> set (tb_indexes m)"
    and c: "btree_config (im_key_type idx) 8 False = Inr c" and T': "tree_at \<lparr>bt_pool = b, bt_conf = c, bt_root = r\<rparr> T'"
    and ev: "evolves (set (pages (L n i))) (pool_view (db_pool db)) (pool_view b)"
    and pg: "set (pages T') \<subseteq> set (pages (L n i)) \<union> {pool_count (db_pool db)..}"
    and db': "tables db' = (tables db)(n \<mapsto> set_root i r m)" "db_pool db' = b"
  shows "layout (L(n := (L n)(i := T'))) db'" and "versions db' = versions db" and "hf_last (table_heap db' m) = hf_last (table_heap db m)"
proof -
  let ?L = "L(n := (L n)(i := T'))"
  have ps: "pool_step (owned db L (Index n i)) (db_pool db) (db_pool db')"
    using tree_pool_step [OF T'] ev db'(2) by (simp add: owned_Index [OF tab i])
  have heaps: "heap_inv (table_heap db' m') \<and> heap_pages (table_heap db' m') = heap_pages (table_heap db m')
      \<and> heap_map (table_heap db' m') = heap_map (table_heap db m')" if "tables db n' = Some m'" for n' m'
  proof -
    have "set (heap_pages (table_heap db m')) \<inter> owned db L (Index n i) = {}"
      using layout_apart [OF lay, of "Rows n'" "Index n i"] that by (simp add: owned_Rows [OF that(1)])
    from heap_frame [OF layoutD(3) [OF lay that(1), unfolded table_heap_def] ps this [unfolded table_heap_def]]
    show ?thesis by (simp add: table_heap_def)
  qed
  have ow: "owned db' ?L a = (if a = Index n i then set (pages T') else owned db L a)" for a
    using heaps tab db'(1) i by (cases a) (force simp: owned_def split: option.splits)+
  have fresh: "set (pages T') \<inter> owned db L a = {}" if "a \<noteq> Index n i" for a
  proof -
    have "owned db L (Index n i) \<inter> owned db L a = {}" using layout_apart [OF lay, of "Index n i" a] that by simp
    moreover have "\<forall>p \<in> owned db L a. p < pool_count (db_pool db)" using owned_less [OF lay, of _ a] by blast
    ultimately show ?thesis using pg unfolding owned_Index [OF tab i] by fastforce
  qed
  have trees: "index_at (db_pool db') idx' (L n1 j)" if t: "tables db n1 = Some m1" "(j, idx') \<in> set (tb_indexes m1)" "(n1, j) \<noteq> (n, i)" for n1 m1 j idx'
  proof -
    have "set (pages (L n1 j)) \<inter> owned db L (Index n i) = {}"
      using layout_apart [OF lay, of "Index n1 j" "Index n i"] t(3) by (simp add: owned_Index [OF t(1,2)])
    then show ?thesis by (rule index_frame [OF layoutD(4) [OF lay t(1,2)] ps])
  qed
  have mine: "index_at (db_pool db') (idx'\<lparr>im_root_page_id := r\<rparr>) T'" if "(i, idx') \<in> set (tb_indexes m)" for idx'
  proof -
    have "idx' = idx" using layoutD(2) [OF lay tab] i that by (metis eq_key_imp_eq_value)
    then show ?thesis using c T' db'(2) by (auto simp: index_at_def)
  qed
  show "layout ?L db'" unfolding layout_def
  proof (intro conjI allI impI)
    fix n1 m1 assume t: "tables db' n1 = Some m1"
    then obtain m0 where m0: "tables db n1 = Some m0" "m1 = (if n1 = n then set_root i r m0 else m0)" using db'(1) tab by (auto split: if_splits)
    note D = layoutD [OF lay m0(1)]
    show "tb_name m1 = n1" "distinct (map fst (tb_indexes m1))" using D m0(2) by auto
    show "heap_inv (table_heap db' m1)" using heaps [OF m0(1)] m0(2) by auto
    show "\<forall>(j, idx') \<in> set (tb_indexes m1). index_at (db_pool db') idx' (?L n1 j)"
      using m0 tab trees [OF m0(1)] mine by (cases "n1 = n") (auto simp: set_root_def)
  next
    fix a d :: owner assume "a \<noteq> d"
    then show "owned db' ?L a \<inter> owned db' ?L d = {}"
      using fresh [of a] fresh [of d] layout_apart [OF lay, of a d] unfolding ow by (auto split: if_splits)
  qed
  show "versions db' = versions db"
  proof (rule ext)
    fix n1
    show "versions db' n1 = versions db n1" using heaps [of n1] tab db'(1) by (cases "n1 = n") (auto simp: versions_def fun_eq_iff split: option.splits)
  qed
  have "table_heap db' m = heap_of b (tb_heap_first_page_id m)" using db'(2) by (simp add: table_heap_def)
  moreover have "heap_pages (table_heap db' m) = heap_pages (table_heap db m)" using heaps [OF tab] by simp
  ultimately show "hf_last (table_heap db' m) = hf_last (table_heap db m)" by (simp add: table_heap_def heap_of_def heap_pages_def)
qed

section \<open>Reading without a change\<close>

text \<open>The pool may have moved pages between its frames, and nothing else.\<close>

definition quiet :: "trees \<Rightarrow> table_meta \<Rightarrow> database \<Rightarrow> database \<Rightarrow> bool" where
  "quiet L m db db' \<longleftrightarrow> layout L db' \<and> cat_tables (db_catalog db') = cat_tables (db_catalog db) \<and> versions db' = versions db
     \<and> db_mgr db' = db_mgr db \<and> pool_count (db_pool db') = pool_count (db_pool db) \<and> heap_object db' m = heap_object db m"

lemma quiet_refl: "layout L db \<Longrightarrow> quiet L m db db"
  by (simp add: quiet_def)

lemma quiet_trans: "quiet L m db db' \<Longrightarrow> quiet L m db' db'' \<Longrightarrow> quiet L m db db''"
  by (simp add: quiet_def)

lemma quiet_view:
  assumes lay: "layout L db" and tab: "tables db n = Some m" and view: "at_view {} (pool_view (db_pool db)) b"
  shows "quiet L m db (set_pool b db)"
proof -
  have V: "pool_count b = pool_count (db_pool db)" "pool_page b = pool_page (db_pool db)" "pool_pins b = pool_pins (db_pool db)"
    "pool_inv b" "pool_stale b = {}" "v_avail (pool_view b) = v_avail (pool_view (db_pool db))"
    using view by (auto simp: at_view_def pool_view_def)
  have pages: "heap_pages (table_heap (set_pool b db) m) = heap_pages (table_heap db m)" for m
    by (simp add: heap_pages_def V)
  have last: "hf_last (table_heap (set_pool b db) m) = hf_last (table_heap db m)" for m
    by (simp add: table_heap_def heap_of_def heap_pages_def V)
  have inv: "heap_inv (table_heap (set_pool b db) m)" if "heap_inv (table_heap db m)" for m
    using that by (simp add: heap_inv_def heap_on_def heap_idle_def pages last V)
  have cnt: "pool_count (db_pool db) \<le> INVALID_PAGE_ID" using layoutD(3) [OF lay tab] by (simp add: heap_inv_def heap_on_def)
  note ps = pool_step_view [OF view cnt]
  have "owned (set_pool b db) L a = owned db L a" for a by (simp add: owned_def pages split: owner.splits option.splits)
  then have "layout L (set_pool b db)"
    using layoutD(1,2,4) [OF lay] inv [OF layoutD(3) [OF lay]] layout_apart [OF lay] index_frame [OF _ ps] unfolding layout_def by auto
  moreover have "heap_map (table_heap (set_pool b db) m) = heap_map (table_heap db m)" for m
    by (simp add: heap_map_def fun_eq_iff pages V)
  then have "versions (set_pool b db) = versions db" by (simp add: versions_def fun_eq_iff split: option.splits)
  ultimately show ?thesis using V(1) by (simp add: quiet_def heap_object_def last)
qed

lemma quiet_get:
  assumes lay: "layout L db" and tab: "tables db n = Some m" and r: "versions db n r = Some raw"
  shows "\<exists>db'. db_heap_get (heap_object db m) r db = (Inr (Some raw), db') \<and> quiet L m db db'"
proof -
  let ?h = "table_heap db m"
  note P = layoutD [OF lay tab] and V = versions_table [OF tab]
  have "rid_page_id r \<in> set (heap_pages ?h)" using r V by (auto simp: heap_map_def split: if_splits)
  from heap_get_step [OF P(3) this] obtain h' where g: "heap_get r ?h = (Inr (Some raw), h')"
    and st: "heap_step ?h (heap_map ?h) h'" and cnt: "pool_count (hf_pool h') = pool_count (db_pool db)" "hf_last h' = hf_last ?h"
    using r V by (auto simp: wp_total)
  define db' where "db' = set_pool (hf_pool h') db"
  have S: "layout L db'" "versions db' = (versions db)(n := heap_map ?h)" "table_heap db' m = h'"
    by (rule layout_heap_step [OF lay tab st]; simp add: db'_def set_pool_def)+
  have "db_heap_get (heap_object db m) r db = (Inr (Some raw), db')"
    using g by (simp add: db_heap_get_def on_db_pool_def on_catalog_def on_cat_pool_def with_heap_def py_zoom_def heap_object_def db'_def set_pool_def)
  moreover have "quiet L m db db'" using S V cnt by (auto simp: quiet_def heap_object_def db'_def)
  ultimately show ?thesis by blast
qed

lemma open_index_eq:
  "btree_config (im_key_type idx) 8 False = Inr c \<Longrightarrow> on_catalog (open_index idx False) db = (Inr (c, im_root_page_id idx), db)"
  by (simp add: open_index_def btree_open_def on_catalog_def on_cat_pool_def py_zoom_def py_bind_def py_lift_def py_return_def)

lemma quiet_search:
  assumes lay: "layout L db" and tab: "tables db n = Some m" and i: "(i, idx) \<in> set (tb_indexes m)"
    and c: "btree_config (im_key_type idx) 8 False = Inr c" and key: "key_ok c key"
  shows "\<exists>db'. on_db_pool (with_tree (c, im_root_page_id idx) (bt_search key)) db = (Inr (rids_for key (entries (items (L n i)))), db') \<and> quiet L m db db'"
proof -
  let ?t = "\<lparr>bt_pool = db_pool db, bt_conf = c, bt_root = im_root_page_id idx\<rparr>"
  have t: "tree_at ?t (L n i)" using layoutD(4) [OF lay tab i] c by (auto simp: index_at_def)
  have "wp (bt_search key) (\<lambda>rs t'. rs = rids_for key (entries (items (L n i))) \<and> (\<exists>b. t' = ?t\<lparr>bt_pool := b\<rparr> \<and> at_view {} (pool_view (db_pool db)) b)) (\<lambda>_ _. False) ?t"
    by (rule wp_search [OF t]) (use key in auto)
  then obtain b where "bt_search key ?t = (Inr (rids_for key (entries (items (L n i)))), ?t\<lparr>bt_pool := b\<rparr>)" "at_view {} (pool_view (db_pool db)) b"
    by (auto simp: wp_total)
  then show ?thesis using quiet_view [OF lay tab, of b]
    by (auto simp: on_db_pool_def on_catalog_def on_cat_pool_def with_tree_def py_zoom_def set_pool_def)
qed

section \<open>Unique indexes\<close>

text \<open>The transaction sees the version with this row id.\<close>

definition sees :: "database \<Rightarrow> transaction \<Rightarrow> ustring \<Rightarrow> rid \<Rightarrow> bool" where
  "sees db t n r = (case versions db n r of None \<Rightarrow> False | Some raw \<Rightarrow>
     (case unpack_tuple_header raw of Inl _ \<Rightarrow> False | Inr (xmin, xmax) \<Rightarrow> is_visible (db_mgr db) xmin xmax (tx_snapshot t)))"

lemma sees_quiet: "quiet L m db db' \<Longrightarrow> sees db' t n r = sees db t n r"
  by (auto simp: quiet_def sees_def split: option.splits sum.splits)

lemma unique_loop_eq:
  assumes "layout L db" and "tables db n = Some m" and "\<forall>r \<in> set rids. \<exists>raw h. versions db n r = Some raw \<and> unpack_tuple_header raw = Inr h"
  shows "\<exists>db'. unique_loop t (heap_object db m) ex rids db
      = (if \<exists>r \<in> set rids. ex \<noteq> Some r \<and> sees db t n r then Inl DuplicateKeyError else Inr (), db') \<and> quiet L m db db'"
  using assms
proof (induction rids arbitrary: db)
  case Nil
  then show ?case using quiet_refl by (simp add: py_return_def)
next
  case (Cons r rids)
  show ?case
  proof (cases "ex = Some r")
    case True
    then show ?thesis using Cons.IH [OF Cons.prems(1,2)] Cons.prems(3) by auto
  next
    case False
    from Cons.prems(3) obtain raw xmin xmax where raw: "versions db n r = Some raw" "unpack_tuple_header raw = Inr (xmin, xmax)" by auto
    obtain db1 where g: "db_heap_get (heap_object db m) r db = (Inr (Some raw), db1)" "quiet L m db db1"
      using quiet_get [OF Cons.prems(1,2) raw(1)] by blast
    note Q = g(2) [unfolded quiet_def]
    show ?thesis
    proof (cases "is_visible (db_mgr db) xmin xmax (tx_snapshot t)")
      case True
      then show ?thesis using g raw False Q by (auto simp: py_bind_def py_lift_def py_gets_def py_raise_def sees_def)
    next
      case False': False
      obtain db2 where "unique_loop t (heap_object db1 m) ex rids db1
          = (if \<exists>r \<in> set rids. ex \<noteq> Some r \<and> sees db1 t n r then Inl DuplicateKeyError else Inr (), db2)" "quiet L m db1 db2"
        using Cons.IH [of db1] Cons.prems(2,3) Q by auto
      moreover have "\<not> sees db t n r" using raw False' by (simp add: sees_def)
      ultimately show ?thesis using g raw False False' Q quiet_trans [OF g(2)] sees_quiet [OF g(2)]
        by (auto simp: py_bind_def py_lift_def py_gets_def)
    qed
  qed
qed

text \<open>A key clashes with the visible rows that the index lists for it, the replaced row apart.\<close>

definition clash :: "database \<Rightarrow> trees \<Rightarrow> transaction \<Rightarrow> ustring \<Rightarrow> ustring \<Rightarrow> pyval \<Rightarrow> rid option \<Rightarrow> bool" where
  "clash db L t n i key ex \<longleftrightarrow> (\<exists>r. (key, r) \<in> set (entries (items (L n i))) \<and> ex \<noteq> Some r \<and> sees db t n r)"

text \<open>Every row id of an index has a version in the table.\<close>

definition sound_index :: "database \<Rightarrow> trees \<Rightarrow> ustring \<Rightarrow> ustring \<Rightarrow> bool" where
  "sound_index db L n i \<longleftrightarrow>
     (\<forall>(k, r) \<in> set (entries (items (L n i))). \<exists>raw h. versions db n r = Some raw \<and> unpack_tuple_header raw = Inr h)"

lemma check_unique_eq:
  assumes lay: "layout L db" and tab: "tables db n = Some m" and i: "(i, idx) \<in> set (tb_indexes m)"
    and c: "btree_config (im_key_type idx) 8 False = Inr c" and key: "key_ok c key" and sound: "sound_index db L n i"
  shows "\<exists>db'. check_unique_constraint idx key t (heap_object db m) ex db
      = (if im_unique idx \<and> clash db L t n i key ex then Inl DuplicateKeyError else Inr (), db') \<and> quiet L m db db'"
proof (cases "im_unique idx")
  case True
  let ?rids = "rids_for key (entries (items (L n i)))"
  obtain db1 where s: "on_db_pool (with_tree (c, im_root_page_id idx) (bt_search key)) db = (Inr ?rids, db1)" "quiet L m db db1"
    using quiet_search [OF lay tab i c key] by blast
  note Q = s(2) [unfolded quiet_def]
  have "\<forall>r \<in> set ?rids. \<exists>raw h. versions db1 n r = Some raw \<and> unpack_tuple_header raw = Inr h"
    using sound Q unfolding sound_index_def by auto
  then obtain db2 where u: "unique_loop t (heap_object db1 m) ex ?rids db1
      = (if \<exists>r \<in> set ?rids. ex \<noteq> Some r \<and> sees db1 t n r then Inl DuplicateKeyError else Inr (), db2)" "quiet L m db1 db2"
    using unique_loop_eq [of L db1 n m ?rids t ex] tab Q by auto
  have "(\<exists>r \<in> set ?rids. ex \<noteq> Some r \<and> sees db1 t n r) = clash db L t n i key ex"
    unfolding clash_def sees_quiet [OF s(2)] by force
  then have "check_unique_constraint idx key t (heap_object db m) ex db
      = (if im_unique idx \<and> clash db L t n i key ex then Inl DuplicateKeyError else Inr (), db2)"
    using True s u Q open_index_eq [OF c] by (simp add: check_unique_constraint_def py_bind_def)
  then show ?thesis using quiet_trans [OF s(2) u(2)] by blast
next
  case False
  then show ?thesis using quiet_refl [OF lay] by (simp add: check_unique_constraint_def py_return_def)
qed

end
