(* ===== verification/Indexed_Rows.thy ===== *)
theory Indexed_Rows
  imports Indexed_Tables
begin

text \<open>
  \<^verbatim>\<open>INSERT\<close> into a table with indexes: the row goes to the heap, and an entry for it to every index of the
  table. A unique index refuses a key that a visible row has.
\<close>

section \<open>The entries of the indexes\<close>

abbreviation ents :: "trees \<Rightarrow> ustring \<Rightarrow> ustring \<Rightarrow> entry list" where
  "ents L n i \<equiv> entries (items (L n i))"

lemma sees_logged: "db_mgr db' = logged ops (db_mgr db) \<Longrightarrow> versions db' = versions db \<Longrightarrow> sees db' t n r = sees db t n r"
  by (auto simp: sees_def is_visible_def split: option.splits sum.splits)

lemma root_alist:
  assumes "distinct (map fst d)" and "(i, v) \<in> set d"
  shows "dict_set i (f v) d = map (\<lambda>(j, w). (j, if j = i then f w else w)) d"
  using assms
proof (induction d)
  case (Cons e d)
  obtain j w where e: "e = (j, w)" by (cases e)
  show ?case
  proof (cases "j = i")
    case True
    then have "map (\<lambda>(j, w). (j, if j = i then f w else w)) d = d" using Cons.prems(1) e by (intro map_idI) force
    moreover have "w = v" using Cons.prems True e by force
    ultimately show ?thesis using True e by simp
  next
    case False
    then show ?thesis using Cons e by auto
  qed
qed simp

lemma update_root_eq:
  assumes tab: "tables db n = Some m" and d: "distinct (map fst (tb_indexes m))" and i: "(i, idx) \<in> set (tb_indexes m)"
  shows "\<exists>db'. on_catalog (update_index_root n i r) db = (Inr (), db') \<and> tables db' = (tables db)(n \<mapsto> set_root i r m)
    \<and> db_pool db' = db_pool db \<and> db_mgr db' = db_mgr db"
proof -
  have mi: "map_of (tb_indexes m) i = Some idx" using map_of_is_SomeI [OF d i] .
  have root: "m\<lparr>tb_indexes := dict_set i (idx\<lparr>im_root_page_id := r\<rparr>) (tb_indexes m)\<rparr> = set_root i r m"
    unfolding set_root_def root_alist [OF d i, of "\<lambda>x. x\<lparr>im_root_page_id := r\<rparr>"] by simp
  show ?thesis
  proof (cases "im_root_page_id idx = r")
    case True
    then have "idx\<lparr>im_root_page_id := r\<rparr> = idx" by (cases idx) simp
    then have "set_root i r m = m" using root dict_set_same [OF mi] by simp
    then show ?thesis using True tab mi by (auto simp: update_index_root_def on_catalog_def py_zoom_def py_bind_def py_gets_def py_return_def fun_upd_idem)
  next
    case False
    let ?c = "set_index n i (idx\<lparr>im_root_page_id := r\<rparr>) (db_catalog db)"
    have "map_of (cat_tables ?c) = (tables db)(n \<mapsto> set_root i r m)" using tab root by (auto simp: fun_eq_iff set_index_tables)
    then show ?thesis using False tab mi
      by (auto simp: update_index_root_def on_catalog_def py_zoom_def py_bind_def py_gets_def py_seq_def py_modify_def cat_save_def set_index_def)
  qed
qed

text \<open>
  What the code needs of an index for a new row: a key that the pages can hold, fewer entries with this
  key than a leaf holds, and for a unique index no visible row with it.
\<close>

definition takes_key :: "database \<Rightarrow> trees \<Rightarrow> transaction \<Rightarrow> ustring \<Rightarrow> (ustring \<times> pyval) list \<Rightarrow> rid option \<Rightarrow> ustring \<times> index_meta \<Rightarrow> bool" where
  "takes_key db L t n vm ex = (\<lambda>(i, idx). small_name i
     \<and> (\<exists>key c. map_of vm (im_column idx) = Some key \<and> btree_config (im_key_type idx) 8 False = Inr c \<and> key_ok c key
          \<and> length (rids_for key (ents L n i)) < bc_max_leaf_keys c \<and> \<not> (im_unique idx \<and> clash db L t n i key ex)))"

definition index_ready :: "database \<Rightarrow> trees \<Rightarrow> transaction \<Rightarrow> ustring \<Rightarrow> (ustring \<times> pyval) list \<Rightarrow> rid option \<Rightarrow> ustring \<times> index_meta \<Rightarrow> bool" where
  "index_ready db L t n vm ex x \<longleftrightarrow> takes_key db L t n vm ex x \<and> sound_index db L n (fst x)"

definition row_key :: "(ustring \<times> pyval) list \<Rightarrow> index_meta \<Rightarrow> pyval" where
  "row_key vm idx = the (map_of vm (im_column idx))"

lemma heap_object_like: "tb_heap_first_page_id m' = tb_heap_first_page_id m \<Longrightarrow> heap_object db m' = heap_object db m"
  by (simp add: heap_object_def table_heap_def)

lemma index_row_eq:
  assumes lay: "layout L db" and tab: "tables db n = Some m" and i: "(i, idx) \<in> set (tb_indexes m)"
    and m0: "tb_name m0 = n" "tb_heap_first_page_id m0 = tb_heap_first_page_id m"
    and ready: "index_ready db L t n vm ex (i, idx)" and r: "rid_ok rid"
    and log: "\<not> wl_closed (tm_wal (db_mgr db))" "tx_id t < 2 ^ 32" "small_name n" and cnt: "pool_count (db_pool db) + 34 \<le> INVALID_PAGE_ID"
  shows "\<exists>T' root db'. index_row m0 t vm rid (heap_object db m0) ex (i, idx) db = (Inr (), db') \<and> layout (L(n := (L n)(i := T'))) db'
    \<and> entries (items T') = insert_entry (row_key vm idx) rid (ents L n i) \<and> versions db' = versions db
    \<and> tables db' = (tables db)(n \<mapsto> set_root i root m) \<and> db_mgr db' = logged [(R_OP, tx_id t, index_op n i (row_key vm idx) rid)] (db_mgr db)
    \<and> pool_count (db_pool db') \<le> pool_count (db_pool db) + 33 \<and> heap_object db' m0 = heap_object db m0"
proof -
  from ready obtain key c where k: "map_of vm (im_column idx) = Some key" "btree_config (im_key_type idx) 8 False = Inr c" "key_ok c key"
    "length (rids_for key (ents L n i)) < bc_max_leaf_keys c" "\<not> (im_unique idx \<and> clash db L t n i key ex)" "small_name i" "sound_index db L n i"
    unfolding index_ready_def takes_key_def by auto
  have key: "row_key vm idx = key" using k(1) by (simp add: row_key_def)
  note ho = heap_object_like [OF m0(2)]
  obtain db1 where un: "check_unique_constraint idx key t (heap_object db m) ex db = (Inr (), db1)" and q: "quiet L m db db1"
    using check_unique_eq [OF lay tab i k(2,3,7), of t ex] k(5) by auto
  note Q = q [unfolded quiet_def]
  have tab1: "tables db1 n = Some m" and lay1: "layout L db1" using tab Q by simp_all
  let ?t = "\<lparr>bt_pool = db_pool db1, bt_conf = c, bt_root = im_root_page_id idx\<rparr>"
  have at: "tree_at ?t (L n i)" using layoutD(4) [OF lay1 tab1 i] k(2) by (auto simp: index_at_def)
  have nu: "\<not> bc_unique c" using k(2) by (auto simp: btree_config_def Let_def split: if_splits)
  have "wp (bt_insert key rid) (\<lambda>_ t'. \<exists>T' b root. t' = ?t\<lparr>bt_pool := b, bt_root := root\<rparr> \<and> tree_at t' T' \<and> entries (items T') = insert_entry key rid (ents L n i)
      \<and> evolves (set (pages (L n i))) (pool_view (db_pool db1)) (pool_view b) \<and> set (pages T') \<subseteq> set (pages (L n i)) \<union> {pool_count (db_pool db1)..}
      \<and> pool_count b \<le> pool_count (db_pool db1) + 33) (\<lambda>_ _. False) ?t"
  proof (rule wp_insert [OF at _ r])
    show "Q" if "bc_max_leaf_keys (bt_conf ?t) \<le> length (filter (\<lambda>e. fst e = key) (ents L n i))" for Q using that k(4) by simp
  qed (use k(3) nu cnt Q in auto)
  then obtain T' b root where ins: "bt_insert key rid ?t = (Inr (), ?t\<lparr>bt_pool := b, bt_root := root\<rparr>)"
    and T': "tree_at \<lparr>bt_pool = b, bt_conf = c, bt_root = root\<rparr> T'" "entries (items T') = insert_entry key rid (ents L n i)"
    and ev: "evolves (set (pages (L n i))) (pool_view (db_pool db1)) (pool_view b)" "set (pages T') \<subseteq> set (pages (L n i)) \<union> {pool_count (db_pool db1)..}"
    and grow: "pool_count b \<le> pool_count (db_pool db1) + 33" by (auto simp: wp_total)
  let ?db2 = "set_pool b db1"
  have add: "on_db_pool (tree_add (c, im_root_page_id idx) key rid) db1 = (Inr (c, root), ?db2)"
    using ins by (simp add: tree_add_def on_db_pool_def on_catalog_def on_cat_pool_def py_zoom_def set_pool_def)
  have tab2: "tables ?db2 n = Some m" using tab1 by simp
  obtain db3 where up: "on_catalog (update_index_root n i root) ?db2 = (Inr (), db3)" "tables db3 = (tables db1)(n \<mapsto> set_root i root m)"
    "db_pool db3 = b" "db_mgr db3 = db_mgr db1"
    using update_root_eq [OF tab2 layoutD(2) [OF lay tab] i, of root] by auto
  have "bc_key_size c \<le> 1016" using k(2) by (auto simp: btree_config_def Let_def split: if_splits)
  moreover have "small_rid rid" using r by (simp add: rid_ok_def small_rid_def)
  ultimately have "entry_ok (R_OP, tx_id t, index_op n i key rid)" by (intro index_op_ok [OF log(3) k(6) _ k(3) _ log(2)])
  then have lg: "db_log t ''btree_insert'' [(u ''table'', JStr n), (u ''index'', JStr i), (u ''key'', key_json key), (u ''rid'', rid_json rid)] db3
      = (Inr (), db3\<lparr>db_mgr := logged [(R_OP, tx_id t, index_op n i key rid)] (db_mgr db1)\<rparr>)"
    using db_log_eq [of db3 t "''btree_insert''"] log(1) up(4) Q by (simp add: index_op_def del: entry_ok.simps)
  define db4 where "db4 = db3\<lparr>db_mgr := logged [(R_OP, tx_id t, index_op n i key rid)] (db_mgr db1)\<rparr>"
  have S: "layout (L(n := (L n)(i := T'))) db4" "versions db4 = versions db1" "hf_last (table_heap db4 m) = hf_last (table_heap db1 m)"
    by (rule layout_tree_step [OF lay1 tab1 i k(2) T'(1) ev]; simp add: db4_def up)+
  have "index_row m0 t vm rid (heap_object db m0) ex (i, idx) db = (Inr (), db4)"
    using k(1) un add up(1) lg m0(1) ho open_index_eq [OF k(2)] by (simp add: index_row_def py_seq_def py_bind_def db4_def)
  moreover have "heap_object db4 m0 = heap_object db m0" using S(3) Q by (simp add: heap_object_like [OF m0(2)]) (simp add: heap_object_def)
  ultimately show ?thesis using S T'(2) up Q grow key by (intro exI [of _ T'] exI [of _ root] exI [of _ db4]) (simp add: db4_def)
qed

text \<open>The entries that a row adds to the indexes \<open>xs\<close>.\<close>

definition add_entries :: "(ustring \<times> pyval) list \<Rightarrow> rid \<Rightarrow> (ustring \<times> index_meta) list \<Rightarrow> (ustring \<Rightarrow> entry list) \<Rightarrow> ustring \<Rightarrow> entry list" where
  "add_entries vm rid xs E i = (case map_of xs i of None \<Rightarrow> E i | Some idx \<Rightarrow> insert_entry (row_key vm idx) rid (E i))"

lemma add_entries_Cons:
  "i \<notin> fst ` set xs \<Longrightarrow> add_entries vm rid xs (E(i := insert_entry (row_key vm idx) rid (E i))) = add_entries vm rid ((i, idx) # xs) E"
proof -
  assume "i \<notin> fst ` set xs"
  then have "map_of xs i = None" by (simp add: map_of_eq_None_iff)
  then show ?thesis by (auto simp: add_entries_def fun_eq_iff split: option.splits)
qed

definition index_ops :: "nat \<Rightarrow> ustring \<Rightarrow> (ustring \<times> pyval) list \<Rightarrow> rid \<Rightarrow> (ustring \<times> index_meta) list \<Rightarrow> log_entry list" where
  "index_ops x n vm rid xs = map (\<lambda>(i, idx). (R_OP, x, index_op n i (row_key vm idx) rid)) xs"

text \<open>The part of a table that an index operation leaves alone: everything but the root pages.\<close>

definition shape :: "table_meta \<Rightarrow> table_meta" where
  "shape m = m\<lparr>tb_indexes := map (\<lambda>(i, idx). (i, idx\<lparr>im_root_page_id := 0\<rparr>)) (tb_indexes m)\<rparr>"

lemma shape_set_root [simp]: "shape (set_root i r m) = shape m"
  by (simp add: shape_def set_root_def comp_def case_prod_unfold if_distrib cong: if_cong)

lemma set_root_other: "i \<noteq> j \<Longrightarrow> (j, idx) \<in> set (tb_indexes (set_root i r m)) \<longleftrightarrow> (j, idx) \<in> set (tb_indexes m)"
  by (force simp: set_root_def split: if_splits)

lemma index_ready_other:
  assumes "index_ready db L t n vm ex (j, idx)" and "i \<noteq> j" and "versions db' = versions db" and "db_mgr db' = logged ops (db_mgr db)"
  shows "index_ready db' (L(n := (L n)(i := T'))) t n vm ex (j, idx)"
  using assms sees_logged [OF assms(4,3)] by (auto simp: index_ready_def takes_key_def sound_index_def clash_def)

lemma index_rows_eq:
  assumes "layout L db" and "tables db n = Some m" and "set xs \<subseteq> set (tb_indexes m)" and "distinct (map fst xs)"
    and m0: "tb_name m0 = n" and "tb_heap_first_page_id m0 = tb_heap_first_page_id m"
    and "\<forall>x \<in> set xs. index_ready db L t n vm ex x" and r: "rid_ok rid"
    and "\<not> wl_closed (tm_wal (db_mgr db))" and log: "tx_id t < 2 ^ 32" "small_name n"
    and "pool_count (db_pool db) + 33 * length xs + 34 \<le> INVALID_PAGE_ID"
  shows "\<exists>L' db'. py_for xs (index_row m0 t vm rid (heap_object db m0) ex) db = (Inr (), db') \<and> layout L' db'
    \<and> ents L' = (ents L)(n := add_entries vm rid xs (ents L n)) \<and> versions db' = versions db
    \<and> map_option shape \<circ> tables db' = map_option shape \<circ> tables db \<and> db_mgr db' = logged (index_ops (tx_id t) n vm rid xs) (db_mgr db)
    \<and> pool_count (db_pool db') \<le> pool_count (db_pool db) + 33 * length xs \<and> heap_object db' m0 = heap_object db m0"
  using assms(1-4,6,7,9,12)
proof (induction xs arbitrary: L db m)
  case Nil
  then show ?case by (intro exI [of _ L] exI [of _ db]) (simp add: py_return_def add_entries_def [abs_def] index_ops_def fun_upd_idem)
next
  case (Cons x xs)
  obtain i idx where x: "x = (i, idx)" by (cases x)
  have i: "(i, idx) \<in> set (tb_indexes m)" "index_ready db L t n vm ex (i, idx)" using Cons.prems(3,6) x by auto
  have cnt: "pool_count (db_pool db) + 34 \<le> INVALID_PAGE_ID" using Cons.prems(8) by simp
  obtain T' root db1 where s: "index_row m0 t vm rid (heap_object db m0) ex (i, idx) db = (Inr (), db1)"
    "layout (L(n := (L n)(i := T'))) db1" "entries (items T') = insert_entry (row_key vm idx) rid (ents L n i)" "versions db1 = versions db"
    "tables db1 = (tables db)(n \<mapsto> set_root i root m)" "db_mgr db1 = logged [(R_OP, tx_id t, index_op n i (row_key vm idx) rid)] (db_mgr db)"
    "pool_count (db_pool db1) \<le> pool_count (db_pool db) + 33" "heap_object db1 m0 = heap_object db m0"
    using index_row_eq [OF Cons.prems(1,2) i(1) m0 Cons.prems(5) i(2) r Cons.prems(7) log cnt] by blast
  let ?L = "L(n := (L n)(i := T'))" and ?m = "set_root i root m"
  have fresh: "i \<notin> fst ` set xs" using Cons.prems(4) x by simp
  have sub: "set xs \<subseteq> set (tb_indexes ?m)" 
  proof
    fix y assume y: "y \<in> set xs"
    obtain j idx' where "y = (j, idx')" by (cases y)
    with y fresh Cons.prems(3) show "y \<in> set (tb_indexes ?m)" using set_root_other [of i j idx' root m] by (metis fst_conv image_eqI list.set_intros(2) subset_iff)
  qed
  have ready: "\<forall>x \<in> set xs. index_ready db1 ?L t n vm ex x"
  proof
    fix y assume y: "y \<in> set xs"
    obtain j idx' where "y = (j, idx')" by (cases y)
    with y fresh Cons.prems(6) show "index_ready db1 ?L t n vm ex y" by (force intro!: index_ready_other [OF _ _ s(4,6)])
  qed
  have step: "tables db1 n = Some ?m" "distinct (map fst xs)" "tb_heap_first_page_id m0 = tb_heap_first_page_id ?m"
    "\<not> wl_closed (tm_wal (db_mgr db1))" "pool_count (db_pool db1) + 33 * length xs + 34 \<le> INVALID_PAGE_ID"
    using s(5-7) Cons.prems(4,5,7,8) by simp_all
  obtain L' db2 where R: "py_for xs (index_row m0 t vm rid (heap_object db1 m0) ex) db1 = (Inr (), db2)" "layout L' db2"
    "ents L' = (ents ?L)(n := add_entries vm rid xs (ents ?L n))" "versions db2 = versions db1"
    "map_option shape \<circ> tables db2 = map_option shape \<circ> tables db1" "db_mgr db2 = logged (index_ops (tx_id t) n vm rid xs) (db_mgr db1)"
    "pool_count (db_pool db2) \<le> pool_count (db_pool db1) + 33 * length xs" "heap_object db2 m0 = heap_object db1 m0"
    using Cons.IH [OF s(2) step(1) sub step(2,3) ready step(4,5)] by blast
  have E: "ents ?L n = (ents L n)(i := insert_entry (row_key vm idx) rid (ents L n i))" "\<And>n'. n' \<noteq> n \<Longrightarrow> ents ?L n' = ents L n'"
    using s(3) by (auto simp: fun_eq_iff)
  have "ents L' = (ents L)(n := add_entries vm rid (x # xs) (ents L n))"
    unfolding R(3) x E(1) using E(2) add_entries_Cons [OF fresh, of vm rid "ents L n" idx] by (auto simp: fun_eq_iff)
  moreover have "map_option shape \<circ> tables db2 = map_option shape \<circ> tables db" using R(5) s(5) Cons.prems(2) by (auto simp: fun_eq_iff)
  moreover have "db_mgr db2 = logged (index_ops (tx_id t) n vm rid (x # xs)) (db_mgr db)"
    using R(6) s(6) by (simp add: logged_append index_ops_def x)
  moreover have "py_for (x # xs) (index_row m0 t vm rid (heap_object db m0) ex) db = (Inr (), db2)"
    using s(1,8) R(1) by (simp add: x py_seq_def py_bind_def)
  moreover have "versions db2 = versions db" "pool_count (db_pool db2) \<le> pool_count (db_pool db) + 33 * length (x # xs)" "heap_object db2 m0 = heap_object db m0"
    using R(4,7,8) s(4,7,8) by simp_all
  ultimately show ?case using R(2) by blast
qed

section \<open>Inserting a row\<close>

text \<open>A new version does not change what the indexes list, nor which of the listed rows are visible.\<close>

lemma sound_insert:
  assumes "sound_index db L n i" and "versions db n rid = None" and "versions db' = (versions db)(n := (versions db n)(rid \<mapsto> tup))"
    and "db_mgr db' = logged ops (db_mgr db)"
  shows "sound_index db' L n i" and "clash db' L t n i key ex = clash db L t n i key ex"
proof -
  have old: "\<And>k r. (k, r) \<in> set (ents L n i) \<Longrightarrow> r \<noteq> rid" using assms(1,2) unfolding sound_index_def by fastforce
  have "sees db' t n r = sees db t n r" if "r \<noteq> rid" for r
    using that assms(3,4) by (auto simp: sees_def is_visible_def split: option.splits sum.splits)
  then show "clash db' L t n i key ex = clash db L t n i key ex" using old by (auto simp: clash_def)
  show "sound_index db' L n i" using old assms(1,3) by (fastforce simp: sound_index_def)
qed

lemma index_ready_insert:
  assumes "index_ready db L t n vm ex x" and "versions db n rid = None" and "versions db' = (versions db)(n := (versions db n)(rid \<mapsto> tup))"
    and "db_mgr db' = logged ops (db_mgr db)"
  shows "index_ready db' L t n vm ex x"
proof -
  obtain i idx where x: "x = (i, idx)" by (cases x)
  have "sound_index db L n i" using assms(1) by (simp add: x index_ready_def)
  note S = sound_insert [OF this assms(2-4)]
  then show ?thesis using assms(1) S(2) by (auto simp: x index_ready_def takes_key_def)
qed

abbreviation value_map :: "table_meta \<Rightarrow> pyval list \<Rightarrow> (ustring \<times> pyval) list" where
  "value_map m vs \<equiv> to_dict (zip (schema_names (tb_schema m)) vs)"

lemma insert_version_layout:
  assumes lay: "layout L db" and tab: "tables db n = Some m" and log: "\<not> wl_closed (tm_wal (db_mgr db))" "tx_id t < 2 ^ 32" "small_name n"
    and tup: "row_tuple (tb_schema m) (tx_id t) vs = Inr tup" "fits_page tup" and cnt: "pool_count (db_pool db) < INVALID_PAGE_ID"
  shows "\<exists>rid db'. insert_version m t (heap_object db m) vs db = (Inr (rid, heap_object db' m), db') \<and> versions db n rid = None \<and> rid_ok rid
    \<and> layout L db' \<and> versions db' = (versions db)(n := (versions db n)(rid \<mapsto> tup)) \<and> tables db' = tables db
    \<and> db_mgr db' = logged [(R_OP, tx_id t, insert_op n tup rid)] (db_mgr db) \<and> pool_count (db_pool db') \<le> Suc (pool_count (db_pool db))"
proof -
  let ?h = "table_heap db m"
  note P = layoutD [OF lay tab] and V = versions_table [OF tab]
  have name: "small_name (tb_name m)" using P(1) log(3) by simp
  obtain rid h' db' where db': "db' = (set_pool (hf_pool h') db)\<lparr>db_mgr := logged [(R_OP, tx_id t, insert_op n tup rid)] (db_mgr db)\<rparr>"
    and run: "insert_version m t (heap_object db m) vs db = (Inr (rid, heap_object db' m), db')" and new: "heap_map ?h rid = None"
    and st: "heap_step ?h ((heap_map ?h)(rid \<mapsto> tup)) h'"
    using insert_version_run [OF P(3) log(1,2) name tup cnt] P(1) unfolding Let_def by metis
  have S: "layout L db'" "versions db' = (versions db)(n := (heap_map ?h)(rid \<mapsto> tup))" "pool_count (db_pool db') \<le> Suc (pool_count (db_pool db))"
    by (rule layout_heap_step [OF lay tab st]; simp add: db' set_pool_def)+
  have "rid_ok rid" by (rule rid_ok_version [of h' rid tup]) (use st in \<open>simp_all add: heap_step_def\<close>)
  moreover have "tables db' = tables db" "db_mgr db' = logged [(R_OP, tx_id t, insert_op n tup rid)] (db_mgr db)" by (simp_all add: db')
  ultimately show ?thesis using run new S V by (intro exI [of _ rid] exI [of _ db']) simp
qed

lemma insert_row_eq:
  assumes lay: "layout L db" and tab: "tables db n = Some m" and log: "\<not> wl_closed (tm_wal (db_mgr db))" "tx_id t < 2 ^ 32" "small_name n"
    and tup: "row_tuple (tb_schema m) (tx_id t) vs = Inr tup" "fits_page tup"
    and ready: "\<forall>x \<in> set (tb_indexes m). index_ready db L t n (value_map m vs) None x"
    and cnt: "pool_count (db_pool db) + 33 * length (tb_indexes m) + 35 \<le> INVALID_PAGE_ID"
  shows "\<exists>rid L' db'. insert_rows m t (heap_object db m) [vs] 0 db = (Inr 1, db') \<and> versions db n rid = None \<and> layout L' db'
    \<and> versions db' = (versions db)(n := (versions db n)(rid \<mapsto> tup))
    \<and> ents L' = (ents L)(n := add_entries (value_map m vs) rid (tb_indexes m) (ents L n))
    \<and> map_option shape \<circ> tables db' = map_option shape \<circ> tables db
    \<and> db_mgr db' = logged ((R_OP, tx_id t, insert_op n tup rid) # index_ops (tx_id t) n (value_map m vs) rid (tb_indexes m)) (db_mgr db)
    \<and> pool_count (db_pool db') \<le> pool_count (db_pool db) + 33 * length (tb_indexes m) + 1"
proof -
  note P = layoutD [OF lay tab]
  obtain rid db1 where a: "insert_version m t (heap_object db m) vs db = (Inr (rid, heap_object db1 m), db1)" "versions db n rid = None" "rid_ok rid"
    "layout L db1" "versions db1 = (versions db)(n := (versions db n)(rid \<mapsto> tup))" "tables db1 = tables db"
    "db_mgr db1 = logged [(R_OP, tx_id t, insert_op n tup rid)] (db_mgr db)" "pool_count (db_pool db1) \<le> Suc (pool_count (db_pool db))"
    using insert_version_layout [OF lay tab log tup] cnt by auto
  have tab1: "tables db1 n = Some m" using tab a(6) by simp
  have ready1: "\<forall>x \<in> set (tb_indexes m). index_ready db1 L t n (value_map m vs) None x"
    using ready index_ready_insert [OF _ a(2,5,7)] by blast
  have log1: "\<not> wl_closed (tm_wal (db_mgr db1))" "pool_count (db_pool db1) + 33 * length (tb_indexes m) + 34 \<le> INVALID_PAGE_ID"
    using log(1) a(7,8) cnt by simp_all
  obtain L' db2 where b: "py_for (tb_indexes m) (index_row m t (value_map m vs) rid (heap_object db1 m) None) db1 = (Inr (), db2)" "layout L' db2"
    "ents L' = (ents L)(n := add_entries (value_map m vs) rid (tb_indexes m) (ents L n))" "versions db2 = versions db1"
    "map_option shape \<circ> tables db2 = map_option shape \<circ> tables db1"
    "db_mgr db2 = logged (index_ops (tx_id t) n (value_map m vs) rid (tb_indexes m)) (db_mgr db1)"
    "pool_count (db_pool db2) \<le> pool_count (db_pool db1) + 33 * length (tb_indexes m)"
    using index_rows_eq [OF a(4) tab1 order_refl P(2) P(1) refl ready1 a(3) log1(1) log(2,3) log1(2)] by blast
  have "insert_rows m t (heap_object db m) [vs] 0 db = (Inr 1, db2)"
    using a(1) b(1) tab1 P(1) by (simp add: py_bind_def py_seq_def py_gets_def py_return_def insert_into_indexes_def)
  moreover have "versions db2 = (versions db)(n := (versions db n)(rid \<mapsto> tup))" "map_option shape \<circ> tables db2 = map_option shape \<circ> tables db"
    "db_mgr db2 = logged ((R_OP, tx_id t, insert_op n tup rid) # index_ops (tx_id t) n (value_map m vs) rid (tb_indexes m)) (db_mgr db)"
    "pool_count (db_pool db2) \<le> pool_count (db_pool db) + 33 * length (tb_indexes m) + 1"
    using a(5-8) b(4-7) by (simp_all add: logged_append)
  ultimately show ?thesis using a(2) b(2,3) by blast
qed

end
