(* ===== verification/Index_Upkeep.thy ===== *)
theory Index_Upkeep
  imports Indexed_Rows
begin

text \<open>
  The indexes of a table list exactly its rows, and \<^verbatim>\<open>INSERT\<close> keeps it so. When a unique index refuses the
  row, the row is already in the heap and stays there.
\<close>

section \<open>An index that lists the rows of its table\<close>

text \<open>Every readable version has one entry, under its key, and there are no other entries.\<close>

definition lists_rows :: "database \<Rightarrow> trees \<Rightarrow> ustring \<Rightarrow> table_meta \<Rightarrow> ustring \<times> index_meta \<Rightarrow> bool" where
  "lists_rows db L n m = (\<lambda>(i, idx). distinct (map snd (ents L n i))
     \<and> (\<forall>k r. (k, r) \<in> set (ents L n i) \<longleftrightarrow>
          (\<exists>raw h. versions db n r = Some raw \<and> unpack_tuple_header raw = Inr h \<and> tuple_key (tb_schema m) (im_column idx) raw = Inr k)))"

lemma lists_sound: "lists_rows db L n m (i, idx) \<Longrightarrow> sound_index db L n i"
  by (auto simp: lists_rows_def sound_index_def)

text \<open>The planner may then answer a condition with the index, for every transaction.\<close>

lemma lists_covers:
  assumes "lists_rows db L n m (i, idx)" and "tables db n = Some m" and "sb_schema sb = tb_schema m"
    and "\<forall>r raw. versions db n r = Some raw \<longrightarrow> (\<exists>h k. unpack_tuple_header raw = Inr h \<and> tuple_key (tb_schema m) (im_column idx) raw = Inr k)"
    and "map_of ts = versions db n" and "distinct (map fst ts)"
  shows "index_covers sb (im_column idx) ts (ents L n i)"
proof -
  have mem: "(k, r) \<in> set (ents L n i) \<longleftrightarrow> (\<exists>raw h. versions db n r = Some raw \<and> unpack_tuple_header raw = Inr h
      \<and> tuple_key (tb_schema m) (im_column idx) raw = Inr k)" for k r using assms(1) by (simp add: lists_rows_def)
  have "rid \<in> snd ` set (ents L n i)" if "(rid, raw) \<in> set ts" for rid raw
  proof -
    have v: "versions db n rid = Some raw" using map_of_is_SomeI [OF assms(6) that] assms(5) by simp
    then obtain h k where "unpack_tuple_header raw = Inr h" "tuple_key (tb_schema m) (im_column idx) raw = Inr k" using assms(4) by blast
    with v have "(k, rid) \<in> set (ents L n i)" using mem by blast
    then show ?thesis by force
  qed
  moreover have "tuple_key (tb_schema m) (im_column idx) raw = Inr k" if "(k, r) \<in> set (ents L n i)" "map_of ts r = Some raw" for k r raw
    using that mem assms(5) by auto
  moreover have "distinct (map snd (ents L n i))" using assms(1) by (simp add: lists_rows_def)
  ultimately show ?thesis using assms(3) by (auto simp: index_covers_def)
qed

lemma lists_add:
  assumes old: "lists_rows db L n m (i, idx)" and new: "versions db n rid = None" "versions db' n = (versions db n)(rid \<mapsto> tup)"
    and key: "unpack_tuple_header tup = Inr h" "tuple_key (tb_schema m) (im_column idx) tup = Inr k"
    and ents: "ents L' n i = insert_entry k rid (ents L n i)" and same: "im_column idx' = im_column idx" "tb_schema m' = tb_schema m"
  shows "lists_rows db' L' n m' (i, idx')"
proof -
  have mem: "\<And>k r. (k, r) \<in> set (ents L n i) \<longleftrightarrow> (\<exists>raw h. versions db n r = Some raw \<and> unpack_tuple_header raw = Inr h
      \<and> tuple_key (tb_schema m) (im_column idx) raw = Inr k)" and d: "distinct (map snd (ents L n i))"
    using old by (auto simp: lists_rows_def)
  have fresh: "rid \<notin> snd ` set (ents L n i)" using mem new(1) by fastforce
  have "mset (ents L n i) = mset (takeWhile (\<lambda>e. fst e \<le> k) (ents L n i)) + mset (dropWhile (\<lambda>e. fst e \<le> k) (ents L n i))"
    by (metis mset_append takeWhile_dropWhile_id)
  then have "mset (map snd (insert_entry k rid (ents L n i))) = mset (rid # map snd (ents L n i))" by (simp add: insert_entry_def)
  then have "distinct (map snd (insert_entry k rid (ents L n i)))" using fresh d mset_eq_imp_distinct_iff by fastforce
  moreover have "(k', r) \<in> set (insert_entry k rid (ents L n i)) \<longleftrightarrow>
      (\<exists>raw h. versions db' n r = Some raw \<and> unpack_tuple_header raw = Inr h \<and> tuple_key (tb_schema m) (im_column idx) raw = Inr k')" for k' r
    using mem [of k' r] key new by (cases "r = rid") auto
  ultimately show ?thesis by (simp add: lists_rows_def ents same)
qed

text \<open>The key of a new row, read back from its tuple.\<close>

lemma new_row_key:
  assumes tup: "row_tuple sch x vs = Inr tup" and fit: "list_all2 (\<lambda>v col. fits v (col_type col)) vs (columns sch)"
    and names: "distinct (schema_names sch)" and key: "map_of (to_dict (zip (schema_names sch) vs)) col = Some key"
  shows "unpack_tuple_header tup = Inr (x, INFINITY_TXN)" and "tuple_key sch col tup = Inr key"
proof -
  from tup obtain p where p: "encode_row vs sch = Inr p" "pack_tuple x INFINITY_TXN p = Inr tup" by (auto simp: row_tuple_def elim!: res_bindE)
  note U = unpack_pack_tuple [OF p(2)]
  show "unpack_tuple_header tup = Inr (x, INFINITY_TXN)" by (rule U(1))
  have dec: "decode_row (tuple_payload tup) sch = Inr vs" using decode_encode_row [OF p(1), of "[]"] res_map_zip_stored [OF fit] U(2) by simp
  have len: "length vs = length (schema_names sch)" using list_all2_lengthD [OF fit] by (simp add: schema_names_def)
  have "distinct (map fst (zip (schema_names sch) vs))" using names len by simp
  then have "map_of (zip (schema_names sch) vs) col = Some key" using key by (simp add: to_dict_distinct)
  then obtain j where j: "j < length vs" "schema_names sch ! j = col" "vs ! j = key" using len by (auto simp: set_zip dest!: map_of_SomeD)
  have "index_of sch col = Inr j"
    using j names len nth_eq_iff_index_eq [OF names] by (auto simp: index_of_def index_of_loop_Inr schema_names_def) 
  then show "tuple_key sch col tup = Inr key" using dec j(3) by (simp add: tuple_key_def)
qed

section \<open>Statements\<close>

lemma takes_key_quiet: "quiet L m db db' \<Longrightarrow> takes_key db L t n vm ex x \<Longrightarrow> takes_key db' L t n vm ex x"
  using sees_quiet [of L m db db' t n] by (auto simp: takes_key_def clash_def)

lemma lists_quiet: "quiet L m db db' \<Longrightarrow> lists_rows db' L n m' x = lists_rows db L n m' x"
  by (simp add: quiet_def lists_rows_def split: prod.splits)

lemma open_heap_quiet:
  assumes lay: "layout L db" and tab: "tables db n = Some m"
  shows "\<exists>db'. on_catalog (open_heap m) db = (Inr (heap_object db' m), db') \<and> quiet L m db db'"
proof -
  obtain b where b: "on_catalog (open_heap m) db = (Inr (heap_object db m), set_pool b db)" "at_view {} (pool_view (db_pool db)) b"
    using open_heap_run [OF layoutD(3) [OF lay tab]] by blast
  have "quiet L m db (set_pool b db)" by (rule quiet_view [OF lay tab b(2)])
  then show ?thesis using b(1) by (auto simp: quiet_def)
qed

text \<open>The start of \<^verbatim>\<open>INSERT\<close>, up to the loop over the rows.\<close>

lemma execute_insert_start:
  assumes "layout L db" and "tables db n = Some m" and "resolve_insert_values cols exprs (tb_schema m) = Inr rows"
  shows "\<exists>db0. quiet L m db db0 \<and> execute_insert n cols exprs t db =
    py_bind (insert_rows m t (heap_object db0 m) rows 0) (\<lambda>k. py_return (count_result ''INSERT'' k)) db0"
proof -
  obtain db0 where "on_catalog (open_heap m) db = (Inr (heap_object db0 m), db0)" "quiet L m db db0" using open_heap_quiet [OF assms(1,2)] by blast
  then show ?thesis using assms(2,3)
    by (intro exI [of _ db0]) (simp add: execute_insert_def get_table_eq py_bind_def py_lift_def)
qed

lemma shape_index:
  assumes "shape m' = shape m" and "(i, idx') \<in> set (tb_indexes m')"
  shows "\<exists>idx. (i, idx) \<in> set (tb_indexes m) \<and> im_column idx' = im_column idx" and "tb_schema m' = tb_schema m"
proof -
  have "map (\<lambda>(i, idx). (i, idx\<lparr>im_root_page_id := 0\<rparr>)) (tb_indexes m') = map (\<lambda>(i, idx). (i, idx\<lparr>im_root_page_id := 0\<rparr>)) (tb_indexes m)"
    using arg_cong [OF assms(1), of tb_indexes] by (simp add: shape_def)
  moreover have "(i, idx'\<lparr>im_root_page_id := 0\<rparr>) \<in> set (map (\<lambda>(i, idx). (i, idx\<lparr>im_root_page_id := 0\<rparr>)) (tb_indexes m'))" using assms(2) by force
  ultimately have "(i, idx'\<lparr>im_root_page_id := 0\<rparr>) \<in> set (map (\<lambda>(i, idx). (i, idx\<lparr>im_root_page_id := 0\<rparr>)) (tb_indexes m))" by simp
  then obtain idx where idx: "(i, idx) \<in> set (tb_indexes m)" "idx'\<lparr>im_root_page_id := 0\<rparr> = idx\<lparr>im_root_page_id := 0\<rparr>" by auto
  then have "im_column idx' = im_column idx" by (cases idx', cases idx) simp
  then show "\<exists>idx. (i, idx) \<in> set (tb_indexes m) \<and> im_column idx' = im_column idx" using idx(1) by blast
  show "tb_schema m' = tb_schema m" using arg_cong [OF assms(1), of tb_schema] by (simp add: shape_def)
qed

lemma insert_exact:
  assumes "layout L db" and "tables db n = Some m" and "\<not> wl_closed (tm_wal (db_mgr db))" and "tx_id t < 2 ^ 32" and "small_name n"
    and "resolve_insert_values cols [exprs] (tb_schema m) = Inr [vs]" and "list_all2 (\<lambda>v col. fits v (col_type col)) vs (columns (tb_schema m))"
    and "distinct (schema_names (tb_schema m))" and "row_tuple (tb_schema m) (tx_id t) vs = Inr tup" and "fits_page tup"
    and "\<forall>x \<in> set (tb_indexes m). takes_key db L t n (value_map m vs) None x \<and> lists_rows db L n m x"
    and "pool_count (db_pool db) + 33 * length (tb_indexes m) + 35 \<le> INVALID_PAGE_ID"
  shows "\<exists>rid L' db' m'. execute_insert n cols [exprs] t db = (Inr (count_result ''INSERT'' 1), db') \<and> layout L' db'
    \<and> versions db n rid = None \<and> versions db' = (versions db)(n := (versions db n)(rid \<mapsto> tup))
    \<and> tables db' n = Some m' \<and> shape m' = shape m \<and> (\<forall>x \<in> set (tb_indexes m'). lists_rows db' L' n m' x)
    \<and> (\<forall>n'. n' \<noteq> n \<longrightarrow> ents L' n' = ents L n') \<and> pool_count (db_pool db') \<le> pool_count (db_pool db) + 33 * length (tb_indexes m) + 1
    \<and> db_mgr db' = logged ((R_OP, tx_id t, insert_op n tup rid) # index_ops (tx_id t) n (value_map m vs) rid (tb_indexes m)) (db_mgr db)"
proof -
  obtain db0 where q: "quiet L m db db0" and run: "execute_insert n cols [exprs] t db =
      py_bind (insert_rows m t (heap_object db0 m) [vs] 0) (\<lambda>k. py_return (count_result ''INSERT'' k)) db0"
    using execute_insert_start [OF assms(1,2,6)] by blast
  note Q = q [unfolded quiet_def]
  have db0: "layout L db0" "tables db0 n = Some m" "\<not> wl_closed (tm_wal (db_mgr db0))"
    "pool_count (db_pool db0) + 33 * length (tb_indexes m) + 35 \<le> INVALID_PAGE_ID" using Q assms(2,3,12) by simp_all
  have "\<forall>x \<in> set (tb_indexes m). index_ready db0 L t n (value_map m vs) None x"
    using assms(11) takes_key_quiet [OF q] lists_quiet [OF q] lists_sound unfolding index_ready_def by (metis prod.collapse)
  from insert_row_eq [OF db0(1-3) assms(4,5,9,10) this db0(4)]
  obtain rid L' db' where R: "insert_rows m t (heap_object db0 m) [vs] 0 db0 = (Inr 1, db')" "versions db0 n rid = None" "layout L' db'"
    "versions db' = (versions db0)(n := (versions db0 n)(rid \<mapsto> tup))" "ents L' = (ents L)(n := add_entries (value_map m vs) rid (tb_indexes m) (ents L n))"
    "map_option shape \<circ> tables db' = map_option shape \<circ> tables db0"
    "db_mgr db' = logged ((R_OP, tx_id t, insert_op n tup rid) # index_ops (tx_id t) n (value_map m vs) rid (tb_indexes m)) (db_mgr db0)"
    "pool_count (db_pool db') \<le> pool_count (db_pool db0) + 33 * length (tb_indexes m) + 1" by blast
  have "map_option shape (tables db' n) = Some (shape m)" using fun_cong [OF R(6), of n] db0(2) by simp
  then obtain m' where m': "tables db' n = Some m'" "shape m' = shape m" by (cases "tables db' n") auto
  have "lists_rows db' L' n m' x" if x: "x \<in> set (tb_indexes m')" for x
  proof -
    obtain i idx' where x': "x = (i, idx')" by (cases x)
    obtain idx where idx: "(i, idx) \<in> set (tb_indexes m)" "im_column idx' = im_column idx" using shape_index(1) [OF m'(2)] x x' by blast
    have old: "lists_rows db L n m (i, idx)" "takes_key db L t n (value_map m vs) None (i, idx)" using assms(11) idx(1) by blast+
    then have key: "map_of (value_map m vs) (im_column idx) = Some (row_key (value_map m vs) idx)" by (auto simp: takes_key_def row_key_def)
    have "map_of (tb_indexes m) i = Some idx" using map_of_is_SomeI [OF layoutD(2) [OF assms(1,2)] idx(1)] .
    then have "ents L' n i = insert_entry (row_key (value_map m vs) idx) rid (ents L n i)" using fun_cong [OF fun_cong [OF R(5)], of n i] by (simp add: add_entries_def)
    moreover have "versions db n rid = None" "versions db' n = (versions db n)(rid \<mapsto> tup)" using R(2,4) Q by simp_all
    ultimately show ?thesis unfolding x'
      using lists_add [OF old(1) _ _ new_row_key [OF assms(9,7,8) key]] idx(2) shape_index(2) [OF m'(2)] x x' by blast
  qed
  moreover have "ents L' n' = ents L n'" if "n' \<noteq> n" for n' using fun_cong [OF R(5), of n'] that by simp
  moreover have "execute_insert n cols [exprs] t db = (Inr (count_result ''INSERT'' 1), db')" using run R(1) by (simp add: py_bind_def py_return_def)
  ultimately show ?thesis using R(2,3,4,7,8) Q m' by (intro exI [of _ rid] exI [of _ L'] exI [of _ db'] exI [of _ m']) simp
qed


section \<open>A table with a unique index\<close>

definition key_pool :: pool where
  "key_pool = snd (btree_open T_INT 8 None False (hf_pool fresh_heap))"

definition key_index :: index_meta where
  "key_index = \<lparr>im_name = u ''i'', im_column = u ''id'', im_root_page_id = 1, im_unique = True, im_key_type = T_INT\<rparr>"

definition key_meta :: table_meta where
  "key_meta = \<lparr>tb_name = u ''t'', tb_schema = id_schema, tb_heap_first_page_id = hf_first fresh_heap, tb_indexes = [(u ''i'', key_index)]\<rparr>"

definition key_db :: database where
  "key_db = \<lparr>db_catalog = \<lparr>cat_pool = key_pool, cat_tables = [(u ''t'', key_meta)], cat_file = None\<rparr>, db_mgr = tm_init (wal_open None) 2 None\<rparr>"

abbreviation key_trees :: trees where
  "key_trees \<equiv> \<lambda>_ _. Leaf 1 [] INVALID_PAGE_ID"

lemma key_pool:
  "tree_at \<lparr>bt_pool = key_pool, bt_conf = int_config False, bt_root = 1\<rparr> (Leaf 1 [] INVALID_PAGE_ID)"
  "pool_step {} (hf_pool fresh_heap) key_pool" "pool_count key_pool = 2"
proof -
  let ?b = "hf_pool fresh_heap" note F = fresh_heap(1) [unfolded heap_inv_def]
  have "at_view {} (pool_view ?b) ?b" "2 \<le> v_avail (pool_view ?b)" using F by (simp_all add: at_view_def heap_idle_def)
  moreover have "conf_ok (int_config False)" using btree_config_ok [OF int_config, of 8] by simp
  ultimately have "wp (btree_open T_INT 8 None False) (\<lambda>(c', p) b'. c' = int_config False \<and> p = pool_count ?b
    \<and> tree_at \<lparr>bt_pool = b', bt_conf = int_config False, bt_root = p\<rparr> (Leaf p [] INVALID_PAGE_ID) \<and> (\<exists>d. pool_view b' = view_grow d (pool_view ?b))) (\<lambda>_ _. False) ?b"
    by (intro btree_open_leaf) (use int_config in \<open>simp_all add: fresh_heap(3) INVALID_PAGE_ID_def\<close>)
  then
  obtain b' d where b': "btree_open T_INT 8 None False ?b = (Inr (int_config False, 1), b')"
    "tree_at \<lparr>bt_pool = b', bt_conf = int_config False, bt_root = 1\<rparr> (Leaf 1 [] INVALID_PAGE_ID)" "pool_view b' = view_grow d (pool_view ?b)"
    by (auto simp: wp_total fresh_heap(3))
  then have kp: "key_pool = b'" by (simp add: key_pool_def)
  show t: "tree_at \<lparr>bt_pool = key_pool, bt_conf = int_config False, bt_root = 1\<rparr> (Leaf 1 [] INVALID_PAGE_ID)" using b'(2) kp by simp
  show "pool_step {} ?b key_pool" using tree_pool_step [OF t, of "{}" ?b] evolves_grow [of "{}" "pool_view ?b" d] b'(3) kp by simp
  show "pool_count key_pool = 2" using arg_cong [OF b'(3), of v_count] fresh_heap(3) kp by (simp add: pool_view_sel)
qed

lemma key_db:
  "layout key_trees key_db" "tables key_db (u ''t'') = Some key_meta" "versions key_db (u ''t'') = Map.empty"
  "\<not> wl_closed (tm_wal (db_mgr key_db))" "pool_count (db_pool key_db) = 2"
proof -
  show tab: "tables key_db (u ''t'') = Some key_meta" by (simp add: key_db_def)
  have h: "heap_of (hf_pool fresh_heap) (hf_first fresh_heap) = fresh_heap" by (rule heap_inv_of [OF fresh_heap(1)])
  have th: "table_heap key_db key_meta = heap_of key_pool (hf_first fresh_heap)" by (simp add: table_heap_def key_db_def key_meta_def)
  note H = heap_frame [OF _ key_pool(2), of "hf_first fresh_heap", unfolded h, OF fresh_heap(1), folded th]
  have pages: "\<forall>p \<in> set (heap_pages fresh_heap). p < 1" using fresh_heap(1,3) by (simp add: heap_inv_def heap_on_def)
  have own: "owned key_db key_trees a = (if a = Rows (u ''t'') then set (heap_pages fresh_heap) else if a = Index (u ''t'') (u ''i'') then {1} else {})" for a
    using H(2) by (cases a) (simp_all add: owned_def, simp_all add: key_db_def key_meta_def)
  have "index_at (db_pool key_db) key_index (Leaf 1 [] INVALID_PAGE_ID)"
    using key_pool(1) int_config [of 8 False] by (simp add: index_at_def key_index_def key_db_def)
  moreover have "tables key_db n = Some m \<longleftrightarrow> n = u ''t'' \<and> m = key_meta" for n m by (auto simp: key_db_def)
  ultimately show "layout key_trees key_db" using H(1) pages unfolding layout_def own by (auto simp: key_meta_def)
  show "versions key_db (u ''t'') = Map.empty" using H(3) fresh_heap(2) versions_table [OF tab] by simp
  show "\<not> wl_closed (tm_wal (db_mgr key_db))" by (simp add: key_db_def tm_init_def wal_open_def Let_def)
  show "pool_count (db_pool key_db) = 2" using key_pool(3) by (simp add: key_db_def)
qed

lemma key_row:
  "resolve_insert_values None [[Literal (VInt 5)]] (tb_schema key_meta) = Inr [[VInt 5]]"
  "list_all2 (\<lambda>v col. fits v (col_type col)) [VInt 5] (columns (tb_schema key_meta))" "distinct (schema_names (tb_schema key_meta))"
  "row_tuple (tb_schema key_meta) (tx_id row_txn) [VInt 5] = Inr (new_id_tuple 5)" "map_of (value_map key_meta [VInt 5]) (u ''id'') = Some (VInt 5)"
  "key_ok (int_config False) (VInt 5)" "btree_config (im_key_type key_index) 8 False = Inr (int_config False)" "small_name (u ''i'')"
proof -
  show "row_tuple (tb_schema key_meta) (tx_id row_txn) [VInt 5] = Inr (new_id_tuple 5)" using row_tuple_id [of 5] by (simp add: row_db(5) key_meta_def)
  show "small_name (u ''i'')" using str_ok_const by (simp add: small_name_def) (simp add: u_def)
qed (simp_all add: key_meta_def resolve_insert_values_def resolve_row_def id_schema_def schema_names_def constant_value_def cell_value_def
    pick_values_def dict_update_def key_ok_def key_index_def int_config int_config_def)

lemma key_ready:
  "\<forall>x \<in> set (tb_indexes key_meta). takes_key key_db key_trees row_txn (u ''t'') (value_map key_meta [VInt 5]) None x \<and> lists_rows key_db key_trees (u ''t'') key_meta x"
proof -
  have "takes_key key_db key_trees row_txn (u ''t'') (value_map key_meta [VInt 5]) None (u ''i'', key_index)"
    unfolding takes_key_def prod.case
    by (intro conjI exI [of _ "VInt 5"] exI [of _ "int_config False"]) (use key_row in \<open>simp_all add: clash_def int_config_def key_index_def\<close>)
  moreover have "lists_rows key_db key_trees (u ''t'') key_meta (u ''i'', key_index)" using key_db(3) by (simp add: lists_rows_def)
  ultimately show ?thesis by (simp add: key_meta_def)
qed

lemma key_count: "pool_count (db_pool key_db) + 33 * length (tb_indexes key_meta) + 35 \<le> INVALID_PAGE_ID"
  using key_db(5) by (simp add: key_meta_def INVALID_PAGE_ID_def)

section \<open>Properties\<close>

text \<open>
  C11: \<^verbatim>\<open>INSERT\<close> of a row keeps the indexes of its table exact. If every index of the table lists exactly its row
  versions under their keys, and accepts the key of the new row, then the statement returns, the table has the
  new version, every index lists exactly the versions there are now, roots in the catalog included,
  and no other table and no other index changes.
\<close>

theorem insert_keeps_indexes_exact:
  assumes "layout L db" and "tables db n = Some m" and "\<not> wl_closed (tm_wal (db_mgr db))" and "tx_id t < 2 ^ 32" and "small_name n"
    and "resolve_insert_values cols [exprs] (tb_schema m) = Inr [vs]" and "list_all2 (\<lambda>v col. fits v (col_type col)) vs (columns (tb_schema m))"
    and "distinct (schema_names (tb_schema m))" and "row_tuple (tb_schema m) (tx_id t) vs = Inr tup" and "fits_page tup"
    and "\<forall>x \<in> set (tb_indexes m). takes_key db L t n (value_map m vs) None x \<and> lists_rows db L n m x"
    and "pool_count (db_pool db) + 33 * length (tb_indexes m) + 35 \<le> INVALID_PAGE_ID"
  shows "\<exists>rid L' db' m'. execute_insert n cols [exprs] t db = (Inr (count_result ''INSERT'' 1), db') \<and> layout L' db'
    \<and> versions db n rid = None \<and> versions db' = (versions db)(n := (versions db n)(rid \<mapsto> tup))
    \<and> tables db' n = Some m' \<and> shape m' = shape m \<and> (\<forall>x \<in> set (tb_indexes m'). lists_rows db' L' n m' x)
    \<and> (\<forall>n'. n' \<noteq> n \<longrightarrow> ents L' n' = ents L n') \<and> pool_count (db_pool db') \<le> pool_count (db_pool db) + 33 * length (tb_indexes m) + 1
    \<and> db_mgr db' = logged ((R_OP, tx_id t, insert_op n tup rid) # index_ops (tx_id t) n (value_map m vs) rid (tb_indexes m)) (db_mgr db)"
  by (rule insert_exact [OF assms])

theorem insert_keeps_indexes_exact_witness:
  "\<exists>rid L' db' m'. execute_insert (u ''t'') None [[Literal (VInt 5)]] row_txn key_db = (Inr (count_result ''INSERT'' 1), db') \<and> layout L' db'
    \<and> versions db' (u ''t'') = [rid \<mapsto> new_id_tuple 5] \<and> tables db' (u ''t'') = Some m' \<and> map (lists_rows db' L' (u ''t'') m') (tb_indexes m') = [True]"
proof -
  have small: "tx_id row_txn < 2 ^ 32" by (simp add: row_db(5))
  obtain rid L' db' m' where R: "execute_insert (u ''t'') None [[Literal (VInt 5)]] row_txn key_db = (Inr (count_result ''INSERT'' 1), db')" "layout L' db'"
    "versions db' = (versions key_db)(u ''t'' := (versions key_db (u ''t''))(rid \<mapsto> new_id_tuple 5))" "tables db' (u ''t'') = Some m'" "shape m' = shape key_meta"
    "\<forall>x \<in> set (tb_indexes m'). lists_rows db' L' (u ''t'') m' x"
    using insert_keeps_indexes_exact [OF key_db(1,2,4) small row_db(6) key_row(1-4) fits_new_id key_ready key_count] by blast
  have "map fst (tb_indexes m') = map fst (tb_indexes key_meta)" using arg_cong [OF R(5), of "\<lambda>m. map fst (tb_indexes m)"] by (simp add: shape_def comp_def case_prod_unfold)
  then obtain idx where "tb_indexes m' = [(u ''i'', idx)]" by (auto simp: key_meta_def)
  with R key_db(3) show ?thesis by (intro exI [of _ rid] exI [of _ L'] exI [of _ db'] exI [of _ m']) simp
qed



end
