(* ===== verification/Spec2Isabelle.thy ===== *)
theory Spec2Isabelle
  imports Heap_File Row_Types Transactions BTree_Index Sql_Errors Query_Laws Repl Replay Redo Index_Upkeep
begin

text \<open>
  A verification development for minirel, a small relational database in Python (\<^verbatim>\<open>src/src/minirel\<close>).
  It models the whole program: storage, log, transactions, B+-tree indexes, SQL front end, query
  execution, recovery and the interactive shell. Paths below are relative to \<^verbatim>\<open>src/src/minirel\<close>.

  \<^bold>\<open>The program and its parts.\<close> A \<^verbatim>\<open>Database\<close> (\<^verbatim>\<open>database.py\<close>) parses a statement (\<^verbatim>\<open>sql/\<close>), begins a
  transaction (\<^verbatim>\<open>transaction.py\<close>), plans a query (\<^verbatim>\<open>planner.py\<close>) as a tree of operators
  (\<^verbatim>\<open>executor.py\<close>) whose conditions are evaluated on rows (\<^verbatim>\<open>expr.py\<close>), and reads and writes rows in heap
  files (\<^verbatim>\<open>storage/heap_file.py\<close>) and index entries in B+-trees (\<^verbatim>\<open>index/btree.py\<close>). Both live in pages
  of one file that are cached in a buffer pool (\<^verbatim>\<open>storage/buffer_pool.py\<close>, \<^verbatim>\<open>storage/disk_manager.py\<close>).
  The catalog (\<^verbatim>\<open>catalog.py\<close>) is a JSON file beside it, and committed changes are in the
  write-ahead log (\<^verbatim>\<open>wal.py\<close>), from which a database that is opened again recovers.

  \<^bold>\<open>How code becomes definitions.\<close> A method is a function of type \<open>('s, 'a) py\<close> from the state of its
  object to a result or an exception, and the new state; the state after an exception is kept, as in
  Python. \<^verbatim>\<open>Prelude\<close> has this type, its combinators, the exceptions \<open>py_error\<close>, and the predicate
  transformer \<open>wp\<close> with the rule collection \<open>wp_rules\<close>: \<open>wp m Q E s\<close> says that \<open>m\<close> from \<open>s\<close> returns in a state
  of \<open>Q\<close> or raises in one of \<open>E\<close>. With \<open>E\<close> false this is total correctness. An object that owns another
  one is a record with the other as a field, and \<open>py_zoom\<close> runs a method of the part on the whole.
  Python's integers are \<open>int\<close>, strings are lists of code points, floats are 64-bit patterns,
  bytes are \<open>8 word\<close>, dictionaries are association lists in insertion order, and fields packed with
  \<^verbatim>\<open>struct\<close> raise \<open>StructError\<close> outside their width.

  \<^bold>\<open>The theories.\<close>

  \<^item> \<^verbatim>\<open>Disk_Manager\<close>: \<^verbatim>\<open>storage/page.py\<close> and \<^verbatim>\<open>storage/disk_manager.py\<close>, on the bytes of the file and the
    bytes known to be on disk. The locale \<open>page_device\<close> is the interface of an array of pages; the disk
    is its first interpretation.
  \<^item> \<^verbatim>\<open>Buffer_Pool\<close>: frames, page table, free list, LRU order, pins. \<open>pool_view\<close> is what callers
    see; the pool is a second \<open>page_device\<close>, so caching, eviction and reading again are invisible.
  \<^item> \<^verbatim>\<open>Heap_File\<close>: slotted pages and their chain. \<open>heap_map\<close> abstracts a heap to a map from row ids to
    bytes; the locale \<open>row_store\<close> states the contract of insert, get, update and scan.
  \<^item> \<^verbatim>\<open>Py_Numbers\<close>, \<^verbatim>\<open>Row_Types\<close>: Python's numbers and conversions; \<^verbatim>\<open>types.py\<close>, the byte format of rows and
    the header with \<open>xmin\<close> and \<open>xmax\<close>.
  \<^item> \<^verbatim>\<open>Json\<close>, \<^verbatim>\<open>Base64\<close>: the parts of the two library modules that the log and the catalog use, with
    their round trips. \<^verbatim>\<open>Write_Ahead_Log\<close>: \<^verbatim>\<open>wal.py\<close> on the bytes of the log; reading a torn log.
  \<^item> \<^verbatim>\<open>Transactions\<close>: \<^verbatim>\<open>transaction.py\<close>; the step relation of the manager with its reachable states,
    visibility, conflicts, and what recovery reads from the log.
  \<^item> \<^verbatim>\<open>BTree_Node\<close>, \<^verbatim>\<open>BTree\<close>: pages as nodes and every method of \<^verbatim>\<open>BPlusTree\<close>. \<^verbatim>\<open>BTree_Tree\<close> to \<^verbatim>\<open>BTree_Index\<close>: the
    tree that the pages form, its invariant, and proofs of search, range scan, insertion with splits
    and deletion with borrowing, merging and redistribution. The locale \<open>ordered_index\<close> is the contract over
    the list of entries, with the B+-tree as interpretation.
  \<^item> \<^verbatim>\<open>Sql_Syntax\<close>, \<^verbatim>\<open>Sql_Lexer\<close>, \<^verbatim>\<open>Sql_Parser\<close>: \<^verbatim>\<open>sql/ast.py\<close>, \<^verbatim>\<open>sql/lexer.py\<close>, \<^verbatim>\<open>sql/parser.py\<close>.
    \<^verbatim>\<open>Sql_Fuel\<close> and \<^verbatim>\<open>Sql_Errors\<close>: parsing ends on every text, and with which exceptions.
  \<^item> \<^verbatim>\<open>Catalog\<close>: \<^verbatim>\<open>catalog.py\<close> with its file. \<^verbatim>\<open>Expr_Eval\<close>: \<^verbatim>\<open>expr.py\<close>.
  \<^item> \<^verbatim>\<open>Query_Ops\<close>, \<^verbatim>\<open>Executor\<close>: \<^verbatim>\<open>executor.py\<close>; scans are generators that wait with their page pinned.
    \<^verbatim>\<open>Planner\<close>: \<^verbatim>\<open>planner.py\<close>. \<^verbatim>\<open>Query_Trace\<close>, \<^verbatim>\<open>Query_Run\<close>, \<^verbatim>\<open>Query_Semantics\<close>: the meaning of a plan over the
    stored tuples and entries, and that the operators compute it. \<^verbatim>\<open>Index_Pushdown\<close>, \<^verbatim>\<open>Query_Laws\<close>: the
    planner's use of an index, sorting, aggregates, well-typed conditions.
  \<^item> \<^verbatim>\<open>Database\<close>: \<^verbatim>\<open>database.py\<close>. \<^verbatim>\<open>Database_Laws\<close>, \<^verbatim>\<open>Op_Records\<close>: what statements do to the transaction manager
    and the log. \<^verbatim>\<open>Table_Heaps\<close>, \<^verbatim>\<open>Table_Rows\<close>, \<^verbatim>\<open>Statement_Rows\<close>: several tables in one pool, abstracted to the
    \<open>versions\<close> of each table, and the effect of \<^verbatim>\<open>INSERT\<close>, \<^verbatim>\<open>DELETE\<close>, \<^verbatim>\<open>UPDATE\<close> and \<^verbatim>\<open>SELECT\<close> on them.
    \<^verbatim>\<open>Indexed_Tables\<close>, \<^verbatim>\<open>Indexed_Rows\<close>, \<^verbatim>\<open>Index_Upkeep\<close>: tables with indexes, whose heaps and trees own disjoint
    pages (\<open>layout\<close>); \<^verbatim>\<open>INSERT\<close> on them, with the uniqueness check, the entries and moved roots in the catalog.
    \<^verbatim>\<open>Replay\<close>: what redoing one log record does to the versions. \<^verbatim>\<open>Checkpoint\<close>: the files after a checkpoint. \<^verbatim>\<open>Redo\<close>:
    histories of committed transactions after it, and that redoing their log restores the rows. This rests on
    \<open>twin\<close>: in two pools with the same pages, heap operations take the same row ids and write the same bytes.
  \<^item> \<^verbatim>\<open>Repl\<close>: \<^verbatim>\<open>repl.py\<close>, on the lines of the input.

  \<^bold>\<open>What is shown.\<close> Transactions see a stable snapshot, no update is lost, and each transaction is
  recovered wholly or not at all after a crash that tears the log at any byte. Every statement that is run
  on its own ends its transaction and is atomic. The four row statements read and write exactly the
  versions that the snapshot and the condition determine. A checkpoint makes the versions durable, and recovery from its pages
  and the log restores the versions of all later transactions, if none of them aborted. Plans compute
  their meaning; an index gives the rows of the sequential scan, and \<^verbatim>\<open>INSERT\<close> keeps every index listing exactly the
  rows of its table. Heap, pool, tree, row format, log and
  catalog refine maps, page arrays, entry lists and record lists, with round trips. The parser is total.
  Other theorems state where the code does less than its comments say: recovery repeats insertions that
  reached the disk, a row that a unique index refuses stays in the table, a checkpoint forgets aborted transactions, a \<^verbatim>\<open>NULL\<close> literal turns an index lookup into a
  full scan, a \<^verbatim>\<open>LIMIT\<close> leaves a page pinned, long text keys collide, a redistribution can overflow.

  \<^bold>\<open>Bounds and fuel.\<close> Loops over page chains (last page of a heap, heap scan, leaves and
  levels of a tree) get one unit of fuel more than the file has pages; the code detects a cycle or the
  invariant excludes it, and \<open>find_last_page_terminates\<close> and the tree specifications show that the fuel is
  never used up. The parser has eight units for each token and five more, which \<open>parse_result\<close> shows to be enough.
  The JSON reader has the length of its text. Queries and statements take fuel as a parameter; their theorems hold
  for all fuel from some bound on. Page numbers are below \<open>INVALID_PAGE_ID\<close>; an
  insertion into a tree asks for 34 free numbers (\<open>tree_room\<close>), since a tree with that many pages has at most 31 levels and
  each splits at most once. Transaction ids are below \<open>2 ^ 32\<close>, and
  table names have at most \<open>2 ^ 20\<close> characters, so that a log record fits its length field.

  \<^bold>\<open>Not modelled.\<close> The lock of the disk manager and threads; the texts of exceptions; JSON files in UTF-16 or
  UTF-32; Python's limits on recursion and on the digits of an integer; the order of NaN when sorting. Package
  files only export names, and the benchmarks only measure time. The theorems on \<^verbatim>\<open>DELETE\<close>, \<^verbatim>\<open>UPDATE\<close> and \<^verbatim>\<open>SELECT\<close> over
  \<open>versions\<close> are for tables without indexes (\<open>plain_db\<close>), those on \<^verbatim>\<open>INSERT\<close> also for tables with indexes; reading
  through an index is covered by the theorems on plans and on index scans.
\<close>

section \<open>Properties that span components\<close>



text \<open>
  Deleting a row version in place always succeeds: the bytes that \<^verbatim>\<open>with_xmax\<close> produces
  from a stored row have its length, so \<^verbatim>\<open>update_in_place\<close> accepts them, and a later \<^verbatim>\<open>get\<close>
  returns the row with the new \<open>xmax\<close>, the same \<open>xmin\<close> and the same payload.
\<close>

theorem stamp_xmax_in_place:
  assumes "heap_inv h" and "heap_map h r = Some d" and "with_xmax d x = Inr d'"
  shows "wp (py_seq (heap_update_in_place r d') (heap_get r))
    (\<lambda>y h'. y = Some d' \<and> heap_inv h' \<and> heap_map h' = (heap_map h)(r \<mapsto> d')
      \<and> tuple_payload d' = tuple_payload d
      \<and> (\<exists>xmin xmax. unpack_tuple_header d = Inr (xmin, xmax) \<and> unpack_tuple_header d' = Inr (xmin, x)))
    (\<lambda>_ _. False) h"
proof -
  note S = with_xmax_spec [OF assms(3)]
  have addr: "heap_addr h r" using heap.addr_map [OF assms(1), of r] assms(2) by simp
  show ?thesis unfolding wp_fun
  proof (rule wp_mono [OF heap.update_law [OF assms(1) addr, of d']], goal_cases)
    case (1 ok h')
    with assms(2) S have h': "heap_inv h'" "heap_addr h' r" "heap_map h' = (heap_map h)(r \<mapsto> d')"
      using addr by auto
    show ?case by (rule wp_mono [OF heap.get_law [OF h'(1,2)]]) (use h'(3) S in auto)
  qed simp
qed

text \<open>The tuple of a row version inserted by transaction 5, and the same after transaction 6 deleted it.\<close>

lemma sample_stamp: "with_xmax [5, 0, 0, 0, 255, 255, 255, 255, 1] 6 = Inr [5, 0, 0, 0, 6, 0, 0, 0, 1]"
  by (simp add: with_xmax_def unpack_tuple_header_def pack_tuple_def tuple_payload_def pack_uint_def
      MVCC_HEADER_SIZE_def le_bytes_numeral)

theorem stamp_xmax_in_place_witness:
  "wp (heap_insert [5, 0, 0, 0, 255, 255, 255, 255, 1])
    (\<lambda>r h. wp (py_seq (heap_update_in_place r [5, 0, 0, 0, 6, 0, 0, 0, 1]) (heap_get r))
       (\<lambda>y _. y = Some [5, 0, 0, 0, 6, 0, 0, 0, 1]) (\<lambda>_ _. False) h) (\<lambda>_ _. False) fresh_heap"
proof (rule wp_mono [OF heap.insert_law [OF fresh_heap(1) fresh_heap_fits]], goal_cases)
  case (2 r h)
  then have "heap_inv h" "heap_map h r = Some [5, 0, 0, 0, 255, 255, 255, 255, 1]" by auto
  from stamp_xmax_in_place [OF this sample_stamp] show ?case by (rule wp_mono) auto
qed simp_all

end
